(* ===== verification/Prelude.thy ===== *)
theory Prelude
  imports Main "HOL-Library.Word"
begin

text \<open>
  Shared vocabulary of the development: type synonyms for the machine types the C++ code uses,
  the collections of rewrite rules that the component proofs share, and the generic facts on
  division, bit operations and lists that more than one component needs.

  Conventions.
  \<^item> An array or buffer reached through a pointer is a list of its cells; \<open>b[i]\<close> is \<open>b ! i\<close>
    and \<open>b[i] = v\<close> is \<open>b[i := v]\<close>. Reading or writing outside the buffer is undefined
    in C++; the theorems carry the bounds under which it does not happen.
  \<^item> \<open>size_t\<close> positions and lengths are natural numbers where the code only adds, shifts and
    compares them (a bit address of a buffer in memory is far below the wrap-around of 64 bits),
    and words where wrap-around matters.
  \<^item> \<open>x >> k\<close> and \<open>x << k\<close> are \<open>drop_bit k x\<close> and \<open>push_bit k x\<close>.
\<close>

unbundle bit_operations_syntax

type_synonym u8 = "8 word"
type_synonym u32 = "32 word"
type_synonym u64 = "64 word"

named_theorems cell_simps \<open>facts on cell addresses (quotient and remainder by the cell width)\<close>
named_theorems bufbit_simps \<open>the bits of a buffer after an operation\<close>
named_theorems swar_simps \<open>splitting a number into fixed-width fields\<close>

section \<open>Quotients and remainders\<close>

lemma div_mod_unique:
  fixes q r L :: nat
  assumes "n = L * q + r" and "r < L"
  shows "n div L = q" and "n mod L = r"
  using assms by simp_all

lemma mod_add_no_carry:
  fixes i k L :: nat
  assumes "i mod L + k < L"
  shows "(i + k) mod L = i mod L + k" and "(i + k) div L = i div L"
proof -
  have "i + k = L * (i div L) + (i mod L + k)"
    by (metis add.assoc mult_div_mod_eq)
  from div_mod_unique [OF this assms]
  show "(i + k) mod L = i mod L + k" and "(i + k) div L = i div L" by simp_all
qed

lemma mod_add_one_carry:
  fixes i k L :: nat
  assumes "L \<le> i mod L + k" and "i mod L + k < 2 * L"
  shows "(i + k) mod L = i mod L + k - L" and "(i + k) div L = Suc (i div L)"
proof -
  have "i + k = L * (i div L) + (i mod L + k)"
    by (metis add.assoc mult_div_mod_eq)
  then have eq: "i + k = L * Suc (i div L) + (i mod L + k - L)"
    using assms(1) by (simp only: mult_Suc_right)
  have lt: "i mod L + k - L < L" using assms by simp
  from div_mod_unique [OF eq lt]
  show "(i + k) mod L = i mod L + k - L" and "(i + k) div L = Suc (i div L)" by simp_all
qed

lemma same_cell_iff:
  fixes i j L :: nat
  assumes "0 < L"
  shows "i div L = j div L \<and> i mod L = j mod L \<longleftrightarrow> i = j"
  using assms by (metis div_mult_mod_eq)

lemma less_by_cell:
  fixes i j L :: nat
  assumes "0 < L"
  shows "i < j \<longleftrightarrow> i div L < j div L \<or> i div L = j div L \<and> i mod L < j mod L"
proof -
  have "i div L < j div L \<Longrightarrow> i < j"
    by (metis div_le_mono leI leD)
  moreover have "j div L < i div L \<Longrightarrow> \<not> i < j"
    by (metis div_le_mono leD order.strict_implies_order)
  moreover have "i div L = j div L \<Longrightarrow> i < j \<longleftrightarrow> i mod L < j mod L"
    by (metis add_less_cancel_left mult_div_mod_eq)
  ultimately show ?thesis by linarith
qed

lemma div_block:
  fixes m B :: nat
  assumes "0 < B"
  shows "m div B * B \<le> m" and "m < (m div B + 1) * B"
proof -
  have "m = m div B * B + m mod B" by simp
  moreover have "m mod B < B" using assms by simp
  moreover have "(m div B + 1) * B = m div B * B + B" by simp
  ultimately show "m div B * B \<le> m" and "m < (m div B + 1) * B" by linarith+
qed

lemma ceil_less_iff:
  fixes i m B :: nat
  assumes "0 < B"
  shows "i < m div B + (if m mod B = 0 then 0 else 1) \<longleftrightarrow> i * B < m"
proof (cases "i < m div B")
  case True
  then have "(i + 1) * B \<le> m div B * B" by (intro mult_le_mono1) simp
  then have "(i + 1) * B \<le> m" using div_block(1) [OF assms, of m] by (rule order_trans)
  then show ?thesis using True assms by simp
next
  case False
  have m: "m = m div B * B + m mod B" by simp
  show ?thesis
  proof (cases "i = m div B")
    case True
    then have "i * B < m \<longleftrightarrow> 0 < m mod B" using m by (metis less_add_same_cancel1)
    then show ?thesis using True by simp
  next
    case neq: False
    then have "(m div B + 1) * B \<le> i * B" using False by (intro mult_le_mono1) simp
    then have "\<not> i * B < m" using div_block(2) [OF assms, of m] by linarith
    then show ?thesis using neq False by simp
  qed
qed

text \<open>The quotient rounded up.\<close>

definition cdiv :: "int \<Rightarrow> nat \<Rightarrow> int" where
  "cdiv n k = (n + 2 ^ k - 1) div 2 ^ k"

lemma cdiv_alt: "n div 2 ^ k + (if n mod 2 ^ k \<noteq> 0 then 1 else 0) = cdiv n k"
proof -
  define q r B where "q = n div 2 ^ k" and "r = n mod 2 ^ k" and "B = (2 :: int) ^ k"
  have n: "n = B * q + r" and r: "0 \<le> r" "r < B" by (simp_all add: q_def r_def B_def)
  have "(n + B - 1) div B = q + (if r \<noteq> 0 then 1 else 0)"
  proof (cases "r = 0")
    case True then show ?thesis using n r by (intro int_div_pos_eq [where r = "B - 1"]) (simp_all add: algebra_simps)
  next
    case False then show ?thesis using n r by (intro int_div_pos_eq [where r = "r - 1"]) (simp_all add: algebra_simps)
  qed
  then show ?thesis by (simp add: cdiv_def q_def r_def B_def)
qed

lemma less_cdiv_iff: "i < cdiv n k \<longleftrightarrow> i * 2 ^ k < n"
proof -
  define B where "B = (2 :: int) ^ k"
  define m where "m = n + B - 1"
  have B: "0 < B" by (simp add: B_def)
  have m: "m = m div B * B + m mod B" "0 \<le> m mod B" "m mod B < B" using B by simp_all
  have "i < m div B \<longleftrightarrow> (i + 1) * B \<le> m"
  proof
    assume "i < m div B"
    then have "(i + 1) * B \<le> m div B * B" using B by (intro mult_right_mono) simp_all
    then show "(i + 1) * B \<le> m" using m by linarith
  next
    assume *: "(i + 1) * B \<le> m"
    show "i < m div B"
    proof (rule ccontr)
      assume "\<not> i < m div B"
      then have "(m div B + 1) * B \<le> (i + 1) * B" using B by (intro mult_right_mono) simp_all
      then have "m div B * B + B \<le> m" using * by (simp add: algebra_simps)
      then show False using m by linarith
    qed
  qed
  moreover have "(i + 1) * B = i * B + B" by (simp add: algebra_simps)
  ultimately show ?thesis unfolding cdiv_def B_def [symmetric] m_def by linarith
qed

lemma cdiv_cdiv: "cdiv (cdiv n a) b = cdiv n (a + b)"
proof -
  have "cdiv (cdiv n a) b = ((n + 2 ^ a - 1) div 2 ^ a + (2 ^ b - 1)) div 2 ^ b"
    by (simp only: cdiv_def add_diff_eq)
  also have "(n + 2 ^ a - 1) div 2 ^ a + (2 ^ b - 1) = (n + 2 ^ a - 1 + (2 ^ b - 1) * 2 ^ a) div 2 ^ a" by simp
  also have "n + 2 ^ a - 1 + (2 ^ b - 1) * 2 ^ a = n + 2 ^ (a + b) - 1" by (simp add: algebra_simps power_add)
  also have "\<dots> div 2 ^ a div 2 ^ b = \<dots> div 2 ^ (a + b)" by (simp add: zdiv_zmult2_eq power_add)
  finally show ?thesis by (simp add: cdiv_def)
qed

section \<open>Results\<close>

text \<open>
  An operation of the code that returns \<open>Result<T>\<close> or may run into undefined behaviour yields \<open>Inl\<close> of
  an error or \<open>Inr\<close> of its value. \<open>bindR\<close> is \<open>MEMORIA_TRY\<close>: the first error is returned.
\<close>

definition bindR :: "'e + 'a \<Rightarrow> ('a \<Rightarrow> 'e + 'b) \<Rightarrow> 'e + 'b" where
  "bindR m f = (case m of Inl e \<Rightarrow> Inl e | Inr a \<Rightarrow> f a)"

lemma bindR_simps: "bindR (Inl e) f = Inl e" "bindR (Inr a) f = f a"
  by (simp_all add: bindR_def)

lemma bindR_Inr: "bindR m f = Inr b \<longleftrightarrow> (\<exists>a. m = Inr a \<and> f a = Inr b)"
  by (cases m) (simp_all add: bindR_def)

fun foldR :: "('s \<Rightarrow> 'a \<Rightarrow> 'e + 's) \<Rightarrow> 's \<Rightarrow> 'a list \<Rightarrow> 'e + 's" where
  "foldR f s [] = Inr s"
| "foldR f s (x # xs) = bindR (f s x) (\<lambda>s. foldR f s xs)"

lemma foldR_id: "(\<And>x. x \<in> set xs \<Longrightarrow> f s x = Inr s) \<Longrightarrow> foldR f s xs = Inr s"
  by (induction xs) (auto simp: bindR_simps)

section \<open>Lists\<close>

lemma length_takeWhile_full: "length (takeWhile P xs) = length xs \<longleftrightarrow> (\<forall>x \<in> set xs. P x)"
  by (induction xs) auto

section \<open>Transition systems with an invariant\<close>

text \<open>
  The interface of a step relation that keeps an invariant: runs keep it too, and whatever preorder relates the states
  of each step from a state with the invariant relates the ends of a run.
\<close>

locale invariant_system =
  fixes moves_to :: "'w \<Rightarrow> 'w \<Rightarrow> bool" and holds :: "'w \<Rightarrow> bool"
  assumes keeps: "holds w \<Longrightarrow> moves_to w w' \<Longrightarrow> holds w'"
begin

lemma run_keeps: "moves_to\<^sup>*\<^sup>* w w' \<Longrightarrow> holds w \<Longrightarrow> holds w'"
  by (induction rule: rtranclp_induct) (auto intro: keeps)

lemma run_order:
  assumes "moves_to\<^sup>*\<^sup>* w w'" and "holds w" and "\<And>w. le w w" and "\<And>u v w. le u v \<Longrightarrow> le v w \<Longrightarrow> le u w"
    and "\<And>u v. holds u \<Longrightarrow> moves_to u v \<Longrightarrow> le u v"
  shows "le w w'"
  using assms(1,2)
proof (induction rule: rtranclp_induct)
  case (step u v)
  then show ?case using assms(4,5) run_keeps by blast
qed (rule assms(3))

end

end
