(* ===== verification/Bitmap.thy ===== *)
theory Bitmap
  imports Prelude
begin

text \<open>
  The bitmap tools of \<^verbatim>\<open>include/memoria/core/tools/bitmap.hpp\<close>: bits and bit groups of a buffer of
  machine words, population counts, filling and moving of bit ranges.

  The C++ functions are templates over the cell type \<open>T\<close>; the model is polymorphic in the word
  length in the same way. The locale \<open>cell_type\<close> states what the code needs of \<open>T\<close> (a width of
  8, 16, 32 or 64 bits) and proves the facts about the operations once; it is interpreted for
  \<open>uint8_t\<close>, \<open>uint32_t\<close> and \<open>uint64_t\<close>. The abstract view of a buffer is the function
  \<open>bufbit\<close> from bit addresses to bits: every operation is specified by what it does to it.
\<close>

section \<open>Cell geometry and masks\<close>

definition TypeBitsize :: "'a::len itself \<Rightarrow> nat" where
  "TypeBitsize T = LENGTH('a)"

definition TypeBitmask :: "'a::len itself \<Rightarrow> nat" where
  "TypeBitmask T = TypeBitsize T - 1"

definition TypeBitmaskPopCount :: "nat \<Rightarrow> nat" where
  "TypeBitmaskPopCount msk =
     (if msk = 7 then 3 else if msk = 15 then 4 else if msk = 31 then 5
      else if msk = 63 then 6 else if msk = 127 then 7 else 7)"

definition MakeMask0 :: "nat \<Rightarrow> nat \<Rightarrow> 'a::len word" where
  \<comment> \<open>\<open>numeric_limits<sT>::min()\<close> is the word whose only bit is the sign bit\<close>
  "MakeMask0 start len =
     (let svalue = push_bit (LENGTH('a) - 1) 1 :: 'a word;
          bitsize = TypeBitsize TYPE('a);
          val = signed_drop_bit (len - 1) svalue
      in drop_bit (bitsize - len - start) val)"

definition MakeMask :: "nat \<Rightarrow> nat \<Rightarrow> 'a::len word" where
  "MakeMask start len = (if 0 < len then MakeMask0 start len else 0)"

definition haddr :: "'a::len itself \<Rightarrow> nat \<Rightarrow> nat" where
  \<comment> \<open>\<open>(idx & ~msk) >> divisor\<close>; clearing the msk bits of a natural number subtracts them\<close>
  "haddr T idx =
     (let msk = TypeBitmask T; divisor = TypeBitmaskPopCount msk
      in drop_bit divisor (idx - (idx AND msk)))"

definition laddr :: "'a::len itself \<Rightarrow> nat \<Rightarrow> nat" where
  "laddr T idx = idx AND TypeBitmask T"

section \<open>Single bits and bit groups\<close>

definition SetBit :: "'a::len word list \<Rightarrow> nat \<Rightarrow> bool \<Rightarrow> 'a word list" where
  "SetBit buf idx v =
     (let h = haddr TYPE('a) idx; l = laddr TYPE('a) idx; ref = buf ! h;
          bt = push_bit l (1 :: 'a word)
      in if v then buf[h := ref OR bt] else buf[h := ref AND NOT bt])"

definition GetBit :: "'a::len word list \<Rightarrow> nat \<Rightarrow> 'a word" where
  "GetBit buf idx =
     (let h = haddr TYPE('a) idx; l = laddr TYPE('a) idx
      in drop_bit l (buf ! h) AND 1)"

definition SetBits0 :: "'a::len word list \<Rightarrow> nat \<Rightarrow> 'a word \<Rightarrow> nat \<Rightarrow> 'a word list" where
  "SetBits0 buf idx bits nbits =
     (if 0 < nbits then
        (let h = haddr TYPE('a) idx; l = laddr TYPE('a) idx;
             bitmask = MakeMask l nbits;
             ref = (buf ! h) AND NOT bitmask
         in buf[h := ref OR (push_bit l bits AND bitmask)])
      else buf)"

definition GetBits0 :: "'a::len word list \<Rightarrow> nat \<Rightarrow> nat \<Rightarrow> 'a word" where
  "GetBits0 buf idx nbits =
     (if 0 < nbits then
        (let h = haddr TYPE('a) idx; l = laddr TYPE('a) idx;
             bitmask = MakeMask 0 nbits
         in drop_bit l (buf ! h) AND bitmask)
      else 0)"

definition TestBits :: "'a::len word list \<Rightarrow> nat \<Rightarrow> 'a word \<Rightarrow> nat \<Rightarrow> bool" where
  "TestBits buf idx bits nbits =
     (let h = haddr TYPE('a) idx; l = laddr TYPE('a) idx; bitmask = MakeMask l nbits
      in (buf ! h) AND bitmask = push_bit l bits)"

definition TestBit :: "'a::len word list \<Rightarrow> nat \<Rightarrow> bool" where
  "TestBit buf idx =
     (let h = haddr TYPE('a) idx; l = laddr TYPE('a) idx
      in (buf ! h) AND push_bit l 1 \<noteq> 0)"

definition GetBitsNeg0 :: "'a::len word list \<Rightarrow> nat \<Rightarrow> nat \<Rightarrow> 'a word" where
  "GetBitsNeg0 buf idx nbits =
     (let h = haddr TYPE('a) idx; l = laddr TYPE('a) idx; bitmask = MakeMask 0 nbits
      in drop_bit l (NOT (buf ! h)) AND bitmask)"

definition SetBits :: "'a::len word list \<Rightarrow> nat \<Rightarrow> 'a word \<Rightarrow> nat \<Rightarrow> 'a word list" where
  "SetBits buf idx bits nbits =
     (let l = laddr TYPE('a) idx; bitsize = TypeBitsize TYPE('a)
      in if l + nbits \<le> bitsize then SetBits0 buf idx bits nbits
         else
           (let nbits1 = l + nbits - bitsize;
                nbits0 = nbits - nbits1;
                buf1 = SetBits0 buf idx bits nbits0
            in if 0 < nbits1 then SetBits0 buf1 (idx + nbits0) (drop_bit nbits0 bits) nbits1
               else buf1))"

definition GetBits :: "'a::len word list \<Rightarrow> nat \<Rightarrow> nat \<Rightarrow> 'a word" where
  "GetBits buf idx nbits =
     (let l = laddr TYPE('a) idx; bitsize = TypeBitsize TYPE('a)
      in if l + nbits \<le> bitsize then GetBits0 buf idx nbits
         else
           (let nbits1 = l + nbits - bitsize;
                nbits0 = nbits - nbits1
            in GetBits0 buf idx nbits0 OR
               (if 0 < nbits1 then push_bit nbits0 (GetBits0 buf (idx + nbits0) nbits1) else 0)))"

definition GetBits2 :: "'a::len word list \<Rightarrow> nat \<Rightarrow> nat \<Rightarrow> 'a word \<times> nat" where
  \<comment> \<open>returns the value and the advanced position \<open>pos\<close>, which the code updates in place\<close>
  "GetBits2 buf pos nbits =
     (let bitsize = TypeBitsize TYPE('a); msk = TypeBitmask TYPE('a);
          idx = pos div bitsize;
          pre = bitsize - (pos AND msk);
          bit_pos = pos AND msk;
          ONES = (- 1 :: 'a word)
      in (if nbits + bit_pos > bitsize then
            (let suffix = nbits - pre
             in drop_bit bit_pos (buf ! idx) OR
                push_bit pre ((buf ! (idx + 1)) AND drop_bit (bitsize - suffix) ONES))
          else drop_bit bit_pos (buf ! idx) AND drop_bit (bitsize - nbits) ONES,
          pos + nbits))"

section \<open>Filling a range of bits\<close>

definition FillOne :: "'a::len word list \<Rightarrow> nat \<Rightarrow> nat \<Rightarrow> 'a word list" where
  "FillOne buf start stop =
     (let bitsize = TypeBitsize TYPE('a); msk = TypeBitmask TYPE('a);
          divisor = TypeBitmaskPopCount msk;
          pre = bitsize - (start AND msk)
      in if start + pre > stop then
           (let c = drop_bit divisor start
            in buf[c := buf ! c OR MakeMask (start AND msk) (stop - start)])
         else
           (let c = drop_bit divisor start;
                buf1 = buf[c := buf ! c OR MakeMask (start AND msk) pre];
                buf2 = fold (\<lambda>c b. b[c := MakeMask 0 bitsize])
                         [drop_bit divisor start + 1 ..< drop_bit divisor stop] buf1;
                suffix = stop AND msk;
                d = drop_bit divisor stop
            in if 0 < suffix then buf2[d := buf2 ! d OR MakeMask 0 suffix] else buf2))"

definition FillZero :: "'a::len word list \<Rightarrow> nat \<Rightarrow> nat \<Rightarrow> 'a word list" where
  "FillZero buf start stop =
     (let bitsize = TypeBitsize TYPE('a); msk = TypeBitmask TYPE('a);
          divisor = TypeBitmaskPopCount msk;
          pre = bitsize - (start AND msk)
      in if start + pre > stop then
           (let c = drop_bit divisor start
            in buf[c := buf ! c AND NOT (MakeMask (start AND msk) (stop - start))])
         else
           (let c = drop_bit divisor start;
                buf1 = buf[c := buf ! c AND NOT (MakeMask (start AND msk) pre)];
                buf2 = fold (\<lambda>c b. b[c := 0])
                         [drop_bit divisor start + 1 ..< drop_bit divisor stop] buf1;
                suffix = stop AND msk;
                d = drop_bit divisor stop
            in if 0 < suffix then buf2[d := buf2 ! d AND NOT (MakeMask 0 suffix)] else buf2))"

section \<open>Moving a range of bits\<close>

text \<open>
  The source and the destination of a move are two pointers, which may be the same buffer (the
  codecs move bits inside one buffer). \<open>Same\<close> stands for the aliasing call: every read goes to the
  buffer being written. \<open>Other src\<close> is a move from another buffer.
\<close>

datatype 'w source = Same | Other "'w list"

primrec read_from :: "'w source \<Rightarrow> 'w list \<Rightarrow> 'w list" where
  "read_from Same dst = dst"
| "read_from (Other src) dst = src"

fun MoveBitsFW_cells :: "'a::len word source \<Rightarrow> nat \<Rightarrow> nat list \<Rightarrow> 'a word list \<Rightarrow> 'a word list \<times> nat" where
  \<comment> \<open>the loop over the whole cells of the destination; returns also the advanced \<open>src_idx\<close>\<close>
  "MoveBitsFW_cells src src_idx [] dst = (dst, src_idx)"
| "MoveBitsFW_cells src src_idx (cell # cells) dst =
     (let bitsize = TypeBitsize TYPE('a)
      in MoveBitsFW_cells src (src_idx + bitsize) cells
           (dst[cell := GetBits (read_from src dst) src_idx bitsize]))"

definition MoveBitsFW ::
  "'a::len word source \<Rightarrow> 'a word list \<Rightarrow> nat \<Rightarrow> nat \<Rightarrow> nat \<Rightarrow> 'a word list" where
  "MoveBitsFW src dst src_idx dst_idx len =
     (let bitsize = TypeBitsize TYPE('a); msk = TypeBitmask TYPE('a);
          extent = dst_idx + bitsize - (dst_idx AND msk)
      in if extent \<ge> dst_idx + len then
           SetBits dst dst_idx (GetBits (read_from src dst) src_idx len) len
         else
           (let pre = extent - dst_idx;
                dst1 = SetBits dst dst_idx (GetBits (read_from src dst) src_idx pre) pre;
                divisor = TypeBitmaskPopCount msk;
                start_cell = drop_bit divisor extent;
                stop_cell = drop_bit divisor (dst_idx + len);
                (dst2, s) = MoveBitsFW_cells src (src_idx + pre) [start_cell ..< stop_cell] dst1;
                suffix = (dst_idx + len) AND msk
            in if 0 < suffix then
                 SetBits dst2 (dst_idx + len - suffix) (GetBits (read_from src dst2) s suffix) suffix
               else dst2))"

fun MoveBitsBW_cells :: "'a::len word source \<Rightarrow> nat \<Rightarrow> nat list \<Rightarrow> 'a word list \<Rightarrow> 'a word list \<times> nat" where
  "MoveBitsBW_cells src src_idx [] dst = (dst, src_idx)"
| "MoveBitsBW_cells src src_idx (cell # cells) dst =
     (let s = src_idx - TypeBitsize TYPE('a)
      in MoveBitsBW_cells src s cells
           (dst[cell := GetBits (read_from src dst) s (TypeBitsize TYPE('a))]))"

definition MoveBitsBW ::
  "'a::len word source \<Rightarrow> 'a word list \<Rightarrow> nat \<Rightarrow> nat \<Rightarrow> nat \<Rightarrow> 'a word list" where
  "MoveBitsBW src dst src_idx dst_idx len =
     (let bitsize = TypeBitsize TYPE('a); msk = TypeBitmask TYPE('a);
          dst_to = dst_idx + len;
          extent = dst_to - (dst_to AND msk)
      in if extent \<le> dst_idx then
           SetBits dst dst_idx (GetBits (read_from src dst) src_idx len) len
         else
           (let suffix = dst_to - extent;
                s0 = src_idx + (len - suffix);
                dst1 = SetBits dst extent (GetBits (read_from src dst) s0 suffix) suffix;
                divisor = TypeBitmaskPopCount msk;
                start_cell = drop_bit divisor dst_idx;
                stop_cell = drop_bit divisor dst_to - 1;
                (dst2, s) = MoveBitsBW_cells src s0 (rev [start_cell + 1 ..< stop_cell + 1]) dst1;
                pre = bitsize - (dst_idx AND msk)
            in SetBits dst2 dst_idx (GetBits (read_from src dst2) (s - pre) pre) pre))"

definition MoveBits ::
  "'a::len word source \<Rightarrow> 'a word list \<Rightarrow> nat \<Rightarrow> nat \<Rightarrow> nat \<Rightarrow> 'a word list" where
  "MoveBits src dst src_idx dst_idx len =
     (if dst_idx > src_idx then MoveBitsBW src dst src_idx dst_idx len
      else MoveBitsFW src dst src_idx dst_idx len)"

section \<open>The abstract view: bits of a buffer\<close>

definition bufbit :: "'a::len word list \<Rightarrow> nat \<Rightarrow> bool" where
  "bufbit buf i = bit (buf ! (i div LENGTH('a))) (i mod LENGTH('a))"

definition bufsize :: "'a::len word list \<Rightarrow> nat" where
  "bufsize buf = LENGTH('a) * length buf"

lemma bufbit_update:
  fixes buf :: "'a::len word list"
  assumes "i < bufsize buf"
  shows "bufbit (buf[c := w]) i = (if i div LENGTH('a) = c then bit w (i mod LENGTH('a)) else bufbit buf i)"
  using assms
  by (auto simp: bufbit_def bufsize_def nth_list_update less_mult_imp_div_less mult.commute)

lemma bufbit_add:
  fixes buf :: "'a::len word list"
  assumes "i mod LENGTH('a) + k < LENGTH('a)"
  shows "bufbit buf (i + k) = bit (buf ! (i div LENGTH('a))) (i mod LENGTH('a) + k)"
  using assms by (simp add: bufbit_def mod_add_no_carry)

lemma bufsize_update [simp]: "bufsize (buf[c := w]) = bufsize buf"
  by (simp add: bufsize_def)

lemma buf_eqI:
  fixes a b :: "'a::len word list"
  assumes len: "length a = length b" and bits: "\<And>i. i < bufsize b \<Longrightarrow> bufbit a i = bufbit b i"
  shows "a = b"
proof (rule nth_equalityI [OF len], rule bit_word_eqI)
  fix c n assume c: "c < length a" and n': "n < LENGTH('a)"
  have "LENGTH('a) * c + n < LENGTH('a) * Suc c" using n' by simp
  also have "\<dots> \<le> bufsize b" unfolding bufsize_def using c len by (simp only: mult_le_mono2 Suc_leI)
  finally show "bit (a ! c) n = bit (b ! c) n"
    using bits [of "LENGTH('a) * c + n"] n' by (simp add: bufbit_def)
qed

lemma bit_MakeMask:
  assumes "start + len \<le> LENGTH('a)"
  shows "bit (MakeMask start len :: 'a::len word) k \<longleftrightarrow> start \<le> k \<and> k < start + len"
  using assms
  by (auto simp: MakeMask_def MakeMask0_def TypeBitsize_def Let_def bit_simps bit_1_iff min_def
      split: if_splits)

section \<open>The cell type\<close>

locale cell_type =
  fixes T :: "'a::len itself"
  assumes width: "LENGTH('a) = 8 \<or> LENGTH('a) = 16 \<or> LENGTH('a) = 32 \<or> LENGTH('a) = 64"
begin

lemma and_mask [cell_simps]: "i AND TypeBitmask TYPE('a) = i mod LENGTH('a)"
proof -
  have "i AND (2 ^ n - 1) = i mod 2 ^ n" for n :: nat
    by (metis mask_eq_exp_minus_1 take_bit_eq_mask take_bit_eq_mod)
  from this [of 3] this [of 4] this [of 5] this [of 6] show ?thesis
    using width by (auto simp: TypeBitmask_def TypeBitsize_def)
qed

lemma shift_divisor [cell_simps]:
  "drop_bit (TypeBitmaskPopCount (TypeBitmask TYPE('a))) (i :: nat) = i div LENGTH('a)"
  using width
  by (auto simp: TypeBitmask_def TypeBitsize_def TypeBitmaskPopCount_def drop_bit_eq_div)

lemma push_divisor [cell_simps]:
  "push_bit (TypeBitmaskPopCount (TypeBitmask TYPE('a))) (i :: nat) = i * LENGTH('a)"
  using width
  by (auto simp: TypeBitmask_def TypeBitsize_def TypeBitmaskPopCount_def push_bit_eq_mult)

lemma TypeBitsize [cell_simps]: "TypeBitsize TYPE('a) = LENGTH('a)"
  by (simp add: TypeBitsize_def)

lemma laddr [cell_simps]: "laddr TYPE('a) i = i mod LENGTH('a)"
  by (simp add: laddr_def and_mask)

lemma haddr [cell_simps]: "haddr TYPE('a) i = i div LENGTH('a)"
proof -
  have "(i - i mod LENGTH('a)) div LENGTH('a) = i div LENGTH('a)"
    by (simp add: minus_mod_eq_mult_div)
  then show ?thesis by (simp add: haddr_def Let_def and_mask shift_divisor)
qed

lemma GetBit [bufbit_simps]: "GetBit buf i = of_bool (bufbit (buf :: 'a word list) i)"
  by (simp add: GetBit_def Let_def cell_simps bufbit_def and_one_eq bit_iff_odd_drop_bit mod_2_eq_odd)

lemma SetBit [bufbit_simps]:
  assumes "i < bufsize (buf :: 'a word list)" and "j < bufsize buf"
  shows "bufbit (SetBit buf j v) i = (if i = j then v else bufbit buf i)"
proof (cases "i div LENGTH('a) = j div LENGTH('a)")
  case True
  then have "i mod LENGTH('a) = j mod LENGTH('a) \<longleftrightarrow> i = j"
    using same_cell_iff [of "LENGTH('a)" i j] by simp
  with True assms show ?thesis
    by (simp add: SetBit_def Let_def cell_simps bufbit_update bit_simps) (simp add: bufbit_def)
next
  case False
  with assms show ?thesis
    by (auto simp: SetBit_def Let_def cell_simps bufbit_update)
qed

lemma length_SetBit [simp]: "length (SetBit (buf :: 'a word list) j v) = length buf"
  by (simp add: SetBit_def Let_def)

lemma GetBits0 [bufbit_simps]:
  assumes "i mod LENGTH('a) + n \<le> LENGTH('a)"
  shows "bit (GetBits0 (buf :: 'a word list) i n) k \<longleftrightarrow> k < n \<and> bufbit buf (i + k)"
  using assms
  by (auto simp: GetBits0_def Let_def cell_simps bufbit_add bit_simps bit_MakeMask add.commute)

lemma SetBits0 [bufbit_simps]:
  assumes "j < bufsize (buf :: 'a word list)" and n: "i mod LENGTH('a) + n \<le> LENGTH('a)"
  shows "bufbit (SetBits0 buf i v n) j = (if i \<le> j \<and> j < i + n then bit v (j - i) else bufbit buf j)"
proof (cases "j div LENGTH('a) = i div LENGTH('a)")
  case True
  let ?l = "i mod LENGTH('a)" and ?m = "j mod LENGTH('a)"
  have "i = LENGTH('a) * (j div LENGTH('a)) + ?l" and "j = LENGTH('a) * (j div LENGTH('a)) + ?m"
    using True by (metis mult_div_mod_eq)+
  then have le: "?l \<le> ?m \<longleftrightarrow> i \<le> j" and lt: "?m < ?l + n \<longleftrightarrow> j < i + n" and diff: "?m - ?l = j - i"
    by linarith+
  show ?thesis using True assms le lt
    by (auto simp: SetBits0_def Let_def cell_simps bufbit_update bit_simps bit_MakeMask diff)
       (simp_all add: bufbit_def)
next
  case False
  have "\<not> (i \<le> j \<and> j < i + n)"
  proof
    assume "i \<le> j \<and> j < i + n"
    then have "j = i + (j - i)" and "i mod LENGTH('a) + (j - i) < LENGTH('a)" using n by auto
    then show False using False by (metis mod_add_no_carry(2))
  qed
  with False assms show ?thesis
    by (auto simp: SetBits0_def Let_def cell_simps bufbit_update)
qed

lemma length_SetBits0 [simp]: "length (SetBits0 (buf :: 'a word list) i v n) = length buf"
  by (simp add: SetBits0_def Let_def)

lemma bufsize_SetBits0 [simp]: "bufsize (SetBits0 (buf :: 'a word list) i v n) = bufsize buf"
  by (simp add: bufsize_def)

text \<open>A group that spans two cells: what the first part and the second part are.\<close>

lemma spanning_split:
  assumes "\<not> i mod LENGTH('a) + n \<le> LENGTH('a)" and "n \<le> LENGTH('a)"
  obtains n0 where "i mod LENGTH('a) + n0 = LENGTH('a)" and "n0 < n"
    and "(i + n0) mod LENGTH('a) = 0"
proof -
  define n0 where "n0 = LENGTH('a) - i mod LENGTH('a)"
  have l: "i mod LENGTH('a) < LENGTH('a)" by simp
  have n0: "i mod LENGTH('a) + n0 = LENGTH('a)" and "n0 < n"
    unfolding n0_def using l assms by linarith+
  moreover have "(i + n0) mod LENGTH('a) = 0"
    using n0 by (metis mod_add_left_eq mod_self)
  ultimately show ?thesis by (rule that)
qed

lemma GetBits_spanning:
  assumes "i mod LENGTH('a) + n0 = LENGTH('a)" and "n0 < n"
  shows "GetBits (buf :: 'a word list) i n =
           GetBits0 buf i n0 OR push_bit n0 (GetBits0 buf (i + n0) (n - n0))"
proof -
  have "i mod LENGTH('a) + n - LENGTH('a) = n - n0" and "n - (n - n0) = n0"
    and "\<not> i mod LENGTH('a) + n \<le> LENGTH('a)" and "0 < n - n0"
    using assms by linarith+
  then show ?thesis by (simp only: GetBits_def Let_def cell_simps if_False if_True)
qed

lemma SetBits_spanning:
  assumes "i mod LENGTH('a) + n0 = LENGTH('a)" and "n0 < n"
  shows "SetBits (buf :: 'a word list) i v n =
           SetBits0 (SetBits0 buf i v n0) (i + n0) (drop_bit n0 v) (n - n0)"
proof -
  have "i mod LENGTH('a) + n - LENGTH('a) = n - n0" and "n - (n - n0) = n0"
    and "\<not> i mod LENGTH('a) + n \<le> LENGTH('a)" and "0 < n - n0"
    using assms by linarith+
  then show ?thesis by (simp only: SetBits_def Let_def cell_simps if_False if_True)
qed

lemma GetBits [bufbit_simps]:
  assumes "n \<le> LENGTH('a)"
  shows "bit (GetBits (buf :: 'a word list) i n) k \<longleftrightarrow> k < n \<and> bufbit buf (i + k)"
proof (cases "i mod LENGTH('a) + n \<le> LENGTH('a)")
  case True
  then show ?thesis by (simp add: GetBits_def Let_def cell_simps GetBits0)
next
  case False
  from spanning_split [OF False assms] obtain n0
    where n0: "i mod LENGTH('a) + n0 = LENGTH('a)" "n0 < n" and start: "(i + n0) mod LENGTH('a) = 0" .
  have "bit (GetBits0 buf (i + n0) (n - n0)) m \<longleftrightarrow> m < n - n0 \<and> bufbit buf (i + n0 + m)" for m
    using assms by (intro GetBits0) (simp add: start)
  moreover have "bit (GetBits0 buf i n0) m \<longleftrightarrow> m < n0 \<and> bufbit buf (i + m)" for m
    by (intro GetBits0) (simp add: n0)
  ultimately have "bit (GetBits buf i n) k \<longleftrightarrow>
      k < n0 \<and> bufbit buf (i + k) \<or>
      k < LENGTH('a) \<and> n0 \<le> k \<and> k - n0 < n - n0 \<and> bufbit buf (i + n0 + (k - n0))"
    by (simp only: GetBits_spanning [OF n0] bit_or_iff bit_push_bit_iff possible_bit_word conj_ac)
  also have "\<dots> \<longleftrightarrow> k < n \<and> bufbit buf (i + k)"
  proof (cases "k < n0")
    case False
    then have "i + n0 + (k - n0) = i + k" and "k - n0 < n - n0 \<longleftrightarrow> k < n" using n0(2) by linarith+
    then show ?thesis using False assms by auto
  qed (use n0(2) in auto)
  finally show ?thesis .
qed

lemma SetBits [bufbit_simps]:
  assumes j: "j < bufsize (buf :: 'a word list)" and "n \<le> LENGTH('a)"
  shows "bufbit (SetBits buf i v n) j = (if i \<le> j \<and> j < i + n then bit v (j - i) else bufbit buf j)"
proof (cases "i mod LENGTH('a) + n \<le> LENGTH('a)")
  case True
  then show ?thesis using j by (simp add: SetBits_def Let_def cell_simps SetBits0)
next
  case False
  from spanning_split [OF False assms(2)] obtain n0
    where n0: "i mod LENGTH('a) + n0 = LENGTH('a)" "n0 < n" and start: "(i + n0) mod LENGTH('a) = 0" .
  let ?b = "SetBits0 buf i v n0"
  have "bufbit (SetBits0 ?b (i + n0) (drop_bit n0 v) (n - n0)) j =
      (if i + n0 \<le> j \<and> j < i + n0 + (n - n0) then bit (drop_bit n0 v) (j - (i + n0)) else bufbit ?b j)"
    using j assms by (intro SetBits0) (simp_all add: start)
  moreover have "bufbit ?b j = (if i \<le> j \<and> j < i + n0 then bit v (j - i) else bufbit buf j)"
    using j by (intro SetBits0) (simp_all add: n0)
  ultimately show ?thesis unfolding SetBits_spanning [OF n0]
    using n0(2) by (auto simp: bit_drop_bit_eq)
qed

lemma length_SetBits [simp]: "length (SetBits (buf :: 'a word list) i v n) = length buf"
  by (simp add: SetBits_def Let_def)

lemma bufsize_SetBits [simp]: "bufsize (SetBits (buf :: 'a word list) i v n) = bufsize buf"
  by (simp add: bufsize_def)

lemma TestBit [bufbit_simps]: "TestBit (buf :: 'a word list) i = bufbit buf i"
  by (simp add: TestBit_def Let_def cell_simps bufbit_def)
     (metis and_exp_eq_0_iff_not_bit)

lemma GetBitsNeg0 [bufbit_simps]:
  assumes "i mod LENGTH('a) + n \<le> LENGTH('a)"
  shows "bit (GetBitsNeg0 (buf :: 'a word list) i n) k \<longleftrightarrow> k < n \<and> \<not> bufbit buf (i + k)"
  using assms
  by (auto simp: GetBitsNeg0_def Let_def cell_simps bufbit_add bit_simps bit_MakeMask add.commute)

end

section \<open>Filling and moving\<close>

lemma fold_update_length [simp]: "length (fold (\<lambda>c b. b[c := w]) cs buf) = length buf"
  by (induction cs arbitrary: buf) auto

lemma bufbit_fill_cells:
  fixes buf :: "'a::len word list"
  assumes "i < bufsize buf"
  shows "bufbit (fold (\<lambda>c b. b[c := w]) [m ..< n] buf) i =
    (if m \<le> i div LENGTH('a) \<and> i div LENGTH('a) < n then bit w (i mod LENGTH('a)) else bufbit buf i)"
proof (induction n)
  case (Suc n)
  then show ?case using assms by (auto simp: bufbit_update less_Suc_eq bufsize_def)
qed simp

text \<open>
  Both fills have the same shape: combine the first cell with a mask, overwrite the whole cells in
  between, combine the last cell with a mask.
\<close>

definition fill_with ::
  "('a::len word \<Rightarrow> 'a word \<Rightarrow> 'a word) \<Rightarrow> 'a word \<Rightarrow> 'a word list \<Rightarrow> nat \<Rightarrow> nat \<Rightarrow> 'a word list" where
  "fill_with g whole buf start stop =
     (let L = LENGTH('a); c = start div L; d = stop div L
      in if c = d then buf[c := g (buf ! c) (MakeMask (start mod L) (stop - start))]
         else
           (let b1 = buf[c := g (buf ! c) (MakeMask (start mod L) (L - start mod L))];
                b2 = fold (\<lambda>c b. b[c := whole]) [Suc c ..< d] b1
            in if 0 < stop mod L then b2[d := g (b2 ! d) (MakeMask 0 (stop mod L))] else b2))"

context cell_type
begin

lemma fill_range:
  assumes "start \<le> stop"
  shows "start + (LENGTH('a) - start mod LENGTH('a)) > stop \<longleftrightarrow> start div LENGTH('a) = stop div LENGTH('a)"
    and "start div LENGTH('a) = stop div LENGTH('a) \<Longrightarrow> start mod LENGTH('a) + (stop - start) = stop mod LENGTH('a)"
proof -
  let ?L = "LENGTH('a)"
  have s: "start = ?L * (start div ?L) + start mod ?L" and t: "stop = ?L * (stop div ?L) + stop mod ?L"
    by simp_all
  have r: "start mod ?L < ?L" "stop mod ?L < ?L" by simp_all
  have "start div ?L \<le> stop div ?L" using assms by (rule div_le_mono)
  have end_cell: "start + (?L - start mod ?L) = ?L * Suc (start div ?L)"
    using s r(1) unfolding mult_Suc_right by linarith
  have "?L * Suc (start div ?L) > stop \<longleftrightarrow> stop div ?L < Suc (start div ?L)"
    by (simp add: div_less_iff_less_mult mult.commute)
  with end_cell \<open>start div ?L \<le> stop div ?L\<close>
  show "start + (?L - start mod ?L) > stop \<longleftrightarrow> start div ?L = stop div ?L" by auto
  show "start mod ?L + (stop - start) = stop mod ?L" if "start div ?L = stop div ?L"
  proof -
    have "stop = ?L * (start div ?L) + stop mod ?L" using that by simp
    then show ?thesis using s assms by linarith
  qed
qed

lemma in_range_iff:
  "start \<le> i \<and> i < stop \<longleftrightarrow>
     \<not> (i div LENGTH('a) < start div LENGTH('a) \<or>
        i div LENGTH('a) = start div LENGTH('a) \<and> i mod LENGTH('a) < start mod LENGTH('a)) \<and>
     (i div LENGTH('a) < stop div LENGTH('a) \<or>
        i div LENGTH('a) = stop div LENGTH('a) \<and> i mod LENGTH('a) < stop mod LENGTH('a))"
  using less_by_cell [of "LENGTH('a)" i start] less_by_cell [of "LENGTH('a)" i stop]
  by (simp add: not_less [symmetric])

lemma fill_with:
  assumes i: "i < bufsize (buf :: 'a word list)" and se: "start \<le> stop"
    and g: "\<And>w m k. k < LENGTH('a) \<Longrightarrow> bit (g w m) k = (if bit m k then v else bit w k)"
    and whole: "\<And>k. k < LENGTH('a) \<Longrightarrow> bit whole k = v"
  shows "bufbit (fill_with g whole buf start stop) i = (if start \<le> i \<and> i < stop then v else bufbit buf i)"
proof (cases "start div LENGTH('a) = stop div LENGTH('a)")
  case True
  then show ?thesis using fill_range(2) [OF se True] i unfolding in_range_iff
    by (auto simp: fill_with_def Let_def bufbit_update g bit_MakeMask) (auto simp: bufbit_def)
next
  case False
  let ?L = "LENGTH('a)"
  let ?c = "start div ?L" and ?d = "stop div ?L" and ?q = "i div ?L" and ?r = "i mod ?L"
  have lt: "?c < ?d" using False div_le_mono [OF se] by (simp add: order_less_le)
  define b1 where "b1 = buf[?c := g (buf ! ?c) (MakeMask (start mod ?L) (?L - start mod ?L))]"
  define b2 where "b2 = fold (\<lambda>c b. b[c := whole]) [Suc ?c ..< ?d] b1"
  have i1: "i < bufsize b1" and i2: "i < bufsize b2" using i by (simp_all add: b1_def b2_def bufsize_def)
  have b1: "bufbit b1 i = (if ?q = ?c \<and> start mod ?L \<le> ?r then v else bufbit buf i)"
    using i by (auto simp: b1_def bufbit_update g bit_MakeMask) (auto simp: bufbit_def)
  have b2: "bufbit b2 i = (if ?c < ?q \<and> ?q < ?d then v else bufbit b1 i)"
    using i1 by (auto simp: b2_def bufbit_fill_cells whole)
  have "fill_with g whole buf start stop =
      (if 0 < stop mod ?L then b2[?d := g (b2 ! ?d) (MakeMask 0 (stop mod ?L))] else b2)"
    using False by (simp add: fill_with_def Let_def b1_def b2_def)
  then have "bufbit (fill_with g whole buf start stop) i =
      (if ?q = ?d \<and> ?r < stop mod ?L then v else bufbit b2 i)"
    using i2 by (auto simp: bufbit_update g bit_MakeMask) (auto simp: bufbit_def)
  then show ?thesis unfolding b2 b1 in_range_iff using lt by auto
qed

lemma FillOne_fill_with:
  "start \<le> stop \<Longrightarrow> FillOne buf start stop = fill_with (OR) (MakeMask 0 LENGTH('a)) (buf :: 'a word list) start stop"
  using fill_range(1) [of start stop] by (simp add: FillOne_def fill_with_def Let_def cell_simps)

lemma FillZero_fill_with:
  "start \<le> stop \<Longrightarrow> FillZero buf start stop = fill_with (\<lambda>w m. w AND NOT m) 0 (buf :: 'a word list) start stop"
  using fill_range(1) [of start stop] by (simp add: FillZero_def fill_with_def Let_def cell_simps)

lemma FillOne [bufbit_simps]:
  assumes "i < bufsize (buf :: 'a word list)" and "start \<le> stop"
  shows "bufbit (FillOne buf start stop) i \<longleftrightarrow> start \<le> i \<and> i < stop \<or> bufbit buf i"
  using fill_with [of i buf start stop "(OR)" True "MakeMask 0 LENGTH('a)"] assms
  by (auto simp: FillOne_fill_with bit_or_iff bit_MakeMask)

lemma FillZero [bufbit_simps]:
  assumes "i < bufsize (buf :: 'a word list)" and "start \<le> stop"
  shows "bufbit (FillZero buf start stop) i \<longleftrightarrow> \<not> (start \<le> i \<and> i < stop) \<and> bufbit buf i"
  using fill_with [of i buf start stop "\<lambda>w m. w AND NOT m" False 0] assms
  by (auto simp: FillZero_fill_with bit_and_iff bit_not_iff)

lemma length_Fill [simp]:
  "length (FillOne (buf :: 'a word list) start stop) = length buf"
  "length (FillZero (buf :: 'a word list) start stop) = length buf"
  by (simp_all add: FillOne_def FillZero_def Let_def)

end

text \<open>
  The invariant of both moving loops: the bits \<open>[di + lo, di + hi)\<close> of the buffer hold what the source
  held at \<open>[si + lo, si + hi)\<close> before the move, all other bits are untouched.
\<close>

definition moved ::
  "'a::len word source \<Rightarrow> 'a word list \<Rightarrow> nat \<Rightarrow> nat \<Rightarrow> nat \<Rightarrow> nat \<Rightarrow> 'a word list \<Rightarrow> bool" where
  "moved src dst si di lo hi b \<longleftrightarrow> length b = length dst \<and>
     (\<forall>j < bufsize dst. bufbit b j =
        (if di + lo \<le> j \<and> j < di + hi then bufbit (read_from src dst) (si + (j - di)) else bufbit dst j))"

definition writes :: "'a::len word list \<Rightarrow> nat \<Rightarrow> nat \<Rightarrow> 'a word \<Rightarrow> 'a word list \<Rightarrow> bool" where
  "writes b i n w b' \<longleftrightarrow> length b' = length b \<and>
     (\<forall>j < bufsize b. bufbit b' j = (if i \<le> j \<and> j < i + n then bit w (j - i) else bufbit b j))"

lemma moved_none: "moved src dst si di lo lo dst"
  by (auto simp: moved_def)

lemma writes_cell:
  fixes b :: "'a::len word list"
  shows "writes b (LENGTH('a) * cell) LENGTH('a) w (b[cell := w])"
proof -
  have "LENGTH('a) * cell \<le> j \<and> j < LENGTH('a) * cell + LENGTH('a) \<longleftrightarrow> j div LENGTH('a) = cell"
    and "j div LENGTH('a) = cell \<Longrightarrow> j - LENGTH('a) * cell = j mod LENGTH('a)" for j
    using dividend_less_times_div [of "LENGTH('a)" j]
    by (auto simp: minus_mult_div_eq_mod add.commute mult.commute intro!: div_nat_eqI)
  then show ?thesis by (auto simp: writes_def bufbit_update)
qed

context cell_type
begin

lemma writes_SetBits: "n \<le> LENGTH('a) \<Longrightarrow> writes b i n w (SetBits (b :: 'a word list) i w n)"
  by (simp add: writes_def SetBits)

lemma moved_read:
  assumes "moved src dst si di lo hi (b :: 'a word list)" and "n \<le> LENGTH('a)"
    and "src = Same \<Longrightarrow> p + n \<le> bufsize dst \<and> (p + n \<le> di + lo \<or> di + hi \<le> p)"
    and "k < n"
  shows "bit (GetBits (read_from src b) p n) k = bufbit (read_from src dst) (p + k)"
  using assms by (cases src) (auto simp: GetBits moved_def)

lemma moved_up:
  assumes m: "moved src dst si di lo hi (b :: 'a word list)" and n: "n \<le> LENGTH('a)" and le: "lo \<le> hi"
    and w: "writes b (di + hi) n (GetBits (read_from src b) (si + hi) n) b'"
    and safe: "src = Same \<Longrightarrow> di \<le> si \<and> si + hi + n \<le> bufsize dst"
  shows "moved src dst si di lo (hi + n) b'"
proof -
  have len: "length b = length dst" using m by (simp add: moved_def)
  have rd: "k < n \<Longrightarrow> bit (GetBits (read_from src b) (si + hi) n) k = bufbit (read_from src dst) (si + hi + k)" for k
    using safe by (intro moved_read [OF m n]) auto
  have "bufbit b' j = (if di + lo \<le> j \<and> j < di + (hi + n) then bufbit (read_from src dst) (si + (j - di)) else bufbit dst j)"
    if j: "j < bufsize dst" for j
  proof (cases "di + hi \<le> j \<and> j < di + hi + n")
    case True
    then have "si + hi + (j - (di + hi)) = si + (j - di)" and "j - (di + hi) < n" by linarith+
    then show ?thesis using True w m j rd [of "j - (di + hi)"] len le
      by (auto simp: writes_def bufsize_def)
  next
    case False
    then show ?thesis using w m j len by (auto simp: writes_def moved_def bufsize_def)
  qed
  then show ?thesis using w len by (simp add: moved_def writes_def)
qed


lemma moved_down:
  assumes m: "moved src dst si di lo hi (b :: 'a word list)" and n: "n \<le> LENGTH('a)"
    and le: "lo \<le> hi" "n \<le> lo"
    and w: "writes b (di + lo - n) n (GetBits (read_from src b) (si + lo - n) n) b'"
    and safe: "src = Same \<Longrightarrow> si \<le> di \<and> si + lo \<le> bufsize dst"
  shows "moved src dst si di (lo - n) hi b'"
proof -
  have len: "length b = length dst" using m by (simp add: moved_def)
  have rd: "k < n \<Longrightarrow> bit (GetBits (read_from src b) (si + lo - n) n) k = bufbit (read_from src dst) (si + lo - n + k)" for k
    using safe le by (intro moved_read [OF m n]) auto
  have "bufbit b' j = (if di + (lo - n) \<le> j \<and> j < di + hi then bufbit (read_from src dst) (si + (j - di)) else bufbit dst j)"
    if j: "j < bufsize dst" for j
  proof (cases "di + lo - n \<le> j \<and> j < di + lo - n + n")
    case True
    then have "si + lo - n + (j - (di + lo - n)) = si + (j - di)" and "j - (di + lo - n) < n"
      and "di + (lo - n) \<le> j" and "j < di + hi" using le by linarith+
    then show ?thesis using True w j rd [of "j - (di + lo - n)"] len
      by (simp add: writes_def bufsize_def)
  next
    case False
    then have "di + (lo - n) \<le> j \<and> j < di + hi \<longleftrightarrow> di + lo \<le> j \<and> j < di + hi" using le by linarith
    then show ?thesis using False w m j len by (simp add: writes_def moved_def bufsize_def) argo
  qed
  then show ?thesis using w len by (simp add: moved_def writes_def)
qed

lemma MoveBitsFW_cells:
  assumes "moved src dst si di 0 hi (b :: 'a word list)" and "di + hi = LENGTH('a) * start"
    and "src = Same \<Longrightarrow> di \<le> si \<and> si + hi + LENGTH('a) * (stop - start) \<le> bufsize dst"
    and "start \<le> stop"
  shows "\<exists>b'. MoveBitsFW_cells src (si + hi) [start ..< stop] b = (b', si + hi + LENGTH('a) * (stop - start))
    \<and> moved src dst si di 0 (hi + LENGTH('a) * (stop - start)) b'"
  using assms
proof (induction "stop - start" arbitrary: start hi b)
  case 0
  then show ?case by simp
next
  case (Suc d)
  let ?b = "b[start := GetBits (read_from src b) (si + hi) LENGTH('a)]"
  have lt: "start < stop" and d: "d = stop - Suc start" using Suc.hyps(2) by linarith+
  have eq: "LENGTH('a) * (stop - start) = LENGTH('a) + LENGTH('a) * (stop - Suc start)"
    using Suc.hyps(2) d by (metis mult_Suc_right)
  have "moved src dst si di 0 (hi + LENGTH('a)) ?b"
    using Suc.prems writes_cell [of b start "GetBits (read_from src b) (si + hi) LENGTH('a)"] eq
    by (intro moved_up [OF Suc.prems(1)]) auto
  from Suc.hyps(1) [OF d this] obtain b' where
    "MoveBitsFW_cells src (si + (hi + LENGTH('a))) [Suc start ..< stop] ?b =
       (b', si + (hi + LENGTH('a)) + LENGTH('a) * (stop - Suc start))"
    "moved src dst si di 0 (hi + LENGTH('a) + LENGTH('a) * (stop - Suc start)) b'"
    using Suc.prems lt eq by (auto simp: add.assoc)
  then show ?case using lt eq by (simp add: upt_conv_Cons cell_simps Let_def add.assoc)
qed

lemma MoveBitsBW_cells:
  assumes "moved src dst si di lo hi (b :: 'a word list)" and "di + lo = LENGTH('a) * m" and "lo \<le> hi"
    and "src = Same \<Longrightarrow> si \<le> di \<and> si + lo \<le> bufsize dst"
    and "a \<le> m" and "di \<le> LENGTH('a) * a"
  shows "\<exists>b'. MoveBitsBW_cells src (si + lo) (rev [a ..< m]) b = (b', si + (LENGTH('a) * a - di))
    \<and> moved src dst si di (LENGTH('a) * a - di) hi b'"
  using assms
proof (induction m arbitrary: lo b)
  case 0
  then show ?case by auto
next
  case (Suc m)
  show ?case
  proof (cases "a = Suc m")
    case True
    then have "LENGTH('a) * a - di = lo" using Suc.prems(2) by (metis add_diff_cancel_left')
    then show ?thesis using Suc.prems(1) True by simp
  next
    case False
    then have am: "a \<le> m" using Suc.prems(5) by simp
    then have "LENGTH('a) * a \<le> LENGTH('a) * m" by simp
    then have lo: "di + (lo - LENGTH('a)) = LENGTH('a) * m" "LENGTH('a) \<le> lo" "di + lo - LENGTH('a) = LENGTH('a) * m"
      using Suc.prems(2,6) unfolding mult_Suc_right by linarith+
    let ?b = "b[m := GetBits (read_from src b) (si + lo - LENGTH('a)) LENGTH('a)]"
    have "moved src dst si di (lo - LENGTH('a)) hi ?b"
      using Suc.prems(3,4) lo writes_cell [of b m "GetBits (read_from src b) (si + lo - LENGTH('a)) LENGTH('a)"]
      by (intro moved_down [OF Suc.prems(1)]) auto
    moreover have "src = Same \<Longrightarrow> si \<le> di \<and> si + (lo - LENGTH('a)) \<le> bufsize dst"
      using Suc.prems(4) by auto
    moreover have "lo - LENGTH('a) \<le> hi" using Suc.prems(3) by simp
    ultimately obtain b' where
      "MoveBitsBW_cells src (si + (lo - LENGTH('a))) (rev [a ..< m]) ?b = (b', si + (LENGTH('a) * a - di))"
      "moved src dst si di (LENGTH('a) * a - di) hi b'"
      using Suc.IH [OF _ lo(1) _ _ am Suc.prems(6)] by blast
    then show ?thesis using am lo(2) by (simp add: cell_simps Let_def)
  qed
qed

lemma MoveBitsFW:
  assumes "src = Same \<Longrightarrow> di \<le> si \<and> si + len \<le> bufsize dst"
  shows "moved src (dst :: 'a word list) si di 0 len (MoveBitsFW src dst si di len)"
proof -
  let ?L = "LENGTH('a)"
  define pre where "pre = ?L - di mod ?L"
  have "di = ?L * (di div ?L) + di mod ?L" and "di mod ?L < ?L" by simp_all
  then have pre: "di + pre = ?L * Suc (di div ?L)" "di + ?L - di mod ?L = di + pre" "pre \<le> ?L"
    unfolding pre_def mult_Suc_right by linarith+
  show ?thesis
  proof (cases "di + pre \<ge> di + len")
    case True
    then show ?thesis
      using assms pre writes_SetBits [of len dst di "GetBits (read_from src dst) si len"]
        moved_up [OF moved_none [of src dst si di 0], of len]
      by (simp add: MoveBitsFW_def Let_def cell_simps)
  next
    case False
    define dst1 where "dst1 = SetBits dst di (GetBits (read_from src dst) si pre) pre"
    define stop where "stop = (di + len) div ?L"
    define sfx where "sfx = (di + len) mod ?L"
    have total: "di + len = ?L * stop + sfx" by (simp add: stop_def sfx_def)
    have "Suc (di div ?L) \<le> stop"
      using False pre(1) unfolding stop_def by (metis div_le_mono leI less_imp_le mult.commute nonzero_mult_div_cancel_right len_not_eq_0)
    then have "?L * (stop - Suc (di div ?L)) + ?L * Suc (di div ?L) = ?L * stop"
      by (metis distrib_left le_add_diff_inverse2)
    then have hi: "pre + ?L * (stop - Suc (di div ?L)) + sfx = len"
      using total pre(1) by linarith
    have "src = Same \<Longrightarrow> si + pre \<le> bufsize dst" using assms False by auto
    then have m1: "moved src dst si di 0 pre dst1"
      using assms pre(3) writes_SetBits [of pre dst di "GetBits (read_from src dst) si pre"]
        moved_up [OF moved_none [of src dst si di 0], of pre] by (auto simp: dst1_def)
    have e: "si + pre + ?L * (stop - Suc (di div ?L)) = si + (len - sfx)"
      "pre + ?L * (stop - Suc (di div ?L)) = len - sfx" using hi by linarith+
    have "src = Same \<Longrightarrow> di \<le> si \<and> si + (len - sfx) \<le> bufsize dst" using assms by auto
    from MoveBitsFW_cells [OF m1 pre(1) _ \<open>Suc (di div ?L) \<le> stop\<close>, unfolded e, OF this]
    obtain dst2 where
      dst2: "MoveBitsFW_cells src (si + pre) [Suc (di div ?L) ..< stop] dst1 = (dst2, si + (len - sfx))"
        "moved src dst si di 0 (len - sfx) dst2" by blast
    have "sfx \<le> ?L" by (simp add: sfx_def less_imp_le)
    then have m3: "moved src dst si di 0 len
        (SetBits dst2 (di + (len - sfx)) (GetBits (read_from src dst2) (si + (len - sfx)) sfx) sfx)"
      using assms hi writes_SetBits [of sfx dst2 "di + (len - sfx)"] moved_up [OF dst2(2), of sfx] by simp
    have "MoveBitsFW src dst si di len =
       (if 0 < sfx then SetBits dst2 (di + (len - sfx)) (GetBits (read_from src dst2) (si + (len - sfx)) sfx) sfx else dst2)"
    proof -
      have cell: "(di + pre) div ?L = Suc (di div ?L)" unfolding pre(1) by simp
      have eqs: "di + pre - di = pre" "di + len - sfx = di + (len - sfx)" using hi by simp_all
      show ?thesis
        by (simp only: MoveBitsFW_def Let_def cell_simps pre(2) False if_False cell eqs dst2(1) prod.case
            dst1_def [symmetric] stop_def [symmetric] sfx_def [symmetric])
    qed
    then show ?thesis using m3 dst2(2) by (auto split: if_splits)
  qed
qed

lemma MoveBitsBW:
  assumes "src = Same \<Longrightarrow> si \<le> di \<and> si + len \<le> bufsize dst"
  shows "moved src (dst :: 'a word list) si di 0 len (MoveBitsBW src dst si di len)"
proof -
  let ?L = "LENGTH('a)"
  define m where "m = (di + len) div ?L"
  define sfx where "sfx = (di + len) mod ?L"
  have total: "di + len = ?L * m + sfx" and sfx: "sfx < ?L" by (simp_all add: m_def sfx_def)
  have extent: "di + len - sfx = ?L * m" using total by simp
  have di: "di = ?L * (di div ?L) + di mod ?L" "di mod ?L < ?L" by simp_all
  show ?thesis
  proof (cases "?L * m \<le> di")
    case True
    then have "len \<le> ?L" using total sfx by linarith
    then show ?thesis
      using assms True writes_SetBits [of len dst di "GetBits (read_from src dst) si len"]
        moved_down [OF moved_none [of src dst si di len], of len]
      by (simp add: MoveBitsBW_def Let_def cell_simps extent flip: sfx_def)
  next
    case False
    let ?a = "Suc (di div ?L)"
    define pre where "pre = ?L - di mod ?L"
    have am: "?a \<le> m" using False di by (metis Suc_leI leI div_mult_self1_is_m div_le_mono len_gt_0 not_le less_mult_imp_div_less mult.commute)
    have pre: "?L * ?a - di = pre" "di \<le> ?L * ?a" "pre \<le> ?L"
      using di unfolding pre_def mult_Suc_right by linarith+
    have lo: "di + (len - sfx) = ?L * m" "sfx \<le> len" using total False by linarith+
    define dst1 where "dst1 = SetBits dst (?L * m) (GetBits (read_from src dst) (si + (len - sfx)) sfx) sfx"
    have m1: "moved src dst si di (len - sfx) len dst1"
      using assms lo sfx writes_SetBits [of sfx dst "?L * m" "GetBits (read_from src dst) (si + (len - sfx)) sfx"]
        moved_down [OF moved_none [of src dst si di len], of sfx] by (auto simp: dst1_def)
    have safe: "src = Same \<Longrightarrow> si \<le> di \<and> si + (len - sfx) \<le> bufsize dst" using assms by auto
    from MoveBitsBW_cells [OF m1 lo(1) _ safe am pre(2), unfolded pre(1)] obtain dst2 where
      dst2: "MoveBitsBW_cells src (si + (len - sfx)) (rev [?a ..< m]) dst1 = (dst2, si + pre)"
        "moved src dst si di pre len dst2" by auto
    have le: "pre \<le> len" using am pre(1) total by (metis lo diff_le_mono diff_le_self diff_add_inverse le_trans mult_le_mono2)
    have "MoveBitsBW src dst si di len = SetBits dst2 di (GetBits (read_from src dst2) si pre) pre"
    proof -
      have eqs: "di + len - ?L * m = sfx" "Suc (m - 1) = m" using total am by linarith+
      show ?thesis
        by (simp only: MoveBitsBW_def Let_def cell_simps m_def [symmetric] sfx_def [symmetric]
            extent eqs False if_False Suc_eq_plus1 [symmetric] dst1_def [symmetric]
            pre_def [symmetric] dst2(1) prod.case add_diff_cancel_right')
    qed
    moreover have "moved src dst si di 0 len (SetBits dst2 di (GetBits (read_from src dst2) si pre) pre)"
    proof -
      have "src = Same \<Longrightarrow> si \<le> di \<and> si + pre \<le> bufsize dst" using assms le by auto
      then show ?thesis
        using moved_down [OF dst2(2), of pre] writes_SetBits [of pre dst2 di] le pre(3) by simp
    qed
    ultimately show ?thesis by simp
  qed
qed

lemma MoveBits:
  assumes "src = Same \<Longrightarrow> si + len \<le> bufsize dst"
  shows "moved src (dst :: 'a word list) si di 0 len (MoveBits src dst si di len)"
  using assms by (auto simp: MoveBits_def intro!: MoveBitsFW MoveBitsBW)

end

section \<open>The cell types of the code\<close>

interpretation c8: cell_type "TYPE(8)" by unfold_locales simp

interpretation c32: cell_type "TYPE(32)" by unfold_locales simp

interpretation c64: cell_type "TYPE(64)" by unfold_locales simp

text \<open>
  C19: \<open>MoveBits\<close> is a \<open>memmove\<close> of bits: the destination range receives what the source range held
  before the call, every other bit of the destination keeps its value, also when source and
  destination are overlapping ranges of the same buffer and whatever the alignment of the ranges.
\<close>

theorem MoveBits_memmove:
  fixes dst :: "u64 list"
  assumes "si + len \<le> bufsize (read_from src dst)" and "di + len \<le> bufsize dst"
  shows "length (MoveBits src dst si di len) = length dst \<and>
    (\<forall>j < bufsize dst. bufbit (MoveBits src dst si di len) j =
       (if di \<le> j \<and> j < di + len then bufbit (read_from src dst) (si + (j - di)) else bufbit dst j))"
  using c64.MoveBits [of src si len dst di] assms(1) by (cases src) (simp_all add: moved_def)

theorem MoveBits_memmove_witness:
  "bufbit (MoveBits Same [0xFF, 0 :: u64] 0 60 8) 67 \<and> \<not> bufbit (MoveBits Same [0xFF, 0 :: u64] 0 60 8) 68"
  using MoveBits_memmove [of 0 8 Same "[0xFF, 0]" 60]
  by (simp add: bufsize_def) (simp add: bufbit_def)

text \<open>
  A bit group written by \<open>SetBits\<close> is read back by \<open>GetBits\<close>, truncated to its width, at any bit
  address, also when the group spans two cells; no bit outside the group changes.
\<close>

theorem GetBits_SetBits:
  fixes buf :: "u64 list"
  assumes "n \<le> 64" and "i + n \<le> bufsize buf"
  shows "GetBits (SetBits buf i v n) i n = take_bit n v \<and>
    (\<forall>j < bufsize buf. \<not> (i \<le> j \<and> j < i + n) \<longrightarrow> bufbit (SetBits buf i v n) j = bufbit buf j)"
proof -
  have "GetBits (SetBits buf i v n) i n = take_bit n v"
  proof (rule bit_word_eqI)
    fix k
    have "k < n \<Longrightarrow> bufbit (SetBits buf i v n) (i + k) = bit v k"
      using assms by (simp add: c64.SetBits)
    then show "bit (GetBits (SetBits buf i v n) i n) k = bit (take_bit n v) k"
      using assms(1) by (auto simp: c64.GetBits bit_take_bit_iff)
  qed
  then show ?thesis using assms(1) by (auto simp: c64.SetBits)
qed

theorem GetBits_SetBits_witness:
  "GetBits (SetBits [0, 0 :: u64] 60 0x1AB 8) 60 8 = 0xAB"
  using GetBits_SetBits [of 8 60 "[0, 0]" "0x1AB"] by (simp add: bufsize_def take_bit_eq_mod)

text \<open>
  \<open>FillOne\<close> sets and \<open>FillZero\<close> clears exactly the bits of the range.
\<close>

theorem Fill_ranges:
  fixes buf :: "u64 list"
  assumes "start \<le> stop" and "stop \<le> bufsize buf" and "i < bufsize buf"
  shows "bufbit (FillOne buf start stop) i = (start \<le> i \<and> i < stop \<or> bufbit buf i)
    \<and> bufbit (FillZero buf start stop) i = (\<not> (start \<le> i \<and> i < stop) \<and> bufbit buf i)"
  using assms by (simp add: c64.FillOne c64.FillZero)

theorem Fill_ranges_witness:
  "bufbit (FillOne [0, 0, 0 :: u64] 60 140) 100 \<and> \<not> bufbit (FillZero [0, - 1, 0 :: u64] 60 140) 100"
  using Fill_ranges [of 60 140 "[0, 0, 0]" 100] Fill_ranges [of 60 140 "[0, - 1, 0]" 100]
  by (simp add: bufsize_def)

end
