(* ===== verification/Bitmap_Count.thy ===== *)
theory Bitmap_Count
  imports Bitmap
begin

text \<open>
  The counting half of \<^verbatim>\<open>include/memoria/core/tools/bitmap.hpp\<close>: population counts of words and of bit
  ranges, bit reversal, runs of equal bits read forwards and backwards with byte tables, leading
  and trailing zeroes, and the small buffer helpers at the end of the file.

  The abstract specifications are \<open>npop\<close> (the number of set bits) and \<open>run_fw\<close> and \<open>run_bw\<close>
  (the length of the run of bits equal to a given one). Results that the code returns in
  \<open>int32_t\<close> or \<open>size_t\<close> are natural numbers: they never exceed the number of bits of the buffer.
\<close>

section \<open>Byte tables\<close>

definition kPopCountFW_LUT :: "nat list" where
  "kPopCountFW_LUT =
    [0, 1, 0, 2, 0, 1, 0, 3, 0, 1, 0, 2, 0, 1, 0, 4, 0, 1, 0, 2, 0, 1, 0, 3, 0, 1, 0, 2, 0, 1, 0, 5,
     0, 1, 0, 2, 0, 1, 0, 3, 0, 1, 0, 2, 0, 1, 0, 4, 0, 1, 0, 2, 0, 1, 0, 3, 0, 1, 0, 2, 0, 1, 0, 6,
     0, 1, 0, 2, 0, 1, 0, 3, 0, 1, 0, 2, 0, 1, 0, 4, 0, 1, 0, 2, 0, 1, 0, 3, 0, 1, 0, 2, 0, 1, 0, 5,
     0, 1, 0, 2, 0, 1, 0, 3, 0, 1, 0, 2, 0, 1, 0, 4, 0, 1, 0, 2, 0, 1, 0, 3, 0, 1, 0, 2, 0, 1, 0, 7,
     0, 1, 0, 2, 0, 1, 0, 3, 0, 1, 0, 2, 0, 1, 0, 4, 0, 1, 0, 2, 0, 1, 0, 3, 0, 1, 0, 2, 0, 1, 0, 5,
     0, 1, 0, 2, 0, 1, 0, 3, 0, 1, 0, 2, 0, 1, 0, 4, 0, 1, 0, 2, 0, 1, 0, 3, 0, 1, 0, 2, 0, 1, 0, 6,
     0, 1, 0, 2, 0, 1, 0, 3, 0, 1, 0, 2, 0, 1, 0, 4, 0, 1, 0, 2, 0, 1, 0, 3, 0, 1, 0, 2, 0, 1, 0, 5,
     0, 1, 0, 2, 0, 1, 0, 3, 0, 1, 0, 2, 0, 1, 0, 4, 0, 1, 0, 2, 0, 1, 0, 3, 0, 1, 0, 2, 0, 1, 0, 8]"

definition kZeroCountFW_LUT :: "nat list" where
  "kZeroCountFW_LUT =
    [8, 0, 1, 0, 2, 0, 1, 0, 3, 0, 1, 0, 2, 0, 1, 0, 4, 0, 1, 0, 2, 0, 1, 0, 3, 0, 1, 0, 2, 0, 1, 0,
     5, 0, 1, 0, 2, 0, 1, 0, 3, 0, 1, 0, 2, 0, 1, 0, 4, 0, 1, 0, 2, 0, 1, 0, 3, 0, 1, 0, 2, 0, 1, 0,
     6, 0, 1, 0, 2, 0, 1, 0, 3, 0, 1, 0, 2, 0, 1, 0, 4, 0, 1, 0, 2, 0, 1, 0, 3, 0, 1, 0, 2, 0, 1, 0,
     5, 0, 1, 0, 2, 0, 1, 0, 3, 0, 1, 0, 2, 0, 1, 0, 4, 0, 1, 0, 2, 0, 1, 0, 3, 0, 1, 0, 2, 0, 1, 0,
     7, 0, 1, 0, 2, 0, 1, 0, 3, 0, 1, 0, 2, 0, 1, 0, 4, 0, 1, 0, 2, 0, 1, 0, 3, 0, 1, 0, 2, 0, 1, 0,
     5, 0, 1, 0, 2, 0, 1, 0, 3, 0, 1, 0, 2, 0, 1, 0, 4, 0, 1, 0, 2, 0, 1, 0, 3, 0, 1, 0, 2, 0, 1, 0,
     6, 0, 1, 0, 2, 0, 1, 0, 3, 0, 1, 0, 2, 0, 1, 0, 4, 0, 1, 0, 2, 0, 1, 0, 3, 0, 1, 0, 2, 0, 1, 0,
     5, 0, 1, 0, 2, 0, 1, 0, 3, 0, 1, 0, 2, 0, 1, 0, 4, 0, 1, 0, 2, 0, 1, 0, 3, 0, 1, 0, 2, 0, 1, 0]"

definition kPopCountBW_LUT :: "nat list" where
  "kPopCountBW_LUT =
    [0, 0, 0, 0, 0, 0, 0, 0, 0, 0, 0, 0, 0, 0, 0, 0, 0, 0, 0, 0, 0, 0, 0, 0, 0, 0, 0, 0, 0, 0, 0, 0,
     0, 0, 0, 0, 0, 0, 0, 0, 0, 0, 0, 0, 0, 0, 0, 0, 0, 0, 0, 0, 0, 0, 0, 0, 0, 0, 0, 0, 0, 0, 0, 0,
     0, 0, 0, 0, 0, 0, 0, 0, 0, 0, 0, 0, 0, 0, 0, 0, 0, 0, 0, 0, 0, 0, 0, 0, 0, 0, 0, 0, 0, 0, 0, 0,
     0, 0, 0, 0, 0, 0, 0, 0, 0, 0, 0, 0, 0, 0, 0, 0, 0, 0, 0, 0, 0, 0, 0, 0, 0, 0, 0, 0, 0, 0, 0, 0,
     1, 1, 1, 1, 1, 1, 1, 1, 1, 1, 1, 1, 1, 1, 1, 1, 1, 1, 1, 1, 1, 1, 1, 1, 1, 1, 1, 1, 1, 1, 1, 1,
     1, 1, 1, 1, 1, 1, 1, 1, 1, 1, 1, 1, 1, 1, 1, 1, 1, 1, 1, 1, 1, 1, 1, 1, 1, 1, 1, 1, 1, 1, 1, 1,
     2, 2, 2, 2, 2, 2, 2, 2, 2, 2, 2, 2, 2, 2, 2, 2, 2, 2, 2, 2, 2, 2, 2, 2, 2, 2, 2, 2, 2, 2, 2, 2,
     3, 3, 3, 3, 3, 3, 3, 3, 3, 3, 3, 3, 3, 3, 3, 3, 4, 4, 4, 4, 4, 4, 4, 4, 5, 5, 5, 5, 6, 6, 7, 8]"

definition kZeroCountBW_LUT :: "nat list" where
  "kZeroCountBW_LUT =
    [8, 7, 6, 6, 5, 5, 5, 5, 4, 4, 4, 4, 4, 4, 4, 4, 3, 3, 3, 3, 3, 3, 3, 3, 3, 3, 3, 3, 3, 3, 3, 3,
     2, 2, 2, 2, 2, 2, 2, 2, 2, 2, 2, 2, 2, 2, 2, 2, 2, 2, 2, 2, 2, 2, 2, 2, 2, 2, 2, 2, 2, 2, 2, 2,
     1, 1, 1, 1, 1, 1, 1, 1, 1, 1, 1, 1, 1, 1, 1, 1, 1, 1, 1, 1, 1, 1, 1, 1, 1, 1, 1, 1, 1, 1, 1, 1,
     1, 1, 1, 1, 1, 1, 1, 1, 1, 1, 1, 1, 1, 1, 1, 1, 1, 1, 1, 1, 1, 1, 1, 1, 1, 1, 1, 1, 1, 1, 1, 1,
     0, 0, 0, 0, 0, 0, 0, 0, 0, 0, 0, 0, 0, 0, 0, 0, 0, 0, 0, 0, 0, 0, 0, 0, 0, 0, 0, 0, 0, 0, 0, 0,
     0, 0, 0, 0, 0, 0, 0, 0, 0, 0, 0, 0, 0, 0, 0, 0, 0, 0, 0, 0, 0, 0, 0, 0, 0, 0, 0, 0, 0, 0, 0, 0,
     0, 0, 0, 0, 0, 0, 0, 0, 0, 0, 0, 0, 0, 0, 0, 0, 0, 0, 0, 0, 0, 0, 0, 0, 0, 0, 0, 0, 0, 0, 0, 0,
     0, 0, 0, 0, 0, 0, 0, 0, 0, 0, 0, 0, 0, 0, 0, 0, 0, 0, 0, 0, 0, 0, 0, 0, 0, 0, 0, 0, 0, 0, 0, 0]"

section \<open>Words\<close>

fun NumberOfBits :: "nat \<Rightarrow> nat" where
  "NumberOfBits v = (if v < 2 then v else 1 + NumberOfBits (v div 2))"

declare NumberOfBits.simps [simp del]

definition ReverseBits64 :: "u64 \<Rightarrow> u64" where
  "ReverseBits64 value0 =
     (let value1 = drop_bit 1 (value0 AND 0xAAAAAAAAAAAAAAAA) OR push_bit 1 (value0 AND 0x5555555555555555);
          value2 = drop_bit 2 (value1 AND 0xCCCCCCCCCCCCCCCC) OR push_bit 2 (value1 AND 0x3333333333333333);
          value3 = drop_bit 4 (value2 AND 0xF0F0F0F0F0F0F0F0) OR push_bit 4 (value2 AND 0x0F0F0F0F0F0F0F0F);
          value4 = drop_bit 8 (value3 AND 0xFF00FF00FF00FF00) OR push_bit 8 (value3 AND 0x00FF00FF00FF00FF);
          value5 = drop_bit 16 (value4 AND 0xFFFF0000FFFF0000) OR push_bit 16 (value4 AND 0x0000FFFF0000FFFF)
      in drop_bit 32 value5 OR push_bit 32 value5)"

definition ReverseBits32 :: "u32 \<Rightarrow> u32" where
  "ReverseBits32 value0 =
     (let value1 = drop_bit 1 (value0 AND 0xaaaaaaaa) OR push_bit 1 (value0 AND 0x55555555);
          value2 = drop_bit 2 (value1 AND 0xcccccccc) OR push_bit 2 (value1 AND 0x33333333);
          value3 = drop_bit 4 (value2 AND 0xf0f0f0f0) OR push_bit 4 (value2 AND 0x0f0f0f0f);
          value4 = drop_bit 8 (value3 AND 0xff00ff00) OR push_bit 8 (value3 AND 0x00ff00ff)
      in drop_bit 16 value4 OR push_bit 16 value4)"

definition PopCnt64 :: "u64 \<Rightarrow> nat" where
  "PopCnt64 arg0 =
     (let arg1 = arg0 - (drop_bit 1 arg0 AND 0x5555555555555555);
          arg2 = (drop_bit 2 arg1 AND 0x3333333333333333) + (arg1 AND 0x3333333333333333);
          arg3 = (arg2 + drop_bit 4 arg2) AND 0x0F0F0F0F0F0F0F0F;
          argl = (ucast (arg3 + drop_bit 32 arg3) :: u32);
          argl1 = argl + drop_bit 16 argl
      in unat ((argl1 + drop_bit 8 argl1) AND 0x7F))"

definition PopCnt32 :: "u32 \<Rightarrow> nat" where
  "PopCnt32 v0 =
     (let v1 = v0 - (drop_bit 1 v0 AND 0x55555555);
          v2 = (v1 AND 0x33333333) + (drop_bit 2 v1 AND 0x33333333);
          v3 = (v2 + drop_bit 4 v2) AND 0x0F0F0F0F
      in unat (drop_bit 24 (v3 * 0x01010101)))"

definition PopCnt8 :: "u8 \<Rightarrow> nat" where
  \<comment> \<open>the operands are promoted to \<open>int\<close> and each result is stored back into the byte\<close>
  "PopCnt8 v0 =
     (let v1 = v0 - (drop_bit 1 v0 AND 0x55);
          v2 = (v1 AND 0x33) + (drop_bit 2 v1 AND 0x33);
          v3 = (v2 + drop_bit 4 v2) AND 0x0F
      in unat v3)"

definition divUp :: "nat \<Rightarrow> nat \<Rightarrow> nat" where
  "divUp value divider = value div divider + (if value mod divider \<noteq> 0 then 1 else 0)"

definition PopCnt64_range :: "u64 \<Rightarrow> nat \<Rightarrow> nat \<Rightarrow> nat" where
  "PopCnt64_range arg start len = (let msk = MakeMask start len in PopCnt64 (arg AND msk))"

definition PopCnt32_range :: "u32 \<Rightarrow> nat \<Rightarrow> nat \<Rightarrow> nat" where
  "PopCnt32_range arg start len = (let msk = MakeMask start len in PopCnt32 (arg AND msk))"

section \<open>Population count of a range of bits\<close>

text \<open>
  \<open>PopCount\<close> is a template over the cell type; the overload of \<open>PopCnt\<close> that it calls for a
  whole cell and for a part of a cell is an argument of the definition.
\<close>

definition PopCount_with ::
  "('a::len word \<Rightarrow> nat) \<Rightarrow> ('a word \<Rightarrow> nat \<Rightarrow> nat \<Rightarrow> nat) \<Rightarrow> 'a word list \<Rightarrow> nat \<Rightarrow> nat \<Rightarrow> nat" where
  "PopCount_with PopCnt PopCnt_range buffer start stop =
     (let bitsize = TypeBitsize TYPE('a); msk = TypeBitmask TYPE('a);
          divisor = TypeBitmaskPopCount msk;
          pre = bitsize - (start AND msk)
      in if start + pre > stop then
           PopCnt_range (buffer ! drop_bit divisor start) (start AND msk) (stop - start)
         else
           (let total0 = PopCnt_range (buffer ! drop_bit divisor start) (start AND msk) pre;
                total1 = fold (\<lambda>c total. total + PopCnt (buffer ! c))
                           [drop_bit divisor start + 1 ..< drop_bit divisor stop] total0;
                suffix = stop AND msk
            in if 0 < suffix then total1 + PopCnt_range (buffer ! drop_bit divisor stop) 0 suffix
               else total1))"

definition PopCount64 :: "u64 list \<Rightarrow> nat \<Rightarrow> nat \<Rightarrow> nat" where
  "PopCount64 = PopCount_with PopCnt64 PopCnt64_range"

definition PopCount32 :: "u32 list \<Rightarrow> nat \<Rightarrow> nat \<Rightarrow> nat" where
  "PopCount32 = PopCount_with PopCnt32 PopCnt32_range"

section \<open>Runs of equal bits\<close>

function CountFw_bytes :: "'a::len word list \<Rightarrow> nat \<Rightarrow> nat \<Rightarrow> nat list \<Rightarrow> nat \<Rightarrow> nat \<times> bool" where
  \<comment> \<open>the byte loop; the flag says that it returned from the function\<close>
  "CountFw_bytes buffer c stop lut cnt =
     (if c < stop then
        (let tmp = unat (GetBits buffer c 8); bits = lut ! tmp; cnt = cnt + bits
         in if bits < 8 then (cnt, True) else CountFw_bytes buffer (c + 8) stop lut cnt)
      else (cnt, False))"
  by pat_completeness auto

termination CountFw_bytes
  by (relation "measure (\<lambda>(buffer, c, stop, lut, cnt). stop - c)") auto

declare CountFw_bytes.simps [simp del]

definition CountFw_intrnl :: "'a::len word list \<Rightarrow> nat \<Rightarrow> nat \<Rightarrow> nat list \<Rightarrow> bool \<Rightarrow> nat" where
  "CountFw_intrnl buffer start stop lut zero =
     (let rest = (stop - start) AND 7
      in case CountFw_bytes buffer start (stop - rest) lut 0 of
           (cnt, True) \<Rightarrow> cnt
         | (cnt, False) \<Rightarrow>
             if 0 < rest then
               (let tmp = unat (GetBits buffer (stop - rest) rest);
                    tmp = (if zero then tmp OR push_bit rest 1 else tmp)
                in cnt + lut ! tmp)
             else cnt)"

fun CountBw_bytes :: "'a::len word list \<Rightarrow> nat \<Rightarrow> nat \<Rightarrow> nat list \<Rightarrow> nat \<Rightarrow> nat \<times> bool" where
  \<comment> \<open>\<open>e\<close> is the code's \<open>c + 1\<close>, so that it stays a natural number\<close>
  "CountBw_bytes buffer e bound lut cnt =
     (if e > bound + 1 then
        (let tmp = unat (GetBits buffer (e - 8) 8); bits = lut ! tmp; cnt = cnt + bits
         in if bits < 8 then (cnt, True) else CountBw_bytes buffer (e - 8) bound lut cnt)
      else (cnt, False))"

declare CountBw_bytes.simps [simp del]

definition CountBw_intrnl :: "'a::len word list \<Rightarrow> nat \<Rightarrow> nat \<Rightarrow> nat list \<Rightarrow> bool \<Rightarrow> nat" where
  "CountBw_intrnl buffer start stop lut zero =
     (if start > stop then
        (let rest = (start - stop) AND 7
         in case CountBw_bytes buffer start (stop + rest) lut 0 of
              (cnt, True) \<Rightarrow> cnt
            | (cnt, False) \<Rightarrow>
                if 0 < rest then
                  (let tmp = unat (GetBits buffer stop rest);
                       tmp = (if zero then push_bit (7 - rest) (push_bit 1 tmp OR 1)
                              else push_bit (8 - rest) tmp)
                   in cnt + lut ! tmp)
                else cnt)
      else 0)"

function CountFw_cells :: "'a::len word list \<Rightarrow> 'a word \<Rightarrow> nat \<Rightarrow> nat \<Rightarrow> nat \<Rightarrow> nat \<times> nat" where
  \<comment> \<open>returns \<open>cell\<close> and \<open>cnt\<close> when the loop ends or breaks\<close>
  "CountFw_cells buffer value cell stop_cell cnt =
     (if cell < stop_cell \<and> buffer ! cell = value
      then CountFw_cells buffer value (cell + 1) stop_cell (cnt + TypeBitsize TYPE('a))
      else (cell, cnt))"
  by pat_completeness auto

termination CountFw_cells
  by (relation "measure (\<lambda>(buffer, value, cell, stop_cell, cnt). stop_cell - cell)") auto

declare CountFw_cells.simps [simp del]

definition CountFw :: "'a::len word list \<Rightarrow> nat \<Rightarrow> nat \<Rightarrow> nat list \<Rightarrow> bool \<Rightarrow> nat" where
  "CountFw buffer start stop lut zero =
     (let bitsize = TypeBitsize TYPE('a); msk = TypeBitmask TYPE('a);
          extent = start + bitsize - (start AND msk)
      in if extent \<ge> stop then CountFw_intrnl buffer start stop lut zero
         else
           (let cnt = CountFw_intrnl buffer start extent lut zero
            in if cnt = extent - start then
                 (let divisor = TypeBitmaskPopCount msk;
                      start_cell = drop_bit divisor extent;
                      stop_cell = drop_bit divisor stop;
                      value = (if zero then 0 else - 1);
                      (cell, cnt) = CountFw_cells buffer value start_cell stop_cell cnt
                  in cnt + CountFw_intrnl buffer (push_bit divisor cell) stop lut zero)
               else cnt))"

definition CountOneFw :: "'a::len word list \<Rightarrow> nat \<Rightarrow> nat \<Rightarrow> nat" where
  "CountOneFw buffer start stop = CountFw buffer start stop kPopCountFW_LUT False"

definition CountZeroFw :: "'a::len word list \<Rightarrow> nat \<Rightarrow> nat \<Rightarrow> nat" where
  "CountZeroFw buffer start stop = CountFw buffer start stop kZeroCountFW_LUT True"

fun CountBw_cells ::
  "'a::len word list \<Rightarrow> 'a word \<Rightarrow> nat \<Rightarrow> nat \<Rightarrow> nat \<Rightarrow> nat list \<Rightarrow> bool \<Rightarrow> nat \<Rightarrow> nat" where
  \<comment> \<open>\<open>m\<close> is the code's \<open>cell + 1\<close>: the loop ends when \<open>cell\<close> reaches \<open>stop_cell - 1\<close>, which wraps
     around together with \<open>cell\<close> when \<open>stop_cell\<close> is 0\<close>
  "CountBw_cells buffer value m stop_cell stop lut zero cnt =
     (if m > stop_cell then
        (if buffer ! (m - 1) = value
         then CountBw_cells buffer value (m - 1) stop_cell stop lut zero (cnt + TypeBitsize TYPE('a))
         else cnt + CountBw_intrnl buffer
                      (push_bit (TypeBitmaskPopCount (TypeBitmask TYPE('a))) m) stop lut zero)
      else cnt)"

declare CountBw_cells.simps [simp del]

definition CountBw :: "'a::len word list \<Rightarrow> nat \<Rightarrow> nat \<Rightarrow> nat list \<Rightarrow> bool \<Rightarrow> nat" where
  "CountBw buffer start stop lut zero =
     (let msk = TypeBitmask TYPE('a); extent = start - (start AND msk)
      in if extent \<le> stop \<or> extent = 0 then CountBw_intrnl buffer start stop lut zero
         else
           (let cnt = CountBw_intrnl buffer start extent lut zero
            in if cnt = start - extent then
                 (let divisor = TypeBitmaskPopCount msk;
                      value = (if zero then 0 else - 1)
                  in CountBw_cells buffer value (drop_bit divisor extent) (drop_bit divisor stop)
                       stop lut zero cnt)
               else cnt))"

definition CountOneBw :: "'a::len word list \<Rightarrow> nat \<Rightarrow> nat \<Rightarrow> nat" where
  "CountOneBw buffer start stop = CountBw buffer start stop kPopCountBW_LUT False"

definition CountZeroBw :: "'a::len word list \<Rightarrow> nat \<Rightarrow> nat \<Rightarrow> nat" where
  "CountZeroBw buffer start stop = CountBw buffer start stop kZeroCountBW_LUT True"

section \<open>Leading and trailing zeroes\<close>

fun CtLZ_bits :: "'a::len word \<Rightarrow> nat \<Rightarrow> nat" where
  \<comment> \<open>the mask of the recursion has exactly the bit \<open>k\<close> set\<close>
  "CtLZ_bits val 0 = (if val AND 1 = 0 then 1 else 0)"
| "CtLZ_bits val (Suc k) =
     (if val AND push_bit (Suc k) 1 = 0 then 1 + CtLZ_bits val k else 0)"

definition CtLZ :: "'a::len word \<Rightarrow> nat" where
  "CtLZ val = CtLZ_bits val (LENGTH('a) - 1)"

definition Log2 :: "u64 \<Rightarrow> nat" where
  "Log2 value = 64 - CtLZ value"

definition builtin_ctz :: "'a::len word \<Rightarrow> nat" where
  \<comment> \<open>the compiler's \<open>__builtin_ctz\<close>; undefined for 0\<close>
  "builtin_ctz v = length (takeWhile (\<lambda>i. \<not> bit v i) [0 ..< LENGTH('a)])"

function CountTrailingZeroes_cells ::
  "'a::len word list \<Rightarrow> nat \<Rightarrow> nat \<Rightarrow> nat \<Rightarrow> nat \<Rightarrow> nat \<times> nat \<times> bool" where
  \<comment> \<open>returns \<open>length\<close>, \<open>prefix\<close> and whether the function returned from the loop\<close>
  "CountTrailingZeroes_cells buf c stop_cell pre len =
     (if c < stop_cell then
        (let val = drop_bit pre (buf ! c)
         in if val \<noteq> 0 then (len + builtin_ctz val, pre, True)
            else CountTrailingZeroes_cells buf (c + 1) stop_cell 0 (len + TypeBitsize TYPE('a) - pre))
      else (len, pre, False))"
  by pat_completeness auto

termination CountTrailingZeroes_cells
  by (relation "measure (\<lambda>(buf, c, stop_cell, pre, len). stop_cell - c)") auto

declare CountTrailingZeroes_cells.simps [simp del]

definition CountTrailingZeroes :: "'a::len word list \<Rightarrow> nat \<Rightarrow> nat \<Rightarrow> nat" where
  "CountTrailingZeroes buf pos limit =
     (let bitsize = TypeBitsize TYPE('a); msk = TypeBitmask TYPE('a);
          start_cell = pos div bitsize; stop_cell = limit div bitsize
      in case CountTrailingZeroes_cells buf start_cell stop_cell (pos AND msk) 0 of
           (len, pre, True) \<Rightarrow> len
         | (len, pre, False) \<Rightarrow>
             (let suffix = limit AND msk
              in if 0 < suffix then
                   (let val = drop_bit pre (buf ! stop_cell)
                    in if val \<noteq> 0 then len + builtin_ctz val else len + suffix)
                 else len))"

definition CountTrailingZeroesLight :: "'a::len word list \<Rightarrow> nat \<Rightarrow> nat \<Rightarrow> nat" where
  "CountTrailingZeroesLight buf pos limit = builtin_ctz (GetBits buf pos (TypeBitsize TYPE('a)))"

section \<open>Degree sequences and buffer copies\<close>

definition CreateUDS_node :: "nat \<Rightarrow> nat \<Rightarrow> 'a::len word list \<times> nat \<Rightarrow> 'a word list \<times> nat" where
  "CreateUDS_node node_bits d st =
     (let (buf, start) = fold (\<lambda>_ (buf, start). (SetBit buf start True, start + 1)) [0 ..< d] st;
          (buf, start) = (SetBit buf start False, start + 1);
          (buf, start) = fold (\<lambda>_ (buf, start). (SetBits buf start 9 node_bits, start + node_bits))
                           [0 ..< d] (buf, start)
      in if 0 < d then (SetBit buf start False, start + 1) else (buf, start))"

definition CreateUDS :: "'a::len word list \<Rightarrow> nat \<Rightarrow> nat list \<Rightarrow> nat \<Rightarrow> 'a word list \<times> nat" where
  "CreateUDS buf start ds node_bits = fold (CreateUDS_node node_bits) ds (buf, start)"

definition CopyBuffer :: "'t list \<Rightarrow> nat \<Rightarrow> 't list \<Rightarrow> nat \<Rightarrow> nat \<Rightarrow> 't list" where
  \<comment> \<open>\<open>memmove\<close> of \<open>size\<close> elements: the result for overlapping ranges is that of a disjoint copy\<close>
  "CopyBuffer src s dst d sz = take d dst @ take sz (drop s src) @ drop (d + sz) dst"

definition MoveBuffer :: "'t list \<Rightarrow> nat \<Rightarrow> nat \<Rightarrow> nat \<Rightarrow> 't list" where
  "MoveBuffer src start to sz = CopyBuffer src start src to sz"

section \<open>Fields of a number\<close>

lemma bit_field:
  fixes a q :: nat
  assumes "a < 2 ^ w"
  shows "bit (a + 2 ^ w * q) i = (if i < w then bit a i else bit q (i - w))"
proof (cases "i < w")
  case True
  then obtain d where w: "w = i + Suc d" by (auto simp: less_iff_Suc_add)
  have "(a + 2 ^ w * q) div 2 ^ i = (a + 2 ^ i * (2 * (2 ^ d * q))) div 2 ^ i"
    by (simp only: w power_add power_Suc mult.assoc)
  also have "\<dots> = a div 2 ^ i + 2 * (2 ^ d * q)" by simp
  finally show ?thesis using True by (simp add: bit_iff_odd)
next
  case False
  then have "(2 :: nat) ^ i = 2 ^ w * 2 ^ (i - w)" by (simp flip: power_add)
  then have "(a + 2 ^ w * q) div 2 ^ i = q div 2 ^ (i - w)"
    using assms by (simp add: div_mult2_eq)
  then show ?thesis using False by (simp add: bit_iff_odd)
qed

lemma less_exp_not_bit:
  fixes m :: nat
  assumes "m < 2 ^ w" and "w \<le> i"
  shows "\<not> bit m i"
  using assms by (metis bit_take_bit_iff leD take_bit_nat_eq_self_iff)

lemma and_less_exp:
  fixes a m :: nat
  assumes "m < 2 ^ w"
  shows "a AND m < 2 ^ w"
proof -
  have "take_bit w (a AND m) = take_bit w a AND m"
    using assms by (simp add: take_bit_nat_eq_self)
  also have "\<dots> = a AND m"
    by (rule bit_eqI) (use less_exp_not_bit [OF assms] in \<open>auto simp: bit_and_iff bit_take_bit_iff not_le [symmetric]\<close>)
  finally show ?thesis by (metis take_bit_nat_less_exp)
qed

lemma and_field:
  fixes a m q M :: nat
  assumes "a < 2 ^ w" and "m < 2 ^ w"
  shows "(a + 2 ^ w * q) AND (m + 2 ^ w * M) = (a AND m) + 2 ^ w * (q AND M)"
  by (rule bit_eqI) (use assms and_less_exp [OF assms(2)] in \<open>simp add: bit_and_iff bit_field\<close>)

lemma shift_and_field:
  fixes a m q M :: nat
  assumes "a < 2 ^ w" and "m < 2 ^ (w - k)" and "k \<le> w"
  shows "drop_bit k (a + 2 ^ w * q) AND (m + 2 ^ w * M) = (drop_bit k a AND m) + 2 ^ w * (drop_bit k q AND M)"
proof (rule bit_eqI)
  fix i
  have m: "m < 2 ^ w" using assms(2) by (rule order.strict_trans2) simp
  have "i < w \<Longrightarrow> w \<le> k + i \<Longrightarrow> \<not> bit m i" using less_exp_not_bit [OF assms(2)] assms(3) by auto
  then show "bit (drop_bit k (a + 2 ^ w * q) AND (m + 2 ^ w * M)) i =
      bit ((drop_bit k a AND m) + 2 ^ w * (drop_bit k q AND M)) i"
    using assms m and_less_exp [OF m] by (auto simp: bit_and_iff bit_field bit_drop_bit_eq)
qed

section \<open>Population counts\<close>

lemma upt_numeral_eqs:
  "[0 ..< numeral n] = 0 # [Suc 0 ..< numeral n]"
  "[Suc 0 ..< numeral n] = (if Suc 0 < numeral n then Suc 0 # [2 ..< numeral n] else [])"
  by (simp_all add: upt_conv_Cons numeral_2_eq_2)

definition npop :: "nat \<Rightarrow> nat \<Rightarrow> nat" where
  "npop x n = length (filter (bit x) [0 ..< n])"

lemma npop_field:
  assumes "a < 2 ^ w"
  shows "npop (a + 2 ^ w * q) (w + n) = npop a w + npop q n"
proof -
  define x where "x = a + 2 ^ w * q"
  have x: "bit x i = (if i < w then bit a i else bit q (i - w))" for i
    unfolding x_def using assms by (rule bit_field)
  have "[0 ..< w + n] = [0 ..< w] @ map (\<lambda>i. i + w) [0 ..< n]"
    using upt_add_eq_append [of 0 w n] by (simp add: map_add_upt add.commute)
  moreover have "filter (bit x) [0 ..< w] = filter (bit a) [0 ..< w]"
    by (rule filter_cong) (simp_all add: x)
  ultimately show ?thesis
    unfolding x_def [symmetric] by (simp add: npop_def filter_map comp_def x)
qed

text \<open>A number as the sum of its bytes, lowest byte first.\<close>

fun bval :: "nat list \<Rightarrow> nat" where
  "bval [] = 0"
| "bval (b # bs) = b + 256 * bval bs"

fun bytes_of :: "nat \<Rightarrow> nat \<Rightarrow> nat list" where
  "bytes_of 0 x = []"
| "bytes_of (Suc n) x = x mod 256 # bytes_of n (x div 256)"

lemma bytes_of: "x < 256 ^ n \<Longrightarrow> bval (bytes_of n x) = x"
  by (induction n x rule: bytes_of.induct) (simp_all add: less_mult_imp_div_less mult.commute)

lemma bytes_of_less: "b \<in> set (bytes_of n x) \<Longrightarrow> b < 256"
  by (induction n x rule: bytes_of.induct) auto

lemma length_bytes_of [simp]: "length (bytes_of n x) = n"
  by (induction n x rule: bytes_of.induct) auto

lemma npop_bval:
  assumes "\<forall>b \<in> set bs. b < 256"
  shows "npop (bval bs) (8 * length bs) = sum_list (map (\<lambda>b. npop b 8) bs)"
  using assms
proof (induction bs)
  case (Cons b bs)
  then show ?case using npop_field [of b 8 "bval bs" "8 * length bs"] by simp
qed (simp add: npop_def)

text \<open>The three steps on one byte and on all bytes at once.\<close>

definition swar1 :: "nat \<Rightarrow> nat \<Rightarrow> nat" where "swar1 m x = x - (drop_bit 1 x AND m)"
definition swar2 :: "nat \<Rightarrow> nat \<Rightarrow> nat" where "swar2 m x = (x AND m) + (drop_bit 2 x AND m)"
definition swar3 :: "nat \<Rightarrow> nat \<Rightarrow> nat" where "swar3 m x = (x + drop_bit 4 x) AND m"

lemma swar_byte:
  assumes "b < 256"
  shows "swar1 0x55 b < 256"
    and "swar2 0x33 (swar1 0x55 b) mod 16 \<le> 4"
    and "swar2 0x33 (swar1 0x55 b) div 16 \<le> 4"
    and "swar3 0x0F (swar2 0x33 (swar1 0x55 b)) = npop b 8"
proof -
  have "list_all (\<lambda>b. swar1 0x55 b < 256 \<and> swar2 0x33 (swar1 0x55 b) mod 16 \<le> 4
      \<and> swar2 0x33 (swar1 0x55 b) div 16 \<le> 4
      \<and> swar3 0x0F (swar2 0x33 (swar1 0x55 b)) = npop b 8) [0 ..< 256]"
    by (simp add: upt_numeral_eqs npop_def swar1_def swar2_def swar3_def bit_Suc_0_iff
        numeral_2_eq_2 [symmetric] numeral_3_eq_3 [symmetric])
  with assms show "swar1 0x55 b < 256" "swar2 0x33 (swar1 0x55 b) mod 16 \<le> 4"
    "swar2 0x33 (swar1 0x55 b) div 16 \<le> 4" "swar3 0x0F (swar2 0x33 (swar1 0x55 b)) = npop b 8"
    by (simp_all add: list_all_iff)
qed

lemma and_le: "(a :: nat) AND m \<le> a"
  by (metis and.commute and_nat_unfold le0 of_nat_and_eq of_nat_le_iff AND_upper1 of_nat_0_le_iff)

lemma swar1_bytes:
  assumes "\<forall>b \<in> set bs. b < 256"
  shows "swar1 (bval (replicate (length bs) 0x55)) (bval bs) = bval (map (swar1 0x55) bs)"
  using assms
proof (induction bs)
  case (Cons b bs)
  let ?q = "bval bs" and ?M = "bval (replicate (length bs) 0x55)"
  have "drop_bit 1 (b + 256 * ?q) AND (0x55 + 256 * ?M) = (drop_bit 1 b AND 0x55) + 256 * (drop_bit 1 ?q AND ?M)"
    using shift_and_field [of b 8 "0x55" 1 ?q ?M] Cons.prems by simp
  moreover have "drop_bit 1 b AND 0x55 \<le> b" and "drop_bit 1 ?q AND ?M \<le> ?q"
    by (rule order_trans [OF and_le]; simp add: drop_bit_eq_div)+
  ultimately show ?case using Cons by (simp add: swar1_def algebra_simps)
qed (simp add: swar1_def)

lemma swar2_bytes:
  assumes "\<forall>b \<in> set bs. b < 256"
  shows "swar2 (bval (replicate (length bs) 0x33)) (bval bs) = bval (map (swar2 0x33) bs)"
  using assms
proof (induction bs)
  case (Cons b bs)
  let ?q = "bval bs" and ?M = "bval (replicate (length bs) 0x33)"
  have "drop_bit 2 (b + 256 * ?q) AND (0x33 + 256 * ?M) = (drop_bit 2 b AND 0x33) + 256 * (drop_bit 2 ?q AND ?M)"
    using shift_and_field [of b 8 "0x33" 2 ?q ?M] Cons.prems by simp
  moreover have "(b + 256 * ?q) AND (0x33 + 256 * ?M) = (b AND 0x33) + 256 * (?q AND ?M)"
    using and_field [of b 8 "0x33" ?q ?M] Cons.prems by simp
  ultimately show ?case using Cons by (simp add: swar2_def)
qed (simp add: swar2_def)

lemma swar3_bytes:
  assumes "\<forall>b \<in> set bs. b mod 16 \<le> 4 \<and> b div 16 \<le> 4"
  shows "swar3 (bval (replicate (length bs) 0x0F)) (bval bs) = bval (map (swar3 0x0F) bs)"
  using assms
proof (induction bs)
  case (Cons b bs)
  let ?q = "bval bs" and ?M = "bval (replicate (length bs) 0x0F)"
  have "(a + 256 * x) mod 16 = a mod 16" for a x :: nat
    using mod_mult_self2 [of a 16 "16 * x"] by simp
  then have q: "?q mod 16 \<le> 4" using Cons.prems by (cases bs) auto
  have b: "b mod 16 \<le> 4" "b div 16 \<le> 4" using Cons.prems by auto
  let ?low = "b + b div 16 + 16 * (?q mod 16)"
  have low: "?low < 256" using b q by linarith
  have "(b + 256 * ?q) div 16 = b div 16 + 16 * ?q" by simp
  also have "\<dots> = b div 16 + 16 * (?q mod 16) + 256 * (?q div 16)"
    using mult_div_mod_eq [of 16 ?q] by linarith
  finally have sum: "b + 256 * ?q + drop_bit 4 (b + 256 * ?q) = ?low + 256 * (?q + drop_bit 4 ?q)"
    by (simp add: drop_bit_eq_div)
  have mod16: "x AND 0x0F = x mod 16" for x :: nat
    using take_bit_eq_mask [of 4 x] take_bit_eq_mod [of 4 x] by (simp add: mask_eq_exp_minus_1)
  have "swar3 (0x0F + 256 * ?M) (b + 256 * ?q) = (?low AND 0x0F) + 256 * swar3 ?M ?q"
    using and_field [of ?low 8 "0x0F" "?q + drop_bit 4 ?q" ?M] low by (simp add: swar3_def sum)
  also have "?low AND 0x0F = swar3 0x0F b" by (simp add: mod16 swar3_def drop_bit_eq_div)
  finally show ?case using Cons by simp
qed (simp add: swar3_def)


lemma swar_bytes:
  assumes "\<forall>b \<in> set bs. b < 256" and "n = length bs"
  shows "swar3 (bval (replicate n 0x0F)) (swar2 (bval (replicate n 0x33)) (swar1 (bval (replicate n 0x55)) (bval bs)))
    = bval (map (\<lambda>b. npop b 8) bs)"
proof -
  let ?b1 = "map (swar1 0x55) bs"
  let ?b2 = "map (swar2 0x33) ?b1"
  have "\<forall>b \<in> set ?b1. b < 256" and "\<forall>b \<in> set ?b2. b mod 16 \<le> 4 \<and> b div 16 \<le> 4"
    using assms(1) swar_byte by auto
  then have "swar3 (bval (replicate n 0x0F)) (swar2 (bval (replicate n 0x33)) (swar1 (bval (replicate n 0x55)) (bval bs)))
    = bval (map (swar3 0x0F) ?b2)"
    using swar1_bytes [OF assms(1)] swar2_bytes [of ?b1] swar3_bytes [of ?b2] assms(2) by simp
  also have "map (swar3 0x0F) ?b2 = map (\<lambda>b. npop b 8) bs"
    using assms(1) swar_byte(4) by simp
  finally show ?thesis .
qed

definition popcount :: "'a::len word \<Rightarrow> nat" where
  "popcount v = npop (unat v) LENGTH('a)"

lemma popcount_bits: "popcount (v :: 'a::len word) = length (filter (bit v) [0 ..< LENGTH('a)])"
  by (auto simp: popcount_def npop_def bit_unsigned_iff intro!: arg_cong [where f = length] filter_cong)

lemma npop_le: "npop x n \<le> n"
  using length_filter_le [of "bit x" "[0 ..< n]"] by (simp add: npop_def)

lemma bval_twice_less:
  assumes "\<forall>b \<in> set bs. b < 128"
  shows "2 * bval bs < 256 ^ length bs"
  using assms
proof (induction bs)
  case (Cons b bs)
  then have "2 * bval bs + 1 \<le> 256 ^ length bs" and "b < 128" by auto
  then show ?case by simp
qed simp

lemma unat_swar:
  fixes v :: "'a::len word"
  assumes "LENGTH('a) = 8 * n" and "bs = bytes_of n (unat v)"
    and m5: "unat m5 = bval (replicate n 0x55)" and m3: "unat m3 = bval (replicate n 0x33)"
    and mF: "unat mF = bval (replicate n 0x0F)" and "0 < n"
  defines "v1 \<equiv> v - (drop_bit 1 v AND m5)"
  defines "v2 \<equiv> (v1 AND m3) + (drop_bit 2 v1 AND m3)"
  shows "unat ((v2 + drop_bit 4 v2) AND mF) = bval (map (\<lambda>b. npop b 8) bs)"
proof -
  have "unat v < 256 ^ n" using unsigned_less [of v, where 'a = nat] assms(1) by (simp add: power_mult)
  then have v: "unat v = bval bs" using bytes_of [of "unat v" n] assms(2) by simp
  have "unat (drop_bit 1 v AND m5) = drop_bit 1 (unat v) AND bval (replicate n 0x55)"
    by (simp add: unsigned_and_eq unat_drop_bit_eq m5)
  moreover have "\<dots> \<le> unat v" by (rule order_trans [OF and_le]) (simp add: drop_bit_eq_div)
  ultimately have v1: "unat v1 = swar1 (bval (replicate n 0x55)) (bval bs)"
    by (simp add: v1_def swar1_def unat_sub word_le_nat_alt v)
  let ?b2 = "map (swar2 0x33) (map (swar1 0x55) bs)"
  have bs: "\<forall>b \<in> set bs. b < 256" "length bs = n" using assms(2) bytes_of_less by auto
  then have "\<forall>b \<in> set (map (swar1 0x55) bs). b < 256" and nib: "\<forall>b \<in> set ?b2. b mod 16 \<le> 4 \<and> b div 16 \<le> 4"
    using swar_byte by auto
  then have s2: "swar2 (bval (replicate n 0x33)) (swar1 (bval (replicate n 0x55)) (bval bs)) = bval ?b2"
    using swar1_bytes [OF bs(1)] swar2_bytes [of "map (swar1 0x55) bs"] bs by simp
  have "b < 128" if "b \<in> set ?b2" for b
  proof -
    have "b mod 16 \<le> 4" "b div 16 \<le> 4" using nib that by blast+
    then show ?thesis using mult_div_mod_eq [of 16 b] by linarith
  qed
  then have small: "2 * bval ?b2 < 2 ^ LENGTH('a)"
    using bval_twice_less [of ?b2] bs(2) assms(1) by (simp add: power_mult)
  have v2: "unat v2 = bval ?b2"
    using small s2 by (simp add: v2_def unat_word_ariths unsigned_and_eq unat_drop_bit_eq m3 v1 swar2_def)
  have "drop_bit 4 (bval ?b2) \<le> bval ?b2" by (simp add: drop_bit_eq_div)
  then have "unat ((v2 + drop_bit 4 v2) AND mF) = swar3 (bval (replicate n 0x0F)) (bval ?b2)"
    using small by (simp add: unat_word_ariths unsigned_and_eq unat_drop_bit_eq mF v2 swar3_def)
  then show ?thesis using swar_bytes [OF bs(1)] s2 bs(2) by simp
qed

lemma replicate_numerals:
  "replicate 4 x = [x, x, x, x]" "replicate 8 x = [x, x, x, x, x, x, x, x]"
  by (simp_all add: numeral_eq_Suc)

lemma length_numerals:
  "length xs = 4 \<Longrightarrow> \<exists>a b c d. xs = [a, b, c, d]"
  "length xs = 8 \<Longrightarrow> \<exists>a b c d e f g h. xs = [a, b, c, d, e, f, g, h]"
  by (auto simp: numeral_eq_Suc length_Suc_conv)

lemma popcount_bytes:
  fixes v :: "'a::len word"
  assumes "LENGTH('a) = 8 * n"
  shows "popcount v = sum_list (map (\<lambda>b. npop b 8) (bytes_of n (unat v)))"
proof -
  have "unat v < 256 ^ n" using unsigned_less [of v, where 'a = nat] assms by (simp add: power_mult)
  then show ?thesis
    using npop_bval [of "bytes_of n (unat v)"] bytes_of_less [of _ n "unat v"] bytes_of [of "unat v" n] assms
    by (simp add: popcount_def)
qed

lemma PopCnt8: "PopCnt8 v = popcount v"
proof -
  have "bytes_of 1 (unat v) = [unat v]" using unsigned_less [of v, where 'a = nat] by simp
  then show ?thesis
    using unat_swar [of 1 "[unat v]" v "0x55" "0x33" "0x0F"]
    by (simp add: PopCnt8_def Let_def popcount_def)
qed

lemma mod_div_parts:
  fixes r m q :: nat
  assumes "x = r + m * q" and "r < m"
  shows "x mod m = r" and "x div m = q"
  using div_mod_unique [of x m q r] assms by simp_all

lemma horizontal_sum4:
  fixes b0 b1 b2 b3 :: nat
  assumes "b0 \<le> 8" "b1 \<le> 8" "b2 \<le> 8" "b3 \<le> 8"
  shows "(bval [b0, b1, b2, b3] * 0x01010101) mod 2 ^ 32 div 2 ^ 24 = b0 + b1 + b2 + b3"
proof -
  define hi where "hi = (b1 + b2 + b3) + 256 * (b2 + b3) + 65536 * b3"
  define lo where "lo = b0 + 256 * (b0 + b1) + 65536 * (b0 + b1 + b2)"
  have "bval [b0, b1, b2, b3] * 0x01010101 = lo + 2 ^ 24 * (b0 + b1 + b2 + b3) + 2 ^ 32 * hi"
    by (simp add: lo_def hi_def algebra_simps)
  moreover have "lo < 2 ^ 24" and "lo + 2 ^ 24 * (b0 + b1 + b2 + b3) < 2 ^ 32"
    using assms by (simp_all add: lo_def)
  ultimately show ?thesis by (simp only: mod_div_parts(1) mod_div_parts(2) [OF refl])
qed

lemma PopCnt32: "PopCnt32 v = popcount v"
proof -
  let ?bs = "map (\<lambda>b. npop b 8) (bytes_of 4 (unat v))"
  obtain b0 b1 b2 b3 where bs: "?bs = [b0, b1, b2, b3]" using length_numerals(1) [of ?bs] by auto
  have "\<forall>x \<in> set ?bs. x \<le> 8" by (simp add: npop_le)
  then have le: "b0 \<le> 8" "b1 \<le> 8" "b2 \<le> 8" "b3 \<le> 8" unfolding bs by simp_all
  define w where "w = (let v1 = v - (drop_bit 1 v AND 0x55555555);
          v2 = (v1 AND 0x33333333) + (drop_bit 2 v1 AND 0x33333333)
         in (v2 + drop_bit 4 v2) AND 0x0F0F0F0F)"
  have w: "unat w = bval [b0, b1, b2, b3]"
    using unat_swar [of 4 "bytes_of 4 (unat v)" v "0x55555555" "0x33333333" "0x0F0F0F0F"]
    unfolding bs by (simp add: w_def Let_def replicate_numerals)
  have "PopCnt32 v = unat (w * 0x01010101) div 2 ^ 24"
    unfolding drop_bit_eq_div [of 24, symmetric]
    by (simp only: PopCnt32_def Let_def w_def unat_drop_bit_eq)
  also have "\<dots> = b0 + b1 + b2 + b3"
    using horizontal_sum4 [OF le] by (simp only: unat_word_ariths w) simp
  also have "\<dots> = popcount v" using popcount_bytes [of 4 v] bs by simp
  finally show ?thesis .
qed

lemma horizontal_sum8:
  fixes b0 b1 b2 b3 b4 b5 b6 b7 :: nat
  assumes "b0 \<le> 8" "b1 \<le> 8" "b2 \<le> 8" "b3 \<le> 8" "b4 \<le> 8" "b5 \<le> 8" "b6 \<le> 8" "b7 \<le> 8"
  defines "x \<equiv> bval [b0, b1, b2, b3, b4, b5, b6, b7]"
  defines "y \<equiv> (x + x div 2 ^ 32) mod 2 ^ 32"
  defines "z \<equiv> (y + y div 2 ^ 16) mod 2 ^ 32"
  shows "((z + z div 2 ^ 8) mod 2 ^ 32) mod 2 ^ 7 = b0 + b1 + b2 + b3 + b4 + b5 + b6 + b7"
proof -
  let ?lo = "bval [b0, b1, b2, b3]" and ?hi = "bval [b4, b5, b6, b7]"
  define c0 c1 c2 c3 where c: "c0 = b0 + b4" "c1 = b1 + b5" "c2 = b2 + b6" "c3 = b3 + b7"
  define u where "u = (c1 + c3) + (c2 + 256 * c3) + 256 * (c2 + 256 * c3)"
  have cle: "c0 \<le> 16" "c1 \<le> 16" "c2 \<le> 16" "c3 \<le> 16" using assms(1-8) by (simp_all add: c)
  have x: "x = ?lo + 2 ^ 32 * ?hi" by (simp add: x_def)
  have lh: "?lo < 2 ^ 31" "?hi < 2 ^ 31" using assms(1-8) by simp_all
  have "x div 2 ^ 32 = ?hi" by (rule mod_div_parts(2) [OF x]) (use lh in simp)
  then have "x + x div 2 ^ 32 = (?lo + ?hi) + 2 ^ 32 * ?hi" using x by simp
  then have "y = ?lo + ?hi" unfolding y_def by (rule mod_div_parts(1)) (use lh in simp)
  then have y: "y = (c0 + 256 * c1) + 2 ^ 16 * (c2 + 256 * c3)" by (simp add: c)
  have "y div 2 ^ 16 = c2 + 256 * c3" by (rule mod_div_parts(2) [OF y]) (use cle in simp)
  then have "z = (c0 + 256 * c1 + 2 ^ 16 * (c2 + 256 * c3) + (c2 + 256 * c3)) mod 2 ^ 32"
    by (simp add: z_def y)
  then have z: "z = (c0 + c2) + 2 ^ 8 * ((c1 + c3) + 256 * (c2 + 256 * c3))" using cle by simp
  have "z div 2 ^ 8 = (c1 + c3) + 256 * (c2 + 256 * c3)"
    by (rule mod_div_parts(2) [OF z]) (use cle in simp)
  then have sum: "z + z div 2 ^ 8 = (c0 + c1 + c2 + c3) + 2 ^ 7 * (2 * u)"
    using z by (simp add: u_def)
  have "z + z div 2 ^ 8 < 2 ^ 32" unfolding sum using cle by (simp add: u_def)
  then have "(z + z div 2 ^ 8) mod 2 ^ 32 = (c0 + c1 + c2 + c3) + 2 ^ 7 * (2 * u)"
    using sum by simp
  then have "(z + z div 2 ^ 8) mod 2 ^ 32 mod 2 ^ 7 = c0 + c1 + c2 + c3"
    by (rule mod_div_parts(1)) (use cle in simp)
  then show ?thesis by (simp add: c)
qed

lemma unat_add_shift:
  "unat (x + drop_bit k x) = (unat x + unat x div 2 ^ k) mod 2 ^ LENGTH('a)" for x :: "'a::len word"
  by (simp only: unat_word_ariths unat_drop_bit_eq drop_bit_eq_div [where ?'a = nat])

lemma PopCnt64: "PopCnt64 v = popcount v"
proof -
  let ?bs = "map (\<lambda>b. npop b 8) (bytes_of 8 (unat v))"
  obtain b0 b1 b2 b3 b4 b5 b6 b7 where bs: "?bs = [b0, b1, b2, b3, b4, b5, b6, b7]"
    using length_numerals(2) [of ?bs] by auto
  have "\<forall>x \<in> set ?bs. x \<le> 8" by (simp add: npop_le)
  then have le: "b0 \<le> 8" "b1 \<le> 8" "b2 \<le> 8" "b3 \<le> 8" "b4 \<le> 8" "b5 \<le> 8" "b6 \<le> 8" "b7 \<le> 8"
    unfolding bs by simp_all
  define w where "w = (let v1 = v - (drop_bit 1 v AND 0x5555555555555555);
          v2 = (drop_bit 2 v1 AND 0x3333333333333333) + (v1 AND 0x3333333333333333)
         in (v2 + drop_bit 4 v2) AND 0x0F0F0F0F0F0F0F0F)"
  have comm: "(drop_bit 2 x AND m) + (x AND m) = (x AND m) + (drop_bit 2 x AND m)" for x m :: u64
    by (rule add.commute)
  have w: "unat w = bval [b0, b1, b2, b3, b4, b5, b6, b7]"
    using unat_swar [of 8 "bytes_of 8 (unat v)" v "0x5555555555555555" "0x3333333333333333" "0x0F0F0F0F0F0F0F0F"]
    unfolding bs by (simp add: w_def Let_def replicate_numerals comm)
  define y where "y = (ucast (w + drop_bit 32 w) :: u32)"
  have y: "unat y = (unat w + unat w div 2 ^ 32) mod 2 ^ 32"
    by (simp add: y_def unsigned_ucast_eq take_bit_eq_mod unat_add_shift mod_mod_cancel)
  define z where "z = y + drop_bit 16 y"
  have z: "unat z = (unat y + unat y div 2 ^ 16) mod 2 ^ 32" by (simp add: z_def unat_add_shift)
  have "PopCnt64 v = unat ((z + drop_bit 8 z) AND mask 7)"
    by (simp only: PopCnt64_def Let_def w_def y_def z_def) (simp add: mask_eq_exp_minus_1)
  also have "\<dots> = (unat z + unat z div 2 ^ 8) mod 2 ^ 32 mod 2 ^ 7"
    by (simp add: take_bit_eq_mask [symmetric] unsigned_take_bit_eq unat_add_shift)
       (simp add: take_bit_eq_mod)
  also have "\<dots> = b0 + b1 + b2 + b3 + b4 + b5 + b6 + b7"
    unfolding z y w by (rule horizontal_sum8 [OF le])
  also have "\<dots> = popcount v" using popcount_bytes [of 8 v] bs by simp
  finally show ?thesis .
qed

section \<open>Counting the bits of a range\<close>

definition bufpop :: "'a::len word list \<Rightarrow> nat \<Rightarrow> nat \<Rightarrow> nat" where
  "bufpop buf start stop = length (filter (bufbit buf) [start ..< stop])"

lemma bufpop_split:
  assumes "a \<le> b" and "b \<le> c"
  shows "bufpop buf a c = bufpop buf a b + bufpop buf b c"
proof -
  have "[a ..< c] = [a ..< b] @ [b ..< c]" using assms by (metis le_add_diff_inverse upt_add_eq_append)
  then show ?thesis by (simp add: bufpop_def)
qed

lemma popcount_mask:
  fixes v :: "'a::len word"
  assumes "s + n \<le> LENGTH('a)"
  shows "popcount (v AND MakeMask s n) = length (filter (bit v) [s ..< s + n])"
proof -
  have "[0 ..< LENGTH('a)] = [0 ..< s] @ [s ..< s + n] @ [s + n ..< LENGTH('a)]"
    using assms by (metis le_add1 le_add_diff_inverse le_trans upt_add_eq_append zero_le append.assoc)
  moreover have "filter (bit (v AND MakeMask s n)) [0 ..< s] = []"
    and "filter (bit (v AND MakeMask s n)) [s + n ..< LENGTH('a)] = []"
    using assms by (auto simp: filter_empty_conv bit_and_iff bit_MakeMask)
  moreover have "filter (bit (v AND MakeMask s n)) [s ..< s + n] = filter (bit v) [s ..< s + n]"
    using assms by (intro filter_cong) (auto simp: bit_and_iff bit_MakeMask)
  ultimately show ?thesis by (simp add: popcount_bits)
qed

lemma bufpop_cell:
  fixes buf :: "'a::len word list"
  assumes "s + n \<le> LENGTH('a)"
  shows "bufpop buf (LENGTH('a) * c + s) (LENGTH('a) * c + s + n) = popcount (buf ! c AND MakeMask s n)"
proof -
  have "[LENGTH('a) * c + s ..< LENGTH('a) * c + s + n] = map (\<lambda>i. i + LENGTH('a) * c) [s ..< s + n]"
    by (rule nth_equalityI) (auto simp: nth_append)
  moreover have "filter (bufbit buf \<circ> (\<lambda>i. i + LENGTH('a) * c)) [s ..< s + n] = filter (bit (buf ! c)) [s ..< s + n]"
    using assms by (intro filter_cong) (auto simp: bufbit_def)
  ultimately show ?thesis by (simp add: bufpop_def popcount_mask [OF assms] filter_map)
qed

lemma bufpop_whole_cell:
  fixes buf :: "'a::len word list"
  shows "bufpop buf (LENGTH('a) * c) (LENGTH('a) * Suc c) = popcount (buf ! c)"
proof -
  have "buf ! c AND MakeMask 0 LENGTH('a) = buf ! c"
    by (rule bit_word_eqI) (simp add: bit_and_iff bit_MakeMask)
  then show ?thesis using bufpop_cell [of 0 "LENGTH('a)" buf c] by (simp add: add.commute)
qed

lemma bufpop_whole_cells:
  fixes buf :: "'a::len word list"
  assumes "m \<le> n"
  shows "fold (\<lambda>c t. t + popcount (buf ! c)) [m ..< n] t = t + bufpop buf (LENGTH('a) * m) (LENGTH('a) * n)"
  using assms
proof (induction rule: dec_induct)
  case base
  then show ?case by (simp add: bufpop_def)
next
  case (step n)
  then show ?case
    using bufpop_split [of "LENGTH('a) * m" "LENGTH('a) * n" "LENGTH('a) * Suc n" buf] bufpop_whole_cell [of buf n] by simp
qed

context cell_type
begin

lemma PopCount_with:
  assumes "start \<le> stop" and pc: "\<And>v. PC v = popcount v"
    and pr: "\<And>v s n. PR v s n = popcount (v AND MakeMask s n)"
  shows "PopCount_with PC PR (buf :: 'a word list) start stop = bufpop buf start stop"
proof -
  let ?L = "LENGTH('a)"
  let ?c = "start div ?L" and ?d = "stop div ?L"
  have s: "?L * ?c + start mod ?L = start" and t: "?L * ?d + stop mod ?L = stop" by simp_all
  have r: "start mod ?L < ?L" "stop mod ?L < ?L" by simp_all
  show ?thesis
  proof (cases "?c = ?d")
    case True
    have "start mod ?L + (stop - start) \<le> ?L" using fill_range(2) [OF assms(1) True] r by simp
    from bufpop_cell [OF this, of buf ?c] True show ?thesis
      using fill_range(1) [OF assms(1)] assms(1) s
      by (simp add: PopCount_with_def Let_def cell_simps pr)
  next
    case False
    then have cd: "Suc ?c \<le> ?d" using div_le_mono [OF assms(1), of ?L] by simp
    have pre: "start + (?L - start mod ?L) = ?L * Suc ?c" using s r(1) unfolding mult_Suc_right by linarith
    have "?L * Suc ?c \<le> ?L * ?d" using cd by (rule mult_le_mono2)
    moreover have "start \<le> ?L * Suc ?c" and "?L * ?d \<le> stop" using pre t by linarith+
    ultimately have "bufpop buf start stop = bufpop buf start (?L * Suc ?c) + bufpop buf (?L * Suc ?c) (?L * ?d) + bufpop buf (?L * ?d) stop"
      using bufpop_split [of start "?L * Suc ?c" stop buf] bufpop_split [of "?L * Suc ?c" "?L * ?d" stop buf]
      by linarith
    moreover have "bufpop buf start (?L * Suc ?c) = popcount (buf ! ?c AND MakeMask (start mod ?L) (?L - start mod ?L))"
      using bufpop_cell [of "start mod ?L" "?L - start mod ?L" buf ?c] s r pre by simp
    moreover have "bufpop buf (?L * ?d) stop = popcount (buf ! ?d AND MakeMask 0 (stop mod ?L))"
      using bufpop_cell [of 0 "stop mod ?L" buf ?d] t r by simp
    moreover have "\<not> start + (?L - start mod ?L) > stop" using False fill_range(1) [OF assms(1)] by simp
    ultimately show ?thesis
      using bufpop_whole_cells [OF cd, of buf]
      by (auto simp: PopCount_with_def Let_def cell_simps pr pc bufpop_def)
  qed
qed

end

section \<open>Bit reversal\<close>

definition swap_groups :: "nat \<Rightarrow> 'a::len word \<Rightarrow> 'a word \<Rightarrow> 'a word \<Rightarrow> 'a word" where
  "swap_groups k hi lo v = drop_bit k (v AND hi) OR push_bit k (v AND lo)"

lemma bit_swap_groups:
  fixes v :: "'a::len word"
  shows "bit (swap_groups k hi lo v) i \<longleftrightarrow>
     bit v (k + i) \<and> bit hi (k + i) \<or> k \<le> i \<and> i < LENGTH('a) \<and> bit v (i - k) \<and> bit lo (i - k)"
  by (auto simp: swap_groups_def bit_simps)

lemma ReverseBits64_swaps:
  "ReverseBits64 v = swap_groups 32 (- 1) (- 1)
     (swap_groups 16 0xFFFF0000FFFF0000 0x0000FFFF0000FFFF
     (swap_groups 8 0xFF00FF00FF00FF00 0x00FF00FF00FF00FF
     (swap_groups 4 0xF0F0F0F0F0F0F0F0 0x0F0F0F0F0F0F0F0F
     (swap_groups 2 0xCCCCCCCCCCCCCCCC 0x3333333333333333
     (swap_groups 1 0xAAAAAAAAAAAAAAAA 0x5555555555555555 v)))))"
  by (simp add: ReverseBits64_def swap_groups_def Let_def)

lemma ReverseBits32_swaps:
  "ReverseBits32 v = swap_groups 16 (- 1) (- 1)
     (swap_groups 8 0xFF00FF00 0x00FF00FF
     (swap_groups 4 0xF0F0F0F0 0x0F0F0F0F
     (swap_groups 2 0xCCCCCCCC 0x33333333
     (swap_groups 1 0xAAAAAAAA 0x55555555 v))))"
  by (simp add: ReverseBits32_def swap_groups_def Let_def)

lemma bit_ReverseBits64:
  assumes "i < 64"
  shows "bit (ReverseBits64 v) i = bit v (63 - i)"
proof -
  have "list_all (\<lambda>i. bit (ReverseBits64 v) i = bit v (63 - i)) [0 ..< 64]"
    by (simp add: upt_numeral_eqs ReverseBits64_swaps bit_swap_groups
        numeral_2_eq_2 [symmetric] numeral_3_eq_3 [symmetric])
  with assms show ?thesis by (simp add: list_all_iff)
qed

lemma bit_ReverseBits32:
  assumes "i < 32"
  shows "bit (ReverseBits32 v) i = bit v (31 - i)"
proof -
  have "list_all (\<lambda>i. bit (ReverseBits32 v) i = bit v (31 - i)) [0 ..< 32]"
    by (simp add: upt_numeral_eqs ReverseBits32_swaps bit_swap_groups
        numeral_2_eq_2 [symmetric] numeral_3_eq_3 [symmetric])
  with assms show ?thesis by (simp add: list_all_iff)
qed

section \<open>Runs\<close>

definition run_fw :: "'a::len word list \<Rightarrow> bool \<Rightarrow> nat \<Rightarrow> nat \<Rightarrow> nat" where
  "run_fw buf v start stop = length (takeWhile (\<lambda>i. bufbit buf i = v) [start ..< stop])"

definition run_bw :: "'a::len word list \<Rightarrow> bool \<Rightarrow> nat \<Rightarrow> nat \<Rightarrow> nat" where
  "run_bw buf v start stop = length (takeWhile (\<lambda>i. bufbit buf i = v) (rev [stop ..< start]))"

definition byte_fw :: "bool \<Rightarrow> nat \<Rightarrow> nat \<Rightarrow> nat" where
  "byte_fw v n b = length (takeWhile (\<lambda>i. bit b i = v) [0 ..< n])"

definition byte_bw :: "bool \<Rightarrow> nat \<Rightarrow> nat \<Rightarrow> nat" where
  "byte_bw v n b = length (takeWhile (\<lambda>i. bit b i = v) (rev [0 ..< n]))"

lemma luts:
  assumes "b < 256"
  shows "kPopCountFW_LUT ! b = byte_fw True 8 b" and "kZeroCountFW_LUT ! b = byte_fw False 8 b"
    and "kPopCountBW_LUT ! b = byte_bw True 8 b" and "kZeroCountBW_LUT ! b = byte_bw False 8 b"
proof -
  have "list_all2 (\<lambda>l b. l = byte_fw True 8 b) kPopCountFW_LUT [0 ..< 256]"
    by (simp add: kPopCountFW_LUT_def byte_fw_def upt_numeral_eqs bit_Suc_0_iff)
  moreover have "list_all2 (\<lambda>l b. l = byte_fw False 8 b) kZeroCountFW_LUT [0 ..< 256]"
    by (simp add: kZeroCountFW_LUT_def byte_fw_def upt_numeral_eqs bit_Suc_0_iff)
  moreover have "list_all2 (\<lambda>l b. l = byte_bw True 8 b) kPopCountBW_LUT [0 ..< 256]"
    by (simp add: kPopCountBW_LUT_def byte_bw_def upt_numeral_eqs bit_Suc_0_iff)
  moreover have "list_all2 (\<lambda>l b. l = byte_bw False 8 b) kZeroCountBW_LUT [0 ..< 256]"
    by (simp add: kZeroCountBW_LUT_def byte_bw_def upt_numeral_eqs bit_Suc_0_iff)
  ultimately show "kPopCountFW_LUT ! b = byte_fw True 8 b" and "kZeroCountFW_LUT ! b = byte_fw False 8 b"
    and "kPopCountBW_LUT ! b = byte_bw True 8 b" and "kZeroCountBW_LUT ! b = byte_bw False 8 b"
    using assms by (simp_all add: list_all2_conv_all_nth)
qed

lemma takeWhile_length_append:
  "length (takeWhile P (xs @ ys)) =
     (if length (takeWhile P xs) = length xs then length xs + length (takeWhile P ys) else length (takeWhile P xs))"
proof (cases "\<forall>x \<in> set xs. P x")
  case True
  then show ?thesis by (simp add: takeWhile_append2 takeWhile_eq_all_conv [THEN iffD2])
next
  case False
  then have "takeWhile P xs \<noteq> xs" by (auto simp: takeWhile_eq_all_conv)
  then have "length (takeWhile P xs) \<noteq> length xs" by (metis takeWhile_eq_take take_all order_refl)
  then show ?thesis using False by (auto simp: takeWhile_append1)
qed

lemma run_fw_split:
  assumes "a \<le> b" and "b \<le> c"
  shows "run_fw buf v a c = (if run_fw buf v a b = b - a then (b - a) + run_fw buf v b c else run_fw buf v a b)"
proof -
  have "[a ..< c] = [a ..< b] @ [b ..< c]" using assms by (metis le_add_diff_inverse upt_add_eq_append)
  then show ?thesis by (simp add: run_fw_def takeWhile_length_append)
qed

lemma run_bw_split:
  assumes "a \<le> b" and "b \<le> c"
  shows "run_bw buf v c a = (if run_bw buf v c b = c - b then (c - b) + run_bw buf v b a else run_bw buf v c b)"
proof -
  have "[a ..< c] = [a ..< b] @ [b ..< c]" using assms by (metis le_add_diff_inverse upt_add_eq_append)
  then show ?thesis by (simp add: run_bw_def takeWhile_length_append)
qed

lemma run_empty [simp]: "run_fw buf v a a = 0" "run_bw buf v a a = 0"
  by (simp_all add: run_fw_def run_bw_def)

lemma byte_le: "byte_fw v n b \<le> n" "byte_bw v n b \<le> n"
  using length_takeWhile_le [of _ "[0 ..< n]"] length_takeWhile_le [of _ "rev [0 ..< n]"]
  by (auto simp: byte_fw_def byte_bw_def)

lemma takeWhile_length_cong:
  assumes "\<And>x. x \<in> set xs \<Longrightarrow> P x = Q x"
  shows "length (takeWhile P xs) = length (takeWhile Q xs)"
  using assms by (metis takeWhile_cong)

lemma or_less_exp:
  fixes a b :: nat
  assumes "a < 2 ^ w" and "b < 2 ^ w"
  shows "a OR b < 2 ^ w"
  using assms by (metis take_bit_nat_eq_self take_bit_nat_less_exp take_bit_or)

text \<open>The last, shorter group of bits read as a full byte.\<close>

lemma upt_split8: "n \<le> 8 \<Longrightarrow> [0 ..< 8] = [0 ..< n] @ [n ..< 8 :: nat]"
  by (metis le0 le_add_diff_inverse upt_add_eq_append)

lemma byte_fw_short:
  assumes "b < 2 ^ n" and "n < 8"
  shows "byte_fw True 8 b = byte_fw True n b" and "byte_fw False 8 (b OR push_bit n 1) = byte_fw False n b"
proof -
  have cons: "[n ..< 8] = n # [Suc n ..< 8]" using assms(2) by (rule upt_conv_Cons)
  have hi: "\<not> bit b n" using less_exp_not_bit [OF assms(1)] by simp
  have "byte_fw True 8 b = length (takeWhile (bit b) ([0 ..< n] @ [n ..< 8]))"
    using upt_split8 [of n] assms(2) by (simp add: byte_fw_def)
  then show "byte_fw True 8 b = byte_fw True n b"
    unfolding takeWhile_length_append using hi by (simp add: cons byte_fw_def)
  have same: "length (takeWhile (\<lambda>i. bit (b OR push_bit n 1) i = False) [0 ..< n]) = length (takeWhile (\<lambda>i. bit b i = False) [0 ..< n])"
    by (rule takeWhile_length_cong) (auto simp: bit_simps bit_1_iff)
  have "byte_fw False 8 (b OR push_bit n 1) = length (takeWhile (\<lambda>i. bit (b OR push_bit n 1) i = False) ([0 ..< n] @ [n ..< 8]))"
    using upt_split8 [of n] assms(2) by (simp add: byte_fw_def)
  then show "byte_fw False 8 (b OR push_bit n 1) = byte_fw False n b"
    unfolding takeWhile_length_append same by (simp add: cons byte_fw_def bit_simps)
qed

lemma bit_word_GetBits: "bit (unat w) i = bit w i" for w :: "'a::len word"
  by (simp add: bit_unsigned_iff)

context cell_type
begin

lemma unat_GetBits_less:
  assumes "n \<le> LENGTH('a)"
  shows "unat (GetBits (buf :: 'a word list) c n) < 2 ^ n"
proof -
  have "take_bit n (unat (GetBits buf c n)) = unat (GetBits buf c n)"
    using assms by (intro bit_eqI) (auto simp: bit_take_bit_iff bit_unsigned_iff GetBits)
  then show ?thesis by (metis take_bit_nat_less_exp)
qed

lemma run_fw_byte:
  assumes "n \<le> LENGTH('a)"
  shows "run_fw (buf :: 'a word list) v c (c + n) = byte_fw v n (unat (GetBits buf c n))"
proof -
  have "[c ..< c + n] = map (\<lambda>i. c + i) [0 ..< n]" by (rule nth_equalityI) auto
  then have "run_fw buf v c (c + n) = length (takeWhile (\<lambda>i. bufbit buf (c + i) = v) [0 ..< n])"
    by (simp add: run_fw_def takeWhile_map comp_def)
  also have "\<dots> = byte_fw v n (unat (GetBits buf c n))"
    unfolding byte_fw_def using assms by (intro takeWhile_length_cong) (simp add: bit_unsigned_iff GetBits)
  finally show ?thesis .
qed

lemma run_bw_byte:
  assumes "n \<le> LENGTH('a)"
  shows "run_bw (buf :: 'a word list) v (c + n) c = byte_bw v n (unat (GetBits buf c n))"
proof -
  have "rev [c ..< c + n] = map (\<lambda>i. c + i) (rev [0 ..< n])" 
    by (subst rev_map [symmetric], rule arg_cong [where f = rev], rule nth_equalityI) auto
  then have "run_bw buf v (c + n) c = length (takeWhile (\<lambda>i. bufbit buf (c + i) = v) (rev [0 ..< n]))"
    by (simp add: run_bw_def takeWhile_map comp_def)
  also have "\<dots> = byte_bw v n (unat (GetBits buf c n))"
    unfolding byte_bw_def using assms by (intro takeWhile_length_cong) (simp add: bit_unsigned_iff GetBits)
  finally show ?thesis .
qed

lemma CountFw_bytes:
  assumes lut: "\<And>b. b < 256 \<Longrightarrow> lut ! b = byte_fw v 8 b" and "8 dvd stop - c" and "c \<le> stop"
  shows "CountFw_bytes (buf :: 'a word list) c stop lut cnt =
     (cnt + run_fw buf v c stop, run_fw buf v c stop \<noteq> stop - c)"
  using assms(2,3)
proof (induction "stop - c" arbitrary: c cnt rule: less_induct)
  case less
  have L: "8 \<le> LENGTH('a)" using width by auto
  show ?case
  proof (cases "c < stop")
    case True
    then have le: "c + 8 \<le> stop" using less.prems by (auto dest: dvd_imp_le)
    have b: "lut ! unat (GetBits buf c 8) = run_fw buf v c (c + 8)"
      using lut unat_GetBits_less [OF L, of buf c] run_fw_byte [OF L, of buf v c] by simp
    have le8: "run_fw buf v c (c + 8) \<le> 8" using run_fw_byte [OF L, of buf v c] byte_le by simp
    have split: "run_fw buf v c stop =
        (if run_fw buf v c (c + 8) = 8 then 8 + run_fw buf v (c + 8) stop else run_fw buf v c (c + 8))"
      using run_fw_split [of c "c + 8" stop buf v] le by simp
    have dvd: "8 dvd stop - (c + 8)"
    proof -
      have "stop - c = 8 + (stop - (c + 8))" using le by simp
      then show ?thesis using less.prems(1) by (metis dvd_add_right_iff dvd_refl)
    qed
    have ih: "CountFw_bytes buf (c + 8) stop lut (cnt + 8) =
        (cnt + 8 + run_fw buf v (c + 8) stop, run_fw buf v (c + 8) stop \<noteq> stop - (c + 8))"
      using less.hyps [of "c + 8"] True le dvd by auto
    show ?thesis
      using True le8 le ih by (subst CountFw_bytes.simps) (auto simp: b split Let_def)
  next
    case False
    then show ?thesis using less.prems by (subst CountFw_bytes.simps) simp
  qed
qed

lemma CountFw_intrnl:
  assumes lut: "\<And>b. b < 256 \<Longrightarrow> lut ! b = byte_fw (\<not> zero) 8 b" and "start \<le> stop"
  shows "CountFw_intrnl (buf :: 'a word list) start stop lut zero = run_fw buf (\<not> zero) start stop"
proof -
  let ?run = "run_fw buf (\<not> zero)"
  define rest where "rest = (stop - start) mod 8"
  have and7: "(stop - start) AND 7 = rest"
    using take_bit_eq_mask [of 3 "stop - start"] take_bit_eq_mod [of 3 "stop - start"]
    by (simp add: mask_eq_exp_minus_1 rest_def)
  have r: "rest < 8" "rest \<le> stop - start" by (simp_all add: rest_def)
  have L: "rest \<le> LENGTH('a)" using width r(1) by auto
  have "8 dvd stop - rest - start"
    using r by (metis rest_def diff_commute dvd_minus_mod)
  then have bytes: "CountFw_bytes buf start (stop - rest) lut 0 =
      (?run start (stop - rest), ?run start (stop - rest) \<noteq> stop - rest - start)"
    using CountFw_bytes [OF lut, of "stop - rest" start buf 0] r assms(2) by simp
  have "(if 0 < rest then lut ! (if zero then unat (GetBits buf (stop - rest) rest) OR push_bit rest 1
           else unat (GetBits buf (stop - rest) rest)) else 0) = ?run (stop - rest) stop"
  proof (cases "0 < rest")
    case True
    let ?b = "unat (GetBits buf (stop - rest) rest)"
    have b: "?b < 2 ^ rest" by (rule unat_GetBits_less [OF L])
    have "(2::nat) ^ rest < 2 ^ 8" using r(1) by (intro power_strict_increasing) auto
    then have "?b < 2 ^ 8" and "push_bit rest (1 :: nat) < 2 ^ 8" using b by (simp_all add: push_bit_eq_mult)
    then have "?b < 256" and "?b OR push_bit rest 1 < 256"
      using or_less_exp [of ?b 8 "push_bit rest 1"] by simp_all
    then show ?thesis
      using True byte_fw_short [OF b r(1)] run_fw_byte [OF L, of buf "\<not> zero" "stop - rest"] r assms(2) lut by auto
  qed simp
  then show ?thesis
    using run_fw_split [of start "stop - rest" stop buf "\<not> zero"] r assms(2)
    by (auto simp: CountFw_intrnl_def Let_def and7 bytes split: if_splits)
qed

end

lemma run_fw_full_iff:
  assumes "a \<le> b"
  shows "run_fw buf v a b = b - a \<longleftrightarrow> (\<forall>i. a \<le> i \<and> i < b \<longrightarrow> bufbit buf i = v)"
proof -
  from length_takeWhile_full [of "\<lambda>i. bufbit buf i = v" "[a ..< b]"] show ?thesis by (auto simp: run_fw_def)
qed

lemma run_bw_full_iff:
  assumes "a \<le> b"
  shows "run_bw buf v b a = b - a \<longleftrightarrow> (\<forall>i. a \<le> i \<and> i < b \<longrightarrow> bufbit buf i = v)"
proof -
  from length_takeWhile_full [of "\<lambda>i. bufbit buf i = v" "rev [a ..< b]"] show ?thesis by (auto simp: run_bw_def)
qed

lemma cell_value_iff:
  fixes buf :: "'a::len word list"
  shows "buf ! c = (if v then - 1 else 0) \<longleftrightarrow>
     (\<forall>i. LENGTH('a) * c \<le> i \<and> i < LENGTH('a) * Suc c \<longrightarrow> bufbit buf i = v)" (is "?l \<longleftrightarrow> ?r")
proof
  assume l: ?l
  show ?r
  proof (intro allI impI)
    fix i assume i: "LENGTH('a) * c \<le> i \<and> i < LENGTH('a) * Suc c"
    then have "i div LENGTH('a) = c" by (intro div_nat_eqI) (auto simp: algebra_simps)
    then show "bufbit buf i = v" using l by (simp add: bufbit_def)
  qed
next
  assume r: ?r
  show ?l
  proof (rule bit_word_eqI)
    fix n assume n: "n < LENGTH('a)"
    then have "bufbit buf (LENGTH('a) * c + n) = v" using r by simp
    then show "bit (buf ! c) n = bit (if v then - 1 else 0 :: 'a word) n" using n by (simp add: bufbit_def)
  qed
qed

context cell_type
begin

lemma CountFw_cells:
  assumes "cell \<le> d" and "LENGTH('a) * d \<le> stop"
  shows "\<exists>c k. CountFw_cells (buf :: 'a word list) (if v then - 1 else 0) cell d cnt = (c, cnt + k)
    \<and> cell \<le> c \<and> c \<le> d \<and> run_fw buf v (LENGTH('a) * cell) stop = k + run_fw buf v (LENGTH('a) * c) stop"
  using assms(1)
proof (induction "d - cell" arbitrary: cell cnt)
  case 0
  then show ?case by (subst CountFw_cells.simps) simp
next
  case (Suc n)
  show ?case
  proof (cases "buf ! cell = (if v then - 1 else 0)")
    case True
    have lt: "cell < d" using Suc.hyps(2) by simp
    have "LENGTH('a) * Suc cell \<le> LENGTH('a) * d" using lt by (intro mult_le_mono2) simp
    then have "LENGTH('a) * Suc cell \<le> stop" using assms(2) by linarith
    moreover have "run_fw buf v (LENGTH('a) * cell) (LENGTH('a) * Suc cell) = LENGTH('a)"
      using True run_fw_full_iff [of "LENGTH('a) * cell" "LENGTH('a) * Suc cell" buf v] by (simp add: cell_value_iff)
    ultimately have split: "run_fw buf v (LENGTH('a) * cell) stop = LENGTH('a) + run_fw buf v (LENGTH('a) * Suc cell) stop"
      using run_fw_split [of "LENGTH('a) * cell" "LENGTH('a) * Suc cell" stop buf v] by simp
    have "n = d - Suc cell" and "Suc cell \<le> d" using Suc.hyps(2) by simp_all
    from Suc.hyps(1) [OF this, of "cnt + LENGTH('a)"] obtain c k where
      ck: "CountFw_cells buf (if v then - 1 else 0) (Suc cell) d (cnt + LENGTH('a)) = (c, cnt + LENGTH('a) + k)"
      "Suc cell \<le> c" "c \<le> d" "run_fw buf v (LENGTH('a) * Suc cell) stop = k + run_fw buf v (LENGTH('a) * c) stop"
      by blast
    have "CountFw_cells buf (if v then - 1 else 0) cell d cnt = (c, cnt + (LENGTH('a) + k))"
      using True lt ck(1) by (subst CountFw_cells.simps) (simp add: cell_simps add.assoc)
    then show ?thesis using split ck(2-4)
      by (intro exI [of _ c] exI [of _ "LENGTH('a) + k"]) simp
  next
    case False
    then show ?thesis using Suc.prems by (subst CountFw_cells.simps) auto
  qed
qed

lemma CountFw:
  assumes lut: "\<And>b. b < 256 \<Longrightarrow> lut ! b = byte_fw (\<not> zero) 8 b" and "start \<le> stop"
  shows "CountFw (buf :: 'a word list) start stop lut zero = run_fw buf (\<not> zero) start stop"
proof -
  let ?L = "LENGTH('a)"
  let ?run = "run_fw buf (\<not> zero)"
  have intrnl: "CountFw_intrnl buf a b lut zero = ?run a b" if "a \<le> b" for a b
    using lut that by (rule CountFw_intrnl)
  have s: "start = ?L * (start div ?L) + start mod ?L" "start mod ?L < ?L" by simp_all
  then have ext: "start + ?L - start mod ?L = ?L * Suc (start div ?L)"
    and le: "start \<le> ?L * Suc (start div ?L)" unfolding mult_Suc_right by linarith+
  show ?thesis
  proof (cases "?L * Suc (start div ?L) \<ge> stop")
    case True
    then show ?thesis using assms(2) by (simp only: CountFw_def Let_def cell_simps ext if_True intrnl)
  next
    case False
    have d: "Suc (start div ?L) \<le> stop div ?L" "?L * (stop div ?L) \<le> stop"
      using False by (auto simp: less_eq_div_iff_mult_less_eq mult.commute)
    have split: "?run start stop = (if ?run start (?L * Suc (start div ?L)) = ?L * Suc (start div ?L) - start
       then ?L * Suc (start div ?L) - start + ?run (?L * Suc (start div ?L)) stop else ?run start (?L * Suc (start div ?L)))"
      using le False by (intro run_fw_split) simp_all
    have neg: "(if \<not> zero then - 1 else 0 :: 'a word) = (if zero then 0 else - 1)" by simp
    from CountFw_cells [OF d, of buf "\<not> zero" "?L * Suc (start div ?L) - start", unfolded neg]
    obtain c k where
      ck: "CountFw_cells buf (if zero then 0 else - 1) (Suc (start div ?L)) (stop div ?L) (?L * Suc (start div ?L) - start)
             = (c, ?L * Suc (start div ?L) - start + k)"
        "c \<le> stop div ?L" "?run (?L * Suc (start div ?L)) stop = k + ?run (?L * c) stop"
      by blast
    have "?L * c \<le> stop" using ck(2) d(2) by (meson le_trans mult_le_mono2)
    then have rest: "CountFw_intrnl buf (c * ?L) stop lut zero = ?run (?L * c) stop"
      by (simp add: intrnl mult.commute)
    have cell: "?L * Suc (start div ?L) div ?L = Suc (start div ?L)" by simp
    have "CountFw buf start stop lut zero =
       (if ?run start (?L * Suc (start div ?L)) = ?L * Suc (start div ?L) - start
        then case CountFw_cells buf (if zero then 0 else - 1) (Suc (start div ?L)) (stop div ?L)
                    (?run start (?L * Suc (start div ?L)))
             of (cell, cnt) \<Rightarrow> cnt + CountFw_intrnl buf (cell * ?L) stop lut zero
        else ?run start (?L * Suc (start div ?L)))"
      by (simp only: CountFw_def Let_def cell_simps ext False if_False intrnl [OF le] cell)
    then show ?thesis unfolding split ck(3) by (simp only: ck(1) rest prod.case add.assoc cong: if_cong)
  qed
qed

end

lemma rev_upt_split8: "n \<le> 8 \<Longrightarrow> rev [0 ..< 8] = rev [8 - n ..< 8] @ rev [0 ..< 8 - n :: nat]"
  by (metis diff_le_self le0 le_add_diff_inverse rev_append upt_add_eq_append)

lemma byte_bw_short:
  assumes b: "b < 2 ^ n" and n: "0 < n" "n < 8"
  shows "byte_bw True 8 (push_bit (8 - n) b) = byte_bw True n b"
    and "byte_bw False 8 (push_bit (7 - n) (push_bit 1 b OR 1)) = byte_bw False n b"
proof -
  obtain m where m: "8 - n = Suc m" "7 - n = m" using n by (cases "8 - n") auto
  have shift: "rev [8 - n ..< 8] = map (\<lambda>i. i + (8 - n)) (rev [0 ..< n])"
    using n by (subst rev_map [symmetric], intro arg_cong [where f = rev] nth_equalityI) auto
  have top: "byte_bw v 8 x = byte_bw v n b"
    if "\<And>i. i < n \<Longrightarrow> bit x (i + (8 - n)) = bit b i" and "bit x m \<noteq> v" for v x
  proof -
    have hd: "rev [0 ..< 8 - n] = m # rev [0 ..< m]" by (simp add: m)
    have "length (takeWhile (\<lambda>i. bit x i = v) (rev [8 - n ..< 8])) = byte_bw v n b"
      unfolding shift takeWhile_map byte_bw_def length_map comp_def
      by (rule takeWhile_length_cong) (simp add: that(1))
    moreover have "byte_bw v 8 x = length (takeWhile (\<lambda>i. bit x i = v) (rev [8 - n ..< 8] @ rev [0 ..< 8 - n]))"
      using rev_upt_split8 [of n] n by (simp add: byte_bw_def)
    moreover have "length (takeWhile (\<lambda>i. bit x i = v) (rev [0 ..< 8 - n])) = 0"
      unfolding hd using that(2) by simp
    ultimately show ?thesis unfolding takeWhile_length_append by (metis add_0_right)
  qed
  have "m < 8 - n" by (simp add: m)
  then show "byte_bw True 8 (push_bit (8 - n) b) = byte_bw True n b"
    by (intro top) (auto simp: bit_push_bit_iff)
  have x: "bit (push_bit m (push_bit 1 b OR 1)) k \<longleftrightarrow> k = m \<or> m < k \<and> bit b (k - Suc m)" for k
    by (simp only: bit_push_bit_iff bit_or_iff bit_1_iff) (cases k rule: linorder_cases [of _ m]; auto)
  show "byte_bw False 8 (push_bit (7 - n) (push_bit 1 b OR 1)) = byte_bw False n b"
    unfolding m(2) by (rule top) (simp_all only: x, simp_all add: m)
qed

context cell_type
begin

lemma CountBw_bytes:
  assumes lut: "\<And>b. b < 256 \<Longrightarrow> lut ! b = byte_bw v 8 b" and "8 dvd e - bound" and "bound \<le> e"
  shows "CountBw_bytes (buf :: 'a word list) e bound lut cnt =
     (cnt + run_bw buf v e bound, run_bw buf v e bound \<noteq> e - bound)"
  using assms(2,3)
proof (induction "e - bound" arbitrary: e cnt rule: less_induct)
  case less
  have L: "8 \<le> LENGTH('a)" using width by auto
  show ?case
  proof (cases "bound < e")
    case True
    then have le: "bound + 8 \<le> e" using less.prems by (auto dest: dvd_imp_le)
    have b: "lut ! unat (GetBits buf (e - 8) 8) = run_bw buf v e (e - 8)"
      using lut unat_GetBits_less [OF L, of buf "e - 8"] run_bw_byte [OF L, of buf v "e - 8"] le by simp
    have le8: "run_bw buf v e (e - 8) \<le> 8" using run_bw_byte [OF L, of buf v "e - 8"] byte_le le by simp
    have split: "run_bw buf v e bound =
        (if run_bw buf v e (e - 8) = 8 then 8 + run_bw buf v (e - 8) bound else run_bw buf v e (e - 8))"
      using run_bw_split [of bound "e - 8" e buf v] le by simp
    have dvd: "8 dvd e - 8 - bound"
    proof -
      have "e - bound = 8 + (e - 8 - bound)" using le by simp
      then show ?thesis using less.prems(1) by (metis dvd_add_right_iff dvd_refl)
    qed
    have ih: "CountBw_bytes buf (e - 8) bound lut (cnt + 8) =
        (cnt + 8 + run_bw buf v (e - 8) bound, run_bw buf v (e - 8) bound \<noteq> e - 8 - bound)"
      using less.hyps [of "e - 8"] True le dvd by auto
    show ?thesis
      using True le8 le ih by (subst CountBw_bytes.simps) (auto simp: b split Let_def)
  next
    case False
    then show ?thesis using less.prems by (subst CountBw_bytes.simps) simp
  qed
qed

lemma CountBw_intrnl:
  assumes lut: "\<And>b. b < 256 \<Longrightarrow> lut ! b = byte_bw (\<not> zero) 8 b" and "stop \<le> start"
  shows "CountBw_intrnl (buf :: 'a word list) start stop lut zero = run_bw buf (\<not> zero) start stop"
proof (cases "stop < start")
  case True
  let ?run = "run_bw buf (\<not> zero)"
  define rest where "rest = (start - stop) mod 8"
  have and7: "(start - stop) AND 7 = rest"
    using take_bit_eq_mask [of 3 "start - stop"] take_bit_eq_mod [of 3 "start - stop"]
    by (simp add: mask_eq_exp_minus_1 rest_def)
  have r: "rest < 8" "rest \<le> start - stop" by (simp_all add: rest_def)
  have L: "rest \<le> LENGTH('a)" using width r(1) by auto
  have "8 dvd start - (stop + rest)"
    using r by (metis rest_def diff_diff_left dvd_minus_mod)
  then have bytes: "CountBw_bytes buf start (stop + rest) lut 0 =
      (?run start (stop + rest), ?run start (stop + rest) \<noteq> start - (stop + rest))"
    using CountBw_bytes [OF lut, of start "stop + rest" buf 0] r True by simp
  have "(if 0 < rest then lut ! (if zero then push_bit (7 - rest) (push_bit 1 (unat (GetBits buf stop rest)) OR 1)
           else push_bit (8 - rest) (unat (GetBits buf stop rest))) else 0) = ?run (stop + rest) stop"
  proof (cases "0 < rest")
    case pos: True
    let ?b = "unat (GetBits buf stop rest)"
    have b: "?b < 2 ^ rest" by (rule unat_GetBits_less [OF L])
    have "(2::nat) ^ (8 - rest) * ?b < 2 ^ (8 - rest) * 2 ^ rest" using b by simp
    also have "\<dots> = 2 ^ 8" using r(1) by (simp flip: power_add)
    finally have lt1: "push_bit (8 - rest) ?b < 256" by (simp add: push_bit_eq_mult mult.commute)
    have "push_bit 1 ?b OR 1 < 2 ^ Suc rest"
      using b pos by (intro or_less_exp) (auto simp: push_bit_eq_mult)
    then have "(2::nat) ^ (7 - rest) * (push_bit 1 ?b OR 1) < 2 ^ (7 - rest) * 2 ^ Suc rest" by simp
    also have "\<dots> = 2 ^ 8" using r(1) by (simp flip: power_add power_Suc)
    finally have "push_bit (7 - rest) (push_bit 1 ?b OR 1) < 256" by (simp add: push_bit_eq_mult mult.commute)
    then show ?thesis
      using pos lt1 byte_bw_short [OF b pos r(1)] run_bw_byte [OF L, of buf "\<not> zero" stop] lut by auto
  qed simp
  then show ?thesis
    using run_bw_split [of stop "stop + rest" start buf "\<not> zero"] r True
    by (auto simp: CountBw_intrnl_def Let_def and7 bytes split: if_splits)
next
  case False
  then show ?thesis using assms(2) by (simp add: CountBw_intrnl_def)
qed

lemma CountBw_cells:
  assumes lut: "\<And>b. b < 256 \<Longrightarrow> lut ! b = byte_bw v 8 b" and "d \<le> m" and zero: "zero = (\<not> v)"
  shows "CountBw_cells (buf :: 'a word list) (if v then - 1 else 0) m d (LENGTH('a) * d) lut zero cnt =
    cnt + run_bw buf v (LENGTH('a) * m) (LENGTH('a) * d)"
  using assms(2)
proof (induction m arbitrary: cnt)
  case 0
  then show ?case by (subst CountBw_cells.simps) simp
next
  case (Suc m)
  show ?case
  proof (cases "d \<le> m")
    case True
    let ?full = "run_bw buf v (LENGTH('a) * Suc m) (LENGTH('a) * m) = LENGTH('a)"
    have "LENGTH('a) * d \<le> LENGTH('a) * m" using True by simp
    then have split: "run_bw buf v (LENGTH('a) * Suc m) (LENGTH('a) * d) =
       (if ?full then LENGTH('a) + run_bw buf v (LENGTH('a) * m) (LENGTH('a) * d)
        else run_bw buf v (LENGTH('a) * Suc m) (LENGTH('a) * m))"
      using run_bw_split [of "LENGTH('a) * d" "LENGTH('a) * m" "LENGTH('a) * Suc m" buf v] by simp
    have full: "buf ! m = (if v then - 1 else 0) \<longleftrightarrow> ?full"
      using run_bw_full_iff [of "LENGTH('a) * m" "LENGTH('a) * Suc m" buf v] by (simp add: cell_value_iff)
    have intrnl: "CountBw_intrnl buf (Suc m * LENGTH('a)) (LENGTH('a) * d) lut zero
        = run_bw buf v (LENGTH('a) * Suc m) (LENGTH('a) * d)"
      using CountBw_intrnl [of lut zero "LENGTH('a) * d" "LENGTH('a) * Suc m" buf] lut zero
        mult_le_mono2 [OF Suc.prems, of "LENGTH('a)"]
      by (simp add: mult.commute)
    have "CountBw_cells buf (if v then - 1 else 0) (Suc m) d (LENGTH('a) * d) lut zero cnt =
       (if ?full then CountBw_cells buf (if v then - 1 else 0) m d (LENGTH('a) * d) lut zero (cnt + LENGTH('a))
        else cnt + run_bw buf v (LENGTH('a) * Suc m) (LENGTH('a) * d))"
      using True intrnl by (subst CountBw_cells.simps) (simp add: full cell_simps)
    then show ?thesis using Suc.IH [OF True] split by (auto split: if_splits)
  next
    case False
    then have "d = Suc m" using Suc.prems by simp
    then show ?thesis by (subst CountBw_cells.simps) simp
  qed
qed

lemma CountBw:
  assumes lut: "\<And>b. b < 256 \<Longrightarrow> lut ! b = byte_bw (\<not> zero) 8 b" and "stop \<le> start"
    and aligned: "stop mod LENGTH('a) = 0 \<or> start div LENGTH('a) = stop div LENGTH('a)"
  shows "CountBw (buf :: 'a word list) start stop lut zero = run_bw buf (\<not> zero) start stop"
proof -
  let ?L = "LENGTH('a)"
  let ?run = "run_bw buf (\<not> zero)"
  let ?ext = "?L * (start div ?L)"
  have intrnl: "CountBw_intrnl buf a b lut zero = ?run a b" if "b \<le> a" for a b
    using lut that by (rule CountBw_intrnl)
  have ext: "start - start mod ?L = ?ext" by (simp add: minus_mod_eq_mult_div)
  show ?thesis
  proof (cases "?ext \<le> stop \<or> ?ext = 0")
    case True
    then show ?thesis using assms(2) by (simp only: CountBw_def Let_def cell_simps ext if_True intrnl)
  next
    case False
    have "?L * (stop div ?L) \<le> stop" by simp
    then have "start div ?L \<noteq> stop div ?L" using False by auto
    then have stop: "stop = ?L * (stop div ?L)" using aligned by (metis add_0_right mult_div_mod_eq)
    have d: "stop div ?L \<le> start div ?L" using assms(2) by (rule div_le_mono)
    have neg: "(if \<not> zero then - 1 else 0 :: 'a word) = (if zero then 0 else - 1)" by simp
    have cells: "CountBw_cells buf (if zero then 0 else - 1) (start div ?L) (stop div ?L) stop lut zero cnt
        = cnt + ?run ?ext stop" for cnt
      using CountBw_cells [of lut "\<not> zero" "stop div ?L" "start div ?L" zero buf cnt, unfolded neg] lut d stop
      by simp
    have split: "?run start stop = (if ?run start ?ext = start - ?ext then start - ?ext + ?run ?ext stop else ?run start ?ext)"
      using False by (intro run_bw_split) simp_all
    have cell: "?ext div ?L = start div ?L" by simp
    have "CountBw buf start stop lut zero =
       (if ?run start ?ext = start - ?ext
        then CountBw_cells buf (if zero then 0 else - 1) (start div ?L) (stop div ?L) stop lut zero (?run start ?ext)
        else ?run start ?ext)"
      using False intrnl [of ?ext start]
      by (simp only: CountBw_def Let_def cell_simps ext if_False cell) simp
    then show ?thesis unfolding split by (simp only: cells cong: if_cong)
  qed
qed

end

section \<open>Trailing and leading zeroes\<close>

lemma run_fw_prefix:
  assumes "a \<le> b" and "b \<le> c" and "a \<le> i" and "i < b" and "bufbit buf i \<noteq> v"
  shows "run_fw buf v a c = run_fw buf v a b"
proof -
  have "run_fw buf v a b \<noteq> b - a" using run_fw_full_iff [OF assms(1), of buf v] assms(3-5) by blast
  then show ?thesis using run_fw_split [OF assms(1,2), of buf v] by simp
qed

lemma run_fw_from_cell:
  fixes buf :: "'a::len word list"
  assumes "pre \<le> LENGTH('a)"
  shows "run_fw buf v (LENGTH('a) * c + pre) (LENGTH('a) * Suc c) =
    length (takeWhile (\<lambda>i. bit (buf ! c) (pre + i) = v) [0 ..< LENGTH('a) - pre])"
proof -
  have "[LENGTH('a) * c + pre ..< LENGTH('a) * Suc c] = map (\<lambda>i. LENGTH('a) * c + pre + i) [0 ..< LENGTH('a) - pre]"
    by (rule nth_equalityI) auto
  then have "run_fw buf v (LENGTH('a) * c + pre) (LENGTH('a) * Suc c) =
      length (takeWhile (\<lambda>i. bufbit buf (LENGTH('a) * c + pre + i) = v) [0 ..< LENGTH('a) - pre])"
    by (simp add: run_fw_def takeWhile_map comp_def)
  also have "\<dots> = length (takeWhile (\<lambda>i. bit (buf ! c) (pre + i) = v) [0 ..< LENGTH('a) - pre])"
    using assms by (intro takeWhile_length_cong) (simp add: bufbit_def add.assoc)
  finally show ?thesis .
qed

lemma drop_bit_zero_iff:
  fixes buf :: "'a::len word list"
  assumes "pre \<le> LENGTH('a)"
  shows "drop_bit pre (buf ! c) = 0 \<longleftrightarrow>
    run_fw buf False (LENGTH('a) * c + pre) (LENGTH('a) * Suc c) = LENGTH('a) - pre"
proof -
  have "drop_bit pre (buf ! c) = 0 \<longleftrightarrow> (\<forall>i \<in> set [0 ..< LENGTH('a) - pre]. bit (buf ! c) (pre + i) = False)"
  proof
    assume "drop_bit pre (buf ! c) = 0"
    then have "\<not> bit (drop_bit pre (buf ! c)) i" for i by simp
    then show "\<forall>i \<in> set [0 ..< LENGTH('a) - pre]. bit (buf ! c) (pre + i) = False"
      by (simp add: bit_drop_bit_eq)
  next
    assume z: "\<forall>i \<in> set [0 ..< LENGTH('a) - pre]. bit (buf ! c) (pre + i) = False"
    have "\<not> bit (buf ! c) (pre + n)" for n
      using z bit_imp_le_length [of "buf ! c" "pre + n"] by (cases "n < LENGTH('a) - pre") auto
    then show "drop_bit pre (buf ! c) = 0"
      by (intro bit_word_eqI) (simp add: bit_drop_bit_eq)
  qed
  also have "\<dots> \<longleftrightarrow> length (takeWhile (\<lambda>i. bit (buf ! c) (pre + i) = False) [0 ..< LENGTH('a) - pre]) = length [0 ..< LENGTH('a) - pre]"
    unfolding length_takeWhile_full ..
  finally show ?thesis unfolding run_fw_from_cell [OF assms] by simp
qed

lemma builtin_ctz_drop:
  fixes buf :: "'a::len word list"
  assumes "pre \<le> LENGTH('a)" and "drop_bit pre (buf ! c) \<noteq> 0"
  shows "builtin_ctz (drop_bit pre (buf ! c)) = run_fw buf False (LENGTH('a) * c + pre) (LENGTH('a) * Suc c)"
proof -
  have "[0 ..< LENGTH('a)] = [0 ..< LENGTH('a) - pre] @ [LENGTH('a) - pre ..< LENGTH('a)]"
    by (metis diff_le_self le0 le_add_diff_inverse upt_add_eq_append)
  then show ?thesis
    using assms(2) unfolding drop_bit_zero_iff [OF assms(1)] run_fw_from_cell [OF assms(1)]
    by (simp add: builtin_ctz_def bit_drop_bit_eq takeWhile_length_append)
qed

context cell_type
begin

lemma CountTrailingZeroes_cells:
  fixes buf :: "'a word list" and len :: nat
  assumes "c \<le> d" and "pre < LENGTH('a)"
  defines "p \<equiv> LENGTH('a) * c + pre"
  defines "r \<equiv> CountTrailingZeroes_cells buf c d pre len"
  shows "fst r = len + run_fw buf False p (LENGTH('a) * d)
    \<and> snd (snd r) = (run_fw buf False p (LENGTH('a) * d) \<noteq> LENGTH('a) * d - p)
    \<and> (\<not> snd (snd r) \<longrightarrow> fst (snd r) = (if c = d then pre else 0))"
  using assms(1,2) unfolding p_def r_def
proof (induction "d - c" arbitrary: c pre len)
  case 0
  then show ?case by (simp add: CountTrailingZeroes_cells.simps [of buf c] run_fw_def)
next
  case (Suc n)
  let ?L = "LENGTH('a)"
  have cd: "c < d" "Suc c \<le> d" "n = d - Suc c" using Suc.hyps(2) by simp_all
  have le: "?L * c + pre \<le> ?L * Suc c" "?L * Suc c \<le> ?L * d"
    using Suc.prems(2) cd(2) mult_le_mono2 [OF cd(2)] by simp_all
  have split: "run_fw buf False (?L * c + pre) (?L * d) =
     (if run_fw buf False (?L * c + pre) (?L * Suc c) = ?L - pre
      then ?L - pre + run_fw buf False (?L * Suc c) (?L * d)
      else run_fw buf False (?L * c + pre) (?L * Suc c))"
    using run_fw_split [OF le, of buf False] by simp
  have pre: "pre \<le> ?L" using Suc.prems(2) by simp
  note zero = drop_bit_zero_iff [OF pre, of buf c]
  show ?case
  proof (cases "drop_bit pre (buf ! c) = 0")
    case True
    define q where "q = ?L - pre"
    have q: "len + ?L - pre = len + q" "?L * d - (?L * c + pre) = q + (?L * d - ?L * Suc c)"
      using pre le by (simp_all add: q_def)
    have run: "run_fw buf False (?L * c + pre) (?L * d) = q + run_fw buf False (?L * Suc c) (?L * d)"
      using True zero split by (simp add: q_def)
    have rec: "CountTrailingZeroes_cells buf c d pre len = CountTrailingZeroes_cells buf (Suc c) d 0 (len + q)"
      using True cd by (simp add: CountTrailingZeroes_cells.simps [of buf c] cell_simps q)
    show ?thesis
      using Suc.hyps(1) [OF cd(3,2), of 0 "len + q"] cd unfolding run rec q(2) add_0_right by simp
  next
    case False
    have "run_fw buf False (?L * c + pre) (?L * Suc c) \<le> ?L - pre"
      unfolding run_fw_from_cell [OF pre] by (metis diff_zero length_takeWhile_le length_upt)
    then have "run_fw buf False (?L * c + pre) (?L * d) \<noteq> ?L * d - (?L * c + pre)"
      using split zero False le by auto
    then show ?thesis
      using False zero split cd builtin_ctz_drop [OF pre False]
      by (simp add: CountTrailingZeroes_cells.simps [of buf c] Let_def)
  qed
qed

end

context cell_type
begin

lemma CountTrailingZeroes:
  assumes i: "pos \<le> i" "i < limit" "bufbit (buf :: 'a word list) i"
  shows "CountTrailingZeroes buf pos limit = run_fw buf False pos limit"
proof -
  let ?L = "LENGTH('a)" and ?run = "run_fw buf False"
  let ?c = "pos div ?L" and ?d = "limit div ?L" and ?pre = "pos mod ?L"
  obtain len pre ret where r: "CountTrailingZeroes_cells buf ?c ?d ?pre 0 = (len, pre, ret)"
    by (metis prod_cases3)
  have cd: "?c \<le> ?d" using i by (intro div_le_mono) simp
  have p: "?L * ?c + ?pre = pos" and pre: "?pre < ?L" by simp_all
  note cells = CountTrailingZeroes_cells [OF cd pre, of buf 0, unfolded p r fst_conv snd_conv]
  have dl: "?L * ?d \<le> limit" and lim: "?L * ?d + limit mod ?L = limit" by simp_all
  have code: "CountTrailingZeroes buf pos limit = (if ret then len else if 0 < limit mod ?L then
      (if drop_bit pre (buf ! ?d) \<noteq> 0 then len + builtin_ctz (drop_bit pre (buf ! ?d)) else len + limit mod ?L) else len)"
    by (simp add: CountTrailingZeroes_def Let_def cell_simps r)
  show ?thesis
  proof (cases ret)
    case True
    then have full: "?run pos (?L * ?d) \<noteq> ?L * ?d - pos" using cells by simp
    then have "pos \<le> ?L * ?d" by (cases "pos \<le> ?L * ?d") (auto simp: run_fw_def)
    then show ?thesis using run_fw_split [of pos "?L * ?d" limit buf False] dl full cells True code by simp
  next
    case False
    define q where "q = ?L * ?d + pre"
    have full: "len = ?L * ?d - pos" "?run pos (?L * ?d) = ?L * ?d - pos" using cells False by simp_all
    have q: "q = max pos (?L * ?d)"
    proof (cases "?c = ?d")
      case True
      then have "pre = ?pre" "?L * ?d \<le> pos" using cells False p by (simp_all add: mult.commute)
      then show ?thesis using p True by (simp add: q_def)
    next
      case cd': False
      then have "pre = 0" "pos \<le> ?L * ?d" using cells False cd by (auto simp: div_le_mono) 
        (metis Suc_leI le_neq_implies_less less_imp_le div_less_iff_less_mult len_gt_0 mult.commute)
      then show ?thesis by (simp add: q_def)
    qed
    have split: "?run pos limit = len + ?run q limit"
      using run_fw_split [of pos "?L * ?d" limit buf False] dl full q by (cases "pos \<le> ?L * ?d") auto
    have qi: "q \<le> i"
    proof (rule ccontr)
      assume "\<not> q \<le> i"
      then have "i < ?L * ?d" "pos \<le> ?L * ?d" using q i by auto
      then show False using run_fw_full_iff [of pos "?L * ?d" buf False] full(2) i by auto
    qed
    then have "?L * ?d \<le> i" using q by simp
    then have sfx: "0 < limit mod ?L" using i(2) lim by linarith
    have "limit < ?L * Suc ?d" using lim mod_less_divisor [of ?L limit, OF len_gt_0] unfolding mult_Suc_right by linarith
    then have "i < ?L * Suc ?d" using i(2) by linarith
    then have "q \<le> ?L * Suc ?d" "limit \<le> ?L * Suc ?d" "q \<le> limit"
      using qi i(2) \<open>limit < ?L * Suc ?d\<close> by linarith+
    moreover from this have prele: "pre \<le> ?L" by (simp add: q_def)
    moreover have "?run q (?L * Suc ?d) \<noteq> ?L - pre"
      using run_fw_full_iff [of q "?L * Suc ?d" buf False] qi i \<open>i < ?L * Suc ?d\<close> calculation(1) by (auto simp: q_def)
    ultimately have "drop_bit pre (buf ! ?d) \<noteq> 0"
      and "builtin_ctz (drop_bit pre (buf ! ?d)) = ?run q (?L * Suc ?d)"
      using drop_bit_zero_iff [OF prele, of buf ?d] builtin_ctz_drop [OF prele, of buf ?d] by (auto simp: q_def)
    moreover have "?run q (?L * Suc ?d) = ?run q limit"
      using run_fw_prefix [of q limit "?L * Suc ?d" i buf False] \<open>limit \<le> ?L * Suc ?d\<close> \<open>q \<le> limit\<close> qi i by simp
    ultimately show ?thesis using False sfx code split by simp
  qed
qed

end

context cell_type
begin

lemma CountTrailingZeroes_first:
  assumes "pos \<le> i" and "i < limit" and "bufbit (buf :: 'a word list) i"
    and "\<And>j. pos \<le> j \<Longrightarrow> j < i \<Longrightarrow> \<not> bufbit buf j"
  shows "CountTrailingZeroes buf pos limit = i - pos"
proof -
  have "run_fw buf False pos i = i - pos" using run_fw_full_iff [OF assms(1), of buf False] assms(4) by auto
  moreover have "run_fw buf False i limit = 0"
    using assms(2,3) by (simp add: run_fw_def upt_conv_Cons)
  ultimately show ?thesis
    using CountTrailingZeroes [OF assms(1-3)] run_fw_split [of pos i limit buf False] assms(1,2) by simp
qed

end

lemma top_bit_iff:
  fixes v :: "'a::len word"
  assumes "unat v < 2 ^ Suc k"
  shows "v AND push_bit k 1 = 0 \<longleftrightarrow> unat v < 2 ^ k"
proof -
  have "v AND push_bit k 1 = 0 \<longleftrightarrow> \<not> bit (unat v) k"
    using and_exp_eq_0_iff_not_bit [of v k] by (simp add: push_bit_of_1 bit_unsigned_iff)
  also have "\<dots> \<longleftrightarrow> unat v div 2 ^ k = 0"
  proof -
    have "unat v div 2 ^ k < 2" using assms by (simp add: less_mult_imp_div_less mult.commute)
    then show ?thesis by (auto simp: bit_iff_odd less_2_cases_iff)
  qed
  also have "\<dots> \<longleftrightarrow> unat v < 2 ^ k" by (simp add: div_eq_0_iff)
  finally show ?thesis .
qed

lemma CtLZ_bits:
  fixes v :: "'a::len word"
  assumes "unat v < 2 ^ Suc k" and "v \<noteq> 0"
  shows "CtLZ_bits v k \<le> k \<and> 2 ^ (k - CtLZ_bits v k) \<le> unat v \<and> unat v < 2 ^ (Suc k - CtLZ_bits v k)"
  using assms
proof (induction k)
  case 0
  have "0 < unat v" using \<open>v \<noteq> 0\<close> by (simp add: unat_gt_0)
  then have "unat v = 1" using 0 by simp
  then show ?case using top_bit_iff [of v 0] by simp
next
  case (Suc k)
  then show ?case using top_bit_iff [of v "Suc k"] by (auto simp: Suc_diff_le)
qed

lemma Log2_bounds:
  assumes "v \<noteq> 0"
  shows "0 < Log2 v" and "Log2 v \<le> 64" and "2 ^ (Log2 v - 1) \<le> unat v" and "unat v < 2 ^ Log2 v"
proof -
  have "CtLZ_bits v 63 \<le> 63 \<and> 2 ^ (63 - CtLZ_bits v 63) \<le> unat v \<and> unat v < 2 ^ (Suc 63 - CtLZ_bits v 63)"
    by (rule CtLZ_bits [OF _ assms]) (use unsigned_less [of v, where 'a = nat] in simp)
  then show "0 < Log2 v" and "Log2 v \<le> 64" and "2 ^ (Log2 v - 1) \<le> unat v" and "unat v < 2 ^ Log2 v"
    by (auto simp: Log2_def CtLZ_def)
qed

section \<open>The counting functions are correct\<close>

lemmas luts_fw = luts(1,2) and luts_bw = luts(3,4)

text \<open>
  C32: the branch-free population counts of 8, 32 and 64 bit words return the number of set bits, and
  \<open>PopCount\<close> over a buffer returns the number of set bits of the range, for every alignment.
\<close>

theorem PopCount_counts_bits:
  assumes "start < stop" and "stop \<le> bufsize buf" and "stop \<le> bufsize buf32"
  shows "PopCount64 buf start stop = length (filter (bufbit buf) [start ..< stop])
    \<and> PopCount32 buf32 start stop = length (filter (bufbit buf32) [start ..< stop])
    \<and> PopCnt8 b = length (filter (bit b) [0 ..< 8])"
proof -
  have "PopCount64 buf start stop = bufpop buf start stop"
    unfolding PopCount64_def using assms(1)
    by (intro c64.PopCount_with) (simp_all add: PopCnt64_range_def PopCnt64)
  moreover have "PopCount32 buf32 start stop = bufpop buf32 start stop"
    unfolding PopCount32_def using assms(1)
    by (intro c32.PopCount_with) (simp_all add: PopCnt32_range_def PopCnt32)
  ultimately show ?thesis by (simp add: bufpop_def PopCnt8 popcount_bits)
qed

theorem PopCount_counts_bits_witness:
  "PopCount64 [0xF0F0, 0, 7] 5 130 = 9"
  using PopCount_counts_bits [of 5 130 "[0xF0F0, 0, 7]" "[0, 0, 0, 0, 0]" 0]
  by (simp add: bufsize_def bufbit_def upt_numeral_eqs)

text \<open>
  \<open>CountOneFw\<close> and \<open>CountZeroFw\<close>, which read bytes through lookup tables and compare whole
  cells, return the length of the run of ones (of zeroes) that starts at the first bit of the range.
\<close>

theorem CountFw_is_run:
  fixes buf :: "u64 list"
  assumes "start \<le> stop" and "stop \<le> bufsize buf"
  shows "CountOneFw buf start stop = length (takeWhile (bufbit buf) [start ..< stop])
    \<and> CountZeroFw buf start stop = length (takeWhile (\<lambda>i. \<not> bufbit buf i) [start ..< stop])"
  using c64.CountFw [of kPopCountFW_LUT False start stop buf] c64.CountFw [of kZeroCountFW_LUT True start stop buf]
    luts_fw assms(1)
  by (simp add: CountOneFw_def CountZeroFw_def run_fw_def)

theorem CountFw_is_run_witness:
  "CountZeroFw [0, 0x100 :: u64] 3 100 = 69"
  using CountFw_is_run [of 3 100 "[0, 0x100]"]
  by (simp add: bufsize_def bufbit_def upt_numeral_eqs)

text \<open>
  reading backwards, \<open>CountOneBw\<close> and \<open>CountZeroBw\<close> return the length of the run that ends at the
  upper bound of the range, provided the lower bound is the start of a cell or lies in the cell of
  the upper bound.
\<close>

theorem CountBw_is_run:
  fixes buf :: "u64 list"
  assumes "stop \<le> start" and "start \<le> bufsize buf"
    and "stop mod 64 = 0 \<or> start div 64 = stop div 64"
  shows "CountOneBw buf start stop = length (takeWhile (bufbit buf) (rev [stop ..< start]))
    \<and> CountZeroBw buf start stop = length (takeWhile (\<lambda>i. \<not> bufbit buf i) (rev [stop ..< start]))"
  using c64.CountBw [of kPopCountBW_LUT False stop start buf] c64.CountBw [of kZeroCountBW_LUT True stop start buf]
    luts_bw assms(1,3)
  by (simp add: CountOneBw_def CountZeroBw_def run_bw_def)

theorem CountBw_is_run_witness:
  "CountZeroBw [0x80, 0 :: u64] 100 0 = 92"
  using CountBw_is_run [of 0 100 "[0x80, 0]"]
  by (simp add: bufsize_def bufbit_def upt_numeral_eqs)

text \<open>
  without that proviso the whole lower cell is counted: a range of 118 ones is reported as 128.
\<close>

theorem CountOneBw_overcounts:
  "CountOneBw [- 1, - 1 :: u64] 128 10 = 128
   \<and> length (takeWhile (bufbit [- 1, - 1 :: u64]) (rev [10 ..< 128])) = 118"
proof
  have "CountOneBw [- 1, - 1 :: u64] 128 10 = CountOneBw [- 1, - 1 :: u64] 128 0"
    by (simp add: CountOneBw_def CountBw_def Let_def cell_simps CountBw_intrnl_def
        CountBw_cells.simps)
  then show "CountOneBw [- 1, - 1 :: u64] 128 10 = 128"
    by (simp add: CountOneBw_def CountBw_def Let_def cell_simps CountBw_intrnl_def
        CountBw_cells.simps)
  have "bufbit [- 1, - 1 :: u64] i" if "i < 128" for i
  proof -
    have "i div 64 < 2" using that by (simp add: less_mult_imp_div_less)
    then have "[- 1, - 1 :: u64] ! (i div 64) = - 1" by (auto simp: less_2_cases_iff)
    then show ?thesis by (simp add: bufbit_def)
  qed
  then show "length (takeWhile (bufbit [- 1, - 1 :: u64]) (rev [10 ..< 128])) = 118"
    by (simp add: takeWhile_eq_all_conv [THEN iffD2])
qed

text \<open>
  if a bit is set in the range, \<open>CountTrailingZeroes\<close> on a buffer returns the distance from the start
  of the range to its first set bit.
\<close>

theorem CountTrailingZeroes_first_set:
  fixes buf :: "u64 list"
  assumes "pos \<le> i" and "i < limit" and "limit \<le> bufsize buf" and "bufbit buf i"
    and "\<And>j. pos \<le> j \<Longrightarrow> j < i \<Longrightarrow> \<not> bufbit buf j"
  shows "CountTrailingZeroes buf pos limit = i - pos"
  using assms(1,2,4,5) by (rule c64.CountTrailingZeroes_first)

theorem CountTrailingZeroes_first_set_witness:
  "CountTrailingZeroes [0, 0x10 :: u64] 2 70 = 66"
proof -
  have "list_all (\<lambda>j. \<not> bufbit [0, 0x10 :: u64] j) [2 ..< 68]" by (simp add: bufbit_def)
  then have "\<not> bufbit [0, 0x10 :: u64] j" if "2 \<le> j" "j < 68" for j
    using that unfolding list_all_iff set_upt by (meson atLeastLessThan_iff)
  then show ?thesis using CountTrailingZeroes_first_set [of 2 68 70 "[0, 0x10]"]
    by (simp add: bufsize_def bufbit_def)
qed

text \<open>
  \<open>ReverseBits\<close> moves bit \<open>i\<close> of a word to the mirrored position, so applying it twice gives back
  the word.
\<close>

theorem ReverseBits_mirror:
  "(\<forall>i. i < 64 \<longrightarrow> bit (ReverseBits64 v) i = bit v (63 - i)) \<and> ReverseBits64 (ReverseBits64 v) = v
   \<and> ReverseBits32 (ReverseBits32 w) = w"
proof (intro conjI allI impI)
  show "ReverseBits64 (ReverseBits64 v) = v" by (rule bit_word_eqI) (simp add: bit_ReverseBits64)
  show "ReverseBits32 (ReverseBits32 w) = w" by (rule bit_word_eqI) (simp add: bit_ReverseBits32)
qed (rule bit_ReverseBits64)

theorem ReverseBits_mirror_witness: "bit (ReverseBits64 1) 63"
  using ReverseBits_mirror [of 1 0] by (auto simp: bit_1_iff)

end
