(* ===== verification/Bitmap_Select.thy ===== *)
theory Bitmap_Select
  imports Bitmap_Count
begin

text \<open>
  Selection of the \<open>rank\<close>-th set (or clear) bit, \<^verbatim>\<open>include/memoria/core/tools/bitmap_select.hpp\<close>, for
  buffers of \<open>uint64_t\<close>. A position below 100 is a found bit, a result \<open>100 + n\<close> means that the word
  has only \<open>n\<close> candidates.

  The abstract specification is \<open>pick\<close>: the \<open>rank\<close>-th element of the list of candidate positions.
  Selection over a range is proved to be \<open>pick\<close> on the filtered list of all positions of the range, in
  ascending order for the forward and in descending order for the backward functions.
\<close>

section \<open>Selection in a word\<close>

definition BroadwordGTZ8 :: "u64 \<Rightarrow> u64" where
  "BroadwordGTZ8 x =
     (let H8 = 0x8080808080808080; L8 = 0x0101010101010101
      in drop_bit 7 ((x OR ((x OR H8) - L8)) AND H8))"

definition BroadwordLE8 :: "u64 \<Rightarrow> u64 \<Rightarrow> u64" where
  "BroadwordLE8 x y =
     (let H8 = 0x8080808080808080
      in drop_bit 7 ((((y OR H8) - (x AND NOT H8)) XOR x XOR y) AND H8))"

definition byte_ranks :: "u64 \<Rightarrow> u64" where
  \<comment> \<open>the first lines of both functions: every byte of \<open>v\<close> holds the population count of that byte\<close>
  "byte_ranks arg =
     (let v1 = arg - (drop_bit 1 arg AND 0x5555555555555555);
          v2 = (v1 AND 0x3333333333333333) + (drop_bit 2 v1 AND 0x3333333333333333)
      in (v2 + drop_bit 4 v2) AND 0x0F0F0F0F0F0F0F0F)"

definition full_rank :: "u64 \<Rightarrow> nat" where
  "full_rank v =
     (let argl = (ucast (v + drop_bit 32 v) :: u32); argl1 = argl + drop_bit 16 argl
      in unat ((argl1 + drop_bit 8 argl1) AND 0x7F))"

fun Select_bits :: "u64 \<Rightarrow> nat \<Rightarrow> nat \<Rightarrow> nat list \<Rightarrow> nat + nat" where
  \<comment> \<open>the loop over the bits of a byte: \<open>Inl\<close> the position it returns, \<open>Inr\<close> the value of \<open>r\<close> after it\<close>
  "Select_bits arg rank r [] = Inr r"
| "Select_bits arg rank r (p # ps) =
     (let r = r + (if arg AND push_bit p 1 \<noteq> 0 then 1 else 0)
      in if r = rank then Inl p else Select_bits arg rank r ps)"

fun Select_bytes :: "(nat \<Rightarrow> nat list) \<Rightarrow> u64 \<Rightarrow> u64 \<Rightarrow> nat \<Rightarrow> nat \<Rightarrow> nat list \<Rightarrow> nat + nat" where
  \<comment> \<open>the loop over the bytes; \<open>positions\<close> lists the bits of the byte at \<open>shift\<close> in the order of the inner loop\<close>
  "Select_bytes positions arg v rank r [] = Inr r"
| "Select_bytes positions arg v rank r (shift # shifts) =
     (let popc = unat (drop_bit shift v AND 0xFF)
      in if r + popc \<ge> rank then
           (case Select_bits arg rank r (positions shift) of
              Inl p \<Rightarrow> Inl p
            | Inr r \<Rightarrow> Select_bytes positions arg v rank r shifts)
         else Select_bytes positions arg v rank (r + popc) shifts)"

definition SelectFW :: "u64 \<Rightarrow> nat \<Rightarrow> nat" where
  "SelectFW arg rank =
     (let v = byte_ranks arg; fullrank = full_rank v
      in if fullrank \<ge> rank then
           (case Select_bytes (\<lambda>shift. [shift ..< shift + 8]) arg v rank 0 [0, 8, 16, 24, 32, 40, 48, 56] of
              Inl p \<Rightarrow> p
            | Inr r \<Rightarrow> 100 + fullrank)
         else 100 + fullrank)"

definition SelectBW :: "u64 \<Rightarrow> nat \<Rightarrow> nat" where
  "SelectBW arg rank =
     (let v = byte_ranks arg; fullrank = full_rank v
      in if fullrank \<ge> rank then
           (case Select_bytes (\<lambda>shift. rev [shift ..< shift + 8]) arg v rank 0 [56, 48, 40, 32, 24, 16, 8, 0] of
              Inl p \<Rightarrow> p
            | Inr r \<Rightarrow> 0)
         else 100 + fullrank)"

definition SelectFW_stop :: "u64 \<Rightarrow> nat \<Rightarrow> nat \<Rightarrow> nat \<Rightarrow> bool \<times> nat \<times> nat" where
  \<comment> \<open>\<open>intrnl2::SelectFW\<close>; returns the result and the updated \<open>total\<close> and \<open>stop\<close>\<close>
  "SelectFW_stop arg ttl count stop =
     (let popcnt = PopCnt64 (arg AND MakeMask 0 stop)
      in if ttl + popcnt < count then (False, ttl + popcnt, stop)
         else
           (case Select_bits arg count ttl [0 ..< stop] of
              Inl c \<Rightarrow> (True, count, c + 1)
            | Inr ttl \<Rightarrow> (False, ttl, stop)))"

definition SelectBW_start :: "u64 \<Rightarrow> nat \<Rightarrow> nat \<Rightarrow> nat \<Rightarrow> nat \<Rightarrow> bool \<times> nat \<times> nat" where
  \<comment> \<open>\<open>intrnl2::SelectBW\<close>; returns the result and the updated \<open>total\<close> and \<open>delta\<close>\<close>
  "SelectBW_start arg ttl count start delta =
     (let popcnt = PopCnt64 (arg AND MakeMask 0 (start + 1))
      in if ttl + popcnt < count then (False, ttl + popcnt, delta)
         else
           (case Select_bits arg count ttl (rev [0 ..< start + 1]) of
              Inl c \<Rightarrow> (True, count, start - c)
            | Inr ttl \<Rightarrow> (False, ttl, delta)))"

section \<open>Selection in a buffer\<close>

record SelectResult =
  local_pos :: nat
  rank :: nat
  is_found :: bool

definition SelectResult :: "nat \<Rightarrow> nat \<Rightarrow> bool \<Rightarrow> SelectResult" where
  "SelectResult idx rnk found = \<lparr>local_pos = idx, rank = rnk, is_found = found\<rparr>"

definition set_local_pos :: "SelectResult \<Rightarrow> nat \<Rightarrow> SelectResult" where
  "set_local_pos r pos = r\<lparr>local_pos := pos\<rparr>"

definition GetBits00 :: "u64 list \<Rightarrow> nat \<Rightarrow> nat \<Rightarrow> u64" where
  "GetBits00 buf idx nbits =
     (let h = haddr TYPE(64) idx; l = laddr TYPE(64) idx;
          bitsize = TypeBitsize TYPE(64);
          bitmask = MakeMask (bitsize - nbits) nbits
      in push_bit (bitsize - l - nbits) (buf ! h) AND bitmask)"

definition GetBitsNeg00 :: "u64 list \<Rightarrow> nat \<Rightarrow> nat \<Rightarrow> u64" where
  "GetBitsNeg00 buf idx nbits =
     (let h = haddr TYPE(64) idx; l = laddr TYPE(64) idx;
          bitsize = TypeBitsize TYPE(64);
          bitmask = MakeMask (bitsize - nbits) nbits
      in push_bit (bitsize - l - nbits) (NOT (buf ! h)) AND bitmask)"

fun SelectFW_cells ::
  "(nat \<Rightarrow> u64) \<Rightarrow> nat \<Rightarrow> nat \<Rightarrow> nat list \<Rightarrow> nat \<Rightarrow> SelectResult + nat" where
  \<comment> \<open>the loop over whole cells of both forward functions; \<open>cell_of\<close> reads \<open>buffer[cell]\<close> or \<open>~buffer[cell]\<close>\<close>
  "SelectFW_cells cell_of divisor rnk [] ttl = Inr ttl"
| "SelectFW_cells cell_of divisor rnk (cell # cells) ttl =
     (let result = SelectFW (cell_of cell) (rnk - ttl)
      in if result < 100 then Inl (SelectResult (push_bit divisor cell + result) rnk True)
         else SelectFW_cells cell_of divisor rnk cells (ttl + (result - 100)))"

definition SelectFW_range ::
  "(nat \<Rightarrow> nat \<Rightarrow> u64) \<Rightarrow> (nat \<Rightarrow> u64) \<Rightarrow> nat \<Rightarrow> nat \<Rightarrow> nat \<Rightarrow> SelectResult" where
  \<comment> \<open>the common body of \<open>Select1FW\<close> and \<open>Select0FW\<close>, which differ in how they read the buffer\<close>
  "SelectFW_range get_bits cell_of start stop rnk =
     (let bitsize = TypeBitsize TYPE(64); msk = TypeBitmask TYPE(64);
          divisor = TypeBitmaskPopCount msk;
          pre = bitsize - (start AND msk);
          (pre, suffix, start_cell, stop_cell) =
            (if start + pre \<ge> stop then (stop - start, 0, 0, 0)
             else (pre, stop AND msk, drop_bit divisor (start + pre), drop_bit divisor stop));
          result = SelectFW (get_bits start pre) rnk
      in if result < 100 then SelectResult (start + result) rnk True
         else
           (case SelectFW_cells cell_of divisor rnk [start_cell ..< stop_cell] (result - 100) of
              Inl res \<Rightarrow> res
            | Inr ttl \<Rightarrow>
                if 0 < suffix then
                  (let start0 = push_bit divisor stop_cell;
                       result = SelectFW (get_bits start0 suffix) (rnk - ttl)
                   in if result < 100 then SelectResult (start0 + result) rnk True
                      else SelectResult stop (ttl + result - 100) False)
                else SelectResult stop ttl False))"

definition Select1FW :: "u64 list \<Rightarrow> nat \<Rightarrow> nat \<Rightarrow> nat \<Rightarrow> SelectResult" where
  "Select1FW buffer = SelectFW_range (GetBits0 buffer) (\<lambda>cell. buffer ! cell)"

definition Select0FW :: "u64 list \<Rightarrow> nat \<Rightarrow> nat \<Rightarrow> nat \<Rightarrow> SelectResult" where
  "Select0FW buffer = SelectFW_range (GetBitsNeg0 buffer) (\<lambda>cell. NOT (buffer ! cell))"

fun SelectBW_cells ::
  "(nat \<Rightarrow> u64) \<Rightarrow> nat \<Rightarrow> nat \<Rightarrow> nat list \<Rightarrow> nat \<Rightarrow> SelectResult + nat" where
  "SelectBW_cells cell_of divisor rnk [] ttl = Inr ttl"
| "SelectBW_cells cell_of divisor rnk (cell # cells) ttl =
     (let result = SelectBW (cell_of cell) (rnk - ttl)
      in if result < 100 then Inl (SelectResult (push_bit divisor cell + result) rnk True)
         else SelectBW_cells cell_of divisor rnk cells (ttl + (result - 100)))"

definition SelectBW_range ::
  "(nat \<Rightarrow> nat \<Rightarrow> u64) \<Rightarrow> (nat \<Rightarrow> u64) \<Rightarrow> nat \<Rightarrow> nat \<Rightarrow> nat \<Rightarrow> SelectResult" where
  "SelectBW_range get_bits cell_of start stop rnk =
     (if start - stop > 0 then
        (let bitsize = TypeBitsize TYPE(64); msk = TypeBitmask TYPE(64);
             divisor = TypeBitmaskPopCount msk;
             pre = start AND msk;
             padding = stop AND msk;
             (pre, suffix, start_cell, stop_cell) =
               (if start - pre \<le> stop then (start - stop, 0, 0, 0)
                else (pre, bitsize - padding, drop_bit divisor (start - pre) - 1, drop_bit divisor stop));
             result = (if 0 < pre then SelectBW (get_bits (start - pre) pre) rnk else 100)
         in if result < 100 then SelectResult (start + result - bitsize) rnk True
            else
              (case SelectBW_cells cell_of divisor rnk (rev [stop_cell + 1 ..< start_cell + 1]) (result - 100) of
                 Inl res \<Rightarrow> res
               | Inr ttl \<Rightarrow>
                   if 0 < suffix then
                     (let result = SelectBW (get_bits stop suffix) (rnk - ttl)
                      in if result < 100 then SelectResult (stop - padding + result) rnk True
                         else SelectResult stop (ttl + result - 100) False)
                   else SelectResult stop ttl False))
      else if 0 < rnk then SelectResult stop 0 False
      else SelectResult stop 0 True)"

definition Select1BW :: "u64 list \<Rightarrow> nat \<Rightarrow> nat \<Rightarrow> nat \<Rightarrow> SelectResult" where
  "Select1BW buffer = SelectBW_range (GetBits00 buffer) (\<lambda>cell. buffer ! cell)"

definition Select0BW :: "u64 list \<Rightarrow> nat \<Rightarrow> nat \<Rightarrow> nat \<Rightarrow> SelectResult" where
  "Select0BW buffer = SelectBW_range (GetBitsNeg00 buffer) (\<lambda>cell. NOT (buffer ! cell))"

section \<open>The word level\<close>

definition pick :: "nat \<Rightarrow> nat list \<Rightarrow> nat option" where
  "pick rnk ps = (if rnk \<le> length ps then Some (ps ! (rnk - 1)) else None)"

lemma pick_append:
  assumes "0 < rnk"
  shows "pick rnk (ps @ qs) = (case pick rnk ps of Some p \<Rightarrow> Some p | None \<Rightarrow> pick (rnk - length ps) qs)"
  using assms by (auto simp: pick_def nth_append)

lemma Select_bits:
  assumes "r < rnk"
  shows "Select_bits arg rnk r ps =
    (let qs = filter (bit arg) ps
     in if rnk - r \<le> length qs then Inl (qs ! (rnk - r - 1)) else Inr (r + length qs))"
  using assms
proof (induction ps arbitrary: r)
  case (Cons p ps)
  have "arg AND push_bit p 1 \<noteq> 0 \<longleftrightarrow> bit arg p"
    using and_exp_eq_0_iff_not_bit [of arg p] by (simp add: push_bit_of_1)
  then show ?case
    using Cons.prems Cons.IH [of "Suc r"] Cons.IH [of r]
    by (cases "bit arg p"; cases "Suc r = rnk") (auto simp: Let_def nth_Cons' Suc_diff_Suc split: if_splits)
qed simp

lemma full_rank: "full_rank (byte_ranks arg) = popcount arg"
proof -
  have comm: "(x AND m) + (drop_bit 2 x AND m) = (drop_bit 2 x AND m) + (x AND m)" for x m :: u64
    by (rule add.commute)
  show ?thesis unfolding PopCnt64 [symmetric] PopCnt64_def full_rank_def byte_ranks_def Let_def comm ..
qed

lemma bval_nth:
  assumes "\<forall>b \<in> set bs. b < 256" and "j < length bs"
  shows "bval bs div 2 ^ (8 * j) mod 256 = bs ! j"
  using assms
proof (induction bs arbitrary: j)
  case (Cons b bs)
  show ?case
  proof (cases j)
    case (Suc i)
    have "(b + 256 * bval bs) div 2 ^ (8 * j) = (b + 256 * bval bs) div 256 div 2 ^ (8 * i)"
      unfolding Suc by (simp add: power_add div_mult2_eq)
    also have "(b + 256 * bval bs) div 256 = bval bs" using Cons.prems by simp
    finally show ?thesis using Cons Suc by simp
  qed (use Cons.prems in simp)
qed simp

lemma bytes_of_nth: "j < n \<Longrightarrow> bytes_of n x ! j = x div 2 ^ (8 * j) mod 256"
proof (induction n x arbitrary: j rule: bytes_of.induct)
  case (2 n x)
  then show ?case by (cases j) (simp_all add: power_add div_mult2_eq)
qed simp

lemma byte_rank:
  assumes "j < 8"
  shows "unat (drop_bit (8 * j) (byte_ranks arg) AND 0xFF) = length (filter (bit arg) [8 * j ..< 8 * j + 8])"
proof -
  let ?bs = "map (\<lambda>b. npop b 8) (bytes_of 8 (unat arg))"
  have "unat (byte_ranks arg) = bval ?bs"
    using unat_swar [of 8 "bytes_of 8 (unat arg)" arg "0x5555555555555555" "0x3333333333333333" "0x0F0F0F0F0F0F0F0F"]
    by (simp add: byte_ranks_def Let_def replicate_numerals)
  moreover have "unat (x AND 0xFF) = unat x mod 256" for x :: u64
    using take_bit_eq_mask [of 8 x] unsigned_take_bit_eq [of 8 x, where 'a = nat]
    by (simp add: mask_eq_exp_minus_1 take_bit_eq_mod)
  ultimately have "unat (drop_bit (8 * j) (byte_ranks arg) AND 0xFF) = bval ?bs div 2 ^ (8 * j) mod 256"
    by (simp add: unat_drop_bit_eq drop_bit_eq_div [where ?'a = nat])
  also have "\<dots> = ?bs ! j"
    by (rule bval_nth) (use assms le_less_trans [OF npop_le, of 8 256] in auto)
  also have "\<dots> = npop (unat arg div 2 ^ (8 * j) mod 256) 8" using assms by (simp add: bytes_of_nth)
  also have "\<dots> = length (filter (\<lambda>i. bit arg (8 * j + i)) [0 ..< 8])"
  proof -
    have "unat arg div 2 ^ (8 * j) mod 256 = take_bit 8 (drop_bit (8 * j) (unat arg))"
      by (simp add: take_bit_eq_mod drop_bit_eq_div)
    then have "bit (unat arg div 2 ^ (8 * j) mod 256) i = bit arg (8 * j + i)" if "i < 8" for i
      using that by (simp add: bit_take_bit_iff bit_drop_bit_eq bit_unsigned_iff)
    then show ?thesis unfolding npop_def by (intro arg_cong [where f = length] filter_cong) auto
  qed
  also have "[8 * j ..< 8 * j + 8] = map (\<lambda>i. 8 * j + i) [0 ..< 8]" by (rule nth_equalityI) auto
  then have "length (filter (\<lambda>i. bit arg (8 * j + i)) [0 ..< 8]) = length (filter (bit arg) [8 * j ..< 8 * j + 8])"
    by (simp add: filter_map comp_def)
  finally show ?thesis .
qed

lemma Select_bytes:
  assumes "r < rnk"
    and popc: "\<And>shift. shift \<in> set shifts \<Longrightarrow>
      unat (drop_bit shift v AND 0xFF) = length (filter (bit arg) (positions shift))"
  shows "Select_bytes positions arg v rnk r shifts =
    (let qs = filter (bit arg) (concat (map positions shifts))
     in if rnk - r \<le> length qs then Inl (qs ! (rnk - r - 1)) else Inr (r + length qs))"
  using assms
proof (induction shifts arbitrary: r)
  case (Cons shift shifts)
  let ?b = "filter (bit arg) (positions shift)" and ?q = "filter (bit arg) (concat (map positions shifts))"
  have popc: "unat (drop_bit shift v AND 0xFF) = length ?b" using Cons.prems(2) by simp
  show ?case
  proof (cases "rnk \<le> r + length ?b")
    case True
    then have "Select_bits arg rnk r (positions shift) = Inl (?b ! (rnk - r - 1))"
      using Cons.prems(1) by (simp add: Select_bits Let_def)
    moreover have "rnk - r - 1 < length ?b" and "rnk - r \<le> length ?b + length ?q"
      using True Cons.prems(1) by linarith+
    ultimately show ?thesis using True popc by (simp add: Let_def nth_append)
  next
    case False
    then have "Select_bytes positions arg v rnk (r + length ?b) shifts =
       (if rnk - (r + length ?b) \<le> length ?q then Inl (?q ! (rnk - (r + length ?b) - 1)) else Inr (r + length ?b + length ?q))"
      using Cons.IH [of "r + length ?b"] Cons.prems(2) by (simp add: Let_def)
    then show ?thesis using False popc by (auto simp: Let_def nth_append)
  qed
qed (simp add: Let_def)


lemma byte_shifts:
  "concat (map (\<lambda>shift. [shift ..< shift + 8]) [0, 8, 16, 24, 32, 40, 48, 56]) = [0 ..< 64 :: nat]"
  "concat (map (\<lambda>shift. rev [shift ..< shift + 8]) [56, 48, 40, 32, 24, 16, 8, 0]) = rev [0 ..< 64 :: nat]"
  by (simp_all add: upt_numeral_eqs)

lemma byte_rank_shift:
  assumes "shift \<in> set [0, 8, 16, 24, 32, 40, 48, 56]"
  shows "unat (drop_bit shift (byte_ranks arg) AND 0xFF) = length (filter (bit arg) [shift ..< shift + 8])"
proof -
  have "8 dvd shift" and "shift < 64" using assms by auto
  then obtain j where "shift = 8 * j" and "j < 8" by auto
  then show ?thesis using byte_rank [of j arg] by simp
qed

lemma SelectFW:
  assumes "0 < rnk"
  shows "SelectFW arg rnk =
    (case pick rnk (filter (bit arg) [0 ..< 64]) of Some p \<Rightarrow> p | None \<Rightarrow> 100 + length (filter (bit arg) [0 ..< 64]))"
proof -
  have "Select_bytes (\<lambda>shift. [shift ..< shift + 8]) arg (byte_ranks arg) rnk 0 [0, 8, 16, 24, 32, 40, 48, 56] =
    (let qs = filter (bit arg) [0 ..< 64]
     in if rnk \<le> length qs then Inl (qs ! (rnk - 1)) else Inr (length qs))"
    unfolding byte_shifts [symmetric]
    by (subst Select_bytes [OF assms]) (auto intro!: byte_rank_shift simp only: diff_zero add_0)
  then show ?thesis
    unfolding SelectFW_def full_rank popcount_bits pick_def Let_def by simp
qed

lemma SelectBW:
  assumes "0 < rnk"
  shows "SelectBW arg rnk =
    (case pick rnk (filter (bit arg) (rev [0 ..< 64])) of Some p \<Rightarrow> p | None \<Rightarrow> 100 + length (filter (bit arg) (rev [0 ..< 64])))"
proof -
  have rev: "length (filter (bit arg) (rev [s ..< t])) = length (filter (bit arg) [s ..< t])" for s t
    by (metis length_rev rev_filter)
  have "Select_bytes (\<lambda>shift. rev [shift ..< shift + 8]) arg (byte_ranks arg) rnk 0 [56, 48, 40, 32, 24, 16, 8, 0] =
    (let qs = filter (bit arg) (rev [0 ..< 64])
     in if rnk \<le> length qs then Inl (qs ! (rnk - 1)) else Inr (length qs))"
    unfolding byte_shifts(2) [symmetric]
    by (subst Select_bytes [OF assms], unfold rev, rule byte_rank_shift)
       (auto simp only: diff_zero add_0 set_simps insert_iff)
  then show ?thesis
    unfolding SelectBW_def full_rank popcount_bits pick_def Let_def rev by simp
qed


section \<open>The buffer level\<close>

definition select_spec :: "nat \<Rightarrow> nat list \<Rightarrow> nat \<Rightarrow> SelectResult" where
  \<comment> \<open>what a selection promises on the list of candidate positions\<close>
  "select_spec stop ps rnk =
     (if rnk \<le> length ps then SelectResult (ps ! (rnk - 1)) rnk True else SelectResult stop (length ps) False)"

lemma select_spec_append:
  assumes "0 < rnk"
  shows "select_spec stop (ps @ qs) rnk =
    (if rnk \<le> length ps then SelectResult (ps ! (rnk - 1)) rnk True
     else if rnk - length ps \<le> length qs then SelectResult (qs ! (rnk - length ps - 1)) rnk True
     else SelectResult stop (length ps + length qs) False)"
  using assms by (auto simp: select_spec_def nth_append)

text \<open>
  One step of a selection: a word is read whose bits are those of the buffer on a stretch of positions.
\<close>

definition sel_step :: "nat \<Rightarrow> (nat \<Rightarrow> nat) \<Rightarrow> nat list \<Rightarrow> nat \<Rightarrow> bool" where
  "sel_step result pos qs rnk \<longleftrightarrow>
     (if rnk \<le> length qs then result < 100 \<and> pos result = qs ! (rnk - 1) else result = 100 + length qs)"

lemma sel_stepI:
  assumes sel: "result = (case pick rnk ps of Some p \<Rightarrow> p | None \<Rightarrow> 100 + length ps)"
    and ps: "\<forall>x \<in> set ps. x < 100" and qs: "qs = map pos ps" and "0 < rnk"
  shows "sel_step result pos qs rnk"
proof (cases "rnk \<le> length ps")
  case True
  then have "rnk - 1 < length ps" using assms(4) by simp
  then show ?thesis using True ps by (simp add: sel_step_def sel qs pick_def)
qed (simp add: sel_step_def sel qs pick_def)

text \<open>
  Both directions go through the same three stages: the part of the first cell, the whole cells and
  the part of the last cell.
\<close>

lemma select_stages:
  assumes "0 < rnk" and s1: "sel_step res1 pos1 p rnk"
    and cells: "\<And>ttl. ttl < rnk \<Longrightarrow> C ttl =
      (if rnk - ttl \<le> length q then Inl (SelectResult (q ! (rnk - ttl - 1)) rnk True) else Inr (ttl + length q))"
    and s3: "\<And>rnk'. 0 < rnk' \<Longrightarrow> if flag then sel_step (res3 rnk') pos3 r rnk' else r = []"
  shows "(if res1 < 100 then SelectResult (pos1 res1) rnk True
     else case C (res1 - 100) of
            Inl x \<Rightarrow> x
          | Inr ttl \<Rightarrow>
              if flag then
                (let result = res3 (rnk - ttl)
                 in if result < 100 then SelectResult (pos3 result) rnk True
                    else SelectResult stop (ttl + result - 100) False)
              else SelectResult stop ttl False) = select_spec stop (p @ q @ r) rnk"
proof (cases "rnk \<le> length p")
  case True
  then show ?thesis using s1 select_spec_append [OF assms(1), of stop p "q @ r"] by (simp add: sel_step_def)
next
  case F1: False
  then have res1: "res1 = 100 + length p" "length p < rnk" using s1 by (simp_all add: sel_step_def)
  show ?thesis
  proof (cases "rnk - length p \<le> length q")
    case True
    then show ?thesis using F1 cells [OF res1(2)] select_spec_append [OF assms(1), of stop p "q @ r"]
      by (simp add: res1 nth_append)
  next
    case F2: False
    define ttl where "ttl = length p + length q"
    have ttl: "ttl < rnk" "rnk - length p - length q = rnk - ttl" using F2 by (simp_all add: ttl_def)
    have "select_spec stop (p @ q @ r) rnk = (if rnk - ttl \<le> length r then SelectResult (r ! (rnk - ttl - 1)) rnk True
        else SelectResult stop (ttl + length r) False)"
      using ttl select_spec_append [OF assms(1), of stop "p @ q" r] by (simp add: ttl_def)
    then show ?thesis using F2 cells [OF res1(2)] s3 [of "rnk - ttl"] ttl
      by (auto simp: res1 sel_step_def Let_def ttl_def add.assoc split: if_splits)
  qed
qed

lemma filter_word_FW:
  fixes w :: u64
  assumes "\<And>k. bit w k \<longleftrightarrow> k < n \<and> P (a + k)" and "n \<le> 64"
  shows "map (\<lambda>k. a + k) (filter (bit w) [0 ..< 64]) = filter P [a ..< a + n]"
proof -
  have "[0 ..< 64] = [0 ..< n] @ [n ..< 64]" using assms(2) by (metis le0 le_add_diff_inverse upt_add_eq_append)
  moreover have "filter (bit w) [n ..< 64] = []" using assms(1) by (auto simp: filter_empty_conv)
  moreover have "filter (bit w) [0 ..< n] = filter (\<lambda>k. P (a + k)) [0 ..< n]"
    using assms(1) by (intro filter_cong) auto
  moreover have "[a ..< a + n] = map (\<lambda>k. a + k) [0 ..< n]" by (rule nth_equalityI) auto
  ultimately show ?thesis by (simp add: filter_map comp_def)
qed

lemma filter_less: "\<forall>x \<in> set (filter P [0 ..< 64]). x < (100 :: nat)" "\<forall>x \<in> set (filter P (rev [0 ..< 64])). x < (100 :: nat)"
  unfolding set_filter set_rev set_upt by simp_all

lemma SelectFW_step:
  fixes w :: u64
  assumes "\<And>k. bit w k \<longleftrightarrow> k < n \<and> P (a + k)" and "n \<le> 64" and "0 < rnk"
  shows "sel_step (SelectFW w rnk) (\<lambda>k. a + k) (filter P [a ..< a + n]) rnk"
  using SelectFW [OF assms(3)] filter_less(1) filter_word_FW [OF assms(1,2), symmetric] assms(3)
  by (rule sel_stepI)

lemma SelectFW_cells:
  assumes cell_of: "\<And>c k. bit (cell_of c) k \<longleftrightarrow> k < 64 \<and> P (64 * c + k)" and "m \<le> n" and "ttl < rnk"
  defines "qs \<equiv> filter P [64 * m ..< 64 * n]"
  shows "SelectFW_cells cell_of 6 rnk [m ..< n] ttl =
    (if rnk - ttl \<le> length qs then Inl (SelectResult (qs ! (rnk - ttl - 1)) rnk True) else Inr (ttl + length qs))"
  using assms(2,3) unfolding qs_def
proof (induction "n - m" arbitrary: m ttl)
  case 0
  then show ?case by simp
next
  case (Suc d)
  have lt: "m < n" "Suc m \<le> n" "d = n - Suc m" using Suc.hyps(2) by simp_all
  let ?b = "filter P [64 * m ..< 64 * m + 64]" and ?q = "filter P [64 * Suc m ..< 64 * n]"
  have "[64 * m ..< 64 * n] = [64 * m ..< 64 * m + 64] @ [64 * Suc m ..< 64 * n]"
    using upt_add_eq_append [of "64 * m" "64 * m + 64" "64 * n - 64 * Suc m"] lt(2) by (simp add: add.commute)
  then have split: "filter P [64 * m ..< 64 * n] = ?b @ ?q" by simp
  have pos: "0 < rnk - ttl" using Suc.prems(2) by simp
  note step = SelectFW_step [OF cell_of _ pos, of m, unfolded sel_step_def]
  show ?case
  proof (cases "rnk - ttl \<le> length ?b")
    case True
    moreover have "rnk - ttl - 1 < length ?b" "rnk - ttl \<le> length ?b + length ?q" using True pos by linarith+
    ultimately show ?thesis unfolding split using step pos
      by (simp add: upt_conv_Cons [OF lt(1)] Let_def nth_append push_bit_eq_mult mult.commute)
  next
    case False
    then have "ttl + length ?b < rnk" by linarith
    from Suc.hyps(1) [OF lt(3,2) this]
    show ?thesis unfolding split using False step pos
      by (auto simp add: upt_conv_Cons [OF lt(1)] Let_def nth_append)
  qed
qed

lemma upt_split3:
  assumes "a \<le> b" "b \<le> c" "c \<le> d"
  shows "[a ..< d] = [a ..< b] @ [b ..< c] @ [c ..< d]"
  using assms by (metis le_add_diff_inverse le_trans upt_add_eq_append)

lemma select_geometry:
  "TypeBitsize TYPE(64) = 64" "TypeBitmaskPopCount (TypeBitmask TYPE(64)) = 6"
  "n AND TypeBitmask TYPE(64) = n mod 64" "drop_bit 6 n = n div 64" "push_bit 6 n = 64 * n" for n :: nat
  using c64.and_mask [of n]
  by (simp_all add: TypeBitmask_def TypeBitsize_def TypeBitmaskPopCount_def drop_bit_eq_div push_bit_eq_mult)

lemma SelectFW_range:
  assumes gb: "\<And>i n k. i mod 64 + n \<le> 64 \<Longrightarrow> bit (get_bits i n) k \<longleftrightarrow> k < n \<and> P (i + k)"
    and cell_of: "\<And>c k. bit (cell_of c) k \<longleftrightarrow> k < 64 \<and> P (64 * c + k)"
    and "start \<le> stop" and "0 < rnk"
  shows "SelectFW_range get_bits cell_of start stop rnk = select_spec stop (filter P [start ..< stop]) rnk"
proof -
  let ?c = "start div 64" and ?d = "stop div 64"
  have "64 * ?c + start mod 64 = start" and "start mod 64 < 64" by simp_all
  then have ext: "start + (64 - start mod 64) = 64 * Suc ?c" "start \<le> 64 * Suc ?c"
    unfolding mult_Suc_right by linarith+
  have e: "64 * Suc ?c div 64 = Suc ?c" by simp
  note code = SelectFW_range_def Let_def select_geometry ext(1) e
  show ?thesis
  proof (cases "64 * Suc ?c \<ge> stop")
    case True
    have fits: "start mod 64 + (stop - start) \<le> 64" using True ext(1) by linarith
    have "sel_step (SelectFW (get_bits start (stop - start)) rnk) (\<lambda>k. start + k) (filter P [start ..< stop]) rnk"
      using SelectFW_step [OF gb [OF fits] _ assms(4)] fits assms(3) by simp
    from select_stages [OF assms(4) this, of "\<lambda>ttl. SelectFW_cells cell_of 6 rnk [0 ..< 0] ttl" "[]" False undefined undefined "[]" stop] True
    show ?thesis unfolding code by (simp split: if_splits)
  next
    case False
    let ?e = "64 * Suc ?c"
    have cd: "Suc ?c \<le> ?d" "64 * ?d \<le> stop" "64 * ?d + stop mod 64 = stop" using False by auto
    let ?p = "filter P [start ..< ?e]" and ?q = "filter P [?e ..< 64 * ?d]" and ?r = "filter P [64 * ?d ..< stop]"
    have split: "filter P [start ..< stop] = ?p @ ?q @ ?r"
      using upt_split3 [OF ext(2) _ cd(2)] cd(1) by simp
    have fits: "start mod 64 + (64 - start mod 64) \<le> 64" "(64 * ?d) mod 64 + stop mod 64 \<le> 64"
      by (simp_all add: less_imp_le)
    have "sel_step (SelectFW (get_bits start (64 - start mod 64)) rnk) (\<lambda>k. start + k) ?p rnk"
      using SelectFW_step [OF gb [OF fits(1)] _ assms(4)] unfolding ext(1) by simp
    moreover have "if 0 < stop mod 64 then sel_step (SelectFW (get_bits (64 * ?d) (stop mod 64)) rnk') (\<lambda>k. 64 * ?d + k) ?r rnk' else ?r = []"
      if "0 < rnk'" for rnk'
      using SelectFW_step [OF gb [OF fits(2)] _ that] cd(3) by (auto simp: less_imp_le)
    ultimately have "(if SelectFW (get_bits start (64 - start mod 64)) rnk < 100
        then SelectResult (start + SelectFW (get_bits start (64 - start mod 64)) rnk) rnk True
        else case SelectFW_cells cell_of 6 rnk [Suc ?c ..< ?d] (SelectFW (get_bits start (64 - start mod 64)) rnk - 100) of
            Inl x \<Rightarrow> x
          | Inr ttl \<Rightarrow>
              if 0 < stop mod 64 then
                (let result = SelectFW (get_bits (64 * ?d) (stop mod 64)) (rnk - ttl)
                 in if result < 100 then SelectResult (64 * ?d + result) rnk True
                    else SelectResult stop (ttl + result - 100) False)
              else SelectResult stop ttl False) = select_spec stop (?p @ ?q @ ?r) rnk"
      using SelectFW_cells [of cell_of P, OF cell_of cd(1)] by (intro select_stages [OF assms(4)]) blast+
    then show ?thesis unfolding code split using False
      by (simp only: if_False prod.case)
  qed
qed


text \<open>Backwards, the bits are read from the top of the word.\<close>

lemma filter_word_BW:
  fixes w :: u64
  assumes "\<And>k. bit w k \<longleftrightarrow> 64 - n \<le> k \<and> k < 64 \<and> P (pos k)" and "n \<le> 64"
    and "\<And>k. k < 64 \<Longrightarrow> 64 - n \<le> k \<Longrightarrow> pos k = a + (k - (64 - n))"
  shows "map pos (filter (bit w) (rev [0 ..< 64])) = filter P (rev [a ..< a + n])"
proof -
  let ?m = "64 - n"
  have "[0 ..< 64] = [0 ..< ?m] @ [?m ..< 64]" by (metis diff_le_self le0 le_add_diff_inverse upt_add_eq_append)
  moreover have "filter (bit w) [0 ..< ?m] = []" using assms(1) by (auto simp: filter_empty_conv)
  moreover have "filter (bit w) [?m ..< 64] = filter (\<lambda>k. P (pos k)) [?m ..< 64]"
    using assms(1) by (intro filter_cong) auto
  ultimately have "map pos (filter (bit w) [0 ..< 64]) = filter P (map pos [?m ..< 64])"
    by (simp add: filter_map comp_def)
  also have "map pos [?m ..< 64] = [a ..< a + n]"
    using assms(2,3) by (intro nth_equalityI) auto
  finally show ?thesis by (metis rev_filter rev_map)
qed

lemma SelectBW_step:
  fixes w :: u64
  assumes "\<And>k. bit w k \<longleftrightarrow> 64 - n \<le> k \<and> k < 64 \<and> P (pos k)" and "n \<le> 64" and "0 < rnk"
    and "\<And>k. k < 64 \<Longrightarrow> 64 - n \<le> k \<Longrightarrow> pos k = a + (k - (64 - n))"
  shows "sel_step (SelectBW w rnk) pos (filter P (rev [a ..< a + n])) rnk"
  using SelectBW [OF assms(3)] filter_less(2) filter_word_BW [OF assms(1,2,4), symmetric] assms(3)
  by (rule sel_stepI)

lemma SelectBW_cells:
  assumes cell_of: "\<And>c k. bit (cell_of c) k \<longleftrightarrow> k < 64 \<and> P (64 * c + k)" and "m \<le> n" and "ttl < rnk"
  defines "qs \<equiv> filter P (rev [64 * m ..< 64 * n])"
  shows "SelectBW_cells cell_of 6 rnk (rev [m ..< n]) ttl =
    (if rnk - ttl \<le> length qs then Inl (SelectResult (qs ! (rnk - ttl - 1)) rnk True) else Inr (ttl + length qs))"
  using assms(2,3) unfolding qs_def
proof (induction n arbitrary: ttl)
  case 0
  then show ?case by simp
next
  case (Suc n)
  show ?case
  proof (cases "m = Suc n")
    case True
    then show ?thesis using Suc.prems by simp
  next
    case F: False
    then have mn: "m \<le> n" using Suc.prems by simp
    let ?b = "filter P (rev [64 * n ..< 64 * n + 64])" and ?q = "filter P (rev [64 * m ..< 64 * n])"
    have "[64 * m ..< 64 * Suc n] = [64 * m ..< 64 * n] @ [64 * n ..< 64 * n + 64]"
      using upt_add_eq_append [of "64 * m" "64 * n" 64] mn by (simp add: add.commute)
    then have split: "filter P (rev [64 * m ..< 64 * Suc n]) = ?b @ ?q" by simp
    have pos: "0 < rnk - ttl" using Suc.prems(2) by simp
    have step: "sel_step (SelectBW (cell_of n) (rnk - ttl)) (\<lambda>k. 64 * n + k) ?b (rnk - ttl)"
      by (rule SelectBW_step [OF _ _ pos]) (simp_all add: cell_of)
    have upt: "rev [m ..< Suc n] = n # rev [m ..< n]" using mn by simp
    show ?thesis
    proof (cases "rnk - ttl \<le> length ?b")
      case True
      moreover have "rnk - ttl - 1 < length ?b" "rnk - ttl \<le> length ?b + length ?q" using True pos by linarith+
      ultimately show ?thesis unfolding split upt using step pos
        by (simp add: Let_def nth_append push_bit_eq_mult mult.commute sel_step_def)
    next
      case False
      then have "ttl + length ?b < rnk" by linarith
      from Suc.IH [OF mn this]
      show ?thesis unfolding split upt using False step pos
        by (auto simp add: Let_def nth_append sel_step_def)
    qed
  qed
qed

lemma top_pos:
  fixes x A m k :: nat
  assumes "x = A + m" and "m \<le> 64" and "64 - m \<le> k"
  shows "x + k - 64 = A + (k - (64 - m))"
  using assms by linarith

lemma low_pos:
  fixes x A m k :: nat
  assumes "x = A + m" and "m \<le> 64" and "64 - (64 - m) \<le> k"
  shows "A + k = x + (k - (64 - (64 - m)))"
  using assms by linarith

lemma SelectBW_range:
  assumes gb: "\<And>i n k. i mod 64 + n \<le> 64 \<Longrightarrow> bit (get_bits i n) k \<longleftrightarrow> 64 - n \<le> k \<and> k < 64 \<and> P (i + (k - (64 - n)))"
    and cell_of: "\<And>c k. bit (cell_of c) k \<longleftrightarrow> k < 64 \<and> P (64 * c + k)"
    and "stop < start" and "0 < rnk"
  shows "SelectBW_range get_bits cell_of start stop rnk = select_spec stop (filter P (rev [stop ..< start])) rnk"
proof -
  let ?c = "start div 64" and ?d = "stop div 64"
  have s: "start - start mod 64 = 64 * ?c" "64 * ?c + start mod 64 = start" "start mod 64 < 64"
    "64 * ?d + stop mod 64 = stop" "stop mod 64 < 64"
    by (simp_all add: minus_mod_eq_mult_div)
  have e: "64 * ?c div 64 = ?c" by simp
  note code = SelectBW_range_def Let_def select_geometry s(1) e
  have gt: "0 < start - stop" using assms(3) by simp
  show ?thesis
  proof (cases "64 * ?c \<le> stop")
    case True
    have "?c \<le> ?d" using True by (simp add: less_eq_div_iff_mult_less_eq mult.commute)
    moreover have "?d \<le> ?c" using assms(3) by (intro div_le_mono) simp
    ultimately have "?d = ?c" by simp
    then have fits: "stop mod 64 + (start - stop) \<le> 64" using s assms(3) by linarith
    have "sel_step (SelectBW (get_bits stop (start - stop)) rnk) (\<lambda>k. start + k - 64)
        (filter P (rev [stop ..< stop + (start - stop)])) rnk"
    proof (rule SelectBW_step [OF _ _ assms(4)])
      show pos: "start + k - 64 = stop + (k - (64 - (start - stop)))" if "64 - (start - stop) \<le> k" for k
        by (rule top_pos) (use that fits assms(3) in simp_all)
      show "bit (get_bits stop (start - stop)) k \<longleftrightarrow> 64 - (start - stop) \<le> k \<and> k < 64 \<and> P (start + k - 64)" for k
        using gb [OF fits, of k] pos [of k] by auto
    qed (use fits in simp)
    then have "sel_step (SelectBW (get_bits stop (start - stop)) rnk) (\<lambda>k. start + k - 64)
        (filter P (rev [stop ..< start])) rnk" using assms(3) by simp
    from select_stages [OF assms(4) this, of "\<lambda>ttl. SelectBW_cells cell_of 6 rnk [] ttl" "[]" False undefined undefined "[]" stop] True gt
    show ?thesis unfolding code by (simp split: if_splits)
  next
    case False
    have cd: "Suc ?d \<le> ?c" using False s by linarith
    let ?e = "64 * Suc ?d"
    let ?p = "filter P (rev [64 * ?c ..< start])" and ?q = "filter P (rev [?e ..< 64 * ?c])"
      and ?r = "filter P (rev [stop ..< ?e])"
    have le: "stop \<le> ?e" "?e \<le> 64 * ?c" "64 * ?c \<le> start"
      using s cd mult_le_mono2 [OF cd, of 64] unfolding mult_Suc_right by linarith+
    have split: "filter P (rev [stop ..< start]) = ?p @ ?q @ ?r"
      using upt_split3 [OF le] by simp
    define res where "res = (if 0 < start mod 64 then SelectBW (get_bits (64 * ?c) (start mod 64)) rnk else 100)"
    have "sel_step res (\<lambda>k. start + k - 64) ?p rnk"
    proof (cases "0 < start mod 64")
      case True
      have fits: "(64 * ?c) mod 64 + start mod 64 \<le> 64" using s by simp
      have "sel_step (SelectBW (get_bits (64 * ?c) (start mod 64)) rnk) (\<lambda>k. start + k - 64)
          (filter P (rev [64 * ?c ..< 64 * ?c + start mod 64])) rnk"
      proof (rule SelectBW_step [OF _ _ assms(4)])
        show pos: "start + k - 64 = 64 * ?c + (k - (64 - start mod 64))" if "64 - start mod 64 \<le> k" for k
          by (rule top_pos [OF s(2) [symmetric] less_imp_le [OF s(3)] that])
        show "bit (get_bits (64 * ?c) (start mod 64)) k \<longleftrightarrow> 64 - start mod 64 \<le> k \<and> k < 64 \<and> P (start + k - 64)" for k
          using gb [OF fits, of k] pos [of k] by auto
      qed (use fits in simp)
      then show ?thesis using True s(2) by (simp add: res_def)
    next
      case zero: False
      then show ?thesis using s(2) assms(4) by (simp add: res_def sel_step_def)
    qed
    moreover have "if True then sel_step (SelectBW (get_bits stop (64 - stop mod 64)) rnk') (\<lambda>k. 64 * ?d + k) ?r rnk' else ?r = []"
      if "0 < rnk'" for rnk'
    proof -
      have fits: "stop mod 64 + (64 - stop mod 64) \<le> 64" using s by simp
      have end_r: "stop + (64 - stop mod 64) = ?e" using s(4,5) unfolding mult_Suc_right by linarith
      have "sel_step (SelectBW (get_bits stop (64 - stop mod 64)) rnk') (\<lambda>k. 64 * ?d + k)
          (filter P (rev [stop ..< stop + (64 - stop mod 64)])) rnk'"
      proof (rule SelectBW_step [OF _ _ that])
        show pos: "64 * ?d + k = stop + (k - (64 - (64 - stop mod 64)))" if "64 - (64 - stop mod 64) \<le> k" for k
          by (rule low_pos [OF s(4) [symmetric] less_imp_le [OF s(5)] that])
        show "bit (get_bits stop (64 - stop mod 64)) k \<longleftrightarrow> 64 - (64 - stop mod 64) \<le> k \<and> k < 64 \<and> P (64 * ?d + k)" for k
          using gb [OF fits, of k] pos [of k] by auto
      qed simp
      then show ?thesis unfolding end_r by simp
    qed
    ultimately have "(if res < 100 then SelectResult (start + res - 64) rnk True
        else case SelectBW_cells cell_of 6 rnk (rev [Suc ?d ..< ?c]) (res - 100) of
            Inl x \<Rightarrow> x
          | Inr ttl \<Rightarrow>
              if True then
                (let result = SelectBW (get_bits stop (64 - stop mod 64)) (rnk - ttl)
                 in if result < 100 then SelectResult (64 * ?d + result) rnk True
                    else SelectResult stop (ttl + result - 100) False)
              else SelectResult stop ttl False) = select_spec stop (?p @ ?q @ ?r) rnk"
      using SelectBW_cells [of cell_of P, OF cell_of cd] by (intro select_stages [OF assms(4)]) blast+
    moreover have "stop - stop mod 64 = 64 * ?d" "0 < 64 - stop mod 64" "?c - 1 + 1 = ?c" "?d + 1 = Suc ?d"
      using s cd by linarith+
    ultimately show ?thesis unfolding code split using False gt
      by (simp only: if_False if_True prod.case s(1) res_def [symmetric])
  qed
qed


section \<open>Selection is correct\<close>

lemma GetBits00:
  assumes "i mod 64 + n \<le> 64"
  shows "bit (GetBits00 buf i n) k \<longleftrightarrow> 64 - n \<le> k \<and> k < 64 \<and> bufbit buf (i + (k - (64 - n)))"
    and "bit (GetBitsNeg00 buf i n) k \<longleftrightarrow> 64 - n \<le> k \<and> k < 64 \<and> \<not> bufbit buf (i + (k - (64 - n)))"
proof -
  have n: "64 - n + n \<le> 64" "64 - n + n = 64" using assms by simp_all
  have code: "bit (push_bit (64 - i mod 64 - n) w AND MakeMask (64 - n) n) k \<longleftrightarrow>
      64 - n \<le> k \<and> k < 64 \<and> bit w (i mod 64 + (k - (64 - n)))" for w :: u64
  proof (cases "64 - n \<le> k \<and> k < 64")
    case True
    then have "k - (64 - i mod 64 - n) = i mod 64 + (k - (64 - n))" "64 - i mod 64 - n \<le> k"
      using assms by linarith+
    then show ?thesis using True n by (simp only: bit_and_iff bit_push_bit_iff) (simp add: bit_MakeMask)
  qed (use n in \<open>auto simp: bit_and_iff bit_MakeMask\<close>)
  have add: "bufbit buf (i + (k - (64 - n))) = bit (buf ! (i div 64)) (i mod 64 + (k - (64 - n)))"
    and lt: "i mod 64 + (k - (64 - n)) < LENGTH(64)"
    if "64 - n \<le> k" "k < 64" using bufbit_add [of i "k - (64 - n)" buf] that assms by simp_all
  have "GetBits00 buf i n = push_bit (64 - i mod 64 - n) (buf ! (i div 64)) AND MakeMask (64 - n) n"
    and "GetBitsNeg00 buf i n = push_bit (64 - i mod 64 - n) (NOT (buf ! (i div 64))) AND MakeMask (64 - n) n"
    by (simp_all add: GetBits00_def GetBitsNeg00_def Let_def cell_simps)
  then show "bit (GetBits00 buf i n) k \<longleftrightarrow> 64 - n \<le> k \<and> k < 64 \<and> bufbit buf (i + (k - (64 - n)))"
    and "bit (GetBitsNeg00 buf i n) k \<longleftrightarrow> 64 - n \<le> k \<and> k < 64 \<and> \<not> bufbit buf (i + (k - (64 - n)))"
    using add lt by (auto simp only: code bit_not_iff possible_bit_word)
qed

lemma bit_cell: "bit (buf ! c) k \<longleftrightarrow> k < 64 \<and> bufbit buf (64 * c + k)" for buf :: "u64 list"
  using bit_imp_le_length [of "buf ! c" k] by (auto simp: bufbit_def)

lemma bit_not_cell: "bit (NOT (buf ! c)) k \<longleftrightarrow> k < 64 \<and> \<not> bufbit buf (64 * c + k)" for buf :: "u64 list"
  by (auto simp: bit_not_iff bufbit_def)

text \<open>
  C26: \<open>Select1FW\<close> and \<open>Select0FW\<close> return the position of the \<open>rank\<close>-th one (zero) of the range in
  ascending order; if the range has fewer, they return its end and the number of ones (zeroes) seen.
\<close>

theorem SelectFW_refines:
  assumes "start \<le> stop" and "stop \<le> bufsize buf" and "0 < rnk"
  shows "Select1FW buf start stop rnk = select_spec stop (filter (bufbit buf) [start ..< stop]) rnk
    \<and> Select0FW buf start stop rnk = select_spec stop (filter (\<lambda>i. \<not> bufbit buf i) [start ..< stop]) rnk"
  unfolding Select1FW_def Select0FW_def
  using assms(1,3) by (auto intro!: SelectFW_range simp: c64.GetBits0 c64.GetBitsNeg0 bit_cell [of buf] bit_not_cell)

theorem SelectFW_refines_witness:
  "Select1FW [0xF0, 0, 0xF0] 6 140 4 = SelectResult 133 4 True"
  using SelectFW_refines [of 6 140 "[0xF0, 0, 0xF0]" 4]
  by (simp add: bufsize_def bufbit_def select_spec_def upt_numeral_eqs)

text \<open>
  C27: \<open>Select1BW\<close> and \<open>Select0BW\<close> return the position of the \<open>rank\<close>-th one (zero) of the range in
  descending order; if the range has fewer, they return its lower end and the number seen.
\<close>

theorem SelectBW_refines:
  assumes "stop < start" and "start \<le> bufsize buf" and "0 < rnk"
  shows "Select1BW buf start stop rnk = select_spec stop (filter (bufbit buf) (rev [stop ..< start])) rnk
    \<and> Select0BW buf start stop rnk = select_spec stop (filter (\<lambda>i. \<not> bufbit buf i) (rev [stop ..< start])) rnk"
  unfolding Select1BW_def Select0BW_def
  using assms(1,3) by (auto intro!: SelectBW_range simp: GetBits00 bit_cell [of buf] bit_not_cell)

theorem SelectBW_refines_witness:
  "Select1BW [0xF0, 0, 0xF0] 134 6 3 = SelectResult 7 3 True"
  using SelectBW_refines [of 6 134 "[0xF0, 0, 0xF0]" 3]
  by (simp add: bufsize_def bufbit_def select_spec_def upt_numeral_eqs)

end
