(* ===== verification/Codecs.thy ===== *)
theory Codecs
  imports Bitmap_Count
begin

text \<open>
  The value codecs of Memoria: the byte codecs \<open>I7Codec\<close> (\<^verbatim>\<open>core/tools/i7_codec.hpp\<close>), \<open>ExintCodec\<close>
  (\<^verbatim>\<open>core/tools/exint_codec.hpp\<close>), \<open>ValueCodec<int64_t>\<close> and \<open>ValueCodec<uint64_t>\<close>
  (\<^verbatim>\<open>core/bignum/int64_codec.hpp\<close>, \<^verbatim>\<open>uint64_codec.hpp\<close>) and \<open>ValueCodec<RawData<uint8_t>>\<close>
  (\<^verbatim>\<open>core/bytes/bytes_codec.hpp\<close>) over buffers of \<open>uint8_t\<close>, and the bit codecs \<open>I64Codec\<close>
  (\<^verbatim>\<open>core/tools/i64_codec.hpp\<close>) and \<open>EliasDeltaCodec\<close> (\<^verbatim>\<open>core/tools/elias_codec.hpp\<close>) over buffers of
  \<open>uint64_t\<close>. The template parameter \<open>V\<close> of the unsigned codecs is \<open>uint64_t\<close>, that of the signed one
  \<open>int64_t\<close>; both are 64 bit words, compared with \<open><\<close> or \<open><s\<close>.

  An encoder returns the updated buffer and the number of elements written, a decoder the value and
  the number of elements read. An element is a byte or a bit (\<open>ElementSize\<close>). The locale \<open>value_codec\<close>
  states what a codec promises to the packed structures that store sequences of values; all seven codecs
  are interpretations of it.
\<close>

section \<open>I7Codec\<close>

function GetI7_bytes :: "u64 \<Rightarrow> nat \<Rightarrow> nat" where
  "GetI7_bytes value len = (if value > 0 then GetI7_bytes (drop_bit 8 value) (len + 1) else len)"
  by pat_completeness auto

termination GetI7_bytes
proof (relation "measure (\<lambda>(v, _). unat v)")
  fix v :: u64 and n :: nat
  assume "v > 0"
  then have "unat v div 256 < unat v" by (simp add: unat_gt_0 word_neq_0_conv)
  then show "((drop_bit 8 v, n + 1), (v, n)) \<in> measure (\<lambda>(v, _). unat v)"
    by (simp add: unat_drop_bit_eq drop_bit_eq_div [where ?'a = nat])
qed simp

declare GetI7_bytes.simps [simp del]

definition GetI7ValueLength :: "u64 \<Rightarrow> nat" where
  "GetI7ValueLength value = (if value < 128 then 1 else GetI7_bytes value 1)"

function put_bytes :: "u8 list \<Rightarrow> u64 \<Rightarrow> nat \<Rightarrow> nat \<Rightarrow> u8 list \<times> nat" where
  \<comment> \<open>the encoding loop; the last component is \<open>byte_length\<close>, which never exceeds 8\<close>
  "put_bytes buffer value idx byte_length =
     (if value > 0
      then put_bytes (buffer[idx := ucast (value AND 0xFF)]) (drop_bit 8 value) (idx + 1) (byte_length + 1)
      else (buffer, byte_length))"
  by pat_completeness auto

termination put_bytes
proof (relation "measure (\<lambda>(_, v, _, _). unat v)")
  fix v :: u64 and b :: "u8 list" and i n :: nat
  assume "v > 0"
  then have "unat v div 256 < unat v" by (simp add: unat_gt_0 word_neq_0_conv)
  then show "((b[i := ucast (v AND 0xFF)], drop_bit 8 v, i + 1, n + 1), (b, v, i, n)) \<in> measure (\<lambda>(_, v, _, _). unat v)"
    by (simp add: unat_drop_bit_eq drop_bit_eq_div [where ?'a = nat])
qed simp

declare put_bytes.simps [simp del]

definition EncodeI7 :: "u8 list \<Rightarrow> u64 \<Rightarrow> nat \<Rightarrow> u8 list \<times> nat" where
  "EncodeI7 buffer value start =
     (if value < 128 then (buffer[start := ucast value], 1)
      else
        (let (buffer, len) = put_bytes (buffer[start := 0]) value (start + 1) 0
         in (buffer[start := of_nat len + 128], len + 1)))"

definition get_bytes :: "u8 list \<Rightarrow> nat \<Rightarrow> nat \<Rightarrow> u64" where
  \<comment> \<open>the decoding loop over \<open>byte_length\<close> bytes\<close>
  "get_bytes buffer idx byte_length =
     fold (\<lambda>c value. value OR push_bit (8 * c) (ucast (buffer ! (idx + c)))) [0 ..< byte_length] 0"

definition DecodeI7 :: "u8 list \<Rightarrow> nat \<Rightarrow> u64 \<times> nat" where
  "DecodeI7 buffer start =
     (if buffer ! start < 128 then (ucast (buffer ! start), 1)
      else
        (let byte_length = unat (buffer ! start) - 128
         in (get_bytes buffer (start + 1) byte_length, byte_length + 1)))"

definition I7_length :: "u8 list \<Rightarrow> nat \<Rightarrow> nat" where
  "I7_length buffer idx = (if buffer ! idx < 128 then 1 else unat (buffer ! idx) - 128 + 1)"

section \<open>ExintCodec\<close>

definition GetExintValueLength :: "u64 \<Rightarrow> nat" where
  "GetExintValueLength value = GetI7_bytes value 1"

definition EncodeExint :: "u8 list \<Rightarrow> u64 \<Rightarrow> nat \<Rightarrow> u8 list \<times> nat" where
  "EncodeExint buffer value start =
     (let (buffer, byte_length) = put_bytes (buffer[start := 0]) value (start + 1) 0
      in (buffer[start := of_nat byte_length], byte_length + 1))"

definition DecodeExint :: "u8 list \<Rightarrow> nat \<Rightarrow> u64 \<times> nat" where
  "DecodeExint buffer start =
     (let byte_length = unat (buffer ! start)
      in (get_bytes buffer (start + 1) byte_length, byte_length + 1))"

definition Exint_length :: "u8 list \<Rightarrow> nat \<Rightarrow> nat" where
  "Exint_length buffer idx = unat (buffer ! idx) + 1"

section \<open>ValueCodec of uint64 and int64\<close>

definition msb :: "u64 \<Rightarrow> nat" where
  \<comment> \<open>\<open>63 - __builtin_clzll(digits)\<close>, undefined for 0\<close>
  "msb digits = 63 - CtLZ digits"

definition bytes :: "u64 \<Rightarrow> nat" where
  "bytes digits = (let v = msb digits + 1 in drop_bit 3 v + (if v AND 7 \<noteq> 0 then 1 else 0))"

definition serialize :: "u8 list \<Rightarrow> u64 \<Rightarrow> nat \<Rightarrow> u8 list \<times> nat" where
  "serialize buffer value idx =
     (let len = bytes value
      in (fold (\<lambda>c b. b[idx + c := ucast (drop_bit (8 * c) value)]) [0 ..< len] buffer, len))"

definition deserialize :: "u8 list \<Rightarrow> u64 \<Rightarrow> nat \<Rightarrow> nat \<Rightarrow> u64" where
  "deserialize buffer value idx len =
     fold (\<lambda>c value. value OR push_bit (8 * c) (ucast (buffer ! (idx + c)))) [0 ..< len] value"

definition UpperBound :: nat where
  "UpperBound = 248"

definition U64_length_at :: "u8 list \<Rightarrow> nat \<Rightarrow> nat" where
  "U64_length_at buffer idx =
     (let head = unat (buffer ! idx) in if head < UpperBound then 1 else head - UpperBound + 1)"

definition U64_length :: "u64 \<Rightarrow> nat" where
  "U64_length value = (if unat value < UpperBound - 1 then 1 else 1 + bytes value)"

definition U64_decode :: "u8 list \<Rightarrow> nat \<Rightarrow> u64 \<times> nat" where
  "U64_decode buffer idx =
     (let header = unat (buffer ! idx)
      in if header < UpperBound then (of_nat header - 1, 1)
         else (let len = header - UpperBound in (deserialize buffer 0 (idx + 1) len, len + 1)))"

definition U64_encode :: "u8 list \<Rightarrow> u64 \<Rightarrow> nat \<Rightarrow> u8 list \<times> nat" where
  "U64_encode buffer value idx =
     (if unat value < UpperBound - 1 then (buffer[idx := ucast (value + 1)], 1)
      else
        (let (buffer, len) = serialize buffer value (idx + 1)
         in (buffer[idx := of_nat (len + UpperBound)], 1 + len)))"

definition S64_length_at :: "u8 list \<Rightarrow> nat \<Rightarrow> nat" where
  "S64_length_at buffer idx =
     (if buffer ! idx < 252 then 1 else unat (buffer ! (idx + 1)) + 2)"

definition S64_length :: "u64 \<Rightarrow> nat" where
  "S64_length value =
     (if 0 \<le>s value then (if value <s 126 then 1 else 2 + bytes value)
      else (if - 127 <s value then 1 else 2 + bytes (- value)))"

definition S64_decode :: "u8 list \<Rightarrow> nat \<Rightarrow> u64 \<times> nat" where
  "S64_decode buffer idx =
     (let header = buffer ! idx
      in if header < 126 then (ucast header, 1)
         else if header < 252 then (- (ucast header - 125), 1)
         else
           (let len = unat (buffer ! (idx + 1));
                value = deserialize buffer 0 (idx + 2) len
            in (if header = 253 then - value else value, len + 2)))"

definition S64_encode :: "u8 list \<Rightarrow> u64 \<Rightarrow> nat \<Rightarrow> u8 list \<times> nat" where
  "S64_encode buffer value idx =
     (if 0 \<le>s value then
        (if value < 126 then (buffer[idx := ucast value], 1)
         else
           (let (buffer, len) = serialize (buffer[idx := 252]) value (idx + 2)
            in (buffer[idx + 1 := of_nat len], 2 + len)))
      else
        (if - 127 <s value then (buffer[idx := ucast (- value + 125)], 1)
         else
           (let (buffer, len) = serialize (buffer[idx := 253]) (- value) (idx + 2)
            in (buffer[idx + 1 := of_nat len], 2 + len))))"

section \<open>ValueCodec of raw bytes\<close>

definition Bytes_length_at :: "u8 list \<Rightarrow> nat \<Rightarrow> nat" where
  "Bytes_length_at buffer idx =
     (let (len, n) = S64_decode buffer idx; pos = idx + n in pos - idx + unat len)"

definition Bytes_length :: "u8 list \<Rightarrow> nat" where
  "Bytes_length value = (let len = length value in S64_length (of_nat len) + len)"

definition Bytes_decode :: "u8 list \<Rightarrow> nat \<Rightarrow> u8 list \<times> nat" where
  "Bytes_decode buffer idx =
     (let (len0, n) = S64_decode buffer idx;
          pos = idx + n;
          len = unat len0;
          tmp = map (\<lambda>c. buffer ! (c + pos)) [0 ..< len];
          pos = pos + len
      in (tmp, pos - idx))"

definition Bytes_encode :: "u8 list \<Rightarrow> u8 list \<Rightarrow> nat \<Rightarrow> u8 list \<times> nat" where
  "Bytes_encode buffer value idx =
     (let (buffer, n) = S64_encode buffer (of_nat (length value)) idx;
          pos = idx + n;
          (buffer, pos) = fold (\<lambda>c (b, pos). (b[pos := value ! c], pos + 1)) [0 ..< length value] (buffer, pos)
      in (buffer, pos - idx))"

section \<open>I64Codec\<close>

definition GetI64ValueLength :: "u64 \<Rightarrow> nat" where
  "GetI64ValueLength value = (if value = 0 then 1 else if value < 64 then 8 else 8 + Log2 value)"

definition GetI64ValueLength_at :: "u64 list \<Rightarrow> nat \<Rightarrow> nat" where
  "GetI64ValueLength_at buffer start =
     (let len = GetBits buffer start 8
      in if len AND 1 = 0 then 1 else if len AND 2 = 0 then 8 else unat (drop_bit 2 len) + 8)"

definition EncodeI64 :: "u64 list \<Rightarrow> u64 \<Rightarrow> nat \<Rightarrow> u64 list \<times> nat" where
  "EncodeI64 buffer value start =
     (if value = 0 then (SetBit buffer start False, 1)
      else if value < 64 then
        (let v = push_bit 2 value + 1 in (SetBits buffer start v 8, 8))
      else
        (let len = Log2 value;
             v = push_bit 2 (of_nat len) + 3;
             buffer = SetBits buffer start v 8;
             buffer = SetBits buffer (start + 8) value len
         in (buffer, 8 + len)))"

definition DecodeI64 :: "u64 list \<Rightarrow> nat \<Rightarrow> u64 \<times> nat" where
  "DecodeI64 buffer start =
     (let len = GetBits buffer start 8
      in if len AND 1 = 0 then (0, 1)
         else if len AND 2 = 0 then (drop_bit 2 len, 8)
         else (let len = unat (drop_bit 2 len) in (GetBits buffer (start + 8) len, len + 8)))"

section \<open>EliasDeltaCodec\<close>

definition GetEliasDeltaValueLength :: "u64 \<Rightarrow> nat" where
  "GetEliasDeltaValueLength value =
     (let len = Log2 value; length_length = Log2 (of_nat len) - 1 in length_length * 2 + len)"

definition EncodeEliasDelta :: "u64 list \<Rightarrow> u64 \<Rightarrow> nat \<Rightarrow> u64 list \<times> nat" where
  "EncodeEliasDelta buffer value start =
     (if value > 1 then
        (let len = Log2 value;
             length_length = Log2 (of_nat len) - 1;
             buffer = FillZero buffer start (start + length_length);
             length0 = push_bit 1 (of_nat len) + 1;
             start = start + length_length;
             buffer = SetBits buffer start length0 (length_length + 1);
             start = start + (length_length + 1);
             buffer = SetBits buffer start value (len - 1)
         in (buffer, length_length * 2 + len))
      else (SetBits buffer start 1 1, 1))"

definition DecodeEliasDelta :: "u64 list \<Rightarrow> nat \<Rightarrow> nat \<Rightarrow> u64 \<times> nat" where
  "DecodeEliasDelta buffer start limit =
     (if TestBit buffer start then (1, 1)
      else
        (let trailing_zeroes = CountTrailingZeroes buffer start limit;
             start = start + trailing_zeroes;
             len = GetBits buffer start (trailing_zeroes + 1);
             len = drop_bit 1 len;
             len = len + push_bit trailing_zeroes 1;
             start = start + (trailing_zeroes + 1);
             value = GetBits buffer start (unat (len - 1));
             value = value + push_bit (unat (len - 1)) 1
         in (value, 2 * trailing_zeroes + unat len)))"

definition DecodeEliasDeltaLength :: "u64 list \<Rightarrow> nat \<Rightarrow> nat \<Rightarrow> nat" where
  "DecodeEliasDeltaLength buffer start limit =
     (if TestBit buffer start then 1
      else
        (let trailing_zeroes = CountTrailingZeroes buffer start limit;
             start = start + trailing_zeroes;
             len = GetBits buffer start (trailing_zeroes + 1);
             len = drop_bit 1 len;
             len = len + push_bit trailing_zeroes 1
         in 2 * trailing_zeroes + unat len))"

definition Elias_length :: "u64 \<Rightarrow> nat" where
  "Elias_length value = GetEliasDeltaValueLength (value + 1)"

definition Elias_decode :: "u64 list \<Rightarrow> nat \<Rightarrow> nat \<Rightarrow> u64 \<times> nat" where
  "Elias_decode buffer idx limit =
     (let (value, len) = DecodeEliasDelta buffer idx limit in (value - 1, len))"

definition Elias_encode :: "u64 list \<Rightarrow> u64 \<Rightarrow> nat \<Rightarrow> u64 list \<times> nat" where
  "Elias_encode buffer value idx = EncodeEliasDelta buffer (value + 1) idx"

section \<open>What a codec promises\<close>

text \<open>
  \<open>code v\<close> is the bit string that represents \<open>v\<close>. An encoder writes it and nothing else, a decoder
  recovers the value from it at any position of any buffer, whatever surrounds it.
\<close>

fun encode_all :: "('b \<Rightarrow> 'v \<Rightarrow> nat \<Rightarrow> 'b \<times> nat) \<Rightarrow> 'b \<Rightarrow> 'v list \<Rightarrow> nat \<Rightarrow> 'b \<times> nat" where
  \<comment> \<open>append the codes of a list of values from position \<open>i\<close> on\<close>
  "encode_all enc b [] i = (b, i)"
| "encode_all enc b (v # vs) i = (let (b, n) = enc b v i in encode_all enc b vs (i + n))"

fun decode_all :: "('b \<Rightarrow> nat \<Rightarrow> 'v \<times> nat) \<Rightarrow> 'b \<Rightarrow> nat \<Rightarrow> nat \<Rightarrow> 'v list" where
  \<comment> \<open>read \<open>n\<close> values one after another\<close>
  "decode_all dec b 0 i = []"
| "decode_all dec b (Suc n) i = (let (v, l) = dec b i in v # decode_all dec b n (i + l))"

locale value_codec =
  fixes encode :: "'w::len word list \<Rightarrow> 'v \<Rightarrow> nat \<Rightarrow> 'w word list \<times> nat"
    and decode :: "'w word list \<Rightarrow> nat \<Rightarrow> 'v \<times> nat"
    and len_at :: "'w word list \<Rightarrow> nat \<Rightarrow> nat"
    and len_of :: "'v \<Rightarrow> nat"
    and valid :: "'v \<Rightarrow> bool"
    and code :: "'v \<Rightarrow> nat \<Rightarrow> bool"
    and ElementSize :: nat
  assumes len_pos: "valid v \<Longrightarrow> 0 < len_of v"
    and encode_len: "valid v \<Longrightarrow> snd (encode b v i) = len_of v"
    and encode_length: "length (fst (encode b v i)) = length b"
    and encode_bits: "valid v \<Longrightarrow> ElementSize * (i + len_of v) \<le> bufsize b \<Longrightarrow> j < bufsize b \<Longrightarrow>
      bufbit (fst (encode b v i)) j =
        (if ElementSize * i \<le> j \<and> j < ElementSize * (i + len_of v) then code v (j - ElementSize * i) else bufbit b j)"
    and decode_code: "valid v \<Longrightarrow> ElementSize * (i + len_of v) \<le> bufsize b \<Longrightarrow>
      (\<And>k. k < ElementSize * len_of v \<Longrightarrow> bufbit b (ElementSize * i + k) = code v k) \<Longrightarrow>
      decode b i = (v, len_of v) \<and> len_at b i = len_of v"
begin

lemma encode_bufsize: "bufsize (fst (encode b v i)) = bufsize b"
  by (simp add: bufsize_def encode_length)

lemma roundtrip:
  assumes "valid v" and "ElementSize * (i + len_of v) \<le> bufsize b"
  shows "decode (fst (encode b v i)) i = (v, len_of v) \<and> len_at (fst (encode b v i)) i = len_of v"
proof (rule decode_code [OF assms(1)])
  fix k assume "k < ElementSize * len_of v"
  then have k: "ElementSize * i + k < ElementSize * (i + len_of v)" by (simp add: add_mult_distrib2)
  then have "ElementSize * i + k < bufsize b" using assms(2) by simp
  then show "bufbit (fst (encode b v i)) (ElementSize * i + k) = code v k"
    using encode_bits [OF assms] k by simp
qed (simp add: assms encode_bufsize)

lemma encode_all_frame:
  assumes "\<forall>v \<in> set vs. valid v" and "ElementSize * (i + sum_list (map len_of vs)) \<le> bufsize b"
  shows "length (fst (encode_all encode b vs i)) = length b
    \<and> snd (encode_all encode b vs i) = i + sum_list (map len_of vs)
    \<and> (\<forall>j < bufsize b. j < ElementSize * i \<or> ElementSize * (i + sum_list (map len_of vs)) \<le> j \<longrightarrow>
         bufbit (fst (encode_all encode b vs i)) j = bufbit b j)"
  using assms
proof (induction vs arbitrary: b i)
  case (Cons v vs)
  obtain b' n where e: "encode b v i = (b', n)" by force
  have v: "valid v" and n: "n = len_of v" using Cons.prems e encode_len [of v b i] by auto
  have fit: "ElementSize * (i + n) \<le> bufsize b"
    using Cons.prems(2) n by (simp add: add_mult_distrib2)
  have b': "bufsize b' = bufsize b" "length b' = length b"
    using encode_bufsize [of b v i] encode_length [of b v i] e by simp_all
  have frame: "bufbit b' j = bufbit b j" if "j < bufsize b" "j < ElementSize * i \<or> ElementSize * (i + n) \<le> j" for j
    using encode_bits [OF v, of i b j] fit n e that by auto
  have ih: "length (fst (encode_all encode b' vs (i + n))) = length b'
    \<and> snd (encode_all encode b' vs (i + n)) = i + n + sum_list (map len_of vs)
    \<and> (\<forall>j < bufsize b'. j < ElementSize * (i + n) \<or> ElementSize * (i + n + sum_list (map len_of vs)) \<le> j \<longrightarrow>
         bufbit (fst (encode_all encode b' vs (i + n))) j = bufbit b' j)"
    using Cons.prems b' n by (intro Cons.IH) (simp_all add: add.assoc)
  have le: "ElementSize * i \<le> ElementSize * (i + n)"
    "ElementSize * (i + n) \<le> ElementSize * (i + n + sum_list (map len_of vs))" by simp_all
  have "bufbit (fst (encode_all encode b' vs (i + n))) j = bufbit b j"
    if "j < bufsize b" and "j < ElementSize * i \<or> ElementSize * (i + n + sum_list (map len_of vs)) \<le> j" for j
  proof -
    have "j < ElementSize * (i + n) \<or> ElementSize * (i + n + sum_list (map len_of vs)) \<le> j"
      and "j < ElementSize * i \<or> ElementSize * (i + n) \<le> j" using that(2) le by linarith+
    then show ?thesis using ih frame that(1) b' by metis
  qed
  then show ?case using ih b' n e by (simp add: add.assoc)
qed simp

lemma decode_all_encode_all:
  assumes "\<forall>v \<in> set vs. valid v" and "ElementSize * (i + sum_list (map len_of vs)) \<le> bufsize b"
  shows "decode_all decode (fst (encode_all encode b vs i)) (length vs) i = vs"
  using assms
proof (induction vs arbitrary: b i)
  case (Cons v vs)
  obtain b' n where e: "encode b v i = (b', n)" by force
  have v: "valid v" and n: "n = len_of v" using Cons.prems e encode_len [of v b i] by auto
  have fit: "ElementSize * (i + len_of v) \<le> bufsize b"
    using Cons.prems(2) by (simp add: add_mult_distrib2)
  have b': "bufsize b' = bufsize b" using encode_bufsize [of b v i] e by simp
  let ?r = "fst (encode_all encode b' vs (i + n))"
  have fit': "ElementSize * (i + n + sum_list (map len_of vs)) \<le> bufsize b'"
    using Cons.prems(2) b' n by (simp add: add.assoc)
  have frame: "length ?r = length b'"
    "\<And>j. j < bufsize b' \<Longrightarrow> j < ElementSize * (i + n) \<Longrightarrow> bufbit ?r j = bufbit b' j"
    using encode_all_frame [of vs "i + n" b'] Cons.prems(1) fit' by auto
  have "decode ?r i = (v, len_of v) \<and> len_at ?r i = len_of v"
  proof (rule decode_code [OF v])
    fix k assume "k < ElementSize * len_of v"
    then have k: "ElementSize * i + k < ElementSize * (i + n)" by (simp add: n add_mult_distrib2)
    then have "ElementSize * i + k < bufsize b" using fit n by simp
    then show "bufbit ?r (ElementSize * i + k) = code v k"
      using frame(2) k b' encode_bits [OF v fit, of "ElementSize * i + k"] e n by simp
  qed (use frame(1) fit b' in \<open>simp add: bufsize_def\<close>)
  then show ?case using Cons.IH [of "i + n" b'] Cons.prems(1) fit' e n by simp
qed simp

text \<open>A code that is moved, inside the buffer or to another one, still decodes to its value.\<close>

lemma decode_moved:
  assumes "valid v" and "ElementSize * (i + len_of v) \<le> bufsize b" and "ElementSize * (j + len_of v) \<le> bufsize b'"
    and "\<And>k. k < ElementSize * len_of v \<Longrightarrow>
      bufbit b' (ElementSize * j + k) = bufbit (fst (encode b v i)) (ElementSize * i + k)"
  shows "decode b' j = (v, len_of v)"
proof -
  have "bufbit b' (ElementSize * j + k) = code v k" if "k < ElementSize * len_of v" for k
  proof -
    have k: "ElementSize * i + k < ElementSize * (i + len_of v)" using that by (simp add: add_mult_distrib2)
    then have "ElementSize * i + k < bufsize b" using assms(2) by simp
    then show ?thesis using assms(4) [OF that] encode_bits [OF assms(1,2)] k by simp
  qed
  then show ?thesis using decode_code [OF assms(1,3)] by blast
qed

end

section \<open>Bytes of a value\<close>

definition wr8 :: "u8 list \<Rightarrow> nat \<Rightarrow> nat \<Rightarrow> u64 \<Rightarrow> u8 list \<Rightarrow> bool" where
  \<comment> \<open>\<open>b'\<close> is \<open>b\<close> with the low \<open>n\<close> bytes of \<open>v\<close> written at byte \<open>i\<close>\<close>
  "wr8 b i n v b' \<longleftrightarrow> length b' = length b \<and>
     (\<forall>j < bufsize b. bufbit b' j = (if 8 * i \<le> j \<and> j < 8 * (i + n) then bit v (j - 8 * i) else bufbit b j))"

lemma bufbit_set_byte:
  assumes "j < bufsize (b :: u8 list)"
  shows "bufbit (b[i := w]) j = (if 8 * i \<le> j \<and> j < 8 * i + 8 then bit w (j - 8 * i) else bufbit b j)"
  using writes_cell [of b i w] assms by (simp add: writes_def)

lemma byte_of_bits:
  assumes "\<And>k. k < 8 \<Longrightarrow> bufbit (b :: u8 list) (8 * i + k) = bit h k"
  shows "b ! i = h"
  by (rule bit_word_eqI) (use assms in \<open>simp add: bufbit_def\<close>)

definition le_len :: "u64 \<Rightarrow> nat" where
  "le_len v = GetI7_bytes v 0"

lemma GetI7_bytes_add: "GetI7_bytes v (m + n) = m + GetI7_bytes v n"
proof (induction v n rule: GetI7_bytes.induct)
  case (1 v n)
  then show ?case by (cases "0 < v") (simp_all add: GetI7_bytes.simps [of v])
qed

lemma GetI7_bytes: "GetI7_bytes v n = n + le_len v"
  using GetI7_bytes_add [of v n 0] by (simp add: le_len_def)

lemma le_len_0 [simp]: "le_len 0 = 0"
  by (simp add: le_len_def GetI7_bytes.simps)

lemma le_len_pos: "0 < v \<Longrightarrow> le_len v = Suc (le_len (drop_bit 8 v))"
  unfolding le_len_def [of v] GetI7_bytes.simps [of v 0] by (simp add: GetI7_bytes)

lemma unat_drop8: "unat (drop_bit 8 v) = unat v div 256" for v :: u64
  by (simp add: unat_drop_bit_eq drop_bit_eq_div [where ?'a = nat])

lemma le_len_le: "unat v < 2 ^ (8 * m) \<Longrightarrow> le_len v \<le> m"
proof (induction m arbitrary: v)
  case (Suc m)
  have "unat (drop_bit 8 v) < 2 ^ (8 * m)"
    using Suc.prems unfolding unat_drop8 by (simp add: less_mult_imp_div_less mult.commute power_add)
  then show ?case using Suc.IH by (cases "0 < v") (simp_all add: le_len_pos word_neq_0_conv [symmetric])
qed (simp add: unat_eq_0)

lemma le_len_le8: "le_len v \<le> 8"
  using le_len_le [of v 8] unsigned_less [of v, where 'a = nat] by simp

lemma le_len_bound: "unat v < 2 ^ (8 * le_len v)"
proof (induction "le_len v" arbitrary: v)
  case 0
  then have "v = 0" using le_len_pos [of v] by (metis nat.simps(3) word_neq_0_conv)
  then show ?case by simp
next
  case (Suc n)
  then have pos: "0 < v" by (metis le_len_0 nat.simps(3) word_neq_0_conv)
  have "unat (drop_bit 8 v) < 2 ^ (8 * le_len (drop_bit 8 v))" using Suc le_len_pos [OF pos] by simp
  then have "unat v < 256 * 2 ^ (8 * le_len (drop_bit 8 v))"
    unfolding unat_drop8 by (simp add: div_less_iff_less_mult mult.commute)
  then show ?case by (simp add: le_len_pos [OF pos] power_add)
qed

lemma put_bytes:
  "snd (put_bytes b v i n) = n + le_len v \<and> wr8 b i (le_len v) v (fst (put_bytes b v i n))"
proof (induction b v i n rule: put_bytes.induct)
  case (1 b v i n)
  show ?case
  proof (cases "0 < v")
    case True
    let ?b = "b[i := ucast (v AND 0xFF)]"
    let ?r = "fst (put_bytes ?b (drop_bit 8 v) (i + 1) (n + 1))"
    have ih: "snd (put_bytes ?b (drop_bit 8 v) (i + 1) (n + 1)) = n + 1 + le_len (drop_bit 8 v)"
      "wr8 ?b (i + 1) (le_len (drop_bit 8 v)) (drop_bit 8 v) ?r" using "1.IH" [OF True] by auto
    have "bufbit ?r j = (if 8 * i \<le> j \<and> j < 8 * (i + le_len v) then bit v (j - 8 * i) else bufbit b j)"
      if j: "j < bufsize b" for j
    proof -
      have r: "bufbit ?r j = (if 8 * (i + 1) \<le> j \<and> j < 8 * (i + 1 + le_len (drop_bit 8 v))
           then bit (drop_bit 8 v) (j - 8 * (i + 1)) else bufbit ?b j)"
        using ih(2) j by (simp add: wr8_def)
      have lo: "bit (ucast (v AND 0xFF) :: u8) k = bit v k" if "k < 8" for k
        using that bit_mask_iff [of 8 k, where 'a = "64 word"]
        by (simp add: bit_ucast_iff bit_and_iff mask_eq_exp_minus_1)
      show ?thesis
      proof (cases "8 * (i + 1) \<le> j")
        case True
        then have "8 + (j - 8 * (i + 1)) = j - 8 * i" by simp
        then show ?thesis using r True j \<open>0 < v\<close>
          by (simp add: le_len_pos bit_drop_bit_eq bufbit_set_byte add.commute)
      next
        case False
        then show ?thesis using r j lo \<open>0 < v\<close> by (auto simp: le_len_pos bufbit_set_byte)
      qed
    qed
    then show ?thesis using ih True le_len_pos [OF True]
      by (simp add: put_bytes.simps [of b v] wr8_def)
  next
    case False
    then have "v = 0" by (simp add: word_neq_0_conv [symmetric])
    then show ?thesis using put_bytes.simps [of b 0 i n] by (auto simp: wr8_def)
  qed
qed


lemma wr8_step:
  assumes "wr8 b i n v b'"
  shows "wr8 b i (Suc n) v (b'[i + n := ucast (drop_bit (8 * n) v)])"
proof -
  have len: "length b' = length b" using assms by (simp add: wr8_def)
  have "bufbit (b'[i + n := ucast (drop_bit (8 * n) v)]) j =
      (if 8 * i \<le> j \<and> j < 8 * (i + Suc n) then bit v (j - 8 * i) else bufbit b j)" if j: "j < bufsize b" for j
  proof -
    have set: "bufbit (b'[i + n := ucast (drop_bit (8 * n) v)]) j =
      (if 8 * (i + n) \<le> j \<and> j < 8 * (i + n) + 8 then bit (ucast (drop_bit (8 * n) v) :: u8) (j - 8 * (i + n)) else bufbit b' j)"
      using j len by (intro bufbit_set_byte) (simp add: bufsize_def)
    show ?thesis
    proof (cases "8 * (i + n) \<le> j \<and> j < 8 * (i + n) + 8")
      case True
      then have "8 * n + (j - 8 * (i + n)) = j - 8 * i" and "j - 8 * (i + n) < 8" by auto
      then show ?thesis unfolding set using True by (simp add: bit_ucast_iff bit_drop_bit_eq)
    next
      case False
      then show ?thesis unfolding set using assms j by (auto simp: wr8_def)
    qed
  qed
  then show ?thesis using len by (simp add: wr8_def)
qed

lemma serialize: "snd (serialize b v i) = bytes v \<and> wr8 b i (bytes v) v (fst (serialize b v i))"
proof -
  have "wr8 b i n v (fold (\<lambda>c b. b[i + c := ucast (drop_bit (8 * c) v)]) [0 ..< n] b)" for n
  proof (induction n)
    case (Suc n)
    from wr8_step [OF this] show ?case by simp
  qed (auto simp: wr8_def)
  then show ?thesis by (simp add: serialize_def Let_def)
qed

lemma deserialize:
  "bit (deserialize b 0 i n) k \<longleftrightarrow> k < 64 \<and> k < 8 * n \<and> bufbit b (8 * i + k)"
proof (induction n)
  case (Suc n)
  have "bit (push_bit (8 * n) (ucast (b ! (i + n)) :: u64)) k \<longleftrightarrow> k < 64 \<and> 8 * n \<le> k \<and> k < 8 * n + 8 \<and> bufbit b (8 * i + k)"
  proof (cases "8 * n \<le> k \<and> k < 8 * n + 8")
    case True
    then have "8 * i + k = 8 * (i + n) + (k - 8 * n)" and "k - 8 * n < 8" by auto
    then have "bufbit b (8 * i + k) = bit (b ! (i + n)) (k - 8 * n)"
      using bufbit_add [of "8 * (i + n)" "k - 8 * n" b] by simp
    then show ?thesis using True by (auto simp: bit_push_bit_iff bit_ucast_iff)
  next
    case False
    then show ?thesis using bit_imp_le_length [of "b ! (i + n)" "k - 8 * n"]
      by (auto simp: bit_push_bit_iff bit_ucast_iff)
  qed
  then show ?case using Suc by (auto simp: deserialize_def bit_or_iff)
qed (simp add: deserialize_def)

lemma get_bytes: "get_bytes b i n = deserialize b 0 i n"
  by (simp add: get_bytes_def deserialize_def)

lemma deserialize_code:
  assumes "unat v < 2 ^ (8 * n)" and "\<And>k. k < 8 * n \<Longrightarrow> bufbit b (8 * i + k) = bit v k"
  shows "deserialize b 0 i n = v"
proof (rule bit_word_eqI)
  fix k assume "k < LENGTH(64)"
  moreover have "\<not> bit v k" if "8 * n \<le> k"
    using less_exp_not_bit [OF assms(1) that] by (simp add: bit_unsigned_iff)
  ultimately show "bit (deserialize b 0 i n) k = bit v k"
    using assms(2) [of k] by (cases "k < 8 * n") (auto simp: deserialize)
qed

lemma bytes_bounds:
  assumes "v \<noteq> 0"
  shows "unat v < 2 ^ (8 * bytes v)" and "0 < bytes v" and "bytes v \<le> 8"
    and "unat v < 2 ^ (8 * m) \<Longrightarrow> bytes v \<le> m"
proof -
  have log: "msb v + 1 = Log2 v" using Log2_bounds(1,2) [OF assms] by (simp add: msb_def Log2_def)
  have "x AND 7 = x mod 8" for x :: nat
    using take_bit_eq_mask [of 3 x] take_bit_eq_mod [of 3 x] by (simp add: mask_eq_exp_minus_1)
  then have bytes: "bytes v = Log2 v div 8 + (if Log2 v mod 8 \<noteq> 0 then 1 else 0)"
    unfolding bytes_def log Let_def by (simp add: drop_bit_eq_div)
  have "Log2 v \<le> 8 * bytes v" unfolding bytes by auto
  then show "unat v < 2 ^ (8 * bytes v)"
    using Log2_bounds(4) [OF assms] power_increasing [of "Log2 v" "8 * bytes v" "2 :: nat"] by linarith
  show "0 < bytes v" using Log2_bounds(1) [OF assms] unfolding bytes by (auto simp: div_eq_0_iff)
  have mono: "bytes v \<le> m" if "Log2 v \<le> 8 * m" for m
  proof (cases "Log2 v mod 8 = 0")
    case False
    then have "8 * (Log2 v div 8) < 8 * m" using that mult_div_mod_eq [of 8 "Log2 v"] by linarith
    then show ?thesis unfolding bytes by simp
  qed (use that bytes in auto)
  then show "bytes v \<le> 8" using Log2_bounds(2) [OF assms] by simp
  show "bytes v \<le> m" if "unat v < 2 ^ (8 * m)"
  proof (rule mono)
    have "(2 :: nat) ^ (Log2 v - 1) < 2 ^ (8 * m)" using Log2_bounds(3) [OF assms] that by linarith
    then have "Log2 v - 1 < 8 * m" by simp
    then show "Log2 v \<le> 8 * m" by simp
  qed
qed


section \<open>The byte codecs keep their promise\<close>

text \<open>Code words: one or two header bytes followed by the bytes of the value.\<close>

definition hdr_code :: "u8 \<Rightarrow> u64 \<Rightarrow> nat \<Rightarrow> bool" where
  "hdr_code h v k = (if k < 8 then bit h k else bit v (k - 8))"

definition hdr2_code :: "u8 \<Rightarrow> u8 \<Rightarrow> u64 \<Rightarrow> nat \<Rightarrow> bool" where
  "hdr2_code h l v k = (if k < 8 then bit h k else if k < 16 then bit l (k - 8) else bit v (k - 16))"

lemma wr8_hdr:
  assumes "wr8 (b[i := x]) (i + 1) n v b'" and "j < bufsize b"
  shows "bufbit (b'[i := h]) j =
    (if 8 * i \<le> j \<and> j < 8 * (i + Suc n) then hdr_code h v (j - 8 * i) else bufbit b j)"
proof -
  have len: "length b' = length b" "bufsize b' = bufsize b" using assms(1) by (simp_all add: wr8_def bufsize_def)
  have b': "bufbit b' j = (if 8 * (i + 1) \<le> j \<and> j < 8 * (i + 1 + n) then bit v (j - 8 * (i + 1)) else bufbit (b[i := x]) j)"
    using assms by (simp add: wr8_def)
  have eq: "j - 8 * i - 8 = j - 8 * (i + 1)" by simp
  show ?thesis
  proof (cases "8 * i \<le> j \<and> j < 8 * i + 8")
    case True
    then have "j - 8 * i < 8" by auto
    then show ?thesis using True len assms(2) by (simp add: bufbit_set_byte hdr_code_def)
  next
    case False
    then show ?thesis using b' len assms(2) by (auto simp: bufbit_set_byte hdr_code_def eq add.commute)
  qed
qed

lemma hdr_code_read:
  assumes "\<And>k. k < 8 * Suc n \<Longrightarrow> bufbit b (8 * i + k) = hdr_code h v k" and "unat v < 2 ^ (8 * n)"
  shows "b ! i = h" and "deserialize b 0 (i + 1) n = v"
proof -
  show "b ! i = h" by (rule byte_of_bits) (use assms(1) in \<open>simp add: hdr_code_def\<close>)
  have "bufbit b (8 * (i + 1) + k) = bit v k" if "k < 8 * n" for k
    using assms(1) [of "8 + k"] that by (simp add: hdr_code_def ac_simps)
  then show "deserialize b 0 (i + 1) n = v" by (rule deserialize_code [OF assms(2)])
qed

lemma unat_small: "n < 256 \<Longrightarrow> unat (of_nat n :: u8) = n"
  by (simp add: unat_of_nat)

definition Exint_code :: "u64 \<Rightarrow> nat \<Rightarrow> bool" where
  "Exint_code v = hdr_code (of_nat (le_len v)) v"

interpretation exint: value_codec EncodeExint DecodeExint Exint_length GetExintValueLength "\<lambda>_. True" Exint_code 8
proof
  fix b b' :: "u8 list" and v :: u64 and i j :: nat
  have enc: "EncodeExint b v i = ((fst (put_bytes (b[i := 0]) v (i + 1) 0))[i := of_nat (le_len v)], le_len v + 1)"
    using put_bytes [of "b[i := 0]" v "i + 1" 0] by (simp add: EncodeExint_def Let_def case_prod_beta)
  have len: "GetExintValueLength v = Suc (le_len v)" by (simp add: GetExintValueLength_def GetI7_bytes)
  show "0 < GetExintValueLength v" by (simp add: len)
  show "snd (EncodeExint b v i) = GetExintValueLength v" by (simp add: enc len)
  show "length (fst (EncodeExint b v i)) = length b"
    using put_bytes [of "b[i := 0]" v "i + 1" 0] by (simp add: enc wr8_def)
  show "bufbit (fst (EncodeExint b v i)) j =
      (if 8 * i \<le> j \<and> j < 8 * (i + GetExintValueLength v) then Exint_code v (j - 8 * i) else bufbit b j)"
    if "j < bufsize b"
    using wr8_hdr [of b i 0 "le_len v" v _ j "of_nat (le_len v)"] put_bytes [of "b[i := 0]" v "i + 1" 0] that
    by (simp add: enc len Exint_code_def)
  show "DecodeExint b i = (v, GetExintValueLength v) \<and> Exint_length b i = GetExintValueLength v"
    if c: "\<And>k. k < 8 * GetExintValueLength v \<Longrightarrow> bufbit b (8 * i + k) = Exint_code v k"
  proof -
    have "b ! i = of_nat (le_len v)" and "deserialize b 0 (i + 1) (le_len v) = v"
      using hdr_code_read [of "le_len v" b i "of_nat (le_len v)" v] c le_len_bound by (simp_all add: len Exint_code_def)
    then show ?thesis using le_len_le8 [of v] by (simp add: DecodeExint_def Exint_length_def len get_bytes unat_small)
  qed
qed


definition I7_code :: "u64 \<Rightarrow> nat \<Rightarrow> bool" where
  "I7_code v = (if v < 128 then hdr_code (ucast v) 0 else hdr_code (of_nat (le_len v) + 128) v)"

lemma single_byte:
  assumes "j < bufsize (b :: u8 list)"
  shows "bufbit (b[i := h]) j = (if 8 * i \<le> j \<and> j < 8 * (i + 1) then hdr_code h v (j - 8 * i) else bufbit b j)"
  using assms by (auto simp: bufbit_set_byte hdr_code_def)

lemma u8_hdr128:
  assumes "n < 128"
  shows "unat (of_nat n + 128 :: u8) = n + 128" and "\<not> (of_nat n + 128 :: u8) < 128"
proof -
  have "of_nat n + 128 = (of_nat (n + 128) :: u8)" by simp
  then show u: "unat (of_nat n + 128 :: u8) = n + 128" using assms unat_small [of "n + 128"] by (simp del: of_nat_add)
  show "\<not> (of_nat n + 128 :: u8) < 128" by (simp add: word_less_nat_alt u)
qed

lemma unat_ucast8: "unat (ucast v :: u8) = unat v mod 256" for v :: u64
  by (simp only: unsigned_ucast_eq unsigned_take_bit_eq) (simp add: take_bit_eq_mod)

lemma unat_ucast64: "unat (ucast h :: u64) = unat h" for h :: u8
  using unsigned_less [of h, where 'a = nat]
  by (simp add: unsigned_ucast_eq unsigned_take_bit_eq take_bit_nat_eq_self)

lemma u8_small_value:
  assumes "v < 128"
  shows "(ucast v :: u8) < 128" and "ucast (ucast v :: u8) = (v :: u64)"
proof -
  have v: "unat v < 128" using assms by (simp add: word_less_nat_alt)
  then have "unat (ucast v :: u8) = unat v" by (simp add: unat_ucast8)
  then show "(ucast v :: u8) < 128" and "ucast (ucast v :: u8) = (v :: u64)"
    using v by (simp_all add: word_less_nat_alt word_unat_eq_iff unat_ucast64)
qed

interpretation i7: value_codec EncodeI7 DecodeI7 I7_length GetI7ValueLength "\<lambda>_. True" I7_code 8
proof
  fix b b' :: "u8 list" and v :: u64 and i j :: nat
  have enc: "EncodeI7 b v i = (if v < 128 then (b[i := ucast v], 1)
      else ((fst (put_bytes (b[i := 0]) v (i + 1) 0))[i := of_nat (le_len v) + 128], le_len v + 1))"
    using put_bytes [of "b[i := 0]" v "i + 1" 0] by (simp add: EncodeI7_def Let_def case_prod_beta)
  have len: "GetI7ValueLength v = (if v < 128 then 1 else Suc (le_len v))" by (simp add: GetI7ValueLength_def GetI7_bytes)
  show "0 < GetI7ValueLength v" by (simp add: len)
  show "snd (EncodeI7 b v i) = GetI7ValueLength v" by (simp add: enc len)
  show "length (fst (EncodeI7 b v i)) = length b"
    using put_bytes [of "b[i := 0]" v "i + 1" 0] by (simp add: enc wr8_def)
  show "bufbit (fst (EncodeI7 b v i)) j =
      (if 8 * i \<le> j \<and> j < 8 * (i + GetI7ValueLength v) then I7_code v (j - 8 * i) else bufbit b j)"
    if "j < bufsize b"
    using wr8_hdr [of b i 0 "le_len v" v _ j "of_nat (le_len v) + 128"] put_bytes [of "b[i := 0]" v "i + 1" 0] that
      single_byte [OF that, of i "ucast v" 0]
    by (cases "v < 128") (simp_all add: enc len I7_code_def)
  show "DecodeI7 b i = (v, GetI7ValueLength v) \<and> I7_length b i = GetI7ValueLength v"
    if c: "\<And>k. k < 8 * GetI7ValueLength v \<Longrightarrow> bufbit b (8 * i + k) = I7_code v k"
  proof (cases "v < 128")
    case True
    then have "b ! i = ucast v" using hdr_code_read(1) [of 0 b i "ucast v" 0] c by (simp add: len I7_code_def)
    then show ?thesis using True u8_small_value [OF True] by (simp add: DecodeI7_def I7_length_def len)
  next
    case False
    then have "b ! i = of_nat (le_len v) + 128" and "deserialize b 0 (i + 1) (le_len v) = v"
      using hdr_code_read [of "le_len v" b i "of_nat (le_len v) + 128" v] c le_len_bound by (simp_all add: len I7_code_def)
    then show ?thesis using False le_len_le8 [of v] u8_hdr128 [of "le_len v"]
      by (simp add: DecodeI7_def I7_length_def len get_bytes)
  qed
qed

definition U64_code :: "u64 \<Rightarrow> nat \<Rightarrow> bool" where
  "U64_code v = (if unat v < 247 then hdr_code (ucast (v + 1)) 0 else hdr_code (of_nat (bytes v + 248)) v)"

text \<open>
  The header byte of the unsigned codec holds \<open>248 + len\<close>; it has room for seven value bytes. The
  contract holds for values below \<open>2 ^ 56\<close>.
\<close>

interpretation u64c: value_codec U64_encode U64_decode U64_length_at U64_length "\<lambda>v. unat v < 2 ^ 56" U64_code 8
proof
  fix b b' :: "u8 list" and v :: u64 and i j :: nat
  have enc: "U64_encode b v i = (if unat v < 247 then (b[i := ucast (v + 1)], 1)
      else ((fst (serialize b v (i + 1)))[i := of_nat (bytes v + 248)], bytes v + 1))"
    using serialize [of b v "i + 1"] by (simp add: U64_encode_def Let_def case_prod_beta UpperBound_def)
  have len: "U64_length v = (if unat v < 247 then 1 else Suc (bytes v))" by (simp add: U64_length_def UpperBound_def)
  show "0 < U64_length v" by (simp add: len)
  show "snd (U64_encode b v i) = U64_length v" by (simp add: enc len)
  show "length (fst (U64_encode b v i)) = length b"
    using serialize [of b v "i + 1"] by (simp add: enc wr8_def)
  show "bufbit (fst (U64_encode b v i)) j =
      (if 8 * i \<le> j \<and> j < 8 * (i + U64_length v) then U64_code v (j - 8 * i) else bufbit b j)"
    if "j < bufsize b"
    using wr8_hdr [of b i "b ! i" "bytes v" v _ j "of_nat (bytes v + 248)"] serialize [of b v "i + 1"] that
      single_byte [OF that, of i "ucast (v + 1)" 0]
    by (cases "unat v < 247") (simp_all add: enc len U64_code_def)
  show "U64_decode b i = (v, U64_length v) \<and> U64_length_at b i = U64_length v"
    if v: "unat v < 2 ^ 56" and c: "\<And>k. k < 8 * U64_length v \<Longrightarrow> bufbit b (8 * i + k) = U64_code v k"
  proof (cases "unat v < 247")
    case True
    then have "b ! i = ucast (v + 1)" using hdr_code_read(1) [of 0 b i "ucast (v + 1)" 0] c by (simp add: len U64_code_def)
    moreover have "unat (v + 1) = unat v + 1" using True by (simp add: unat_word_ariths)
    ultimately have "unat (b ! i) = unat v + 1" using True by (simp add: unat_ucast8)
    then show ?thesis using True by (simp add: U64_decode_def U64_length_at_def len UpperBound_def Let_def)
  next
    case False
    then have nz: "v \<noteq> 0" by auto
    have "bytes v \<le> 7" using bytes_bounds(4) [OF nz, of 7] v by simp
    then have h: "unat (of_nat (bytes v + 248) :: u8) = bytes v + 248" by (intro unat_small) simp
    have "b ! i = of_nat (bytes v + 248)" and "deserialize b 0 (i + 1) (bytes v) = v"
      using hdr_code_read [of "bytes v" b i "of_nat (bytes v + 248)" v] c False bytes_bounds(1) [OF nz]
      by (simp_all add: len U64_code_def)
    then show ?thesis using False h by (simp add: U64_decode_def U64_length_at_def len UpperBound_def Let_def)
  qed
qed

text \<open>Signed values.\<close>

lemma word_of_sint: "word_of_int (sint v) = (v :: u64)"
  by simp

lemma uint_nonneg: "0 \<le>s v \<Longrightarrow> uint v = sint v" for v :: u64
proof -
  assume "0 \<le>s v"
  then have "0 \<le> sint v" by (simp add: word_sle_eq)
  moreover have "sint v < 2 ^ 63" using sint_less [of v] by simp
  ultimately have "uint (word_of_int (sint v) :: u64) = sint v"
    by (simp only: uint_word_of_int) simp
  then show "uint v = sint v" by simp
qed

lemma sless_nonneg: "0 \<le>s v \<Longrightarrow> v <s 126 \<longleftrightarrow> v < 126" for v :: u64
  by (simp add: word_sless_alt word_less_alt uint_nonneg)

lemma small_negative:
  fixes v :: u64
  assumes "\<not> 0 \<le>s v" and "- 127 <s v"
  shows "0 < unat (- v)" and "unat (- v) < 127"
proof -
  have s: "sint v < 0" "- 127 < sint v" using assms by (simp_all add: word_sle_eq word_sless_alt)
  have "uint (- v) = uint (word_of_int (- sint v) :: u64)" by simp
  also have "\<dots> = - sint v" using s by (simp only: uint_word_of_int) simp
  finally have "uint (- v) = - sint v" .
  then show "0 < unat (- v)" and "unat (- v) < 127" using s by (simp_all add: unat_eq_nat_uint)
qed

lemma wr8_hdr2:
  assumes "wr8 (b[i := h]) (i + 2) n v b'" and "j < bufsize b"
  shows "bufbit (b'[i + 1 := l]) j =
    (if 8 * i \<le> j \<and> j < 8 * (i + (2 + n)) then hdr2_code h l v (j - 8 * i) else bufbit b j)"
proof -
  have len: "length b' = length b" "bufsize b' = bufsize b" using assms(1) by (simp_all add: wr8_def bufsize_def)
  have b': "bufbit b' j = (if 8 * (i + 2) \<le> j \<and> j < 8 * (i + 2 + n) then bit v (j - 8 * (i + 2)) else bufbit (b[i := h]) j)"
    using assms by (simp add: wr8_def)
  have eq: "j - 8 * i - 16 = j - 8 * (i + 2)" "j - 8 * i - 8 = j - 8 * (i + 1)" by simp_all
  consider "j < 8 * i" | "8 * i \<le> j" "j < 8 * i + 8" | "8 * i + 8 \<le> j" "j < 8 * i + 16" | "8 * i + 16 \<le> j" by linarith
  then show ?thesis
    using b' len assms(2) by cases (auto simp: bufbit_set_byte hdr2_code_def eq add.commute)
qed

lemma hdr2_code_read:
  assumes "\<And>k. k < 8 * (2 + n) \<Longrightarrow> bufbit b (8 * i + k) = hdr2_code h l v k" and "unat v < 2 ^ (8 * n)"
  shows "b ! i = h" and "b ! (i + 1) = l" and "deserialize b 0 (i + 2) n = v"
proof -
  show "b ! i = h" by (rule byte_of_bits) (use assms(1) in \<open>simp add: hdr2_code_def\<close>)
  have "bufbit b (8 * (i + 1) + k) = bit l k" if "k < 8" for k
    using assms(1) [of "8 + k"] that by (simp add: hdr2_code_def ac_simps)
  then show "b ! (i + 1) = l" by (rule byte_of_bits)
  have "bufbit b (8 * (i + 2) + k) = bit v k" if "k < 8 * n" for k
    using assms(1) [of "16 + k"] that by (simp add: hdr2_code_def ac_simps)
  then show "deserialize b 0 (i + 2) n = v" by (rule deserialize_code [OF assms(2)])
qed

definition S64_code :: "u64 \<Rightarrow> nat \<Rightarrow> bool" where
  "S64_code v =
     (if 0 \<le>s v then (if v < 126 then hdr_code (ucast v) 0 else hdr2_code 252 (of_nat (bytes v)) v)
      else if - 127 <s v then hdr_code (ucast (- v + 125)) 0 else hdr2_code 253 (of_nat (bytes (- v))) (- v))"

lemma S64_encode_cases:
  "S64_encode b v i =
     (if 0 \<le>s v \<and> v < 126 then (b[i := ucast v], 1)
      else if 0 \<le>s v then ((fst (serialize (b[i := 252]) v (i + 2)))[i + 1 := of_nat (bytes v)], 2 + bytes v)
      else if - 127 <s v then (b[i := ucast (- v + 125)], 1)
      else ((fst (serialize (b[i := 253]) (- v) (i + 2)))[i + 1 := of_nat (bytes (- v))], 2 + bytes (- v)))"
  using serialize [of "b[i := 252]" v "i + 2"] serialize [of "b[i := 253]" "- v" "i + 2"]
  by (simp add: S64_encode_def Let_def case_prod_beta)

lemma S64_length_cases:
  "S64_length v = (if 0 \<le>s v \<and> v < 126 then 1 else if 0 \<le>s v then 2 + bytes v
      else if - 127 <s v then 1 else 2 + bytes (- v))"
  by (simp add: S64_length_def sless_nonneg)

interpretation s64c: value_codec S64_encode S64_decode S64_length_at S64_length "\<lambda>_. True" S64_code 8
proof
  fix b b' :: "u8 list" and v :: u64 and i j :: nat
  show "0 < S64_length v" by (simp add: S64_length_cases)
  show "snd (S64_encode b v i) = S64_length v" by (simp add: S64_encode_cases S64_length_cases)
  show "length (fst (S64_encode b v i)) = length b"
    using serialize [of "b[i := 252]" v "i + 2"] serialize [of "b[i := 253]" "- v" "i + 2"]
    by (simp add: S64_encode_cases wr8_def)
  show "bufbit (fst (S64_encode b v i)) j =
      (if 8 * i \<le> j \<and> j < 8 * (i + S64_length v) then S64_code v (j - 8 * i) else bufbit b j)"
    if "j < bufsize b"
  proof (cases "(0 \<le>s v \<and> v < 126) \<or> (\<not> 0 \<le>s v \<and> - 127 <s v)")
    case True
    then show ?thesis
      using single_byte [OF that, of i "ucast v" 0] single_byte [OF that, of i "ucast (- v + 125)" 0]
      by (auto simp: S64_encode_cases S64_length_cases S64_code_def)
  next
    case False
    then show ?thesis
      using wr8_hdr2 [of b i 252 "bytes v" v _ j "of_nat (bytes v)"] serialize [of "b[i := 252]" v "i + 2"]
        wr8_hdr2 [of b i 253 "bytes (- v)" "- v" _ j "of_nat (bytes (- v))"] serialize [of "b[i := 253]" "- v" "i + 2"] that
      by (cases "0 \<le>s v") (simp_all add: S64_encode_cases S64_length_cases S64_code_def)
  qed
  show "S64_decode b i = (v, S64_length v) \<and> S64_length_at b i = S64_length v"
    if c: "\<And>k. k < 8 * S64_length v \<Longrightarrow> bufbit b (8 * i + k) = S64_code v k"
  proof -
    consider "0 \<le>s v" "v < 126" | "0 \<le>s v" "\<not> v < 126" | "\<not> 0 \<le>s v" "- 127 <s v" | "\<not> 0 \<le>s v" "\<not> - 127 <s v" by blast
    then show ?thesis
    proof cases
      case 1
      then have "b ! i = ucast v" using hdr_code_read(1) [of 0 b i "ucast v" 0] c by (simp add: S64_length_cases S64_code_def)
      moreover have "v < 128" using 1(2) by (simp add: word_less_nat_alt)
      moreover have "unat (ucast v :: u8) < 126" using 1(2) by (simp add: word_less_nat_alt unat_ucast8)
      ultimately show ?thesis using 1 u8_small_value [of v]
        by (simp add: S64_decode_def S64_length_at_def S64_length_cases word_less_nat_alt)
    next
      case 2
      then have nz: "v \<noteq> 0" by auto
      note r = hdr2_code_read [of "bytes v" b i 252 "of_nat (bytes v)" v, OF _ bytes_bounds(1) [OF nz]]
      have "b ! i = 252" and "b ! (i + 1) = of_nat (bytes v)" and "deserialize b 0 (i + 2) (bytes v) = v"
        using r c 2 by (simp_all add: S64_length_cases S64_code_def)
      then show ?thesis using 2 bytes_bounds(3) [OF nz] unat_small [of "bytes v"]
        by (simp add: S64_decode_def S64_length_at_def S64_length_cases Let_def)
    next
      case 3
      let ?w = "- v + 125"
      have u: "unat ?w = unat (- v) + 125" using small_negative [OF 3] by (subst unat_word_ariths) simp
      have "b ! i = ucast ?w" using hdr_code_read(1) [of 0 b i "ucast ?w" 0] c 3 by (simp add: S64_length_cases S64_code_def)
      then have h: "unat (b ! i) = unat (- v) + 125" using u small_negative [OF 3] by (simp add: unat_ucast8)
      then have "ucast (b ! i) = ?w" using u by (simp only: word_unat_eq_iff unat_ucast64)
      then show ?thesis using 3 h small_negative [OF 3]
        by (simp add: S64_decode_def S64_length_at_def S64_length_cases word_less_nat_alt Let_def)
    next
      case 4
      then have nz: "- v \<noteq> 0" by (auto simp: word_sle_eq)
      note r = hdr2_code_read [of "bytes (- v)" b i 253 "of_nat (bytes (- v))" "- v", OF _ bytes_bounds(1) [OF nz]]
      have "b ! i = 253" and "b ! (i + 1) = of_nat (bytes (- v))" and "deserialize b 0 (i + 2) (bytes (- v)) = - v"
        using r c 4 by (simp_all add: S64_length_cases S64_code_def)
      then show ?thesis using 4 bytes_bounds(3) [OF nz] unat_small [of "bytes (- v)"]
        by (simp add: S64_decode_def S64_length_at_def S64_length_cases Let_def)
    qed
  qed
qed

text \<open>The codec of byte strings uses the signed codec for the length.\<close>

definition Bytes_code :: "u8 list \<Rightarrow> nat \<Rightarrow> bool" where
  "Bytes_code bs k =
     (let n = 8 * S64_length (of_nat (length bs))
      in if k < n then S64_code (of_nat (length bs)) k else bufbit bs (k - n))"

lemma copy_bytes:
  fixes b bs :: "u8 list"
  assumes "p + m \<le> length b" and "m \<le> length bs"
  shows "\<exists>b'. fold (\<lambda>c (b, pos). (b[pos := bs ! c], pos + 1)) [0 ..< m] (b, p) = (b', p + m) \<and> length b' = length b \<and>
    (\<forall>j < bufsize b. bufbit b' j = (if 8 * p \<le> j \<and> j < 8 * (p + m) then bufbit bs (j - 8 * p) else bufbit b j))"
  using assms
proof (induction m)
  case 0
  then show ?case by auto
next
  case (Suc m)
  then obtain b' where b': "fold (\<lambda>c (b, pos). (b[pos := bs ! c], pos + 1)) [0 ..< m] (b, p) = (b', p + m)"
    "length b' = length b" "\<forall>j < bufsize b. bufbit b' j = (if 8 * p \<le> j \<and> j < 8 * (p + m) then bufbit bs (j - 8 * p) else bufbit b j)"
    by auto
  have "bufbit (b'[p + m := bs ! m]) j =
      (if 8 * p \<le> j \<and> j < 8 * (p + Suc m) then bufbit bs (j - 8 * p) else bufbit b j)" if j: "j < bufsize b" for j
  proof (cases "8 * (p + m) \<le> j \<and> j < 8 * (p + m) + 8")
    case True
    then have "j - 8 * p = 8 * m + (j - 8 * (p + m))" and "j - 8 * (p + m) < 8" by auto
    then have "bufbit bs (j - 8 * p) = bit (bs ! m) (j - 8 * (p + m))"
      using bufbit_add [of "8 * m" "j - 8 * (p + m)" bs] by simp
    then show ?thesis using True j b'(2) by (simp add: bufbit_set_byte bufsize_def)
  next
    case False
    then show ?thesis using j b' by (auto simp: bufbit_set_byte bufsize_def)
  qed
  then show ?case using b' by simp
qed

interpretation bytesc: value_codec Bytes_encode Bytes_decode Bytes_length_at Bytes_length "\<lambda>bs. length bs < 2 ^ 63" Bytes_code 8
proof
  fix b b' bs :: "u8 list" and i j :: nat
  let ?l = "of_nat (length bs) :: u64" and ?m = "length bs"
  let ?n = "S64_length ?l"
  have len: "Bytes_length bs = ?n + ?m" by (simp add: Bytes_length_def Let_def)
  show "0 < Bytes_length bs" using s64c.len_pos [where v = ?l] by (simp add: len)
  obtain b1 where b1: "S64_encode b ?l i = (b1, ?n)" "length b1 = length b"
    using s64c.encode_len [where v = ?l and b = b and i = i] s64c.encode_length [where v = ?l and b = b and i = i]
    by (metis prod.collapse)
  have foldpos: "snd (fold (\<lambda>c (b, pos). (b[pos := bs ! c], pos + 1)) [0 ..< k] (b2, p)) = p + k
    \<and> length (fst (fold (\<lambda>c (b, pos). (b[pos := bs ! c], pos + 1)) [0 ..< k] (b2, p))) = length b2" for k p and b2 :: "u8 list"
    by (induction k) (auto simp: case_prod_beta)
  have enc: "Bytes_encode b bs i = (fst (fold (\<lambda>c (b, pos). (b[pos := bs ! c], pos + 1)) [0 ..< ?m] (b1, i + ?n)), ?n + ?m)"
    using foldpos [of ?m b1 "i + ?n"] by (simp add: Bytes_encode_def Let_def b1 case_prod_beta)
  show "snd (Bytes_encode b bs i) = Bytes_length bs" by (simp add: enc len)
  show "length (fst (Bytes_encode b bs i)) = length b" using foldpos b1 by (simp add: enc)
  show "bufbit (fst (Bytes_encode b bs i)) j =
      (if 8 * i \<le> j \<and> j < 8 * (i + Bytes_length bs) then Bytes_code bs (j - 8 * i) else bufbit b j)"
    if fit: "8 * (i + Bytes_length bs) \<le> bufsize b" and j: "j < bufsize b"
  proof -
    have "i + ?n + ?m \<le> length b1" using fit b1(2) by (simp add: len bufsize_def)
    from copy_bytes [OF this, of bs] obtain b2 where
      b2: "fst (Bytes_encode b bs i) = b2"
        "\<forall>j < bufsize b1. bufbit b2 j = (if 8 * (i + ?n) \<le> j \<and> j < 8 * (i + ?n + ?m) then bufbit bs (j - 8 * (i + ?n)) else bufbit b1 j)"
      by (auto simp: enc)
    have hd: "bufbit b1 j = (if 8 * i \<le> j \<and> j < 8 * (i + ?n) then S64_code ?l (j - 8 * i) else bufbit b j)"
      using s64c.encode_bits [where v = ?l and i = i and b = b and j = j] fit j b1 by (simp add: len)
    have eq: "j - 8 * i - 8 * ?n = j - 8 * (i + ?n)" by (simp add: add_mult_distrib2)
    consider "j < 8 * i" | "8 * i \<le> j" "j < 8 * (i + ?n)" | "8 * (i + ?n) \<le> j" by linarith
    then show ?thesis using b2 hd j b1(2) by cases (auto simp: Bytes_code_def Let_def len bufsize_def eq)
  qed
  show "Bytes_decode b i = (bs, Bytes_length bs) \<and> Bytes_length_at b i = Bytes_length bs"
    if v: "length bs < 2 ^ 63" and fit: "8 * (i + Bytes_length bs) \<le> bufsize b"
      and c: "\<And>k. k < 8 * Bytes_length bs \<Longrightarrow> bufbit b (8 * i + k) = Bytes_code bs k"
  proof -
    have "S64_decode b i = (?l, ?n)"
      using s64c.decode_code [where v = ?l and i = i and b = b] fit c by (simp add: len Bytes_code_def Let_def)
    moreover have "unat ?l = ?m" using v by (simp add: unat_of_nat)
    moreover have "b ! (k + (i + ?n)) = bs ! k" if "k < ?m" for k
    proof (rule byte_of_bits)
      fix x :: nat assume x: "x < 8"
      have "8 * (k + (i + ?n)) + x = 8 * i + (8 * ?n + (8 * k + x))" by simp
      moreover have "8 * ?n + (8 * k + x) < 8 * Bytes_length bs" using that x by (simp add: len)
      ultimately have "bufbit b (8 * (k + (i + ?n)) + x) = bufbit bs (8 * k + x)"
        using c [of "8 * ?n + (8 * k + x)"] by (simp only: Bytes_code_def Let_def) simp
      then show "bufbit b (8 * (k + (i + ?n)) + x) = bit (bs ! k) x"
        using bufbit_add [of "8 * k" x bs] x by simp
    qed
    then have "map (\<lambda>c. b ! (c + (i + ?n))) [0 ..< ?m] = bs" by (intro nth_equalityI) simp_all
    ultimately show ?thesis by (simp add: Bytes_decode_def Bytes_length_at_def Let_def len)
  qed
qed

section \<open>The bit codecs keep their promise\<close>

definition I64_code :: "u64 \<Rightarrow> nat \<Rightarrow> bool" where
  "I64_code v k =
     (if v = 0 then False
      else if v < 64 then bit (push_bit 2 v + 1) k
      else if k < 8 then bit (push_bit 2 (of_nat (Log2 v)) + 3 :: u64) k else bit v (k - 8))"

lemma GetBits_eq:
  fixes b :: "u64 list"
  assumes "n \<le> 64" and "unat v < 2 ^ n" and "\<And>k. k < n \<Longrightarrow> bufbit b (i + k) = bit v k"
  shows "GetBits b i n = v"
proof (rule bit_word_eqI)
  fix k assume "k < LENGTH(64)"
  have "\<not> bit v k" if "n \<le> k" using less_exp_not_bit [OF assms(2) that] by (simp add: bit_unsigned_iff)
  then show "bit (GetBits b i n) k = bit v k" using assms(1,3) by (cases "k < n") (auto simp: c64.GetBits)
qed

lemma unat_shift2:
  assumes "n < 64" and "m < 4"
  shows "unat (push_bit 2 (of_nat n) + of_nat m :: u64) = 4 * n + m"
proof -
  have "push_bit 2 (of_nat n) + of_nat m = (of_nat (4 * n + m) :: u64)" by (simp add: push_bit_eq_mult)
  then show ?thesis using assms by (simp add: unat_of_nat del: of_nat_add)
qed

lemma tag_bits:
  assumes "n < 64" and "m < 4" and "w = push_bit 2 (of_nat n) + (of_nat m :: u64)"
  shows "w AND 1 = 0 \<longleftrightarrow> even m" and "w AND 2 = 0 \<longleftrightarrow> m < 2" and "unat (drop_bit 2 w) = n" and "unat w < 2 ^ 8"
proof -
  have u: "unat w = 4 * n + m" using unat_shift2 [OF assms(1,2)] assms(3) by simp
  show "unat w < 2 ^ 8" using assms(1,2) u by simp
  show "unat (drop_bit 2 w) = n" using assms(2) by (simp add: unat_drop_bit_eq drop_bit_eq_div [where ?'a = nat] u)
  have "bit w k = bit (unat w) k" for k by (simp add: bit_unsigned_iff)
  then have "bit w 0 = odd m" and "bit w 1 = odd ((4 * n + m) div 2)"
    using bit_iff_odd [of "4 * n + m" 0] bit_iff_odd [of "4 * n + m" 1] unfolding u by simp_all
  moreover have "odd ((4 * n + m) div 2) \<longleftrightarrow> \<not> m < 2" using assms(2) by presburger
  ultimately show "w AND 1 = 0 \<longleftrightarrow> even m" and "w AND 2 = 0 \<longleftrightarrow> m < 2"
    using and_exp_eq_0_iff_not_bit [of w 0] and_exp_eq_0_iff_not_bit [of w 1] by simp_all
qed

lemma I64_small:
  assumes "v < (64 :: u64)"
  shows "push_bit 2 v + 1 = push_bit 2 (of_nat (unat v)) + (of_nat 1 :: u64)" and "unat v < 64"
  using assms by (simp_all add: word_less_nat_alt)

lemma Log2_range:
  assumes "\<not> v < (64 :: u64)" and "unat v < 2 ^ 63"
  shows "v \<noteq> 0" and "Log2 v < 64" and "unat v < 2 ^ Log2 v" and "0 < Log2 v"
proof -
  show nz: "v \<noteq> 0" using assms(1) by auto
  show "unat v < 2 ^ Log2 v" and "0 < Log2 v" using Log2_bounds [OF nz] by auto
  have "(2 :: nat) ^ (Log2 v - 1) < 2 ^ 63" using Log2_bounds(3) [OF nz] assms(2) by linarith
  then have "Log2 v - 1 < 63" by (rule power_less_imp_less_exp [rotated]) simp
  then show "Log2 v < 64" by simp
qed

text \<open>
  The length field of the code has six bits: the contract holds for values below \<open>2 ^ 63\<close>.
\<close>

interpretation i64c: value_codec EncodeI64 DecodeI64 GetI64ValueLength_at GetI64ValueLength "\<lambda>v. unat v < 2 ^ 63" I64_code 1
proof
  fix b :: "u64 list" and v :: u64 and i j :: nat
  show "0 < GetI64ValueLength v" by (simp add: GetI64ValueLength_def)
  show "snd (EncodeI64 b v i) = GetI64ValueLength v" by (simp add: EncodeI64_def GetI64ValueLength_def Let_def)
  show "length (fst (EncodeI64 b v i)) = length b" by (simp add: EncodeI64_def Let_def)
  show "bufbit (fst (EncodeI64 b v i)) j =
      (if 1 * i \<le> j \<and> j < 1 * (i + GetI64ValueLength v) then I64_code v (j - 1 * i) else bufbit b j)"
    if v: "unat v < 2 ^ 63" and fit: "1 * (i + GetI64ValueLength v) \<le> bufsize b" and j: "j < bufsize b"
  proof -
    consider "v = 0" | "v \<noteq> 0" "v < 64" | "\<not> v < 64" by blast
    then show ?thesis
    proof cases
      case 1
      then show ?thesis using fit j by (auto simp: EncodeI64_def GetI64ValueLength_def I64_code_def c64.SetBit)
    next
      case 2
      then show ?thesis using fit j by (simp add: EncodeI64_def GetI64ValueLength_def I64_code_def c64.SetBits Let_def)
    next
      case 3
      note L = Log2_range [OF 3 v]
      have "bufbit (fst (EncodeI64 b v i)) j =
          (if i + 8 \<le> j \<and> j < i + 8 + Log2 v then bit v (j - (i + 8))
           else if i \<le> j \<and> j < i + 8 then bit (push_bit 2 (of_nat (Log2 v)) + 3 :: u64) (j - i) else bufbit b j)"
        using 3 L j by (simp add: EncodeI64_def Let_def c64.SetBits)
      then show ?thesis using 3 L by (auto simp: GetI64ValueLength_def I64_code_def)
    qed
  qed
  show "DecodeI64 b i = (v, GetI64ValueLength v) \<and> GetI64ValueLength_at b i = GetI64ValueLength v"
    if v: "unat v < 2 ^ 63" and c: "\<And>k. k < 1 * GetI64ValueLength v \<Longrightarrow> bufbit b (1 * i + k) = I64_code v k"
  proof -
    consider "v = 0" | "v \<noteq> 0" "v < 64" | "\<not> v < 64" by blast
    then show ?thesis
    proof cases
      case 1
      then have "\<not> bit (GetBits b i 8) 0" using c [of 0] by (simp add: c64.GetBits GetI64ValueLength_def I64_code_def)
      then have "GetBits b i 8 AND 1 = 0" using and_exp_eq_0_iff_not_bit [of "GetBits b i 8" 0] by simp
      then show ?thesis using 1 by (simp add: DecodeI64_def GetI64ValueLength_at_def GetI64ValueLength_def Let_def)
    next
      case 2
      note s = I64_small [OF 2(2)]
      note t = tag_bits [OF s(2) _ s(1)]
      have "GetBits b i 8 = push_bit 2 v + 1"
        by (rule GetBits_eq) (use t(4) c 2 in \<open>simp_all add: GetI64ValueLength_def I64_code_def\<close>)
      moreover have "drop_bit 2 (push_bit 2 v + 1) = v" using t(3) by (simp add: word_unat_eq_iff)
      ultimately show ?thesis using 2 t(1,2)
        by (simp add: DecodeI64_def GetI64ValueLength_at_def GetI64ValueLength_def Let_def)
    next
      case 3
      note L = Log2_range [OF 3 v]
      note t = tag_bits [OF L(2), of 3 "push_bit 2 (of_nat (Log2 v)) + 3"]
      have "GetBits b i 8 = push_bit 2 (of_nat (Log2 v)) + 3"
        by (rule GetBits_eq) (use t(4) c 3 L in \<open>simp_all add: GetI64ValueLength_def I64_code_def\<close>)
      moreover have "GetBits b (i + 8) (Log2 v) = v"
      proof (rule GetBits_eq [OF less_imp_le [OF L(2)] L(3)])
        fix k assume "k < Log2 v"
        then show "bufbit b (i + 8 + k) = bit v k"
          using c [of "8 + k"] 3 L(1) by (simp add: GetI64ValueLength_def I64_code_def add.assoc)
      qed
      ultimately show ?thesis using 3 L t(1-3)
        by (simp add: DecodeI64_def GetI64ValueLength_at_def GetI64ValueLength_def Let_def)
    qed
  qed
qed

definition Elias_ll :: "nat \<Rightarrow> nat" where
  \<comment> \<open>\<open>length_length\<close> of the code\<close>
  "Elias_ll n = Log2 (of_nat n) - 1"

definition Elias_code :: "u64 \<Rightarrow> nat \<Rightarrow> bool" where
  "Elias_code v k =
     (let w = v + 1; n = Log2 w; l = Elias_ll n
      in if k < l then False
         else if k < 2 * l + 1 then bit (push_bit 1 (of_nat n) + 1 :: u64) (k - l)
         else bit w (k - (2 * l + 1)))"

lemma Log2_1: "Log2 1 = 1"
  using Log2_bounds [of 1] by (cases "Log2 1 = 1") (auto simp: le_less dest: power_le_one_iff)

lemma Elias_ll:
  assumes "0 < n" and "n \<le> 64"
  shows "2 ^ Elias_ll n \<le> n" and "n < 2 ^ Suc (Elias_ll n)" and "Elias_ll n \<le> 6"
proof -
  have u: "unat (of_nat n :: u64) = n" using assms(2) by (simp add: unat_of_nat)
  have nz: "(of_nat n :: u64) \<noteq> 0" using u assms(1) by auto
  note L = Log2_bounds [OF nz, unfolded u]
  show a: "2 ^ Elias_ll n \<le> n" using L(3) by (simp add: Elias_ll_def)
  show "n < 2 ^ Suc (Elias_ll n)" using L(1,4) by (simp add: Elias_ll_def)
  have "(2 :: nat) ^ Elias_ll n < 2 ^ 7" using a assms(2) by simp
  then have "Elias_ll n < 7" by (rule power_less_imp_less_exp [rotated]) simp
  then show "Elias_ll n \<le> 6" by simp
qed

lemma Elias_sizes:
  assumes "w \<noteq> (0 :: u64)"
  shows "0 < Log2 w" and "Log2 w \<le> 64" and "2 ^ (Log2 w - 1) \<le> unat w" and "unat w < 2 ^ Log2 w"
    and "2 ^ Elias_ll (Log2 w) \<le> Log2 w" and "Log2 w < 2 ^ Suc (Elias_ll (Log2 w))" and "Elias_ll (Log2 w) \<le> 6"
  using Log2_bounds [OF assms] Elias_ll [of "Log2 w"] by auto

lemma GetEliasDeltaValueLength: "GetEliasDeltaValueLength w = 2 * Elias_ll (Log2 w) + Log2 w"
  by (simp add: GetEliasDeltaValueLength_def Elias_ll_def Let_def)

lemma take_bit_top:
  fixes w :: u64
  assumes "2 ^ m \<le> unat w" and "unat w < 2 ^ Suc m" and "m < 64"
  shows "take_bit m w + push_bit m 1 = w"
proof -
  have "unat (take_bit m w) = unat w - 2 ^ m"
  proof -
    have "unat w = 2 ^ m * 1 + (unat w - 2 ^ m)" and "unat w - 2 ^ m < 2 ^ m" using assms by simp_all
    then have "unat w mod 2 ^ m = unat w - 2 ^ m" by (rule div_mod_unique(2))
    then show ?thesis by (simp only: unsigned_take_bit_eq take_bit_eq_mod [where ?'a = nat])
  qed
  moreover have "unat (push_bit m 1 :: u64) = 2 ^ m"
  proof -
    have "(push_bit m 1 :: u64) = of_nat (2 ^ m)" by (simp add: push_bit_of_1)
    moreover have "(2 :: nat) ^ m < 2 ^ 64" using assms(3) by (intro power_strict_increasing) simp_all
    ultimately show ?thesis by (simp add: unat_of_nat del: of_nat_power)
  qed
  ultimately show ?thesis using assms(1) unsigned_less [of w, where 'a = nat]
    by (simp add: word_unat_eq_iff unat_word_ariths)
qed

lemma GetBits_take:
  fixes b :: "u64 list"
  assumes "n \<le> 64" and "\<And>k. k < n \<Longrightarrow> bufbit b (i + k) = bit v k"
  shows "GetBits b i n = take_bit n v"
  by (rule bit_word_eqI) (use assms in \<open>auto simp: c64.GetBits bit_take_bit_iff\<close>)


lemma EncodeEliasDelta_bits:
  fixes b :: "u64 list"
  assumes "w \<noteq> 0" and j: "j < bufsize b"
  defines "n \<equiv> Log2 w" and "l \<equiv> Elias_ll (Log2 w)"
  shows "bufbit (fst (EncodeEliasDelta b w i)) j =
    (if i \<le> j \<and> j < i + (2 * l + n) then Elias_code (w - 1) (j - i) else bufbit b j)"
proof (cases "w > 1")
  case True
  note S = Elias_sizes [OF assms(1), folded n_def l_def [unfolded n_def [symmetric]]]
  have sizes: "l + 1 \<le> 64" "n - 1 \<le> 64" using S unfolding n_def l_def by auto
  have len: "bufsize (FillZero b i (i + l)) = bufsize b" by (simp add: bufsize_def)
  have "bufbit (fst (EncodeEliasDelta b w i)) j =
     (if i + l + (l + 1) \<le> j \<and> j < i + l + (l + 1) + (n - 1) then bit w (j - (i + l + (l + 1)))
      else if i + l \<le> j \<and> j < i + l + (l + 1) then bit (push_bit 1 (of_nat n) + 1 :: u64) (j - (i + l))
      else \<not> (i \<le> j \<and> j < i + l) \<and> bufbit b j)"
    using True j sizes len
    by (simp add: EncodeEliasDelta_def Let_def c64.SetBits c64.FillZero n_def l_def Elias_ll_def)
  moreover have pos: "0 < n" using S(1) by (simp add: n_def)
  moreover have code: "Elias_code (w - 1) (j - i) =
      (if j - i < l then False
       else if j - i < 2 * l + 1 then bit (push_bit 1 (of_nat n) + 1 :: u64) (j - i - l)
       else bit w (j - i - (2 * l + 1)))"
    by (simp add: Elias_code_def Let_def n_def l_def)
  moreover have "j - (i + l + (l + 1)) = j - i - (2 * l + 1)" and "j - (i + l) = j - i - l" by simp_all
  ultimately show ?thesis by (simp only: code) auto
next
  case False
  then have "unat w \<le> 1" by (simp add: word_less_nat_alt)
  moreover have "unat w \<noteq> 0" using assms(1) by (simp add: unat_eq_0)
  ultimately have "unat w = 1" by simp
  then have "w = 1" by (simp add: word_unat_eq_iff)
  then show ?thesis using j by (auto simp: EncodeEliasDelta_def c64.SetBits n_def l_def Elias_code_def Let_def Log2_1 Elias_ll_def)
qed


lemma bit_length0: "bit (push_bit 1 x + 1 :: u64) k \<longleftrightarrow> k = 0 \<or> k < 64 \<and> 0 < k \<and> bit x (k - 1)"
proof -
  have "push_bit 1 x + 1 = push_bit 1 x OR (1 :: u64)"
    by (rule disjunctive_add) (auto simp only: bit_push_bit_iff bit_1_iff)
  then show ?thesis by (simp only: bit_or_iff bit_push_bit_iff bit_1_iff) (auto simp: Suc_le_eq)
qed

lemma DecodeEliasDelta_code:
  fixes b :: "u64 list"
  assumes w: "w \<noteq> 0"
  defines "n \<equiv> Log2 w" and "l \<equiv> Elias_ll (Log2 w)"
  assumes c: "\<And>k. k < 2 * l + n \<Longrightarrow> bufbit b (i + k) = Elias_code (w - 1) k" and lim: "i + (2 * l + n) \<le> limit"
  shows "DecodeEliasDelta b i limit = (w, 2 * l + n) \<and> DecodeEliasDeltaLength b i limit = 2 * l + n"
proof -
  note S = Elias_sizes [OF w, folded n_def, folded l_def [folded n_def]]
  have code: "Elias_code (w - 1) k = (if k < l then False
      else if k < 2 * l + 1 then bit (push_bit 1 (of_nat n) + 1 :: u64) (k - l) else bit w (k - (2 * l + 1)))" for k
    by (simp add: Elias_code_def Let_def n_def l_def)
  have odd: "bit (push_bit 1 (of_nat n) + 1 :: u64) 0" unfolding bit_length0 by simp
  show ?thesis
  proof (cases "n = 1")
    case True
    then have l0: "l = 0" using S(5) less_exp [of l] by linarith
    have "TestBit b i" using c [of 0] code [of 0] True odd l0 by (simp add: c64.TestBit)
    moreover have "unat w = 1" using S(3,4) True by simp
    then have "w = 1" by (simp add: word_unat_eq_iff)
    ultimately show ?thesis using True l0
      by (simp add: DecodeEliasDelta_def DecodeEliasDeltaLength_def)
  next
    case False
    then have n2: "2 \<le> n" using S(1) by simp
    have l1: "1 \<le> l" using S(6) n2 by (cases l) simp_all
    have "\<not> TestBit b i" using c [of 0] l1 n2 by (simp add: c64.TestBit code)
    moreover have "CountTrailingZeroes b i limit = i + l - i"
    proof (rule c64.CountTrailingZeroes_first)
      show "bufbit b (i + l)" using c [of l] n2 odd by (simp add: code)
      show "\<not> bufbit b j" if "i \<le> j" "j < i + l" for j
      proof -
        have "j - i < l" "j - i < 2 * l + n" "i + (j - i) = j" using that by linarith+
        then show ?thesis using c [of "j - i"] by (simp add: code)
      qed
    qed (use lim n2 in simp_all)
    moreover have "GetBits b (i + l) (l + 1) = take_bit (l + 1) (push_bit 1 (of_nat n) + 1)"
      by (rule GetBits_take) (use S(7) c n2 in \<open>simp_all add: code add.assoc\<close>)
    moreover have "drop_bit 1 (take_bit (l + 1) (push_bit 1 (of_nat n) + 1)) = (take_bit l (of_nat n) :: u64)"
      by (rule bit_word_eqI, simp only: bit_drop_bit_eq comp_apply bit_take_bit_iff bit_length0)
         (use S(7) in auto)
    moreover have un: "unat (of_nat n :: u64) = n" using S(2) by (simp add: unat_of_nat)
    then have "take_bit l (of_nat n) + push_bit l 1 = (of_nat n :: u64)"
      using S(5-7) by (intro take_bit_top) simp_all
    moreover have "unat (of_nat n - 1 :: u64) = n - 1" using un S(1) by (simp add: unat_sub word_le_nat_alt)
    moreover have "GetBits b (i + l + (l + 1)) (n - 1) = take_bit (n - 1) w"
    proof (rule GetBits_take)
      fix k assume "k < n - 1"
      then show "bufbit b (i + l + (l + 1) + k) = bit w k" 
      proof -
        have "i + l + (l + 1) + k = i + (2 * l + 1 + k)" "2 * l + 1 + k < 2 * l + n" using \<open>k < n - 1\<close> by linarith+
        then show ?thesis using c [of "2 * l + 1 + k"] by (simp only: code) simp
      qed
    qed (use S(2) in simp)
    moreover have "take_bit (n - 1) w + push_bit (n - 1) 1 = w" using S(1-4) by (intro take_bit_top) simp_all
    ultimately show ?thesis
      by (simp add: DecodeEliasDelta_def DecodeEliasDeltaLength_def Let_def un)
  qed
qed


lemma length_EncodeEliasDelta [simp]: "length (fst (EncodeEliasDelta b w i)) = length b"
  by (simp add: EncodeEliasDelta_def Let_def)

interpretation elias: value_codec Elias_encode "\<lambda>b i. Elias_decode b i (bufsize b)"
  "\<lambda>b i. DecodeEliasDeltaLength b i (bufsize b)" Elias_length "\<lambda>v. v + 1 \<noteq> 0" Elias_code 1
proof
  fix b :: "u64 list" and v :: u64 and i j :: nat
  have len: "Elias_length v = 2 * Elias_ll (Log2 (v + 1)) + Log2 (v + 1)"
    by (simp add: Elias_length_def GetEliasDeltaValueLength)
  show "length (fst (Elias_encode b v i)) = length b" by (simp add: Elias_encode_def)
  assume v: "v + 1 \<noteq> 0"
  show "0 < Elias_length v" using Elias_sizes(1) [OF v] by (simp add: len)
  have one: "Log2 (v + 1) = 1 \<and> Elias_ll (Log2 (v + 1)) = 0" if "\<not> 1 < v + 1"
  proof -
    have "unat (v + 1) \<le> 1" using that by (simp add: word_less_nat_alt)
    moreover have "unat (v + 1) \<noteq> 0" using v by (simp add: unat_eq_0)
    ultimately have "unat (v + 1) = 1" by linarith
    then have "v + 1 = 1" by (simp add: word_unat_eq_iff)
    then show ?thesis by (simp only: Log2_1 Elias_ll_def of_nat_1) simp
  qed
  then show "snd (Elias_encode b v i) = Elias_length v"
    by (auto simp: Elias_encode_def EncodeEliasDelta_def len Let_def Elias_ll_def)
  show "bufbit (fst (Elias_encode b v i)) j =
      (if 1 * i \<le> j \<and> j < 1 * (i + Elias_length v) then Elias_code v (j - 1 * i) else bufbit b j)"
    if "j < bufsize b"
    using EncodeEliasDelta_bits [OF v that, of i] by (simp add: Elias_encode_def len)
  show "Elias_decode b i (bufsize b) = (v, Elias_length v) \<and> DecodeEliasDeltaLength b i (bufsize b) = Elias_length v"
    if "1 * (i + Elias_length v) \<le> bufsize b" and "\<And>k. k < 1 * Elias_length v \<Longrightarrow> bufbit b (1 * i + k) = Elias_code v k"
    using DecodeEliasDelta_code [OF v, of b i "bufsize b"] that by (simp add: Elias_decode_def len)
qed

section \<open>Properties of the codecs\<close>

text \<open>
  C21: values written one after another with the byte codecs \<open>I7Codec\<close>, \<open>ExintCodec\<close> and
  \<open>ValueCodec<int64_t>\<close> are read back in the same order, for every list of 64 bit values and every buffer
  they fit into.
\<close>

theorem byte_codec_sequences:
  assumes "i + sum_list (map GetI7ValueLength vs) \<le> length b"
    and "i + sum_list (map GetExintValueLength vs) \<le> length b"
    and "i + sum_list (map S64_length vs) \<le> length b"
  shows "decode_all DecodeI7 (fst (encode_all EncodeI7 b vs i)) (length vs) i = vs
    \<and> decode_all DecodeExint (fst (encode_all EncodeExint b vs i)) (length vs) i = vs
    \<and> decode_all S64_decode (fst (encode_all S64_encode b vs i)) (length vs) i = vs"
  using assms i7.decode_all_encode_all [of vs i b] exint.decode_all_encode_all [of vs i b]
    s64c.decode_all_encode_all [of vs i b]
  by (simp add: bufsize_def)

lemma byte_lengths:
  "GetI7ValueLength v \<le> 9" "GetExintValueLength v \<le> 9" "S64_length v \<le> 10"
proof -
  show "GetI7ValueLength v \<le> 9" "GetExintValueLength v \<le> 9"
    using le_len_le8 [of v] by (simp_all add: GetI7ValueLength_def GetExintValueLength_def GetI7_bytes)
  have "bytes x \<le> 8" if "x \<noteq> 0" for x using bytes_bounds(3) [OF that] .
  then have "v \<noteq> 0 \<Longrightarrow> bytes v \<le> 8" and "v \<noteq> 0 \<Longrightarrow> bytes (- v) \<le> 8" by simp_all
  then show "S64_length v \<le> 10" by (cases "v = 0") (simp_all add: S64_length_cases)
qed

theorem byte_codec_sequences_witness:
  "decode_all DecodeI7 (fst (encode_all EncodeI7 (replicate 30 0) [5, 300, - 1] 0)) 3 0 = [5, 300, - 1]"
  using byte_codec_sequences [of 0 "[5, 300, - 1]" "replicate 30 0"]
    byte_lengths [of 5] byte_lengths [of 300] byte_lengths [of "- 1"]
  by (simp add: numeral_3_eq_3 del: encode_all.simps decode_all.simps)


lemma bit_lengths: "GetI64ValueLength v \<le> 72" "v + 1 \<noteq> 0 \<Longrightarrow> Elias_length v \<le> 76"
proof -
  show "GetI64ValueLength v \<le> 72" using Log2_bounds(2) [of v] by (simp add: GetI64ValueLength_def)
  show "Elias_length v \<le> 76" if "v + 1 \<noteq> 0"
    using Elias_sizes(2,7) [OF that] by (simp add: Elias_length_def GetEliasDeltaValueLength)
qed


text \<open>
  \<open>ValueCodec<RawData<uint8_t>>\<close>, which writes the length with the signed codec and then the bytes,
  reads back the same byte string and advances by the same number of bytes; bytes outside the code are not touched.
\<close>

theorem bytes_codec_roundtrip:
  assumes "length bs < 2 ^ 63" and "i + Bytes_length bs \<le> length b" and "j < i \<or> i + Bytes_length bs \<le> j" and "j < length b"
  shows "Bytes_decode (fst (Bytes_encode b bs i)) i = (bs, Bytes_length bs)
    \<and> snd (Bytes_encode b bs i) = Bytes_length bs
    \<and> fst (Bytes_encode b bs i) ! j = b ! j"
proof -
  have fit: "8 * (i + Bytes_length bs) \<le> bufsize b" using assms(2) by (simp add: bufsize_def)
  have "bufbit (fst (Bytes_encode b bs i)) (8 * j + k) = bit (b ! j) k" if "k < 8" for k
    using bytesc.encode_bits [OF assms(1) fit, of "8 * j + k"] assms(3,4) that bufbit_add [of "8 * j" k b]
    by (auto simp: bufsize_def)
  then show ?thesis
    using bytesc.roundtrip [OF assms(1) fit] bytesc.encode_len [OF assms(1)] byte_of_bits [of "fst (Bytes_encode b bs i)" j "b ! j"]
    by simp
qed

theorem bytes_codec_roundtrip_witness:
  "fst (Bytes_decode (fst (Bytes_encode (replicate 20 0) [1, 2, 3] 4)) 4) = [1, 2, 3]"
  using bytes_codec_roundtrip [of "[1, 2, 3]" 4 "replicate 20 0" 0] byte_lengths(3) [of 3]
  by (simp add: Bytes_length_def Let_def)

text \<open>
  an \<open>I64Codec\<close> code that \<open>I64Codec::move\<close> shifts inside its buffer by any number of bits, also onto
  itself, still decodes to its value: the codec and \<open>MoveBits\<close> compose.
\<close>

theorem I64_move_keeps_value:
  assumes "unat v < 2 ^ 63" and "i + GetI64ValueLength v \<le> bufsize b" and "j + GetI64ValueLength v \<le> bufsize b"
  shows "fst (DecodeI64 (MoveBits Same (fst (EncodeI64 b v i)) i j (GetI64ValueLength v)) j) = v"
proof -
  let ?e = "fst (EncodeI64 b v i)" and ?n = "GetI64ValueLength v"
  have size: "bufsize ?e = bufsize b" by (rule i64c.encode_bufsize)
  have mv: "moved Same ?e i j 0 ?n (MoveBits Same ?e i j ?n)"
    using assms(2) by (intro c64.MoveBits) (simp add: size)
  have "DecodeI64 (MoveBits Same ?e i j ?n) j = (v, ?n)"
  proof (rule i64c.decode_moved [OF assms(1), where b = b and i = i])
    show "1 * (i + ?n) \<le> bufsize b" using assms(2) by simp
    show "1 * (j + ?n) \<le> bufsize (MoveBits Same ?e i j ?n)"
      using mv assms(3) size by (simp add: moved_def bufsize_def)
    show "bufbit (MoveBits Same ?e i j ?n) (1 * j + k) = bufbit ?e (1 * i + k)" if "k < 1 * ?n" for k
      using mv that assms(3) size by (simp add: moved_def)
  qed
  then show ?thesis by simp
qed

theorem I64_move_keeps_value_witness:
  "fst (DecodeI64 (MoveBits Same (fst (EncodeI64 [0, 0] 1000 3)) 3 5 (GetI64ValueLength 1000)) 5) = 1000"
  using I64_move_keeps_value [of 1000 3 "[0, 0]" 5] bit_lengths [of 1000] by (simp add: bufsize_def)

text \<open>
  C40: the header byte of \<open>ValueCodec<uint64_t>\<close> cannot hold \<open>248 + 8\<close>: every value of eight significant
  bytes is read back as \<open>2 ^ 64 - 1\<close>, and the decoder consumes one byte of the nine written.
\<close>

theorem U64_codec_loses_eight_byte_values:
  assumes "2 ^ 56 \<le> unat v" and "i < length b"
  shows "snd (U64_encode b v i) = 9 \<and> U64_decode (fst (U64_encode b v i)) i = (- 1, 1)"
proof -
  have nz: "v \<noteq> 0" using assms(1) by auto
  have "\<not> bytes v \<le> 7"
  proof
    assume "bytes v \<le> 7"
    then have "(2 :: nat) ^ (8 * bytes v) \<le> 2 ^ 56" by (intro power_increasing) simp_all
    then show False using bytes_bounds(1) [OF nz] assms(1) by linarith
  qed
  have "(256 :: u8) = 0" by (rule word_unat_eq_iff [THEN iffD2]) simp
  then have header: "l[i := 256] = l[i := (0 :: u8)]" for l by (rule arg_cong)
  from \<open>\<not> bytes v \<le> 7\<close> have eight: "bytes v = 8" using bytes_bounds(3) [OF nz] by simp
  have len: "length (fst (serialize b v (i + 1))) = length b" using serialize [of b v "i + 1"] by (simp add: wr8_def)
  have "U64_encode b v i = ((fst (serialize b v (i + 1)))[i := 0], 9)"
    using serialize [of b v "i + 1"] assms(1) eight by (simp add: U64_encode_def UpperBound_def Let_def case_prod_beta header)
  then show ?thesis using len assms(2) by (simp add: U64_decode_def UpperBound_def Let_def)
qed

theorem U64_codec_loses_eight_byte_values_witness:
  "U64_decode (fst (U64_encode (replicate 9 0) 0x0100000000000000 0)) 0 = (- 1, 1)"
  using U64_codec_loses_eight_byte_values [of "0x0100000000000000" 0 "replicate 9 0"] by simp

text \<open>
  below \<open>2 ^ 56\<close> the unsigned codec is exact.
\<close>

theorem U64_codec_sequences:
  assumes "\<forall>v \<in> set vs. unat v < 2 ^ 56" and "i + sum_list (map U64_length vs) \<le> length b"
  shows "decode_all U64_decode (fst (encode_all U64_encode b vs i)) (length vs) i = vs"
  using assms u64c.decode_all_encode_all [of vs i b] by (simp add: bufsize_def)

theorem U64_codec_sequences_witness:
  "decode_all U64_decode (fst (encode_all U64_encode (replicate 3 0) [5, 200, 7] 0)) 3 0 = [5, 200, 7]"
  using U64_codec_sequences [of "[5, 200, 7]" 0 "replicate 3 0"]
  by (simp add: U64_length_def UpperBound_def numeral_3_eq_3 del: encode_all.simps decode_all.simps)

text \<open>
  the six bit length field of \<open>I64Codec\<close> cannot hold 64: a value with the top bit set is read back as 0.
\<close>

theorem I64_codec_loses_top_bit_values:
  assumes "2 ^ 63 \<le> unat v" and "i + 72 \<le> bufsize b"
  shows "snd (EncodeI64 b v i) = 72 \<and> DecodeI64 (fst (EncodeI64 b v i)) i = (0, 8)"
proof -
  have v: "v \<noteq> 0" "\<not> v < 64" using assms(1) by (auto simp: word_less_nat_alt)
  have "\<not> Log2 v \<le> 63"
  proof
    assume "Log2 v \<le> 63"
    then have "(2 :: nat) ^ Log2 v \<le> 2 ^ 63" by (intro power_increasing) simp_all
    then show False using Log2_bounds(4) [OF v(1)] assms(1) by linarith
  qed
  then have log: "Log2 v = 64" using Log2_bounds(2) [OF v(1)] by simp
  have enc: "EncodeI64 b v i = (SetBits (SetBits b i 259 8) (i + 8) v 64, 72)"
    using v log by (simp add: EncodeI64_def Let_def push_bit_eq_mult)
  have "GetBits (fst (EncodeI64 b v i)) i 8 = take_bit 8 259"
    by (rule GetBits_take) (use assms(2) in \<open>simp_all add: enc c64.SetBits\<close>)
  then have "GetBits (fst (EncodeI64 b v i)) i 8 = 3" by (simp add: take_bit_eq_mod)
  moreover have "GetBits (fst (EncodeI64 b v i)) (i + 8) 0 = 0" by (rule bit_word_eqI) (simp add: c64.GetBits)
  ultimately show ?thesis by (simp add: DecodeI64_def enc Let_def)
qed

theorem I64_codec_loses_top_bit_values_witness:
  "DecodeI64 (fst (EncodeI64 [0, 0] 0xFFFFFFFFFFFFFFFF 0)) 0 = (0, 8)"
  using I64_codec_loses_top_bit_values [of "0xFFFFFFFFFFFFFFFF" 0 "[0, 0]"] by (simp add: bufsize_def)

end
