(* ===== verification/PTree_Node.thy ===== *)
theory PTree_Node
  imports Bitmap_Count
begin

text \<open>
  The node of the copy-on-write block map of the in-memory store
  (\<^verbatim>\<open>store/memory/common/persistent_tree_node.hpp\<close>): \<open>NodeBase\<close>, \<open>Node\<close>, \<open>BranchNode\<close> and \<open>LeafNode\<close>.

  A node is a record with the fields of \<open>NodeBase\<close> and \<open>Node\<close>: \<open>metadata_.size\<close>, \<open>node_type_\<close>, \<open>node_id_\<close>,
  \<open>snapshot_id_\<close>, \<open>size_\<close> and the arrays \<open>index_\<close>, \<open>keys_\<close> and \<open>data_\<close> as lists of their full
  length; the reference count \<open>refs_\<close>, the one field that other snapshots change, is kept by the store of
  \<open>PTree\<close> in a map from node addresses. The template parameters \<open>NodeSize\<close> and \<open>NodeIndexSize\<close> are the record \<open>node_cfg\<close>. A default
  constructed key or datum is 0. The mutex of a node and \<open>cpu_id_\<close> have no part in the model.

  The lemmas show that the three search routines agree with a scan of the keys, and that each
  update is the corresponding operation on the list \<open>entries\<close> of (key, datum) pairs and keeps the
  invariant \<open>node_ok\<close> of the secondary index.
\<close>

section \<open>Node data and operations\<close>

datatype NodeType = LEAF | BRANCH

record node_cfg =
  NodeSize :: nat
  NodeIndexSize :: nat

record ('k, 'd) node =
  metadata_size :: int
  node_type :: NodeType
  node_id :: nat
  snapshot_id :: nat
  node_size :: nat
  node_index :: "'k list"
  node_keys :: "'k list"
  node_data :: "'d list"

definition Indexes :: "node_cfg \<Rightarrow> nat" where
  "Indexes c = NodeSize c div NodeIndexSize c + (if NodeSize c mod NodeIndexSize c = 0 then 0 else 1)"

definition NodeBase :: "node_cfg \<Rightarrow> nat \<Rightarrow> nat \<Rightarrow> NodeType \<Rightarrow> ('k :: zero, 'd :: zero) node" where
  \<comment> \<open>the constructor; the arrays of a new node are not initialised in C++, any content will do\<close>
  "NodeBase c sid nid ty =
     \<lparr>metadata_size = 0, node_type = ty, node_id = nid, snapshot_id = sid, node_size = 0,
      node_index = replicate (Indexes c) 0, node_keys = replicate (NodeSize c) 0,
      node_data = replicate (NodeSize c) 0\<rparr>"

definition NodeBase_copy_data_from :: "node_cfg \<Rightarrow> ('k, 'd) node \<Rightarrow> ('k, 'd) node \<Rightarrow> ('k, 'd) node" where
  "NodeBase_copy_data_from c n other =
     n\<lparr>metadata_size := metadata_size other, node_type := node_type other, node_id := node_id other,
       snapshot_id := snapshot_id other, node_size := node_size other,
       node_index := CopyBuffer (node_index other) 0 (node_index n) 0 (Indexes c),
       node_keys := CopyBuffer (node_keys other) 0 (node_keys n) 0 (NodeSize c)\<rparr>"

definition is_leaf :: "('k, 'd) node \<Rightarrow> bool" where
  "is_leaf n = (node_type n = LEAF)"

definition is_branch :: "('k, 'd) node \<Rightarrow> bool" where
  "is_branch n = (node_type n = BRANCH)"

definition capacity :: "node_cfg \<Rightarrow> ('k, 'd) node \<Rightarrow> nat" where
  "capacity c n = NodeSize c - node_size n"

definition should_merge :: "node_cfg \<Rightarrow> ('k, 'd) node \<Rightarrow> bool" where
  "should_merge c n = (node_size n \<le> NodeSize c div 2)"

definition max_key :: "('k, 'd) node \<Rightarrow> 'k" where
  \<comment> \<open>on an empty node the code reads \<open>keys_[-1]\<close>, the storage of the last element of \<open>index_\<close>\<close>
  "max_key n = (if node_size n = 0 then last (node_index n) else node_keys n ! (node_size n - 1))"

definition has_space :: "node_cfg \<Rightarrow> ('k, 'd) node \<Rightarrow> bool" where
  "has_space c n = (node_size n < NodeSize c)"

definition last_idx :: "node_cfg \<Rightarrow> ('k, 'd) node \<Rightarrow> nat" where
  "last_idx c n =
     node_size n div NodeIndexSize c + (if node_size n mod NodeIndexSize c = 0 then 0 else 1)"

definition find_key :: "node_cfg \<Rightarrow> ('k :: linorder, 'd) node \<Rightarrow> 'k \<Rightarrow> nat" where
  "find_key c n key =
     (case List.find (\<lambda>i. key \<le> node_index n ! i) [0 ..< last_idx c n] of
        None \<Rightarrow> node_size n
      | Some idx \<Rightarrow>
          (let idx = idx * NodeIndexSize c
           in case List.find (\<lambda>i. key \<le> node_keys n ! i) [idx ..< idx + NodeIndexSize c] of
                None \<Rightarrow> node_size n
              | Some i \<Rightarrow> i))"

definition find_key2 :: "node_cfg \<Rightarrow> ('k :: linorder, 'd) node \<Rightarrow> 'k \<Rightarrow> nat" where
  "find_key2 c n key =
     (let idx = fold (\<lambda>i idx. idx + of_bool (key > node_index n ! i)) [0 ..< last_idx c n] 0
      in if idx < last_idx c n then
           (let idx = idx * NodeIndexSize c;
                mx = (if idx + NodeIndexSize c < node_size n then idx + NodeIndexSize c else node_size n)
            in fold (\<lambda>i idx. idx + of_bool (key > node_keys n ! i)) [idx ..< mx] idx)
         else node_size n)"

function lower_bound :: "('k :: linorder) list \<Rightarrow> 'k \<Rightarrow> nat \<Rightarrow> nat \<Rightarrow> nat" where
  \<comment> \<open>\<open>std::lower_bound\<close>: binary search in \<open>len\<close> elements from \<open>first\<close> on\<close>
  "lower_bound xs key first len =
     (if 0 < len then
        (let half = len div 2; middle = first + half
         in if xs ! middle < key then lower_bound xs key (middle + 1) (len - half - 1)
            else lower_bound xs key first half)
      else first)"
  by pat_completeness auto

termination lower_bound
  by (relation "measure (\<lambda>(_, _, _, len). len)") auto

declare lower_bound.simps [simp del]

definition find_key3 :: "('k :: linorder, 'd) node \<Rightarrow> 'k \<Rightarrow> nat" where
  "find_key3 n key = lower_bound (node_keys n) key 0 (node_size n)"

definition reindex :: "node_cfg \<Rightarrow> ('k :: zero, 'd) node \<Rightarrow> ('k, 'd) node" where
  \<comment> \<open>on an empty node \<open>last_element\<close> is -1: the code reads \<open>keys_[-1]\<close>, which is the storage of the
     last element of \<open>index_\<close>, and writes it to \<open>index_[-1 / NodeIndexSize]\<close>, that is \<open>index_[0]\<close>\<close>
  "reindex c n =
     (let index = replicate (length (node_index n)) 0;
          mx = (if node_size n mod NodeIndexSize c = 0 then node_size n
                else node_size n - node_size n mod NodeIndexSize c);
          index = fold (\<lambda>i index. index[i := node_keys n ! (i * NodeIndexSize c + NodeIndexSize c - 1)])
                    [0 ..< mx div NodeIndexSize c] index
      in if node_size n = 0 then n\<lparr>node_index := index[0 := last index]\<rparr>
         else
           (let last_element = node_size n - 1
            in n\<lparr>node_index := index[last_element div NodeIndexSize c := node_keys n ! last_element]\<rparr>))"

definition clear_cells :: "nat \<Rightarrow> nat \<Rightarrow> ('t :: zero) list \<Rightarrow> 't list" where
  "clear_cells start stop xs = fold (\<lambda>i xs. xs[i := 0]) [start ..< stop] xs"

definition insert_key :: "node_cfg \<Rightarrow> ('k :: zero, 'd) node \<Rightarrow> nat \<Rightarrow> 'k \<Rightarrow> ('k, 'd) node" where
  "insert_key c n idx key =
     (let keys = CopyBuffer (node_keys n) idx (node_keys n) (idx + 1) (node_size n - idx)
      in reindex c (n\<lparr>node_size := node_size n + 1, node_keys := keys[idx := key]\<rparr>))"

definition remove_keys :: "node_cfg \<Rightarrow> ('k :: zero, 'd) node \<Rightarrow> nat \<Rightarrow> nat \<Rightarrow> ('k, 'd) node" where
  "remove_keys c n start stop =
     (let keys = CopyBuffer (node_keys n) stop (node_keys n) start (node_size n - stop);
          keys = clear_cells (node_size n - (stop - start)) (node_size n) keys
      in reindex c (n\<lparr>node_keys := keys, node_size := node_size n - (stop - start)\<rparr>))"

definition split_keys_to ::
  "node_cfg \<Rightarrow> ('k :: zero, 'd) node \<Rightarrow> nat \<Rightarrow> ('k, 'd) node \<Rightarrow> ('k, 'd) node \<times> ('k, 'd) node" where
  "split_keys_to c n start other =
     (let keys' = CopyBuffer (node_keys n) start (node_keys other) 0 (node_size n - start);
          keys = clear_cells start (node_size n) (node_keys n);
          other = other\<lparr>node_keys := keys', node_size := node_size other + (node_size n - start)\<rparr>;
          n = n\<lparr>node_keys := keys, node_size := node_size n - (node_size n - start)\<rparr>
      in (reindex c n, reindex c other))"

definition merge_keys_from ::
  "node_cfg \<Rightarrow> ('k :: zero, 'd) node \<Rightarrow> ('k, 'd) node \<Rightarrow> ('k, 'd) node \<times> ('k, 'd) node" where
  "merge_keys_from c n other =
     (let keys = CopyBuffer (node_keys other) 0 (node_keys n) (node_size n) (node_size other);
          n = n\<lparr>node_keys := keys, node_size := node_size n + node_size other\<rparr>;
          other = other\<lparr>node_size := 0\<rparr>
      in (reindex c n, reindex c other))"

definition can_merge_with :: "node_cfg \<Rightarrow> ('k, 'd) node \<Rightarrow> ('k, 'd) node \<Rightarrow> bool" where
  "can_merge_with c n other = (node_size n + node_size other \<le> NodeSize c)"

definition node_insert ::
  "node_cfg \<Rightarrow> ('k :: zero, 'd) node \<Rightarrow> nat \<Rightarrow> 'k \<Rightarrow> 'd \<Rightarrow> ('k, 'd) node" where
  "node_insert c n idx key child =
     (let data = CopyBuffer (node_data n) idx (node_data n) (idx + 1) (node_size n - idx)
      in insert_key c (n\<lparr>node_data := data[idx := child]\<rparr>) idx key)"

definition node_remove ::
  "node_cfg \<Rightarrow> ('k :: zero, 'd :: zero) node \<Rightarrow> nat \<Rightarrow> nat \<Rightarrow> ('k, 'd) node" where
  "node_remove c n start stop =
     (let sz = node_size n;
          data = CopyBuffer (node_data n) stop (node_data n) start (sz - stop);
          data = clear_cells (sz - (stop - start)) sz data
      in remove_keys c (n\<lparr>node_data := data\<rparr>) start stop)"

definition split_to ::
  "node_cfg \<Rightarrow> ('k :: zero, 'd :: zero) node \<Rightarrow> nat \<Rightarrow> ('k, 'd) node \<Rightarrow> ('k, 'd) node \<times> ('k, 'd) node" where
  "split_to c n start other =
     (let data' = CopyBuffer (node_data n) start (node_data other) 0 (node_size n - start);
          data = clear_cells start (node_size n) (node_data n)
      in split_keys_to c (n\<lparr>node_data := data\<rparr>) start (other\<lparr>node_data := data'\<rparr>))"

definition merge_from ::
  "node_cfg \<Rightarrow> ('k :: zero, 'd) node \<Rightarrow> ('k, 'd) node \<Rightarrow> ('k, 'd) node \<times> ('k, 'd) node" where
  "merge_from c n other =
     (let data = CopyBuffer (node_data other) 0 (node_data n) (node_size n) (node_size other)
      in merge_keys_from c (n\<lparr>node_data := data\<rparr>) other)"

definition copy_data_from :: "node_cfg \<Rightarrow> ('k, 'd) node \<Rightarrow> ('k, 'd) node \<Rightarrow> ('k, 'd) node" where
  "copy_data_from c n other =
     NodeBase_copy_data_from c (n\<lparr>node_data := CopyBuffer (node_data other) 0 (node_data n) 0 (NodeSize c)\<rparr>) other"

definition find_child :: "node_cfg \<Rightarrow> ('k :: linorder, 'd) node \<Rightarrow> 'k \<Rightarrow> 'd" where
  "find_child c n key =
     (let idx = find_key c n key;
          idx = (if idx = node_size n then node_size n - 1 else idx)
      in node_data n ! idx)"

definition find_child_node :: "('k, 'd) node \<Rightarrow> 'd \<Rightarrow> int" where
  "find_child_node n child =
     (case List.find (\<lambda>i. node_data n ! i = child) [0 ..< node_size n] of Some i \<Rightarrow> int i | None \<Rightarrow> - 1)"

definition first_child :: "('k, 'd) node \<Rightarrow> 'd" where
  "first_child n = node_data n ! 0"

definition last_child :: "('k, 'd) node \<Rightarrow> 'd" where
  "last_child n = node_data n ! (node_size n - 1)"

section \<open>Scanning\<close>

definition scan :: "('k :: linorder) list \<Rightarrow> 'k \<Rightarrow> nat" where
  \<comment> \<open>the reference search: the number of leading elements smaller than the key\<close>
  "scan xs key = length (takeWhile (\<lambda>x. x < key) xs)"

lemma scan_le: "scan xs key \<le> length xs"
  by (simp add: scan_def length_takeWhile_le)

lemma scan_less: "i < scan xs key \<Longrightarrow> xs ! i < key"
proof -
  assume i: "i < scan xs key"
  then have "takeWhile (\<lambda>x. x < key) xs ! i < key"
    using set_takeWhileD nth_mem unfolding scan_def by metis
  then show ?thesis using i by (simp add: scan_def takeWhile_nth)
qed

lemma scan_nth: "scan xs key < length xs \<Longrightarrow> key \<le> xs ! scan xs key"
  using nth_length_takeWhile [of "\<lambda>x. x < key" xs] by (simp add: scan_def not_less)

lemma scan_eqI:
  assumes "m \<le> length xs" and "\<And>i. i < m \<Longrightarrow> xs ! i < key" and "m < length xs \<Longrightarrow> key \<le> xs ! m"
  shows "scan xs key = m"
proof (rule le_antisym)
  show "scan xs key \<le> m"
  proof (rule ccontr)
    assume "\<not> scan xs key \<le> m"
    then have "m < scan xs key" by simp
    then show False using scan_less [of m xs key] assms(3) scan_le [of xs key] by auto
  qed
  show "m \<le> scan xs key"
  proof (rule ccontr)
    assume "\<not> m \<le> scan xs key"
    then show False using scan_nth [of xs key] assms(1) assms(2) [of "scan xs key"] by auto
  qed
qed

lemma scan_sorted:
  assumes "sorted xs" and "i < length xs"
  shows "xs ! i < key \<longleftrightarrow> i < scan xs key"
proof
  show "i < scan xs key \<Longrightarrow> xs ! i < key" by (rule scan_less)
  show "i < scan xs key" if "xs ! i < key"
  proof (rule ccontr)
    assume "\<not> i < scan xs key"
    then have "xs ! scan xs key \<le> xs ! i" using assms by (intro sorted_nth_mono) simp_all
    then show False using that scan_nth [of xs key] \<open>\<not> i < scan xs key\<close> assms(2) by simp
  qed
qed

lemma find_upt:
  "List.find P [a ..< b] = Some m \<longleftrightarrow> a \<le> m \<and> m < b \<and> P m \<and> (\<forall>i. a \<le> i \<and> i < m \<longrightarrow> \<not> P i)"
proof -
  have "List.find P [a ..< b] = Some m \<longleftrightarrow> (\<exists>i < b - a. P (a + i) \<and> m = a + i \<and> (\<forall>j < i. \<not> P (a + j)))"
    by (auto simp: find_Some_iff)
  also have "\<dots> \<longleftrightarrow> a \<le> m \<and> m < b \<and> P m \<and> (\<forall>i. a \<le> i \<and> i < m \<longrightarrow> \<not> P i)"
  proof safe
    fix i k assume "i < b - a" "\<forall>j < i. \<not> P (a + j)" "a \<le> k" "k < a + i" "P k"
    then show False by (metis add_less_cancel_left le_add_diff_inverse)
  next
    assume "a \<le> m" "m < b" "P m" "\<forall>i. a \<le> i \<and> i < m \<longrightarrow> \<not> P i"
    then show "\<exists>i < b - a. P (a + i) \<and> m = a + i \<and> (\<forall>j < i. \<not> P (a + j))"
      by (intro exI [of _ "m - a"]) auto
  qed auto
  finally show ?thesis .
qed

lemma find_upt_None: "List.find P [a ..< b] = None \<longleftrightarrow> (\<forall>i. a \<le> i \<and> i < b \<longrightarrow> \<not> P i)"
  by (auto simp: find_None_iff)

lemma fold_count_upt:
  assumes "a \<le> m" and "m \<le> b" and "\<And>i. a \<le> i \<Longrightarrow> i < m \<Longrightarrow> P i" and "\<And>i. m \<le> i \<Longrightarrow> i < b \<Longrightarrow> \<not> P i"
  shows "fold (\<lambda>i s. s + of_bool (P i)) [a ..< b] (s :: nat) = s + (m - a)"
proof -
  have lo: "fold (\<lambda>i s. s + of_bool (P i)) [a ..< a + k] s = s + k" if "a + k \<le> m" for k
    using that by (induction k) (simp_all add: assms(3))
  have hi: "fold (\<lambda>i s. s + of_bool (P i)) [m ..< m + k] r = (r :: nat)" if "m + k \<le> b" for k r
    using that by (induction k) (simp_all add: assms(4))
  have "[a ..< b] = [a ..< a + (m - a)] @ [m ..< m + (b - m)]"
    using assms(1,2) upt_add_eq_append [of a m "b - m"] by simp
  then show ?thesis using lo [of "m - a"] hi [of "b - m"] assms(1,2) by simp
qed

section \<open>The invariant of a node\<close>

definition index_ok :: "node_cfg \<Rightarrow> ('k, 'd) node \<Rightarrow> bool" where
  \<comment> \<open>entry i of the secondary index is the largest key of block i\<close>
  "index_ok c n =
     (\<forall>i < last_idx c n. node_index n ! i = node_keys n ! (min ((i + 1) * NodeIndexSize c) (node_size n) - 1))"

definition node_shape :: "node_cfg \<Rightarrow> ('k, 'd) node \<Rightarrow> bool" where
  "node_shape c n =
     (0 < NodeIndexSize c \<and> length (node_index n) = Indexes c \<and> length (node_keys n) = NodeSize c
      \<and> length (node_data n) = NodeSize c \<and> node_size n \<le> NodeSize c)"

definition node_ok :: "node_cfg \<Rightarrow> ('k, 'd) node \<Rightarrow> bool" where
  "node_ok c n = (node_shape c n \<and> index_ok c n)"

definition keys_of :: "('k, 'd) node \<Rightarrow> 'k list" where
  "keys_of n = take (node_size n) (node_keys n)"

definition entries :: "('k, 'd) node \<Rightarrow> ('k \<times> 'd) list" where
  "entries n = zip (take (node_size n) (node_keys n)) (take (node_size n) (node_data n))"

lemma last_idx_less: "node_ok c n \<Longrightarrow> i < last_idx c n \<longleftrightarrow> i * NodeIndexSize c < node_size n"
  by (simp add: last_idx_def ceil_less_iff node_ok_def node_shape_def)

lemma index_nth:
  assumes "node_ok c n" and "i * NodeIndexSize c < node_size n"
  shows "node_index n ! i = keys_of n ! (min ((i + 1) * NodeIndexSize c) (node_size n) - 1)"
    and "min ((i + 1) * NodeIndexSize c) (node_size n) - 1 < length (keys_of n)"
proof -
  have "i < last_idx c n" using assms by (simp add: last_idx_less)
  then have eq: "node_index n ! i = node_keys n ! (min ((i + 1) * NodeIndexSize c) (node_size n) - 1)"
    using assms(1) by (simp add: node_ok_def index_ok_def)
  have lt: "min ((i + 1) * NodeIndexSize c) (node_size n) - 1 < node_size n" using assms(2) by auto
  then show "node_index n ! i = keys_of n ! (min ((i + 1) * NodeIndexSize c) (node_size n) - 1)"
    using eq by (simp add: keys_of_def)
  show "min ((i + 1) * NodeIndexSize c) (node_size n) - 1 < length (keys_of n)"
    using lt assms(1) by (simp add: keys_of_def node_ok_def node_shape_def)
qed

lemma length_keys_of: "node_ok c n \<Longrightarrow> length (keys_of n) = node_size n"
  by (simp add: keys_of_def node_ok_def node_shape_def)

lemma keys_of_nth: "i < node_size n \<Longrightarrow> keys_of n ! i = node_keys n ! i"
  by (simp add: keys_of_def)

lemma index_less_iff:
  \<comment> \<open>a block's index entry is below the key iff the whole block is\<close>
  assumes ok: "node_ok c n" and sorted: "sorted (keys_of n)" and i: "i * NodeIndexSize c < node_size n"
  shows "node_index n ! i < key \<longleftrightarrow> min ((i + 1) * NodeIndexSize c) (node_size n) \<le> scan (keys_of n) key"
proof -
  have "0 < NodeIndexSize c" using ok by (simp add: node_ok_def node_shape_def)
  then have "0 < min ((i + 1) * NodeIndexSize c) (node_size n)" using i by simp
  then show ?thesis using index_nth [OF ok i] scan_sorted [OF sorted, of _ key] by auto
qed

lemma find_key_scan:
  assumes ok: "node_ok c n" and sorted: "sorted (keys_of n)"
  shows "find_key c n key = scan (keys_of n) key"
proof -
  let ?B = "NodeIndexSize c" and ?s = "node_size n" and ?m = "scan (keys_of n) key"
  have B: "0 < ?B" using ok by (simp add: node_ok_def node_shape_def)
  have len: "length (keys_of n) = ?s" by (rule length_keys_of [OF ok])
  note idx = index_less_iff [OF ok sorted, of _ key] and m_le = scan_le [of "keys_of n" key, unfolded len]
  show ?thesis
  proof (cases "?m = ?s")
    case True
    then have "List.find (\<lambda>i. key \<le> node_index n ! i) [0 ..< last_idx c n] = None"
      by (auto simp: find_upt_None last_idx_less [OF ok] not_le idx)
    then show ?thesis using True by (simp add: find_key_def)
  next
    case False
    then have m: "?m < ?s" using m_le by simp
    let ?b = "?m div ?B"
    have b: "?b * ?B \<le> ?m" "?m < (?b + 1) * ?B" by (rule div_block [OF B])+
    have fst: "List.find (\<lambda>i. key \<le> node_index n ! i) [0 ..< last_idx c n] = Some ?b"
    proof (subst find_upt, intro conjI allI impI)
      have bs: "?b * ?B < ?s" using b m by linarith
      then show "?b < last_idx c n" by (simp add: last_idx_less [OF ok])
      show "key \<le> node_index n ! ?b" using idx [OF bs] b m by auto
      fix i assume "0 \<le> i \<and> i < ?b"
      then have "(i + 1) * ?B \<le> ?b * ?B" by (intro mult_le_mono1) simp
      then have "(i + 1) * ?B \<le> ?m" using b by linarith
      moreover have "i * ?B < (i + 1) * ?B" using B by simp
      ultimately have "node_index n ! i < key" using idx [of i] m by simp
      then show "\<not> key \<le> node_index n ! i" by simp
    qed simp
    have snd: "List.find (\<lambda>i. key \<le> node_keys n ! i) [?b * ?B ..< ?b * ?B + ?B] = Some ?m"
    proof (subst find_upt, intro conjI allI impI)
      show "?b * ?B \<le> ?m" by (rule b)
      show "?m < ?b * ?B + ?B" using b by simp
      show "key \<le> node_keys n ! ?m" using scan_nth [of "keys_of n" key] m len by (simp add: keys_of_nth)
      fix i assume "?b * ?B \<le> i \<and> i < ?m"
      then show "\<not> key \<le> node_keys n ! i" using scan_less [of i "keys_of n" key] m by (simp add: keys_of_nth)
    qed
    show ?thesis using fst snd by (simp add: find_key_def)
  qed
qed

lemma find_key2_scan:
  assumes ok: "node_ok c n" and sorted: "sorted (keys_of n)"
  shows "find_key2 c n key = scan (keys_of n) key"
proof -
  let ?B = "NodeIndexSize c" and ?s = "node_size n" and ?m = "scan (keys_of n) key"
  have B: "0 < ?B" using ok by (simp add: node_ok_def node_shape_def)
  have len: "length (keys_of n) = ?s" by (rule length_keys_of [OF ok])
  note idx = index_less_iff [OF ok sorted, of _ key] and m_le = scan_le [of "keys_of n" key, unfolded len]
  show ?thesis
  proof (cases "?m = ?s")
    case True
    then have "fold (\<lambda>i s. s + of_bool (key > node_index n ! i)) [0 ..< last_idx c n] 0 = 0 + (last_idx c n - 0)"
      by (intro fold_count_upt) (auto simp: last_idx_less [OF ok] idx)
    then show ?thesis using True by (simp add: find_key2_def)
  next
    case False
    then have m: "?m < ?s" using m_le by simp
    let ?b = "?m div ?B"
    have b: "?b * ?B \<le> ?m" "?m < (?b + 1) * ?B" by (rule div_block [OF B])+
    then have bl: "?b < last_idx c n" using le_less_trans [OF b(1) m] by (simp only: last_idx_less [OF ok])
    have fst: "fold (\<lambda>i s. s + of_bool (key > node_index n ! i)) [0 ..< last_idx c n] 0 = 0 + (?b - 0)"
    proof (rule fold_count_upt)
      fix i assume "i < ?b"
      then have "(i + 1) * ?B \<le> ?b * ?B" by (intro mult_le_mono1) simp
      then have "(i + 1) * ?B \<le> ?m" using b by linarith
      moreover have "i * ?B < (i + 1) * ?B" using B by simp
      ultimately show "key > node_index n ! i" using idx [of i] m by simp
    next
      fix i assume i: "?b \<le> i" "i < last_idx c n"
      have "(?b + 1) * ?B \<le> (i + 1) * ?B" using i by (intro mult_le_mono1) simp
      then have "?m < (i + 1) * ?B" by (rule less_le_trans [OF b(2)])
      then have "\<not> min ((i + 1) * ?B) ?s \<le> ?m" using m by linarith
      then show "\<not> key > node_index n ! i" using idx [of i] i by (simp only: last_idx_less [OF ok] simp_thms)
    qed (use bl in simp_all)
    let ?x = "if ?b * ?B + ?B < ?s then ?b * ?B + ?B else ?s"
    have snd: "fold (\<lambda>i s. s + of_bool (key > node_keys n ! i)) [?b * ?B ..< ?x] (?b * ?B) = ?b * ?B + (?m - ?b * ?B)"
    proof (rule fold_count_upt)
      fix i assume "?b * ?B \<le> i" "i < ?m"
      then show "key > node_keys n ! i" using scan_less [of i "keys_of n" key] m by (simp add: keys_of_nth)
    next
      fix i assume "?m \<le> i" "i < ?x"
      moreover from this have "i < ?s" by (simp split: if_splits)
      ultimately show "\<not> key > node_keys n ! i" using scan_sorted [OF sorted, of i key] len by (simp add: keys_of_nth)
    qed (use b m in auto)
    show ?thesis using fst snd bl b by (simp add: find_key2_def)
  qed
qed

lemma lower_bound_scan:
  assumes "sorted xs" and "first \<le> scan xs key" and "scan xs key \<le> first + len" and "first + len \<le> length xs"
  shows "lower_bound xs key first len = scan xs key"
  using assms
proof (induction xs key first len rule: lower_bound.induct [case_names step])
  case (step xs key first len)
  note sub = step.prems
  show ?case
  proof (cases "0 < len")
    case True
    let ?half = "len div 2"
    have half: "?half < len" using True by simp
    show ?thesis
    proof (cases "xs ! (first + ?half) < key")
      case less: True
      have "first + ?half < scan xs key"
        using less half sub(4) by (simp add: scan_sorted [OF sub(1), symmetric])
      then have "lower_bound xs key (first + ?half + 1) (len - ?half - 1) = scan xs key"
        using step.IH(1) [OF True refl refl less sub(1)] sub half by simp
      then show ?thesis using True less by (subst lower_bound.simps) (simp add: Let_def)
    next
      case ge: False
      have "\<not> first + ?half < scan xs key" using ge scan_less by blast
      then have "lower_bound xs key first ?half = scan xs key"
        using step.IH(2) [OF True refl refl ge sub(1)] sub half by simp
      then show ?thesis using True ge by (subst lower_bound.simps) (simp add: Let_def)
    qed
  next
    case False
    then show ?thesis using sub by (subst lower_bound.simps) simp
  qed
qed

lemma find_key3_scan:
  assumes "node_ok c n" and "sorted (keys_of n)"
  shows "find_key3 n key = scan (keys_of n) key"
proof -
  have same: "lower_bound (node_keys n) key a len = lower_bound (keys_of n) key a len" if "a + len \<le> node_size n" for a len
    using that
  proof (induction "node_keys n" key a len rule: lower_bound.induct [case_names step])
    case (step key a len)
    show ?case
    proof (cases "0 < len")
      case True
      then show ?thesis
        using step.hyps(1) [OF True refl refl] step.hyps(2) [OF True refl refl] step.prems
        by (subst (1 2) lower_bound.simps) (simp add: Let_def keys_of_nth)
    qed (simp add: lower_bound.simps)
  qed
  show ?thesis
    using lower_bound_scan [OF assms(2), of 0 key "node_size n"] same [of 0 "node_size n"] scan_le [of "keys_of n" key]
    by (simp add: find_key3_def length_keys_of [OF assms(1)])
qed

section \<open>Updates\<close>

lemma fold_update_upt:
  "length (fold (\<lambda>i l. l[i := f i]) [a ..< b] xs) = length xs"
  "j < length xs \<Longrightarrow> fold (\<lambda>i l. l[i := f i]) [a ..< b] xs ! j = (if a \<le> j \<and> j < b then f j else xs ! j)"
proof -
  have "length (fold (\<lambda>i l. l[i := f i]) [a ..< b] xs) = length xs
    \<and> (j < length xs \<longrightarrow> fold (\<lambda>i l. l[i := f i]) [a ..< b] xs ! j = (if a \<le> j \<and> j < b then f j else xs ! j))" for j
  proof (induction b)
    case (Suc b)
    then show ?case by (cases "a \<le> b") (auto simp: nth_list_update less_Suc_eq)
  qed simp
  then show "length (fold (\<lambda>i l. l[i := f i]) [a ..< b] xs) = length xs"
    and "j < length xs \<Longrightarrow> fold (\<lambda>i l. l[i := f i]) [a ..< b] xs ! j = (if a \<le> j \<and> j < b then f j else xs ! j)"
    by blast+
qed

lemma reindex_fields [simp]:
  "node_size (reindex c n) = node_size n" "node_keys (reindex c n) = node_keys n"
  "node_data (reindex c n) = node_data n"
  "node_type (reindex c n) = node_type n" "metadata_size (reindex c n) = metadata_size n"
  "snapshot_id (reindex c n) = snapshot_id n" "node_id (reindex c n) = node_id n"
  "length (node_index (reindex c n)) = length (node_index n)"
  by (simp_all add: reindex_def Let_def fold_update_upt)

lemma node_shape_reindex [simp]: "node_shape c (reindex c n) = node_shape c n"
  by (simp add: node_shape_def)

lemma reindex_ok:
  assumes shape: "node_shape c n"
  shows "node_ok c (reindex c n)"
proof -
  let ?B = "NodeIndexSize c" and ?s = "node_size n"
  have B: "0 < ?B" and s: "?s \<le> NodeSize c" and len: "length (node_index n) = Indexes c" 
    using shape by (simp_all add: node_shape_def)
  have "node_index (reindex c n) ! i = node_keys n ! (min ((i + 1) * ?B) ?s - 1)" if i: "i * ?B < ?s" for i
  proof -
    let ?F = "fold (\<lambda>i l. l[i := node_keys n ! (i * ?B + ?B - 1)]) [0 ..< ?s div ?B] (replicate (Indexes c) 0)"
    have "i * ?B < NodeSize c" using i s by simp
    then have il: "i < length ?F" by (simp add: fold_update_upt Indexes_def ceil_less_iff [OF B])
    have nz: "?s \<noteq> 0" using i by simp
    have mx: "(if ?s mod ?B = 0 then ?s else ?s - ?s mod ?B) div ?B = ?s div ?B"
      using B by (simp add: minus_mod_eq_mult_div)
    have eq: "node_index (reindex c n) = ?F[(?s - 1) div ?B := node_keys n ! (?s - 1)]"
      using nz by (simp add: reindex_def Let_def mx len)
    show ?thesis
    proof (cases "i = (?s - 1) div ?B")
      case True
      have "?s - 1 < (i + 1) * ?B" unfolding True by (rule div_block [OF B])
      then have "min ((i + 1) * ?B) ?s = ?s" by simp
      then show ?thesis using True il by (simp only: eq nth_list_update_eq)
    next
      case False
      have "i \<le> (?s - 1) div ?B" using i by (simp add: less_eq_div_iff_mult_less_eq [OF B])
      then have "i + 1 \<le> (?s - 1) div ?B" using False by simp
      then have "(i + 1) * ?B \<le> ?s - 1" by (simp only: less_eq_div_iff_mult_less_eq [OF B])
      then have le: "(i + 1) * ?B \<le> ?s" by simp
      then have "i + 1 \<le> ?s div ?B" by (simp only: less_eq_div_iff_mult_less_eq [OF B])
      then have "?F ! i = node_keys n ! (i * ?B + ?B - 1)" using il by (simp add: fold_update_upt)
      moreover have "i * ?B + ?B = min ((i + 1) * ?B) ?s" using le by simp
      ultimately show ?thesis using False by (simp only: eq nth_list_update_neq)
    qed
  qed
  then have "index_ok c (reindex c n)"
    using B by (simp add: index_ok_def last_idx_def ceil_less_iff [OF B])
  then show ?thesis using shape by (simp add: node_ok_def)
qed

lemma length_clear_cells [simp]: "length (clear_cells a b xs) = length xs"
  by (simp add: clear_cells_def fold_update_upt)

lemma take_clear_cells: "k \<le> a \<Longrightarrow> take k (clear_cells a b xs) = take k xs"
  by (rule nth_equalityI) (simp_all add: clear_cells_def fold_update_upt)

lemma CopyBuffer_in:
  assumes "d + m \<le> length dst" and "s + m \<le> length src"
  shows "length (CopyBuffer src s dst d m) = length dst"
    and "take d (CopyBuffer src s dst d m) = take d dst"
    and "take (d + m) (CopyBuffer src s dst d m) = take d dst @ take m (drop s src)"
  using assms by (simp_all add: CopyBuffer_def)

lemma take_insert_cell:
  assumes "i \<le> sz" and "sz < length xs"
  shows "take (Suc sz) ((CopyBuffer xs i xs (i + 1) (sz - i))[i := x]) = take i xs @ x # drop i (take sz xs)"
    and "length ((CopyBuffer xs i xs (i + 1) (sz - i))[i := x]) = length xs"
proof -
  have len: "length (CopyBuffer xs i xs (i + 1) (sz - i)) = length xs"
    using assms by (intro CopyBuffer_in) simp_all
  then show "length ((CopyBuffer xs i xs (i + 1) (sz - i))[i := x]) = length xs" by simp
  have "take (Suc sz) (CopyBuffer xs i xs (i + 1) (sz - i)) = take (i + 1) xs @ take (sz - i) (drop i xs)"
    using CopyBuffer_in(3) [of "i + 1" "sz - i" xs i xs] assms by simp
  also have "take (i + 1) xs = take i xs @ [xs ! i]" using assms by (simp add: take_Suc_conv_app_nth)
  finally have "take (Suc sz) ((CopyBuffer xs i xs (i + 1) (sz - i))[i := x])
      = (take i xs @ [xs ! i] @ take (sz - i) (drop i xs))[i := x]"
    by (simp add: take_update_swap)
  then show "take (Suc sz) ((CopyBuffer xs i xs (i + 1) (sz - i))[i := x]) = take i xs @ x # drop i (take sz xs)"
    using assms by (simp add: list_update_append drop_take)
qed

lemma take_remove_cells:
  assumes "s \<le> e" and "e \<le> sz" and "sz \<le> length xs"
  shows "take (sz - (e - s)) (clear_cells (sz - (e - s)) sz (CopyBuffer xs e xs s (sz - e)))
      = take s xs @ drop e (take sz xs)"
    and "length (clear_cells (sz - (e - s)) sz (CopyBuffer xs e xs s (sz - e))) = length xs"
proof -
  have "length (CopyBuffer xs e xs s (sz - e)) = length xs" using assms by (intro CopyBuffer_in) simp_all
  then show "length (clear_cells (sz - (e - s)) sz (CopyBuffer xs e xs s (sz - e))) = length xs" by simp
  have "sz - (e - s) = s + (sz - e)" using assms by simp
  then show "take (sz - (e - s)) (clear_cells (sz - (e - s)) sz (CopyBuffer xs e xs s (sz - e)))
      = take s xs @ drop e (take sz xs)"
    using CopyBuffer_in(3) [of s "sz - e" xs e xs] assms by (simp add: take_clear_cells drop_take)
qed

lemma node_insert:
  assumes ok: "node_ok c n" and i: "i \<le> node_size n" and room: "has_space c n"
  shows "node_ok c (node_insert c n i k d)"
    and "entries (node_insert c n i k d) = take i (entries n) @ (k, d) # drop i (entries n)"
proof -
  have lt: "node_size n < NodeSize c" using room by (simp add: has_space_def)
  have shape: "node_shape c n" using ok by (simp add: node_ok_def)
  have keys: "node_size n < length (node_keys n)" and data: "node_size n < length (node_data n)"
    using shape lt by (simp_all add: node_shape_def)
  show "node_ok c (node_insert c n i k d)"
    unfolding node_insert_def insert_key_def Let_def
    by (rule reindex_ok)
      (use shape lt take_insert_cell(2) [OF i keys] take_insert_cell(2) [OF i data] in \<open>simp add: node_shape_def\<close>)
  show "entries (node_insert c n i k d) = take i (entries n) @ (k, d) # drop i (entries n)"
    using take_insert_cell(1) [OF i keys] take_insert_cell(1) [OF i data] i keys data
    by (simp add: entries_def node_insert_def insert_key_def Let_def zip_append take_zip drop_zip min_absorb1)
qed

lemma node_remove:
  assumes ok: "node_ok c n" and s: "s \<le> e" and e: "e \<le> node_size n"
  shows "node_ok c (node_remove c n s e)"
    and "entries (node_remove c n s e) = take s (entries n) @ drop e (entries n)"
proof -
  have shape: "node_shape c n" using ok by (simp add: node_ok_def)
  then have keys: "node_size n \<le> length (node_keys n)" and data: "node_size n \<le> length (node_data n)"
    by (simp_all add: node_shape_def)
  show "node_ok c (node_remove c n s e)"
    unfolding node_remove_def remove_keys_def Let_def
    by (rule reindex_ok)
      (use shape take_remove_cells(2) [OF s e keys] take_remove_cells(2) [OF s e data] in \<open>auto simp: node_shape_def\<close>)
  show "entries (node_remove c n s e) = take s (entries n) @ drop e (entries n)"
    using take_remove_cells(1) [OF s e keys] take_remove_cells(1) [OF s e data] s e keys data
    by (simp add: entries_def node_remove_def remove_keys_def Let_def zip_append take_zip drop_zip min_absorb1)
qed

lemma split_to:
  assumes ok: "node_ok c n" "node_ok c r" and empty: "node_size r = 0" and s: "s \<le> node_size n"
  shows "node_ok c (fst (split_to c n s r))" and "node_ok c (snd (split_to c n s r))"
    and "entries (fst (split_to c n s r)) = take s (entries n)"
    and "entries (snd (split_to c n s r)) = drop s (entries n)"
proof -
  have shape: "node_shape c n" "node_shape c r" using ok by (simp_all add: node_ok_def)
  then have len: "node_size n \<le> length (node_keys n)" "node_size n \<le> length (node_data n)"
      "node_size n \<le> length (node_keys r)" "node_size n \<le> length (node_data r)"
    by (simp_all add: node_shape_def)
  have "node_size n \<le> NodeSize c" using shape by (simp add: node_shape_def)
  then have diff: "node_size n - s \<le> NodeSize c" "s + (node_size n - s) = node_size n" using s by linarith+
  show "node_ok c (fst (split_to c n s r))" "node_ok c (snd (split_to c n s r))"
    unfolding split_to_def split_keys_to_def Let_def fst_conv snd_conv
    by (rule reindex_ok, use shape empty len diff in \<open>simp add: node_shape_def CopyBuffer_in(1)\<close>)+
  show "entries (fst (split_to c n s r)) = take s (entries n)"
    using s len by (simp add: entries_def split_to_def split_keys_to_def Let_def take_clear_cells take_zip min_absorb1)
  show "entries (snd (split_to c n s r)) = drop s (entries n)"
    using s len empty diff le_trans [OF diff_le_self len(3), of s] le_trans [OF diff_le_self len(4), of s]
      CopyBuffer_in(3) [of 0 "node_size n - s" "node_keys r" s "node_keys n"]
      CopyBuffer_in(3) [of 0 "node_size n - s" "node_data r" s "node_data n"]
    by (simp add: entries_def split_to_def split_keys_to_def Let_def drop_zip drop_take)
qed

lemma merge_from:
  assumes ok: "node_ok c n" "node_ok c r" and room: "can_merge_with c n r"
  shows "node_ok c (fst (merge_from c n r))" and "node_ok c (snd (merge_from c n r))"
    and "entries (fst (merge_from c n r)) = entries n @ entries r" and "entries (snd (merge_from c n r)) = []"
proof -
  have shape: "node_shape c n" "node_shape c r" using ok by (simp_all add: node_ok_def)
  then have len: "node_size n + node_size r \<le> length (node_keys n)" "node_size n + node_size r \<le> length (node_data n)"
      "node_size r \<le> length (node_keys r)" "node_size r \<le> length (node_data r)"
    using room by (simp_all add: node_shape_def can_merge_with_def)
  show "node_ok c (fst (merge_from c n r))" "node_ok c (snd (merge_from c n r))"
    unfolding merge_from_def merge_keys_from_def Let_def fst_conv snd_conv
    by (rule reindex_ok, use shape len in \<open>simp add: node_shape_def CopyBuffer_in(1)\<close>)+
  show "entries (fst (merge_from c n r)) = entries n @ entries r"
    using len by (simp add: entries_def merge_from_def merge_keys_from_def Let_def CopyBuffer_in(3) zip_append)
  show "entries (snd (merge_from c n r)) = []"
    by (simp add: entries_def merge_from_def merge_keys_from_def Let_def)
qed


section \<open>What the tree relies on\<close>

text \<open>
  A node as its clients see it: a list of entries ordered by key, a search by key, insertion and
  removal at a position. The client lemmas connect positions with the finite map of the entries.
\<close>

locale key_node =
  fixes ok :: "'n \<Rightarrow> bool" and room :: "'n \<Rightarrow> bool" and ents :: "'n \<Rightarrow> ('k :: linorder \<times> 'd) list"
    and search :: "'n \<Rightarrow> 'k \<Rightarrow> nat" and ins :: "'n \<Rightarrow> nat \<Rightarrow> 'k \<Rightarrow> 'd \<Rightarrow> 'n" and rem :: "'n \<Rightarrow> nat \<Rightarrow> nat \<Rightarrow> 'n"
  assumes search: "ok n \<Longrightarrow> sorted (map fst (ents n)) \<Longrightarrow> search n k = scan (map fst (ents n)) k"
    and ins_ok: "ok n \<Longrightarrow> room n \<Longrightarrow> i \<le> length (ents n) \<Longrightarrow> ok (ins n i k d)"
    and ins_ents: "ok n \<Longrightarrow> room n \<Longrightarrow> i \<le> length (ents n) \<Longrightarrow>
      ents (ins n i k d) = take i (ents n) @ (k, d) # drop i (ents n)"
    and rem_ok: "ok n \<Longrightarrow> i \<le> j \<Longrightarrow> j \<le> length (ents n) \<Longrightarrow> ok (rem n i j)"
    and rem_ents: "ok n \<Longrightarrow> i \<le> j \<Longrightarrow> j \<le> length (ents n) \<Longrightarrow>
      ents (rem n i j) = take i (ents n) @ drop j (ents n)"
begin

lemma search_split:
  fixes n k
  assumes "ok n" and "sorted_wrt (<) (map fst (ents n))"
  defines "i \<equiv> search n k"
  shows "i \<le> length (ents n)" and "\<forall>e \<in> set (take i (ents n)). fst e < k" and "\<forall>e \<in> set (drop i (ents n)). k \<le> fst e"
proof -
  have s: "sorted (map fst (ents n))" using assms(2) by (rule strict_sorted_imp_sorted)
  then have i: "i = scan (map fst (ents n)) k" unfolding i_def by (rule search [OF assms(1)])
  then show len: "i \<le> length (ents n)" using scan_le [of "map fst (ents n)" k] by simp
  have nth: "fst (ents n ! j) < k \<longleftrightarrow> j < i" if "j < length (ents n)" for j
    using scan_sorted [OF s, of j k] that i by simp
  show "\<forall>e \<in> set (take i (ents n)). fst e < k"
    using nth len by (auto simp: in_set_conv_nth) (metis fst_conv less_le_trans)
  show "\<forall>e \<in> set (drop i (ents n)). k \<le> fst e"
  proof
    fix e assume "e \<in> set (drop i (ents n))"
    then obtain j where "j < length (ents n) - i" "e = ents n ! (i + j)" by (auto simp: in_set_conv_nth)
    then show "k \<le> fst e" using nth [of "i + j"] by (simp add: not_less less_diff_conv add.commute)
  qed
qed

lemma lookup:
  assumes "ok n" and "sorted_wrt (<) (map fst (ents n))"
  shows "map_of (ents n) k =
    (let i = search n k in if i < length (ents n) \<and> fst (ents n ! i) = k then Some (snd (ents n ! i)) else None)"
proof -
  let ?i = "search n k" and ?es = "ents n"
  note S = search_split [OF assms, of k]
  have low: "map_of (take ?i ?es) k = None" using S(2) by (auto simp: map_of_eq_None_iff)
  have split: "map_of ?es k = map_of (drop ?i ?es) k"
    using low by (metis append_take_drop_id map_add_find_right map_add_def map_of_append option.case_eq_if)
  show ?thesis
  proof (cases "?i < length ?es \<and> fst (?es ! ?i) = k")
    case True
    then have "drop ?i ?es = ?es ! ?i # drop (Suc ?i) ?es" by (simp add: Cons_nth_drop_Suc)
    then show ?thesis using True split by (simp add: Let_def)
  next
    case False
    have "fst e \<noteq> k" if e: "e \<in> set (drop ?i ?es)" for e
    proof -
      obtain m where m: "m < length ?es - ?i" "e = ?es ! (?i + m)" using e by (auto simp: in_set_conv_nth)
      define j where "j = ?i + m"
      have j: "?i \<le> j" "j < length ?es" "e = ?es ! j" using m by (auto simp: j_def)
      have "fst (?es ! ?i) \<le> fst (?es ! j)"
        using assms(2) j sorted_wrt_nth_less [OF assms(2), of ?i j] by (cases "?i = j") auto
      moreover have "k \<le> fst (?es ! ?i)" using S(3) j by (auto simp: Cons_nth_drop_Suc [symmetric])
      moreover have "?i < length ?es" using j by simp
      ultimately show ?thesis using False j by auto
    qed
    then have "map_of (drop ?i ?es) k = None" by (auto simp: map_of_eq_None_iff)
    then show ?thesis using False split by (auto simp: Let_def)
  qed
qed

lemma insert_new:
  fixes n k d
  assumes "ok n" and "room n" and st: "sorted_wrt (<) (map fst (ents n))" and new: "k \<notin> fst ` set (ents n)"
  defines "n' \<equiv> ins n (search n k) k d"
  shows "ok n'" and "sorted_wrt (<) (map fst (ents n'))" and "map_of (ents n') = (map_of (ents n))(k \<mapsto> d)"
proof -
  let ?i = "search n k" and ?es = "ents n"
  note S = search_split [OF assms(1) st, of k]
  show "ok n'" unfolding n'_def by (rule ins_ok [OF assms(1,2) S(1)])
  have es: "ents n' = take ?i ?es @ (k, d) # drop ?i ?es" unfolding n'_def by (rule ins_ents [OF assms(1,2) S(1)])
  have st2: "sorted_wrt (<) (map fst (take ?i ?es)) \<and> sorted_wrt (<) (map fst (drop ?i ?es))
      \<and> (\<forall>a \<in> set (take ?i ?es). \<forall>b \<in> set (drop ?i ?es). fst a < fst b)"
    using st sorted_wrt_append [of "(<)" "map fst (take ?i ?es)" "map fst (drop ?i ?es)"]
    by (simp add: map_append [symmetric] del: map_append)
  have hi: "k < fst b" if "b \<in> set (drop ?i ?es)" for b
    using S(3) that new set_drop_subset [of ?i ?es] by (metis image_eqI le_neq_trans subsetD)
  show "sorted_wrt (<) (map fst (ents n'))" using st2 S(2) hi by (auto simp: es sorted_wrt_append)
  have "map_of (take ?i ?es) k = None" using S(2) by (auto simp: map_of_eq_None_iff)
  then show "map_of (ents n') = (map_of ?es)(k \<mapsto> d)"
    unfolding es map_of_append by (subst (3) append_take_drop_id [of ?i ?es, symmetric])
      (auto simp: fun_eq_iff map_add_def map_of_append simp del: append_take_drop_id split: option.splits)
qed

lemma remove_present:
  assumes "ok n" and st: "sorted_wrt (<) (map fst (ents n))" and i: "i < length (ents n)"
  shows "ok (rem n i (i + 1))" and "sorted_wrt (<) (map fst (ents (rem n i (i + 1))))"
    and "map_of (ents (rem n i (i + 1))) = (map_of (ents n))(fst (ents n ! i) := None)"
proof -
  let ?es = "ents n" and ?k = "fst (ents n ! i)"
  show "ok (rem n i (i + 1))" by (rule rem_ok [OF assms(1)]) (use i in auto)
  have es: "ents (rem n i (i + 1)) = take i ?es @ drop (i + 1) ?es" by (rule rem_ents [OF assms(1)]) (use i in auto)
  have full: "?es = take i ?es @ ?es ! i # drop (i + 1) ?es" using i by (simp add: id_take_nth_drop)
  have "sorted_wrt (<) (map fst (take i ?es @ ?es ! i # drop (i + 1) ?es))" using st full by simp
  then have ord: "sorted_wrt (<) (map fst (take i ?es)) \<and> sorted_wrt (<) (map fst (drop (i + 1) ?es))
      \<and> (\<forall>a \<in> set (take i ?es). fst a < ?k \<and> (\<forall>b \<in> set (drop (i + 1) ?es). fst a < fst b))
      \<and> (\<forall>b \<in> set (drop (i + 1) ?es). ?k < fst b)"
    by (auto simp: sorted_wrt_append)
  show "sorted_wrt (<) (map fst (ents (rem n i (i + 1))))" using ord unfolding es by (auto simp: sorted_wrt_append)
  have none: "map_of (take i ?es) ?k = None" "map_of (drop (i + 1) ?es) ?k = None"
    using ord by (auto simp: map_of_eq_None_iff)
  show "map_of (ents (rem n i (i + 1))) = (map_of ?es)(?k := None)"
  proof
    fix x
    have "map_of ?es x = (map_of (drop (i + 1) ?es) ++ map_of [?es ! i] ++ map_of (take i ?es)) x"
      by (subst full) (simp only: map_of_append map_of.simps map_add_assoc map_add_upd map_add_empty)
    then show "map_of (ents (rem n i (i + 1))) x = ((map_of ?es)(?k := None)) x"
      using none unfolding es by (cases "?es ! i") (auto simp: map_add_def split: option.splits)
  qed
qed

end

lemma entries_keys: "node_ok c n \<Longrightarrow> map fst (entries n) = keys_of n"
  by (simp add: entries_def keys_of_def node_ok_def node_shape_def)

lemma length_entries: "node_ok c n \<Longrightarrow> length (entries n) = node_size n"
  by (simp add: entries_def node_ok_def node_shape_def)

lemma entries_nth: "node_ok c n \<Longrightarrow> i < node_size n \<Longrightarrow> entries n ! i = (node_keys n ! i, node_data n ! i)"
  by (simp add: entries_def node_ok_def node_shape_def)

interpretation nd: key_node "node_ok c" "has_space c" entries "find_key c" "node_insert c" "node_remove c" for c
proof
  fix n :: "('a, 'b) node" and k :: 'a and d :: 'b and i j :: nat
  assume ok: "node_ok c n"
  show "find_key c n k = scan (map fst (entries n)) k" if "sorted (map fst (entries n))"
    using find_key_scan [OF ok] that by (simp add: entries_keys [OF ok])
  show "node_ok c (node_insert c n i k d)" if "has_space c n" "i \<le> length (entries n)"
    by (rule node_insert [OF ok]) (use that length_entries [OF ok] in simp_all)
  show "entries (node_insert c n i k d) = take i (entries n) @ (k, d) # drop i (entries n)"
    if "has_space c n" "i \<le> length (entries n)"
    by (rule node_insert [OF ok]) (use that length_entries [OF ok] in simp_all)
  show "node_ok c (node_remove c n i j)" if "i \<le> j" "j \<le> length (entries n)"
    by (rule node_remove [OF ok]) (use that length_entries [OF ok] in simp_all)
  show "entries (node_remove c n i j) = take i (entries n) @ drop j (entries n)" if "i \<le> j" "j \<le> length (entries n)"
    by (rule node_remove [OF ok]) (use that length_entries [OF ok] in simp_all)
qed

section \<open>Properties of nodes\<close>

definition small_cfg :: node_cfg where
  "small_cfg = \<lparr>NodeSize = 4, NodeIndexSize = 2\<rparr>"

definition node_of :: "node_cfg \<Rightarrow> NodeType \<Rightarrow> ('k :: zero \<times> 'd :: zero) list \<Rightarrow> ('k, 'd) node" where
  \<comment> \<open>a node filled by insertions at its end\<close>
  "node_of c ty es =
     fold (\<lambda>(k, d) n. node_insert c n (node_size n) k d) es (NodeBase c 0 0 ty)"

lemma NodeBase_ok: "0 < NodeIndexSize c \<Longrightarrow> node_ok c (NodeBase c sid nid ty)"
  by (simp add: node_ok_def node_shape_def index_ok_def NodeBase_def last_idx_def)

lemma NodeBase_entries: "entries (NodeBase c sid nid ty) = []"
  by (simp add: entries_def NodeBase_def)

lemma node_of:
  assumes "0 < NodeIndexSize c" and "length es \<le> NodeSize c"
  shows "node_ok c (node_of c ty es) \<and> entries (node_of c ty es) = es"
  using assms(2)
proof (induction es rule: rev_induct)
  case Nil
  then show ?case using assms(1) by (simp add: node_of_def NodeBase_ok NodeBase_entries)
next
  case (snoc e es)
  obtain k d where e: "e = (k, d)" by (cases e)
  let ?n = "node_of c ty es"
  have ok: "node_ok c ?n" and es: "entries ?n = es" using snoc by simp_all
  have sz: "node_size ?n = length es" using length_entries [OF ok] es by simp
  then have "has_space c ?n" using snoc.prems by (simp add: has_space_def)
  then have "node_ok c (node_insert c ?n (node_size ?n) k d)"
    and "entries (node_insert c ?n (node_size ?n) k d) = es @ [(k, d)]"
    using node_insert [OF ok, of "node_size ?n" k d] es sz by simp_all
  then show ?case by (simp add: node_of_def e)
qed

text \<open>
  The three search routines of a node, the indexed scan \<open>find_key\<close>, its branch-free variant
  \<open>find_key2\<close> and the binary search \<open>find_key3\<close>, return the same position: the first key not
  smaller than the argument, or the size of the node.
\<close>

theorem find_key_variants_agree:
  assumes "node_ok c n" and "sorted (keys_of n)"
  shows "find_key2 c n key = find_key c n key \<and> find_key3 n key = find_key c n key
    \<and> find_key c n key \<le> node_size n
    \<and> (\<forall>i < node_size n. node_keys n ! i < key \<longleftrightarrow> i < find_key c n key)"
  using find_key_scan [OF assms] find_key2_scan [OF assms] find_key3_scan [OF assms]
    scan_le [of "keys_of n" key] scan_sorted [OF assms(2), of _ key] length_keys_of [OF assms(1)]
  by (auto simp: keys_of_nth)

theorem find_key_variants_agree_witness:
  "find_key2 small_cfg (node_of small_cfg LEAF [(10 :: nat, 1 :: nat), (20, 2), (30, 3)]) 25
    = find_key small_cfg (node_of small_cfg LEAF [(10 :: nat, 1 :: nat), (20, 2), (30, 3)]) 25"
proof -
  let ?es = "[(10 :: nat, 1 :: nat), (20, 2), (30, 3)]"
  have n: "node_ok small_cfg (node_of small_cfg LEAF ?es) \<and> entries (node_of small_cfg LEAF ?es) = ?es"
    by (rule node_of) (simp_all add: small_cfg_def)
  then have "keys_of (node_of small_cfg LEAF ?es) = [10, 20, 30]" using entries_keys [of small_cfg] by fastforce
  then show ?thesis using find_key_variants_agree [of small_cfg "node_of small_cfg LEAF ?es" 25] n by simp
qed

text \<open>
  C25: a key inserted at the position \<open>find_key\<close> returns is found again: the node keeps its
  invariant (shape, index, strictly increasing keys) and as a finite map it is updated at that
  key only. Removing an entry undoes exactly that entry.
\<close>

theorem node_insert_remove_refine_map:
  assumes "node_ok c n" and "sorted_wrt (<) (map fst (entries n))"
  shows "(has_space c n \<and> k \<notin> fst ` set (entries n) \<longrightarrow>
      (let n' = node_insert c n (find_key c n k) k d
       in node_ok c n' \<and> sorted_wrt (<) (map fst (entries n')) \<and> map_of (entries n') = (map_of (entries n))(k \<mapsto> d)))
    \<and> (\<forall>i < node_size n.
      (let n' = node_remove c n i (i + 1)
       in node_ok c n' \<and> sorted_wrt (<) (map fst (entries n'))
          \<and> map_of (entries n') = (map_of (entries n))(node_keys n ! i := None)))"
proof (intro conjI allI impI)
  assume "has_space c n \<and> k \<notin> fst ` set (entries n)"
  then show "let n' = node_insert c n (find_key c n k) k d
     in node_ok c n' \<and> sorted_wrt (<) (map fst (entries n')) \<and> map_of (entries n') = (map_of (entries n))(k \<mapsto> d)"
    using nd.insert_new [OF assms(1) _ assms(2), of k d] by (simp add: Let_def)
next
  fix i assume i: "i < node_size n"
  then show "let n' = node_remove c n i (i + 1)
     in node_ok c n' \<and> sorted_wrt (<) (map fst (entries n'))
        \<and> map_of (entries n') = (map_of (entries n))(node_keys n ! i := None)"
    using nd.remove_present [OF assms, of i] length_entries [OF assms(1)] entries_nth [OF assms(1) i]
    by (simp add: Let_def)
qed

theorem node_insert_remove_refine_map_witness:
  "map_of (entries (node_insert small_cfg (node_of small_cfg LEAF [(10 :: nat, 1 :: nat), (30, 3)])
      (find_key small_cfg (node_of small_cfg LEAF [(10 :: nat, 1 :: nat), (30, 3)]) 20) 20 2))
    = [10 \<mapsto> 1, 30 \<mapsto> 3, 20 \<mapsto> 2]"
proof -
  let ?es = "[(10 :: nat, 1 :: nat), (30, 3)]" and ?n = "node_of small_cfg LEAF [(10 :: nat, 1 :: nat), (30, 3)]"
  have n: "node_ok small_cfg ?n \<and> entries ?n = ?es"
    by (rule node_of) (simp_all add: small_cfg_def)
  then have "has_space small_cfg ?n" using length_entries [of small_cfg ?n] by (simp add: has_space_def small_cfg_def)
  then show ?thesis
    using node_insert_remove_refine_map [of small_cfg ?n 20 2] n
    by (simp add: Let_def fun_upd_twist [of "10 :: nat" 30])
qed

text \<open>
  C28: splitting a node at any position into an empty one distributes its entries without loss and
  merging the two halves gives the original entries back; all four nodes satisfy the invariant.
\<close>

theorem split_merge_roundtrip:
  assumes "node_ok c n" and "node_ok c r" and "node_size r = 0" and "s \<le> node_size n"
  shows "case split_to c n s r of (a, b) \<Rightarrow>
      node_ok c a \<and> node_ok c b \<and> entries a = take s (entries n) \<and> entries b = drop s (entries n)
      \<and> (case merge_from c a b of (m, e) \<Rightarrow> node_ok c m \<and> entries m = entries n \<and> node_ok c e \<and> entries e = [])"
proof -
  obtain a b where ab: "split_to c n s r = (a, b)" by (cases "split_to c n s r")
  note S = split_to [OF assms, unfolded ab fst_conv snd_conv]
  have "node_size a + node_size b = node_size n"
    using length_entries [OF S(1)] length_entries [OF S(2)] length_entries [OF assms(1)] S(3,4) assms(4) by simp
  then have "can_merge_with c a b" using assms(1) by (simp add: can_merge_with_def node_ok_def node_shape_def)
  then show ?thesis using S merge_from [OF S(1,2)] by (auto simp: ab split: prod.splits)
qed

theorem split_merge_roundtrip_witness:
  "entries (fst (split_to small_cfg (node_of small_cfg LEAF [(10 :: nat, 1 :: nat), (20, 2), (30, 3)]) 1 (NodeBase small_cfg 0 0 LEAF)))
    = [(10, 1)]"
proof -
  let ?es = "[(10 :: nat, 1 :: nat), (20, 2), (30, 3)]"
  let ?n = "node_of small_cfg LEAF ?es"
  have n: "node_ok small_cfg ?n \<and> entries ?n = ?es" by (rule node_of) (simp_all add: small_cfg_def)
  have r: "node_ok small_cfg (NodeBase small_cfg 0 0 LEAF :: (nat, nat) node)" by (rule NodeBase_ok) (simp add: small_cfg_def)
  show ?thesis
    using split_merge_roundtrip [of small_cfg ?n "NodeBase small_cfg 0 0 LEAF" 1] n r length_entries [of small_cfg ?n]
    by (auto simp: NodeBase_def split: prod.splits)
qed

end
