(* ===== verification/PTree.thy ===== *)
theory PTree
  imports PTree_Node "HOL-Library.Monad_Syntax"
begin

text \<open>
  The copy-on-write B+tree that maps block identifiers to blocks in every snapshot of the in-memory
  store (\<^verbatim>\<open>store/memory/common/persistent_tree.hpp\<close>, \<^verbatim>\<open>persistent_tree_iterator.hpp\<close>, and the parts of
  \<^verbatim>\<open>store_base.hpp\<close> and \<^verbatim>\<open>snapshot_base.hpp\<close> that drive it).

  The state is a \<open>store\<close>: the heap of nodes, their reference counts, the reference counts of the blocks, and
  the history nodes (one per snapshot) with their roots. A node address is a natural number, 0 is
  \<open>nullptr\<close>; \<open>new\<close> takes the next unused address. Every operation threads the store explicitly in the
  option monad: \<open>None\<close> is undefined behaviour of the code (a dereferenced address that is not a live
  node, a wrong \<open>static_cast\<close>, an index outside an array) or a failed \<open>MEMORIA_ASSERT\<close>. A path is the list
  of the nodes from the leaf (position 0) to the root, at most 8 long as in \<open>StaticArray<NodeBaseT*, 8>\<close>.
  Random node identifiers are drawn from a counter: only their distinctness matters. Locks are not modelled: an
  operation runs alone.
\<close>

section \<open>Store\<close>

datatype pvalue = PersistentTreeValue (block_ptr: nat) (value_snapshot: nat)

instantiation pvalue :: zero
begin

definition zero_pvalue :: pvalue where
  "zero_pvalue = PersistentTreeValue 0 0"

instance ..

end

datatype 'k tnode = Branch (branch_of: "('k, nat) node") | Leaf (leaf_of: "('k, pvalue) node")

datatype SnapshotStatus = ACTIVE | COMMITTED | DROPPED | DATA_LOCKED

record hnode =
  hn_parent :: "nat option"
  hn_root :: nat
  hn_root_id :: nat
  hn_status :: SnapshotStatus

record 'k store =
  nodes :: "nat \<Rightarrow> 'k tnode option"
  refs :: "nat \<Rightarrow> int"
  next_node :: nat
  next_id :: nat
  blocks :: "nat \<Rightarrow> int option"
  hist :: "nat \<Rightarrow> hnode option"

type_synonym path = "nat list"

definition get_branch :: "'k store \<Rightarrow> nat \<Rightarrow> ('k, nat) node option" where
  "get_branch s a = (case nodes s a of Some (Branch n) \<Rightarrow> Some n | _ \<Rightarrow> None)"

definition get_leaf :: "'k store \<Rightarrow> nat \<Rightarrow> ('k, pvalue) node option" where
  "get_leaf s a = (case nodes s a of Some (Leaf n) \<Rightarrow> Some n | _ \<Rightarrow> None)"

definition put_branch :: "'k store \<Rightarrow> nat \<Rightarrow> ('k, nat) node \<Rightarrow> 'k store" where
  "put_branch s a n = s\<lparr>nodes := (nodes s)(a \<mapsto> Branch n)\<rparr>"

definition put_leaf :: "'k store \<Rightarrow> nat \<Rightarrow> ('k, pvalue) node \<Rightarrow> 'k store" where
  "put_leaf s a n = s\<lparr>nodes := (nodes s)(a \<mapsto> Leaf n)\<rparr>"

fun t_is_branch :: "'k tnode \<Rightarrow> bool" where
  "t_is_branch (Branch n) = is_branch n"
| "t_is_branch (Leaf n) = is_branch n"

fun t_is_leaf :: "'k tnode \<Rightarrow> bool" where
  "t_is_leaf (Branch n) = is_leaf n"
| "t_is_leaf (Leaf n) = is_leaf n"

fun t_size :: "'k tnode \<Rightarrow> nat" where
  "t_size (Branch n) = node_size n"
| "t_size (Leaf n) = node_size n"

fun t_max_key :: "'k tnode \<Rightarrow> 'k" where
  "t_max_key (Branch n) = max_key n"
| "t_max_key (Leaf n) = max_key n"

fun t_metadata :: "'k tnode \<Rightarrow> int" where
  "t_metadata (Branch n) = metadata_size n"
| "t_metadata (Leaf n) = metadata_size n"

fun t_set_metadata :: "int \<Rightarrow> 'k tnode \<Rightarrow> 'k tnode" where
  "t_set_metadata m (Branch n) = Branch (n\<lparr>metadata_size := m\<rparr>)"
| "t_set_metadata m (Leaf n) = Leaf (n\<lparr>metadata_size := m\<rparr>)"

fun t_snapshot :: "'k tnode \<Rightarrow> nat" where
  "t_snapshot (Branch n) = snapshot_id n"
| "t_snapshot (Leaf n) = snapshot_id n"

definition ref :: "'k store \<Rightarrow> nat \<Rightarrow> 'k store option" where
  "ref s a =
     (if nodes s a = None then None else Some (s\<lparr>refs := (refs s)(a := refs s a + 1)\<rparr>))"

definition unref :: "'k store \<Rightarrow> nat \<Rightarrow> (int \<times> 'k store) option" where
  \<comment> \<open>fails when the assertion \<open>r >= 0\<close> does\<close>
  "unref s a =
     (if nodes s a = None then None
      else (let r = refs s a - 1
            in if r \<ge> 0 then Some (r, s\<lparr>refs := (refs s)(a := r)\<rparr>) else None))"

definition block_ref :: "'k store \<Rightarrow> nat \<Rightarrow> 'k store option" where
  "block_ref s b =
     (case blocks s b of None \<Rightarrow> None | Some r \<Rightarrow> Some (s\<lparr>blocks := (blocks s)(b \<mapsto> r + 1)\<rparr>))"

definition block_unref :: "'k store \<Rightarrow> nat \<Rightarrow> (int \<times> 'k store) option" where
  "block_unref s b =
     (case blocks s b of None \<Rightarrow> None | Some r \<Rightarrow> Some (r - 1, s\<lparr>blocks := (blocks s)(b \<mapsto> r - 1)\<rparr>))"

definition block_delete :: "'k store \<Rightarrow> nat \<Rightarrow> 'k store" where
  "block_delete s b = s\<lparr>blocks := (blocks s)(b := None)\<rparr>"

fun foldM :: "('s \<Rightarrow> 'a \<Rightarrow> 's option) \<Rightarrow> 's \<Rightarrow> 'a list \<Rightarrow> 's option" where
  \<comment> \<open>a loop over a list whose body may fail\<close>
  "foldM f s [] = Some s"
| "foldM f s (x # xs) = do { s \<leftarrow> f s x; foldM f s xs }"

definition get_root :: "'k store \<Rightarrow> nat \<Rightarrow> nat option" where
  "get_root s h = map_option hn_root (hist s h)"

definition set_root :: "'k store \<Rightarrow> nat \<Rightarrow> nat \<Rightarrow> 'k store option" where
  "set_root s h new_root =
     do {
       hn \<leftarrow> hist s h;
       s \<leftarrow> (if hn_root hn \<noteq> 0 then map_option snd (unref s (hn_root hn)) else Some s);
       let s = s\<lparr>hist := (hist s)(h \<mapsto> hn\<lparr>hn_root := new_root\<rparr>)\<rparr>;
       (if new_root \<noteq> 0 then ref s new_root else Some s)
     }"

section \<open>Creating and cloning nodes\<close>

definition new_node_id :: "'k store \<Rightarrow> nat \<times> 'k store" where
  "new_node_id s = (next_id s, s\<lparr>next_id := next_id s + 1\<rparr>)"

definition new_node :: "'k store \<Rightarrow> 'k tnode \<Rightarrow> nat \<times> 'k store" where
  \<comment> \<open>\<open>new\<close>: an unused address, reference count 0\<close>
  "new_node s t =
     (next_node s, s\<lparr>nodes := (nodes s)(next_node s \<mapsto> t), refs := (refs s)(next_node s := 0), next_node := next_node s + 1\<rparr>)"

definition create_leaf_node :: "node_cfg \<Rightarrow> 'k :: zero store \<Rightarrow> nat \<Rightarrow> nat \<times> 'k store" where
  "create_leaf_node c s sid = (let (nid, s) = new_node_id s in new_node s (Leaf (NodeBase c sid nid LEAF)))"

definition create_branch_node :: "node_cfg \<Rightarrow> 'k :: zero store \<Rightarrow> nat \<Rightarrow> nat \<times> 'k store" where
  "create_branch_node c s sid = (let (nid, s) = new_node_id s in new_node s (Branch (NodeBase c sid nid BRANCH)))"

definition create_node :: "node_cfg \<Rightarrow> 'k :: zero store \<Rightarrow> nat \<Rightarrow> nat \<Rightarrow> nat \<times> 'k store" where
  "create_node c s level sid = (if level = 0 then create_leaf_node c s sid else create_branch_node c s sid)"

definition ref_children :: "'k store \<Rightarrow> ('k, nat) node \<Rightarrow> 'k store option" where
  "ref_children s n = foldM ref s (map (\<lambda>i. node_data n ! i) [0 ..< node_size n])"

definition clone_branch_node :: "node_cfg \<Rightarrow> 'k :: zero store \<Rightarrow> ('k, nat) node \<Rightarrow> nat \<Rightarrow> (nat \<times> 'k store) option" where
  "clone_branch_node c s n sid =
     do {
       let (nid, s) = new_node_id s;
       let m = copy_data_from c (NodeBase c sid nid BRANCH) n;
       let (a, s) = new_node s (Branch (m\<lparr>snapshot_id := sid, node_id := nid\<rparr>));
       s \<leftarrow> ref_children s n;
       Some (a, s)
     }"

definition clone_leaf_node :: "node_cfg \<Rightarrow> 'k :: zero store \<Rightarrow> ('k, pvalue) node \<Rightarrow> nat \<Rightarrow> (nat \<times> 'k store) option" where
  "clone_leaf_node c s n sid =
     do {
       let (nid, s) = new_node_id s;
       let m = copy_data_from c (NodeBase c sid nid LEAF) n;
       let m = m\<lparr>snapshot_id := sid, node_id := nid\<rparr>;
       let (a, s) = new_node s (Leaf m);
       s \<leftarrow> foldM block_ref s (map (\<lambda>i. block_ptr (node_data m ! i)) [0 ..< node_size m]);
       Some (a, s)
     }"

definition clone_node :: "node_cfg \<Rightarrow> 'k :: zero store \<Rightarrow> nat \<Rightarrow> nat \<Rightarrow> (nat \<times> 'k store) option" where
  "clone_node c s a sid =
     do {
       t \<leftarrow> nodes s a;
       if t_is_leaf t then do { n \<leftarrow> get_leaf s a; clone_leaf_node c s n sid }
       else do { n \<leftarrow> get_branch s a; clone_branch_node c s n sid }
     }"

definition remove_node :: "'k store \<Rightarrow> nat \<Rightarrow> 'k store option" where
  "remove_node s a = (if nodes s a = None then None else Some (s\<lparr>nodes := (nodes s)(a := None)\<rparr>))"

section \<open>Searching\<close>

definition child_for :: "node_cfg \<Rightarrow> ('k :: linorder, nat) node \<Rightarrow> 'k \<Rightarrow> nat option" where
  \<comment> \<open>\<open>find_child\<close>, which reads \<open>data_[-1]\<close> on an empty branch\<close>
  "child_for c n key = (if node_size n = 0 then None else Some (find_child c n key))"

partial_function (option) find_value_in ::
  "node_cfg \<Rightarrow> 'k :: linorder store \<Rightarrow> nat \<Rightarrow> 'k \<Rightarrow> pvalue option option" where
  "find_value_in c s a key =
     do {
       t \<leftarrow> nodes s a;
       if t_is_branch t then
         do { n \<leftarrow> get_branch s a; a \<leftarrow> child_for c n key; find_value_in c s a key }
       else
         do {
           n \<leftarrow> get_leaf s a;
           let idx = find_key c n key;
           Some (if idx < node_size n \<and> node_keys n ! idx = key then Some (node_data n ! idx) else None)
         }
     }"

declare find_value_in.simps [code]

definition ptree_find :: "node_cfg \<Rightarrow> 'k :: linorder store \<Rightarrow> nat \<Rightarrow> 'k \<Rightarrow> pvalue option option" where
  "ptree_find c s h key = do { r \<leftarrow> get_root s h; find_value_in c s r key }"

definition path_insert :: "path \<Rightarrow> nat \<Rightarrow> nat \<Rightarrow> path option" where
  \<comment> \<open>\<open>StaticArray::insert\<close>: writes past the array when 8 elements are there\<close>
  "path_insert p idx a = (if length p < 8 then Some (take idx p @ a # drop idx p) else None)"

definition path_at :: "path \<Rightarrow> nat \<Rightarrow> nat option" where
  "path_at p i = (if i < length p then Some (p ! i) else None)"

function locate_from :: "('k tnode \<Rightarrow> nat option) \<Rightarrow> 'k store \<Rightarrow> nat \<Rightarrow> path \<Rightarrow> (nat \<times> path) option" where
  \<comment> \<open>the descent shared by \<open>locate\<close>, \<open>locate_begin\<close> and \<open>locate_end\<close>, which differ in the choice of the child\<close>
  "locate_from child s a p =
     do {
       t \<leftarrow> nodes s a;
       if t_is_branch t then
         do {
           a' \<leftarrow> child t;
           p' \<leftarrow> path_insert p 0 a';
           locate_from child s a' p'
         }
       else Some (a, p)
     }"
  by pat_completeness auto

termination locate_from
  by (relation "measure (\<lambda>(_, _, _, p). 8 - length p)") (auto simp: path_insert_def split: if_splits)

declare locate_from.simps [simp del]

definition locate :: "node_cfg \<Rightarrow> 'k :: linorder store \<Rightarrow> nat \<Rightarrow> 'k \<Rightarrow> (path \<times> nat) option" where
  "locate c s a key =
     do {
       p \<leftarrow> path_insert [] 0 a;
       (a, p) \<leftarrow> locate_from (\<lambda>t. case t of Branch n \<Rightarrow> child_for c n key | Leaf _ \<Rightarrow> None) s a p;
       n \<leftarrow> get_leaf s a;
       Some (p, find_key c n key)
     }"

definition locate_begin :: "'k store \<Rightarrow> nat \<Rightarrow> (path \<times> nat) option" where
  "locate_begin s a =
     do {
       p \<leftarrow> path_insert [] 0 a;
       (a, p) \<leftarrow> locate_from (\<lambda>t. case t of Branch n \<Rightarrow> Some (first_child n) | Leaf _ \<Rightarrow> None) s a p;
       Some (p, 0)
     }"

definition locate_end :: "'k store \<Rightarrow> nat \<Rightarrow> (path \<times> nat) option" where
  "locate_end s a =
     do {
       p \<leftarrow> path_insert [] 0 a;
       (a, p) \<leftarrow> locate_from (\<lambda>t. case t of Branch n \<Rightarrow> if node_size n = 0 then None else Some (last_child n) | Leaf _ \<Rightarrow> None) s a p;
       n \<leftarrow> get_leaf s a;
       Some (p, node_size n)
     }"

section \<open>Copying a path\<close>

function clone_path :: "node_cfg \<Rightarrow> nat \<Rightarrow> 'k :: zero store \<Rightarrow> path \<Rightarrow> nat \<Rightarrow> (path \<times> 'k store) option" where
  "clone_path c sid s path level =
     (if level < length path - 1 then
        do {
          let node = path ! level;
          (path, s) \<leftarrow> clone_path c sid s path (level + 1);
          pa \<leftarrow> path_at path (level + 1);
          parent \<leftarrow> get_branch s pa;
          let parent_idx = find_child_node parent node;
          (clone, s) \<leftarrow> clone_node c s node sid;
          if parent_idx < 0 then None
          else do {
            (r, s) \<leftarrow> unref s (node_data parent ! nat parent_idx);
            parent \<leftarrow> get_branch s pa;
            let s = put_branch s pa (parent\<lparr>node_data := (node_data parent)[nat parent_idx := clone]\<rparr>);
            s \<leftarrow> ref s clone;
            Some (path[level := clone], s)
          }
        }
      else Some (path, s))"
  by pat_completeness auto

termination clone_path
  by (relation "measure (\<lambda>(_, _, _, path, level). length path - level)") auto

declare clone_path.simps [simp del]

definition update_path :: "node_cfg \<Rightarrow> nat \<Rightarrow> 'k :: zero store \<Rightarrow> path \<Rightarrow> (path \<times> 'k store) option" where
  \<comment> \<open>the path is copied as a whole when one of its nodes below the root is shared\<close>
  "update_path c sid s path =
     (if \<exists>a \<in> set (butlast path). nodes s a = None then None
      else if \<exists>a \<in> set (butlast path). refs s a > 1 then clone_path c sid s path 0
      else Some (path, s))"

function update_keys_up :: "node_cfg \<Rightarrow> 'k :: zero store \<Rightarrow> path \<Rightarrow> int \<Rightarrow> nat \<Rightarrow> 'k store option" where
  "update_keys_up c s path insertion_point level =
     (if level < length path - 1 then
        do {
          t \<leftarrow> nodes s (path ! level);
          if insertion_point \<ge> int (t_size t) - 1 then
            do {
              parent \<leftarrow> get_branch s (path ! (level + 1));
              let parent_idx = find_child_node parent (path ! level);
              if parent_idx < 0 then None
              else do {
                let parent = reindex c (parent\<lparr>node_keys := (node_keys parent)[nat parent_idx := t_max_key t]\<rparr>);
                let s = put_branch s (path ! (level + 1)) parent;
                update_keys_up c s path parent_idx (level + 1)
              }
            }
          else Some s
        }
      else Some s)"
  by pat_completeness auto

termination update_keys_up
  by (relation "measure (\<lambda>(_, _, path, _, level). length path - level)") auto

declare update_keys_up.simps [simp del]

section \<open>Inserting\<close>

definition split_node :: "node_cfg \<Rightarrow> 'k :: zero store \<Rightarrow> nat \<Rightarrow> nat \<Rightarrow> nat \<Rightarrow> 'k store option" where
  "split_node c s node split_idx to =
     do {
       t \<leftarrow> nodes s node;
       if t_is_leaf t then
         do {
           n \<leftarrow> get_leaf s node;
           r \<leftarrow> get_leaf s to;
           let (n, r) = split_to c n split_idx r;
           Some (put_leaf (put_leaf s node n) to r)
         }
       else
         do {
           n \<leftarrow> get_branch s node;
           r \<leftarrow> get_branch s to;
           let (n, r) = split_to c n split_idx r;
           Some (put_branch (put_branch s node n) to r)
         }
     }"

definition insert_child_node :: "node_cfg \<Rightarrow> 'k :: zero store \<Rightarrow> nat \<Rightarrow> nat \<Rightarrow> nat \<Rightarrow> 'k store option" where
  "insert_child_node c s node idx child =
     do {
       n \<leftarrow> get_branch s node;
       t \<leftarrow> nodes s child;
       let s = put_branch s node (node_insert c n idx (t_max_key t) child);
       ref s child
     }"

function split_path ::
  "node_cfg \<Rightarrow> nat \<Rightarrow> nat \<Rightarrow> 'k :: zero store \<Rightarrow> path \<Rightarrow> path \<Rightarrow> nat \<Rightarrow> (path \<times> path \<times> 'k store) option" where
  \<comment> \<open>\<open>h\<close> is the history node whose root grows, \<open>sid\<close> its snapshot\<close>
  "split_path c h sid s path nxt level =
     (if level < length path \<and> level < length nxt then
        do {
          let node = path ! level;
          t \<leftarrow> nodes s node;
          let split_at = t_size t div 2;
          let (right, s) = create_node c s level sid;
          s \<leftarrow> split_node c s node split_at right;
          if level < length path - 1 then
            do {
              let pa = path ! (level + 1);
              parent \<leftarrow> get_branch s pa;
              let parent_idx = find_child_node parent node;
              t \<leftarrow> nodes s node;
              if parent_idx < 0 then None
              else do {
                let parent_idx = nat parent_idx;
                let s = put_branch s pa (reindex c (parent\<lparr>node_keys := (node_keys parent)[parent_idx := t_max_key t]\<rparr>));
                s \<leftarrow> update_keys_up c s path (int parent_idx) (level + 1);
                parent \<leftarrow> get_branch s pa;
                if has_space c parent then
                  do {
                    s \<leftarrow> insert_child_node c s pa (parent_idx + 1) right;
                    s \<leftarrow> update_keys_up c s path (int parent_idx + 1) (level + 1);
                    Some (path, nxt[level := right], s)
                  }
                else
                  do {
                    (path, nxt, s) \<leftarrow> split_path c h sid s path nxt (level + 1);
                    parent \<leftarrow> get_branch s pa;
                    if parent_idx \<ge> node_size parent then
                      do {
                        let path = path[level + 1 := nxt ! (level + 1)];
                        let next_parent_idx = parent_idx - node_size parent;
                        s \<leftarrow> insert_child_node c s (nxt ! (level + 1)) (next_parent_idx + 1) right;
                        s \<leftarrow> update_keys_up c s nxt (int next_parent_idx + 1) (level + 1);
                        Some (path, nxt[level := right], s)
                      }
                    else
                      do {
                        let nxt = nxt[level + 1 := path ! (level + 1)];
                        s \<leftarrow> insert_child_node c s pa (parent_idx + 1) right;
                        s \<leftarrow> update_keys_up c s path (int parent_idx + 1) (level + 1);
                        Some (path, nxt[level := right], s)
                      }
                  }
              }
            }
          else
            do {
              let (new_root, s) = create_branch_node c s sid;
              nr \<leftarrow> get_branch s new_root;
              r \<leftarrow> get_root s h;
              rt \<leftarrow> nodes s r;
              let s = put_branch s new_root (nr\<lparr>metadata_size := t_metadata rt\<rparr>);
              s \<leftarrow> insert_child_node c s new_root 0 node;
              s \<leftarrow> insert_child_node c s new_root 1 right;
              path \<leftarrow> path_insert path (length path) new_root;
              nxt \<leftarrow> path_insert nxt (length nxt) new_root;
              s \<leftarrow> set_root s h new_root;
              Some (path, nxt[level := right], s)
            }
        }
      else None)"
  by pat_completeness auto

termination split_path
  by (relation "measure (\<lambda>(_, _, _, _, path, _, level). length path - level)") auto

declare split_path.simps [simp del]

definition add_size :: "'k store \<Rightarrow> nat \<Rightarrow> int \<Rightarrow> 'k store option" where
  \<comment> \<open>\<open>root()->metadata().add_size(delta)\<close>\<close>
  "add_size s h delta =
     do {
       r \<leftarrow> get_root s h;
       t \<leftarrow> nodes s r;
       Some (s\<lparr>nodes := (nodes s)(r \<mapsto> t_set_metadata (t_metadata t + delta) t)\<rparr>)
     }"

definition insert_to :: "node_cfg \<Rightarrow> nat \<Rightarrow> nat \<Rightarrow> 'k :: zero store \<Rightarrow> path \<Rightarrow> nat \<Rightarrow> 'k \<Rightarrow> pvalue \<Rightarrow> 'k store option" where
  "insert_to c h sid s path idx key val =
     do {
       (path, s) \<leftarrow> update_path c sid s path;
       n \<leftarrow> get_leaf s (path ! 0);
       s \<leftarrow>
         (if has_space c n then Some (put_leaf s (path ! 0) (node_insert c n idx key val))
          else
            do {
              (path, nxt, s) \<leftarrow> split_path c h sid s path path 0;
              n \<leftarrow> get_leaf s (path ! 0);
              let (path, idx) = (if idx \<ge> node_size n then (nxt, idx - node_size n) else (path, idx));
              n \<leftarrow> get_leaf s (path ! 0);
              let s = put_leaf s (path ! 0) (node_insert c n idx key val);
              update_keys_up c s path (int idx) 0
            });
       add_size s h 1
     }"

definition assign :: "node_cfg \<Rightarrow> nat \<Rightarrow> nat \<Rightarrow> 'k :: {linorder, zero} store \<Rightarrow> 'k \<Rightarrow> pvalue \<Rightarrow> (pvalue \<times> 'k store) option" where
  "assign c h sid s key val =
     do {
       r \<leftarrow> get_root s h;
       (path, idx) \<leftarrow> locate c s r key;
       n \<leftarrow> get_leaf s (path ! 0);
       if idx < node_size n \<and> node_keys n ! idx = key then
         do {
           (path, s) \<leftarrow> update_path c sid s path;
           n \<leftarrow> get_leaf s (path ! 0);
           let tmp = node_data n ! idx;
           Some (tmp, put_leaf s (path ! 0) (n\<lparr>node_data := (node_data n)[idx := val]\<rparr>))
         }
       else
         do { s \<leftarrow> insert_to c h sid s path idx key val; Some (0, s) }
     }"

section \<open>Moving between leaves\<close>

function get_next_node :: "'k store \<Rightarrow> path \<Rightarrow> path \<Rightarrow> nat \<Rightarrow> (bool \<times> path) option" where
  "get_next_node s path nxt level =
     (if level < length path - 1 then
        do {
          parent \<leftarrow> get_branch s (path ! (level + 1));
          let size = node_size parent;
          let parent_idx = find_child_node parent (path ! level);
          if parent_idx < int size - 1 then
            Some (True, nxt[level := node_data parent ! nat (parent_idx + 1)])
          else
            do {
              (found, nxt) \<leftarrow> get_next_node s path nxt (level + 1);
              if found then do { n \<leftarrow> get_branch s (nxt ! (level + 1)); Some (True, nxt[level := first_child n]) }
              else Some (False, nxt)
            }
        }
      else Some (False, nxt))"
  by pat_completeness auto

termination get_next_node
  by (relation "measure (\<lambda>(_, path, _, level). length path - level)") auto

function get_prev_node :: "'k store \<Rightarrow> path \<Rightarrow> path \<Rightarrow> nat \<Rightarrow> (bool \<times> path) option" where
  "get_prev_node s path prev level =
     (if level < length path - 1 then
        do {
          parent \<leftarrow> get_branch s (path ! (level + 1));
          let parent_idx = find_child_node parent (path ! level);
          if parent_idx > 0 then
            Some (True, prev[level := node_data parent ! nat (parent_idx - 1)])
          else
            do {
              (found, prev) \<leftarrow> get_prev_node s path prev (level + 1);
              if found then
                do {
                  n \<leftarrow> get_branch s (prev ! (level + 1));
                  if node_size n = 0 then None else Some (True, prev[level := last_child n])
                }
              else Some (False, prev)
            }
        }
      else Some (False, prev))"
  by pat_completeness auto

termination get_prev_node
  by (relation "measure (\<lambda>(_, path, _, level). length path - level)") auto

declare get_next_node.simps [simp del] and get_prev_node.simps [simp del]

record iter =
  it_path :: path
  it_idx :: int

definition next_leaf :: "'k store \<Rightarrow> iter \<Rightarrow> (bool \<times> iter) option" where
  "next_leaf s it =
     do {
       (found, nxt) \<leftarrow> get_next_node s (it_path it) (it_path it) 0;
       Some (if found then (True, it\<lparr>it_path := nxt, it_idx := 0\<rparr>) else (False, it))
     }"

definition prev_leaf :: "'k store \<Rightarrow> iter \<Rightarrow> (bool \<times> iter) option" where
  "prev_leaf s it =
     do {
       (found, prev) \<leftarrow> get_prev_node s (it_path it) (it_path it) 0;
       if found then
         do { n \<leftarrow> get_leaf s (prev ! 0); Some (True, it\<lparr>it_path := prev, it_idx := int (node_size n) - 1\<rparr>) }
       else Some (False, it)
     }"

definition iter_inc :: "'k store \<Rightarrow> iter \<Rightarrow> (bool \<times> iter) option" where
  \<comment> \<open>\<open>operator++\<close>, prefix and postfix\<close>
  "iter_inc s it =
     do {
       n \<leftarrow> get_leaf s (it_path it ! 0);
       let it = it\<lparr>it_idx := it_idx it + 1\<rparr>;
       if it_idx it < int (node_size n) then Some (True, it) else next_leaf s it
     }"

definition iter_dec :: "'k store \<Rightarrow> iter \<Rightarrow> (bool \<times> iter) option" where
  \<comment> \<open>postfix \<open>operator--\<close>\<close>
  "iter_dec s it =
     do {
       let it = it\<lparr>it_idx := it_idx it - 1\<rparr>;
       if it_idx it \<ge> 0 then Some (True, it) else prev_leaf s it
     }"

definition iter_dec_prefix :: "'k store \<Rightarrow> iter \<Rightarrow> (bool \<times> iter) option" where
  \<comment> \<open>prefix \<open>operator--\<close>, which increments the position\<close>
  "iter_dec_prefix s it =
     do {
       let it = it\<lparr>it_idx := it_idx it + 1\<rparr>;
       if it_idx it \<ge> 0 then Some (True, it) else prev_leaf s it
     }"

definition iter_is_end :: "'k store \<Rightarrow> iter \<Rightarrow> bool option" where
  "iter_is_end s it = do { n \<leftarrow> get_leaf s (it_path it ! 0); Some (it_idx it \<ge> int (node_size n)) }"

definition ptree_begin :: "'k store \<Rightarrow> nat \<Rightarrow> iter option" where
  "ptree_begin s h = do { r \<leftarrow> get_root s h; (p, i) \<leftarrow> locate_begin s r; Some \<lparr>it_path = p, it_idx = int i\<rparr> }"

definition ptree_end :: "'k store \<Rightarrow> nat \<Rightarrow> iter option" where
  "ptree_end s h = do { r \<leftarrow> get_root s h; (p, i) \<leftarrow> locate_end s r; Some \<lparr>it_path = p, it_idx = int i\<rparr> }"

definition ptree_rbegin :: "'k store \<Rightarrow> nat \<Rightarrow> iter option" where
  "ptree_rbegin s h = do { it \<leftarrow> ptree_end s h; (_, it) \<leftarrow> iter_dec s it; Some it }"

definition ptree_rend :: "'k store \<Rightarrow> nat \<Rightarrow> iter option" where
  "ptree_rend s h = do { it \<leftarrow> ptree_begin s h; (_, it) \<leftarrow> iter_dec s it; Some it }"

section \<open>Removing\<close>

function can_merge_paths :: "node_cfg \<Rightarrow> 'k store \<Rightarrow> path \<Rightarrow> path \<Rightarrow> nat \<Rightarrow> bool option" where
  "can_merge_paths c s path nxt level =
     (if level + 1 < length path \<and> level + 1 < length nxt then
        do {
          a \<leftarrow> nodes s (path ! level);
          b \<leftarrow> nodes s (nxt ! level);
          if NodeSize c - t_size a \<ge> t_size b then
            (if nxt ! (level + 1) = path ! (level + 1) then
               do {
                 next_parent \<leftarrow> get_branch s (nxt ! (level + 1));
                 let path_parent_idx = find_child_node next_parent (path ! level);
                 let next_parent_idx = find_child_node next_parent (nxt ! level);
                 Some (path_parent_idx = next_parent_idx - 1)
               }
             else can_merge_paths c s path nxt (level + 1))
          else Some False
        }
      else None)"
  by pat_completeness auto

termination can_merge_paths
  by (relation "measure (\<lambda>(_, _, path, _, level). length path - level)") auto

declare can_merge_paths.simps [simp del]

definition merge_nodes :: "node_cfg \<Rightarrow> 'k :: zero store \<Rightarrow> nat \<Rightarrow> nat \<Rightarrow> 'k store option" where
  "merge_nodes c s node to =
     do {
       t \<leftarrow> nodes s node;
       s \<leftarrow>
         (if t_is_leaf t then
            do {
              n \<leftarrow> get_leaf s node;
              r \<leftarrow> get_leaf s to;
              let (n, r) = merge_from c n r;
              Some (put_leaf (put_leaf s node n) to r)
            }
          else
            do {
              n \<leftarrow> get_branch s node;
              r \<leftarrow> get_branch s to;
              let (n, r) = merge_from c n r;
              Some (put_branch (put_branch s node n) to r)
            });
       remove_node s to
     }"

function merge_paths :: "node_cfg \<Rightarrow> nat \<Rightarrow> 'k :: zero store \<Rightarrow> path \<Rightarrow> path \<Rightarrow> nat \<Rightarrow> (path \<times> path \<times> 'k store) option" where
  "merge_paths c h s path nxt level =
     (if level + 1 < length path \<and> level + 1 < length nxt then
        do {
          (path, nxt, s) \<leftarrow>
            (if path ! (level + 1) \<noteq> nxt ! (level + 1) then merge_paths c h s path nxt (level + 1)
             else Some (path, nxt, s));
          node \<leftarrow> path_at path level;
          right \<leftarrow> path_at nxt level;
          pa \<leftarrow> path_at path (level + 1);
          parent \<leftarrow> get_branch s pa;
          let parent_idx = find_child_node parent node;
          s \<leftarrow> merge_nodes c s node right;
          t \<leftarrow> nodes s node;
          if parent_idx < 0 then None
          else do {
            parent \<leftarrow> get_branch s pa;
            let parent = parent\<lparr>node_keys := (node_keys parent)[nat parent_idx := t_max_key t]\<rparr>;
            if node_size parent < nat parent_idx + 2 then None
            else do {
              let parent = node_remove c parent (nat parent_idx + 1) (nat parent_idx + 2);
              let s = put_branch s pa parent;
              s \<leftarrow> update_keys_up c s path parent_idx (level + 1);
              root \<leftarrow> get_root s h;
              if pa = root \<and> node_size parent = 1 then
                do {
                  rt \<leftarrow> nodes s root;
                  t \<leftarrow> nodes s node;
                  let s = s\<lparr>nodes := (nodes s)(node \<mapsto> t_set_metadata (t_metadata rt) t)\<rparr>;
                  s \<leftarrow> set_root s h node;
                  (_, s) \<leftarrow> unref s node;
                  s \<leftarrow> remove_node s root;
                  if refs s node = 1 then Some (butlast path, (butlast nxt)[level := node], s) else None
                }
              else Some (path, nxt[level := node], s)
            }
          }
        }
      else None)"
  by pat_completeness auto

termination merge_paths
  by (relation "measure (\<lambda>(_, _, _, path, _, level). length path - level)") auto

declare merge_paths.simps [simp del]

definition remove_from ::
  "node_cfg \<Rightarrow> nat \<Rightarrow> nat \<Rightarrow> 'k :: zero store \<Rightarrow> path \<Rightarrow> nat \<Rightarrow> bool \<Rightarrow> (path \<times> nat \<times> 'k store) option" where
  "remove_from c h sid s path idx delete_on_unref =
     do {
       (path, s) \<leftarrow> update_path c sid s path;
       n \<leftarrow> get_leaf s (path ! 0);
       let block = block_ptr (node_data n ! idx);
       (r, s) \<leftarrow> block_unref s block;
       let s = (if r = 0 \<and> delete_on_unref then block_delete s block else s);
       let n = node_remove c n idx (idx + 1);
       let s = put_leaf s (path ! 0) n;
       s \<leftarrow> update_keys_up c s path (int idx) 0;
       s \<leftarrow> add_size s h (- 1);
       if should_merge c n then
         do {
           (found, nxt) \<leftarrow> get_next_node s path path 0;
           if found then
             do {
               can \<leftarrow> can_merge_paths c s path nxt 0;
               if can then
                 do {
                   (nxt, s) \<leftarrow> update_path c sid s nxt;
                   (path, nxt, s) \<leftarrow> merge_paths c h s path nxt 0;
                   Some (path, idx, s)
                 }
               else Some (path, idx, s)
             }
           else
             do {
               (found, prev) \<leftarrow> get_prev_node s path path 0;
               if found then
                 do {
                   can \<leftarrow> can_merge_paths c s prev path 0;
                   if can then
                     do {
                       t \<leftarrow> nodes s (prev ! 0);
                       let prev_leaf_size = t_size t;
                       (prev, s) \<leftarrow> update_path c sid s prev;
                       (prev, path, s) \<leftarrow> merge_paths c h s prev path 0;
                       Some (prev, idx + prev_leaf_size, s)
                     }
                   else Some (path, idx, s)
                 }
               else Some (path, idx, s)
             }
         }
       else Some (path, idx, s)
     }"

definition ptree_remove ::
  "node_cfg \<Rightarrow> nat \<Rightarrow> nat \<Rightarrow> 'k :: {linorder, zero} store \<Rightarrow> 'k \<Rightarrow> bool \<Rightarrow> (bool \<times> 'k store) option" where
  \<comment> \<open>the entry at the located position is removed without a test that its key is the argument\<close>
  "ptree_remove c h sid s key delete_on_unref =
     do {
       r \<leftarrow> get_root s h;
       (path, idx) \<leftarrow> locate c s r key;
       n \<leftarrow> get_leaf s (path ! 0);
       if idx < node_size n then
         do { (_, _, s) \<leftarrow> remove_from c h sid s path idx delete_on_unref; Some (True, s) }
       else Some (False, s)
     }"

section \<open>Whole trees and snapshots\<close>

primrec delete_tree :: "nat \<Rightarrow> 'k store \<Rightarrow> nat \<Rightarrow> ('k store \<Rightarrow> ('k, pvalue) node \<Rightarrow> 'k store option) \<Rightarrow> 'k store option" where
  \<comment> \<open>the first argument bounds the depth of the tree\<close>
  "delete_tree 0 s a fn = None"
| "delete_tree (Suc d) s a fn =
     do {
       (r, s) \<leftarrow> unref s a;
       if r = 0 then
         do {
           t \<leftarrow> nodes s a;
           if t_is_leaf t then do { n \<leftarrow> get_leaf s a; s \<leftarrow> fn s n; remove_node s a }
           else
             do {
               n \<leftarrow> get_branch s a;
               s \<leftarrow> foldM (\<lambda>s child. delete_tree d s child fn) s (map (\<lambda>i. node_data n ! i) [0 ..< node_size n]);
               remove_node s a
             }
         }
       else Some s
     }"

definition drop_blocks :: "'k store \<Rightarrow> ('k, pvalue) node \<Rightarrow> 'k store option" where
  \<comment> \<open>the callback of \<open>delete_snapshot\<close>\<close>
  "drop_blocks s n =
     foldM (\<lambda>s i. do {
         let b = block_ptr (node_data n ! i);
         (r, s) \<leftarrow> block_unref s b;
         Some (if r = 0 then block_delete s b else s) }) s [0 ..< node_size n]"

definition delete_snapshot :: "nat \<Rightarrow> 'k store \<Rightarrow> nat \<Rightarrow> 'k store option" where
  "delete_snapshot d s h =
     do {
       hn \<leftarrow> hist s h;
       s \<leftarrow> delete_tree d s (hn_root hn) drop_blocks;
       Some (s\<lparr>hist := (hist s)(h \<mapsto> hn\<lparr>hn_root := 0, hn_root_id := 0\<rparr>)\<rparr>)
     }"

primrec walk_tree :: "nat \<Rightarrow> 'k store \<Rightarrow> nat \<Rightarrow> nat \<Rightarrow> 'r \<Rightarrow> (nat \<Rightarrow> 'r \<Rightarrow> 'r) \<Rightarrow> 'r option" where
  \<comment> \<open>the nodes that belong to the snapshot \<open>sid\<close> itself; the callback \<open>fn\<close> accumulates a result\<close>
  "walk_tree 0 s sid a r fn = None"
| "walk_tree (Suc d) s sid a r fn =
     do {
       t \<leftarrow> nodes s a;
       if t_snapshot t = sid then
         do {
           let r = fn a r;
           if \<not> t_is_leaf t then
             do {
               n \<leftarrow> get_branch s a;
               foldM (\<lambda>r child. walk_tree d s sid child r fn) r (map (\<lambda>i. node_data n ! i) [0 ..< node_size n])
             }
           else Some r
         }
       else Some r
     }"

primrec conditional_tree_traverse ::
  "nat \<Rightarrow> 'k store \<Rightarrow> nat \<Rightarrow> 'r \<Rightarrow> (nat \<Rightarrow> 'r \<Rightarrow> bool \<times> 'r) \<Rightarrow> (nat \<Rightarrow> 'r \<Rightarrow> bool \<times> 'r) \<Rightarrow> (nat \<Rightarrow> 'r \<Rightarrow> 'r) \<Rightarrow> 'r option" where
  \<comment> \<open>the consumer's \<open>process_ptree_leaf\<close>, \<open>process_ptree_branch\<close> and \<open>process_data_block\<close> are arguments\<close>
  "conditional_tree_traverse 0 s a r pl pb pd = None"
| "conditional_tree_traverse (Suc d) s a r pl pb pd =
     do {
       t \<leftarrow> nodes s a;
       if t_is_leaf t then
         do {
           n \<leftarrow> get_leaf s a;
           let (proceed, r) = pl a r;
           Some (if proceed then fold (\<lambda>i r. pd (block_ptr (node_data n ! i)) r) [0 ..< node_size n] r else r)
         }
       else
         do {
           n \<leftarrow> get_branch s a;
           let (proceed, r) = pb a r;
           if proceed then
             foldM (\<lambda>r child. conditional_tree_traverse d s child r pl pb pd) r
               (map (\<lambda>i. node_data n ! i) [0 ..< node_size n])
           else Some r
         }
     }"

datatype ptree_error = ParentNotCommitted | RootIsNull

partial_function (option) live_ancestor :: "'k store \<Rightarrow> nat option \<Rightarrow> nat option option" where
  \<comment> \<open>the nearest history node, from the parent up, that is not dropped\<close>
  "live_ancestor s p =
     (case p of None \<Rightarrow> Some None
      | Some h \<Rightarrow>
          do {
            hn \<leftarrow> hist s h;
            if hn_status hn \<noteq> DROPPED then Some (Some h) else live_ancestor s (hn_parent hn)
          })"

declare live_ancestor.simps [code]

definition PersistentTree :: "node_cfg \<Rightarrow> 'k :: zero store \<Rightarrow> nat \<Rightarrow> (ptree_error + 'k store) option" where
  \<comment> \<open>the constructor: an active snapshot starts from a copy of the root of its parent\<close>
  "PersistentTree c s h =
     do {
       hn \<leftarrow> hist s h;
       if hn_status hn = ACTIVE then
         (case hn_parent hn of
            Some p \<Rightarrow>
              do {
                pn \<leftarrow> hist s p;
                if hn_status pn \<noteq> COMMITTED then Some (Inl ParentNotCommitted)
                else do {
                  target \<leftarrow> live_ancestor s (Some p);
                  case target of
                    Some q \<Rightarrow>
                      do {
                        qn \<leftarrow> hist s q;
                        (new_root, s) \<leftarrow> clone_node c s (hn_root qn) h;
                        s \<leftarrow> set_root s h new_root;
                        hn \<leftarrow> hist s h;
                        Some (Inr (s\<lparr>hist := (hist s)(h \<mapsto> hn\<lparr>hn_root_id := hn_root_id qn\<rparr>)\<rparr>))
                      }
                  | None \<Rightarrow> Some (Inl RootIsNull)
                }
              }
          | None \<Rightarrow> Some (if hn_root hn = 0 then Inl RootIsNull else Inr s))
       else Some (Inr s)
     }"

definition ptree_set_new_block ::
  "node_cfg \<Rightarrow> nat \<Rightarrow> nat \<Rightarrow> 'k :: {linorder, zero} store \<Rightarrow> 'k \<Rightarrow> nat \<Rightarrow> 'k store option" where
  \<comment> \<open>\<open>ptr\<close> is the address of the new \<open>RCBlockPtr\<close>, created with count 1\<close>
  "ptree_set_new_block c h sid s block_id ptr =
     do {
       let s = s\<lparr>blocks := (blocks s)(ptr \<mapsto> 1)\<rparr>;
       (old_value, s) \<leftarrow> assign c h sid s block_id (PersistentTreeValue ptr sid);
       if block_ptr old_value \<noteq> 0 then
         do {
           (r, s) \<leftarrow> block_unref s (block_ptr old_value);
           Some (if r = 0 then block_delete s (block_ptr old_value) else s)
         }
       else Some s
     }"

end
