(* ===== verification/PTree_Spec.thy ===== *)
theory PTree_Spec
  imports PTree
begin

text \<open>
  What the copy-on-write tree guarantees. \<open>tree_ok\<close> describes a search tree in the heap and \<open>tree_entries\<close> its
  contents in key order, and \<open>find\<close> is shown to look up a key in these contents. \<open>store_ok\<close> is the
  invariant of the reference counts: the count of a node is at least the number of branch slots and history
  nodes that point to it. \<open>update_path\<close> always succeeds, keeps the invariant and the contents of every tree, and
  returns a path of nodes with count one.
\<close>

section \<open>Trees in the heap\<close>

type_synonym 'k heap = "nat \<Rightarrow> 'k tnode option"

fun children :: "'k tnode \<Rightarrow> nat list" where
  "children (Branch n) = take (node_size n) (node_data n)"
| "children (Leaf n) = []"

definition above :: "('k :: linorder) option \<Rightarrow> 'k \<Rightarrow> bool" where
  "above lo k = (case lo of None \<Rightarrow> True | Some l \<Rightarrow> l < k)"

definition below :: "('k :: linorder) \<Rightarrow> 'k option \<Rightarrow> bool" where
  "below k hi = (case hi of None \<Rightarrow> True | Some u \<Rightarrow> k \<le> u)"

definition child_lo :: "'k option \<Rightarrow> ('k, nat) node \<Rightarrow> nat \<Rightarrow> 'k option" where
  "child_lo lo n i = (if i = 0 then lo else Some (node_keys n ! (i - 1)))"

definition child_hi :: "'k option \<Rightarrow> ('k, nat) node \<Rightarrow> nat \<Rightarrow> 'k option" where
  "child_hi hi n i = (if Suc i = node_size n then hi else Some (node_keys n ! i))"

text \<open>
  A search tree of height \<open>h\<close> at address \<open>a\<close> with keys in the interval from \<open>lo\<close> (exclusive) to \<open>hi\<close>. The
  key of the last child of a branch plays no part: an insertion into the last leaf does not update it.
\<close>

fun tree_ok :: "node_cfg \<Rightarrow> 'k :: linorder heap \<Rightarrow> nat \<Rightarrow> nat \<Rightarrow> 'k option \<Rightarrow> 'k option \<Rightarrow> bool" where
  "tree_ok c H 0 a lo hi =
     (case H a of
        Some (Leaf n) \<Rightarrow> node_ok c n \<and> node_type n = LEAF \<and> sorted_wrt (<) (keys_of n)
          \<and> (\<forall>k \<in> set (keys_of n). above lo k \<and> below k hi)
      | _ \<Rightarrow> False)"
| "tree_ok c H (Suc h) a lo hi =
     (case H a of
        Some (Branch n) \<Rightarrow> node_ok c n \<and> node_type n = BRANCH \<and> 0 < node_size n \<and> sorted (keys_of n)
          \<and> (\<forall>i < node_size n - 1. above lo (node_keys n ! i) \<and> below (node_keys n ! i) hi)
          \<and> (\<forall>i < node_size n. tree_ok c H h (node_data n ! i) (child_lo lo n i) (child_hi hi n i))
      | _ \<Rightarrow> False)"

fun tree_entries :: "'k heap \<Rightarrow> nat \<Rightarrow> nat \<Rightarrow> ('k \<times> pvalue) list" where
  "tree_entries H 0 a = (case H a of Some (Leaf n) \<Rightarrow> entries n | _ \<Rightarrow> [])"
| "tree_entries H (Suc h) a =
     (case H a of Some (Branch n) \<Rightarrow> concat (map (tree_entries H h) (children (Branch n))) | _ \<Rightarrow> [])"

lemma tree_ok_LeafD:
  assumes "tree_ok c H 0 a lo hi"
  obtains n where "H a = Some (Leaf n)" and "node_ok c n" and "node_type n = LEAF" and "sorted_wrt (<) (keys_of n)"
    and "\<And>k. k \<in> set (keys_of n) \<Longrightarrow> above lo k \<and> below k hi"
  using assms by (auto split: option.splits tnode.splits)

lemma tree_ok_BranchD:
  assumes "tree_ok c H (Suc h) a lo hi"
  obtains n where "H a = Some (Branch n)" and "node_ok c n" and "node_type n = BRANCH" and "0 < node_size n"
    and "sorted (keys_of n)" and "\<And>i. i < node_size n - 1 \<Longrightarrow> above lo (node_keys n ! i) \<and> below (node_keys n ! i) hi"
    and "\<And>i. i < node_size n \<Longrightarrow> tree_ok c H h (node_data n ! i) (child_lo lo n i) (child_hi hi n i)"
  using assms by (auto split: option.splits tnode.splits)

lemma children_nth:
  assumes "node_ok c n"
  shows "length (children (Branch n)) = node_size n" and "i < node_size n \<Longrightarrow> children (Branch n) ! i = node_data n ! i"
  using assms by (simp_all add: node_ok_def node_shape_def)

lemma above_mono: "above lo l \<Longrightarrow> l < k \<Longrightarrow> above lo k"
  by (auto simp: above_def split: option.splits)

lemma below_mono: "below u hi \<Longrightarrow> k \<le> u \<Longrightarrow> below k hi"
  by (auto simp: below_def split: option.splits)

lemma child_range_sub:
  assumes "\<And>i. i < node_size n - 1 \<Longrightarrow> above lo (node_keys n ! i) \<and> below (node_keys n ! i) hi"
    and "i < node_size n" and "above (child_lo lo n i) k" and "below k (child_hi hi n i)"
  shows "above lo k \<and> below k hi"
proof
  show "above lo k"
  proof (cases "i = 0")
    case False
    then have "above lo (node_keys n ! (i - 1))" using assms(1) [of "i - 1"] assms(2) by simp
    moreover have "node_keys n ! (i - 1) < k" using False assms(3) by (simp add: child_lo_def above_def)
    ultimately show ?thesis by (rule above_mono)
  qed (use assms(3) in \<open>simp add: child_lo_def\<close>)
  show "below k hi"
  proof (cases "Suc i = node_size n")
    case False
    then have "below (node_keys n ! i) hi" using assms(1) [of i] assms(2) by simp
    moreover have "k \<le> node_keys n ! i" using False assms(4) by (simp add: child_hi_def below_def)
    ultimately show ?thesis by (rule below_mono)
  qed (use assms(4) in \<open>simp add: child_hi_def\<close>)
qed

lemma tree_keys_range:
  assumes "tree_ok c H h a lo hi" and "e \<in> set (tree_entries H h a)"
  shows "above lo (fst e) \<and> below (fst e) hi"
  using assms
proof (induction h arbitrary: a lo hi)
  case 0
  from 0(1) obtain n where "H a = Some (Leaf n)" "node_ok c n" "\<And>k. k \<in> set (keys_of n) \<Longrightarrow> above lo k \<and> below k hi"
    by (rule tree_ok_LeafD) blast
  then show ?case using 0(2) entries_keys [of c n] by (metis image_eqI list.set_map option.simps(5) tnode.simps(6) tree_entries.simps(1))
next
  case (Suc h)
  from Suc.prems(1) obtain n where n: "H a = Some (Branch n)" "node_ok c n" "0 < node_size n" "sorted (keys_of n)"
    and sep: "\<And>i. i < node_size n - 1 \<Longrightarrow> above lo (node_keys n ! i) \<and> below (node_keys n ! i) hi"
    and sub: "\<And>i. i < node_size n \<Longrightarrow> tree_ok c H h (node_data n ! i) (child_lo lo n i) (child_hi hi n i)"
    by (rule tree_ok_BranchD) blast
  from Suc.prems(2) n(1) obtain x where "x \<in> set (children (Branch n))" "e \<in> set (tree_entries H h x)" by auto
  then obtain i where i: "i < node_size n" "e \<in> set (tree_entries H h (node_data n ! i))"
    using children_nth [OF n(2)] by (metis in_set_conv_nth)
  have r: "above (child_lo lo n i) (fst e)" "below (fst e) (child_hi hi n i)"
    using Suc.IH [OF sub [OF i(1)] i(2)] by blast+
  show ?case by (rule child_range_sub [OF sep i(1) r])
qed

lemma map_of_concat_one:
  assumes "i < length xs" and "\<And>j. j < length xs \<Longrightarrow> j \<noteq> i \<Longrightarrow> map_of (f (xs ! j)) k = None"
  shows "map_of (concat (map f xs)) k = map_of (f (xs ! i)) k"
  using assms
proof (induction xs arbitrary: i)
  case (Cons x xs)
  show ?case
  proof (cases i)
    case 0
    have "map_of (f y) k = None" if "y \<in> set xs" for y
      using that Cons.prems(2) [of "Suc _"] 0 by (fastforce simp: in_set_conv_nth)
    then have "map_of (concat (map f xs)) k = None" by (auto simp: map_of_eq_None_iff)
    then show ?thesis by (simp add: 0 map_add_def map_of_append split: option.split)
  next
    case (Suc j)
    have "map_of (f x) k = None" using Cons.prems(2) [of 0] Suc by simp
    moreover have "map_of (concat (map f xs)) k = map_of (f (xs ! j)) k"
    proof (rule Cons.IH)
      show "j < length xs" using Cons.prems(1) Suc by simp
      show "map_of (f (xs ! m)) k = None" if "m < length xs" "m \<noteq> j" for m
        using Cons.prems(2) [of "Suc m"] that Suc by simp
    qed
    ultimately show ?thesis by (simp add: Suc map_add_def map_of_append)
  qed
qed simp

lemma find_child_range:
  \<comment> \<open>the child that \<open>find_child\<close> chooses is the one whose interval contains the key\<close>
  assumes ok: "node_ok c n" and sorted: "sorted (keys_of n)" and sz: "0 < node_size n"
    and lo: "above lo key" and hi: "below key hi"
  obtains i where "i < node_size n" and "find_child c n key = node_data n ! i"
    and "above (child_lo lo n i) key" and "below key (child_hi hi n i)"
    and "i = (if scan (keys_of n) key = node_size n then node_size n - 1 else scan (keys_of n) key)"
proof -
  let ?m = "scan (keys_of n) key"
  let ?i = "if ?m = node_size n then node_size n - 1 else ?m"
  have len: "length (keys_of n) = node_size n" by (rule length_keys_of [OF ok])
  have m: "?m \<le> node_size n" using scan_le [of "keys_of n" key] len by simp
  have i: "?i < node_size n" using m sz by auto
  have "find_child c n key = node_data n ! ?i" using find_key_scan [OF ok sorted] by (simp add: find_child_def Let_def)
  moreover have "above (child_lo lo n ?i) key"
  proof (cases "?i = 0")
    case False
    then have "?i - 1 < ?m" by (auto split: if_splits)
    then have "keys_of n ! (?i - 1) < key" by (rule scan_less)
    moreover have "keys_of n ! (?i - 1) = node_keys n ! (?i - 1)" using i by (intro keys_of_nth) simp
    ultimately show ?thesis using False by (simp add: child_lo_def above_def)
  qed (use lo in \<open>simp add: child_lo_def\<close>)
  moreover have "below key (child_hi hi n ?i)"
  proof (cases "Suc ?i = node_size n")
    case False
    then have "?m \<noteq> node_size n" using sz by auto
    then have "?i = ?m" "?m < node_size n" using m by simp_all
    then show ?thesis using False scan_nth [of "keys_of n" key] len by (simp add: child_hi_def below_def keys_of_nth)
  qed (use hi in \<open>simp add: child_hi_def\<close>)
  ultimately show thesis using i that by blast
qed

lemma other_child_misses:
  \<comment> \<open>the intervals of the children do not overlap\<close>
  assumes sorted: "sorted (keys_of n)" and i: "i < node_size n" and j: "j < node_size n" "j \<noteq> i"
    and ki: "above (child_lo lo n i) key" "below key (child_hi hi n i)" and ok: "node_ok c n"
  shows "\<not> (above (child_lo lo n j) key \<and> below key (child_hi hi n j))"
proof -
  have mono: "node_keys n ! a \<le> node_keys n ! b" if "a \<le> b" "b < node_size n" for a b
    using sorted_nth_mono [OF sorted, of a b] that length_keys_of [OF ok] by (simp add: keys_of_nth)
  show ?thesis
  proof (cases "j < i")
    case True
    then have "node_keys n ! (i - 1) < key" using ki(1) by (simp add: child_lo_def above_def)
    moreover have "node_keys n ! j \<le> node_keys n ! (i - 1)" using True i by (intro mono) simp_all
    ultimately show ?thesis using True i by (auto simp: child_hi_def below_def)
  next
    case False
    then have ij: "i < j" using j by simp
    then have "key \<le> node_keys n ! i" using ki(2) j by (simp add: child_hi_def below_def)
    moreover have "node_keys n ! i \<le> node_keys n ! (j - 1)" using ij j by (intro mono) simp_all
    ultimately show ?thesis using ij by (auto simp: child_lo_def above_def)
  qed
qed

lemma find_value_in_entries:
  fixes s :: "'k :: {linorder, zero} store"
  assumes "tree_ok c (nodes s) h a lo hi" and "above lo key" and "below key hi"
  shows "find_value_in c s a key = Some (map_of (tree_entries (nodes s) h a) key)"
  using assms
proof (induction h arbitrary: a lo hi)
  case 0
  from 0(1) obtain n where n: "nodes s a = Some (Leaf n)" "node_ok c n" "node_type n = LEAF" "sorted_wrt (<) (keys_of n)"
    by (rule tree_ok_LeafD) blast
  have "sorted_wrt (<) (map fst (entries n))" using n(4) entries_keys [OF n(2)] by simp
  from nd.lookup [OF n(2) this, of key]
  have "map_of (entries n) key =
      (let i = find_key c n key in if i < node_size n \<and> node_keys n ! i = key then Some (node_data n ! i) else None)"
    using length_entries [OF n(2)] entries_nth [OF n(2)] by (auto simp: Let_def)
  then show ?case using n
    by (subst find_value_in.simps) (simp add: get_leaf_def is_branch_def Let_def)
next
  case (Suc h)
  from Suc.prems(1) obtain n where n: "nodes s a = Some (Branch n)" "node_ok c n" "node_type n = BRANCH" "0 < node_size n" "sorted (keys_of n)"
    and sub: "\<And>i. i < node_size n \<Longrightarrow> tree_ok c (nodes s) h (node_data n ! i) (child_lo lo n i) (child_hi hi n i)"
    by (rule tree_ok_BranchD) blast
  obtain i where i: "i < node_size n" "find_child c n key = node_data n ! i"
    and r: "above (child_lo lo n i) key" "below key (child_hi hi n i)"
    by (rule find_child_range [OF n(2,5,4) Suc.prems(2,3)])
  have miss: "map_of (tree_entries (nodes s) h (node_data n ! j)) key = None" if j: "j < node_size n" "j \<noteq> i" for j
  proof -
    have "key \<notin> fst ` set (tree_entries (nodes s) h (node_data n ! j))"
      using tree_keys_range [OF sub [OF j(1)]] other_child_misses [OF n(5) i(1) j r n(2)] by blast
    then show ?thesis by (simp add: map_of_eq_None_iff)
  qed
  have "map_of (tree_entries (nodes s) (Suc h) a) key = map_of (tree_entries (nodes s) h (node_data n ! i)) key"
    using n(1) map_of_concat_one [of i "children (Branch n)" "tree_entries (nodes s) h" key] miss i(1) children_nth [OF n(2)]
    by simp
  then show ?case using Suc.IH [OF sub [OF i(1)] r] n i
    by (subst find_value_in.simps) (simp add: get_branch_def is_branch_def child_for_def)
qed

section \<open>Simulations between heaps\<close>

fun node_match :: "(nat \<Rightarrow> nat \<Rightarrow> bool) \<Rightarrow> 'k tnode \<Rightarrow> 'k tnode \<Rightarrow> bool" where
  "node_match R (Leaf n) (Leaf m) \<longleftrightarrow>
     node_size m = node_size n \<and> node_keys m = node_keys n \<and> node_data m = node_data n
     \<and> node_index m = node_index n \<and> node_type m = node_type n"
| "node_match R (Branch n) (Branch m) \<longleftrightarrow>
     node_size m = node_size n \<and> node_keys m = node_keys n \<and> node_index m = node_index n \<and> node_type m = node_type n
     \<and> length (node_data m) = length (node_data n) \<and> (\<forall>i < node_size n. R (node_data n ! i) (node_data m ! i))"
| "node_match R _ _ \<longleftrightarrow> False"

definition heap_sim :: "(nat \<Rightarrow> nat \<Rightarrow> bool) \<Rightarrow> 'k heap \<Rightarrow> 'k heap \<Rightarrow> bool" where
  \<comment> \<open>related addresses hold nodes that agree up to related children and up to their identifiers\<close>
  "heap_sim R H H' = (\<forall>a a' t. R a a' \<longrightarrow> H a = Some t \<longrightarrow> (\<exists>t'. H' a' = Some t' \<and> node_match R t t'))"

lemma node_match_ok:
  assumes "node_size m = node_size n" "node_keys m = node_keys n" "node_index m = node_index n"
    "length (node_data m) = length (node_data n)"
  shows "node_ok c m = node_ok c n" and "keys_of m = keys_of n"
  using assms by (simp_all add: node_ok_def node_shape_def index_ok_def last_idx_def keys_of_def)

lemma heap_sim_LeafD:
  assumes "heap_sim R H H'" and "R a a'" and "H a = Some (Leaf n)"
  obtains m where "H' a' = Some (Leaf m)" and "node_match R (Leaf n) (Leaf m)"
proof -
  obtain t' where t: "H' a' = Some t'" "node_match R (Leaf n) t'" using assms unfolding heap_sim_def by blast
  then show thesis using that by (cases t') simp_all
qed

lemma heap_sim_BranchD:
  assumes "heap_sim R H H'" and "R a a'" and "H a = Some (Branch n)"
  obtains m where "H' a' = Some (Branch m)" and "node_match R (Branch n) (Branch m)"
proof -
  obtain t' where t: "H' a' = Some t'" "node_match R (Branch n) t'" using assms unfolding heap_sim_def by blast
  then show thesis using that by (cases t') simp_all
qed

lemma heap_sim_tree_ok:
  assumes sim: "heap_sim R H H'" and "R a a'" and "tree_ok c H h a lo hi"
  shows "tree_ok c H' h a' lo hi"
  using assms(2,3)
proof (induction h arbitrary: a a' lo hi)
  case 0
  from 0(2) obtain n where n: "H a = Some (Leaf n)" by (rule tree_ok_LeafD)
  obtain m where m: "H' a' = Some (Leaf m)" "node_match R (Leaf n) (Leaf m)" by (rule heap_sim_LeafD [OF sim 0(1) n])
  then show ?case using 0(2) n node_match_ok [of m n] by simp
next
  case (Suc h)
  from Suc.prems(2) obtain n where n: "H a = Some (Branch n)"
    and sub: "\<And>i. i < node_size n \<Longrightarrow> tree_ok c H h (node_data n ! i) (child_lo lo n i) (child_hi hi n i)"
    by (rule tree_ok_BranchD) blast
  obtain m where m: "H' a' = Some (Branch m)" "node_match R (Branch n) (Branch m)" by (rule heap_sim_BranchD [OF sim Suc.prems(1) n])
  have "tree_ok c H' h (node_data m ! i) (child_lo lo n i) (child_hi hi n i)" if "i < node_size n" for i
    by (rule Suc.IH [OF _ sub [OF that]]) (use m(2) that in simp)
  moreover have "child_lo lo m i = child_lo lo n i" "child_hi hi m i = child_hi hi n i" for i
    using m(2) by (simp_all add: child_lo_def child_hi_def)
  ultimately show ?case using Suc.prems(2) n m node_match_ok [of m n] by simp
qed

lemma heap_sim_tree_entries:
  assumes sim: "heap_sim R H H'" and "R a a'" and "tree_ok c H h a lo hi"
  shows "tree_entries H' h a' = tree_entries H h a"
  using assms(2,3)
proof (induction h arbitrary: a a' lo hi)
  case 0
  from 0(2) obtain n where n: "H a = Some (Leaf n)" by (rule tree_ok_LeafD)
  obtain m where "H' a' = Some (Leaf m)" "node_match R (Leaf n) (Leaf m)" by (rule heap_sim_LeafD [OF sim 0(1) n])
  then show ?case using n by (simp add: entries_def)
next
  case (Suc h)
  from Suc.prems(2) obtain n where n: "H a = Some (Branch n)" "node_ok c n"
    and sub: "\<And>i. i < node_size n \<Longrightarrow> tree_ok c H h (node_data n ! i) (child_lo lo n i) (child_hi hi n i)"
    by (rule tree_ok_BranchD) blast
  obtain m where m: "H' a' = Some (Branch m)" "node_match R (Branch n) (Branch m)" by (rule heap_sim_BranchD [OF sim Suc.prems(1) n(1)])
  have sz: "node_size n \<le> length (node_data n)" "node_size n \<le> length (node_data m)"
    using n(2) m(2) by (auto simp: node_ok_def node_shape_def)
  have "map (tree_entries H' h) (children (Branch m)) = map (tree_entries H h) (children (Branch n))"
  proof (rule nth_equalityI)
    show "length (map (tree_entries H' h) (children (Branch m))) = length (map (tree_entries H h) (children (Branch n)))"
      using sz m(2) by simp
    fix i assume "i < length (map (tree_entries H' h) (children (Branch m)))"
    then have i: "i < node_size n" using m(2) by simp
    have "tree_entries H' h (node_data m ! i) = tree_entries H h (node_data n ! i)"
      by (rule Suc.IH [OF _ sub [OF i]]) (use m(2) i in simp)
    then show "map (tree_entries H' h) (children (Branch m)) ! i = map (tree_entries H h) (children (Branch n)) ! i"
      using i sz m(2) by simp
  qed
  then show ?case using n m by simp
qed

lemma heap_sim_compose:
  assumes "heap_sim R H H'" and "heap_sim Q H' H''"
  shows "heap_sim (R OO Q) H H''"
  unfolding heap_sim_def
proof (intro allI impI)
  fix a a'' t assume "(R OO Q) a a''" and t: "H a = Some t"
  then obtain b where "R a b" "Q b a''" by auto
  then obtain t' where t': "H' b = Some t'" "node_match R t t'" using assms(1) t unfolding heap_sim_def by blast
  then obtain t'' where t'': "H'' a'' = Some t''" "node_match Q t' t''" using assms(2) \<open>Q b a''\<close> unfolding heap_sim_def by blast
  have "node_match (R OO Q) t t''"
    using t'(2) t''(2) by (cases t; cases t'; cases t'') auto
  then show "\<exists>t'. H'' a'' = Some t' \<and> node_match (R OO Q) t t'" using t''(1) by blast
qed

section \<open>Reference counts\<close>

definition slots :: "'k heap \<Rightarrow> nat \<Rightarrow> nat" where
  \<comment> \<open>the number of branch slots that hold the address\<close>
  "slots H x = (\<Sum>p \<in> dom H. count_list (children (the (H p))) x)"

definition root_count :: "(nat \<Rightarrow> hnode option) \<Rightarrow> nat \<Rightarrow> nat" where
  "root_count hs x = card {h \<in> dom hs. hn_root (the (hs h)) = x}"

definition oslots :: "'k tnode option \<Rightarrow> nat \<Rightarrow> nat" where
  "oslots t x = (case t of None \<Rightarrow> 0 | Some t \<Rightarrow> count_list (children t) x)"

lemma slots_upd:
  assumes "finite (dom H)"
  shows "slots (H(p \<mapsto> t)) x + oslots (H p) x = slots H x + count_list (children t) x"
proof -
  have "slots (H(p \<mapsto> t)) x = (\<Sum>q \<in> insert p (dom H). count_list (children (the ((H(p \<mapsto> t)) q))) x)"
    by (simp add: slots_def insert_absorb)
  also have "\<dots> = count_list (children t) x + (\<Sum>q \<in> dom H - {p}. count_list (children (the ((H(p \<mapsto> t)) q))) x)"
    using assms by (simp add: sum.insert_remove)
  also have "(\<Sum>q \<in> dom H - {p}. count_list (children (the ((H(p \<mapsto> t)) q))) x) = (\<Sum>q \<in> dom H - {p}. count_list (children (the (H q))) x)"
    by (rule sum.cong) auto
  finally have a: "slots (H(p \<mapsto> t)) x = count_list (children t) x + (\<Sum>q \<in> dom H - {p}. count_list (children (the (H q))) x)" .
  have "slots H x = oslots (H p) x + (\<Sum>q \<in> dom H - {p}. count_list (children (the (H q))) x)"
  proof (cases "p \<in> dom H")
    case True
    then show ?thesis using assms by (auto simp: slots_def oslots_def sum.remove [of "dom H" p])
  next
    case False
    then show ?thesis by (auto simp: slots_def oslots_def domIff)
  qed
  then show ?thesis using a by simp
qed

definition store_ok :: "node_cfg \<Rightarrow> 'k store \<Rightarrow> bool" where
  "store_ok c s =
     (finite (dom (nodes s)) \<and> finite (dom (hist s)) \<and> 0 < next_node s
      \<and> (\<forall>a \<in> dom (nodes s). 0 < a \<and> a < next_node s)
      \<and> (\<forall>a t. nodes s a = Some t \<longrightarrow> set (children t) \<subseteq> dom (nodes s))
      \<and> (\<forall>h hn. hist s h = Some hn \<longrightarrow> hn_root hn = 0 \<or> nodes s (hn_root hn) \<noteq> None)
      \<and> (\<forall>a n. nodes s a = Some (Branch n) \<longrightarrow> node_ok c n \<and> node_type n = BRANCH \<and> distinct (children (Branch n)))
      \<and> (\<forall>a n. nodes s a = Some (Leaf n) \<longrightarrow> node_ok c n \<and> node_type n = LEAF
           \<and> (\<forall>i < node_size n. block_ptr (node_data n ! i) \<in> dom (blocks s)))
      \<and> (\<forall>x \<in> dom (nodes s). int (slots (nodes s) x + root_count (hist s) x) \<le> refs s x))"

lemma store_okD:
  assumes "store_ok c s"
  shows "finite (dom (nodes s))" and "finite (dom (hist s))" and "0 < next_node s"
    and "nodes s a = Some t \<Longrightarrow> 0 < a \<and> a < next_node s"
    and "nodes s a = Some t \<Longrightarrow> x \<in> set (children t) \<Longrightarrow> nodes s x \<noteq> None"
    and "nodes s a = Some (Branch n) \<Longrightarrow> node_ok c n \<and> node_type n = BRANCH \<and> distinct (children (Branch n))"
    and "nodes s a = Some (Leaf m) \<Longrightarrow> node_ok c m \<and> node_type m = LEAF"
    and "nodes s a = Some (Leaf m) \<Longrightarrow> i < node_size m \<Longrightarrow> blocks s (block_ptr (node_data m ! i)) \<noteq> None"
    and "nodes s a = Some t \<Longrightarrow> int (slots (nodes s) a + root_count (hist s) a) \<le> refs s a"
    and "hist s h = Some hn \<Longrightarrow> hn_root hn = 0 \<or> nodes s (hn_root hn) \<noteq> None"
  using assms unfolding store_ok_def by blast+

lemma count_list_pos: "x \<in> set xs \<Longrightarrow> 0 < count_list xs x"
  by (induction xs) auto

lemma slots_pos:
  assumes "finite (dom H)" and "H p = Some t" and "x \<in> set (children t)"
  shows "0 < slots H x"
proof -
  have "0 < count_list (children (the (H p))) x" using assms(2,3) by (simp add: count_list_pos)
  also have "\<dots> \<le> slots H x" unfolding slots_def using assms(1,2) by (intro member_le_sum) auto
  finally show ?thesis .
qed

lemma slots_two_parents:
  assumes "finite (dom H)" and "H p = Some t" and "H q = Some u" and "p \<noteq> q"
    and "x \<in> set (children t)" and "x \<in> set (children u)"
  shows "2 \<le> slots H x"
proof -
  have pos: "1 \<le> count_list (children t) x" "1 \<le> count_list (children u) x"
    using count_list_pos [OF assms(5)] count_list_pos [OF assms(6)] by simp_all
  have "(\<Sum>r \<in> {p, q}. count_list (children (the (H r))) x) \<le> slots H x"
    unfolding slots_def using assms(1-3) by (intro sum_mono2) auto
  then show ?thesis using pos assms(2-4) by simp
qed

lemma root_count_pos:
  assumes "finite (dom hs)" and "hs h = Some hn" and "hn_root hn = x"
  shows "0 < root_count hs x"
  using assms by (auto simp: root_count_def card_gt_0_iff)

lemma root_count_two:
  assumes "finite (dom hs)" and "hs h = Some hn" "hn_root hn = x" and "hs k = Some kn" "hn_root kn = x" and "h \<noteq> k"
  shows "2 \<le> root_count hs x"
proof -
  have "card {h, k} \<le> root_count hs x" unfolding root_count_def using assms by (intro card_mono) auto
  then show ?thesis using assms(6) by simp
qed

section \<open>Copying nodes and paths\<close>

lemma map_nth_children: "node_ok c n \<Longrightarrow> map (\<lambda>i. node_data n ! i) [0 ..< node_size n] = take (node_size n) (node_data n)"
  by (rule nth_equalityI) (auto simp: node_ok_def node_shape_def)

lemma foldM_ref:
  "set xs \<subseteq> dom (nodes s) \<Longrightarrow> foldM ref s xs = Some (s\<lparr>refs := \<lambda>x. refs s x + int (count_list xs x)\<rparr>)"
proof (induction xs arbitrary: s)
  case (Cons y ys)
  then have y: "nodes s y \<noteq> None" by auto
  have "(\<lambda>x. ((refs s)(y := refs s y + 1)) x + int (count_list ys x)) = (\<lambda>x. refs s x + int (count_list (y # ys) x))"
    by auto
  then show ?case using Cons y by (simp add: ref_def)
qed simp

fun leaf_blocks :: "'k tnode \<Rightarrow> nat list" where
  "leaf_blocks (Branch n) = []"
| "leaf_blocks (Leaf n) = map block_ptr (take (node_size n) (node_data n))"

lemma leaf_blocks_nth: "node_ok c n \<Longrightarrow> map (\<lambda>i. block_ptr (node_data n ! i)) [0 ..< node_size n] = leaf_blocks (Leaf n)"
  by (intro nth_equalityI) (auto simp: node_ok_def node_shape_def)

definition add_refs :: "nat list \<Rightarrow> (nat \<Rightarrow> int option) \<Rightarrow> nat \<Rightarrow> int option" where
  "add_refs xs bs = (\<lambda>b. map_option (\<lambda>r. r + int (count_list xs b)) (bs b))"

lemma dom_add_refs [simp]: "dom (add_refs xs bs) = dom bs"
  by (auto simp: add_refs_def)

lemma add_refs_Nil [simp]: "add_refs [] bs = bs"
  by (auto simp: add_refs_def option.map_ident)

lemma foldM_block_ref: "set xs \<subseteq> dom (blocks s) \<Longrightarrow> foldM block_ref s xs = Some (s\<lparr>blocks := add_refs xs (blocks s)\<rparr>)"
proof (induction xs arbitrary: s)
  case (Cons y ys)
  then obtain r where r: "blocks s y = Some r" by auto
  let ?s = "s\<lparr>blocks := (blocks s)(y \<mapsto> r + 1)\<rparr>"
  have "foldM block_ref ?s ys = Some (?s\<lparr>blocks := add_refs ys (blocks ?s)\<rparr>)" using Cons by (intro Cons.IH) auto
  moreover have "add_refs ys (blocks ?s) = add_refs (y # ys) (blocks s)" using r by (auto simp: add_refs_def)
  moreover have "block_ref s y = Some ?s" using r by (simp add: block_ref_def)
  ultimately show ?case by simp
qed simp

lemma copy_data_from_new:
  assumes "node_ok c n"
  shows "copy_data_from c (NodeBase c sid nid ty) n = n"
  using assms
  by (cases n) (simp add: copy_data_from_def NodeBase_copy_data_from_def NodeBase_def CopyBuffer_def node_ok_def node_shape_def)

fun set_ids :: "nat \<Rightarrow> nat \<Rightarrow> 'k tnode \<Rightarrow> 'k tnode" where
  "set_ids sid nid (Branch n) = Branch (n\<lparr>snapshot_id := sid, node_id := nid\<rparr>)"
| "set_ids sid nid (Leaf n) = Leaf (n\<lparr>snapshot_id := sid, node_id := nid\<rparr>)"

lemma set_ids_simps [simp]:
  "children (set_ids sid nid t) = children t"
  "(\<And>x. x \<in> set (children t) \<Longrightarrow> R x x) \<Longrightarrow> (\<And>n. t = Branch n \<Longrightarrow> node_size n \<le> length (node_data n)) \<Longrightarrow> node_match R t (set_ids sid nid t)"
proof -
  show "children (set_ids sid nid t) = children t" by (cases t) simp_all
  show "node_match R t (set_ids sid nid t)"
    if R: "\<And>x. x \<in> set (children t) \<Longrightarrow> R x x" and len: "\<And>n. t = Branch n \<Longrightarrow> node_size n \<le> length (node_data n)"
  proof (cases t)
    case (Branch n)
    have "R (node_data n ! i) (node_data n ! i)" if i: "i < node_size n" for i
    proof (rule R)
      have "i < length (take (node_size n) (node_data n))" using i len [OF Branch] by simp
      then have "take (node_size n) (node_data n) ! i \<in> set (take (node_size n) (node_data n))" by (rule nth_mem)
      then show "node_data n ! i \<in> set (children t)" using i Branch by simp
    qed
    then show ?thesis using Branch by simp
  qed simp
qed

definition clone_result :: "'k store \<Rightarrow> nat \<Rightarrow> 'k tnode \<Rightarrow> (nat \<Rightarrow> int option) \<Rightarrow> 'k store" where
  \<comment> \<open>the store after \<open>clone_node\<close> of a node \<open>t\<close>\<close>
  "clone_result s sid t bs =
     s\<lparr>nodes := (nodes s)(next_node s \<mapsto> set_ids sid (next_id s) t),
       refs := (\<lambda>x. ((refs s)(next_node s := 0)) x + int (count_list (children t) x)),
       next_node := next_node s + 1, next_id := next_id s + 1, blocks := bs\<rparr>"

lemma clone_node_result:
  assumes ok: "store_ok c s" and t: "nodes s a = Some t"
  shows "clone_node c s a sid = Some (next_node s, clone_result s sid t (add_refs (leaf_blocks t) (blocks s)))"
proof (cases t)
  case (Branch n)
  have n: "node_ok c n" "node_type n = BRANCH" using store_okD(6) [OF ok] t Branch by auto
  let ?s = "snd (new_node (s\<lparr>next_id := next_id s + 1\<rparr>) (Branch (n\<lparr>snapshot_id := sid, node_id := next_id s\<rparr>)))"
  have "set (children t) \<subseteq> dom (nodes ?s)" using store_okD(5) [OF ok t] by (auto simp: new_node_def)
  then have "foldM ref ?s (take (node_size n) (node_data n)) =
      Some (?s\<lparr>refs := \<lambda>x. refs ?s x + int (count_list (children t) x)\<rparr>)"
    using foldM_ref [of "children t" ?s] Branch by simp
  then show ?thesis using t Branch n
    by (simp add: clone_node_def clone_branch_node_def get_branch_def is_leaf_def new_node_id_def new_node_def Let_def
        copy_data_from_new ref_children_def map_nth_children clone_result_def)
next
  case (Leaf n)
  have n: "node_ok c n" "node_type n = LEAF" using store_okD(7) [OF ok] t Leaf by auto
  let ?m = "n\<lparr>snapshot_id := sid, node_id := next_id s\<rparr>"
  let ?s = "snd (new_node (s\<lparr>next_id := next_id s + 1\<rparr>) (Leaf ?m))"
  have "set (map (\<lambda>i. block_ptr (node_data n ! i)) [0 ..< node_size n]) \<subseteq> dom (blocks ?s)"
    using store_okD(8) [OF ok] t Leaf by (auto simp: new_node_def)
  note bs = foldM_block_ref [OF this, unfolded leaf_blocks_nth [OF n(1)]]
  show ?thesis using t Leaf n bs
    by (simp add: clone_node_def clone_leaf_node_def get_leaf_def is_leaf_def new_node_id_def new_node_def Let_def
        copy_data_from_new clone_result_def fun_upd_def [of "refs s"] leaf_blocks_nth del: leaf_blocks.simps)
qed

lemma clone_node:
  assumes "store_ok c s" and "nodes s a = Some t"
  shows "\<exists>bs. clone_node c s a sid = Some (next_node s, clone_result s sid t bs) \<and> dom bs = dom (blocks s)"
  using clone_node_result [OF assms] by (metis dom_add_refs)

lemma slots_fresh:
  assumes ok: "store_ok c s" and x: "nodes s x = None"
  shows "slots (nodes s) x = 0"
proof -
  have "count_list (children (the (nodes s p))) x = 0" if "p \<in> dom (nodes s)" for p
    using that store_okD(5) [OF ok, of p _ x] x by (auto simp: count_list_0_iff)
  then show ?thesis unfolding slots_def by simp
qed

lemma next_free: "store_ok c s \<Longrightarrow> nodes s (next_node s) = None"
  using store_okD(4) [of c s "next_node s"] by (cases "nodes s (next_node s)") auto

lemma root_count_fresh:
  assumes ok: "store_ok c s" and x: "nodes s x = None" "x \<noteq> 0"
  shows "root_count (hist s) x = 0"
proof -
  have "{h \<in> dom (hist s). hn_root (the (hist s h)) = x} = {}" using store_okD(10) [OF ok] x by fastforce
  then show ?thesis unfolding root_count_def by (simp only: card.empty)
qed

lemma node_ok_ids [simp]:
  "node_ok c (n\<lparr>snapshot_id := i, node_id := j\<rparr>) = node_ok c n"
  by (simp add: node_ok_def node_shape_def index_ok_def last_idx_def)

lemma store_okI:
  assumes "finite (dom (nodes s))" and "finite (dom (hist s))" and "0 < next_node s"
    and "\<And>a t. nodes s a = Some t \<Longrightarrow> 0 < a \<and> a < next_node s"
    and "\<And>a t x. nodes s a = Some t \<Longrightarrow> x \<in> set (children t) \<Longrightarrow> nodes s x \<noteq> None"
    and "\<And>h hn. hist s h = Some hn \<Longrightarrow> hn_root hn = 0 \<or> nodes s (hn_root hn) \<noteq> None"
    and "\<And>a n. nodes s a = Some (Branch n) \<Longrightarrow> node_ok c n \<and> node_type n = BRANCH \<and> distinct (children (Branch n))"
    and "\<And>a n. nodes s a = Some (Leaf n) \<Longrightarrow> node_ok c n \<and> node_type n = LEAF"
    and "\<And>a n i. nodes s a = Some (Leaf n) \<Longrightarrow> i < node_size n \<Longrightarrow> blocks s (block_ptr (node_data n ! i)) \<noteq> None"
    and "\<And>a t. nodes s a = Some t \<Longrightarrow> int (slots (nodes s) a + root_count (hist s) a) \<le> refs s a"
  shows "store_ok c s"
  unfolding store_ok_def using assms by (auto simp: domIff)

lemma set_ids_Branch: "set_ids i j t = Branch n \<Longrightarrow> \<exists>m. t = Branch m \<and> n = m\<lparr>snapshot_id := i, node_id := j\<rparr>"
  by (cases t) auto

lemma set_ids_Leaf: "set_ids i j t = Leaf n \<Longrightarrow> \<exists>m. t = Leaf m \<and> n = m\<lparr>snapshot_id := i, node_id := j\<rparr>"
  by (cases t) auto

lemma clone_result_ok:
  assumes ok: "store_ok c s" and t: "nodes s a = Some t" and bs: "dom bs = dom (blocks s)"
  shows "store_ok c (clone_result s sid t bs)"
proof -
  let ?s = "clone_result s sid t bs" and ?f = "next_node s"
  note D = store_okD [OF ok]
  have free: "nodes s ?f = None" by (rule next_free [OF ok])
  have nodes: "nodes ?s = (nodes s)(?f \<mapsto> set_ids sid (next_id s) t)" by (simp add: clone_result_def)
  have dom: "nodes ?s x \<noteq> None" if "nodes s x \<noteq> None" for x using that nodes by simp
  have slots: "slots (nodes ?s) x = slots (nodes s) x + count_list (children t) x" for x
    using slots_upd [OF D(1), of ?f "set_ids sid (next_id s) t" x] free nodes by (simp add: oslots_def)
  have hist: "hist ?s = hist s" by (simp add: clone_result_def)
  have blk: "blocks ?s x \<noteq> None" if "blocks s x \<noteq> None" for x
    using that bs by (auto simp: clone_result_def domIff set_eq_iff)
  show ?thesis
  proof (rule store_okI)
    show "finite (dom (nodes ?s))" using D(1) by (simp add: nodes)
    show "finite (dom (hist ?s))" "0 < next_node ?s" using D(2) by (simp_all add: clone_result_def)
    show "0 < b \<and> b < next_node ?s" if "nodes ?s b = Some u" for b u
      using that D(3) D(4) [of b] by (auto simp: nodes clone_result_def split: if_splits)
    show "nodes ?s x \<noteq> None" if "nodes ?s b = Some u" "x \<in> set (children u)" for b u x
      using that D(5) [OF t] D(5) [of b u x] by (intro dom) (auto simp: nodes split: if_splits)
    show "hn_root hn = 0 \<or> nodes ?s (hn_root hn) \<noteq> None" if "hist ?s h = Some hn" for h hn
      using D(10) [of h hn] that dom [of "hn_root hn"] by (auto simp: hist)
    show "node_ok c n \<and> node_type n = BRANCH \<and> distinct (children (Branch n))" if "nodes ?s b = Some (Branch n)" for b n
      using that D(6) [of b n] D(6) [of a] t by (auto simp: nodes split: if_splits dest!: set_ids_Branch)
    show "node_ok c n \<and> node_type n = LEAF" if "nodes ?s b = Some (Leaf n)" for b n
      using that D(7) [of b n] D(7) [of a] t by (auto simp: nodes split: if_splits dest!: set_ids_Leaf)
    show "blocks ?s (block_ptr (node_data n ! i)) \<noteq> None" if "nodes ?s b = Some (Leaf n)" "i < node_size n" for b n i
      using that D(8) [of b n i] D(8) [of a _ i] t by (intro blk) (auto simp: nodes split: if_splits dest!: set_ids_Leaf)
    show "int (slots (nodes ?s) b + root_count (hist ?s) b) \<le> refs ?s b" if b: "nodes ?s b = Some u" for b u
    proof (cases "b = ?f")
      case True
      then show ?thesis
        using slots_fresh [OF ok free] root_count_fresh [OF ok free] D(3)
        by (simp add: slots hist) (simp add: clone_result_def)
    next
      case False
      then have "nodes s b = Some u" using b by (simp add: nodes)
      from D(9) [OF this] show ?thesis using False unfolding slots hist by (simp add: clone_result_def)
    qed
  qed
qed

definition relink :: "'k store \<Rightarrow> nat \<Rightarrow> ('k, nat) node \<Rightarrow> nat \<Rightarrow> nat \<Rightarrow> 'k store" where
  \<comment> \<open>slot \<open>i\<close> of the branch \<open>p\<close> at \<open>pa\<close> gets the address \<open>x\<close> in place of its present child\<close>
  "relink s pa p i x =
     s\<lparr>nodes := (nodes s)(pa \<mapsto> Branch (p\<lparr>node_data := (node_data p)[i := x]\<rparr>)),
       refs := (let r = (refs s)(node_data p ! i := refs s (node_data p ! i) - 1) in r(x := r x + 1))\<rparr>"

lemma relink_steps:
  assumes ok: "store_ok c s" and p: "nodes s pa = Some (Branch p)" and i: "i < node_size p" and x: "nodes s x \<noteq> None"
  defines "R \<equiv> (refs s)(node_data p ! i := refs s (node_data p ! i) - 1)"
  shows "unref s (node_data p ! i) = Some (refs s (node_data p ! i) - 1, s\<lparr>refs := R\<rparr>)"
    and "get_branch (s\<lparr>refs := R\<rparr>) pa = Some p"
    and "ref (put_branch (s\<lparr>refs := R\<rparr>) pa (p\<lparr>node_data := (node_data p)[i := x]\<rparr>)) x = Some (relink s pa p i x)"
proof -
  have n: "node_ok c p" using store_okD(6) [OF ok p] by simp
  have ch: "node_data p ! i \<in> set (children (Branch p))"
    using children_nth [OF n] i by (metis nth_mem)
  have pos: "0 < slots (nodes s) (node_data p ! i)" by (rule slots_pos [OF store_okD(1) [OF ok] p ch])
  have dom: "nodes s (node_data p ! i) \<noteq> None" by (rule store_okD(5) [OF ok p ch])
  then have "1 \<le> refs s (node_data p ! i)" using store_okD(9) [OF ok] pos by fastforce
  then show "unref s (node_data p ! i) = Some (refs s (node_data p ! i) - 1, s\<lparr>refs := R\<rparr>)"
    using dom by (auto simp: unref_def R_def Let_def)
  show "get_branch (s\<lparr>refs := R\<rparr>) pa = Some p" using p by (simp add: get_branch_def)
  show "ref (put_branch (s\<lparr>refs := R\<rparr>) pa (p\<lparr>node_data := (node_data p)[i := x]\<rparr>)) x = Some (relink s pa p i x)"
    using x by (simp add: put_branch_def ref_def relink_def R_def)
qed

lemma count_list_update:
  assumes "i < length xs"
  shows "count_list (xs[i := x]) y + of_bool (xs ! i = y) = count_list xs y + of_bool (x = y)"
proof -
  have "count_list (take i xs @ x # drop (Suc i) xs) y + of_bool (xs ! i = y)
      = count_list (take i xs @ xs ! i # drop (Suc i) xs) y + of_bool (x = y)"
    by (simp add: count_list_append)
  then show ?thesis using assms by (simp add: upd_conv_take_nth_drop id_take_nth_drop [symmetric])
qed

lemma relink_slots:
  assumes ok: "store_ok c s" and p: "nodes s pa = Some (Branch p)" and i: "i < node_size p"
  shows "slots (nodes (relink s pa p i x)) y + of_bool (node_data p ! i = y) = slots (nodes s) y + of_bool (x = y)"
proof -
  let ?p = "p\<lparr>node_data := (node_data p)[i := x]\<rparr>"
  have n: "node_ok c p" using store_okD(6) [OF ok p] by simp
  have len: "i < length (children (Branch p))" using children_nth(1) [OF n] i by simp
  have "children (Branch ?p) = (children (Branch p))[i := x]" by (simp add: take_update_swap)
  then have "count_list (children (Branch ?p)) y + of_bool (node_data p ! i = y) = count_list (children (Branch p)) y + of_bool (x = y)"
    using count_list_update [OF len, of x y] children_nth(2) [OF n i] by simp
  then show ?thesis using slots_upd [OF store_okD(1) [OF ok], of pa "Branch ?p" y] p by (simp add: oslots_def relink_def)
qed

lemma relink_ok:
  assumes ok: "store_ok c s" and p: "nodes s pa = Some (Branch p)" and i: "i < node_size p" and x: "nodes s x \<noteq> None"
    and new: "x \<notin> set (children (Branch p))"
  shows "store_ok c (relink s pa p i x)"
proof -
  let ?s = "relink s pa p i x" and ?p = "p\<lparr>node_data := (node_data p)[i := x]\<rparr>"
  note D = store_okD [OF ok]
  have nodes: "nodes ?s = (nodes s)(pa \<mapsto> Branch ?p)" by (simp add: relink_def)
  have n: "node_ok c p" "node_type p = BRANCH" using D(6) [OF p] by auto
  have "children (Branch ?p) = (children (Branch p))[i := x]" by (simp add: take_update_swap)
  then have dist: "distinct (children (Branch ?p))" using D(6) [OF p] new by (simp add: distinct_list_update del: children.simps)
  have n': "node_ok c ?p" using n by (simp add: node_ok_def node_shape_def index_ok_def last_idx_def)
  have ch: "set (children (Branch ?p)) \<subseteq> insert x (set (children (Branch p)))"
    by (simp add: take_update_swap set_update_subset_insert)
  show ?thesis
  proof (rule store_okI)
    show "finite (dom (nodes ?s))" using D(1) by (simp add: nodes)
    show "finite (dom (hist ?s))" "0 < next_node ?s" using D(2,3) by (simp_all add: relink_def)
    show "0 < b \<and> b < next_node ?s" if "nodes ?s b = Some u" for b u
      using that D(4) [of b] p by (auto simp: relink_def split: if_splits)
    show "nodes ?s y \<noteq> None" if "nodes ?s b = Some u" "y \<in> set (children u)" for b u y
    proof -
      have "nodes s y \<noteq> None"
        using that D(5) [OF p, of y] D(5) [of b u y] x ch by (auto simp: nodes split: if_splits)
      then show ?thesis by (simp add: nodes)
    qed
    show "hn_root hn = 0 \<or> nodes ?s (hn_root hn) \<noteq> None" if "hist ?s h = Some hn" for h hn
      using D(10) [of h hn] that by (auto simp: relink_def)
    show "node_ok c m \<and> node_type m = BRANCH \<and> distinct (children (Branch m))" if "nodes ?s b = Some (Branch m)" for b m
      using that D(6) [of b m] n n' dist by (auto simp: nodes split: if_splits)
    show "node_ok c m \<and> node_type m = LEAF" if "nodes ?s b = Some (Leaf m)" for b m
      using that D(7) [of b m] by (auto simp: nodes split: if_splits)
    show "blocks ?s (block_ptr (node_data m ! j)) \<noteq> None" if "nodes ?s b = Some (Leaf m)" "j < node_size m" for b m j
      using that D(8) [of b m j] by (auto simp: relink_def split: if_splits)
    show "int (slots (nodes ?s) b + root_count (hist ?s) b) \<le> refs ?s b" if b: "nodes ?s b = Some u" for b u
    proof -
      have "nodes s b \<noteq> None" using b p by (auto simp: nodes split: if_splits)
      then have "int (slots (nodes s) b + root_count (hist s) b) \<le> refs s b" using D(9) by blast
      moreover have "refs ?s b = refs s b - of_bool (node_data p ! i = b) + of_bool (x = b)" by (auto simp: relink_def Let_def)
      moreover have "hist ?s = hist s" by (simp add: relink_def)
      moreover have "int (slots (nodes ?s) b) + of_bool (node_data p ! i = b) = int (slots (nodes s) b) + of_bool (x = b)"
        using arg_cong [OF relink_slots [OF ok p i, of x b], of int] by simp
      ultimately show ?thesis by simp
    qed
  qed
qed

definition linked :: "'k heap \<Rightarrow> nat \<Rightarrow> nat \<Rightarrow> bool" where
  "linked H x p = (case H p of Some t \<Rightarrow> x \<in> set (children t) | None \<Rightarrow> False)"

lemma linked_Branch:
  assumes "linked H x p"
  obtains n where "H p = Some (Branch n)" and "x \<in> set (children (Branch n))"
proof -
  obtain t where t: "H p = Some t" "x \<in> set (children t)" using assms by (auto simp: linked_def split: option.splits)
  then show thesis using that by (cases t) auto
qed

lemma find_child_node_Some:
  assumes "node_ok c p" and "x \<in> set (children (Branch p))"
  obtains i where "find_child_node p x = int i" and "i < node_size p" and "node_data p ! i = x"
proof -
  obtain j where "j < node_size p" "node_data p ! j = x"
    using assms(2) children_nth [OF assms(1)] by (metis in_set_conv_nth)
  then have "List.find (\<lambda>i. node_data p ! i = x) [0 ..< node_size p] \<noteq> None" by (auto simp: find_upt_None)
  then obtain i where "List.find (\<lambda>i. node_data p ! i = x) [0 ..< node_size p] = Some i" by blast
  moreover from this have "i < node_size p" "node_data p ! i = x" by (simp_all add: find_upt)
  ultimately show thesis using that [of i] by (simp add: find_child_node_def)
qed

definition relink_clone :: "'k store \<Rightarrow> nat \<Rightarrow> 'k tnode \<Rightarrow> (nat \<Rightarrow> int option) \<Rightarrow> nat \<Rightarrow> ('k, nat) node \<Rightarrow> nat \<Rightarrow> 'k store" where
  "relink_clone s sid t bs pa p i = relink (clone_result s sid t bs) pa p i (next_node s)"

lemma relink_clone:
  fixes sid :: nat
  assumes ok: "store_ok c s" and t: "nodes s node = Some t" and bs: "dom bs = dom (blocks s)"
    and p: "nodes s pa = Some (Branch p)" and i: "i < node_size p" "node_data p ! i = node"
  defines "s' \<equiv> relink_clone s sid t bs pa p i" and "f \<equiv> next_node s"
  shows "store_ok c s'" and "hist s' = hist s" and "next_node s' = next_node s + 1" and "dom (blocks s') = dom (blocks s)"
    and "nodes s' = (nodes s)(f \<mapsto> set_ids sid (next_id s) t, pa \<mapsto> Branch (p\<lparr>node_data := (node_data p)[i := f]\<rparr>))"
    and "refs s' f = 1" and "\<And>x. x \<notin> set (children t) \<Longrightarrow> x \<noteq> node \<Longrightarrow> x \<noteq> f \<Longrightarrow> refs s' x = refs s x"
    and "heap_sim (\<lambda>x y. x = y \<and> nodes s x \<noteq> None \<or> x = node \<and> y = f) (nodes s) (nodes s')"
proof -
  let ?c = "clone_result s sid t bs" and ?p = "p\<lparr>node_data := (node_data p)[i := f]\<rparr>"
  have free: "nodes s f = None" unfolding f_def by (rule next_free [OF ok])
  then have pf: "pa \<noteq> f" and nf: "node \<noteq> f" using p t by auto
  have cok: "store_ok c ?c" by (rule clone_result_ok [OF ok t bs])
  have cp: "nodes ?c pa = Some (Branch p)" using p pf by (simp add: clone_result_def f_def)
  have cf: "nodes ?c f \<noteq> None" by (simp add: clone_result_def f_def)
  have fp: "f \<notin> set (children (Branch p))" using store_okD(5) [OF ok p] free by blast
  show "store_ok c s'" unfolding s'_def relink_clone_def f_def [symmetric] by (rule relink_ok [OF cok cp i(1) cf fp])
  show "hist s' = hist s" "next_node s' = next_node s + 1" "dom (blocks s') = dom (blocks s)"
    by (simp_all add: s'_def relink_clone_def relink_def clone_result_def bs)
  show nodes: "nodes s' = (nodes s)(f \<mapsto> set_ids sid (next_id s) t, pa \<mapsto> Branch ?p)"
    by (simp add: s'_def relink_clone_def relink_def clone_result_def f_def)
  have "f \<notin> set (children t)" using store_okD(5) [OF ok t] free by blast
  then show "refs s' f = 1" using nf i(2)
    by (simp add: s'_def relink_clone_def relink_def clone_result_def f_def Let_def count_list_0_iff)
  show "refs s' x = refs s x" if "x \<notin> set (children t)" "x \<noteq> node" "x \<noteq> f" for x
    using that i(2) by (simp add: s'_def relink_clone_def relink_def clone_result_def f_def Let_def count_list_0_iff)
  let ?R = "\<lambda>x y. x = y \<and> nodes s x \<noteq> None \<or> x = node \<and> y = f"
  have refl: "node_match ?R u (set_ids a b u)" if "nodes s x = Some u" for a b u x
    using store_okD(5) [OF ok that] store_okD(6) [OF ok, of x] that
    by (intro set_ids_simps) (auto simp: node_ok_def node_shape_def)
  have same: "node_match ?R u u" if u: "nodes s x = Some u" for u x
    using refl [OF u, of 0 0] by (cases u) simp_all
  have "i < length (node_data p)" using store_okD(6) [OF ok p] i(1) by (auto simp: node_ok_def node_shape_def)
  then have "?R (node_data p ! j) ((node_data p)[i := f] ! j)" if "j < node_size p" for j
    using same [OF p] i that by (cases "j = i") auto
  then have pmatch: "node_match ?R (Branch p) (Branch ?p)" by simp
  show "heap_sim ?R (nodes s) (nodes s')"
    unfolding heap_sim_def
  proof (intro allI impI)
    fix x y u assume R: "?R x y" and u: "nodes s x = Some u"
    show "\<exists>t'. nodes s' y = Some t' \<and> node_match ?R u t'"
    proof (cases "y = f")
      case True
      then have "x = node" using R free by auto
      then show ?thesis using u t refl [OF t] True pf by (simp add: nodes)
    next
      case False
      then have "x = y" using R by blast
      moreover have "node_match ?R u (Branch ?p)" if "x = pa"
      proof -
        have "u = Branch p" using u p that by simp
        then show ?thesis using pmatch by (simp only:)
      qed
      ultimately show ?thesis using same [OF u] u False by (cases "y = pa") (simp_all add: nodes)
    qed
  qed
qed

definition path_ok :: "'k heap \<Rightarrow> path \<Rightarrow> bool" where
  \<comment> \<open>a path of the tree from a leaf up to a root\<close>
  "path_ok H path = (path \<noteq> [] \<and> distinct path \<and> (\<forall>j. Suc j < length path \<longrightarrow> linked H (path ! j) (path ! Suc j)))"

definition copied_from :: "node_cfg \<Rightarrow> 'k store \<Rightarrow> path \<Rightarrow> nat \<Rightarrow> path \<Rightarrow> 'k store \<Rightarrow> bool" where
  \<comment> \<open>what \<open>clone_path\<close> promises for the nodes from \<open>level\<close> up: copies that only this path owns, the rest unchanged\<close>
  "copied_from c s path level path' s' \<longleftrightarrow>
     length path' = length path \<and> last path' = last path \<and> (\<forall>j < level. path' ! j = path ! j)
     \<and> store_ok c s' \<and> hist s' = hist s \<and> next_node s \<le> next_node s' \<and> dom (blocks s') = dom (blocks s)
     \<and> (\<forall>x. nodes s x \<noteq> None \<and> x \<noteq> last path \<longrightarrow> nodes s' x = nodes s x)
     \<and> (slots (nodes s) (last path) = 0 \<longrightarrow> refs s' (last path) = refs s (last path))
     \<and> distinct (drop level path')
     \<and> (\<forall>j. level \<le> j \<and> Suc j < length path \<longrightarrow> next_node s \<le> path' ! j \<and> refs s' (path' ! j) = 1
           \<and> linked (nodes s') (path' ! j) (path' ! Suc j))
     \<and> (\<forall>j n i. level \<le> j \<and> Suc j < length path \<and> nodes s (path ! Suc j) = Some (Branch n) \<and> i < node_size n \<and> node_data n ! i = path ! j
           \<longrightarrow> (\<exists>m. nodes s' (path' ! Suc j) = Some (Branch m) \<and> node_size m = node_size n \<and> node_keys m = node_keys n \<and> node_data m ! i = path' ! j))
     \<and> (0 < level \<and> level < length path \<longrightarrow>
           (\<forall>n. nodes s (path ! level) = Some (Branch n) \<longrightarrow>
              (\<exists>m. nodes s' (path' ! level) = Some (Branch m) \<and> node_size m = node_size n \<and> node_keys m = node_keys n \<and> node_data m = node_data n)))
     \<and> (\<exists>R. heap_sim R (nodes s) (nodes s') \<and> (\<forall>x. nodes s x \<noteq> None \<longrightarrow> R x x)
           \<and> (\<forall>j. level \<le> j \<and> j < length path \<longrightarrow> R (path ! j) (path' ! j)))"

lemma heap_sim_refl:
  assumes "store_ok c s"
  shows "heap_sim (\<lambda>x y. x = y \<and> nodes s x \<noteq> None) (nodes s) (nodes s)"
  unfolding heap_sim_def
proof (intro allI impI)
  fix a a' t assume a: "a = a' \<and> nodes s a \<noteq> None" and t: "nodes s a = Some t"
  have "node_match (\<lambda>x y. x = y \<and> nodes s x \<noteq> None) t (set_ids 0 0 t)"
    using store_okD(5,6) [OF assms, of a] t by (intro set_ids_simps) (auto simp: node_ok_def node_shape_def)
  then have "node_match (\<lambda>x y. x = y \<and> nodes s x \<noteq> None) t t" by (cases t) simp_all
  then show "\<exists>t'. nodes s a' = Some t' \<and> node_match (\<lambda>x y. x = y \<and> nodes s x \<noteq> None) t t'" using a t by auto
qed

lemma path_okD: "path_ok H path \<Longrightarrow> Suc j < length path \<Longrightarrow> linked H (path ! j) (path ! Suc j)"
  by (simp add: path_ok_def)

lemma in_butlast: "a \<in> set (butlast xs) \<longleftrightarrow> (\<exists>j. Suc j < length xs \<and> a = xs ! j)"
proof
  assume "a \<in> set (butlast xs)"
  then obtain j where "j < length xs - 1" "a = xs ! j" by (auto simp: in_set_conv_nth nth_butlast)
  then show "\<exists>j. Suc j < length xs \<and> a = xs ! j" by (intro exI [of _ j]) simp
next
  assume "\<exists>j. Suc j < length xs \<and> a = xs ! j"
  then obtain j where j: "Suc j < length xs" "a = xs ! j" by blast
  then have "j < length (butlast xs)" by simp
  then show "a \<in> set (butlast xs)" using j(2) nth_mem by (metis nth_butlast)
qed

lemma path_nodes_live:
  assumes ok: "store_ok c s" and path: "path_ok (nodes s) path" and "nodes s (last path) \<noteq> None" and "j < length path"
  shows "nodes s (path ! j) \<noteq> None"
proof (cases "Suc j < length path")
  case True
  then have "linked (nodes s) (path ! j) (path ! Suc j)" using path by (simp add: path_ok_def)
  then obtain n where "nodes s (path ! Suc j) = Some (Branch n)" "path ! j \<in> set (children (Branch n))" by (rule linked_Branch)
  then show ?thesis by (rule store_okD(5) [OF ok])
next
  case False
  then have "j = length path - 1" using assms(4) by simp
  then show ?thesis using assms(3) assms(4) by (metis last_conv_nth length_0_conv not_less_zero)
qed

lemma linked_upd_other: "p \<noteq> q \<Longrightarrow> linked (H(q \<mapsto> t)) x p = linked H x p"
  by (simp add: linked_def)

lemma clone_path_level:
  assumes ok: "store_ok c s" and path: "path_ok (nodes s) path" and root: "nodes s (last path) \<noteq> None"
    and l: "Suc l < length path" and rec: "clone_path c sid s path (l + 1) = Some (q, s1)"
    and copied: "copied_from c s path (l + 1) q s1"
  shows "\<exists>q' s'. clone_path c sid s path l = Some (q', s') \<and> copied_from c s path l q' s'"
proof -
  note C = copied [unfolded copied_from_def]
  let ?node = "path ! l" and ?pa = "q ! Suc l" and ?f = "next_node s1"
  have node_ne: "?node \<noteq> last path"
  proof -
    have "last path = path ! (length path - 1)" using path by (simp add: path_ok_def last_conv_nth)
    then show ?thesis using path l by (simp add: path_ok_def nth_eq_iff_index_eq)
  qed
  have live: "nodes s ?node \<noteq> None" by (rule path_nodes_live [OF ok path root]) (use l in simp)
  obtain t where t: "nodes s ?node = Some t" using live by blast
  have t1: "nodes s1 ?node = Some t" using C node_ne live t by simp
  obtain n0 where n0: "nodes s (path ! Suc l) = Some (Branch n0)" "?node \<in> set (children (Branch n0))"
    using path_okD [OF path l] by (rule linked_Branch)
  then obtain p where p: "nodes s1 ?pa = Some (Branch p)" and pn: "node_size p = node_size n0" "node_keys p = node_keys n0" "node_data p = node_data n0"
    using C l by auto
  have pch: "?node \<in> set (children (Branch p))" using n0(2) pn by simp
  have ok1: "store_ok c s1" using C by blast
  have pok: "node_ok c p" using store_okD(6) [OF ok1 p] by simp
  obtain i where i: "find_child_node p ?node = int i" "i < node_size p" "node_data p ! i = ?node"
    by (rule find_child_node_Some [OF pok pch])
  obtain bs where bs: "clone_node c s1 ?node sid = Some (?f, clone_result s1 sid t bs)" "dom bs = dom (blocks s1)"
    using clone_node [OF ok1 t1] by blast
  let ?s2 = "clone_result s1 sid t bs" and ?s' = "relink_clone s1 sid t bs ?pa p i" and ?q = "q[l := ?f]"
  obtain R where R: "heap_sim R (nodes s) (nodes s1)" "\<And>x. nodes s x \<noteq> None \<Longrightarrow> R x x"
    "\<And>j. l + 1 \<le> j \<Longrightarrow> j < length path \<Longrightarrow> R (path ! j) (q ! j)" using C by blast
  have old: "nodes s1 x \<noteq> None" if "nodes s x \<noteq> None" for x
    using R(1) R(2) [OF that] that unfolding heap_sim_def by (metis option.exhaust option.distinct(1))
  have len: "length q = length path" and lst: "last q = last path" using C by blast+
  have lastq: "q ! (length path - 1) = last path" using len lst l by (metis last_conv_nth length_0_conv not_less_zero)
  have live: "nodes s1 (q ! j) \<noteq> None" if j: "l < j" "j < length path" for j
  proof (cases "Suc j < length path")
    case True
    then have "linked (nodes s1) (q ! j) (q ! Suc j)" using C j by simp
    then obtain n where "nodes s1 (q ! Suc j) = Some (Branch n)" "q ! j \<in> set (children (Branch n))" by (rule linked_Branch)
    then show ?thesis by (rule store_okD(5) [OF ok1])
  next
    case False
    then have "j = length path - 1" using j by simp
    then show ?thesis using lastq old [OF root] by simp
  qed
  have free: "nodes s1 ?f = None" by (rule next_free [OF ok1])
  have pf: "?pa \<noteq> ?f" using p free by auto
  have p2: "nodes ?s2 ?pa = Some (Branch p)" using p pf by (simp add: clone_result_def)
  have f2: "nodes ?s2 ?f \<noteq> None" by (simp add: clone_result_def)
  note K = relink_clone [OF ok1 t1 bs(2) p i(2,3), where sid = sid]
  note steps = relink_steps [OF clone_result_ok [OF ok1 t1 bs(2)] p2 i(2) f2, unfolded i(3)]
  have l': "l < length path - 1" using l by simp
  have run: "clone_path c sid s path l = Some (?q, ?s')"
    using l' l rec len p i bs(1) steps
    by (subst clone_path.simps) (simp add: path_at_def get_branch_def [of s1] relink_clone_def)
  have pa_ne: "x \<noteq> ?pa" if x: "nodes s x \<noteq> None" "x \<noteq> last path" for x
  proof (cases "Suc (Suc l) < length path")
    case True
    then have "next_node s \<le> ?pa" using C by simp
    then show ?thesis using store_okD(4) [OF ok] x by fastforce
  next
    case False
    then have "Suc l = length path - 1" using l by simp
    then show ?thesis using lastq x(2) by simp
  qed
  have fresh: "?f \<notin> set (drop (Suc l) q)"
  proof
    assume "?f \<in> set (drop (Suc l) q)"
    then obtain j where "j < length q - Suc l" "?f = q ! (Suc l + j)" by (auto simp: in_set_conv_nth)
    then show False using live [of "Suc l + j"] free len by (simp add: less_diff_conv add.commute)
  qed
  have dist: "distinct (drop (Suc l) q)" using C by simp
  have new: "next_node s \<le> q ! j" "refs s1 (q ! j) = 1" "linked (nodes s1) (q ! j) (q ! Suc j)"
    if "l < j" "Suc j < length path" for j using C that by simp_all
  have tch: "x < next_node s" if "x \<in> set (children t)" for x
    using store_okD(4) [OF ok] store_okD(5) [OF ok t that] by blast
  have nodes': "nodes ?s' x = (if x = ?pa then Some (Branch (p\<lparr>node_data := (node_data p)[i := ?f]\<rparr>))
      else if x = ?f then Some (set_ids sid (next_id s1) t) else nodes s1 x)" for x
    unfolding K(5) by simp
  have own: "next_node s \<le> ?q ! j \<and> refs ?s' (?q ! j) = 1 \<and> linked (nodes ?s') (?q ! j) (?q ! Suc j)"
    if j: "l \<le> j" "Suc j < length path" for j
  proof (cases "j = l")
    case True
    have "length (node_data p) = NodeSize c" "i < NodeSize c" using pok i(2) by (auto simp: node_ok_def node_shape_def)
    then have "?f \<in> set (take (node_size p) ((node_data p)[i := ?f]))"
      using i(2) by (auto simp: in_set_conv_nth intro!: exI [of _ i])
    then have "linked (nodes ?s') ?f ?pa" unfolding linked_def nodes' by simp
    moreover have "next_node s \<le> ?f" using C by blast
    ultimately show ?thesis using True K(6) l len by simp
  next
    case False
    then have lj: "l < j" using j by simp
    note N = new [OF lj j(2)]
    have ne: "?q ! j = q ! j" "?q ! Suc j = q ! Suc j" using False lj by simp_all
    have "q ! j \<noteq> ?node" using N(1) store_okD(4) [OF ok t] by auto
    moreover have "q ! j \<noteq> ?f" using live [of j] free lj j(2) by auto
    ultimately have "refs ?s' (q ! j) = 1" using K(7) [of "q ! j"] N(1,2) tch [of "q ! j"] by auto
    moreover have "q ! Suc j \<noteq> ?pa"
      using dist lj j(2) len nth_eq_iff_index_eq [OF dist, of "j - l" 0] by (simp add: Suc_diff_le)
    moreover have "q ! Suc j \<noteq> ?f" using live [of "Suc j"] free lj j(2) by auto
    ultimately show ?thesis using N ne by (simp add: linked_def nodes')
  qed
  have dist': "distinct (drop l ?q)"
  proof -
    have "drop l ?q = ?f # drop (Suc l) q" using l len by (simp add: drop_update_cancel Cons_nth_drop_Suc [symmetric])
    then show ?thesis using fresh dist by simp
  qed
  have frame: "nodes ?s' x = nodes s x" if "nodes s x \<noteq> None" "x \<noteq> last path" for x
    using that C old [OF that(1)] free pa_ne [OF that] by (auto simp: nodes')
  have low: "\<exists>m. nodes ?s' ?f = Some (Branch m) \<and> node_size m = node_size n \<and> node_keys m = node_keys n \<and> node_data m = node_data n"
    if n: "nodes s ?node = Some (Branch n)" for n
  proof -
    have "nodes ?s' ?f = Some (set_ids sid (next_id s1) t)" using pf nodes' [of ?f] by simp
    moreover have "set_ids sid (next_id s1) t = Branch (n\<lparr>snapshot_id := sid, node_id := next_id s1\<rparr>)" using n t by simp
    ultimately show ?thesis by simp
  qed
  have idx: "\<exists>m. nodes ?s' (?q ! Suc j) = Some (Branch m) \<and> node_size m = node_size n \<and> node_keys m = node_keys n \<and> node_data m ! k = ?q ! j"
    if j: "l \<le> j" "Suc j < length path" "nodes s (path ! Suc j) = Some (Branch n)" "k < node_size n" "node_data n ! k = path ! j" for j n k
  proof (cases "j = l")
    case True
    then have n: "n = n0" using j(3) n0 by simp
    have "distinct (children (Branch n0))" "node_ok c n0" using store_okD(6) [OF ok n0(1)] by simp_all
    then have "k = i" using True n j(4,5) i(2,3) pn children_nth [of c n0] nth_eq_iff_index_eq [of "children (Branch n0)" k i] by metis
    moreover have "i < length (node_data p)" using pok i(2) by (auto simp: node_ok_def node_shape_def)
    ultimately show ?thesis using True n pn l len by (simp add: nodes')
  next
    case False
    then have lj: "l < j" using j(1) by simp
    have "q ! Suc j \<noteq> ?pa"
      using dist lj j(2) len nth_eq_iff_index_eq [OF dist, of "j - l" 0] by (simp add: Suc_diff_le)
    moreover have "q ! Suc j \<noteq> ?f" using live [of "Suc j"] free lj j(2) by auto
    moreover have "\<exists>m. nodes s1 (q ! Suc j) = Some (Branch m) \<and> node_size m = node_size n \<and> node_keys m = node_keys n \<and> node_data m ! k = q ! j"
      using C lj j by auto
    ultimately show ?thesis using lj by (simp add: nodes')
  qed
  have sim: "\<exists>Q. heap_sim Q (nodes s) (nodes ?s') \<and> (\<forall>x. nodes s x \<noteq> None \<longrightarrow> Q x x)
      \<and> (\<forall>j. l \<le> j \<and> j < length path \<longrightarrow> Q (path ! j) (?q ! j))"
  proof (intro exI conjI allI impI)
    show "heap_sim (R OO (\<lambda>x y. x = y \<and> nodes s1 x \<noteq> None \<or> x = ?node \<and> y = ?f)) (nodes s) (nodes ?s')"
      by (rule heap_sim_compose [OF R(1) K(8)])
    show "(R OO (\<lambda>x y. x = y \<and> nodes s1 x \<noteq> None \<or> x = ?node \<and> y = ?f)) x x" if "nodes s x \<noteq> None" for x
      using R(2) [OF that] old [OF that] by blast
    fix j assume j: "l \<le> j \<and> j < length path"
    show "(R OO (\<lambda>x y. x = y \<and> nodes s1 x \<noteq> None \<or> x = ?node \<and> y = ?f)) (path ! j) (?q ! j)"
    proof (cases "j = l")
      case True
      then have "R (path ! j) ?node" using R(2) t by simp
      moreover have "?q ! j = ?f" using True l len by simp
      ultimately show ?thesis by auto
    next
      case False
      then have "R (path ! j) (q ! j)" "nodes s1 (q ! j) \<noteq> None" using R(3) [of j] live [of j] j by simp_all
      then show ?thesis using False by auto
    qed
  qed
  have rootrefs: "refs ?s' (last path) = refs s (last path)" if z: "slots (nodes s) (last path) = 0"
  proof -
    have "last path \<notin> set (children t)" using slots_pos [OF store_okD(1) [OF ok] t, of "last path"] z by auto
    moreover have "last path \<noteq> ?f" using old [OF root] free by auto
    ultimately show ?thesis using K(7) [of "last path"] node_ne C z by auto
  qed
  have "last ?q = last path"
    using lastq l len by (simp add: last_conv_nth [of ?q] length_0_conv [symmetric] del: length_0_conv)
  then have "copied_from c s path l ?q ?s'"
    unfolding copied_from_def
    using own dist' frame low idx sim K(1-4) C l len rootrefs by simp
  then show ?thesis using run by blast
qed

lemma copied_from_top:
  assumes "store_ok c s" and "nodes s (last path) \<noteq> None" and "path_ok (nodes s) path" and "l = length path - 1"
  shows "copied_from c s path l path s"
proof -
  have path: "path \<noteq> []" "path ! l = last path" using assms(3,4) by (simp_all add: path_ok_def last_conv_nth)
  have j: "j = l" if "l \<le> j" "j < length path" for j using that assms(4) by simp
  have "\<exists>R. heap_sim R (nodes s) (nodes s) \<and> (\<forall>x. nodes s x \<noteq> None \<longrightarrow> R x x)
      \<and> (\<forall>j. l \<le> j \<and> j < length path \<longrightarrow> R (path ! j) (path ! j))"
    by (intro exI [of _ "\<lambda>x y. x = y \<and> nodes s x \<noteq> None"])
      (use heap_sim_refl [OF assms(1)] path(2) assms(2) j in \<open>metis (no_types, lifting)\<close>)
  then show ?thesis unfolding copied_from_def using assms by (auto simp: path_ok_def)
qed

lemma clone_path:
  assumes ok: "store_ok c s" and path: "path_ok (nodes s) path" and root: "nodes s (last path) \<noteq> None" and "l < length path"
  shows "\<exists>q s'. clone_path c sid s path l = Some (q, s') \<and> copied_from c s path l q s'"
  using assms(4)
proof (induction "length path - 1 - l" arbitrary: l)
  case 0
  then have "l = length path - 1" by simp
  then show ?case using copied_from_top [OF ok root path, of l] by (subst clone_path.simps) simp
next
  case (Suc m)
  then have "m = length path - 1 - (l + 1)" "l + 1 < length path" by simp_all
  then obtain q s1 where "clone_path c sid s path (l + 1) = Some (q, s1)" "copied_from c s path (l + 1) q s1"
    using Suc.hyps(1) by blast
  then show ?case using Suc.hyps(2) by (intro clone_path_level [OF ok path root]) simp_all
qed

definition path_owned :: "node_cfg \<Rightarrow> 'k store \<Rightarrow> path \<Rightarrow> path \<Rightarrow> 'k store \<Rightarrow> bool" where
  \<comment> \<open>what \<open>update_path\<close> promises\<close>
  "path_owned c s path path' s' \<longleftrightarrow>
     length path' = length path \<and> last path' = last path \<and> path_ok (nodes s') path'
     \<and> store_ok c s' \<and> hist s' = hist s \<and> next_node s \<le> next_node s' \<and> dom (blocks s') = dom (blocks s)
     \<and> (\<forall>x. nodes s x \<noteq> None \<and> x \<noteq> last path \<longrightarrow> nodes s' x = nodes s x)
     \<and> (slots (nodes s) (last path) = 0 \<longrightarrow> refs s' (last path) = refs s (last path))
     \<and> (\<forall>a \<in> set (butlast path'). refs s' a \<le> 1)
     \<and> (path' = path \<and> s' = s \<or> (\<forall>a \<in> set (butlast path'). next_node s \<le> a))
     \<and> (\<forall>j n i. Suc j < length path \<and> nodes s (path ! Suc j) = Some (Branch n) \<and> i < node_size n \<and> node_data n ! i = path ! j
           \<longrightarrow> (\<exists>m. nodes s' (path' ! Suc j) = Some (Branch m) \<and> node_size m = node_size n \<and> node_keys m = node_keys n \<and> node_data m ! i = path' ! j))
     \<and> (\<exists>R. heap_sim R (nodes s) (nodes s') \<and> (\<forall>x. nodes s x \<noteq> None \<longrightarrow> R x x)
           \<and> (\<forall>j < length path. R (path ! j) (path' ! j)))"

lemma update_path:
  assumes ok: "store_ok c s" and path: "path_ok (nodes s) path" and root: "nodes s (last path) \<noteq> None"
  shows "\<exists>q s'. update_path c sid s path = Some (q, s') \<and> path_owned c s path q s'"
proof -
  have ne: "path \<noteq> []" using path by (simp add: path_ok_def)
  have live: "nodes s a \<noteq> None" if "a \<in> set path" for a
    using that path_nodes_live [OF ok path root] by (auto simp: in_set_conv_nth)
  then have blive: "\<not> (\<exists>a \<in> set (butlast path). nodes s a = None)" using in_set_butlastD by fastforce
  show ?thesis
  proof (cases "\<exists>a \<in> set (butlast path). refs s a > 1")
    case True
    obtain q s' where q: "clone_path c sid s path 0 = Some (q, s')" "copied_from c s path 0 q s'"
      using clone_path [OF ok path root, of 0 sid] ne by blast
    note C = q(2) [unfolded copied_from_def]
    have len: "length q = length path" using C by blast
    have but: "a \<in> set (butlast q) \<Longrightarrow> \<exists>j. Suc j < length path \<and> a = q ! j" for a
      by (simp add: in_butlast len)
    have "path_ok (nodes s') q" using C ne len unfolding path_ok_def by auto
    moreover have "\<forall>a \<in> set (butlast q). refs s' a \<le> 1 \<and> next_node s \<le> a"
    proof
      fix a assume "a \<in> set (butlast q)"
      then obtain j where "Suc j < length path" "a = q ! j" using but by blast
      then show "refs s' a \<le> 1 \<and> next_node s \<le> a" using C by simp
    qed
    ultimately have "path_owned c s path q s'" unfolding path_owned_def using C by simp
    then show ?thesis using q(1) True blive by (auto simp: update_path_def)
  next
    case False
    have "\<exists>R. heap_sim R (nodes s) (nodes s) \<and> (\<forall>x. nodes s x \<noteq> None \<longrightarrow> R x x) \<and> (\<forall>j < length path. R (path ! j) (path ! j))"
      by (intro exI [of _ "\<lambda>x y. x = y \<and> nodes s x \<noteq> None"]) (use heap_sim_refl [OF ok] live in auto)
    then have "path_owned c s path path s" unfolding path_owned_def using ok path False by (auto simp: not_less)
    then show ?thesis using False blive by (auto simp: update_path_def)
  qed
qed

end
