(* ===== verification/PTree_Writers.thy ===== *)
theory PTree_Writers
  imports PTree_Spec
begin

text \<open>
  The writers of the copy-on-write tree. A path whose nodes have count one is not reachable from another
  snapshot, and everything \<open>assign\<close> writes after \<open>update_path\<close>, node splits up to a new root included, is on
  that path or new; so no other snapshot changes. In its own snapshot \<open>assign\<close> updates the map of the
  contents at the given key.
\<close>

section \<open>Ownership\<close>

inductive reach :: "'k heap \<Rightarrow> nat \<Rightarrow> nat \<Rightarrow> bool" for H a where
  reach_refl: "reach H a a"
| reach_step: "reach H a b \<Longrightarrow> linked H x b \<Longrightarrow> reach H a x"

inductive_cases reach_cases: "reach H a x"

lemma linked_unique:
  assumes ok: "store_ok c s" and x: "nodes s x \<noteq> None" "refs s x \<le> 1" and "linked (nodes s) x p" and "linked (nodes s) x q"
  shows "p = q"
proof (rule ccontr)
  assume "p \<noteq> q"
  obtain n m where "nodes s p = Some (Branch n)" "x \<in> set (children (Branch n))"
    "nodes s q = Some (Branch m)" "x \<in> set (children (Branch m))"
    using assms(4,5) by (metis linked_Branch)
  then have "2 \<le> slots (nodes s) x" using slots_two_parents [OF store_okD(1) [OF ok]] \<open>p \<noteq> q\<close> by metis
  then show False using store_okD(9) [OF ok] x by fastforce
qed

lemma linked_not_root:
  assumes ok: "store_ok c s" and x: "nodes s x \<noteq> None" "refs s x \<le> 1" and "linked (nodes s) x p" and h: "hist s h = Some hn" "hn_root hn = x"
  shows False
proof -
  obtain n where "nodes s p = Some (Branch n)" "x \<in> set (children (Branch n))" using assms(4) by (rule linked_Branch)
  then have "0 < slots (nodes s) x" by (rule slots_pos [OF store_okD(1) [OF ok]])
  moreover have "0 < root_count (hist s) x" by (rule root_count_pos [OF store_okD(2) [OF ok] h])
  ultimately show False using store_okD(9) [OF ok] x by fastforce
qed

lemma linked_live: "store_ok c s \<Longrightarrow> linked (nodes s) x p \<Longrightarrow> nodes s x \<noteq> None"
  using linked_Branch [of "nodes s" x p] store_okD(5) [of c s p _ x] by metis

lemma reach_live:
  assumes "store_ok c s" and "reach (nodes s) a x" and "nodes s a \<noteq> None"
  shows "nodes s x \<noteq> None"
  using assms(2) by (induction rule: reach.induct) (use assms(1,3) linked_live in blast)+

text \<open>
  A path whose nodes have count one, up to the root of its own snapshot, is not reachable from the
  root of another snapshot.
\<close>

lemma owned_path_unreachable:
  assumes ok: "store_ok c s" and path: "path_ok (nodes s) path" and own: "\<And>a. a \<in> set path \<Longrightarrow> refs s a \<le> 1"
    and h: "hist s h = Some hn" "hn_root hn = last path" and h': "hist s h' = Some hn'" "h' \<noteq> h"
    and live: "nodes s (last path) \<noteq> None"
    and r: "reach (nodes s) (hn_root hn') x"
  shows "x \<notin> set path"
  using r
proof (induction rule: reach.induct)
  case reach_refl
  show ?case
  proof
    assume "hn_root hn' \<in> set path"
    then obtain j where j: "j < length path" "hn_root hn' = path ! j" by (metis in_set_conv_nth)
    have lj: "nodes s (path ! j) \<noteq> None" "refs s (path ! j) \<le> 1"
      using path_nodes_live [OF ok path live j(1)] own j(1) by simp_all
    show False
    proof (cases "Suc j < length path")
      case True
      show False by (rule linked_not_root [OF ok lj path_okD [OF path True] h'(1) j(2)])
    next
      case False
      then have "j = length path - 1" using j by simp
      then have "hn_root hn' = hn_root hn" using j h(2) by (metis last_conv_nth length_0_conv not_less_zero)
      then have "2 \<le> root_count (hist s) (path ! j)"
        using root_count_two [OF store_okD(2) [OF ok] h(1) _ h'(1)] j(2) h'(2) by metis
      then show False using store_okD(9) [OF ok] lj by fastforce
    qed
  qed
next
  case (reach_step b x)
  show ?case
  proof
    assume "x \<in> set path"
    then obtain j where j: "j < length path" "x = path ! j" by (metis in_set_conv_nth)
    have lx: "nodes s x \<noteq> None" "refs s x \<le> 1"
      using path_nodes_live [OF ok path live j(1)] own j by simp_all
    show False
    proof (cases "Suc j < length path")
      case True
      have "b = path ! Suc j" by (rule linked_unique [OF ok lx reach_step.hyps(2)]) (use path_okD [OF path True] j(2) in simp)
      then show False using reach_step.IH True by simp
    next
      case False
      then have "j = length path - 1" using j by simp
      then have "hn_root hn = x" using h(2) j by (metis last_conv_nth length_0_conv not_less_zero)
      then show False using linked_not_root [OF ok lx reach_step.hyps(2) h(1)] by blast
    qed
  qed
qed

lemma tree_frame:
  assumes ok: "store_ok c s" and a: "nodes s a \<noteq> None" and same: "\<And>x. reach (nodes s) a x \<Longrightarrow> H' x = nodes s x"
    and t: "tree_ok c (nodes s) h a lo hi"
  shows "tree_ok c H' h a lo hi" and "tree_entries H' h a = tree_entries (nodes s) h a"
proof -
  let ?R = "\<lambda>x y. x = y \<and> reach (nodes s) a x"
  have "heap_sim ?R (nodes s) H'"
    unfolding heap_sim_def
  proof (intro allI impI)
    fix x y u assume R: "?R x y" and u: "nodes s x = Some u"
    have ch: "reach (nodes s) a z" if "z \<in> set (children u)" for z
      using reach_step [of "nodes s" a x z] R that u by (auto simp: linked_def)
    have "node_match ?R u (set_ids 0 0 u)"
      using ch store_okD(6) [OF ok, of x] u by (intro set_ids_simps) (auto simp: node_ok_def node_shape_def)
    then have "node_match ?R u u" by (cases u) simp_all
    then show "\<exists>t'. H' y = Some t' \<and> node_match ?R u t'" using same [of x] R u by auto
  qed
  then show "tree_ok c H' h a lo hi" "tree_entries H' h a = tree_entries (nodes s) h a"
    using heap_sim_tree_ok [of ?R "nodes s" H' a a c h lo hi] heap_sim_tree_entries [of ?R "nodes s" H' a a c h lo hi] t reach_refl
    by blast+
qed

section \<open>Locating\<close>

lemma heights_unique:
  assumes "tree_ok c H h a lo hi" and "tree_ok c H h' a lo' hi'"
  shows "h = h'"
  using assms
proof (induction h arbitrary: h' a lo hi lo' hi')
  case 0
  then show ?case by (cases h') (auto split: option.splits tnode.splits)
next
  case (Suc h)
  then obtain k where k: "h' = Suc k" by (cases h') (auto split: option.splits tnode.splits)
  from Suc.prems(1) obtain n where n: "H a = Some (Branch n)" "0 < node_size n"
    "tree_ok c H h (node_data n ! 0) (child_lo lo n 0) (child_hi hi n 0)"
    by (rule tree_ok_BranchD) blast
  from Suc.prems(2) k have "tree_ok c H k (node_data n ! 0) (child_lo lo' n 0) (child_hi hi' n 0)"
    using n by simp
  then show ?case using Suc.IH [OF n(3)] k by simp
qed

definition step_child :: "node_cfg \<Rightarrow> 'k :: linorder \<Rightarrow> 'k tnode \<Rightarrow> nat option" where
  "step_child c key t = (case t of Branch n \<Rightarrow> child_for c n key | Leaf _ \<Rightarrow> None)"

definition search_path :: "node_cfg \<Rightarrow> 'k :: linorder heap \<Rightarrow> path \<Rightarrow> 'k \<Rightarrow> bool" where
  \<comment> \<open>every node of the path is the child its parent chooses for the key\<close>
  "search_path c H q key \<longleftrightarrow>
     (\<forall>j. Suc j < length q \<longrightarrow> (\<exists>m. H (q ! Suc j) = Some (Branch m) \<and> find_child c m key = q ! j))"

lemma locate_from:
  \<comment> \<open>the descent from a tree of height \<open>h\<close> prepends \<open>h\<close> nodes to the path; \<open>p ! i\<close> has height \<open>i\<close>\<close>
  assumes "tree_ok c (nodes s) h a lo hi" and "above lo key" and "below key hi" and "length p + h \<le> 8" and "p \<noteq> []" and "p ! 0 = a"
  shows "\<exists>q n. locate_from (step_child c key) s a p = Some (q ! 0, q) \<and> length q = length p + h \<and> drop h q = p
    \<and> (\<forall>j < h. linked (nodes s) (q ! j) (q ! Suc j) \<and> (\<exists>m. nodes s (q ! Suc j) = Some (Branch m) \<and> find_child c m key = q ! j))
    \<and> (\<forall>j \<le> h. \<exists>lo hi. tree_ok c (nodes s) j (q ! j) lo hi \<and> above lo key \<and> below key hi)
    \<and> nodes s (q ! 0) = Some (Leaf n)
    \<and> find_value_in c s a key = find_value_in c s (q ! 0) key"
  using assms
proof (induction h arbitrary: a lo hi p)
  case 0
  from 0(1) obtain n where n: "nodes s a = Some (Leaf n)" "node_type n = LEAF" by (rule tree_ok_LeafD)
  then show ?case using 0 by (intro exI [of _ p] exI [of _ n]) (subst locate_from.simps, auto simp: is_branch_def)
next
  case (Suc h)
  from Suc.prems(1) obtain n where n: "nodes s a = Some (Branch n)" "node_ok c n" "node_type n = BRANCH" "0 < node_size n" "sorted (keys_of n)"
    and sub: "\<And>i. i < node_size n \<Longrightarrow> tree_ok c (nodes s) h (node_data n ! i) (child_lo lo n i) (child_hi hi n i)"
    by (rule tree_ok_BranchD) blast
  obtain i where i: "i < node_size n" "find_child c n key = node_data n ! i"
    and r: "above (child_lo lo n i) key" "below key (child_hi hi n i)"
    by (rule find_child_range [OF n(2,5,4) Suc.prems(2,3)])
  let ?a = "node_data n ! i" and ?p = "node_data n ! i # p"
  have "\<exists>q n. locate_from (step_child c key) s ?a ?p = Some (q ! 0, q) \<and> length q = length ?p + h \<and> drop h q = ?p
      \<and> (\<forall>j < h. linked (nodes s) (q ! j) (q ! Suc j) \<and> (\<exists>m. nodes s (q ! Suc j) = Some (Branch m) \<and> find_child c m key = q ! j))
    \<and> (\<forall>j \<le> h. \<exists>lo hi. tree_ok c (nodes s) j (q ! j) lo hi \<and> above lo key \<and> below key hi)
      \<and> nodes s (q ! 0) = Some (Leaf n)
      \<and> find_value_in c s ?a key = find_value_in c s (q ! 0) key"
    by (rule Suc.IH [OF sub [OF i(1)] r]) (use Suc.prems(4) in simp_all)
  then obtain q m where q: "locate_from (step_child c key) s ?a ?p = Some (q ! 0, q)" "length q = length ?p + h" "drop h q = ?p"
      "\<forall>j < h. linked (nodes s) (q ! j) (q ! Suc j) \<and> (\<exists>m. nodes s (q ! Suc j) = Some (Branch m) \<and> find_child c m key = q ! j)" "\<forall>j \<le> h. \<exists>lo hi. tree_ok c (nodes s) j (q ! j) lo hi \<and> above lo key \<and> below key hi"
      "nodes s (q ! 0) = Some (Leaf m)" "find_value_in c s ?a key = find_value_in c s (q ! 0) key" by blast
  have qh: "q ! h = ?a" "q ! Suc h = a"
    using q(2,3) Suc.prems(5,6) hd_drop_conv_nth [of h q] nth_drop [of h q 1] by (simp_all add: hd_drop_conv_nth)
  have ch: "?a \<in> set (children (Branch n))" using children_nth [OF n(2)] i(1) by (metis nth_mem)
  then have lk: "linked (nodes s) (q ! h) (q ! Suc h)" using qh n(1) by (simp add: linked_def)
  have fc: "nodes s (q ! Suc h) = Some (Branch n) \<and> find_child c n key = q ! h" using qh n(1) i(2) by simp
  have "locate_from (step_child c key) s a p = locate_from (step_child c key) s ?a ?p"
    using n i Suc.prems(4)
    by (subst locate_from.simps) (simp add: is_branch_def step_child_def child_for_def path_insert_def)
  moreover have "find_value_in c s a key = find_value_in c s ?a key"
    using n i by (subst find_value_in.simps) (simp add: is_branch_def get_branch_def child_for_def)
  moreover have "drop (Suc h) q = p" using q(3) by (metis drop_Suc list.sel(3) tl_drop)
  ultimately show ?case using q lk fc qh Suc.prems(1-3)
    by (intro exI [of _ q] exI [of _ m]) (auto simp: less_Suc_eq le_Suc_eq simp del: tree_ok.simps)
qed

lemma locate:
  assumes t: "tree_ok c (nodes s) d r None None" and d: "d < 8"
  shows "\<exists>path n. locate c s r key = Some (path, find_key c n key) \<and> length path = Suc d \<and> last path = r \<and> path_ok (nodes s) path
    \<and> search_path c (nodes s) path key
    \<and> get_leaf s (path ! 0) = Some n \<and> nodes s (path ! 0) = Some (Leaf n)
    \<and> (\<forall>j \<le> d. \<exists>lo hi. tree_ok c (nodes s) j (path ! j) lo hi \<and> above lo key \<and> below key hi)
    \<and> find_value_in c s r key = find_value_in c s (path ! 0) key"
proof -
  have "\<exists>q n. locate_from (step_child c key) s r [r] = Some (q ! 0, q) \<and> length q = length [r] + d \<and> drop d q = [r]
    \<and> (\<forall>j < d. linked (nodes s) (q ! j) (q ! Suc j) \<and> (\<exists>m. nodes s (q ! Suc j) = Some (Branch m) \<and> find_child c m key = q ! j)) \<and> (\<forall>j \<le> d. \<exists>lo hi. tree_ok c (nodes s) j (q ! j) lo hi \<and> above lo key \<and> below key hi)
    \<and> nodes s (q ! 0) = Some (Leaf n)
    \<and> find_value_in c s r key = find_value_in c s (q ! 0) key"
    by (rule locate_from [OF t]) (use d in \<open>simp_all add: above_def below_def\<close>)
  then obtain q n where q: "locate_from (step_child c key) s r [r] = Some (q ! 0, q)" "length q = Suc d" "drop d q = [r]"
    "\<forall>j < d. linked (nodes s) (q ! j) (q ! Suc j) \<and> (\<exists>m. nodes s (q ! Suc j) = Some (Branch m) \<and> find_child c m key = q ! j)" "\<forall>j \<le> d. \<exists>lo hi. tree_ok c (nodes s) j (q ! j) lo hi \<and> above lo key \<and> below key hi"
    "nodes s (q ! 0) = Some (Leaf n)" "find_value_in c s r key = find_value_in c s (q ! 0) key" by auto
  have "distinct q"
  proof (unfold distinct_conv_nth, intro allI impI)
    fix i j assume ij: "i < length q" "j < length q" "i \<noteq> j"
    then obtain lo hi lo' hi' where "tree_ok c (nodes s) i (q ! i) lo hi" "tree_ok c (nodes s) j (q ! j) lo' hi'" using q(2,5) by (metis less_Suc_eq_le)
    then show "q ! i \<noteq> q ! j" using heights_unique ij(3) by metis
  qed
  moreover have "last q = r" using q(3) by (metis drop_eq_Nil2 last_ConsL last_drop list.distinct(1) not_le_imp_less)
  moreover have "locate c s r key = Some (q, find_key c n key)"
    using q(1,6) by (simp add: locate_def path_insert_def step_child_def [abs_def] get_leaf_def)
  ultimately show ?thesis using q by (intro exI [of _ q] exI [of _ n]) (auto simp: path_ok_def search_path_def get_leaf_def)
qed

section \<open>What the writers touch\<close>

definition frame :: "nat \<Rightarrow> nat \<Rightarrow> nat set \<Rightarrow> 'k store \<Rightarrow> 'k store \<Rightarrow> bool" where
  \<comment> \<open>of the nodes below address \<open>N\<close> only those in \<open>W\<close> are written, of the history nodes only \<open>h\<close>\<close>
  "frame h N W s s' \<longleftrightarrow>
     (\<forall>x < N. x \<notin> W \<longrightarrow> nodes s' x = nodes s x) \<and> (\<forall>k. k \<noteq> h \<longrightarrow> hist s' k = hist s k)
     \<and> next_node s \<le> next_node s'"

definition inside :: "nat \<Rightarrow> nat set \<Rightarrow> path \<Rightarrow> bool" where
  "inside N W p = (\<forall>a \<in> set p. a \<in> W \<or> N \<le> a)"

definition writable :: "nat \<Rightarrow> nat \<Rightarrow> nat set \<Rightarrow> 'k store \<Rightarrow> bool" where
  \<comment> \<open>new nodes are above \<open>N\<close> and the root of \<open>h\<close> may be written\<close>
  "writable h N W s = (N \<le> next_node s \<and> (\<forall>r. get_root s h = Some r \<longrightarrow> r \<in> W \<or> N \<le> r))"

named_theorems frame_intros \<open>the writes of the tree operations\<close>

lemma frame_refl [frame_intros]: "frame h N W s s"
  by (simp add: frame_def)

lemma frame_trans: "frame h N W s s' \<Longrightarrow> frame h N W s' s'' \<Longrightarrow> frame h N W s s''"
  by (auto simp: frame_def)

lemma inside_nth: "inside N W p \<Longrightarrow> i < length p \<Longrightarrow> p ! i \<in> W \<or> N \<le> p ! i"
  by (simp add: inside_def)

lemma inside_upd: "inside N W p \<Longrightarrow> a \<in> W \<or> N \<le> a \<Longrightarrow> inside N W (p[i := a])"
  using set_update_subset_insert [of p i a] by (auto simp: inside_def)

lemma inside_insert: "inside N W p \<Longrightarrow> a \<in> W \<or> N \<le> a \<Longrightarrow> path_insert p i a = Some q \<Longrightarrow> inside N W q"
  using set_take_subset [of i p] set_drop_subset [of i p] by (fastforce simp: inside_def path_insert_def split: if_splits)

lemma put_frame:
  "a \<in> W \<or> N \<le> a \<Longrightarrow> frame h N W s (put_branch s a n)"
  "a \<in> W \<or> N \<le> a \<Longrightarrow> frame h N W s (put_leaf s a m)"
  "a \<in> W \<or> N \<le> a \<Longrightarrow> frame h N W s (s\<lparr>nodes := (nodes s)(a \<mapsto> t)\<rparr>)"
  by (auto simp: frame_def put_branch_def put_leaf_def)

lemma put_writable [simp]:
  "writable h N W (put_branch s a n) = writable h N W s"
  "writable h N W (put_leaf s a m) = writable h N W s"
  "writable h N W (s\<lparr>nodes := H\<rparr>) = writable h N W s"
  by (simp_all add: writable_def put_branch_def put_leaf_def get_root_def)

lemma ref_frame: "ref s a = Some s' \<Longrightarrow> frame h N W s s' \<and> writable h N W s' = writable h N W s"
  by (auto simp: ref_def frame_def writable_def get_root_def split: if_splits)

lemma unref_frame: "unref s a = Some (r, s') \<Longrightarrow> frame h N W s s' \<and> writable h N W s' = writable h N W s"
  by (auto simp: unref_def Let_def frame_def writable_def get_root_def split: if_splits)

lemma create_node_frame:
  assumes "create_node c s level sid = (a, s')" and "writable h N W s"
  shows "frame h N W s s' \<and> writable h N W s' \<and> N \<le> a"
  using assms
  by (auto simp: create_node_def create_leaf_node_def create_branch_node_def new_node_id_def new_node_def Let_def frame_def
      writable_def get_root_def split: if_splits)

lemma update_keys_up_frame:
  "update_keys_up c s path ip level = Some s' \<Longrightarrow> inside N W path \<Longrightarrow> frame h N W s s' \<and> writable h N W s' = writable h N W s"
proof (induction c s path ip level rule: update_keys_up.induct [case_names step])
  case (step c s path ip level)
  note run = step.prems(1) [unfolded update_keys_up.simps [of c s path ip level]]
  show ?case
  proof (cases "level < length path - 1")
    case True
    then obtain t where t: "nodes s (path ! level) = Some t" using run by (cases "nodes s (path ! level)") auto
    show ?thesis
    proof (cases "ip \<ge> int (t_size t) - 1")
      case big: True
      from run True t big obtain parent where p: "get_branch s (path ! (level + 1)) = Some parent"
        by (cases "get_branch s (path ! (level + 1))") auto
      let ?i = "find_child_node parent (path ! level)"
      let ?p = "reindex c (parent\<lparr>node_keys := (node_keys parent)[nat ?i := t_max_key t]\<rparr>)"
      let ?s = "put_branch s (path ! (level + 1)) ?p"
      have i: "\<not> ?i < 0" and rest: "update_keys_up c ?s path ?i (level + 1) = Some s'"
        using run True t big p by (auto simp: Let_def split: if_splits)
      have "frame h N W ?s s' \<and> writable h N W s' = writable h N W ?s"
        by (rule step.IH [OF True t big p refl i refl refl rest step.prems(2)])
      moreover have "frame h N W s ?s"
        by (rule put_frame(1) [OF inside_nth [OF step.prems(2)]]) (use True in simp)
      ultimately show ?thesis using frame_trans put_writable(1) by blast
    next
      case False
      then show ?thesis using run True t by (auto intro: frame_refl)
    qed
  next
    case False
    then show ?thesis using run by (auto intro: frame_refl)
  qed
qed

lemma split_node_frame:
  assumes "split_node c s node i to = Some s'" and "node \<in> W \<or> N \<le> node" and "to \<in> W \<or> N \<le> to"
  shows "frame h N W s s' \<and> writable h N W s' = writable h N W s"
  using assms
  by (auto simp: split_node_def split: option.splits if_splits prod.splits bind_splits
      intro!: frame_trans [OF put_frame(1) put_frame(1)] frame_trans [OF put_frame(2) put_frame(2)])

lemma insert_child_node_frame:
  assumes "insert_child_node c s node idx child = Some s'" and "node \<in> W \<or> N \<le> node"
  shows "frame h N W s s' \<and> writable h N W s' = writable h N W s"
proof -
  from assms(1) obtain n t where "ref (put_branch s node (node_insert c n idx (t_max_key t) child)) child = Some s'"
    by (auto simp: insert_child_node_def split: bind_splits)
  then show ?thesis using ref_frame [of _ child s' h N W] put_frame(1) [OF assms(2), of h s] put_writable(1) [of h N W s node] frame_trans by blast
qed

lemma set_root_frame:
  assumes "set_root s h r = Some s'" and "writable h N W s" and "r \<in> W \<or> N \<le> r"
  shows "frame h N W s s' \<and> writable h N W s'"
  using assms
  by (auto simp: set_root_def unref_def ref_def Let_def frame_def writable_def get_root_def split: bind_splits if_splits)

definition writes :: "nat \<Rightarrow> nat \<Rightarrow> nat set \<Rightarrow> 'k store \<Rightarrow> 'k store \<Rightarrow> bool" where
  "writes h N W s s' = (writable h N W s \<longrightarrow> frame h N W s s' \<and> writable h N W s')"

lemma writes_trans: "writes h N W s s' \<Longrightarrow> writes h N W s' s'' \<Longrightarrow> writes h N W s s''"
  unfolding writes_def by (blast intro: frame_trans)

lemma writes_step:
  "inside N W path \<Longrightarrow> update_keys_up c s path ip level = Some s' \<Longrightarrow> writes h N W s s'"
  "node \<in> W \<or> N \<le> node \<Longrightarrow> to \<in> W \<or> N \<le> to \<Longrightarrow> split_node c s node i to = Some s' \<Longrightarrow> writes h N W s s'"
  "node \<in> W \<or> N \<le> node \<Longrightarrow> insert_child_node c s node i child = Some s' \<Longrightarrow> writes h N W s s'"
  "node \<in> W \<or> N \<le> node \<Longrightarrow> writes h N W s (put_branch s node n)"
  "node \<in> W \<or> N \<le> node \<Longrightarrow> writes h N W s (put_leaf s node m)"
  "r \<in> W \<or> N \<le> r \<Longrightarrow> set_root s h r = Some s' \<Longrightarrow> writes h N W s s'"
  unfolding writes_def
  using update_keys_up_frame [of c s path ip level s' N W h] split_node_frame [of c s node i to s' W N h]
    insert_child_node_frame [of c s node i child s' W N h] put_frame [of node W N h s] set_root_frame [of s h r s' N W] put_writable
  by blast+

lemma writes_create:
  assumes "create_node c s level sid = (a, s')"
  shows "writes h N W s s'" and "writable h N W s \<Longrightarrow> N \<le> a"
  unfolding writes_def using create_node_frame [OF assms, of h N W] by blast+

lemma writes_create_branch:
  assumes "create_branch_node c s sid = (a, s')"
  shows "writes h N W s s'" and "writable h N W s \<Longrightarrow> N \<le> a"
  using writes_create [of c s 1 sid a s' h N W] assms by (simp_all add: create_node_def)

lemma split_path_writes:
  assumes "split_path c h sid s path nxt level = Some (path', nxt', s')"
    and "inside N W path" and "inside N W nxt" and "writable h N W s"
  shows "writes h N W s s' \<and> inside N W path' \<and> inside N W nxt' \<and> length path \<le> length path' \<and> length nxt \<le> length nxt'
    \<and> level < length nxt"
  using assms
proof (induction "length path - level" arbitrary: s path nxt level path' nxt' s' rule: less_induct)
  case less
  let ?node = "path ! level" and ?pa = "path ! Suc level"
  note run = less.prems(1) [unfolded split_path.simps [of c h sid s path nxt level]]
  note inp = less.prems(2) and inn = less.prems(3)
  have lev: "level < length path" "level < length nxt" using run by (auto split: if_splits)
  obtain right s1 where cr: "create_node c s level sid = (right, s1)" by (cases "create_node c s level sid")
  obtain t where t: "nodes s ?node = Some t" using run lev by (cases "nodes s ?node") (simp_all add: Let_def)
  obtain s2 where sp: "split_node c s1 ?node (t_size t div 2) right = Some s2"
    using run lev t cr by (cases "split_node c s1 ?node (t_size t div 2) right") (simp_all add: Let_def)
  have node_in: "?node \<in> W \<or> N \<le> ?node" by (rule inside_nth [OF inp lev(1)])
  have right_in: "right \<in> W \<or> N \<le> right" using writes_create(2) [OF cr less.prems(4)] by simp
  have W2: "writes h N W s s2" by (rule writes_trans [OF writes_create(1) [OF cr] writes_step(2) [OF node_in right_in sp]])
  show ?case
  proof (cases "level < length path - 1")
    case True
    then have pa_in: "?pa \<in> W \<or> N \<le> ?pa" using inside_nth [OF inp, of "Suc level"] by simp
    from run lev t cr sp True obtain p t' where p: "get_branch s2 ?pa = Some p" and i0: "\<not> find_child_node p ?node < 0"
      and t': "nodes s2 ?node = Some t'"
      by (auto simp: Let_def Option.bind_eq_Some_conv split: if_splits)
    define i where "i = nat (find_child_node p ?node)"
    define s3 where "s3 = put_branch s2 ?pa (reindex c (p\<lparr>node_keys := (node_keys p)[i := t_max_key t']\<rparr>))"
    from run lev t cr sp True p i0 t' obtain s4 p4 where s4: "update_keys_up c s3 path (int i) (level + 1) = Some s4"
      and p4: "get_branch s4 ?pa = Some p4"
      by (auto simp: Let_def Option.bind_eq_Some_conv i_def s3_def split: if_splits)
    have W4: "writes h N W s s4"
      using W2 writes_step(4) [OF pa_in] writes_step(1) [OF inp s4] unfolding s3_def by (metis writes_trans)
    show ?thesis
    proof (cases "has_space c p4")
      case space: True
      from run lev t cr sp True p i0 t' s4 p4 space obtain s5 where
        s5: "insert_child_node c s4 ?pa (i + 1) right = Some s5"
        and s6: "update_keys_up c s5 path (int i + 1) (level + 1) = Some s'"
        and res: "path' = path" "nxt' = nxt[level := right]"
        by (auto simp: Let_def Option.bind_eq_Some_conv i_def s3_def split: if_splits)
      have "writes h N W s s'"
        using W4 writes_step(3) [OF pa_in s5] writes_step(1) [OF inp s6] by (metis writes_trans)
      then show ?thesis using res inp inside_upd [OF inn right_in] lev by simp
    next
      case full: False
      from run lev t cr sp True p i0 t' s4 p4 full obtain path2 nxt2 s5 p5 where
        rec: "split_path c h sid s4 path nxt (level + 1) = Some (path2, nxt2, s5)" and p5: "get_branch s5 ?pa = Some p5"
        by (auto simp: Let_def Option.bind_eq_Some_conv i_def s3_def split: if_splits prod.splits)
      have "writable h N W s4" using W4 less.prems(4) by (simp add: writes_def)
      from less.hyps [OF _ rec inp inn this] lev
      have R: "writes h N W s4 s5" "inside N W path2" "inside N W nxt2" "length path \<le> length path2" "length nxt \<le> length nxt2"
        "level + 1 < length nxt" by auto
      have nx_in: "nxt2 ! Suc level \<in> W \<or> N \<le> nxt2 ! Suc level" using inside_nth [OF R(3), of "Suc level"] R(5,6) by simp
      have pa2_in: "path2 ! Suc level \<in> W \<or> N \<le> path2 ! Suc level" using inside_nth [OF R(2), of "Suc level"] R(4) True by simp
      have W5: "writes h N W s s5" by (rule writes_trans [OF W4 R(1)])
      show ?thesis
      proof (cases "i \<ge> node_size p5")
        case right_half: True
        from run lev t cr sp True p i0 t' s4 p4 full rec p5 right_half obtain s6 where
          s6: "insert_child_node c s5 (nxt2 ! Suc level) (i - node_size p5 + 1) right = Some s6"
          and s7: "update_keys_up c s6 nxt2 (int (i - node_size p5) + 1) (level + 1) = Some s'"
          and res: "path' = path2[Suc level := nxt2 ! Suc level]" "nxt' = nxt2[level := right]"
          by (auto simp: Let_def Option.bind_eq_Some_conv i_def s3_def split: if_splits prod.splits)
        have "writes h N W s s'"
          using W5 writes_step(3) [OF nx_in s6] writes_step(1) [OF R(3) s7] by (metis writes_trans)
        then show ?thesis using res inside_upd [OF R(2) nx_in] inside_upd [OF R(3) right_in] R lev by simp
      next
        case left_half: False
        from run lev t cr sp True p i0 t' s4 p4 full rec p5 left_half obtain s6 where
          s6: "insert_child_node c s5 ?pa (i + 1) right = Some s6"
          and s7: "update_keys_up c s6 path2 (int i + 1) (level + 1) = Some s'"
          and res: "path' = path2" "nxt' = nxt2[Suc level := path2 ! Suc level, level := right]"
          by (auto simp: Let_def Option.bind_eq_Some_conv i_def s3_def split: if_splits prod.splits)
        have "writes h N W s s'"
          using W5 writes_step(3) [OF pa_in s6] writes_step(1) [OF R(2) s7] by (metis writes_trans)
        then show ?thesis using res R inside_upd [OF inside_upd [OF R(3) pa2_in] right_in] lev by simp
      qed
    qed
  next
    case False
    from run lev t cr sp False obtain new_root s3 nr r rt s4 s5 q where
      nr: "create_branch_node c s2 sid = (new_root, s3)" and "get_branch s3 new_root = Some nr" "get_root s3 h = Some r" "nodes s3 r = Some rt"
      and s4: "insert_child_node c (put_branch s3 new_root (nr\<lparr>metadata_size := t_metadata rt\<rparr>)) new_root 0 ?node = Some s4"
      and s5: "insert_child_node c s4 new_root 1 right = Some s5"
      and ins: "path_insert path (length path) new_root = Some path'" "path_insert nxt (length nxt) new_root = Some q"
      and s6: "set_root s5 h new_root = Some s'" and res: "nxt' = q[level := right]"
      by (auto simp: Let_def Option.bind_eq_Some_conv split: prod.splits)
    have "writable h N W s2" using W2 less.prems(4) by (simp add: writes_def)
    then have nr_in: "new_root \<in> W \<or> N \<le> new_root" using writes_create_branch(2) [OF nr] by simp
    have "writes h N W s s'"
      using W2 writes_create_branch(1) [OF nr] writes_step(4) [OF nr_in] writes_step(3) [OF nr_in s4] writes_step(3) [OF nr_in s5]
        writes_step(6) [OF nr_in s6] by (metis writes_trans)
    moreover have "inside N W path'" "inside N W q" using inside_insert [OF inp nr_in ins(1)] inside_insert [OF inn nr_in ins(2)] by simp_all
    moreover have "length path \<le> length path'" "length nxt \<le> length q" using ins by (auto simp: path_insert_def split: if_splits)
    ultimately show ?thesis using res inside_upd [OF _ right_in] lev by simp
  qed
qed

lemma writes_refl: "writes h N W s s"
  by (simp add: writes_def frame_refl)

lemma add_size_writes:
  assumes "add_size s h d = Some s'"
  shows "writes h N W s s'"
proof -
  from assms obtain r t where r: "get_root s h = Some r"
    and s': "s' = s\<lparr>nodes := (nodes s)(r \<mapsto> t_set_metadata (t_metadata t + d) t)\<rparr>"
    by (auto simp: add_size_def Option.bind_eq_Some_conv)
  show ?thesis unfolding writes_def
  proof
    assume w: "writable h N W s"
    then have "r \<in> W \<or> N \<le> r" using r by (simp add: writable_def)
    then show "frame h N W s s' \<and> writable h N W s'" using put_frame(3) w by (simp add: s')
  qed
qed

lemma insert_to_writes:
  assumes run: "insert_to c h sid s path idx key val = Some s'"
    and up: "update_path c sid s path = Some (q, s1)" and q: "inside N W q" "q \<noteq> []" and w: "writable h N W s1"
  shows "writes h N W s1 s'"
proof -
  have q0: "q ! 0 \<in> W \<or> N \<le> q ! 0" using inside_nth [OF q(1), of 0] q(2) by simp
  obtain n where n: "get_leaf s1 (q ! 0) = Some n"
    using run up by (cases "get_leaf s1 (q ! 0)") (simp_all add: insert_to_def)
  show ?thesis
  proof (cases "has_space c n")
    case True
    then have "add_size (put_leaf s1 (q ! 0) (node_insert c n idx key val)) h 1 = Some s'"
      using run up n by (simp add: insert_to_def)
    then show ?thesis using writes_step(5) [OF q0] add_size_writes writes_trans by blast
  next
    case False
    from run up n False obtain p nx s2 where sp: "split_path c h sid s1 q q 0 = Some (p, nx, s2)"
      by (cases "split_path c h sid s1 q q 0") (auto simp: insert_to_def)
    have S: "writes h N W s1 s2" "inside N W p" "inside N W nx" "length q \<le> length p" "length q \<le> length nx"
      using split_path_writes [OF sp q(1) q(1) w] by simp_all
    from run up n False sp obtain m where m: "get_leaf s2 (p ! 0) = Some m"
      by (cases "get_leaf s2 (p ! 0)") (auto simp: insert_to_def)
    define pp where "pp = (if idx \<ge> node_size m then nx else p)"
    define ii where "ii = (if idx \<ge> node_size m then idx - node_size m else idx)"
    from run up n False sp m obtain m' s3 where
      s3: "update_keys_up c (put_leaf s2 (pp ! 0) (node_insert c m' ii key val)) pp (int ii) 0 = Some s3" and s': "add_size s3 h 1 = Some s'"
      by (auto simp: insert_to_def Let_def Option.bind_eq_Some_conv pp_def ii_def split: if_splits)
    have pp1: "inside N W pp" "length q \<le> length pp" using S by (simp_all add: pp_def)
    then have "0 < length pp" using q(2) by (cases pp) auto
    then have pp: "inside N W pp" "pp ! 0 \<in> W \<or> N \<le> pp ! 0" using pp1(1) inside_nth by blast+
    show ?thesis
      using S(1) writes_step(5) [OF pp(2)] writes_step(1) [OF pp(1) s3] add_size_writes [OF s'] by (metis writes_trans)
  qed
qed

section \<open>Snapshots\<close>

definition root_of :: "'k store \<Rightarrow> nat \<Rightarrow> nat" where
  "root_of s h = hn_root (the (hist s h))"

definition snapshot_tree :: "node_cfg \<Rightarrow> 'k :: linorder store \<Rightarrow> nat \<Rightarrow> nat \<Rightarrow> bool" where
  \<comment> \<open>the history node \<open>h\<close> has a search tree of height \<open>d\<close>, which a path of eight nodes can reach\<close>
  "snapshot_tree c s h d = (hist s h \<noteq> None \<and> d < 8 \<and> tree_ok c (nodes s) d (root_of s h) None None)"

definition contents :: "'k store \<Rightarrow> nat \<Rightarrow> nat \<Rightarrow> 'k \<Rightarrow> pvalue option" where
  "contents s h d = map_of (tree_entries (nodes s) d (root_of s h))"

lemma ptree_find_contents:
  fixes s :: "'k :: {linorder, zero} store"
  assumes "snapshot_tree c s h d"
  shows "ptree_find c s h key = Some (contents s h d key)"
proof -
  have "get_root s h = Some (root_of s h)" using assms by (auto simp: snapshot_tree_def get_root_def root_of_def)
  then show ?thesis using assms find_value_in_entries [of c s d "root_of s h" None None key]
    by (simp add: ptree_find_def contents_def snapshot_tree_def above_def below_def)
qed

lemma tree_ok_live: "tree_ok c H d a lo hi \<Longrightarrow> H a \<noteq> None"
  by (cases d) (auto split: option.splits)

lemma own_root:
  \<comment> \<open>the root that only its history node refers to is no child of a branch\<close>
  assumes ok: "store_ok c s" and t: "snapshot_tree c s h d" and own: "refs s (root_of s h) \<le> 1"
  shows "slots (nodes s) (root_of s h) = 0"
proof -
  obtain hn where "hist s h = Some hn" "hn_root hn = root_of s h" using t by (auto simp: snapshot_tree_def root_of_def)
  then have "0 < root_count (hist s) (root_of s h)" by (rule root_count_pos [OF store_okD(2) [OF ok]])
  moreover have "nodes s (root_of s h) \<noteq> None" using t tree_ok_live by (auto simp: snapshot_tree_def)
  ultimately show ?thesis using store_okD(9) [OF ok] own by fastforce
qed

text \<open>
  The state after \<open>update_path\<close>: every snapshot has the contents it had, and the nodes of the path
  cannot be reached from another snapshot.
\<close>

lemma update_path_snapshots:
  assumes ok: "store_ok c s" and t: "snapshot_tree c s h d" and own: "refs s (root_of s h) \<le> 1"
    and path: "path_ok (nodes s) path" "last path = root_of s h" and po: "path_owned c s path q s1"
  shows "\<And>a. a \<in> set q \<Longrightarrow> refs s1 a \<le> 1"
    and "\<And>k e. snapshot_tree c s k e \<Longrightarrow> snapshot_tree c s1 k e \<and> tree_entries (nodes s1) e (root_of s1 k) = tree_entries (nodes s) e (root_of s k)"
    and "\<And>k e x. snapshot_tree c s k e \<Longrightarrow> k \<noteq> h \<Longrightarrow> reach (nodes s1) (root_of s1 k) x \<Longrightarrow> x \<notin> set q \<and> x < next_node s1"
proof -
  note P = po [unfolded path_owned_def]
  have ok1: "store_ok c s1" and path1: "path_ok (nodes s1) q" and hist: "hist s1 = hist s" and lst: "last q = last path" using P by blast+
  have q: "q \<noteq> []" using path1 by (simp add: path_ok_def)
  show refs1: "refs s1 a \<le> 1" if "a \<in> set q" for a
  proof (cases "a \<in> set (butlast q)")
    case False
    then have "a = last q" using that q by (metis append_butlast_last_id in_set_butlast_appendI Un_iff set_append set_ConsD empty_iff list.set(1))
    then show ?thesis using P own_root [OF ok t own] own path(2) by auto
  qed (use P in blast)
  obtain R where R: "heap_sim R (nodes s) (nodes s1)" "\<And>x. nodes s x \<noteq> None \<Longrightarrow> R x x" using P by blast
  show snaps: "snapshot_tree c s1 k e \<and> tree_entries (nodes s1) e (root_of s1 k) = tree_entries (nodes s) e (root_of s k)"
    if k: "snapshot_tree c s k e" for k e
  proof -
    have tk: "tree_ok c (nodes s) e (root_of s k) None None" using k by (simp add: snapshot_tree_def)
    have "R (root_of s k) (root_of s k)" using R(2) tree_ok_live [OF tk] by blast
    from heap_sim_tree_ok [OF R(1) this tk] heap_sim_tree_entries [OF R(1) this tk] k
    show ?thesis by (simp add: snapshot_tree_def root_of_def hist)
  qed
  fix k e x assume k: "snapshot_tree c s k e" "k \<noteq> h" and r: "reach (nodes s1) (root_of s1 k) x"
  have live: "nodes s1 (root_of s1 k) \<noteq> None" using snaps [OF k(1)] tree_ok_live by (auto simp: snapshot_tree_def)
  have rlive: "nodes s1 (last q) \<noteq> None" using snaps [OF t] tree_ok_live lst path(2) by (auto simp: snapshot_tree_def root_of_def hist)
  obtain hn kn where hn: "hist s1 h = Some hn" "hn_root hn = last q" and kn: "hist s1 k = Some kn" "hn_root kn = root_of s1 k"
    using t k lst path(2) by (auto simp: snapshot_tree_def root_of_def hist)
  have "x \<notin> set q" by (rule owned_path_unreachable [OF ok1 path1 refs1 hn kn(1) k(2) rlive]) (use r kn(2) in simp_all)
  moreover have "x < next_node s1" using reach_live [OF ok1 r live] store_okD(4) [OF ok1] by blast
  ultimately show "x \<notin> set q \<and> x < next_node s1" by blast
qed

lemma writes_keep_snapshots:
  \<comment> \<open>writers that stay on an owned path change no other snapshot\<close>
  assumes ok: "store_ok c s" and t: "snapshot_tree c s h d" and own: "refs s (root_of s h) \<le> 1"
    and path: "path_ok (nodes s) path" "last path = root_of s h" and po: "path_owned c s path q s1"
    and w: "writes h (next_node s1) (set q) s1 s'" and k: "snapshot_tree c s k e" "k \<noteq> h"
  shows "snapshot_tree c s' k e" and "contents s' k e = contents s k e"
proof -
  note U = update_path_snapshots [OF ok t own path po]
  note P = po [unfolded path_owned_def]
  have q: "q \<noteq> []" "last q = root_of s1 h" using P path(2) by (auto simp: path_ok_def root_of_def)
  then have "writable h (next_node s1) (set q) s1"
    using last_in_set [OF q(1)] by (auto simp: writable_def get_root_def root_of_def)
  then have f: "frame h (next_node s1) (set q) s1 s'" using w by (simp add: writes_def)
  have k1: "snapshot_tree c s1 k e" "tree_entries (nodes s1) e (root_of s1 k) = tree_entries (nodes s) e (root_of s k)"
    using U(2) [OF k(1)] by simp_all
  have same: "nodes s' x = nodes s1 x" if "reach (nodes s1) (root_of s1 k) x" for x
    using f U(3) [OF k that] by (simp add: frame_def)
  have tk: "tree_ok c (nodes s1) e (root_of s1 k) None None" using k1(1) by (simp add: snapshot_tree_def)
  have "store_ok c s1" using P by blast
  note F = tree_frame [OF this tree_ok_live [OF tk] same tk, simplified]
  have "hist s' k = hist s1 k" using f k(2) by (simp add: frame_def)
  then have "root_of s' k = root_of s1 k" by (simp add: root_of_def)
  then show "snapshot_tree c s' k e" "contents s' k e = contents s k e"
    using F k1 \<open>hist s' k = hist s1 k\<close> by (simp_all add: snapshot_tree_def contents_def)
qed

lemma assign_isolated_aux:
  fixes s :: "'k :: {linorder, zero} store"
  assumes ok: "store_ok c s" and t: "snapshot_tree c s h d" and own: "refs s (root_of s h) \<le> 1"
    and k: "snapshot_tree c s k e" "k \<noteq> h" and run: "assign c h sid s key val = Some (old, s')"
  shows "snapshot_tree c s' k e \<and> contents s' k e = contents s k e"
proof -
  let ?r = "root_of s h"
  have root: "get_root s h = Some ?r" using t by (auto simp: snapshot_tree_def get_root_def root_of_def)
  have tr: "tree_ok c (nodes s) d ?r None None" "d < 8" using t by (simp_all add: snapshot_tree_def)
  obtain path n where loc: "locate c s ?r key = Some (path, find_key c n key)" "last path = ?r" "path_ok (nodes s) path"
    "get_leaf s (path ! 0) = Some n" using locate [OF tr, of key] by blast
  have "nodes s (last path) \<noteq> None" using tree_ok_live [OF tr(1)] loc(2) by simp
  from update_path [OF ok loc(3) this] obtain q s1 where up: "update_path c sid s path = Some (q, s1)" "path_owned c s path q s1"
    by blast
  have q: "q \<noteq> []" "inside (next_node s1) (set q) q"
    using up(2) by (auto simp: path_owned_def path_ok_def inside_def)
  have w: "writable h (next_node s1) (set q) s1"
  proof -
    have "get_root s1 h = Some (last q)" using up(2) loc(2) root by (simp add: path_owned_def get_root_def)
    then show ?thesis using last_in_set [OF q(1)] by (simp add: writable_def)
  qed
  have "writes h (next_node s1) (set q) s1 s'"
  proof (cases "find_key c n key < node_size n \<and> node_keys n ! find_key c n key = key")
    case True
    then obtain m where "s' = put_leaf s1 (q ! 0) m"
      using run root loc up(1) by (auto simp: assign_def Let_def Option.bind_eq_Some_conv)
    then show ?thesis using writes_step(5) [of "q ! 0" "set q"] q(1) by simp
  next
    case False
    then have "insert_to c h sid s path (find_key c n key) key val = Some s'"
      using run root loc by (auto simp: assign_def Option.bind_eq_Some_conv)
    then show ?thesis by (rule insert_to_writes [OF _ up(1) q(2,1) w])
  qed
  from writes_keep_snapshots [OF ok t own loc(3,2) up(2) this k] show ?thesis by blast
qed

section \<open>Updating a leaf\<close>

lemma reach_height:
  assumes "reach H a x" and "tree_ok c H h a lo hi"
  shows "\<exists>h' \<le> h. \<exists>lo hi. tree_ok c H h' x lo hi"
  using assms
proof (induction rule: reach.induct)
  case reach_refl
  then show ?case by blast
next
  case (reach_step b x)
  then obtain h' lo' hi' where b: "h' \<le> h" "tree_ok c H h' b lo' hi'" by blast
  from \<open>linked H x b\<close> obtain n where n: "H b = Some (Branch n)" "x \<in> set (children (Branch n))" by (rule linked_Branch)
  then obtain g where g: "h' = Suc g" using b(2) by (cases h') (auto split: option.splits)
  from b(2) [unfolded g] obtain m where m: "H b = Some (Branch m)" "node_ok c m"
    and sub: "\<And>i. i < node_size m \<Longrightarrow> tree_ok c H g (node_data m ! i) (child_lo lo' m i) (child_hi hi' m i)"
    by (rule tree_ok_BranchD) blast
  obtain i where "i < node_size m" "node_data m ! i = x"
    using n m children_nth [OF m(2)] by (metis in_set_conv_nth option.inject tnode.inject(1))
  then show ?case using sub b(1) g by (metis Suc_leD)
qed

text \<open>Beside the child on an owned path, no child of its node leads back to the path.\<close>

lemma other_child_avoids:
  assumes ok: "store_ok c s" and q: "path_ok (nodes s) q" and own: "\<And>a. a \<in> set (butlast q) \<Longrightarrow> refs s a \<le> 1"
    and j: "Suc j < length q" and m: "nodes s (q ! Suc j) = Some (Branch m)" and i: "i < node_size m" "node_data m ! i = q ! j"
    and k: "k < node_size m" "k \<noteq> i" and tk: "tree_ok c (nodes s) j (node_data m ! k) lo hi"
    and tj: "tree_ok c (nodes s) (Suc j) (q ! Suc j) lo' hi'"
    and r: "reach (nodes s) (node_data m ! k) x" and l: "l \<le> j"
  shows "x \<noteq> q ! l"
  using r l
proof (induction arbitrary: l rule: reach.induct)
  case reach_refl
  have mok: "node_ok c m" "distinct (children (Branch m))" using store_okD(6) [OF ok m] by simp_all
  show ?case
  proof
    assume eq: "node_data m ! k = q ! l"
    have lk: "linked (nodes s) (q ! l) (q ! Suc l)" using path_okD [OF q, of l] reach_refl j by simp
    have "node_data m ! k \<in> set (children (Branch m))" using children_nth [OF mok(1)] k(1) by (metis nth_mem)
    then have lk': "linked (nodes s) (q ! l) (q ! Suc j)" using m eq by (simp add: linked_def)
    have "q ! l \<in> set (butlast q)" unfolding in_butlast by (rule exI [of _ l]) (use reach_refl j in simp)
    then have "refs s (q ! l) \<le> 1" by (rule own)
    from linked_unique [OF ok linked_live [OF ok lk] this lk lk'] have "Suc l = Suc j"
      using q j reach_refl by (simp add: path_ok_def nth_eq_iff_index_eq)
    then have "node_data m ! k = node_data m ! i" using eq i by simp
    then show False
      using mok k i children_nth [OF mok(1)] nth_eq_iff_index_eq [OF mok(2), of k i] by simp
  qed
next
  case (reach_step b x)
  show ?case
  proof
    assume eq: "x = q ! l"
    have lk: "linked (nodes s) x (q ! Suc l)" using path_okD [OF q, of l] reach_step.prems j eq by simp
    have "x \<in> set (butlast q)" unfolding in_butlast by (rule exI [of _ l]) (use reach_step.prems j eq in simp)
    then have "refs s x \<le> 1" by (rule own)
    from linked_unique [OF ok linked_live [OF ok lk] this reach_step.hyps(2) lk] have b: "b = q ! Suc l" .
    show False
    proof (cases "Suc l \<le> j")
      case True
      then show False using reach_step.IH b by blast
    next
      case False
      then have "b = q ! Suc j" using b reach_step.prems by (simp add: le_antisym not_less_eq_eq)
      then obtain h' lo'' hi'' where "h' \<le> j" "tree_ok c (nodes s) h' (q ! Suc j) lo'' hi''"
        using reach_height [OF reach_step.hyps(1) tk] by blast
      then show False using heights_unique [OF tj, of h'] by fastforce
    qed
  qed
qed

definition leaf_step :: "node_cfg \<Rightarrow> ('k :: linorder, pvalue) node \<Rightarrow> ('k, pvalue) node \<Rightarrow> 'k \<Rightarrow> pvalue \<Rightarrow> bool" where
  \<comment> \<open>the new leaf is the old one updated at one key\<close>
  "leaf_step c n n' key val \<longleftrightarrow>
     node_ok c n' \<and> node_type n' = LEAF \<and> sorted_wrt (<) (keys_of n') \<and> set (keys_of n') \<subseteq> insert key (set (keys_of n))
     \<and> map_of (entries n') = (map_of (entries n))(key \<mapsto> val)"

lemma map_of_concat_upd:
  assumes "i < length xs" and "map_of e = (map_of (xs ! i))(k \<mapsto> v)"
    and "\<And>j. j < length xs \<Longrightarrow> j \<noteq> i \<Longrightarrow> map_of (xs ! j) k = None"
  shows "map_of (concat (xs[i := e])) = (map_of (concat xs))(k \<mapsto> v)"
  using assms
proof (induction xs arbitrary: i)
  case (Cons x xs)
  show ?case
  proof (cases i)
    case 0
    then show ?thesis using Cons.prems(2) by (auto simp: map_of_append map_add_def fun_eq_iff split: option.splits)
  next
    case (Suc j)
    have "map_of (concat (xs[j := e])) = (map_of (concat xs))(k \<mapsto> v)"
    proof (rule Cons.IH)
      show "j < length xs" using Cons.prems(1) Suc by simp
      show "map_of e = (map_of (xs ! j))(k \<mapsto> v)" using Cons.prems(2) unfolding Suc nth_Cons_Suc .
      show "map_of (xs ! m) k = None" if "m < length xs" "m \<noteq> j" for m
        using Cons.prems(3) [of "Suc m"] that Suc by simp
    qed
    moreover have "map_of x k = None" using Cons.prems(3) [of 0] Suc by simp
    ultimately show ?thesis using Suc by (auto simp: map_of_append map_add_def fun_eq_iff split: option.splits)
  qed
qed simp

lemma tree_leaf_update:
  assumes ok: "store_ok c s" and q: "path_ok (nodes s) q" and own: "\<And>a. a \<in> set (butlast q) \<Longrightarrow> refs s a \<le> 1"
    and sp: "search_path c (nodes s) q key" and n: "nodes s (q ! 0) = Some (Leaf n)" and st: "leaf_step c n n' key val"
    and "j < length q" and "tree_ok c (nodes s) j (q ! j) lo hi" and "above lo key" and "below key hi"
  defines "H' \<equiv> (nodes s)(q ! 0 \<mapsto> Leaf n')"
  shows "tree_ok c H' j (q ! j) lo hi \<and> map_of (tree_entries H' j (q ! j)) = (map_of (tree_entries (nodes s) j (q ! j)))(key \<mapsto> val)"
  using assms(7-10)
proof (induction j arbitrary: lo hi)
  case 0
  then show ?case using n st unfolding leaf_step_def by (auto simp: H'_def)
next
  case (Suc j)
  from Suc.prems(2) obtain m where m: "nodes s (q ! Suc j) = Some (Branch m)" "node_ok c m" "node_type m = BRANCH" "0 < node_size m" "sorted (keys_of m)"
    and sep: "\<And>i. i < node_size m - 1 \<Longrightarrow> above lo (node_keys m ! i) \<and> below (node_keys m ! i) hi"
    and sub: "\<And>i. i < node_size m \<Longrightarrow> tree_ok c (nodes s) j (node_data m ! i) (child_lo lo m i) (child_hi hi m i)"
    by (rule tree_ok_BranchD) blast
  obtain i where i: "i < node_size m" "find_child c m key = node_data m ! i"
    and r: "above (child_lo lo m i) key" "below key (child_hi hi m i)"
    by (rule find_child_range [OF m(2,5,4) Suc.prems(3,4)])
  have qi: "node_data m ! i = q ! j" using sp Suc.prems(1) m(1) i(2) by (auto simp: search_path_def)
  have ch: "tree_ok c H' j (node_data m ! i) (child_lo lo m i) (child_hi hi m i)"
    "map_of (tree_entries H' j (node_data m ! i)) = (map_of (tree_entries (nodes s) j (node_data m ! i)))(key \<mapsto> val)"
    using Suc.IH [OF Suc_lessD [OF Suc.prems(1)] sub [OF i(1), unfolded qi] r] unfolding qi by blast+
  have other: "tree_ok c H' j (node_data m ! k) (child_lo lo m k) (child_hi hi m k)
      \<and> tree_entries H' j (node_data m ! k) = tree_entries (nodes s) j (node_data m ! k)" if k: "k < node_size m" "k \<noteq> i" for k
  proof -
    have "H' x = nodes s x" if "reach (nodes s) (node_data m ! k) x" for x
      using other_child_avoids [OF ok q own Suc.prems(1) m(1) i(1) qi k sub [OF k(1)] Suc.prems(2) that, of 0]
      by (simp add: H'_def)
    from tree_frame [OF ok tree_ok_live [OF sub [OF k(1)]] this sub [OF k(1)]] show ?thesis by blast
  qed
  have ne: "q ! Suc j \<noteq> q ! 0" using n m(1) by auto
  then have hm: "H' (q ! Suc j) = Some (Branch m)" using m(1) by (simp add: H'_def)
  have all: "tree_ok c H' j (node_data m ! k) (child_lo lo m k) (child_hi hi m k)" if "k < node_size m" for k
    using ch(1) other that by (cases "k = i") auto
  have tree: "tree_ok c H' (Suc j) (q ! Suc j) lo hi" using hm m sep all by simp
  have miss: "map_of (tree_entries (nodes s) j (node_data m ! k)) key = None" if k: "k < node_size m" "k \<noteq> i" for k
    using tree_keys_range [OF sub [OF k(1)]] other_child_misses [OF m(5) i(1) k r m(2)]
    by (auto simp: map_of_eq_None_iff)
  let ?xs = "map (tree_entries (nodes s) j) (children (Branch m))"
  have ci: "length (children (Branch m)) = node_size m" "\<And>k. k < node_size m \<Longrightarrow> children (Branch m) ! k = node_data m ! k"
    using children_nth [OF m(2)] by simp_all
  have "map (tree_entries H' j) (children (Branch m)) = ?xs[i := tree_entries H' j (node_data m ! i)]"
  proof (rule nth_equalityI)
    fix k assume "k < length (map (tree_entries H' j) (children (Branch m)))"
    then have "k < node_size m" using ci(1) by (simp only: length_map)
    then show "map (tree_entries H' j) (children (Branch m)) ! k = ?xs[i := tree_entries H' j (node_data m ! i)] ! k"
      using other [of k] ci by (cases "k = i") (simp_all del: children.simps)
  qed simp
  moreover have "map_of (concat (?xs[i := tree_entries H' j (node_data m ! i)])) = (map_of (concat ?xs))(key \<mapsto> val)"
    by (rule map_of_concat_upd) (use ch(2) miss i(1) ci in \<open>auto simp del: children.simps\<close>)
  ultimately have "map_of (tree_entries H' (Suc j) (q ! Suc j)) = (map_of (tree_entries (nodes s) (Suc j) (q ! Suc j)))(key \<mapsto> val)"
    using hm m(1) by (simp del: children.simps)
  then show ?case using tree by blast
qed

lemma put_node_ok:
  \<comment> \<open>replacing a node by one with the same children keeps the invariant of the store\<close>
  assumes ok: "store_ok c s" and t: "nodes s a = Some t" and ch: "children t' = children t"
    and br: "\<And>n. t' = Branch n \<Longrightarrow> node_ok c n \<and> node_type n = BRANCH \<and> distinct (children (Branch n))"
    and lf: "\<And>n. t' = Leaf n \<Longrightarrow> node_ok c n \<and> node_type n = LEAF"
    and b: "\<And>n i. t' = Leaf n \<Longrightarrow> i < node_size n \<Longrightarrow> blocks s (block_ptr (node_data n ! i)) \<noteq> None"
  shows "store_ok c (s\<lparr>nodes := (nodes s)(a \<mapsto> t')\<rparr>)"
proof -
  let ?s = "s\<lparr>nodes := (nodes s)(a \<mapsto> t')\<rparr>"
  note D = store_okD [OF ok]
  have slots: "slots (nodes ?s) x = slots (nodes s) x" for x
    using slots_upd [OF D(1), of a t' x] t ch by (simp add: oslots_def)
  show ?thesis
  proof (rule store_okI)
    show "finite (dom (nodes ?s))" "finite (dom (hist ?s))" "0 < next_node ?s" using D(1-3) by simp_all
    show "0 < x \<and> x < next_node ?s" if "nodes ?s x = Some u" for x u
      using that D(4) [of x] t by (auto split: if_splits)
    show "nodes ?s y \<noteq> None" if "nodes ?s x = Some u" "y \<in> set (children u)" for x u y
      using that D(5) [of x u y] D(5) [OF t, of y] ch by (auto split: if_splits)
    show "hn_root hn = 0 \<or> nodes ?s (hn_root hn) \<noteq> None" if "hist ?s h = Some hn" for h hn
      using D(10) [of h hn] that by auto
    show "node_ok c m \<and> node_type m = BRANCH \<and> distinct (children (Branch m))" if "nodes ?s x = Some (Branch m)" for x m
      using that D(6) [of x m] br by (auto split: if_splits)
    show "node_ok c m \<and> node_type m = LEAF" if "nodes ?s x = Some (Leaf m)" for x m
      using that D(7) [of x m] lf by (auto split: if_splits)
    show "blocks ?s (block_ptr (node_data m ! i)) \<noteq> None" if "nodes ?s x = Some (Leaf m)" "i < node_size m" for x m i
      using that D(8) [of x m i] b [of m i] by (auto split: if_splits)
    show "int (slots (nodes ?s) x + root_count (hist ?s) x) \<le> refs ?s x" if "nodes ?s x = Some u" for x u
    proof -
      have "nodes s x \<noteq> None" using that t by (auto split: if_splits)
      then show ?thesis using D(9) [of x] slots by auto
    qed
  qed
qed

lemma put_leaf_ok:
  assumes "store_ok c s" and "nodes s a = Some (Leaf n)" and "node_ok c n'" "node_type n' = LEAF"
    and "\<And>i. i < node_size n' \<Longrightarrow> blocks s (block_ptr (node_data n' ! i)) \<noteq> None"
  shows "store_ok c (put_leaf s a n')"
  unfolding put_leaf_def by (rule put_node_ok [OF assms(1,2)]) (use assms in auto)

lemma add_size_keeps:
  assumes ok: "store_ok c s" and r: "get_root s h = Some r" "nodes s r \<noteq> None"
  shows "\<exists>s'. add_size s h d = Some s' \<and> store_ok c s' \<and> hist s' = hist s \<and> refs s' = refs s \<and> blocks s' = blocks s
    \<and> (\<forall>e a lo hi. tree_ok c (nodes s) e a lo hi \<longrightarrow> tree_ok c (nodes s') e a lo hi \<and> tree_entries (nodes s') e a = tree_entries (nodes s) e a)"
proof -
  obtain t where t: "nodes s r = Some t" using r(2) by blast
  let ?t = "t_set_metadata (t_metadata t + d) t"
  let ?s = "s\<lparr>nodes := (nodes s)(r \<mapsto> ?t)\<rparr>"
  have ids [simp]: "node_ok c (n\<lparr>metadata_size := m\<rparr>) = node_ok c n" for n :: "('a, 'x) node" and m
    by (simp add: node_ok_def node_shape_def index_ok_def last_idx_def)
  have run: "add_size s h d = Some ?s" using r(1) t by (simp add: add_size_def)
  have "store_ok c ?s"
    by (rule put_node_ok [OF ok t]; cases t)
      (use store_okD(6) [OF ok, of r] store_okD(7) [OF ok, of r] store_okD(8) [OF ok, of r] t in auto)
  moreover have "heap_sim (\<lambda>x y. x = y \<and> nodes s x \<noteq> None) (nodes s) (nodes ?s)"
    unfolding heap_sim_def
  proof (intro allI impI)
    fix a a' u assume a: "a = a' \<and> nodes s a \<noteq> None" and u: "nodes s a = Some u"
    let ?R = "\<lambda>x y. x = y \<and> nodes s x \<noteq> None"
    obtain t' where "nodes s a = Some t'" "node_match ?R u t'" using heap_sim_refl [OF ok] a u unfolding heap_sim_def by blast
    then have m: "node_match ?R u u" using u by simp
    then have "node_match ?R u (t_set_metadata k u)" for k by (cases u) simp_all
    then show "\<exists>t'. nodes ?s a' = Some t' \<and> node_match ?R u t'" using a u t m by (cases "a' = r") auto
  qed
  then have "tree_ok c (nodes ?s) e a lo hi \<and> tree_entries (nodes ?s) e a = tree_entries (nodes s) e a"
    if "tree_ok c (nodes s) e a lo hi" for e a lo hi
    using heap_sim_tree_ok [of _ "nodes s" "nodes ?s" a a c e lo hi] heap_sim_tree_entries [of _ "nodes s" "nodes ?s" a a c e lo hi]
      that tree_ok_live [OF that] by blast
  ultimately show ?thesis using run by (intro exI [of _ ?s]) simp
qed

lemma leaf_step_replace:
  assumes n: "node_ok c n" "node_type n = LEAF" "sorted_wrt (<) (keys_of n)" and i: "i < node_size n" "node_keys n ! i = key"
  shows "leaf_step c n (n\<lparr>node_data := (node_data n)[i := val]\<rparr>) key val"
proof -
  let ?n = "n\<lparr>node_data := (node_data n)[i := val]\<rparr>"
  have ok: "node_ok c ?n" using n(1) by (simp add: node_ok_def node_shape_def index_ok_def last_idx_def)
  have keys: "keys_of ?n = keys_of n" by (simp add: keys_of_def)
  have len: "length (entries n) = node_size n" by (rule length_entries [OF n(1)])
  have es: "entries ?n = (entries n)[i := (key, val)]"
  proof (rule nth_equalityI)
    show "length (entries ?n) = length ((entries n)[i := (key, val)])" using length_entries [OF ok] len by simp
    fix k assume "k < length (entries ?n)"
    then have k: "k < node_size n" using length_entries [OF ok] by simp
    have "i < length (node_data n)" using n(1) i(1) by (auto simp: node_ok_def node_shape_def)
    then show "entries ?n ! k = (entries n)[i := (key, val)] ! k"
      using entries_nth [OF ok, of k] entries_nth [OF n(1) k] k i len by (cases "k = i") (simp_all add: nth_list_update)
  qed
  have dist: "distinct (map fst (entries n))" using n(3) entries_keys [OF n(1)] by (simp add: strict_sorted_iff)
  have ki: "entries n ! i = (key, node_data n ! i)" using entries_nth [OF n(1) i(1)] i(2) by simp
  have "map_of ((entries n)[i := (key, val)]) x = ((map_of (entries n))(key \<mapsto> val)) x" for x
  proof -
    have "map fst ((entries n)[i := (key, val)]) = map fst (entries n)"
      using ki len i(1) by (metis fst_conv list_update_id map_update)
    then have d': "distinct (map fst ((entries n)[i := (key, val)]))" using dist by simp
    have "(key, val) \<in> set ((entries n)[i := (key, val)])" using len i(1) by (simp add: set_update_memI)
    then have key: "map_of ((entries n)[i := (key, val)]) key = Some val" using d' by (simp add: map_of_is_SomeI)
    have "map_of ((entries n)[i := (key, val)]) x = map_of (entries n) x" if "x \<noteq> key"
    proof -
      have "(x, v) \<in> set ((entries n)[i := (key, val)]) \<longleftrightarrow> (x, v) \<in> set (entries n)" for v
      proof
        assume "(x, v) \<in> set ((entries n)[i := (key, val)])"
        then obtain j where "j < length (entries n)" "(entries n)[i := (key, val)] ! j = (x, v)" by (auto simp: in_set_conv_nth)
        then show "(x, v) \<in> set (entries n)" using that by (cases "j = i") (auto intro: nth_mem simp: nth_list_update in_set_conv_nth)
      next
        assume "(x, v) \<in> set (entries n)"
        then obtain j where j: "j < length (entries n)" "entries n ! j = (x, v)" by (auto simp: in_set_conv_nth)
        then have "(entries n)[i := (key, val)] ! j = (x, v)" using that ki by (cases "j = i") simp_all
        then show "(x, v) \<in> set ((entries n)[i := (key, val)])" using j(1) nth_mem [of j "(entries n)[i := (key, val)]"] by simp
      qed
      then show ?thesis using d' dist by (metis map_of_eq_Some_iff option.exhaust)
    qed
    then show ?thesis using key by simp
  qed
  then show ?thesis unfolding leaf_step_def es using ok n keys by auto
qed

section \<open>Assigning\<close>

lemma search_path_owned:
  \<comment> \<open>the copied path is the search path of the key in the new heap\<close>
  assumes po: "path_owned c s path q s1" and ok: "store_ok c s" and sp: "search_path c (nodes s) path key"
    and heights: "\<And>j. j < length path \<Longrightarrow> \<exists>lo hi. tree_ok c (nodes s) j (path ! j) lo hi"
  shows "search_path c (nodes s1) q key"
  unfolding search_path_def
proof (intro allI impI)
  note P = po [unfolded path_owned_def]
  fix j assume j: "Suc j < length q"
  then have j': "Suc j < length path" using P by simp
  obtain n where n: "nodes s (path ! Suc j) = Some (Branch n)" "find_child c n key = path ! j"
    using sp j' by (auto simp: search_path_def)
  obtain lo hi where "tree_ok c (nodes s) (Suc j) (path ! Suc j) lo hi" using heights [OF j'] by blast
  then have nok: "node_ok c n" "sorted (keys_of n)" "0 < node_size n" using n(1) by auto
  obtain i where i: "i < node_size n" "find_child c n key = node_data n ! i"
    "i = (if scan (keys_of n) key = node_size n then node_size n - 1 else scan (keys_of n) key)"
    by (rule find_child_range [OF nok, of None key None]) (auto simp: above_def below_def)
  then obtain m where m: "nodes s1 (q ! Suc j) = Some (Branch m)" "node_size m = node_size n" "node_keys m = node_keys n" "node_data m ! i = q ! j"
    using P j' n by (metis (no_types, lifting))
  have mok: "node_ok c m" using store_okD(6) [of c s1] P m(1) by blast
  have keys: "keys_of m = keys_of n" using m by (simp add: keys_of_def)
  have "find_child c m key = node_data m ! i"
    using find_key_scan [OF mok, of key] nok(2) keys m(2) i(3) by (simp add: find_child_def Let_def)
  then show "\<exists>m. nodes s1 (q ! Suc j) = Some (Branch m) \<and> find_child c m key = q ! j" using m by auto
qed

lemma leaf_step_insert:
  fixes n :: "('k :: {linorder, zero}, pvalue) node"
  assumes n: "node_ok c n" "node_type n = LEAF" "sorted_wrt (<) (keys_of n)" and room: "has_space c n" and new: "key \<notin> set (keys_of n)"
  shows "leaf_step c n (node_insert c n (find_key c n key) key val) key val"
proof -
  let ?n = "node_insert c n (find_key c n key) key val"
  have st: "sorted_wrt (<) (map fst (entries n))" using n(3) entries_keys [OF n(1)] by simp
  have new': "key \<notin> fst ` set (entries n)" using new entries_keys [OF n(1)] by (metis list.set_map)
  note I = nd.insert_new [OF n(1) room st new', of val]
  have es: "entries ?n = take (find_key c n key) (entries n) @ (key, val) # drop (find_key c n key) (entries n)"
    by (rule nd.ins_ents [OF n(1) room nd.search_split(1) [OF n(1) st]])
  have "set (map fst (entries ?n)) \<subseteq> insert key (set (map fst (entries n)))"
    unfolding es by (auto dest: in_set_takeD in_set_dropD)
  moreover have "node_type ?n = LEAF" using n(2) by (simp add: node_insert_def insert_key_def Let_def)
  ultimately show ?thesis using I entries_keys [OF n(1)] entries_keys [OF I(1)] by (simp add: leaf_step_def)
qed

lemma leaf_data_after_insert:
  assumes n: "node_ok c n" and room: "has_space c n" and i: "i \<le> node_size n" and k: "k < node_size (node_insert c n i key val)"
  shows "node_data (node_insert c n i key val) ! k \<in> insert val ((\<lambda>j. node_data n ! j) ` {..< node_size n})"
proof -
  let ?n = "node_insert c n i key val"
  have ok: "node_ok c ?n" and es: "entries ?n = take i (entries n) @ (key, val) # drop i (entries n)"
    using node_insert [OF n i room] by blast+
  have "snd (entries ?n ! k) \<in> snd ` set (entries ?n)" using k length_entries [OF ok] by simp
  also have "\<dots> \<subseteq> insert val (snd ` set (entries n))" unfolding es by (auto dest: in_set_takeD in_set_dropD)
  also have "snd ` set (entries n) = (\<lambda>j. node_data n ! j) ` {..< node_size n}"
    using entries_nth [OF n] length_entries [OF n] by (force simp: in_set_conv_nth image_iff)
  finally show ?thesis using entries_nth [OF ok k] by simp
qed

text \<open>After \<open>update_path\<close>, replacing the leaf of the path updates the contents of the snapshot at the key.\<close>

lemma put_leaf_updates:
  fixes s :: "'k :: {linorder, zero} store"
  assumes ok: "store_ok c s" and t: "snapshot_tree c s h d" and own: "refs s (root_of s h) \<le> 1"
    and loc: "path_ok (nodes s) path" "last path = root_of s h" "length path = Suc d" "search_path c (nodes s) path key"
    and heights: "\<forall>j \<le> d. \<exists>lo hi. tree_ok c (nodes s) j (path ! j) lo hi \<and> above lo key \<and> below key hi"
    and po: "path_owned c s path q s1" and n: "nodes s1 (q ! 0) = Some (Leaf n)" and st: "leaf_step c n n' key val"
    and b: "\<And>i. i < node_size n' \<Longrightarrow> blocks s1 (block_ptr (node_data n' ! i)) \<noteq> None"
  defines "s2 \<equiv> put_leaf s1 (q ! 0) n'"
  shows "store_ok c s2" and "snapshot_tree c s2 h d" and "refs s2 (root_of s2 h) \<le> 1" and "contents s2 h d = (contents s h d)(key \<mapsto> val)"
proof -
  note P = po [unfolded path_owned_def]
  note U = update_path_snapshots [OF ok t own loc(1,2) po]
  have ok1: "store_ok c s1" and q: "path_ok (nodes s1) q" and len: "length q = Suc d" and hist: "hist s1 = hist s" using P loc(3) by auto
  have "last q = root_of s h" using P loc(2) by simp
  moreover have "last q = q ! d" using len last_conv_nth [of q] by (cases q) auto
  ultimately have root: "root_of s1 h = q ! d" "root_of s2 h = q ! d"
    using hist by (simp_all add: root_of_def s2_def put_leaf_def)
  show "store_ok c s2" unfolding s2_def by (rule put_leaf_ok [OF ok1 n]) (use st b in \<open>auto simp: leaf_step_def\<close>)
  show "refs s2 (root_of s2 h) \<le> 1" using U(1) [of "q ! d"] len root(2) by (simp add: s2_def put_leaf_def)
  have "\<exists>lo hi. tree_ok c (nodes s) j (path ! j) lo hi" if "j < length path" for j using heights loc(3) that less_Suc_eq_le by metis
  then have sp: "search_path c (nodes s1) q key" by (rule search_path_owned [OF po ok loc(4)])
  have t1: "tree_ok c (nodes s1) d (q ! d) None None" and e1: "tree_entries (nodes s1) d (q ! d) = tree_entries (nodes s) d (root_of s h)"
    using U(2) [OF t] root(1) by (auto simp: snapshot_tree_def)
  have "tree_ok c ((nodes s1)(q ! 0 \<mapsto> Leaf n')) d (q ! d) None None
      \<and> map_of (tree_entries ((nodes s1)(q ! 0 \<mapsto> Leaf n')) d (q ! d)) = (map_of (tree_entries (nodes s1) d (q ! d)))(key \<mapsto> val)"
    by (rule tree_leaf_update [OF ok1 q _ sp n st _ t1]) (use P len in \<open>auto simp: above_def below_def\<close>)
  then show "snapshot_tree c s2 h d" "contents s2 h d = (contents s h d)(key \<mapsto> val)"
    using t e1 root(2) hist by (auto simp: snapshot_tree_def contents_def s2_def put_leaf_def)
qed

definition room_for :: "node_cfg \<Rightarrow> 'k :: linorder store \<Rightarrow> nat \<Rightarrow> 'k \<Rightarrow> bool" where
  \<comment> \<open>the leaf where the key belongs has it already or has space for it\<close>
  "room_for c s h key =
     (case locate c s (root_of s h) key of
        Some (path, idx) \<Rightarrow>
          (case get_leaf s (path ! 0) of
             Some n \<Rightarrow> has_space c n \<or> idx < node_size n \<and> node_keys n ! idx = key
           | None \<Rightarrow> False)
      | None \<Rightarrow> False)"

lemma assign_aux:
  fixes s :: "'k :: {linorder, zero} store"
  assumes ok: "store_ok c s" and t: "snapshot_tree c s h d" and own: "refs s (root_of s h) \<le> 1"
    and val: "blocks s (block_ptr val) \<noteq> None" and room: "room_for c s h key"
  shows "\<exists>old s'. assign c h sid s key val = Some (old, s') \<and> store_ok c s' \<and> snapshot_tree c s' h d \<and> refs s' (root_of s' h) \<le> 1
    \<and> contents s' h d = (contents s h d)(key \<mapsto> val) \<and> old = (case contents s h d key of Some v \<Rightarrow> v | None \<Rightarrow> 0)"
proof -
  let ?r = "root_of s h"
  have root: "get_root s h = Some ?r" using t by (auto simp: snapshot_tree_def get_root_def root_of_def)
  have tr: "tree_ok c (nodes s) d ?r None None" "d < 8" using t by (simp_all add: snapshot_tree_def)
  obtain path n0 where loc: "locate c s ?r key = Some (path, find_key c n0 key)" "length path = Suc d" "last path = ?r" "path_ok (nodes s) path"
    "search_path c (nodes s) path key" "get_leaf s (path ! 0) = Some n0" "nodes s (path ! 0) = Some (Leaf n0)"
    "\<forall>j \<le> d. \<exists>lo hi. tree_ok c (nodes s) j (path ! j) lo hi \<and> above lo key \<and> below key hi"
    "find_value_in c s ?r key = find_value_in c s (path ! 0) key"
    using locate [OF tr, of key] by blast
  have "nodes s (last path) \<noteq> None" using tree_ok_live [OF tr(1)] loc(3) by simp
  from update_path [OF ok loc(4) this] obtain q s1 where up: "update_path c sid s path = Some (q, s1)" "path_owned c s path q s1"
    by blast
  note P = up(2) [unfolded path_owned_def]
  have ok1: "store_ok c s1" using P by blast
  obtain R where "heap_sim R (nodes s) (nodes s1)" "R (path ! 0) (q ! 0)" using P loc(2) by (metis zero_less_Suc)
  then obtain n where n: "nodes s1 (q ! 0) = Some (Leaf n)" and match: "node_match R (Leaf n0) (Leaf n)"
    using heap_sim_LeafD loc(7) by metis
  obtain lo hi where "tree_ok c (nodes s) 0 (path ! 0) lo hi" using loc(8) by blast
  then have n0: "node_ok c n0" "sorted_wrt (<) (keys_of n0)" using loc(7) by auto
  have nok: "node_ok c n" "node_type n = LEAF" using store_okD(7) [OF ok1 n] by auto
  have keys: "keys_of n = keys_of n0" using match by (simp add: keys_of_def)
  have fk: "find_key c n key = find_key c n0 key"
    using find_key_scan [OF nok(1)] find_key_scan [OF n0(1)] n0(2) keys by (simp add: strict_sorted_imp_sorted)
  have leaf: "find_value_in c s (path ! 0) key =
      Some (if find_key c n0 key < node_size n0 \<and> node_keys n0 ! find_key c n0 key = key then Some (node_data n0 ! find_key c n0 key) else None)"
    using loc(7) store_okD(7) [OF ok loc(7)] by (subst find_value_in.simps) (simp add: get_leaf_def is_branch_def Let_def)
  have con: "contents s h d key =
      (if find_key c n0 key < node_size n0 \<and> node_keys n0 ! find_key c n0 key = key then Some (node_data n0 ! find_key c n0 key) else None)"
    using ptree_find_contents [OF t, of key] root loc(9) leaf by (simp add: ptree_find_def)
  have blk: "blocks s1 x \<noteq> None" if "blocks s x \<noteq> None" for x using P that by (auto simp: domIff set_eq_iff)
  note upd = put_leaf_updates [OF ok t own loc(4,3,2,5,8) up(2) n]
  have gl: "get_leaf s1 (q ! 0) = Some n" using n by (simp add: get_leaf_def)
  have sz: "node_size n = node_size n0" "node_keys n = node_keys n0" "node_data n = node_data n0" using match by simp_all
  show ?thesis
  proof (cases "find_key c n0 key < node_size n0 \<and> node_keys n0 ! find_key c n0 key = key")
    case True
    let ?i = "find_key c n0 key" and ?n = "n\<lparr>node_data := (node_data n)[find_key c n0 key := val]\<rparr>"
    have st: "leaf_step c n ?n key val" by (rule leaf_step_replace [OF nok]) (use True sz n0(2) keys in simp_all)
    have "blocks s1 (block_ptr (node_data ?n ! i)) \<noteq> None" if "i < node_size ?n" for i
      using store_okD(8) [OF ok1 n, of i] blk [OF val] that True sz nok(1)
      by (cases "i = ?i") (auto simp: node_ok_def node_shape_def)
    note U = upd [OF st this]
    have "assign c h sid s key val = Some (node_data n ! ?i, put_leaf s1 (q ! 0) ?n)"
      using root loc(1,6) True up(1) gl by (simp add: assign_def Let_def)
    then show ?thesis using U con True sz by simp
  next
    case False
    have new: "key \<notin> set (keys_of n)"
    proof
      assume "key \<in> set (keys_of n)"
      then have "key \<in> fst ` set (entries n0)" using entries_keys [OF n0(1)] keys by (metis list.set_map)
      then have "map_of (entries n0) key \<noteq> None" by (simp add: map_of_eq_None_iff)
      moreover have "sorted_wrt (<) (map fst (entries n0))" using n0(2) entries_keys [OF n0(1)] by simp
      ultimately show False using nd.lookup [OF n0(1), of key] False length_entries [OF n0(1)] entries_nth [OF n0(1)] by (auto simp: Let_def split: if_splits)
    qed
    have space: "has_space c n" using room loc(1,6) False sz by (auto simp: room_for_def has_space_def)
    let ?i = "find_key c n key" and ?n = "node_insert c n (find_key c n key) key val"
    have st: "leaf_step c n ?n key val" by (rule leaf_step_insert [OF nok _ space new]) (use n0(2) keys in simp)
    have i: "?i \<le> node_size n"
      using find_key_scan [OF nok(1), of key] n0(2) keys scan_le [of "keys_of n" key] length_keys_of [OF nok(1)]
      by (simp add: strict_sorted_imp_sorted)
    have "blocks s1 (block_ptr (node_data ?n ! k)) \<noteq> None" if "k < node_size ?n" for k
      using leaf_data_after_insert [OF nok(1) space i that] store_okD(8) [OF ok1 n] blk [OF val] by auto
    note U = upd [OF st this]
    let ?s2 = "put_leaf s1 (q ! 0) ?n"
    have r2: "get_root ?s2 h = Some (root_of ?s2 h)" using root P by (simp add: get_root_def root_of_def put_leaf_def)
    have "nodes ?s2 (root_of ?s2 h) \<noteq> None" using U(2) tree_ok_live by (auto simp: snapshot_tree_def)
    from add_size_keeps [OF U(1) r2 this, of 1] obtain s3 where s3: "add_size ?s2 h 1 = Some s3" "store_ok c s3" "hist s3 = hist ?s2" "refs s3 = refs ?s2"
      "tree_ok c (nodes s3) d (root_of ?s2 h) None None" "tree_entries (nodes s3) d (root_of ?s2 h) = tree_entries (nodes ?s2) d (root_of ?s2 h)"
      using U(2) by (auto simp: snapshot_tree_def)
    have "root_of s3 h = root_of ?s2 h" using s3(3) by (simp add: root_of_def)
    moreover have "assign c h sid s key val = Some (0, s3)"
      using root loc(1,6) False up(1) gl space s3(1) fk by (auto simp: assign_def insert_to_def)
    ultimately show ?thesis using U s3 con False by (simp add: snapshot_tree_def contents_def)
  qed
qed

section \<open>Properties of the tree\<close>

text \<open>
  A small store for the examples: two leaves shared by the snapshots 1 and 2, each of which has its own root.
\<close>

definition demo_leaf :: "nat \<Rightarrow> (nat, pvalue) node" where
  "demo_leaf k = node_of small_cfg LEAF [(k, PersistentTreeValue 1 1), (k + 10, PersistentTreeValue 1 1)]"

definition demo_root :: "(nat, nat) node" where
  "demo_root = node_of small_cfg BRANCH [(20, 1), (40, 2)]"

definition demo_store :: "nat store" where
  "demo_store =
     \<lparr>nodes = [1 \<mapsto> Leaf (demo_leaf 10), 2 \<mapsto> Leaf (demo_leaf 30), 3 \<mapsto> Branch demo_root, 4 \<mapsto> Branch demo_root],
      refs = (\<lambda>x. if x \<le> 2 then 2 else 1), next_node = 5, next_id = 5, blocks = [1 \<mapsto> 8],
      hist = [1 \<mapsto> \<lparr>hn_parent = None, hn_root = 3, hn_root_id = 0, hn_status = COMMITTED\<rparr>,
              2 \<mapsto> \<lparr>hn_parent = Some 1, hn_root = 4, hn_root_id = 0, hn_status = ACTIVE\<rparr>]\<rparr>"

lemma node_of_type: "node_type (node_of c ty es) = ty"
proof -
  have "node_type (fold (\<lambda>(k, d) n. node_insert c n (node_size n) k d) es n) = node_type n" for n :: "('a, 'b) node"
    by (induction es arbitrary: n) (auto simp: node_insert_def insert_key_def Let_def)
  then show ?thesis by (simp add: node_of_def NodeBase_def)
qed

lemma node_of_fields:
  assumes "0 < NodeIndexSize c" and "length es \<le> NodeSize c"
  shows "node_ok c (node_of c ty es)" and "node_size (node_of c ty es) = length es" and "keys_of (node_of c ty es) = map fst es"
    and "take (length es) (node_data (node_of c ty es)) = map snd es"
    and "i < length es \<Longrightarrow> node_keys (node_of c ty es) ! i = fst (es ! i)"
    and "i < length es \<Longrightarrow> node_data (node_of c ty es) ! i = snd (es ! i)"
proof -
  have N: "node_ok c (node_of c ty es)" "entries (node_of c ty es) = es" using node_of [OF assms, of ty] by simp_all
  show ok: "node_ok c (node_of c ty es)" by (rule N)
  show sz: "node_size (node_of c ty es) = length es" using length_entries [OF ok] N(2) by simp
  show "keys_of (node_of c ty es) = map fst es" using entries_keys [OF ok] N(2) by simp
  show nth: "i < length es \<Longrightarrow> node_keys (node_of c ty es) ! i = fst (es ! i)"
    "i < length es \<Longrightarrow> node_data (node_of c ty es) ! i = snd (es ! i)" for i
    using entries_nth [OF ok, of i] N(2) sz by simp_all
  show "take (length es) (node_data (node_of c ty es)) = map snd es"
    by (rule nth_equalityI) (use ok sz nth(2) in \<open>auto simp: node_ok_def node_shape_def\<close>)
qed

lemma demo_leaf:
  "node_ok small_cfg (demo_leaf k)" "node_size (demo_leaf k) = 2" "keys_of (demo_leaf k) = [k, k + 10]"
  "node_type (demo_leaf k) = LEAF" "i < 2 \<Longrightarrow> block_ptr (node_data (demo_leaf k) ! i) = 1"
proof -
  let ?es = "[(k, PersistentTreeValue 1 1), (k + 10, PersistentTreeValue 1 1)]"
  have s: "0 < NodeIndexSize small_cfg" "length ?es \<le> NodeSize small_cfg" by (simp_all add: small_cfg_def)
  note F = node_of_fields [OF s, where ty = LEAF, folded demo_leaf_def]
  show "node_ok small_cfg (demo_leaf k)" "node_size (demo_leaf k) = 2" "keys_of (demo_leaf k) = [k, k + 10]"
    using F by simp_all
  show "node_type (demo_leaf k) = LEAF" by (simp add: demo_leaf_def node_of_type)
  show "block_ptr (node_data (demo_leaf k) ! i) = 1" if "i < 2" using F(6) [of i] that by (cases i) auto
qed

lemma demo_root:
  "node_ok small_cfg demo_root" "node_size demo_root = 2" "keys_of demo_root = [20, 40]" "node_type demo_root = BRANCH"
  "children (Branch demo_root) = [1, 2]" "node_data demo_root ! 0 = 1" "node_data demo_root ! Suc 0 = 2" "node_keys demo_root ! 0 = 20"
proof -
  have s: "0 < NodeIndexSize small_cfg" "length [(20 :: nat, 1 :: nat), (40, 2)] \<le> NodeSize small_cfg" by (simp_all add: small_cfg_def)
  note F = node_of_fields [OF s, where ty = BRANCH, folded demo_root_def]
  show "node_ok small_cfg demo_root" "node_size demo_root = 2" "keys_of demo_root = [20, 40]"
    "node_data demo_root ! 0 = 1" "node_data demo_root ! Suc 0 = 2" "node_keys demo_root ! 0 = 20"
    using F(1-3) F(5) [of 0] F(6) [of 0] F(6) [of 1] by simp_all
  show "children (Branch demo_root) = [1, 2]" using F(2,4) by (simp add: numeral_2_eq_2)
  show "node_type demo_root = BRANCH" by (simp add: demo_root_def node_of_type)
qed

lemma demo_nodes:
  "nodes demo_store a = (if a = 1 then Some (Leaf (demo_leaf 10)) else if a = 2 then Some (Leaf (demo_leaf 30))
     else if a = 3 \<or> a = 4 then Some (Branch demo_root) else None)"
  by (auto simp: demo_store_def)

lemma demo_slots: "slots (nodes demo_store) x = (if x = 1 \<or> x = 2 then 2 else 0)"
proof -
  have "dom (nodes demo_store) = {1, 2, 3, 4}" by (auto simp: demo_store_def)
  then show ?thesis by (simp add: slots_def demo_store_def demo_root del: children.simps(1))
qed

lemma demo_roots: "root_count (hist demo_store) x = (if x = 3 \<or> x = 4 then 1 else 0)"
proof -
  have "{h \<in> dom (hist demo_store). hn_root (the (hist demo_store h)) = x} = (if x = 3 then {1} else if x = 4 then {2} else {})"
    by (auto simp: demo_store_def)
  then show ?thesis unfolding root_count_def by simp
qed

lemma demo_store_ok: "store_ok small_cfg demo_store"
proof (rule store_okI)
  show "finite (dom (nodes demo_store))" "finite (dom (hist demo_store))" "0 < next_node demo_store"
    by (simp_all add: demo_store_def)
  show "0 < a \<and> a < next_node demo_store" if "nodes demo_store a = Some t" for a t
    using that by (auto simp: demo_nodes split: if_splits) (simp_all add: demo_store_def)
  show "nodes demo_store x \<noteq> None" if "nodes demo_store a = Some t" "x \<in> set (children t)" for a t x
    using that by (auto simp: demo_nodes demo_root simp del: children.simps(1) split: if_splits)
  show "hn_root hn = 0 \<or> nodes demo_store (hn_root hn) \<noteq> None" if "hist demo_store h = Some hn" for h hn
    using that by (auto simp: demo_store_def split: if_splits)
  show "node_ok small_cfg n \<and> node_type n = BRANCH \<and> distinct (children (Branch n))" if "nodes demo_store a = Some (Branch n)" for a n
    using that by (auto simp: demo_nodes demo_root simp del: children.simps split: if_splits)
  show "node_ok small_cfg n \<and> node_type n = LEAF" if "nodes demo_store a = Some (Leaf n)" for a n
    using that by (auto simp: demo_nodes demo_leaf split: if_splits)
  show "blocks demo_store (block_ptr (node_data n ! i)) \<noteq> None" if "nodes demo_store a = Some (Leaf n)" "i < node_size n" for a n i
    using that by (auto simp: demo_nodes demo_leaf split: if_splits) (simp_all add: demo_store_def)
  show "int (slots (nodes demo_store) a + root_count (hist demo_store) a) \<le> refs demo_store a" if "nodes demo_store a = Some t" for a t
    using that by (simp add: demo_slots demo_roots demo_nodes split: if_splits) (simp_all add: demo_store_def)
qed

lemma demo_root_of: "root_of demo_store 1 = 3" "root_of demo_store 2 = 4"
  by (simp_all add: root_of_def demo_store_def)

lemma all_less_2: "(\<forall>i < (2 :: nat). P i) \<longleftrightarrow> P 0 \<and> P 1"
  by (auto simp: less_2_cases_iff)

lemma demo_tree: "r = 3 \<or> r = 4 \<Longrightarrow> tree_ok small_cfg (nodes demo_store) 1 r None None"
  by (auto simp: demo_nodes demo_leaf demo_root above_def below_def child_lo_def child_hi_def all_less_2)

lemma demo_snapshots: "snapshot_tree small_cfg demo_store 1 1" "snapshot_tree small_cfg demo_store 2 1"
  using demo_tree [of 3] demo_tree [of 4] demo_root_of by (simp_all add: snapshot_tree_def) (simp_all add: demo_store_def)

text \<open>
  C23: \<open>find\<close> returns, for every key, the value the contents of the snapshot's tree associate with it; it never
  fails on a well-formed tree.
\<close>

theorem ptree_find_looks_up:
  fixes s :: "'k :: {linorder, zero} store"
  assumes "snapshot_tree c s h d"
  shows "ptree_find c s h key = Some (map_of (tree_entries (nodes s) d (root_of s h)) key)"
  using ptree_find_contents [OF assms] by (simp add: contents_def)

theorem ptree_find_looks_up_witness:
  "ptree_find small_cfg demo_store 2 30 = Some (map_of (tree_entries (nodes demo_store) 1 4) 30)"
  using ptree_find_looks_up [OF demo_snapshots(2), of 30] demo_root_of by simp

text \<open>
  C22: \<open>update_path\<close> always succeeds on the path to a key of a well-formed snapshot. Afterwards the invariant of the
  reference counts holds, the nodes of the path below the root have count at most one, they are a path of the
  same length to the same root, and every snapshot of the store has the entries it had.
\<close>

theorem update_path_keeps_snapshots:
  fixes s :: "'k :: {linorder, zero} store"
  assumes "store_ok c s" and "snapshot_tree c s h d" and "refs s (root_of s h) \<le> 1"
    and "locate c s (root_of s h) key = Some (path, idx)" and "snapshot_tree c s k e"
  shows "\<exists>q s'. update_path c sid s path = Some (q, s') \<and> store_ok c s' \<and> path_ok (nodes s') q
    \<and> length q = length path \<and> last q = last path \<and> (\<forall>a \<in> set q. refs s' a \<le> 1)
    \<and> snapshot_tree c s' k e \<and> tree_entries (nodes s') e (root_of s' k) = tree_entries (nodes s) e (root_of s k)"
proof -
  have t: "tree_ok c (nodes s) d (root_of s h) None None" "d < 8" using assms(2) by (simp_all add: snapshot_tree_def)
  have p: "path_ok (nodes s) path" "last path = root_of s h" using locate [OF t, of key] assms(4) by auto
  have "nodes s (last path) \<noteq> None" using tree_ok_live [OF t(1)] p(2) by simp
  from update_path [OF assms(1) p(1) this] obtain q s' where up: "update_path c sid s path = Some (q, s')" "path_owned c s path q s'"
    by blast
  have "store_ok c s'" "path_ok (nodes s') q" "length q = length path" "last q = last path" using up(2) by (simp_all add: path_owned_def)
  moreover note update_path_snapshots(1,2) [OF assms(1-3) p up(2)]
  ultimately show ?thesis using up(1) assms(5) by blast
qed

theorem update_path_keeps_snapshots_witness:
  "\<exists>path idx q s'. locate small_cfg demo_store 4 10 = Some (path, idx) \<and> update_path small_cfg 2 demo_store path = Some (q, s')
    \<and> tree_entries (nodes s') 1 (root_of s' 1) = tree_entries (nodes demo_store) 1 3"
proof -
  have t: "tree_ok small_cfg (nodes demo_store) 1 (root_of demo_store 2) None None" using demo_tree demo_root_of by simp
  obtain path idx where l: "locate small_cfg demo_store (root_of demo_store 2) 10 = Some (path, idx)"
    using locate [OF t, of 10] by auto
  have "refs demo_store (root_of demo_store 2) \<le> 1" by (simp add: demo_root_of) (simp add: demo_store_def)
  from update_path_keeps_snapshots [OF demo_store_ok demo_snapshots(2) this l demo_snapshots(1), of 2]
  show ?thesis using l demo_root_of by auto
qed

text \<open>
  C1: isolation of snapshots. Whatever \<open>assign\<close> does in one snapshot, replace a value, insert into a leaf, or
  split nodes up to a new root, every lookup in every other snapshot gives the result it gave before.
\<close>

theorem assign_isolated:
  fixes s :: "'k :: {linorder, zero} store"
  assumes "store_ok c s" and "snapshot_tree c s h d" and "refs s (root_of s h) \<le> 1"
    and "snapshot_tree c s k e" and "k \<noteq> h" and "assign c h sid s key val = Some (old, s')"
  shows "snapshot_tree c s' k e \<and> ptree_find c s' k x = ptree_find c s k x"
  using assign_isolated_aux [OF assms] ptree_find_contents [of c s k e x] ptree_find_contents [of c s' k e x] assms(4) by simp


lemma demo_owned: "refs demo_store (root_of demo_store 2) \<le> 1" "blocks demo_store (block_ptr (PersistentTreeValue 1 2)) \<noteq> None"
  by (simp add: demo_root_of, simp add: demo_store_def)+

lemma demo_room: "room_for small_cfg demo_store 2 key"
proof -
  have t: "tree_ok small_cfg (nodes demo_store) 1 (root_of demo_store 2) None None" using demo_tree demo_root_of by simp
  then obtain path n where l: "locate small_cfg demo_store (root_of demo_store 2) key = Some (path, find_key small_cfg n key)"
    "get_leaf demo_store (path ! 0) = Some n" "nodes demo_store (path ! 0) = Some (Leaf n)"
    using locate [OF t, of key] by auto
  have "node_size n = 2" using l(3) by (auto simp: demo_nodes demo_leaf split: if_splits)
  then have "has_space small_cfg n" by (simp add: has_space_def small_cfg_def)
  then show ?thesis using l by (simp add: room_for_def)
qed


theorem assign_isolated_witness:
  "\<exists>old s'. assign small_cfg 2 2 demo_store 15 (PersistentTreeValue 1 2) = Some (old, s')
    \<and> ptree_find small_cfg s' 1 15 = ptree_find small_cfg demo_store 1 15"
proof -
  obtain old s' where run: "assign small_cfg 2 2 demo_store 15 (PersistentTreeValue 1 2) = Some (old, s')"
    using assign_aux [OF demo_store_ok demo_snapshots(2) demo_owned demo_room, of 2 15] by blast
  then show ?thesis
    using assign_isolated [OF demo_store_ok demo_snapshots(2) demo_owned(1) demo_snapshots(1) _ run, of 15] by simp
qed

end
