(* ===== verification/PTree_Snapshots.thy ===== *)
theory PTree_Snapshots
  imports PTree_Writers
begin

text \<open>
  Where trees begin and end: the constructor of \<open>PersistentTree\<close> starts a snapshot from the root of its parent, and
  \<open>delete_tree\<close> gives a snapshot's references back, from the root down, and frees what nobody refers to any more. The
  invariant \<open>counted\<close> describes the middle of a deletion: some nodes are being deleted, and the references they
  still have to give up are counted as coming from outside the heap. By induction on the depth, every call succeeds and
  frees no node and no block that another snapshot reaches.
\<close>

section \<open>Counting references\<close>

definition uses :: "('k tnode \<Rightarrow> nat list) \<Rightarrow> 'k heap \<Rightarrow> nat \<Rightarrow> nat" where
  \<comment> \<open>how often the nodes of the heap refer to the address, by the references \<open>f\<close> of a node\<close>
  "uses f H x = (\<Sum>p \<in> dom H. count_list (f (the (H p))) x)"

lemma slots_uses: "slots = uses children"
  by (intro ext) (simp add: slots_def uses_def)

lemma uses_remove:
  assumes "finite (dom H)" and "H a = Some t"
  shows "uses f H x = uses f (H(a := None)) x + count_list (f t) x"
proof -
  have "uses f H x = count_list (f (the (H a))) x + (\<Sum>p \<in> dom H - {a}. count_list (f (the (H p))) x)"
    unfolding uses_def using assms by (intro sum.remove) auto
  also have "(\<Sum>p \<in> dom H - {a}. count_list (f (the (H p))) x) = uses f (H(a := None)) x"
    unfolding uses_def by (rule sum.cong) auto
  finally show ?thesis using assms(2) by simp
qed

lemma uses_pos: "finite (dom H) \<Longrightarrow> H p = Some t \<Longrightarrow> x \<in> set (f t) \<Longrightarrow> 0 < uses f H x"
  by (simp add: uses_remove count_list_pos)

definition typed_nodes :: "node_cfg \<Rightarrow> 'k heap \<Rightarrow> bool" where
  "typed_nodes c H = ((\<forall>a n. H a = Some (Branch n) \<longrightarrow> node_ok c n \<and> node_type n = BRANCH)
     \<and> (\<forall>a n. H a = Some (Leaf n) \<longrightarrow> node_ok c n \<and> node_type n = LEAF))"

text \<open>
  The state in the middle of a deletion: the nodes of \<open>Z\<close> are being deleted and their references do not count any
  more; \<open>roots\<close> and \<open>pend\<close> are the references to nodes and to blocks from outside the heap, those still to
  be released included.
\<close>

definition covers :: "'k store \<Rightarrow> nat \<Rightarrow> nat \<Rightarrow> bool" where
  \<comment> \<open>the count of the block covers \<open>k\<close> references\<close>
  "covers s b k = (case blocks s b of None \<Rightarrow> k = 0 | Some r \<Rightarrow> int k \<le> r)"

definition counted :: "nat set \<Rightarrow> (nat \<Rightarrow> nat) \<Rightarrow> (nat \<Rightarrow> nat) \<Rightarrow> 'k store \<Rightarrow> bool" where
  "counted Z roots pend s \<longleftrightarrow> finite (dom (nodes s))
     \<and> (\<forall>p t. nodes s p = Some t \<longrightarrow> p \<notin> Z \<longrightarrow> (\<forall>x \<in> set (children t). nodes s x \<noteq> None \<and> x \<notin> Z))
     \<and> (\<forall>x. 0 < roots x \<longrightarrow> nodes s x \<noteq> None \<and> x \<notin> Z)
     \<and> (\<forall>x t. nodes s x = Some t \<longrightarrow> x \<notin> Z \<longrightarrow> int (uses children (nodes s |` (- Z)) x + roots x) \<le> refs s x)
     \<and> (\<forall>b. covers s b (uses leaf_blocks (nodes s |` (- Z)) b + pend b))"

lemma countedD:
  assumes "counted Z roots pend s"
  shows "finite (dom (nodes s))"
    and "nodes s p = Some t \<Longrightarrow> p \<notin> Z \<Longrightarrow> x \<in> set (children t) \<Longrightarrow> nodes s x \<noteq> None \<and> x \<notin> Z"
    and "0 < roots x \<Longrightarrow> nodes s x \<noteq> None \<and> x \<notin> Z"
    and "nodes s x = Some t \<Longrightarrow> x \<notin> Z \<Longrightarrow> int (uses children (nodes s |` (- Z)) x + roots x) \<le> refs s x"
    and "covers s b (uses leaf_blocks (nodes s |` (- Z)) b + pend b)"
  using assms unfolding counted_def by blast+

lemma countedI:
  assumes "finite (dom (nodes s))"
    and "\<And>p t x. nodes s p = Some t \<Longrightarrow> p \<notin> Z \<Longrightarrow> x \<in> set (children t) \<Longrightarrow> nodes s x \<noteq> None \<and> x \<notin> Z"
    and "\<And>x. 0 < roots x \<Longrightarrow> nodes s x \<noteq> None \<and> x \<notin> Z"
    and "\<And>x t. nodes s x = Some t \<Longrightarrow> x \<notin> Z \<Longrightarrow> int (uses children (nodes s |` (- Z)) x + roots x) \<le> refs s x"
    and "\<And>b. covers s b (uses leaf_blocks (nodes s |` (- Z)) b + pend b)"
  shows "counted Z roots pend s"
  using assms unfolding counted_def by blast

fun height :: "'k heap \<Rightarrow> nat \<Rightarrow> nat \<Rightarrow> bool" where
  "height H 0 a = False"
| "height H (Suc d) a = (case H a of None \<Rightarrow> False | Some t \<Rightarrow> \<forall>x \<in> set (children t). height H d x)"

lemma height_keep:
  assumes "H' \<subseteq>\<^sub>m H" and "\<And>p t x. H' p = Some t \<Longrightarrow> x \<in> set (children t) \<Longrightarrow> H' x \<noteq> None"
  shows "height H d a \<Longrightarrow> H' a \<noteq> None \<Longrightarrow> height H' d a"
proof (induction d arbitrary: a)
  case (Suc d)
  then obtain t where t: "H' a = Some t" by blast
  then have "H a = Some t" using assms(1) by (metis domI map_le_def)
  then show ?case using Suc.prems(1) t assms(2) [OF t] Suc.IH by auto
qed simp

lemma height_tree_ok: "tree_ok c H d a lo hi \<Longrightarrow> height H (Suc d) a"
proof (induction d arbitrary: a lo hi)
  case (Suc d)
  from Suc.prems obtain n where n: "H a = Some (Branch n)" "node_ok c n"
    and sub: "\<And>i. i < node_size n \<Longrightarrow> tree_ok c H d (node_data n ! i) (child_lo lo n i) (child_hi hi n i)"
    by (rule tree_ok_BranchD) blast
  have "height H (Suc d) x" if "x \<in> set (children (Branch n))" for x
    using that Suc.IH [OF sub] by (auto simp: in_set_conv_nth)
  then show ?case using n(1) by (simp del: children.simps)
qed (auto split: option.splits tnode.splits)

lemma height_mono: "height H d a \<Longrightarrow> d \<le> e \<Longrightarrow> height H e a"
proof (induction d arbitrary: a e)
  case (Suc d)
  then obtain e' where "e = Suc e'" "d \<le> e'" by (cases e) auto
  then show ?case using Suc by (auto split: option.splits)
qed simp

text \<open>A reference that is given up but was not the last one.\<close>

lemma counted_unref:
  assumes "counted Z (\<lambda>x. roots x + of_bool (x = a)) pend s"
  shows "counted Z roots pend (s\<lparr>refs := (refs s)(a := refs s a - 1)\<rparr>)"
proof (rule countedI, goal_cases)
  case (4 x t)
  then show ?case using countedD(4) [OF assms, of x t] by auto
next
  case (3 x)
  then show ?case using countedD(3) [OF assms, of x] by simp
qed (use countedD [OF assms] in \<open>simp_all add: covers_def\<close>)

text \<open>A node without references starts to be deleted: what it refers to is now referred to from outside.\<close>

lemma counted_kill:
  assumes C: "counted Z (\<lambda>x. roots x + of_bool (x = a)) pend s" and t: "nodes s a = Some t" "a \<notin> Z" and r: "refs s a = 1"
  shows "counted (insert a Z) (\<lambda>x. roots x + count_list (children t) x) (\<lambda>b. pend b + count_list (leaf_blocks t) b)
           (s\<lparr>refs := (refs s)(a := 0)\<rparr>)"
proof -
  let ?H = "nodes s |` (- Z)" and ?H' = "nodes s |` (- insert a Z)"
  note D = countedD [OF C]
  have H': "?H' = ?H(a := None)" by (auto simp: restrict_map_def)
  have fin: "finite (dom ?H)" using D(1) by (simp add: finite_subset [of _ "dom (nodes s)"])
  have a: "?H a = Some t" using t by simp
  have z: "uses children ?H a = 0" "roots a = 0" using D(4) [OF t] r by simp_all
  have not_a: "a \<notin> set (children u)" if "nodes s p = Some u" "p \<notin> Z" for p u
    using uses_pos [OF fin, of p u a children] z that by auto
  have U: "uses f ?H x = uses f ?H' x + count_list (f t) x" for f x unfolding H' by (rule uses_remove [OF fin a])
  show ?thesis
  proof (rule countedI, goal_cases)
    case 1 show ?case using D(1) by simp
  next
    case (2 p u x) then show ?case using D(2) [of p u x] not_a [of p u] by auto
  next
    case (3 x)
    then have "0 < roots x \<or> x \<in> set (children t)" using count_list_0_iff [of "children t" x] by auto
    then show ?case using D(3) [of x] D(2) [OF t] not_a [OF t] z(2) by auto
  next
    case (4 x u) then show ?case using D(4) [of x u] U [of children x] by auto
  next
    case (5 b) then show ?case using D(5) [of b] U [of leaf_blocks b] by (simp add: covers_def add.assoc add.commute [of "pend b"])
  qed
qed

lemma counted_remove:
  assumes C: "counted (insert a Z) roots pend s"
  shows "counted Z roots pend (s\<lparr>nodes := (nodes s)(a := None)\<rparr>)"
proof -
  have H: "((nodes s)(a := None)) |` (- Z) = nodes s |` (- insert a Z)" by (auto simp: restrict_map_def)
  show ?thesis
  proof (rule countedI, goal_cases)
    case (2 p t x) then show ?case using countedD(2) [OF C, of p t x] by (auto split: if_splits)
  next
    case (3 x) then show ?case using countedD(3) [OF C, of x] by auto
  next
    case (4 x t) then show ?case using countedD(4) [OF C, of x t] H by (auto split: if_splits)
  qed (use countedD(1,5) [OF C] H in \<open>simp_all add: covers_def\<close>)
qed

section \<open>Deleting a tree\<close>

definition drop_block :: "'k store \<Rightarrow> nat \<Rightarrow> 'k store option" where
  "drop_block s b = do { (r, s) \<leftarrow> block_unref s b; Some (if r = 0 then block_delete s b else s) }"

lemma drop_blocks_fold:
  "node_ok c n \<Longrightarrow> drop_blocks s n = foldM drop_block s (leaf_blocks (Leaf n))"
proof -
  have fold: "foldM (\<lambda>s i. f s (g i)) s xs = foldM f s (map g xs)" for f :: "'s \<Rightarrow> 'b \<Rightarrow> 's option" and g :: "'c \<Rightarrow> 'b" and s xs
    by (induction xs arbitrary: s) simp_all
  assume "node_ok c n"
  then have "map (\<lambda>i. block_ptr (node_data n ! i)) [0 ..< node_size n] = leaf_blocks (Leaf n)"
    by (rule leaf_blocks_nth)
  moreover have "drop_blocks s n = foldM (\<lambda>s i. drop_block s (block_ptr (node_data n ! i))) s [0 ..< node_size n]"
    by (simp add: drop_blocks_def drop_block_def Let_def)
  ultimately show ?thesis by (simp only: fold [of drop_block "\<lambda>i. block_ptr (node_data n ! i)"])
qed

lemma counted_drop_block:
  assumes C: "counted Z roots (\<lambda>x. pend x + of_bool (x = b)) s"
  shows "\<exists>bs. drop_block s b = Some (s\<lparr>blocks := bs\<rparr>) \<and> counted Z roots pend (s\<lparr>blocks := bs\<rparr>)"
proof -
  obtain r where r: "blocks s b = Some r" "int (uses leaf_blocks (nodes s |` (- Z)) b + pend b) + 1 \<le> r"
    using countedD(5) [OF C, of b] by (auto simp: covers_def split: option.splits)
  let ?bs = "if r = 1 then (blocks s)(b := None) else (blocks s)(b \<mapsto> r - 1)"
  have "drop_block s b = Some (s\<lparr>blocks := ?bs\<rparr>)" using r(1) by (auto simp: drop_block_def block_unref_def block_delete_def)
  moreover have "counted Z roots pend (s\<lparr>blocks := ?bs\<rparr>)"
  proof (rule countedI, goal_cases)
    case (5 x)
    then show ?case using countedD(5) [OF C, of x] r by (cases "x = b") (auto simp: covers_def)
  qed (use countedD(1-4) [OF C] in simp_all)
  ultimately show ?thesis by blast
qed

lemma counted_drop_blocks:
  assumes "counted Z roots (\<lambda>b. pend b + count_list xs b) s"
  shows "\<exists>bs. foldM drop_block s xs = Some (s\<lparr>blocks := bs\<rparr>) \<and> counted Z roots pend (s\<lparr>blocks := bs\<rparr>)"
  using assms
proof (induction xs arbitrary: s)
  case Nil
  then show ?case by (intro exI [of _ "blocks s"]) simp
next
  case (Cons b xs)
  have "(\<lambda>x. pend x + count_list (b # xs) x) = (\<lambda>x. (pend x + count_list xs x) + of_bool (x = b))" by auto
  then have "counted Z roots (\<lambda>x. (pend x + count_list xs x) + of_bool (x = b)) s" using Cons.prems by simp
  from counted_drop_block [OF this] obtain bs where bs: "drop_block s b = Some (s\<lparr>blocks := bs\<rparr>)"
    "counted Z roots (\<lambda>x. pend x + count_list xs x) (s\<lparr>blocks := bs\<rparr>)" by blast
  from Cons.IH [OF bs(2)] obtain bs' where "foldM drop_block (s\<lparr>blocks := bs\<rparr>) xs = Some (s\<lparr>blocks := bs'\<rparr>)"
    "counted Z roots pend (s\<lparr>blocks := bs'\<rparr>)" by auto
  then show ?case using bs(1) by auto
qed

text \<open>What a deletion leaves: a part of the heap, with the nodes of \<open>Z\<close>, and everything else but the counts.\<close>

definition shrunk :: "nat set \<Rightarrow> 'k store \<Rightarrow> 'k store \<Rightarrow> bool" where
  "shrunk Z s t \<longleftrightarrow> nodes t \<subseteq>\<^sub>m nodes s \<and> (\<forall>z \<in> Z. nodes t z = nodes s z) \<and> hist t = hist s
     \<and> next_node t = next_node s \<and> next_id t = next_id s"

lemma shrunk_refl: "shrunk Z s s"
  by (simp add: shrunk_def)

lemma shrunk_trans: "shrunk Z s t \<Longrightarrow> shrunk Z t u \<Longrightarrow> shrunk Z s u"
  by (auto simp: shrunk_def intro: map_le_trans)

lemma map_le_SomeD: "H' \<subseteq>\<^sub>m H \<Longrightarrow> H' a = Some t \<Longrightarrow> H a = Some t"
  by (force simp: map_le_def)

lemma typed_shrunk: "typed_nodes c (nodes s) \<Longrightarrow> shrunk Z s t \<Longrightarrow> typed_nodes c (nodes t)"
  unfolding typed_nodes_def shrunk_def by (blast dest: map_le_SomeD)

lemma height_counted:
  assumes C: "counted Z roots pend t" and S: "shrunk Z' s t" and h: "height (nodes s |` (- Z'')) d a" and Z: "Z'' \<subseteq> Z"
    and a: "nodes t a \<noteq> None" "a \<notin> Z"
  shows "height (nodes t |` (- Z)) d a"
proof (rule height_keep [OF _ _ h])
  show "nodes t |` (- Z) \<subseteq>\<^sub>m nodes s |` (- Z'')"
    using S Z by (auto simp: shrunk_def map_le_def restrict_map_def)
  show "(nodes t |` (- Z)) x \<noteq> None" if "(nodes t |` (- Z)) p = Some u" "x \<in> set (children u)" for p u x
    using countedD(2) [OF C, of p u x] that by (auto simp: restrict_map_def split: if_splits)
  show "(nodes t |` (- Z)) a \<noteq> None" using a by simp
qed

definition deletes :: "node_cfg \<Rightarrow> nat \<Rightarrow> 'k itself \<Rightarrow> bool" where
  \<comment> \<open>the induction hypothesis of \<open>delete_tree_ok\<close>\<close>
  "deletes c d _ \<longleftrightarrow> (\<forall>(s :: 'k store) a Z roots pend. typed_nodes c (nodes s) \<longrightarrow> counted Z (\<lambda>x. roots x + of_bool (x = a)) pend s
     \<longrightarrow> height (nodes s |` (- Z)) d a
     \<longrightarrow> (\<exists>t. delete_tree d s a drop_blocks = Some t \<and> counted Z roots pend t \<and> shrunk Z s t))"

lemma delete_children:
  fixes s :: "'k store"
  assumes IH: "deletes c d TYPE('k)" and "typed_nodes c (nodes s)" and "counted Z (\<lambda>x. roots x + count_list xs x) pend s"
    and "\<forall>x \<in> set xs. height (nodes s |` (- Z)) d x"
  shows "\<exists>t. foldM (\<lambda>s x. delete_tree d s x drop_blocks) s xs = Some t \<and> counted Z roots pend t \<and> shrunk Z s t"
  using assms(2-)
proof (induction xs arbitrary: s)
  case Nil
  then show ?case by (simp add: shrunk_refl)
next
  case (Cons a xs)
  have "(\<lambda>x. roots x + count_list (a # xs) x) = (\<lambda>x. (roots x + count_list xs x) + of_bool (x = a))" by auto
  then have C: "counted Z (\<lambda>x. (roots x + count_list xs x) + of_bool (x = a)) pend s" using Cons.prems(2) by simp
  obtain u where u: "delete_tree d s a drop_blocks = Some u" "counted Z (\<lambda>x. roots x + count_list xs x) pend u" "shrunk Z s u"
    using IH [unfolded deletes_def] Cons.prems(1,3) C by (meson list.set_intros(1))
  have "height (nodes u |` (- Z)) d x" if "x \<in> set xs" for x
  proof (rule height_counted [OF u(2,3)])
    show "height (nodes s |` (- Z)) d x" using Cons.prems(3) that by simp
    show "nodes u x \<noteq> None" "x \<notin> Z" using countedD(3) [OF u(2), of x] count_list_pos [OF that] by auto
  qed simp
  from Cons.IH [OF typed_shrunk [OF Cons.prems(1) u(3)] u(2)] this
  obtain t where "foldM (\<lambda>s x. delete_tree d s x drop_blocks) u xs = Some t" "counted Z roots pend t" "shrunk Z u t" by blast
  then show ?case using u shrunk_trans by (intro exI [of _ t]) auto
qed

lemma delete_tree_ok: "deletes c d TYPE('k)"
proof (induction d)
  case 0
  show ?case by (simp add: deletes_def)
next
  case (Suc d)
  show ?case unfolding deletes_def
  proof (intro allI impI)
    fix s :: "'k store" and a Z roots pend
    assume T: "typed_nodes c (nodes s)" and C: "counted Z (\<lambda>x. roots x + of_bool (x = a)) pend s"
      and h: "height (nodes s |` (- Z)) (Suc d) a"
    note D = countedD [OF C]
    obtain t where t: "nodes s a = Some t" "a \<notin> Z" using D(3) [of a] by auto
    have pos: "1 \<le> refs s a" using D(4) [OF t] by simp
    let ?s = "s\<lparr>refs := (refs s)(a := refs s a - 1)\<rparr>"
    have un: "unref s a = Some (refs s a - 1, ?s)" using t pos by (simp add: unref_def Let_def)
    show "\<exists>u. delete_tree (Suc d) s a drop_blocks = Some u \<and> counted Z roots pend u \<and> shrunk Z s u"
    proof (cases "refs s a = 1")
      case False
      then have "delete_tree (Suc d) s a drop_blocks = Some ?s" using un by simp
      moreover have "shrunk Z s ?s" by (simp add: shrunk_def)
      ultimately show ?thesis using counted_unref [OF C] by blast
    next
      case True
      have K: "counted (insert a Z) (\<lambda>x. roots x + count_list (children t) x) (\<lambda>b. pend b + count_list (leaf_blocks t) b) ?s"
        using counted_kill [OF C t True] True by simp
      have body: "\<exists>u. (if t_is_leaf t then do { n \<leftarrow> get_leaf ?s a; drop_blocks ?s n }
             else do { n \<leftarrow> get_branch ?s a;
                       foldM (\<lambda>s x. delete_tree d s x drop_blocks) ?s (map (\<lambda>i. node_data n ! i) [0 ..< node_size n]) }) = Some u
          \<and> counted (insert a Z) roots pend u \<and> shrunk (insert a Z) ?s u"
      proof (cases t)
        case (Leaf n)
        have n: "node_ok c n" "node_type n = LEAF" using T t(1) Leaf by (auto simp: typed_nodes_def)
        have "counted (insert a Z) roots (\<lambda>b. pend b + count_list (leaf_blocks (Leaf n)) b) ?s" using K Leaf by simp
        from counted_drop_blocks [OF this] obtain bs where
          "drop_blocks ?s n = Some (?s\<lparr>blocks := bs\<rparr>)" "counted (insert a Z) roots pend (?s\<lparr>blocks := bs\<rparr>)"
          using drop_blocks_fold [OF n(1), of ?s] by auto
        moreover have "shrunk (insert a Z) ?s (?s\<lparr>blocks := bs\<rparr>)" by (simp add: shrunk_def)
        ultimately show ?thesis using t(1) Leaf n(2) by (intro exI [of _ "?s\<lparr>blocks := bs\<rparr>"]) (simp add: get_leaf_def is_leaf_def)
      next
        case (Branch n)
        have n: "node_ok c n" "node_type n = BRANCH" using T t(1) Branch by (auto simp: typed_nodes_def)
        have K': "counted (insert a Z) (\<lambda>x. roots x + count_list (children t) x) pend ?s" using K Branch by simp
        have "height (nodes ?s |` (- insert a Z)) d x" if x: "x \<in> set (children t)" for x
        proof (rule height_counted [OF K'])
          show "shrunk {} s ?s" by (simp add: shrunk_def)
          show "height (nodes s |` (- Z)) d x" using h t x by simp
          show "nodes ?s x \<noteq> None" "x \<notin> insert a Z" using countedD(3) [OF K', of x] count_list_pos [OF x] by auto
        qed auto
        then obtain u where "foldM (\<lambda>s x. delete_tree d s x drop_blocks) ?s (children t) = Some u"
            "counted (insert a Z) roots pend u" "shrunk (insert a Z) ?s u"
          using delete_children [OF Suc.IH _ K'] T by auto
        then show ?thesis using t(1) Branch n map_nth_children [OF n(1)] by (intro exI [of _ u]) (simp add: get_branch_def is_leaf_def)
      qed
      then obtain u where u: "(if t_is_leaf t then do { n \<leftarrow> get_leaf ?s a; drop_blocks ?s n }
             else do { n \<leftarrow> get_branch ?s a;
                       foldM (\<lambda>s x. delete_tree d s x drop_blocks) ?s (map (\<lambda>i. node_data n ! i) [0 ..< node_size n]) }) = Some u"
          "counted (insert a Z) roots pend u" "shrunk (insert a Z) ?s u" by blast
      let ?u = "u\<lparr>nodes := (nodes u)(a := None)\<rparr>"
      have ua: "nodes u a = Some t" using u(3) t(1) by (simp add: shrunk_def)
      have "delete_tree (Suc d) s a drop_blocks = Some ?u"
        using un True t(1) u(1) ua by (auto simp: remove_node_def Option.bind_eq_Some_conv split: if_splits)
      moreover have "shrunk Z s ?u" using u(3) t by (auto simp: shrunk_def map_le_def)
      ultimately show ?thesis using counted_remove [OF u(2)] by blast
    qed
  qed
qed

section \<open>Deleting a snapshot\<close>

definition block_uses :: "'k heap \<Rightarrow> nat \<Rightarrow> nat" where
  "block_uses H b = (\<Sum>p \<in> dom H. count_list (leaf_blocks (the (H p))) b)"

definition blocks_counted :: "'k store \<Rightarrow> bool" where
  \<comment> \<open>the count of a block is at least the number of leaf entries that refer to it\<close>
  "blocks_counted s = (\<forall>b r. blocks s b = Some r \<longrightarrow> int (block_uses (nodes s) b) \<le> r)"

lemma root_count_drop:
  assumes "finite (dom hs)" and "hs h = Some hn" and "x \<noteq> 0"
  shows "root_count hs x = root_count (hs(h \<mapsto> hn\<lparr>hn_root := 0, hn_root_id := 0\<rparr>)) x + of_bool (x = hn_root hn)"
proof -
  let ?hs = "hs(h \<mapsto> hn\<lparr>hn_root := 0, hn_root_id := 0\<rparr>)"
  define A where "A = {k \<in> dom ?hs. hn_root (the (?hs k)) = x}"
  have A: "{k \<in> dom hs. hn_root (the (hs k)) = x} = (if x = hn_root hn then insert h A else A)" using assms(2,3) by (auto simp: A_def)
  have f: "finite A" "h \<notin> A" using assms by (auto simp: A_def)
  show ?thesis unfolding root_count_def A A_def [symmetric] using f by simp
qed

lemma store_counted:
  assumes ok: "store_ok c s" and bc: "blocks_counted s" and h: "hist s h = Some hn" "hn_root hn \<noteq> 0"
    and hs: "hs = (hist s)(h \<mapsto> hn\<lparr>hn_root := 0, hn_root_id := 0\<rparr>)"
  shows "counted {} (\<lambda>x. (if x = 0 then 0 else root_count hs x) + of_bool (x = hn_root hn)) (\<lambda>_. 0) s"
proof -
  note D = store_okD [OF ok]
  have R: "(if x = 0 then 0 else root_count hs x) + of_bool (x = hn_root hn) = (if x = 0 then 0 else root_count (hist s) x)" for x
    using root_count_drop [OF D(2) h(1), of x] h(2) hs by auto
  have H: "nodes s |` (- {}) = nodes s" by (simp add: restrict_map_def)
  show ?thesis unfolding R
  proof (rule countedI, goal_cases)
    case 1 show ?case by (rule D(1))
  next
    case (2 p t x) then show ?case using D(5) [of p t x] by simp
  next
    case (3 x)
    then have "x \<noteq> 0" "{k \<in> dom (hist s). hn_root (the (hist s k)) = x} \<noteq> {}"
      by (simp_all add: root_count_def card_gt_0_iff split: if_splits)
    then obtain k kn where "hist s k = Some kn" "hn_root kn = x" by auto
    then show ?case using D(10) [of k kn] \<open>x \<noteq> 0\<close> by auto
  next
    case (4 x t) then show ?case using D(4,9) [of x t] unfolding H by (simp add: slots_uses)
  next
    case (5 b)
    have "covers s b (block_uses (nodes s) b)"
    proof (cases "blocks s b")
      case None
      have "count_list (leaf_blocks (the (nodes s p))) b = 0" if p: "p \<in> dom (nodes s)" for p
      proof (cases "the (nodes s p)")
        case (Leaf n)
        then have n: "nodes s p = Some (Leaf n)" using p by auto
        show ?thesis using None D(8) [OF n] Leaf by (fastforce simp: count_list_0_iff in_set_conv_nth)
      qed simp
      then show ?thesis using None by (simp add: covers_def block_uses_def)
    qed (use bc in \<open>simp add: covers_def blocks_counted_def\<close>)
    then show ?case unfolding H by (simp add: block_uses_def uses_def)
  qed
qed

lemma counted_store_ok:
  assumes ok: "store_ok c s" and C: "counted {} (\<lambda>x. if x = 0 then 0 else root_count hs x) (\<lambda>_. 0) t" and S: "shrunk {} s t"
    and hs: "finite (dom hs)" "\<And>h hn. hs h = Some hn \<Longrightarrow> hn_root hn \<noteq> 0 \<Longrightarrow> 0 < root_count hs (hn_root hn)"
  shows "store_ok c (t\<lparr>hist := hs\<rparr>)" "blocks_counted (t\<lparr>hist := hs\<rparr>)"
proof -
  let ?t = "t\<lparr>hist := hs\<rparr>"
  note D = store_okD [OF ok] and E = countedD [OF C]
  have H: "nodes t |` (- {}) = nodes t" by (simp add: restrict_map_def)
  have le: "nodes s a = Some u" if "nodes t a = Some u" for a u using S that map_le_SomeD by (auto simp: shrunk_def)
  have cov: "covers t b (block_uses (nodes t) b)" for b using E(5) [of b] unfolding H by (simp add: block_uses_def uses_def)
  show "store_ok c ?t"
  proof (rule store_okI)
    show "finite (dom (nodes ?t))" "finite (dom (hist ?t))" "0 < next_node ?t" using E(1) hs(1) D(3) S by (simp_all add: shrunk_def)
    show "0 < a \<and> a < next_node ?t" if "nodes ?t a = Some u" for a u using D(4) [OF le] that S by (simp add: shrunk_def)
    show "nodes ?t x \<noteq> None" if "nodes ?t a = Some u" "x \<in> set (children u)" for a u x using E(2) [of a u x] that by simp
    show "hn_root hn = 0 \<or> nodes ?t (hn_root hn) \<noteq> None" if "hist ?t h = Some hn" for h hn
      using hs(2) [of h hn] E(3) [of "hn_root hn"] that by (cases "hn_root hn = 0") auto
    show "node_ok c n \<and> node_type n = BRANCH \<and> distinct (children (Branch n))" if "nodes ?t a = Some (Branch n)" for a n
      using D(6) [OF le] that by simp
    show "node_ok c n \<and> node_type n = LEAF" if "nodes ?t a = Some (Leaf n)" for a n using D(7) [OF le] that by simp
    show "blocks ?t (block_ptr (node_data n ! i)) \<noteq> None" if "nodes ?t a = Some (Leaf n)" "i < node_size n" for a n i
    proof -
      have "node_size n \<le> length (node_data n)" using D(7) [OF le, of a n] that(1) by (simp add: node_ok_def node_shape_def)
      then have "block_ptr (node_data n ! i) \<in> set (leaf_blocks (Leaf n))" using that(2) by (force simp: in_set_conv_nth)
      then have "0 < block_uses (nodes t) (block_ptr (node_data n ! i))"
        using uses_pos [OF E(1), of a "Leaf n" _ leaf_blocks] that(1) by (simp add: block_uses_def uses_def)
      then show ?thesis using cov [of "block_ptr (node_data n ! i)"] by (auto simp: covers_def split: option.splits)
    qed
    show "int (slots (nodes ?t) a + root_count (hist ?t) a) \<le> refs ?t a" if a: "nodes ?t a = Some u" for a u
      using E(4) [of a u] a D(4) [OF le, of a u] unfolding H by (simp add: slots_uses)
  qed
  show "blocks_counted ?t" unfolding blocks_counted_def
  proof (intro allI impI)
    fix b r assume "blocks ?t b = Some r"
    then show "int (block_uses (nodes ?t) b) \<le> r" using cov [of b] by (simp add: covers_def)
  qed
qed

lemma heap_sim_shrunk:
  assumes ok: "store_ok c t" and S: "nodes t \<subseteq>\<^sub>m nodes s"
  shows "heap_sim (\<lambda>x y. x = y \<and> nodes t x \<noteq> None) (nodes s) (nodes t)"
  unfolding heap_sim_def
proof (intro allI impI)
  fix a a' u assume a: "a = a' \<and> nodes t a \<noteq> None" and u: "nodes s a = Some u"
  then have "nodes t a = Some u" using map_le_SomeD [OF S] by fastforce
  then show "\<exists>t'. nodes t a' = Some t' \<and> node_match (\<lambda>x y. x = y \<and> nodes t x \<noteq> None) u t'"
    using heap_sim_refl [OF ok] a unfolding heap_sim_def by blast
qed

text \<open>
  Deleting a snapshot: with a well-formed tree it succeeds, the invariants hold afterwards, and all other
  snapshots keep their trees.
\<close>

lemma delete_snapshot_aux:
  fixes s :: "'k :: {linorder, zero} store"
  assumes ok: "store_ok c s" and bc: "blocks_counted s" and h: "snapshot_tree c s h d" and d: "d < e"
  shows "\<exists>t. delete_snapshot e s h = Some t \<and> store_ok c t \<and> blocks_counted t \<and> get_root t h = Some 0 \<and> nodes t \<subseteq>\<^sub>m nodes s
    \<and> hist t = (hist s)(h \<mapsto> (the (hist s h))\<lparr>hn_root := 0, hn_root_id := 0\<rparr>)
    \<and> (\<forall>k f. k \<noteq> h \<longrightarrow> snapshot_tree c s k f \<longrightarrow> snapshot_tree c t k f \<and> contents t k f = contents s k f)"
proof -
  note D = store_okD [OF ok]
  obtain hn where hn: "hist s h = Some hn" "hn_root hn = root_of s h" using h by (auto simp: snapshot_tree_def root_of_def)
  have tr: "tree_ok c (nodes s) d (hn_root hn) None None" using h hn(2) by (simp add: snapshot_tree_def)
  have nz: "hn_root hn \<noteq> 0" using tree_ok_live [OF tr] D(4) by fastforce
  define hs where "hs = (hist s)(h \<mapsto> hn\<lparr>hn_root := 0, hn_root_id := 0\<rparr>)"
  have "height (nodes s) e (hn_root hn)" using height_mono [OF height_tree_ok [OF tr]] d by simp
  then have "height (nodes s |` (- {})) e (hn_root hn)" by (simp add: restrict_map_def)
  moreover have "typed_nodes c (nodes s)" using D(6,7) by (auto simp: typed_nodes_def)
  ultimately obtain t where t: "delete_tree e s (hn_root hn) drop_blocks = Some t"
      "counted {} (\<lambda>x. if x = 0 then 0 else root_count hs x) (\<lambda>_. 0) t" "shrunk {} s t"
    using delete_tree_ok [of c e, where 'k = 'k, unfolded deletes_def] store_counted [OF ok bc hn(1) nz hs_def] by meson
  have hist: "hist t = hist s" using t(3) by (simp add: shrunk_def)
  have T: "delete_snapshot e s h = Some (t\<lparr>hist := hs\<rparr>)" using hn(1) t(1) hist by (simp add: delete_snapshot_def hs_def)
  have fin: "finite (dom hs)" using D(2) by (simp add: hs_def)
  have pos: "0 < root_count hs (hn_root kn)" if "hs k = Some kn" for k kn by (rule root_count_pos [OF fin that]) simp
  have K: "store_ok c (t\<lparr>hist := hs\<rparr>)" "blocks_counted (t\<lparr>hist := hs\<rparr>)" using counted_store_ok [OF ok t(2,3) fin] pos by blast+
  have le: "nodes t \<subseteq>\<^sub>m nodes s" using t(3) by (simp add: shrunk_def)
  have "snapshot_tree c (t\<lparr>hist := hs\<rparr>) k f \<and> contents (t\<lparr>hist := hs\<rparr>) k f = contents s k f" if k: "k \<noteq> h" "snapshot_tree c s k f" for k f
  proof -
    obtain kn where kn: "hist s k = Some kn" "hn_root kn = root_of s k" using k(2) by (auto simp: snapshot_tree_def root_of_def)
    have tk: "tree_ok c (nodes s) f (root_of s k) None None" using k(2) by (simp add: snapshot_tree_def)
    have r: "root_of (t\<lparr>hist := hs\<rparr>) k = root_of s k" "hist (t\<lparr>hist := hs\<rparr>) k \<noteq> None" using k(1) kn by (simp_all add: root_of_def hs_def)
    have "hn_root kn \<noteq> 0" using tree_ok_live [OF tk] kn(2) D(4) by fastforce
    then have live: "nodes t (root_of s k) \<noteq> None"
      using store_okD(10) [OF K(1), of k kn] k(1) kn by (simp add: hs_def)
    note sim = heap_sim_shrunk [OF K(1), of s]
    show ?thesis using heap_sim_tree_ok [OF sim _ tk, of "root_of s k"] heap_sim_tree_entries [OF sim _ tk, of "root_of s k"] live le r k(2)
      by (simp add: snapshot_tree_def contents_def)
  qed
  then show ?thesis using T K le by (intro exI [of _ "t\<lparr>hist := hs\<rparr>"]) (simp add: get_root_def hs_def hn(1))
qed

section \<open>Starting a snapshot\<close>

definition started :: "'k store \<Rightarrow> nat \<Rightarrow> hnode \<Rightarrow> nat \<Rightarrow> 'k tnode \<Rightarrow> 'k store" where
  \<comment> \<open>the store after the constructor: a copy of the root \<open>t\<close> at a new address, referred to by the history node\<close>
  "started s h hn i t =
     (let u = clone_result s h t (add_refs (leaf_blocks t) (blocks s))
      in u\<lparr>hist := (hist s)(h \<mapsto> hn\<lparr>hn_root := next_node s, hn_root_id := i\<rparr>), refs := (refs u)(next_node s := 1)\<rparr>)"

lemma PersistentTree_started:
  assumes ok: "store_ok c s" and h: "hist s h = Some hn" "hn_status hn = ACTIVE" "hn_root hn = 0" "hn_parent hn = Some p"
    and p: "hist s p = Some pn" "hn_status pn = COMMITTED" and t: "nodes s (hn_root pn) = Some t"
  shows "PersistentTree c s h = Some (Inr (started s h hn (hn_root_id pn) t))"
proof -
  let ?u = "clone_result s h t (add_refs (leaf_blocks t) (blocks s))"
  have live: "live_ancestor s (Some p) = Some (Some p)" using p by (subst live_ancestor.simps) simp
  have "count_list (children t) (next_node s) = 0"
    using store_okD(5) [OF ok t, of "next_node s"] next_free [OF ok] by (auto simp: count_list_0_iff)
  then have r: "refs ?u (next_node s) = 0" by (simp add: clone_result_def)
  have u: "hist ?u = hist s" "nodes ?u (next_node s) \<noteq> None" by (simp_all add: clone_result_def)
  have "set_root ?u h (next_node s) =
      Some (?u\<lparr>hist := (hist s)(h \<mapsto> hn\<lparr>hn_root := next_node s\<rparr>), refs := (refs ?u)(next_node s := 1)\<rparr>)"
    using h u r store_okD(3) [OF ok] by (simp add: set_root_def ref_def Let_def)
  then show ?thesis using h p clone_node_result [OF ok t, of h] live u
    by (simp add: PersistentTree_def started_def Let_def)
qed

lemma uses_upd:
  assumes "finite (dom H)" and "H a = None"
  shows "uses f (H(a \<mapsto> t)) x = uses f H x + count_list (f t) x"
  using uses_remove [of "H(a \<mapsto> t)" a t f x] assms by (simp add: fun_upd_idem)

lemma started_ok:
  assumes ok: "store_ok c s" and bc: "blocks_counted s" and h: "hist s h = Some hn" "hn_root hn = 0" and t: "nodes s a = Some t"
  shows "store_ok c (started s h hn i t)" "blocks_counted (started s h hn i t)"
proof -
  let ?u = "clone_result s h t (add_refs (leaf_blocks t) (blocks s))" and ?f = "next_node s"
  let ?s = "started s h hn i t"
  have u: "store_ok c ?u" by (rule clone_result_ok [OF ok t]) simp
  note D = store_okD [OF u] and D0 = store_okD [OF ok]
  have free: "nodes s ?f = None" by (rule next_free [OF ok])
  have S: "nodes ?s = nodes ?u" "blocks ?s = blocks ?u" "next_node ?s = next_node ?u" "refs ?s = (refs ?u)(?f := 1)"
    "hist ?s = (hist s)(h \<mapsto> hn\<lparr>hn_root := ?f, hn_root_id := i\<rparr>)" by (simp_all add: started_def Let_def)
  have rc: "root_count (hist ?s) x \<le> (if x = ?f then 1 else root_count (hist s) x)" for x
  proof (cases "x = ?f")
    case True
    have "hn_root (the (hist s k)) \<noteq> ?f" if "k \<in> dom (hist s)" for k using D0(10) [of k] that free D0(3) by force
    then have "{k \<in> dom (hist ?s). hn_root (the (hist ?s k)) = ?f} \<subseteq> {h}" unfolding S(5) by auto
    then show ?thesis unfolding root_count_def True using card_mono [of "{h}"] by simp
  next
    case False
    then have sub: "{k \<in> dom (hist ?s). hn_root (the (hist ?s k)) = x} \<subseteq> {k \<in> dom (hist s). hn_root (the (hist s k)) = x}"
      using h(1) by (auto simp: S(5) split: if_splits)
    then show ?thesis unfolding root_count_def using False card_mono [OF _ sub] D0(2) by simp
  qed
  show "store_ok c ?s"
  proof (rule store_okI)
    show "finite (dom (nodes ?s))" "finite (dom (hist ?s))" "0 < next_node ?s" using D(1,3) D0(2) by (simp_all add: S)
    show "0 < b \<and> b < next_node ?s" if "nodes ?s b = Some v" for b v using D(4) that by (simp add: S)
    show "nodes ?s x \<noteq> None" if "nodes ?s b = Some v" "x \<in> set (children v)" for b v x using D(5) [of b v x] that by (simp add: S)
    show "hn_root kn = 0 \<or> nodes ?s (hn_root kn) \<noteq> None" if "hist ?s k = Some kn" for k kn
      using D0(10) [of k kn] that by (auto simp: S clone_result_def split: if_splits)
    show "node_ok c n \<and> node_type n = BRANCH \<and> distinct (children (Branch n))" if "nodes ?s b = Some (Branch n)" for b n
      using D(6) that by (simp add: S)
    show "node_ok c n \<and> node_type n = LEAF" if "nodes ?s b = Some (Leaf n)" for b n using D(7) that by (simp add: S)
    show "blocks ?s (block_ptr (node_data n ! j)) \<noteq> None" if "nodes ?s b = Some (Leaf n)" "j < node_size n" for b n j
      using D(8) [of b n j] that by (simp add: S)
    show "int (slots (nodes ?s) b + root_count (hist ?s) b) \<le> refs ?s b" if b: "nodes ?s b = Some v" for b v
    proof (cases "b = ?f")
      case True
      have "?f \<notin> set (children t)" using D0(5) [OF t, of ?f] free by auto
      then have "slots (nodes ?u) ?f = 0"
        using slots_upd [OF D0(1), of ?f "set_ids h (next_id s) t" ?f] slots_fresh [OF ok free] free
        by (simp add: clone_result_def oslots_def count_list_0_iff)
      then show ?thesis using True rc [of ?f] by (simp add: S)
    next
      case False
      then show ?thesis using D(9) [of b v] b rc [of b] by (simp add: S clone_result_def)
    qed
  qed
  show "blocks_counted ?s" unfolding blocks_counted_def
  proof (intro allI impI)
    fix b r assume r: "blocks ?s b = Some r"
    then obtain q where q: "blocks s b = Some q" "r = q + int (count_list (leaf_blocks t) b)"
      by (auto simp: S clone_result_def add_refs_def)
    have "leaf_blocks (set_ids h (next_id s) t) = leaf_blocks t" by (cases t) simp_all
    then have "block_uses (nodes ?s) b = block_uses (nodes s) b + count_list (leaf_blocks t) b"
      using uses_upd [OF D0(1) free, of leaf_blocks "set_ids h (next_id s) t" b] by (simp add: S clone_result_def block_uses_def uses_def)
    then show "int (block_uses (nodes ?s) b) \<le> r" using bc q by (simp add: blocks_counted_def)
  qed
qed

lemma started_sim:
  assumes ok: "store_ok c s" and t: "nodes s a = Some t"
  shows "heap_sim (\<lambda>x y. nodes s x \<noteq> None \<and> (x = y \<or> x = a \<and> y = next_node s)) (nodes s) (nodes (started s h hn i t))"
    (is "heap_sim ?R _ ?H")
  unfolding heap_sim_def
proof (intro allI impI)
  fix x y u assume R: "?R x y" and u: "nodes s x = Some u"
  have sub: "?R z z" if "z \<in> set (children u)" for z using store_okD(5) [OF ok u that] by auto
  have len: "node_size n \<le> length (node_data n)" if "u = Branch n" for n
    using store_okD(6) [OF ok, of x n] u that by (simp add: node_ok_def node_shape_def)
  have m: "node_match ?R u (set_ids j k u)" for j k using sub len by (intro set_ids_simps(2))
  have self: "node_match ?R u u" using m [of 0 0] by (cases u) simp_all
  have H: "?H = (nodes s)(next_node s \<mapsto> set_ids h (next_id s) t)" by (simp add: started_def clone_result_def Let_def)
  show "\<exists>t'. ?H y = Some t' \<and> node_match ?R u t'"
  proof (cases "y = next_node s")
    case True
    then have "x = a" using R next_free [OF ok] by auto
    then have "?H y = Some (set_ids h (next_id s) u)" using True t u unfolding H by simp
    then show ?thesis using m by blast
  next
    case False
    then have "?H y = Some u" using R u unfolding H by auto
    then show ?thesis using self by blast
  qed
qed

lemma start_snapshot_aux:
  fixes s :: "'k :: {linorder, zero} store"
  assumes ok: "store_ok c s" and bc: "blocks_counted s"
    and h: "hist s h = Some hn" "hn_status hn = ACTIVE" "hn_root hn = 0" "hn_parent hn = Some p"
    and p: "hist s p = Some pn" "hn_status pn = COMMITTED" and d: "snapshot_tree c s p d"
  shows "\<exists>t. PersistentTree c s h = Some (Inr t) \<and> store_ok c t \<and> blocks_counted t \<and> refs t (root_of t h) = 1
    \<and> hist t = (hist s)(h \<mapsto> hn\<lparr>hn_root := root_of t h, hn_root_id := hn_root_id pn\<rparr>)
    \<and> snapshot_tree c t h d \<and> contents t h d = contents s p d
    \<and> (\<forall>k e. k \<noteq> h \<longrightarrow> snapshot_tree c s k e \<longrightarrow> snapshot_tree c t k e \<and> contents t k e = contents s k e)"
proof -
  have rp: "root_of s p = hn_root pn" using p by (simp add: root_of_def)
  have tp: "tree_ok c (nodes s) d (hn_root pn) None None" "d < 8" using d rp by (simp_all add: snapshot_tree_def)
  obtain u where u: "nodes s (hn_root pn) = Some u" using tree_ok_live [OF tp(1)] by blast
  let ?t = "started s h hn (hn_root_id pn) u"
  note sim = started_sim [OF ok u, of h hn "hn_root_id pn"]
  have rh: "root_of ?t h = next_node s" "refs ?t (next_node s) = 1"
    "hist ?t = (hist s)(h \<mapsto> hn\<lparr>hn_root := next_node s, hn_root_id := hn_root_id pn\<rparr>)"
    by (simp_all add: started_def root_of_def Let_def)
  have new: "snapshot_tree c ?t h d \<and> contents ?t h d = contents s p d"
    using heap_sim_tree_ok [OF sim _ tp(1), of "next_node s"] heap_sim_tree_entries [OF sim _ tp(1), of "next_node s"] u tp(2) rh(1) rp
    by (simp add: snapshot_tree_def contents_def) (simp add: started_def Let_def)
  have old: "snapshot_tree c ?t k e \<and> contents ?t k e = contents s k e" if k: "k \<noteq> h" "snapshot_tree c s k e" for k e
  proof -
    have tk: "tree_ok c (nodes s) e (root_of s k) None None" "e < 8" "hist s k \<noteq> None" using k(2) by (simp_all add: snapshot_tree_def)
    have "root_of ?t k = root_of s k" "hist ?t k = hist s k" using k(1) by (simp_all add: started_def root_of_def Let_def)
    then show ?thesis
      using heap_sim_tree_ok [OF sim _ tk(1), of "root_of s k"] heap_sim_tree_entries [OF sim _ tk(1), of "root_of s k"] tree_ok_live [OF tk(1)] tk(2,3)
      by (simp add: snapshot_tree_def contents_def)
  qed
  show ?thesis using PersistentTree_started [OF ok h p u] started_ok [OF ok bc h(1,3) u] rh new old by (intro exI [of _ ?t]) simp
qed

section \<open>Properties\<close>

lemma store_ok_new_hist:
  \<comment> \<open>a new history node without a tree\<close>
  assumes ok: "store_ok c s" and h: "hist s h = None" "hn_root hn = 0"
  shows "store_ok c (s\<lparr>hist := (hist s)(h \<mapsto> hn)\<rparr>)"
proof -
  let ?s = "s\<lparr>hist := (hist s)(h \<mapsto> hn)\<rparr>"
  note D = store_okD [OF ok]
  have rc: "root_count (hist ?s) x = root_count (hist s) x" if "0 < x" for x
  proof -
    have "{k \<in> dom (hist ?s). hn_root (the (hist ?s k)) = x} = {k \<in> dom (hist s). hn_root (the (hist s k)) = x}"
      using h that by auto
    then show ?thesis unfolding root_count_def by simp
  qed
  show ?thesis
  proof (rule store_okI)
    show "hn_root kn = 0 \<or> nodes ?s (hn_root kn) \<noteq> None" if "hist ?s k = Some kn" for k kn
      using D(10) [of k kn] h(2) that by (auto split: if_splits)
    show "int (slots (nodes ?s) a + root_count (hist ?s) a) \<le> refs ?s a" if "nodes ?s a = Some t" for a t
      using D(4,9) [of a t] rc [of a] that by simp
  qed (use D(1-8) in \<open>auto dest: D(5)\<close>)
qed

text \<open>
  C3: Deleting the data of a snapshot touches no other snapshot. With the reference counts of nodes and blocks in order and
  a depth bound above the height of the tree, \<open>delete_snapshot\<close> succeeds, never drives a count below zero, leaves the
  counts in order, only removes nodes, and every other snapshot finds for every key what it found before.
\<close>

theorem delete_snapshot_isolated:
  fixes s :: "'k :: {linorder, zero} store"
  assumes "store_ok c s" and "blocks_counted s" and "snapshot_tree c s h d" and "d < e"
  shows "\<exists>t. delete_snapshot e s h = Some t \<and> store_ok c t \<and> blocks_counted t \<and> get_root t h = Some 0 \<and> nodes t \<subseteq>\<^sub>m nodes s
    \<and> (\<forall>k f key. k \<noteq> h \<and> snapshot_tree c s k f \<longrightarrow> snapshot_tree c t k f \<and> ptree_find c t k key = ptree_find c s k key)"
  using delete_snapshot_aux [OF assms] ptree_find_contents by (metis (no_types, lifting))

lemma demo_blocks: "blocks_counted demo_store"
proof -
  have "dom (nodes demo_store) = {1, 2, 3, 4}" by (auto simp: demo_store_def)
  moreover have "leaf_blocks (Leaf (demo_leaf k)) = [1, 1]" for k
    using leaf_blocks_nth [OF demo_leaf(1) [of k]] demo_leaf(2) [of k] demo_leaf(5) [of _ k] by (simp add: upt_rec)
  ultimately have "block_uses (nodes demo_store) b = (if b = 1 then 4 else 0)" for b
    by (simp add: block_uses_def demo_nodes del: leaf_blocks.simps(2))
  then show ?thesis by (auto simp: blocks_counted_def demo_store_def)
qed

theorem delete_snapshot_isolated_witness:
  "\<exists>t. delete_snapshot 2 demo_store 2 = Some t \<and> ptree_find small_cfg t 1 30 = ptree_find small_cfg demo_store 1 30"
  using delete_snapshot_isolated [OF demo_store_ok demo_blocks demo_snapshots(2), of 2] demo_snapshots(1) by auto

text \<open>
  C7: A new snapshot is a copy of its parent. The constructor of \<open>PersistentTree\<close> for an active history node without
  a tree, whose parent is committed, succeeds and leaves the counts in order; the snapshot finds for every key what its
  parent finds, it is the only owner of its root, and nothing changes for the other snapshots.
\<close>

theorem new_snapshot_copies_parent:
  fixes s :: "'k :: {linorder, zero} store"
  assumes "store_ok c s" and "blocks_counted s"
    and "hist s h = Some hn" and "hn_status hn = ACTIVE" and "hn_root hn = 0" and "hn_parent hn = Some p"
    and "hist s p = Some pn" and "hn_status pn = COMMITTED" and "snapshot_tree c s p d"
  shows "\<exists>t. PersistentTree c s h = Some (Inr t) \<and> store_ok c t \<and> blocks_counted t \<and> snapshot_tree c t h d
    \<and> refs t (root_of t h) = 1 \<and> (\<forall>key. ptree_find c t h key = ptree_find c s p key)
    \<and> (\<forall>k f key. k \<noteq> h \<and> snapshot_tree c s k f \<longrightarrow> snapshot_tree c t k f \<and> ptree_find c t k key = ptree_find c s k key)"
  using start_snapshot_aux [OF assms] assms(9) ptree_find_contents by (metis (no_types, lifting))

definition demo_branch :: "nat store" where
  "demo_branch = demo_store\<lparr>hist := (hist demo_store)(3 \<mapsto> \<lparr>hn_parent = Some 1, hn_root = 0, hn_root_id = 0, hn_status = ACTIVE\<rparr>)\<rparr>"

lemma demo_branch_ok:
  "store_ok small_cfg demo_branch" "blocks_counted demo_branch" "snapshot_tree small_cfg demo_branch 1 1" "snapshot_tree small_cfg demo_branch 2 1"
proof -
  show "store_ok small_cfg demo_branch" unfolding demo_branch_def
    by (rule store_ok_new_hist [OF demo_store_ok]) (simp_all add: demo_store_def)
  show "blocks_counted demo_branch" using demo_blocks by (simp add: blocks_counted_def demo_branch_def)
  show "snapshot_tree small_cfg demo_branch 1 1" "snapshot_tree small_cfg demo_branch 2 1"
    using demo_snapshots by (simp_all add: snapshot_tree_def root_of_def demo_branch_def)
qed

theorem new_snapshot_copies_parent_witness:
  "\<exists>t. PersistentTree small_cfg demo_branch 3 = Some (Inr t) \<and> ptree_find small_cfg t 3 30 = ptree_find small_cfg demo_branch 1 30"
  using new_snapshot_copies_parent [OF demo_branch_ok(1,2), of 3 "\<lparr>hn_parent = Some 1, hn_root = 0, hn_root_id = 0, hn_status = ACTIVE\<rparr>" 1
      "\<lparr>hn_parent = None, hn_root = 3, hn_root_id = 0, hn_status = COMMITTED\<rparr>" 1] demo_branch_ok(3)
  by (auto simp: demo_branch_def demo_store_def)

section \<open>Snapshots as an interface\<close>

text \<open>
  What the store promises about the beginning and the end of a snapshot. A client that starts a snapshot and deletes it
  again sees no difference.
\<close>

locale snapshot_interface =
  fixes ok :: "'s \<Rightarrow> bool" and has :: "'s \<Rightarrow> nat \<Rightarrow> bool" and lookup :: "'s \<Rightarrow> nat \<Rightarrow> 'k \<Rightarrow> 'v"
    and startable :: "'s \<Rightarrow> nat \<Rightarrow> nat \<Rightarrow> bool" and start :: "'s \<Rightarrow> nat \<Rightarrow> 's option" and remove :: "'s \<Rightarrow> nat \<Rightarrow> 's option"
  assumes start_law: "ok s \<Longrightarrow> startable s h p \<Longrightarrow> \<exists>t. start s h = Some t \<and> ok t \<and> has t h \<and> lookup t h = lookup s p
      \<and> (\<forall>k. k \<noteq> h \<and> has s k \<longrightarrow> has t k \<and> lookup t k = lookup s k)"
    and remove_law: "ok s \<Longrightarrow> has s h \<Longrightarrow> \<exists>t. remove s h = Some t \<and> ok t
      \<and> (\<forall>k. k \<noteq> h \<and> has s k \<longrightarrow> has t k \<and> lookup t k = lookup s k)"
begin

lemma start_remove:
  assumes "ok s" and "startable s h p"
  shows "\<exists>t u. start s h = Some t \<and> lookup t h = lookup s p \<and> remove t h = Some u \<and> ok u
    \<and> (\<forall>k. k \<noteq> h \<and> has s k \<longrightarrow> has u k \<and> lookup u k = lookup s k)"
proof -
  obtain t where t: "start s h = Some t" "ok t" "has t h" "lookup t h = lookup s p"
    "\<And>k. k \<noteq> h \<and> has s k \<Longrightarrow> has t k \<and> lookup t k = lookup s k" using start_law [OF assms] by blast
  obtain u where "remove t h = Some u" "ok u" "\<And>k. k \<noteq> h \<and> has t k \<Longrightarrow> has u k \<and> lookup u k = lookup t k"
    using remove_law [OF t(2,3)] by blast
  then show ?thesis using t by (intro exI [of _ t] exI [of _ u]) simp
qed

text \<open>Removing snapshots one after the other: all of them succeed, and the others are as before.\<close>

lemma remove_all:
  assumes "ok s" and "distinct hs" and "\<forall>h \<in> set hs. has s h"
  shows "\<exists>t. foldM remove s hs = Some t \<and> ok t \<and> (\<forall>k. k \<notin> set hs \<and> has s k \<longrightarrow> has t k \<and> lookup t k = lookup s k)"
  using assms
proof (induction hs arbitrary: s)
  case (Cons h hs)
  obtain t where t: "remove s h = Some t" "ok t" "\<And>k. k \<noteq> h \<and> has s k \<Longrightarrow> has t k \<and> lookup t k = lookup s k"
    using remove_law [of s h] Cons.prems by auto
  have "\<forall>k \<in> set hs. has t k" using t(3) Cons.prems(2,3) by (metis distinct.simps(2) list.set_intros(2))
  from Cons.IH [OF t(2) _ this] Cons.prems(2)
  obtain u where "foldM remove t hs = Some u" "ok u" "\<And>k. k \<notin> set hs \<and> has t k \<Longrightarrow> has u k \<and> lookup u k = lookup t k" by auto
  then show ?case using t by (intro exI [of _ u]) simp
qed simp

end

definition counts_ok :: "node_cfg \<Rightarrow> 'k :: linorder store \<Rightarrow> bool" where
  "counts_ok c s \<longleftrightarrow> store_ok c s \<and> blocks_counted s"

definition has_tree :: "node_cfg \<Rightarrow> 'k :: linorder store \<Rightarrow> nat \<Rightarrow> bool" where
  "has_tree c s h \<longleftrightarrow> (\<exists>d. snapshot_tree c s h d)"

definition startable :: "node_cfg \<Rightarrow> 'k :: linorder store \<Rightarrow> nat \<Rightarrow> nat \<Rightarrow> bool" where
  "startable c s h p \<longleftrightarrow> (\<exists>hn pn. hist s h = Some hn \<and> hn_status hn = ACTIVE \<and> hn_root hn = 0 \<and> hn_parent hn = Some p
     \<and> hist s p = Some pn \<and> hn_status pn = COMMITTED \<and> has_tree c s p)"

definition start_snapshot :: "node_cfg \<Rightarrow> 'k :: {linorder, zero} store \<Rightarrow> nat \<Rightarrow> 'k store option" where
  "start_snapshot c s h = (case PersistentTree c s h of Some (Inr t) \<Rightarrow> Some t | _ \<Rightarrow> None)"

lemma same_finds:
  fixes s t :: "'k :: {linorder, zero} store"
  assumes "snapshot_tree c s h d" "snapshot_tree c t k d" "contents t k d = contents s h d"
  shows "ptree_find c t k = ptree_find c s h"
  using ptree_find_contents [OF assms(1)] ptree_find_contents [OF assms(2)] assms(3) by (intro ext) simp

lemma kept_tree:
  fixes s t :: "'k :: {linorder, zero} store"
  assumes "has_tree c s k" "\<And>e. snapshot_tree c s k e \<Longrightarrow> snapshot_tree c t k e \<and> contents t k e = contents s k e"
  shows "has_tree c t k \<and> ptree_find c t k = ptree_find c s k"
proof -
  obtain d where "snapshot_tree c s k d" using assms(1) by (auto simp: has_tree_def)
  then show ?thesis using same_finds [of c s k d t k] assms(2) [of d] by (auto simp: has_tree_def)
qed

interpretation trees: snapshot_interface "counts_ok c" "has_tree c" "ptree_find c" "startable c" "start_snapshot c" "delete_snapshot 8"
  for c :: node_cfg
proof
  fix s :: "'k :: {linorder, zero} store" and h p
  assume ok: "counts_ok c s" and "startable c s h p"
  then obtain hn pn d where h: "hist s h = Some hn" "hn_status hn = ACTIVE" "hn_root hn = 0" "hn_parent hn = Some p"
    and p: "hist s p = Some pn" "hn_status pn = COMMITTED" and d: "snapshot_tree c s p d" by (auto simp: startable_def has_tree_def)
  from start_snapshot_aux [OF ok [unfolded counts_ok_def, THEN conjunct1] ok [unfolded counts_ok_def, THEN conjunct2] h p d]
  obtain t where t: "PersistentTree c s h = Some (Inr t)" "counts_ok c t" "snapshot_tree c t h d" "contents t h d = contents s p d"
    "\<And>k e. k \<noteq> h \<Longrightarrow> snapshot_tree c s k e \<Longrightarrow> snapshot_tree c t k e \<and> contents t k e = contents s k e"
    by (auto simp: counts_ok_def)
  have "has_tree c t k \<and> ptree_find c t k = ptree_find c s k" if "k \<noteq> h \<and> has_tree c s k" for k
    using that by (intro kept_tree t(5)) auto
  then show "\<exists>t. start_snapshot c s h = Some t \<and> counts_ok c t \<and> has_tree c t h \<and> ptree_find c t h = ptree_find c s p
      \<and> (\<forall>k. k \<noteq> h \<and> has_tree c s k \<longrightarrow> has_tree c t k \<and> ptree_find c t k = ptree_find c s k)"
    using t(1-4) same_finds [OF d t(3,4)] by (intro exI [of _ t]) (auto simp: start_snapshot_def has_tree_def)
next
  fix s :: "'k :: {linorder, zero} store" and h
  assume ok: "counts_ok c s" and "has_tree c s h"
  then obtain d where d: "snapshot_tree c s h d" "d < 8" by (auto simp: has_tree_def snapshot_tree_def)
  from delete_snapshot_aux [OF ok [unfolded counts_ok_def, THEN conjunct1] ok [unfolded counts_ok_def, THEN conjunct2] d]
  obtain t where t: "delete_snapshot 8 s h = Some t" "counts_ok c t"
    "\<And>k e. k \<noteq> h \<Longrightarrow> snapshot_tree c s k e \<Longrightarrow> snapshot_tree c t k e \<and> contents t k e = contents s k e"
    by (auto simp: counts_ok_def)
  have "has_tree c t k \<and> ptree_find c t k = ptree_find c s k" if "k \<noteq> h \<and> has_tree c s k" for k
    using that by (intro kept_tree t(3)) auto
  then show "\<exists>t. delete_snapshot 8 s h = Some t \<and> counts_ok c t
      \<and> (\<forall>k. k \<noteq> h \<and> has_tree c s k \<longrightarrow> has_tree c t k \<and> ptree_find c t k = ptree_find c s k)"
    using t(1,2) by blast
qed



end
