(* ===== verification/FQTree.thy ===== *)
theory FQTree
  imports Prelude "HOL-Library.Monad_Syntax"
begin

text \<open>
  The packed sum tree of fixed-size elements, \<open>PkdFQTreeBaseBase\<close> and \<open>PkdFQTreeBase\<close>
  (src/include/memoria/core/packed/tree/fse/packed_fse_quick_tree_base_base.hpp and
  packed_fse_quick_tree_base.hpp): an array of values with a multi-level index of partial sums
  stored level by level in one array, the root level first.

  The template parameters are the record \<open>fq_params\<close>; the branching factors are powers of two
  (the code shifts by \<open>Log2(B) - 1\<close> and masks with \<open>B - 1\<close>), so the record keeps the exponents.
  Positions are \<open>int32_t\<close> in the code and \<open>int\<close> here, since \<open>-1\<close> is a position the backward walk
  returns. The element type is a type variable: sums need a commutative monoid (wrap-around words
  included), searches a linear order that addition respects. Every array read goes through \<open>rd\<close>,
  which is \<open>None\<close> outside of the array, so a result \<open>Some r\<close> says that the code stayed in bounds.
\<close>

unbundle bit_operations_syntax

section \<open>Cells\<close>

definition rd :: "'a list \<Rightarrow> int \<Rightarrow> 'a option" where
  "rd xs i = (if 0 \<le> i \<and> i < int (length xs) then Some (xs ! nat i) else None)"

definition wr :: "'a list \<Rightarrow> int \<Rightarrow> 'a \<Rightarrow> 'a list option" where
  "wr xs i v = (if 0 \<le> i \<and> i < int (length xs) then Some (xs[nat i := v]) else None)"

text \<open>The loop \<open>for (c = start; c < end; c++) sum += cells[c]\<close>.\<close>

function sum_cells :: "'v::comm_monoid_add list \<Rightarrow> int \<Rightarrow> int \<Rightarrow> 'v \<Rightarrow> 'v option" where
  "sum_cells xs c e s =
    (if c < e then rd xs c \<bind> (\<lambda>v. sum_cells xs (c + 1) e (s + v)) else Some s)"
  by pat_completeness auto
termination by (relation "measure (\<lambda>(xs, c, e, s). nat (e - c))") auto

declare sum_cells.simps [simp del]

section \<open>Template parameters and the layout of the index\<close>

record fq_params =
  BranchingFactorLog2 :: nat
  ValuesPerBranchLog2 :: nat

definition BranchingFactorMask :: "fq_params \<Rightarrow> int" where
  "BranchingFactorMask p = 2 ^ BranchingFactorLog2 p - 1"

definition ValuesPerBranch :: "fq_params \<Rightarrow> int" where
  "ValuesPerBranch p = 2 ^ ValuesPerBranchLog2 p"

definition ValuesPerBranchMask :: "fq_params \<Rightarrow> int" where
  "ValuesPerBranchMask p = ValuesPerBranch p - 1"

record TreeLayout =
  level_starts :: "int list"
  level_sizes :: "int list"
  levels_max :: int
  index_size :: int

text \<open>The arrays of a layout have eight cells; a fresh layout on the stack holds no information.\<close>

definition fresh_layout :: TreeLayout where
  "fresh_layout = \<lparr>level_starts = replicate 8 0, level_sizes = replicate 8 0, levels_max = 0, index_size = 0\<rparr>"

definition divUpV :: "fq_params \<Rightarrow> int \<Rightarrow> int" where
  "divUpV p value = drop_bit (ValuesPerBranchLog2 p) value
     + (if value AND ValuesPerBranchMask p \<noteq> 0 then 1 else 0)"

definition divUpI :: "fq_params \<Rightarrow> int \<Rightarrow> int" where
  "divUpI p value = drop_bit (BranchingFactorLog2 p) value
     + (if value AND BranchingFactorMask p \<noteq> 0 then 1 else 0)"

text \<open>The loop that sizes the levels from the leaves up: writing past the eighth cell is undefined.\<close>

function size_levels :: "fq_params \<Rightarrow> int list \<Rightarrow> nat \<Rightarrow> (int list \<times> nat) option" where
  "size_levels p sizes level =
    (if level < length sizes then
       (let s = divUpI p (sizes ! (level - 1)); sizes' = sizes[level := s]
        in if s > 1 then size_levels p sizes' (level + 1) else Some (sizes', level))
     else None)"
  by pat_completeness auto
termination by (relation "measure (\<lambda>(p, sizes, level). length sizes - level)") auto

declare size_levels.simps [simp del]

function swap_levels :: "int list \<Rightarrow> nat \<Rightarrow> nat \<Rightarrow> int list" where
  "swap_levels sizes level c =
    (if c < level div 2 then
       swap_levels (sizes[c := sizes ! (level - c - 1), level - c - 1 := sizes ! c]) level (c + 1)
     else sizes)"
  by pat_completeness auto
termination by (relation "measure (\<lambda>(sizes, level, c). level - c)") auto

declare swap_levels.simps [simp del]

function start_levels :: "int list \<Rightarrow> nat \<Rightarrow> nat \<Rightarrow> int list \<Rightarrow> int \<Rightarrow> int list \<times> int" where
  "start_levels sizes level c starts level_start =
    (if c < level then start_levels sizes level (c + 1) (starts[c := level_start]) (level_start + sizes ! c)
     else (starts, level_start))"
  by pat_completeness auto
termination by (relation "measure (\<lambda>(sizes, level, c, starts, level_start). level - c)") auto

declare start_levels.simps [simp del]

definition compute_tree_layout :: "fq_params \<Rightarrow> int \<Rightarrow> TreeLayout \<Rightarrow> (int \<times> TreeLayout) option" where
  "compute_tree_layout p sz layout =
    (if sz \<le> ValuesPerBranch p then Some (0, layout\<lparr>levels_max := -1, index_size := 0\<rparr>)
     else do {
       (sizes, last) \<leftarrow> size_levels p ((level_sizes layout)[0 := divUpV p sz]) 1;
       let level = last + 1;
       let sizes = swap_levels sizes level 0;
       let (starts, level_start) = start_levels sizes level 0 (level_starts layout) 0;
       Some (int level, layout\<lparr>level_sizes := sizes, level_starts := starts,
                               index_size := level_start, levels_max := int level - 1\<rparr>)
     })"

definition index_size_for :: "fq_params \<Rightarrow> int \<Rightarrow> int option" where
  "index_size_for p capacity = map_option (index_size \<circ> snd) (compute_tree_layout p capacity fresh_layout)"

section \<open>Walkers\<close>

text \<open>What a search asks of the walker it is given: \<open>compare\<close>, \<open>next\<close> and \<open>idx\<close>.\<close>

record ('w, 'v) walker =
  compare_op :: "'w \<Rightarrow> 'v \<Rightarrow> bool \<times> 'w"
  next_op :: "'w \<Rightarrow> 'w"
  idx_op :: "'w \<Rightarrow> int \<Rightarrow> 'w"

text \<open>
  The loops over cells that every search is made of: \<open>Some (Some c, w)\<close> when the walker stopped at
  cell \<open>c\<close>, \<open>Some (None, w)\<close> when the loop ran to its end.
\<close>

function walk_cells :: "('w, 'v) walker \<Rightarrow> 'v list \<Rightarrow> int \<Rightarrow> int \<Rightarrow> 'w \<Rightarrow> (int option \<times> 'w) option" where
  "walk_cells ops xs c e w =
    (if c < e then
       rd xs c \<bind> (\<lambda>v. case compare_op ops w v of (stop, w') \<Rightarrow>
         if stop then Some (Some c, w') else walk_cells ops xs (c + 1) e (next_op ops w'))
     else Some (None, w))"
  by pat_completeness auto
termination by (relation "measure (\<lambda>(ops, xs, c, e, w). nat (e - c))") auto

declare walk_cells.simps [simp del]

function walk_cells_bw :: "('w, 'v) walker \<Rightarrow> 'v list \<Rightarrow> int \<Rightarrow> int \<Rightarrow> 'w \<Rightarrow> (int option \<times> 'w) option" where
  "walk_cells_bw ops xs c e w =
    (if c > e then
       rd xs c \<bind> (\<lambda>v. case compare_op ops w v of (stop, w') \<Rightarrow>
         if stop then Some (Some c, w') else walk_cells_bw ops xs (c - 1) e (next_op ops w'))
     else Some (None, w))"
  by pat_completeness auto
termination by (relation "measure (\<lambda>(ops, xs, c, e, w). nat (c - e))") auto

declare walk_cells_bw.simps [simp del]

record 'v find_walker =
  w_sum :: 'v
  w_target :: 'v
  w_next :: 'v
  w_idx :: int

definition new_walker :: "'v::zero \<Rightarrow> 'v find_walker" where
  "new_walker target = \<lparr>w_sum = 0, w_target = target, w_next = 0, w_idx = 0\<rparr>"

definition FindGE_compare :: "'v::{plus, ord} find_walker \<Rightarrow> 'v \<Rightarrow> bool \<times> 'v find_walker" where
  "FindGE_compare w value = (let w = w\<lparr>w_next := value\<rparr> in (w_sum w + w_next w \<ge> w_target w, w))"

definition FindGT_compare :: "'v::{plus, ord} find_walker \<Rightarrow> 'v \<Rightarrow> bool \<times> 'v find_walker" where
  "FindGT_compare w value = (let w = w\<lparr>w_next := value\<rparr> in (w_sum w + w_next w > w_target w, w))"

definition Find_next :: "'v::plus find_walker \<Rightarrow> 'v find_walker" where
  "Find_next w = w\<lparr>w_sum := w_sum w + w_next w\<rparr>"

definition Find_idx :: "'v find_walker \<Rightarrow> int \<Rightarrow> 'v find_walker" where
  "Find_idx w value = w\<lparr>w_idx := value\<rparr>"

definition FindGEWalker :: "('v::{plus, ord} find_walker, 'v) walker" where
  "FindGEWalker = \<lparr>compare_op = FindGE_compare, next_op = Find_next, idx_op = Find_idx\<rparr>"

definition FindGTWalker :: "('v::{plus, ord} find_walker, 'v) walker" where
  "FindGTWalker = \<lparr>compare_op = FindGT_compare, next_op = Find_next, idx_op = Find_idx\<rparr>"

section \<open>Operations on the index\<close>

function sum_index :: "fq_params \<Rightarrow> TreeLayout \<Rightarrow> 'v::comm_monoid_add list \<Rightarrow> 'v \<Rightarrow> int \<Rightarrow> int \<Rightarrow> int \<Rightarrow> 'v option" where
  "sum_index p layout indexes s start end level =
    (case rd (level_starts layout) level of
       None \<Rightarrow> None
     | Some level_start \<Rightarrow>
       let branch_end = (start OR BranchingFactorMask p) + 1;
           branch_start = end AND NOT (BranchingFactorMask p)
       in if end \<le> branch_end \<or> branch_start = branch_end then
            sum_cells indexes (start + level_start) (end + level_start) s
          else do {
            s \<leftarrow> sum_cells indexes (start + level_start) (branch_end + level_start) s;
            s \<leftarrow> sum_index p layout indexes s (drop_bit (BranchingFactorLog2 p) branch_end)
                   (drop_bit (BranchingFactorLog2 p) branch_start) (level - 1);
            sum_cells indexes (branch_start + level_start) (end + level_start) s
          })"
  by pat_completeness auto
termination
  by (relation "measure (\<lambda>(p, layout, indexes, s, start, end, level). nat (level + 1))")
     (auto simp: rd_def split: if_splits)

declare sum_index.simps [simp del]

partial_function (option) walk_index_fw ::
  "fq_params \<Rightarrow> ('w, 'v) walker \<Rightarrow> TreeLayout \<Rightarrow> 'v list \<Rightarrow> int \<Rightarrow> int \<Rightarrow> 'w \<Rightarrow> (int \<times> 'w) option" where
  "walk_index_fw p ops data indexes start level walker =
    do {
      level_start \<leftarrow> rd (level_starts data) level;
      level_size \<leftarrow> rd (level_sizes data) level;
      let branch_end = (start OR BranchingFactorMask p) + 1;
      let branch_limit = (if branch_end > level_size then level_size else branch_end);
      (r, walker) \<leftarrow> walk_cells ops indexes (level_start + start) (branch_limit + level_start) walker;
      (case r of
         Some c \<Rightarrow>
           if level < levels_max data then
             walk_index_fw p ops data indexes
               (push_bit (BranchingFactorLog2 p) (c - level_start)) (level + 1) walker
           else Some (c - level_start, walker)
       | None \<Rightarrow>
           if level > 0 then
             walk_index_fw p ops data indexes
               (drop_bit (BranchingFactorLog2 p) branch_end) (level - 1) walker
           else Some (-1, walker))
    }"

partial_function (option) walk_index_bw ::
  "fq_params \<Rightarrow> ('w, 'v) walker \<Rightarrow> TreeLayout \<Rightarrow> 'v list \<Rightarrow> int \<Rightarrow> int \<Rightarrow> 'w \<Rightarrow> (int \<times> 'w) option" where
  "walk_index_bw p ops data indexes start level walker =
    do {
      level_start \<leftarrow> rd (level_starts data) level;
      level_size \<leftarrow> rd (level_sizes data) level;
      if start \<ge> 0 then do {
        let branch_end = (start AND NOT (BranchingFactorMask p)) - 1;
        let start = (if start \<ge> level_size then level_size - 1 else start);
        (r, walker) \<leftarrow> walk_cells_bw ops indexes (level_start + start) (branch_end + level_start) walker;
        (case r of
           Some c \<Rightarrow>
             if level < levels_max data then
               walk_index_bw p ops data indexes
                 (push_bit (BranchingFactorLog2 p) (c - level_start + 1) - 1) (level + 1) walker
             else Some (c - level_start, walker)
         | None \<Rightarrow>
             if level > 0 then
               walk_index_bw p ops data indexes
                 (drop_bit (BranchingFactorLog2 p) branch_end) (level - 1) walker
             else Some (-1, walker))
      } else Some (-1, walker)
    }"

declare walk_index_fw.simps [code] and walk_index_bw.simps [code]

text \<open>The loop of \<open>find_index\<close> over the levels, \<open>goto next_level\<close> being the recursive call.\<close>

function find_index_from ::
  "fq_params \<Rightarrow> ('w, 'v) walker \<Rightarrow> TreeLayout \<Rightarrow> 'v list \<Rightarrow> int \<Rightarrow> int \<Rightarrow> 'w \<Rightarrow> (int \<times> 'w) option" where
  "find_index_from p ops data indexes branch_start level walker =
    (if level \<le> levels_max data then
       do {
         level_start \<leftarrow> rd (level_starts data) level;
         level_size \<leftarrow> rd (level_sizes data) level;
         (r, walker) \<leftarrow> walk_cells ops indexes (level_start + branch_start) (level_start + level_size) walker;
         (case r of
            Some c \<Rightarrow>
              if level < levels_max data then
                find_index_from p ops data indexes
                  (push_bit (BranchingFactorLog2 p) (c - level_start)) (level + 1) walker
              else Some (c - level_start, walker)
          | None \<Rightarrow> Some (-1, walker))
       }
     else Some (-1, walker))"
  by pat_completeness auto
termination
  by (relation "measure (\<lambda>(p, ops, data, indexes, b, level, w). nat (levels_max data + 1 - level))") auto

declare find_index_from.simps [simp del]


definition find_index ::
  "fq_params \<Rightarrow> ('w, 'v) walker \<Rightarrow> TreeLayout \<Rightarrow> 'v list \<Rightarrow> 'w \<Rightarrow> (int \<times> 'w) option" where
  "find_index p ops data indexes walker = find_index_from p ops data indexes 0 1 walker"

section \<open>The tree\<close>

text \<open>
  The allocator segments of the tree: the metadata and, per block, the index array and the value
  array (segments \<open>2 * block + 1\<close> and \<open>2 * block + 2\<close>). \<open>element_size(2 * block + 1) == 0\<close> says that the
  index array is empty. Values are kept as the index type they are converted to when they are summed.
\<close>

record 'v fqtree =
  fq_size :: int
  fq_index_size :: int
  fq_max_size :: int
  fq_index :: "'v list list"
  fq_values :: "'v list list"

definition capacity_fq :: "'v fqtree \<Rightarrow> int" where
  "capacity_fq meta = fq_max_size meta - fq_size meta"

definition index_of :: "'v fqtree \<Rightarrow> int \<Rightarrow> 'v list option" where
  "index_of t block = rd (fq_index t) block"

definition values_of :: "'v fqtree \<Rightarrow> int \<Rightarrow> 'v list option" where
  "values_of t block = rd (fq_values t) block"

definition tree_layout :: "fq_params \<Rightarrow> 'v fqtree \<Rightarrow> (int \<times> TreeLayout) option" where
  "tree_layout p t = compute_tree_layout p (fq_max_size t) fresh_layout"

text \<open>\<open>return walker.idx(c)\<close> where the loop stopped, \<open>return walker.idx(limit)\<close> after it.\<close>

definition stop_at :: "('w, 'v) walker \<Rightarrow> int \<Rightarrow> int option \<times> 'w \<Rightarrow> 'w" where
  "stop_at ops limit r = (case r of (Some c, w) \<Rightarrow> idx_op ops w c | (None, w) \<Rightarrow> idx_op ops w limit)"

definition find_fq :: "fq_params \<Rightarrow> ('w, 'v) walker \<Rightarrow> 'v fqtree \<Rightarrow> int \<Rightarrow> 'w \<Rightarrow> 'w option" where
  "find_fq p ops t block walker =
    do {
      vals \<leftarrow> values_of t block;
      idxs \<leftarrow> index_of t block;
      let sz = fq_size t;
      if length idxs = 0 then map_option (stop_at ops sz) (walk_cells ops vals 0 sz walker)
      else do {
        (_, data) \<leftarrow> tree_layout p t;
        (idx, walker) \<leftarrow> find_index p ops data idxs walker;
        if idx \<ge> 0 then
          map_option (stop_at ops sz)
            (walk_cells ops vals (push_bit (ValuesPerBranchLog2 p) idx) sz walker)
        else Some (idx_op ops walker sz)
      }
    }"

definition walk_fw :: "fq_params \<Rightarrow> ('w, 'v) walker \<Rightarrow> 'v fqtree \<Rightarrow> int \<Rightarrow> int \<Rightarrow> 'w \<Rightarrow> 'w option" where
  "walk_fw p ops t block start walker =
    do {
      vals \<leftarrow> values_of t block;
      let sz = fq_size t;
      if start \<ge> sz - ValuesPerBranch p * 2 then
        map_option (stop_at ops sz) (walk_cells ops vals start sz walker)
      else do {
        let window_end = (start OR ValuesPerBranchMask p) + 1;
        (r, walker) \<leftarrow> walk_cells ops vals start window_end walker;
        (case r of
           Some c \<Rightarrow> Some (idx_op ops walker c)
         | None \<Rightarrow> do {
             (_, data) \<leftarrow> tree_layout p t;
             idxs \<leftarrow> index_of t block;
             (idx, walker) \<leftarrow> walk_index_fw p ops data idxs
               (drop_bit (ValuesPerBranchLog2 p) window_end) (levels_max data) walker;
             if idx \<ge> 0 then
               map_option (stop_at ops sz)
                 (walk_cells ops vals (push_bit (ValuesPerBranchLog2 p) idx) sz walker)
             else Some (idx_op ops walker sz)
           })
      }
    }"

definition walk_bw :: "fq_params \<Rightarrow> ('w, 'v) walker \<Rightarrow> 'v fqtree \<Rightarrow> int \<Rightarrow> int \<Rightarrow> 'w \<Rightarrow> 'w option" where
  "walk_bw p ops t block start walker =
    do {
      vals \<leftarrow> values_of t block;
      if start < ValuesPerBranch p * 2 then
        map_option (stop_at ops (-1)) (walk_cells_bw ops vals start (-1) walker)
      else do {
        let window_end = (start AND NOT (ValuesPerBranchMask p)) - 1;
        (r, walker) \<leftarrow> walk_cells_bw ops vals start window_end walker;
        (case r of
           Some c \<Rightarrow> Some (idx_op ops walker c)
         | None \<Rightarrow> do {
             (_, data) \<leftarrow> tree_layout p t;
             idxs \<leftarrow> index_of t block;
             (idx, walker) \<leftarrow> walk_index_bw p ops data idxs
               (drop_bit (ValuesPerBranchLog2 p) window_end) (levels_max data) walker;
             if idx \<ge> 0 then do {
               let window_start = push_bit (ValuesPerBranchLog2 p) (idx + 1) - 1;
               map_option (stop_at ops (-1)) (walk_cells_bw ops vals window_start (-1) walker)
             } else Some (idx_op ops walker (-1))
           })
      }
    }"

definition find_ge :: "fq_params \<Rightarrow> 'v::{comm_monoid_add, ord} fqtree \<Rightarrow> int \<Rightarrow> 'v \<Rightarrow> 'v find_walker option" where
  "find_ge p t block value = find_fq p FindGEWalker t block (new_walker value)"

definition find_gt :: "fq_params \<Rightarrow> 'v::{comm_monoid_add, ord} fqtree \<Rightarrow> int \<Rightarrow> 'v \<Rightarrow> 'v find_walker option" where
  "find_gt p t block value = find_fq p FindGTWalker t block (new_walker value)"

definition find_ge_fw ::
  "fq_params \<Rightarrow> 'v::{comm_monoid_add, ord} fqtree \<Rightarrow> int \<Rightarrow> int \<Rightarrow> 'v \<Rightarrow> 'v find_walker option" where
  "find_ge_fw p t block start value = walk_fw p FindGEWalker t block start (new_walker value)"

definition find_gt_fw ::
  "fq_params \<Rightarrow> 'v::{comm_monoid_add, ord} fqtree \<Rightarrow> int \<Rightarrow> int \<Rightarrow> 'v \<Rightarrow> 'v find_walker option" where
  "find_gt_fw p t block start value = walk_fw p FindGTWalker t block start (new_walker value)"

definition find_ge_bw ::
  "fq_params \<Rightarrow> 'v::{comm_monoid_add, ord} fqtree \<Rightarrow> int \<Rightarrow> int \<Rightarrow> 'v \<Rightarrow> 'v find_walker option" where
  "find_ge_bw p t block start value = walk_bw p FindGEWalker t block start (new_walker value)"

definition find_gt_bw ::
  "fq_params \<Rightarrow> 'v::{comm_monoid_add, ord} fqtree \<Rightarrow> int \<Rightarrow> int \<Rightarrow> 'v \<Rightarrow> 'v find_walker option" where
  "find_gt_bw p t block start value = walk_bw p FindGTWalker t block start (new_walker value)"

datatype SearchType = LT | LE | GT | GE

definition findGTForward_from ::
  "fq_params \<Rightarrow> 'v::{comm_monoid_add, ord} fqtree \<Rightarrow> int \<Rightarrow> int \<Rightarrow> 'v \<Rightarrow> 'v find_walker option" where
  "findGTForward_from p t block start val = find_gt_fw p t block start val"

definition findGTForward ::
  "fq_params \<Rightarrow> 'v::{comm_monoid_add, ord} fqtree \<Rightarrow> int \<Rightarrow> 'v \<Rightarrow> 'v find_walker option" where
  "findGTForward p t block val = find_gt p t block val"

definition findGTBackward_from ::
  "fq_params \<Rightarrow> 'v::{comm_monoid_add, ord} fqtree \<Rightarrow> int \<Rightarrow> int \<Rightarrow> 'v \<Rightarrow> 'v find_walker option" where
  "findGTBackward_from p t block start val = find_gt_bw p t block start val"

definition findGTBackward ::
  "fq_params \<Rightarrow> 'v::{comm_monoid_add, ord} fqtree \<Rightarrow> int \<Rightarrow> 'v \<Rightarrow> 'v find_walker option" where
  "findGTBackward p t block val = find_gt_bw p t block (fq_size t - 1) val"

definition findGEForward_from ::
  "fq_params \<Rightarrow> 'v::{comm_monoid_add, ord} fqtree \<Rightarrow> int \<Rightarrow> int \<Rightarrow> 'v \<Rightarrow> 'v find_walker option" where
  "findGEForward_from p t block start val = find_ge_fw p t block start val"

definition findGEForward ::
  "fq_params \<Rightarrow> 'v::{comm_monoid_add, ord} fqtree \<Rightarrow> int \<Rightarrow> 'v \<Rightarrow> 'v find_walker option" where
  "findGEForward p t block val = find_ge p t block val"

definition findGEBackward_from ::
  "fq_params \<Rightarrow> 'v::{comm_monoid_add, ord} fqtree \<Rightarrow> int \<Rightarrow> int \<Rightarrow> 'v \<Rightarrow> 'v find_walker option" where
  "findGEBackward_from p t block start val = find_ge_bw p t block start val"

definition findGEBackward ::
  "fq_params \<Rightarrow> 'v::{comm_monoid_add, ord} fqtree \<Rightarrow> int \<Rightarrow> 'v \<Rightarrow> 'v find_walker option" where
  "findGEBackward p t block val = find_ge_bw p t block (fq_size t - 1) val"

text \<open>\<open>FindResult\<close> keeps the prefix and the position of the walker.\<close>

definition FindResult :: "'v find_walker \<Rightarrow> 'v \<times> int" where
  "FindResult fn = (w_sum fn, w_idx fn)"

definition findForward ::
  "SearchType \<Rightarrow> fq_params \<Rightarrow> 'v::{comm_monoid_add, ord} fqtree \<Rightarrow> int \<Rightarrow> 'v \<Rightarrow> ('v \<times> int) option" where
  "findForward search_type p t block val =
    map_option FindResult (if search_type = GT then findGTForward p t block val else findGEForward p t block val)"

definition findForward_from ::
  "SearchType \<Rightarrow> fq_params \<Rightarrow> 'v::{comm_monoid_add, ord} fqtree \<Rightarrow> int \<Rightarrow> int \<Rightarrow> 'v \<Rightarrow> ('v \<times> int) option" where
  "findForward_from search_type p t block start val =
    map_option FindResult
      (if search_type = GT then findGTForward_from p t block start val else findGEForward_from p t block start val)"

definition findBackward_from ::
  "SearchType \<Rightarrow> fq_params \<Rightarrow> 'v::{comm_monoid_add, ord} fqtree \<Rightarrow> int \<Rightarrow> int \<Rightarrow> 'v \<Rightarrow> ('v \<times> int) option" where
  "findBackward_from search_type p t block start val =
    map_option FindResult
      (if search_type = GT then findGTBackward_from p t block start val else findGEBackward_from p t block start val)"

definition findBackward ::
  "SearchType \<Rightarrow> fq_params \<Rightarrow> 'v::{comm_monoid_add, ord} fqtree \<Rightarrow> int \<Rightarrow> 'v \<Rightarrow> ('v \<times> int) option" where
  "findBackward search_type p t block val =
    map_option FindResult
      (if search_type = GT then findGTBackward p t block val
       else findGEBackward p t block val)"

section \<open>Sums\<close>

definition sum_in_layout ::
  "fq_params \<Rightarrow> 'v::comm_monoid_add fqtree \<Rightarrow> TreeLayout \<Rightarrow> int \<Rightarrow> int \<Rightarrow> int \<Rightarrow> 'v option" where
  "sum_in_layout p t layout block start end =
    do {
      let window_end = (start OR ValuesPerBranchMask p) + 1;
      let window_start = end AND NOT (ValuesPerBranchMask p);
      vals \<leftarrow> values_of t block;
      if end \<le> window_end \<or> window_start - window_end \<le> ValuesPerBranch p \<or> levels_max layout = -1 then
        sum_cells vals start end 0
      else do {
        s \<leftarrow> sum_cells vals start window_end 0;
        idxs \<leftarrow> index_of t block;
        s \<leftarrow> sum_index p layout idxs s (drop_bit (ValuesPerBranchLog2 p) window_end)
               (drop_bit (ValuesPerBranchLog2 p) window_start) (levels_max layout);
        sum_cells vals window_start end s
      }
    }"

definition sum_range :: "fq_params \<Rightarrow> 'v::comm_monoid_add fqtree \<Rightarrow> int \<Rightarrow> int \<Rightarrow> int \<Rightarrow> 'v option" where
  "sum_range p t block start end =
    tree_layout p t \<bind> (\<lambda>(_, layout). sum_in_layout p t layout block start end)"

definition sum_prefix :: "fq_params \<Rightarrow> 'v::comm_monoid_add fqtree \<Rightarrow> int \<Rightarrow> int \<Rightarrow> 'v option" where
  "sum_prefix p t block end =
    tree_layout p t \<bind> (\<lambda>(_, layout). sum_in_layout p t layout block 0 end)"

definition sum_block :: "fq_params \<Rightarrow> 'v::comm_monoid_add fqtree \<Rightarrow> int \<Rightarrow> 'v option" where
  "sum_block p t block =
    do {
      idxs \<leftarrow> index_of t block;
      if length idxs = 0 then sum_range p t block 0 (fq_size t) else rd idxs 0
    }"

section \<open>Building the index\<close>

text \<open>The two loops of \<open>reindex_block\<close> that fill a level, and the loop over the levels.\<close>

function fill_leaves ::
  "fq_params \<Rightarrow> 'v::comm_monoid_add list \<Rightarrow> int \<Rightarrow> int \<Rightarrow> int \<Rightarrow> int \<Rightarrow> 'v list \<Rightarrow> 'v list option" where
  "fill_leaves p vals sz level_start level_size i indexes =
    (if i < level_size then
       do {
         let start = push_bit (ValuesPerBranchLog2 p) i;
         let window_end = push_bit (ValuesPerBranchLog2 p) (i + 1);
         let end = (if window_end \<le> sz then window_end else sz);
         s \<leftarrow> sum_cells vals start end 0;
         indexes \<leftarrow> wr indexes (level_start + i) s;
         fill_leaves p vals sz level_start level_size (i + 1) indexes
       }
     else Some indexes)"
  by pat_completeness auto
termination by (relation "measure (\<lambda>(p, v, sz, ls, level_size, i, x). nat (level_size - i))") auto

declare fill_leaves.simps [simp del]

function fill_level ::
  "fq_params \<Rightarrow> int \<Rightarrow> int \<Rightarrow> int \<Rightarrow> int \<Rightarrow> int \<Rightarrow> 'v::comm_monoid_add list \<Rightarrow> 'v list option" where
  "fill_level p previous_level_start previous_level_size current_level_start current_level_size i indexes =
    (if i < previous_level_size then
       do {
         let start = push_bit (BranchingFactorLog2 p) i + current_level_start;
         let window_end = push_bit (BranchingFactorLog2 p) (i + 1);
         let end = (if window_end \<le> current_level_size then window_end else current_level_size) + current_level_start;
         s \<leftarrow> sum_cells indexes start end 0;
         indexes \<leftarrow> wr indexes (previous_level_start + i) s;
         fill_level p previous_level_start previous_level_size current_level_start current_level_size (i + 1) indexes
       }
     else Some indexes)"
  by pat_completeness auto
termination by (relation "measure (\<lambda>(p, ps, previous_size, cs, c, i, x). nat (previous_size - i))") auto

declare fill_level.simps [simp del]

function fill_levels :: "fq_params \<Rightarrow> TreeLayout \<Rightarrow> int \<Rightarrow> 'v::comm_monoid_add list \<Rightarrow> 'v list option" where
  "fill_levels p layout level indexes =
    (if level > 0 then
       do {
         previous_level_start \<leftarrow> rd (level_starts layout) (level - 1);
         previous_level_size \<leftarrow> rd (level_sizes layout) (level - 1);
         current_level_start \<leftarrow> rd (level_starts layout) level;
         current_level_size \<leftarrow> rd (level_sizes layout) level;
         indexes \<leftarrow> fill_level p previous_level_start previous_level_size current_level_start current_level_size 0 indexes;
         fill_levels p layout (level - 1) indexes
       }
     else Some indexes)"
  by pat_completeness auto
termination by (relation "measure (\<lambda>(p, layout, level, x). nat level)") auto

declare fill_levels.simps [simp del]

definition reindex_block :: "fq_params \<Rightarrow> TreeLayout \<Rightarrow> int \<Rightarrow> 'v::comm_monoid_add fqtree \<Rightarrow> 'v fqtree option" where
  "reindex_block p layout block t =
    do {
      vals \<leftarrow> values_of t block;
      indexes \<leftarrow> index_of t block;
      let levels = levels_max layout + 1;
      level_start \<leftarrow> rd (level_starts layout) (levels - 1);
      level_size \<leftarrow> rd (level_sizes layout) (levels - 1);
      indexes \<leftarrow> fill_leaves p vals (fq_size t) level_start level_size 0 indexes;
      indexes \<leftarrow> fill_levels p layout (levels - 1) indexes;
      Some (t\<lparr>fq_index := (fq_index t)[nat block := indexes]\<rparr>)
    }"

function reindex_blocks ::
  "fq_params \<Rightarrow> int \<Rightarrow> TreeLayout \<Rightarrow> int \<Rightarrow> int \<Rightarrow> 'v::comm_monoid_add fqtree \<Rightarrow> 'v fqtree option" where
  "reindex_blocks p levels layout blocks block t =
    (if block < blocks then
       do {
         t \<leftarrow> (if levels > 0 then reindex_block p layout block t else Some t);
         reindex_blocks p levels layout blocks (block + 1) t
       }
     else Some t)"
  by pat_completeness auto
termination by (relation "measure (\<lambda>(p, levels, layout, blocks, block, t). nat (blocks - block))") auto

declare reindex_blocks.simps [simp del]

definition reindex_fq :: "fq_params \<Rightarrow> int \<Rightarrow> 'v::comm_monoid_add fqtree \<Rightarrow> 'v fqtree option" where
  "reindex_fq p blocks t =
    do {
      (levels, layout) \<leftarrow> tree_layout p t;
      let t = t\<lparr>fq_index_size := index_size layout\<rparr>;
      reindex_blocks p levels layout blocks 0 t
    }"

end
