(* ===== verification/FQTree_Index.thy ===== *)
theory FQTree_Index
  imports FQTree
begin

text \<open>
  Laws of the index of the packed sum tree: the layout that \<open>compute_tree_layout\<close> computes, the
  invariant \<open>fq_ok\<close> that \<open>reindex_fq\<close> establishes, and sums through the index.
\<close>

section \<open>Masks and rounded quotients\<close>

lemma and_mask_mod: "v AND (2 ^ k - 1) = v mod 2 ^ k" for v :: int
  by (metis mask_eq_exp_minus_1 take_bit_eq_mask take_bit_eq_mod)

lemma and_not_mask: "v AND NOT (2 ^ k - 1) = v div 2 ^ k * 2 ^ k" for v :: int
proof -
  have "v AND NOT (2 ^ k - 1) = push_bit k (drop_bit k v)"
    by (rule bit_eqI) (auto simp: bit_simps simp flip: mask_eq_exp_minus_1)
  then show ?thesis by (simp add: push_bit_eq_mult drop_bit_eq_div)
qed

lemma or_mask_Suc: "(v OR (2 ^ k - 1)) + 1 = (v div 2 ^ k + 1) * 2 ^ k" for v :: int
proof -
  have "(v OR (2 ^ k - 1)) = (v AND NOT (2 ^ k - 1)) OR (2 ^ k - 1)"
    by (rule bit_eqI) (auto simp: bit_simps simp flip: mask_eq_exp_minus_1)
  also have "\<dots> = (v AND NOT (2 ^ k - 1)) + (2 ^ k - 1)"
    by (rule disjunctive_add [symmetric]) (auto simp: bit_simps simp flip: mask_eq_exp_minus_1)
  finally show ?thesis by (simp add: and_not_mask algebra_simps)
qed

lemma divUp_cdiv:
  "divUpV p v = cdiv v (ValuesPerBranchLog2 p)" "divUpI p v = cdiv v (BranchingFactorLog2 p)"
  by (simp_all add: divUpV_def divUpI_def ValuesPerBranchMask_def ValuesPerBranch_def BranchingFactorMask_def
      and_mask_mod drop_bit_eq_div cdiv_alt [symmetric])


section \<open>The layout of the index\<close>

lemma size_levels_spec:
  assumes "0 < level" "level < length sizes" "length sizes = 8"
    and "\<forall>k < level. sizes ! k = cdiv N (ValuesPerBranchLog2 p + BranchingFactorLog2 p * k)"
    and "N \<le> 2 ^ (ValuesPerBranchLog2 p + BranchingFactorLog2 p * 7)"
  shows "\<exists>sizes' last. size_levels p sizes level = Some (sizes', last) \<and> level \<le> last \<and> last < 8 \<and> length sizes' = 8 \<and>
    (\<forall>k \<le> last. sizes' ! k = cdiv N (ValuesPerBranchLog2 p + BranchingFactorLog2 p * k)) \<and> sizes' ! last \<le> 1 \<and>
    (\<forall>k. level \<le> k \<longrightarrow> k < last \<longrightarrow> 1 < sizes' ! k)"
  using assms
proof (induction p sizes level rule: size_levels.induct)
  case (1 p sizes level)
  define s where "s = divUpI p (sizes ! (level - 1))"
  have "s = cdiv N (ValuesPerBranchLog2 p + BranchingFactorLog2 p * (level - 1) + BranchingFactorLog2 p)"
    using "1.prems"(1,4) by (simp add: s_def divUp_cdiv cdiv_cdiv)
  also have "ValuesPerBranchLog2 p + BranchingFactorLog2 p * (level - 1) + BranchingFactorLog2 p
      = ValuesPerBranchLog2 p + BranchingFactorLog2 p * level"
    using "1.prems"(1) by (cases level) simp_all
  finally have s: "s = cdiv N (ValuesPerBranchLog2 p + BranchingFactorLog2 p * level)" .
  have upd: "\<forall>k < level + 1. sizes[level := s] ! k = cdiv N (ValuesPerBranchLog2 p + BranchingFactorLog2 p * k)"
    using "1.prems"(2,4) s by (auto simp: nth_list_update less_Suc_eq)
  have step: "size_levels p sizes level
      = (if s > 1 then size_levels p (sizes[level := s]) (level + 1) else Some (sizes[level := s], level))"
    using "1.prems"(2) by (subst size_levels.simps) (simp add: s_def Let_def)
  show ?case
  proof (cases "s > 1")
    case True
    have "level \<noteq> 7"
    proof
      assume "level = 7"
      then have "\<not> 1 < s" using "1.prems"(5) unfolding s less_cdiv_iff by simp
      with True show False by simp
    qed
    then have "level + 1 < length (sizes[level := s])" using "1.prems"(2,3) by simp
    from "1.IH" [OF "1.prems"(2) s_def refl True _ this _ upd "1.prems"(5)] "1.prems"(3)
    obtain sizes' last where R: "size_levels p (sizes[level := s]) (level + 1) = Some (sizes', last)"
      "level + 1 \<le> last" "last < 8" "length sizes' = 8" "sizes' ! last \<le> 1"
      "\<forall>k \<le> last. sizes' ! k = cdiv N (ValuesPerBranchLog2 p + BranchingFactorLog2 p * k)"
      "\<forall>k. level + 1 \<le> k \<longrightarrow> k < last \<longrightarrow> 1 < sizes' ! k" by auto
    have "1 < sizes' ! k" if "level \<le> k" "k < last" for k
      using that R(2,6,7) True s by (cases "k = level") auto
    then show ?thesis unfolding step using R True by auto
  next
    case False
    then show ?thesis unfolding step using "1.prems"(2,3) upd by simp
  qed
qed

lemma swap_levels_spec:
  assumes "level \<le> length sizes"
  shows "length (swap_levels sizes level c) = length sizes"
    and "k < level \<Longrightarrow>
      swap_levels sizes level c ! k = (if c \<le> k \<and> k + c < level then sizes ! (level - k - 1) else sizes ! k)"
  using assms
proof (induction sizes level c rule: swap_levels.induct)
  case (1 sizes level c)
  let ?s = "sizes[c := sizes ! (level - c - 1), level - c - 1 := sizes ! c]"
  { case 1 show ?case using "1.IH"(1) 1 by (subst swap_levels.simps) simp }
  { case 2
    show ?case
    proof (cases "c < level div 2")
      case True
      have "swap_levels sizes level c ! k = swap_levels ?s level (c + 1) ! k"
        using True by (subst swap_levels.simps) simp
      also have "\<dots> = (if c + 1 \<le> k \<and> k + (c + 1) < level then ?s ! (level - k - 1) else ?s ! k)"
        using "1.IH"(2) [OF True 2(1)] 2 by simp
      also have "\<dots> = (if c \<le> k \<and> k + c < level then sizes ! (level - k - 1) else sizes ! k)"
        using True 2 by (cases "sizes = []") (auto simp: nth_list_update)
      finally show ?thesis .
    next
      case False
      have "swap_levels sizes level c ! k = sizes ! k" using False by (subst swap_levels.simps) simp
      moreover have "level - k - 1 = k" if "c \<le> k" "k + c < level" using that False by linarith
      ultimately show ?thesis by auto
    qed }
qed

lemma start_levels_spec:
  assumes "level \<le> length starts"
  shows "snd (start_levels sizes level c starts ls) = ls + (\<Sum>j = c..<level. sizes ! j)"
    and "length (fst (start_levels sizes level c starts ls)) = length starts"
    and "k < level \<Longrightarrow>
      fst (start_levels sizes level c starts ls) ! k = (if c \<le> k then ls + (\<Sum>j = c..<k. sizes ! j) else starts ! k)"
  using assms
proof (induction sizes level c starts ls rule: start_levels.induct)
  case (1 sizes level c starts ls)
  { case 1 show ?case using "1.IH"(1) 1
      by (subst start_levels.simps) (simp add: sum.atLeast_Suc_lessThan) }
  { case 2 show ?case using "1.IH"(2) 2 by (subst start_levels.simps) simp }
  { case 3 show ?case using "1.IH"(3) 3
      by (subst start_levels.simps) (auto simp: sum.atLeast_Suc_lessThan nth_list_update Suc_le_eq) }
qed


definition level_shift :: "fq_params \<Rightarrow> TreeLayout \<Rightarrow> int \<Rightarrow> nat" where
  "level_shift p data l = ValuesPerBranchLog2 p + BranchingFactorLog2 p * nat (levels_max data - l)"

definition level_start :: "TreeLayout \<Rightarrow> int \<Rightarrow> int" where
  "level_start data l = (\<Sum>j < nat l. level_sizes data ! j)"

text \<open>
  A layout for \<open>N\<close> values: level \<open>l\<close> has a cell for every \<open>2 ^ level_shift l\<close> values, level 0 has one
  cell, and the levels are stored one after the other.
\<close>

definition layout_for :: "fq_params \<Rightarrow> int \<Rightarrow> TreeLayout \<Rightarrow> bool" where
  "layout_for p N data \<longleftrightarrow> 0 < N \<and> 1 \<le> levels_max data \<and> levels_max data < 8
     \<and> length (level_starts data) = 8 \<and> length (level_sizes data) = 8
     \<and> (\<forall>l \<in> {0..levels_max data}. level_sizes data ! nat l = cdiv N (level_shift p data l)
          \<and> level_starts data ! nat l = level_start data l)
     \<and> cdiv N (level_shift p data 0) = 1
     \<and> (\<forall>l \<in> {1..<levels_max data}. 1 < cdiv N (level_shift p data l))
     \<and> index_size data = level_start data (levels_max data + 1)"

lemma compute_tree_layout_small:
  "sz \<le> ValuesPerBranch p \<Longrightarrow>
    compute_tree_layout p sz layout = Some (0, layout\<lparr>levels_max := -1, index_size := 0\<rparr>)"
  by (simp add: compute_tree_layout_def)

lemma compute_tree_layout_large:
  assumes large: "ValuesPerBranch p < sz"
    and cap: "sz \<le> 2 ^ (ValuesPerBranchLog2 p + BranchingFactorLog2 p * 7)"
  shows "\<exists>data. compute_tree_layout p sz fresh_layout = Some (levels_max data + 1, data) \<and> layout_for p sz data"
proof -
  let ?v = "ValuesPerBranchLog2 p" and ?b = "BranchingFactorLog2 p"
  let ?init = "(replicate 8 0)[0 := divUpV p sz]"
  have "\<forall>k < 1. ?init ! k = cdiv sz (?v + ?b * k)" by (simp add: divUp_cdiv)
  from size_levels_spec [OF _ _ _ this cap] obtain sizes last where
    S: "size_levels p ?init 1 = Some (sizes, last)" "1 \<le> last" "last < 8" "length sizes = 8"
      "\<forall>k \<le> last. sizes ! k = cdiv sz (?v + ?b * k)" "sizes ! last \<le> 1"
      "\<forall>k. 1 \<le> k \<longrightarrow> k < last \<longrightarrow> 1 < sizes ! k"
    by auto
  define sw where "sw = swap_levels sizes (last + 1) 0"
  have len: "length sw = 8" using S(3,4) by (simp add: sw_def swap_levels_spec(1))
  have sw: "sw ! k = cdiv sz (?v + ?b * (last - k))" if "k \<le> last" for k
    using that S by (simp add: sw_def swap_levels_spec(2))
  obtain starts total where st: "start_levels sw (last + 1) 0 (replicate 8 0) 0 = (starts, total)"
    by (rule prod.exhaust)
  have total: "total = (\<Sum>j = 0..<last + 1. sw ! j)" and lens: "length starts = 8"
    and starts: "\<And>k. k \<le> last \<Longrightarrow> starts ! k = (\<Sum>j = 0..<k. sw ! j)"
    using start_levels_spec [where level = "last + 1" and starts = "replicate 8 0" and sizes = sw and c = 0 and ls = 0]
      st S(3) by auto
  let ?data = "\<lparr>level_starts = starts, level_sizes = sw, levels_max = int last, index_size = total\<rparr>"
  have "0 < sz" using large by (simp add: ValuesPerBranch_def) (metis less_trans zero_less_numeral zero_less_power)
  then have one: "sizes ! last = 1" using S(5,6) less_cdiv_iff [of 0 sz "?v + ?b * last"] by auto
  have inner: "1 < cdiv sz (?v + ?b * nat (int last - l))" if "1 \<le> l" "l < int last" for l
    using S(5,7) that by (auto dest: spec [of _ "nat (int last - l)"])
  have "compute_tree_layout p sz fresh_layout = Some (int last + 1, ?data)"
    using S(1) st large by (simp add: compute_tree_layout_def fresh_layout_def sw_def Let_def)
  moreover have "layout_for p sz ?data"
    using \<open>0 < sz\<close> S(2,3,5) one len lens starts total sw inner
    by (auto simp: layout_for_def level_shift_def level_start_def atLeast0LessThan nat_diff_distrib nat_add_distrib le_nat_iff)
  ultimately show ?thesis by (intro exI [of _ ?data]) simp
qed

lemma layout_for_rd:
  assumes "layout_for p N data" "0 \<le> l" "l \<le> levels_max data"
  shows "rd (level_starts data) l = Some (level_start data l)"
    and "rd (level_sizes data) l = Some (cdiv N (level_shift p data l))"
  using assms by (auto simp: layout_for_def rd_def)

lemma level_start_0 [simp]: "level_start data 0 = 0"
  by (simp add: level_start_def)

lemma level_start_Suc:
  assumes "layout_for p N data" "0 \<le> l" "l \<le> levels_max data"
  shows "level_start data (l + 1) = level_start data l + cdiv N (level_shift p data l)"
  using assms by (auto simp: level_start_def layout_for_def nat_add_distrib)

lemma layout_for_pos:
  assumes "layout_for p N data"
  shows "0 < cdiv N k"
  using assms less_cdiv_iff [of 0 N k] by (simp add: layout_for_def)

lemma level_start_mono:
  assumes "layout_for p N data" "0 \<le> l" "l \<le> m" "m \<le> levels_max data + 1"
  shows "level_start data l \<le> level_start data m"
proof -
  have "sum ((!) (level_sizes data)) {..<nat l} \<le> sum ((!) (level_sizes data)) {..<nat m}"
  proof (rule sum_mono2)
    fix b assume "b \<in> {..<nat m} - {..<nat l}"
    then have b: "int b \<in> {0..levels_max data}" using assms by auto
    then have "level_sizes data ! nat (int b) = cdiv N (level_shift p data (int b))"
      using assms(1) unfolding layout_for_def by blast
    then show "0 \<le> level_sizes data ! b" using layout_for_pos [OF assms(1), of "level_shift p data (int b)"] by simp
  qed (use assms in auto)
  then show ?thesis by (simp add: level_start_def)
qed

lemma level_cell_bounds:
  assumes L: "layout_for p N data" and l: "0 \<le> l" "l \<le> levels_max data"
    and i: "0 \<le> i" "i \<le> cdiv N (level_shift p data l)"
  shows "0 \<le> level_start data l + i" and "level_start data l + i \<le> index_size data"
proof -
  show "0 \<le> level_start data l + i" using level_start_mono [OF L, of 0 l] l i by simp
  have "level_start data (l + 1) \<le> level_start data (levels_max data + 1)"
    using level_start_mono [OF L, of "l + 1" "levels_max data + 1"] l by simp
  then show "level_start data l + i \<le> index_size data"
    using level_start_Suc [OF L l] i L by (simp add: layout_for_def)
qed


text \<open>A larger capacity needs no smaller index.\<close>

lemma cdiv_mono: "n \<le> m \<Longrightarrow> cdiv n k \<le> cdiv m k"
  by (simp add: cdiv_def zdiv_mono1)

lemma layout_for_index_size:
  assumes "layout_for p N data"
  shows "index_size data = (\<Sum>k < nat (levels_max data + 1). cdiv N (ValuesPerBranchLog2 p + BranchingFactorLog2 p * k))"
proof -
  define lm where "lm = nat (levels_max data)"
  have lm: "levels_max data = int lm" "nat (levels_max data + 1) = Suc lm"
    using assms by (auto simp: lm_def layout_for_def)
  have "level_sizes data ! j = cdiv N (ValuesPerBranchLog2 p + BranchingFactorLog2 p * (lm - j))" if "j < Suc lm" for j
  proof -
    have "level_sizes data ! nat (int j) = cdiv N (level_shift p data (int j))"
      using assms that lm(1) layout_for_rd(2) [OF assms, of "int j"] by (auto simp: rd_def split: if_splits)
    then show ?thesis using that by (simp add: level_shift_def lm nat_diff_distrib)
  qed
  moreover have "index_size data = (\<Sum>j < Suc lm. level_sizes data ! j)"
    using assms lm by (simp add: layout_for_def level_start_def del: sum.lessThan_Suc)
  ultimately have "index_size data = (\<Sum>j < Suc lm. cdiv N (ValuesPerBranchLog2 p + BranchingFactorLog2 p * (lm - j)))"
    by (metis (mono_tags, lifting) lessThan_iff sum.cong)
  then show ?thesis unfolding lm(2) by (subst sum.nat_diff_reindex [symmetric]) (simp del: sum.lessThan_Suc)
qed

lemma layout_for_levels_mono:
  assumes A: "layout_for p n a" and C: "layout_for p m c" and le: "n \<le> m"
  shows "levels_max a \<le> levels_max c"
proof (rule ccontr)
  assume "\<not> ?thesis"
  then have lt: "levels_max c < levels_max a" by simp
  let ?l = "levels_max a - levels_max c"
  have c: "1 \<le> levels_max c" "cdiv m (level_shift p c 0) = 1" using C by (simp_all add: layout_for_def)
  have "level_shift p a ?l = level_shift p c 0" using lt by (simp add: level_shift_def)
  then have "cdiv n (level_shift p a ?l) \<le> 1" using cdiv_mono [OF le] c by metis
  moreover have "1 < cdiv n (level_shift p a ?l)" using A lt c unfolding layout_for_def by auto
  ultimately show False by simp
qed

lemma index_size_for_cases:
  assumes "n \<le> 2 ^ (ValuesPerBranchLog2 p + BranchingFactorLog2 p * 7)"
  obtains "n \<le> ValuesPerBranch p" "index_size_for p n = Some 0"
  | data where "ValuesPerBranch p < n" "index_size_for p n = Some (index_size data)" "layout_for p n data" "0 < index_size data"
proof (cases "n \<le> ValuesPerBranch p")
  case True
  then show thesis using that(1) by (simp add: index_size_for_def compute_tree_layout_small)
next
  case False
  then obtain data where d: "compute_tree_layout p n fresh_layout = Some (levels_max data + 1, data)" "layout_for p n data"
    using compute_tree_layout_large [of p n] assms by auto
  have "level_start data 0 + 1 \<le> index_size data"
    using d(2) level_cell_bounds(2) [OF d(2), of 0 1] by (simp add: layout_for_def)
  then show thesis using that(2) [of data] False d by (simp add: index_size_for_def)
qed

lemma index_size_for_mono:
  assumes "n \<le> m" "m \<le> 2 ^ (ValuesPerBranchLog2 p + BranchingFactorLog2 p * 7)"
  shows "\<exists>a c. index_size_for p n = Some a \<and> index_size_for p m = Some c \<and> 0 \<le> a \<and> a \<le> c"
proof -
  have n: "n \<le> 2 ^ (ValuesPerBranchLog2 p + BranchingFactorLog2 p * 7)" using assms by simp
  show ?thesis
  proof (cases rule: index_size_for_cases [OF n])
    case 1
    then show ?thesis by (cases rule: index_size_for_cases [OF assms(2)]) auto
  next
    case (2 a)
    have "ValuesPerBranch p < m" using 2(1) assms by simp
    then obtain c where c: "index_size_for p m = Some (index_size c)" "layout_for p m c"
      by (cases rule: index_size_for_cases [OF assms(2)]) auto
    let ?f = "\<lambda>N k. cdiv N (ValuesPerBranchLog2 p + BranchingFactorLog2 p * k)"
    have "index_size a = (\<Sum>k < nat (levels_max a + 1). ?f n k)" by (rule layout_for_index_size [OF 2(3)])
    also have "\<dots> \<le> (\<Sum>k < nat (levels_max a + 1). ?f m k)" by (intro sum_mono cdiv_mono assms(1))
    also have "\<dots> \<le> (\<Sum>k < nat (levels_max c + 1). ?f m k)"
      using layout_for_levels_mono [OF 2(3) c(2) assms(1)] layout_for_pos [OF c(2)] by (intro sum_mono2) (auto simp: less_imp_le)
    also have "\<dots> = index_size c" by (rule layout_for_index_size [OF c(2), symmetric])
    finally show ?thesis using 2 c by auto
  qed
qed

section \<open>Sums over ranges\<close>

definition rsum :: "(int \<Rightarrow> 'v::comm_monoid_add) \<Rightarrow> int \<Rightarrow> int \<Rightarrow> 'v" where
  "rsum f a b = sum f {a..<b}"

lemma rsum_empty [simp]: "b \<le> a \<Longrightarrow> rsum f a b = 0"
  by (simp add: rsum_def)

lemma rsum_concat:
  assumes "a \<le> b" "b \<le> c"
  shows "rsum f a c = rsum f a b + rsum f b c"
proof -
  have "{a..<c} = {a..<b} \<union> {b..<c}" using assms by auto
  then show ?thesis unfolding rsum_def by (simp add: sum.union_disjoint)
qed

lemma rsum_concat3:
  assumes "a \<le> b" "b \<le> c" "c \<le> d"
  shows "s + rsum f a b + rsum f b c + rsum f c d = s + rsum f a d"
  using rsum_concat [of a b d f] rsum_concat [of b c d f] assms by (simp add: add.assoc)

lemma rsum_single [simp]: "rsum f a (a + 1) = f a"
proof -
  have "{a..<a + 1} = {a}" by auto
  then show ?thesis by (simp add: rsum_def)
qed

lemma rsum_step: "a < b \<Longrightarrow> rsum f a b = f a + rsum f (a + 1) b"
  using rsum_concat [of a "a + 1" b f] by simp

lemma rsum_cong: "(\<And>j. a \<le> j \<Longrightarrow> j < b \<Longrightarrow> f j = g j) \<Longrightarrow> rsum f a b = rsum g a b"
  unfolding rsum_def by (rule sum.cong) auto

lemma rsum_blocks:
  assumes "a \<le> b" "0 \<le> W"
  shows "rsum (\<lambda>i. rsum f (i * W) ((i + 1) * W)) a b = rsum f (a * W) (b * W)"
  using assms(1)
proof (induction b rule: int_ge_induct)
  case base then show ?case by simp
next
  case (step b)
  have "a * W \<le> b * W" "b * W \<le> (b + 1) * W" using step.hyps assms(2) by (simp_all add: mult_right_mono)
  then have "rsum f (a * W) ((b + 1) * W) = rsum f (a * W) (b * W) + rsum f (b * W) ((b + 1) * W)"
    by (rule rsum_concat)
  moreover have "rsum (\<lambda>i. rsum f (i * W) ((i + 1) * W)) a (b + 1)
      = rsum (\<lambda>i. rsum f (i * W) ((i + 1) * W)) a b + rsum f (b * W) ((b + 1) * W)"
    using rsum_concat [of a b "b + 1" "\<lambda>i. rsum f (i * W) ((i + 1) * W)"] step.hyps
    by (simp only: rsum_single)
  ultimately show ?case using step.IH by simp
qed

lemma sum_cells_eq:
  assumes "c < e \<Longrightarrow> 0 \<le> c \<and> e \<le> int (length xs)"
  shows "sum_cells xs c e s = Some (s + rsum (\<lambda>j. xs ! nat j) c e)"
  using assms
proof (induction xs c e s rule: sum_cells.induct)
  case (1 xs c e s)
  show ?case
  proof (cases "c < e")
    case True
    then have r: "rd xs c = Some (xs ! nat c)" using "1.prems" by (auto simp: rd_def)
    show ?thesis using "1.IH" [OF True, of "xs ! nat c"] "1.prems" True r
      by (subst sum_cells.simps) (simp add: rsum_step add.assoc)
  next
    case False then show ?thesis by (subst sum_cells.simps) simp
  qed
qed

section \<open>The index of partial sums\<close>

text \<open>The values as a function on positions, 0 past the size: the sums the index stores.\<close>

definition val_at :: "'v::zero list \<Rightarrow> int \<Rightarrow> int \<Rightarrow> 'v" where
  "val_at vals sz j = (if 0 \<le> j \<and> j < sz then vals ! nat j else 0)"

definition index_cells ::
  "fq_params \<Rightarrow> int \<Rightarrow> TreeLayout \<Rightarrow> (int \<Rightarrow> 'v::comm_monoid_add) \<Rightarrow> 'v list \<Rightarrow> bool" where
  "index_cells p N data f idxs \<longleftrightarrow> index_size data \<le> int (length idxs) \<and>
     (\<forall>l \<in> {0..levels_max data}. \<forall>i \<in> {0..<cdiv N (level_shift p data l)}.
        idxs ! nat (level_start data l + i)
          = rsum f (i * 2 ^ level_shift p data l) ((i + 1) * 2 ^ level_shift p data l))"

lemma rsum_index:
  assumes L: "layout_for p N data" and I: "index_cells p N data f idxs"
    and l: "0 \<le> l" "l \<le> levels_max data"
    and a: "0 \<le> a" "a \<le> b" "b \<le> cdiv N (level_shift p data l)"
  shows "rsum (\<lambda>j. idxs ! nat j) (level_start data l + a) (level_start data l + b)
      = rsum f (a * 2 ^ level_shift p data l) (b * 2 ^ level_shift p data l)"
proof -
  let ?W = "2 ^ level_shift p data l"
  have "rsum (\<lambda>j. idxs ! nat j) (level_start data l + a) (level_start data l + b)
      = rsum (\<lambda>i. idxs ! nat (level_start data l + i)) a b"
    unfolding rsum_def by (rule sum.reindex_bij_witness [of _ "\<lambda>i. level_start data l + i" "\<lambda>j. j - level_start data l"]) auto
  also have "\<dots> = rsum (\<lambda>i. rsum f (i * ?W) ((i + 1) * ?W)) a b"
    using I l a by (intro rsum_cong) (auto simp: index_cells_def)
  also have "\<dots> = rsum f (a * ?W) (b * ?W)" using a by (intro rsum_blocks) auto
  finally show ?thesis .
qed

lemma sum_cells_index:
  assumes L: "layout_for p N data" and I: "index_cells p N data f idxs"
    and l: "0 \<le> l" "l \<le> levels_max data"
    and a: "0 \<le> a" "a \<le> b" "b \<le> cdiv N (level_shift p data l)"
  shows "sum_cells idxs (a + level_start data l) (b + level_start data l) s
      = Some (s + rsum f (a * 2 ^ level_shift p data l) (b * 2 ^ level_shift p data l))"
proof -
  have "0 \<le> level_start data l + a" "level_start data l + b \<le> int (length idxs)"
    using level_cell_bounds [OF L l, of a] level_cell_bounds [OF L l, of b] a I by (auto simp: index_cells_def)
  then show ?thesis using rsum_index [OF assms] by (subst sum_cells_eq) (auto simp: add.commute)
qed

lemma branch_bounds:
  assumes L: "layout_for p N data" and l: "0 \<le> l" "l \<le> levels_max data"
    and e: "0 \<le> start" "start \<le> e" "e \<le> cdiv N (level_shift p data l)"
    and far: "(start div B + 1) * B < e" and B: "B = 2 ^ BranchingFactorLog2 p"
  shows "0 < l" and "start div B + 1 \<le> e div B" and "e div B \<le> cdiv N (level_shift p data (l - 1))"
    and "level_shift p data (l - 1) = level_shift p data l + BranchingFactorLog2 p"
proof -
  have Bpos: "0 < B" by (simp add: B)
  have "0 \<le> start div B" using e Bpos by (simp add: pos_imp_zdiv_nonneg_iff)
  then have "1 * B \<le> (start div B + 1) * B" using Bpos by (intro mult_right_mono) simp_all
  then have "1 < e" using far Bpos by linarith
  then show l0: "0 < l" using e L l by (cases "l = 0") (auto simp: layout_for_def)
  show "start div B + 1 \<le> e div B"
    using far Bpos by (metis less_imp_le nonzero_mult_div_cancel_right zdiv_mono1 less_irrefl)
  show sh: "level_shift p data (l - 1) = level_shift p data l + BranchingFactorLog2 p"
  proof -
    have "nat (levels_max data - (l - 1)) = Suc (nat (levels_max data - l))" using l0 l by simp
    then show ?thesis by (simp add: level_shift_def)
  qed
  have "e div B \<le> cdiv e (BranchingFactorLog2 p)" unfolding B cdiv_alt [symmetric] by simp
  also have "\<dots> \<le> cdiv (cdiv N (level_shift p data l)) (BranchingFactorLog2 p)"
    unfolding cdiv_def using e(3) by (intro zdiv_mono1) (simp_all add: cdiv_def)
  finally show "e div B \<le> cdiv N (level_shift p data (l - 1))" by (simp add: sh cdiv_cdiv)
qed

lemma sum_index_eq:
  assumes L: "layout_for p N data" and I: "index_cells p N data f idxs"
    and "0 \<le> l" "l \<le> levels_max data"
    and "0 \<le> start" "start \<le> end" "end \<le> cdiv N (level_shift p data l)"
  shows "sum_index p data idxs s start end l
      = Some (s + rsum f (start * 2 ^ level_shift p data l) (end * 2 ^ level_shift p data l))"
  using assms(3-)
proof (induction "nat l" arbitrary: l s start "end" rule: less_induct)
  case (less l s start e)
  define B where "B = (2 :: int) ^ BranchingFactorLog2 p"
  let ?W = "2 ^ level_shift p data l :: int"
  let ?ls = "level_start data l"
  have rd: "rd (level_starts data) l = Some ?ls" using layout_for_rd [OF L less.prems(1,2)] by simp
  have be: "(start OR BranchingFactorMask p) + 1 = (start div B + 1) * B"
    by (simp add: BranchingFactorMask_def B_def or_mask_Suc)
  have bs: "e AND NOT (BranchingFactorMask p) = e div B * B"
    by (simp add: BranchingFactorMask_def B_def and_not_mask)
  have dropB: "drop_bit (BranchingFactorLog2 p) (x * B) = x" for x by (simp add: B_def drop_bit_eq_div)
  note cells = sum_cells_index [OF L I less.prems(1,2)]
  show ?case
  proof (cases "e \<le> (start div B + 1) * B \<or> e div B * B = (start div B + 1) * B")
    case True
    then show ?thesis using cells [OF less.prems(3-5)] rd
      by (subst sum_index.simps) (simp add: be bs Let_def)
  next
    case False
    then have far: "(start div B + 1) * B < e" by simp
    note br = branch_bounds [OF L less.prems(1,2,3,4,5) far B_def]
    have Bpos: "0 < B" by (simp add: B_def)
    have "e mod B \<ge> 0" "e = e div B * B + e mod B" using Bpos by simp_all
    then have ee: "e div B * B \<le> e" by linarith
    have "start mod B < B" "start = start div B * B + start mod B" using Bpos by simp_all
    moreover have "(start div B + 1) * B = start div B * B + B" by (simp add: algebra_simps)
    ultimately have ss: "start \<le> (start div B + 1) * B" by linarith
    have mid: "(start div B + 1) * B \<le> e div B * B" using br(2) Bpos by (intro mult_right_mono) simp_all
    have W': "2 ^ level_shift p data (l - 1) = B * ?W" by (simp add: br(4) power_add B_def)
    have pos: "0 \<le> start div B + 1" using less.prems(3) Bpos by (simp add: pos_imp_zdiv_nonneg_iff)
    have rec: "sum_index p data idxs s' (start div B + 1) (e div B) (l - 1)
        = Some (s' + rsum f ((start div B + 1) * B * ?W) (e div B * B * ?W))" for s'
      using less.hyps [of "l - 1"] br less.prems(2) pos W' by (simp add: mult.assoc)
    have c1: "sum_cells idxs (start + ?ls) ((start div B + 1) * B + ?ls) s
        = Some (s + rsum f (start * ?W) ((start div B + 1) * B * ?W))"
      using ss mid ee less.prems(3,5) by (intro cells) simp_all
    have c3: "sum_cells idxs (e div B * B + ?ls) (e + ?ls) s' = Some (s' + rsum f (e div B * B * ?W) (e * ?W))" for s'
      using ss mid ee less.prems(3,5) by (intro cells) simp_all
    have "sum_index p data idxs s start e l
        = Some (s + rsum f (start * ?W) ((start div B + 1) * B * ?W)
            + rsum f ((start div B + 1) * B * ?W) (e div B * B * ?W) + rsum f (e div B * B * ?W) (e * ?W))"
      using False rd by (subst sum_index.simps) (simp add: be bs Let_def dropB c1 c3 rec)
    also have "\<dots> = Some (s + rsum f (start * ?W) (e * ?W))"
    proof -
      have "start * ?W \<le> (start div B + 1) * B * ?W" "(start div B + 1) * B * ?W \<le> e div B * B * ?W"
        "e div B * B * ?W \<le> e * ?W"
        using ss mid ee by (auto intro: mult_right_mono)
      from rsum_concat3 [OF this] show ?thesis by simp
    qed
    finally show ?thesis .
  qed
qed


section \<open>The invariant of the tree\<close>

text \<open>
  \<open>fq_shape\<close>: the metadata and the array lengths fit together. \<open>fq_indexed\<close>: the index of a block holds
  the sums of the values of that block. \<open>fq_ok\<close> is what \<open>reindex_fq\<close> establishes and the readers rely on.
\<close>

definition fq_shape :: "fq_params \<Rightarrow> 'v fqtree \<Rightarrow> bool" where
  "fq_shape p t \<longleftrightarrow> 0 \<le> fq_size t \<and> fq_size t \<le> fq_max_size t
     \<and> fq_max_size t \<le> 2 ^ (ValuesPerBranchLog2 p + BranchingFactorLog2 p * 7)
     \<and> length (fq_index t) = length (fq_values t)
     \<and> (\<forall>v \<in> set (fq_values t). fq_max_size t \<le> int (length v))
     \<and> (case index_size_for p (fq_max_size t) of None \<Rightarrow> False
        | Some n \<Rightarrow> (\<forall>x \<in> set (fq_index t). n \<le> int (length x) \<and> (n = 0 \<longrightarrow> x = [])))"

definition fq_indexed :: "fq_params \<Rightarrow> 'v::comm_monoid_add fqtree \<Rightarrow> nat \<Rightarrow> bool" where
  "fq_indexed p t b \<longleftrightarrow> (case tree_layout p t of None \<Rightarrow> False
     | Some (_, data) \<Rightarrow> levels_max data = -1
         \<or> index_cells p (fq_max_size t) data (val_at (fq_values t ! b) (fq_size t)) (fq_index t ! b))"

definition fq_ok :: "fq_params \<Rightarrow> 'v::comm_monoid_add fqtree \<Rightarrow> bool" where
  "fq_ok p t \<longleftrightarrow> fq_shape p t \<and> (\<forall>b < length (fq_values t). fq_indexed p t b)"

lemma fq_shape_layout:
  assumes "fq_shape p t"
  obtains (small) data where "fq_max_size t \<le> ValuesPerBranch p" "tree_layout p t = Some (0, data)"
      "levels_max data = -1" "\<forall>x \<in> set (fq_index t). x = []"
  | (large) data where "ValuesPerBranch p < fq_max_size t" "tree_layout p t = Some (levels_max data + 1, data)"
      "layout_for p (fq_max_size t) data" "0 < index_size data"
      "\<forall>x \<in> set (fq_index t). index_size data \<le> int (length x)"
proof (cases "fq_max_size t \<le> ValuesPerBranch p")
  case True
  show thesis
  proof (rule small [OF True])
    show "tree_layout p t = Some (0, fresh_layout\<lparr>levels_max := -1, index_size := 0\<rparr>)"
      using True by (simp add: tree_layout_def compute_tree_layout_small)
    show "\<forall>x \<in> set (fq_index t). x = []"
      using assms True by (simp add: fq_shape_def index_size_for_def compute_tree_layout_small)
  qed simp
next
  case False
  then obtain data where d: "compute_tree_layout p (fq_max_size t) fresh_layout = Some (levels_max data + 1, data)"
    "layout_for p (fq_max_size t) data"
    using compute_tree_layout_large [of p "fq_max_size t"] assms by (auto simp: fq_shape_def)
  have "level_start data 0 + 1 \<le> index_size data"
    using d(2) level_cell_bounds(2) [OF d(2), of 0 1] by (simp add: layout_for_def)
  then show thesis using large [of data] False d assms
    by (auto simp: tree_layout_def fq_shape_def index_size_for_def)
qed

lemma fq_shape_blocks:
  assumes "fq_shape p t" "0 \<le> block" "block < int (length (fq_values t))"
  shows "values_of t block = Some (fq_values t ! nat block)" "index_of t block = Some (fq_index t ! nat block)"
    and "fq_max_size t \<le> int (length (fq_values t ! nat block))"
    and "fq_index t ! nat block \<in> set (fq_index t)"
  using assms by (auto simp: fq_shape_def values_of_def index_of_def rd_def)

lemma fq_ok_size:
  assumes "fq_ok p t" "0 \<le> block" "block < int (length (fq_values t))"
  shows "0 \<le> fq_size t" "fq_size t \<le> int (length (fq_values t ! nat block))"
proof -
  have sh: "fq_shape p t" using assms(1) by (simp add: fq_ok_def)
  then show "0 \<le> fq_size t" by (simp add: fq_shape_def)
  show "fq_size t \<le> int (length (fq_values t ! nat block))"
    using fq_shape_blocks(3) [OF sh assms(2,3)] sh by (simp add: fq_shape_def)
qed

lemma fq_ok_index_cells:
  assumes "fq_ok p t" "0 \<le> block" "block < int (length (fq_values t))"
    and "tree_layout p t = Some (n, data)" "levels_max data \<noteq> -1"
  shows "index_cells p (fq_max_size t) data (val_at (fq_values t ! nat block) (fq_size t)) (fq_index t ! nat block)"
  using assms by (auto simp: fq_ok_def fq_indexed_def dest!: spec [of _ "nat block"])

section \<open>Sums through the index\<close>

lemma rsum_val_at:
  "b \<le> sz \<Longrightarrow> 0 \<le> a \<Longrightarrow> rsum (val_at vals sz) a b = rsum (\<lambda>j. vals ! nat j) a b"
  by (rule rsum_cong) (simp add: val_at_def)

lemma rsum_sum_list:
  assumes "0 \<le> a" "a \<le> b" "b \<le> int (length vals)"
  shows "rsum (\<lambda>j. vals ! nat j) a b = sum_list (take (nat (b - a)) (drop (nat a) vals))"
proof -
  let ?xs = "take (nat (b - a)) (drop (nat a) vals)"
  have len: "length ?xs = nat (b - a)" using assms by simp
  have "sum_list ?xs = (\<Sum>i < nat (b - a). vals ! (nat a + i))"
    unfolding sum_list_sum_nth len atLeast0LessThan [symmetric] using assms by (intro sum.cong) auto
  also have "\<dots> = rsum (\<lambda>j. vals ! nat j) a b"
    unfolding rsum_def using assms
    by (intro sum.reindex_bij_witness [of _ "\<lambda>j. nat (j - a)" "\<lambda>i. a + int i"]) (auto simp: nat_add_distrib)
  finally show ?thesis by simp
qed

lemma window_facts:
  fixes a b V :: int
  assumes "0 < V"
  shows "a \<le> (a div V + 1) * V" "b div V * V \<le> b" "0 \<le> a \<Longrightarrow> 0 \<le> a div V"
proof -
  have "a mod V < V" "a = a div V * V + a mod V" "(a div V + 1) * V = a div V * V + V"
    using assms by (simp_all add: algebra_simps)
  then show "a \<le> (a div V + 1) * V" by linarith
  have "0 \<le> b mod V" "b = b div V * V + b mod V" using assms by simp_all
  then show "b div V * V \<le> b" by linarith
  show "0 \<le> a \<Longrightarrow> 0 \<le> a div V" using assms by (simp add: pos_imp_zdiv_nonneg_iff)
qed

lemma window_end_greater:
  fixes a V :: int
  assumes "0 < V"
  shows "a < (a div V + 1) * V"
proof -
  have "a mod V < V" "a = a div V * V + a mod V" "(a div V + 1) * V = a div V * V + V"
    using assms by (simp_all add: algebra_simps)
  then show ?thesis by linarith
qed

lemma sum_range_rsum:
  assumes ok: "fq_ok p t" and blk: "0 \<le> block" "block < int (length (fq_values t))"
    and rng: "0 \<le> start" "start \<le> end" "end \<le> fq_size t"
  shows "sum_range p t block start end = Some (rsum (\<lambda>j. fq_values t ! nat block ! nat j) start end)"
proof -
  let ?vals = "fq_values t ! nat block"
  define V where "V = ValuesPerBranch p"
  have V: "0 < V" by (simp add: V_def ValuesPerBranch_def)
  have sh: "fq_shape p t" using ok by (simp add: fq_ok_def)
  note B = fq_shape_blocks [OF sh blk]
  have mx: "fq_size t \<le> fq_max_size t" using sh by (simp add: fq_shape_def)
  have cells: "sum_cells ?vals a b s = Some (s + rsum (\<lambda>j. ?vals ! nat j) a b)" if "0 \<le> a" "b \<le> end" for a b s
    using that rng B(3) mx by (intro sum_cells_eq) auto
  have we: "(start OR ValuesPerBranchMask p) + 1 = (start div V + 1) * V"
    and ws: "end AND NOT (ValuesPerBranchMask p) = end div V * V"
    by (simp_all add: ValuesPerBranchMask_def V_def ValuesPerBranch_def or_mask_Suc and_not_mask)
  show ?thesis
  proof (cases rule: fq_shape_layout [OF sh])
    case (1 data)
    then show ?thesis using B cells [of start "end" 0] rng
      by (simp add: sum_range_def sum_in_layout_def Let_def)
  next
    case (2 data)
    show ?thesis
    proof (cases "end \<le> (start div V + 1) * V \<or> end div V * V - (start div V + 1) * V \<le> V")
      case True
      then show ?thesis using 2(2) B cells [of start "end" 0] rng
        by (auto simp: sum_range_def sum_in_layout_def Let_def we ws V_def [symmetric])
    next
      case False
      have lm: "0 \<le> levels_max data" "levels_max data \<noteq> -1" using 2(3) by (auto simp: layout_for_def)
      have shift: "level_shift p data (levels_max data) = ValuesPerBranchLog2 p" by (simp add: level_shift_def)
      note I = fq_ok_index_cells [OF ok blk 2(2) lm(2)]
      have "(start div V + 1) * V < end div V * V" using False V by linarith
      then have le: "start div V + 1 \<le> end div V" unfolding mult_less_cancel_right_pos [OF V] by simp
      have "end div V \<le> cdiv end (ValuesPerBranchLog2 p)"
        unfolding cdiv_alt [symmetric] V_def ValuesPerBranch_def by simp
      also have "\<dots> \<le> cdiv (fq_max_size t) (ValuesPerBranchLog2 p)"
        unfolding cdiv_def using rng mx by (intro zdiv_mono1) simp_all
      finally have top: "end div V \<le> cdiv (fq_max_size t) (ValuesPerBranchLog2 p)" .
      have dropV: "drop_bit (ValuesPerBranchLog2 p) (x * V) = x" for x
        by (simp add: V_def ValuesPerBranch_def drop_bit_eq_div)
      have mid: "sum_index p data (fq_index t ! nat block) s (start div V + 1) (end div V) (levels_max data)
          = Some (s + rsum (\<lambda>j. ?vals ! nat j) ((start div V + 1) * V) (end div V * V))" for s
      proof -
        have st: "0 \<le> start div V + 1" using window_facts(3) [OF V rng(1)] by simp
        have "end div V * V \<le> fq_size t" using window_facts(2) [OF V, of "end"] rng(3) by linarith
        moreover have "0 \<le> (start div V + 1) * V" using st V by simp
        ultimately have "rsum (val_at ?vals (fq_size t)) ((start div V + 1) * V) (end div V * V)
            = rsum (\<lambda>j. ?vals ! nat j) ((start div V + 1) * V) (end div V * V)"
          by (rule rsum_val_at)
        then show ?thesis
          using sum_index_eq [OF 2(3) I lm(1) order_refl st le, of s] top
          by (simp add: shift V_def [unfolded ValuesPerBranch_def, symmetric])
      qed
      have o: "start \<le> (start div V + 1) * V" "(start div V + 1) * V \<le> end div V * V" "end div V * V \<le> end"
        using window_facts [OF V] le V by (auto intro: mult_right_mono)
      have "sum_range p t block start end = Some (0 + rsum (\<lambda>j. ?vals ! nat j) start ((start div V + 1) * V)
          + rsum (\<lambda>j. ?vals ! nat j) ((start div V + 1) * V) (end div V * V)
          + rsum (\<lambda>j. ?vals ! nat j) (end div V * V) end)"
        using 2(2) B False lm(2) rng o cells [of start "(start div V + 1) * V" 0] cells [of "end div V * V" "end"]
        by (simp add: sum_range_def sum_in_layout_def Let_def we ws V_def [symmetric] dropV mid)
      then show ?thesis by (simp only: rsum_concat3 [OF o]) simp
    qed
  qed
qed

lemma sum_prefix_range: "sum_prefix p t block end = sum_range p t block 0 end"
  by (simp add: sum_prefix_def sum_range_def)

lemma sum_block_rsum:
  assumes ok: "fq_ok p t" and blk: "0 \<le> block" "block < int (length (fq_values t))"
  shows "sum_block p t block = Some (rsum (\<lambda>j. fq_values t ! nat block ! nat j) 0 (fq_size t))"
proof -
  let ?idxs = "fq_index t ! nat block" and ?vals = "fq_values t ! nat block"
  have sh: "fq_shape p t" using ok by (simp add: fq_ok_def)
  note B = fq_shape_blocks [OF sh blk]
  show ?thesis
  proof (cases rule: fq_shape_layout [OF sh])
    case (1 data)
    then have "?idxs = []" using B(4) by blast
    then show ?thesis using B sum_range_rsum [OF ok blk, of 0 "fq_size t"] sh
      by (simp add: sum_block_def fq_shape_def)
  next
    case (2 data)
    have lm: "0 \<le> levels_max data" "levels_max data \<noteq> -1" using 2(3) by (auto simp: layout_for_def)
    have len: "0 < int (length ?idxs)" using 2(4,5) B(4) by fastforce
    have top: "cdiv (fq_max_size t) (level_shift p data 0) = 1" using 2(3) by (simp add: layout_for_def)
    then have N: "fq_max_size t \<le> 2 ^ level_shift p data 0"
      using less_cdiv_iff [of 1 "fq_max_size t" "level_shift p data 0"] by simp
    have "?idxs ! 0 = rsum (val_at ?vals (fq_size t)) 0 (2 ^ level_shift p data 0)"
      using fq_ok_index_cells [OF ok blk 2(2) lm(2)] lm(1) top by (auto simp: index_cells_def dest!: bspec [of _ _ 0])
    also have "\<dots> = rsum (val_at ?vals (fq_size t)) 0 (fq_size t) + rsum (val_at ?vals (fq_size t)) (fq_size t) (2 ^ level_shift p data 0)"
      using sh N by (intro rsum_concat) (auto simp: fq_shape_def)
    also have "rsum (val_at ?vals (fq_size t)) (fq_size t) (2 ^ level_shift p data 0) = 0"
      unfolding rsum_def by (rule sum.neutral) (simp add: val_at_def)
    also have "rsum (val_at ?vals (fq_size t)) 0 (fq_size t) = rsum (\<lambda>j. ?vals ! nat j) 0 (fq_size t)"
      by (rule rsum_val_at) simp_all
    finally show ?thesis using B len by (simp add: sum_block_def rd_def)
  qed
qed

section \<open>Rebuilding the index\<close>

lemma wr_Some: "0 \<le> i \<Longrightarrow> i < int (length xs) \<Longrightarrow> wr xs i v = Some (xs[nat i := v])"
  by (simp add: wr_def)

lemma min_if: "(if a \<le> b then a else b) = min a b" for a b :: int
  by (simp add: min_def)

lemma rsum_zero_tail:
  assumes "a \<le> b" "\<And>j. m \<le> j \<Longrightarrow> f j = 0"
  shows "rsum f a (min b m) = rsum f a b"
proof (cases "b \<le> m \<or> m \<le> a")
  case True
  then show ?thesis
  proof
    assume "m \<le> a"
    then have "rsum f a b = 0" unfolding rsum_def using assms(2) by (intro sum.neutral) auto
    then show ?thesis using \<open>m \<le> a\<close> assms(1) by simp
  qed (simp add: min_def)
next
  case False
  have "rsum f m b = 0" unfolding rsum_def using assms(2) by (intro sum.neutral) auto
  then show ?thesis using False rsum_concat [of a m b f] by (simp add: min_def)
qed

lemma fill_leaves_spec:
  assumes "0 \<le> i" "0 \<le> ls" "ls + n \<le> int (length idxs)" "0 \<le> sz" "sz \<le> int (length vals)"
  shows "\<exists>idxs'. fill_leaves p vals sz ls n i idxs = Some idxs' \<and> length idxs' = length idxs
    \<and> (\<forall>k \<in> {i..<n}. idxs' ! nat (ls + k) = rsum (val_at vals sz) (k * ValuesPerBranch p) ((k + 1) * ValuesPerBranch p))
    \<and> (\<forall>m. int m \<notin> {ls + i..<ls + n} \<longrightarrow> idxs' ! m = idxs ! m)"
  using assms
proof (induction p vals sz ls n i idxs rule: fill_leaves.induct)
  case (1 p vals sz ls n i idxs)
  show ?case
  proof (cases "i < n")
    case True
    let ?V = "ValuesPerBranch p"
    let ?s = "rsum (val_at vals sz) (i * ?V) ((i + 1) * ?V)"
    have V: "0 < ?V" by (simp add: ValuesPerBranch_def)
    have iV: "0 \<le> i * ?V" "i * ?V \<le> (i + 1) * ?V" using "1.prems"(1) V by (simp_all add: mult_right_mono)
    have "sum_cells vals (i * ?V) (min ((i + 1) * ?V) sz) 0 = Some (rsum (\<lambda>j. vals ! nat j) (i * ?V) (min ((i + 1) * ?V) sz))"
      using iV "1.prems"(5) by (subst sum_cells_eq) auto
    also have "rsum (\<lambda>j. vals ! nat j) (i * ?V) (min ((i + 1) * ?V) sz) = rsum (val_at vals sz) (i * ?V) (min ((i + 1) * ?V) sz)"
      using iV by (intro rsum_val_at [symmetric]) simp_all
    also have "\<dots> = ?s" using iV by (intro rsum_zero_tail) (simp_all add: val_at_def)
    finally have s: "sum_cells vals (i * ?V) (min ((i + 1) * ?V) sz) 0 = Some ?s" .
    have w: "wr idxs (ls + i) ?s = Some (idxs[nat (ls + i) := ?s])" using True "1.prems" by (intro wr_Some) simp_all
    have push: "push_bit (ValuesPerBranchLog2 p) x = x * ?V" for x by (simp add: ValuesPerBranch_def push_bit_eq_mult)
    have step: "fill_leaves p vals sz ls n i idxs = fill_leaves p vals sz ls n (i + 1) (idxs[nat (ls + i) := ?s])"
      using True by (subst fill_leaves.simps) (simp add: Let_def push min_if s w)
    from "1.IH" [OF True refl refl refl, unfolded push min_if, OF s w] "1.prems"
    obtain idxs' where R: "fill_leaves p vals sz ls n (i + 1) (idxs[nat (ls + i) := ?s]) = Some idxs'" "length idxs' = length idxs"
      "\<forall>k \<in> {i + 1..<n}. idxs' ! nat (ls + k) = rsum (val_at vals sz) (k * ?V) ((k + 1) * ?V)"
      "\<forall>m. int m \<notin> {ls + (i + 1)..<ls + n} \<longrightarrow> idxs' ! m = idxs[nat (ls + i) := ?s] ! m"
      by auto
    have "idxs' ! nat (ls + i) = ?s" using R(4) [rule_format, of "nat (ls + i)"] "1.prems" True by simp
    then have "\<forall>k \<in> {i..<n}. idxs' ! nat (ls + k) = rsum (val_at vals sz) (k * ?V) ((k + 1) * ?V)"
      using R(3) by (metis atLeastLessThan_iff order_le_less zless_imp_add1_zle)
    moreover have "\<forall>m. int m \<notin> {ls + i..<ls + n} \<longrightarrow> idxs' ! m = idxs ! m"
      using R(4) True "1.prems" by (auto simp: nth_list_update)
    ultimately show ?thesis using R(1,2) step by simp
  next
    case False
    then show ?thesis by (subst fill_leaves.simps) simp
  qed
qed

lemma fill_level_spec:
  assumes "0 \<le> i" "0 \<le> ps" "ps + n \<le> cs" "0 \<le> m" "cs + m \<le> int (length idxs)" and B: "B = 2 ^ BranchingFactorLog2 p"
  shows "\<exists>idxs'. fill_level p ps n cs m i idxs = Some idxs' \<and> length idxs' = length idxs
    \<and> (\<forall>k \<in> {i..<n}. idxs' ! nat (ps + k) = rsum (\<lambda>j. idxs ! nat j) (cs + k * B) (cs + min ((k + 1) * B) m))
    \<and> (\<forall>q. int q \<notin> {ps + i..<ps + n} \<longrightarrow> idxs' ! q = idxs ! q)"
  using assms
proof (induction p ps n cs m i idxs rule: fill_level.induct)
  case (1 p ps n cs m i idxs)
  show ?case
  proof (cases "i < n")
    case True
    let ?s = "rsum (\<lambda>j. idxs ! nat j) (cs + i * B) (cs + min ((i + 1) * B) m)"
    have "0 \<le> i * B" using "1.prems"(1,6) by simp
    then have s: "sum_cells idxs (i * B + cs) (min ((i + 1) * B) m + cs) 0 = Some ?s"
      using "1.prems" True by (subst sum_cells_eq) (auto simp: add.commute)
    have w: "wr idxs (ps + i) ?s = Some (idxs[nat (ps + i) := ?s])" using True "1.prems" by (intro wr_Some) simp_all
    have push: "push_bit (BranchingFactorLog2 p) x = x * B" for x using "1.prems"(6) by (simp add: push_bit_eq_mult)
    have step: "fill_level p ps n cs m i idxs = fill_level p ps n cs m (i + 1) (idxs[nat (ps + i) := ?s])"
      using True by (subst fill_level.simps) (simp add: Let_def push min_if s w)
    from "1.IH" [OF True refl refl refl, unfolded push min_if, OF s w] "1.prems"
    obtain idxs' where R: "fill_level p ps n cs m (i + 1) (idxs[nat (ps + i) := ?s]) = Some idxs'" "length idxs' = length idxs"
      "\<forall>k \<in> {i + 1..<n}. idxs' ! nat (ps + k)
         = rsum (\<lambda>j. idxs[nat (ps + i) := ?s] ! nat j) (cs + k * B) (cs + min ((k + 1) * B) m)"
      "\<forall>q. int q \<notin> {ps + (i + 1)..<ps + n} \<longrightarrow> idxs' ! q = idxs[nat (ps + i) := ?s] ! q"
      by auto
    have here: "idxs' ! nat (ps + i) = ?s" using R(4) [rule_format, of "nat (ps + i)"] "1.prems" True by simp
    have same: "rsum (\<lambda>j. idxs[nat (ps + i) := ?s] ! nat j) (cs + k * B) e = rsum (\<lambda>j. idxs ! nat j) (cs + k * B) e" if "i < k" for k e
    proof (rule rsum_cong)
      fix j assume "cs + k * B \<le> j"
      moreover have "0 \<le> k * B" using that "1.prems"(1,6) by simp
      ultimately have "nat (ps + i) \<noteq> nat j" using "1.prems" True by simp
      then show "idxs[nat (ps + i) := ?s] ! nat j = idxs ! nat j" by simp
    qed
    have "\<forall>k \<in> {i..<n}. idxs' ! nat (ps + k) = rsum (\<lambda>j. idxs ! nat j) (cs + k * B) (cs + min ((k + 1) * B) m)"
    proof
      fix k assume k: "k \<in> {i..<n}"
      show "idxs' ! nat (ps + k) = rsum (\<lambda>j. idxs ! nat j) (cs + k * B) (cs + min ((k + 1) * B) m)"
      proof (cases "k = i")
        case False
        then have "i < k" "k \<in> {i + 1..<n}" using k by auto
        then show ?thesis using R(3) same by simp
      qed (use here in simp)
    qed
    moreover have "\<forall>q. int q \<notin> {ps + i..<ps + n} \<longrightarrow> idxs' ! q = idxs ! q"
      using R(4) True "1.prems" by (auto simp: nth_list_update)
    ultimately show ?thesis using R(1,2) step by simp
  next
    case False
    then show ?thesis by (subst fill_level.simps) simp
  qed
qed


definition level_cells ::
  "fq_params \<Rightarrow> int \<Rightarrow> TreeLayout \<Rightarrow> (int \<Rightarrow> 'v::comm_monoid_add) \<Rightarrow> 'v list \<Rightarrow> int \<Rightarrow> bool" where
  "level_cells p N data f idxs l \<longleftrightarrow>
     (\<forall>i \<in> {0..<cdiv N (level_shift p data l)}. idxs ! nat (level_start data l + i)
        = rsum f (i * 2 ^ level_shift p data l) ((i + 1) * 2 ^ level_shift p data l))"

lemma index_cells_levels:
  "index_cells p N data f idxs \<longleftrightarrow>
     index_size data \<le> int (length idxs) \<and> (\<forall>l \<in> {0..levels_max data}. level_cells p N data f idxs l)"
  by (simp add: index_cells_def level_cells_def)

lemma level_cells_cong:
  assumes "layout_for p N data" "0 \<le> l" "level_cells p N data f idxs l"
    and "l \<le> levels_max data" "\<forall>m. level_start data l \<le> int m \<longrightarrow> idxs' ! m = idxs ! m"
  shows "level_cells p N data f idxs' l"
  using assms level_start_mono [of p N data 0 l] by (auto simp: level_cells_def)

lemma fill_level_cells:
  assumes L: "layout_for p N data" and l: "0 < l" "l \<le> levels_max data"
    and len: "index_size data \<le> int (length idxs)" and C: "level_cells p N data f idxs l"
    and tail: "\<And>j. N \<le> j \<Longrightarrow> f j = 0"
  shows "\<exists>idxs'. fill_level p (level_start data (l - 1)) (cdiv N (level_shift p data (l - 1)))
      (level_start data l) (cdiv N (level_shift p data l)) 0 idxs = Some idxs' \<and> length idxs' = length idxs
    \<and> level_cells p N data f idxs' (l - 1) \<and> (\<forall>m. level_start data l \<le> int m \<longrightarrow> idxs' ! m = idxs ! m)"
proof -
  define B where "B = (2 :: int) ^ BranchingFactorLog2 p"
  let ?W = "2 ^ level_shift p data l :: int" and ?m = "cdiv N (level_shift p data l)"
  let ?n = "cdiv N (level_shift p data (l - 1))"
  have B: "0 < B" by (simp add: B_def)
  have sh: "level_shift p data (l - 1) = level_shift p data l + BranchingFactorLog2 p"
  proof -
    have "nat (levels_max data - (l - 1)) = Suc (nat (levels_max data - l))" using l by simp
    then show ?thesis by (simp add: level_shift_def)
  qed
  then have W': "2 ^ level_shift p data (l - 1) = B * ?W" by (simp add: power_add B_def)
  have cs: "level_start data l = level_start data (l - 1) + ?n"
    using level_start_Suc [OF L, of "l - 1"] l by simp
  have mpos: "0 < ?m" by (rule layout_for_pos [OF L])
  have bnd: "level_start data l + ?m \<le> int (length idxs)"
    using level_cell_bounds(2) [OF L, of l ?m] l len mpos by simp
  have ps: "0 \<le> level_start data (l - 1)" using level_start_mono [OF L, of 0 "l - 1"] l by simp
  from fill_level_spec [of 0 "level_start data (l - 1)" ?n "level_start data l" ?m idxs B p] ps cs bnd mpos
  obtain idxs' where R: "fill_level p (level_start data (l - 1)) ?n (level_start data l) ?m 0 idxs = Some idxs'"
    "length idxs' = length idxs"
    "\<forall>k \<in> {0..<?n}. idxs' ! nat (level_start data (l - 1) + k)
       = rsum (\<lambda>j. idxs ! nat j) (level_start data l + k * B) (level_start data l + min ((k + 1) * B) ?m)"
    "\<forall>q. int q \<notin> {level_start data (l - 1)..<level_start data (l - 1) + ?n} \<longrightarrow> idxs' ! q = idxs ! q"
    by (auto simp: B_def)
  have "rsum (\<lambda>j. idxs ! nat j) (level_start data l + k * B) (level_start data l + min ((k + 1) * B) ?m)
      = rsum f (k * (B * ?W)) ((k + 1) * (B * ?W))" if k: "0 \<le> k" "k < ?n" for k
  proof -
    have "k < cdiv ?m (BranchingFactorLog2 p)" using k by (simp add: sh cdiv_cdiv)
    then have kB: "k * B < ?m" by (simp add: less_cdiv_iff B_def)
    have kk: "k * B \<le> (k + 1) * B" using B by (intro mult_right_mono) simp_all
    define e where "e = min ((k + 1) * B) ?m"
    have e: "k * B \<le> e" "e \<le> ?m" using kB kk by (simp_all add: e_def)
    have "0 \<le> k * B" using k B by simp
    have "rsum (\<lambda>j. idxs ! nat j) (level_start data l + k * B) (level_start data l + e)
        = rsum (\<lambda>i. idxs ! nat (level_start data l + i)) (k * B) e"
      unfolding rsum_def by (rule sum.reindex_bij_witness [of _ "\<lambda>i. level_start data l + i" "\<lambda>j. j - level_start data l"]) auto
    also have "\<dots> = rsum (\<lambda>i. rsum f (i * ?W) ((i + 1) * ?W)) (k * B) e"
      using C e \<open>0 \<le> k * B\<close> by (intro rsum_cong) (auto simp: level_cells_def)
    also have "\<dots> = rsum f (k * B * ?W) (e * ?W)" using e by (intro rsum_blocks) auto
    also have "\<dots> = rsum f (k * B * ?W) ((k + 1) * B * ?W)"
    proof (cases "(k + 1) * B \<le> ?m")
      case True then show ?thesis by (simp add: e_def)
    next
      case False
      then have eq: "e = ?m" by (simp add: e_def)
      have N: "N \<le> ?m * ?W" using less_cdiv_iff [of ?m N "level_shift p data l"] by simp
      have le: "k * B * ?W \<le> (k + 1) * B * ?W" "?m * ?W \<le> (k + 1) * B * ?W"
        using kk False by (auto intro: mult_right_mono)
      have "rsum f (k * B * ?W) (min ((k + 1) * B * ?W) (?m * ?W)) = rsum f (k * B * ?W) ((k + 1) * B * ?W)"
        by (rule rsum_zero_tail [OF le(1)]) (rule tail, use N in linarith)
      then show ?thesis using le(2) by (simp add: eq min_absorb2)
    qed
    finally show ?thesis by (simp add: e_def mult.assoc)
  qed
  then have "level_cells p N data f idxs' (l - 1)" using R(3) by (simp add: level_cells_def W')
  then show ?thesis using R(1,2,4) cs by auto
qed

lemma fill_levels_cells:
  assumes L: "layout_for p N data" and tail: "\<And>j. N \<le> j \<Longrightarrow> f j = 0"
    and "0 \<le> l" "l \<le> levels_max data" "index_size data \<le> int (length idxs)"
    and "\<forall>k \<in> {l..levels_max data}. level_cells p N data f idxs k"
  shows "\<exists>idxs'. fill_levels p data l idxs = Some idxs' \<and> length idxs' = length idxs \<and> index_cells p N data f idxs'"
  using assms(3-)
proof (induction "nat l" arbitrary: l idxs)
  case 0
  then show ?case by (subst fill_levels.simps) (simp add: index_cells_levels)
next
  case (Suc n)
  then have l: "0 < l" "l \<le> levels_max data" by simp_all
  from fill_level_cells [where f = f, OF L l Suc.prems(3) _ tail] Suc.prems(4) l obtain idxs' where
    R: "fill_level p (level_start data (l - 1)) (cdiv N (level_shift p data (l - 1)))
      (level_start data l) (cdiv N (level_shift p data l)) 0 idxs = Some idxs'" "length idxs' = length idxs"
    "level_cells p N data f idxs' (l - 1)" "\<forall>m. level_start data l \<le> int m \<longrightarrow> idxs' ! m = idxs ! m"
    by auto
  have "level_cells p N data f idxs' k" if k: "k \<in> {l..levels_max data}" for k
  proof (rule level_cells_cong [OF L])
    show "\<forall>m. level_start data k \<le> int m \<longrightarrow> idxs' ! m = idxs ! m"
      using R(4) level_start_mono [OF L, of l k] k l by auto
  qed (use k l Suc.prems(4) in auto)
  then have "\<forall>k \<in> {l - 1..levels_max data}. level_cells p N data f idxs' k"
    using R(3) by (metis atLeastAtMost_iff order_le_less zle_diff1_eq linorder_not_less)
  moreover have "n = nat (l - 1)" using Suc.hyps(2) by linarith
  ultimately obtain idxs'' where "fill_levels p data (l - 1) idxs' = Some idxs''" "length idxs'' = length idxs"
    "index_cells p N data f idxs''"
    using Suc.hyps(1) [of "l - 1" idxs'] Suc.prems(3) l R(2) by auto
  moreover have "fill_levels p data l idxs = fill_levels p data (l - 1) idxs'"
    using l R(1) layout_for_rd [OF L, of l] layout_for_rd [OF L, of "l - 1"]
    by (subst fill_levels.simps) simp
  ultimately show ?case by auto
qed

lemma reindex_block_spec:
  assumes sh: "fq_shape p t" and d: "tree_layout p t = Some (n, data)" "layout_for p (fq_max_size t) data"
    and blk: "0 \<le> block" "block < int (length (fq_values t))"
    and len: "index_size data \<le> int (length (fq_index t ! nat block))"
  shows "\<exists>idxs. reindex_block p data block t = Some (t\<lparr>fq_index := (fq_index t)[nat block := idxs]\<rparr>)
    \<and> length idxs = length (fq_index t ! nat block)
    \<and> index_cells p (fq_max_size t) data (val_at (fq_values t ! nat block) (fq_size t)) idxs"
proof -
  let ?vals = "fq_values t ! nat block" and ?f = "val_at (fq_values t ! nat block) (fq_size t)"
  let ?N = "fq_max_size t"
  let ?lm = "levels_max data"
  note B = fq_shape_blocks [OF sh blk]
  have lm: "0 \<le> ?lm" using d(2) by (simp add: layout_for_def)
  have shift: "level_shift p data ?lm = ValuesPerBranchLog2 p" by (simp add: level_shift_def)
  note rd = layout_for_rd [OF d(2) lm order_refl]
  have top: "level_start data ?lm + cdiv ?N (ValuesPerBranchLog2 p) = index_size data"
    using level_start_Suc [OF d(2) lm order_refl] d(2) by (simp add: shift layout_for_def)
  have "0 \<le> level_start data ?lm" using level_start_mono [OF d(2), of 0 ?lm] lm by simp
  from fill_leaves_spec [of 0 "level_start data ?lm" "cdiv ?N (ValuesPerBranchLog2 p)" "fq_index t ! nat block" "fq_size t" ?vals p]
    this top len sh B(3)
  obtain idxs where I: "fill_leaves p ?vals (fq_size t) (level_start data ?lm) (cdiv ?N (ValuesPerBranchLog2 p)) 0
      (fq_index t ! nat block) = Some idxs" "length idxs = length (fq_index t ! nat block)"
    "\<forall>k \<in> {0..<cdiv ?N (ValuesPerBranchLog2 p)}. idxs ! nat (level_start data ?lm + k)
       = rsum ?f (k * ValuesPerBranch p) ((k + 1) * ValuesPerBranch p)"
    by (auto simp: fq_shape_def)
  have "level_cells p ?N data ?f idxs ?lm" using I(3) by (simp add: level_cells_def shift ValuesPerBranch_def)
  then obtain idxs' where J: "fill_levels p data ?lm idxs = Some idxs'" "length idxs' = length idxs"
    "index_cells p ?N data ?f idxs'"
    using fill_levels_cells [OF d(2) _ lm order_refl, of ?f idxs] len I(2) sh by (auto simp: val_at_def fq_shape_def)
  have "reindex_block p data block t = Some (t\<lparr>fq_index := (fq_index t)[nat block := idxs']\<rparr>)"
    using B rd I(1) J(1) by (simp add: reindex_block_def shift)
  then show ?thesis using I(2) J by auto
qed

lemma all_lengths_cong:
  assumes "map length xs = map length ys"
  shows "(\<forall>x \<in> set xs. P (length x)) \<longleftrightarrow> (\<forall>y \<in> set ys. P (length y))"
proof -
  have "(\<forall>x \<in> set xs. P (length x)) \<longleftrightarrow> (\<forall>k \<in> set (map length xs). P k)" by simp
  also have "\<dots> \<longleftrightarrow> (\<forall>y \<in> set ys. P (length y))" unfolding assms by simp
  finally show ?thesis .
qed

lemma fq_shape_index_cong:
  assumes "map length idx = map length (fq_index t)"
  shows "fq_shape p (t\<lparr>fq_index := idx\<rparr>) = fq_shape p t"
proof -
  have "(\<forall>x \<in> set idx. n \<le> int (length x) \<and> (n = 0 \<longrightarrow> x = []))
      \<longleftrightarrow> (\<forall>x \<in> set (fq_index t). n \<le> int (length x) \<and> (n = 0 \<longrightarrow> x = []))" for n
    using all_lengths_cong [OF assms, of "\<lambda>k. n \<le> int k \<and> (n = 0 \<longrightarrow> k = 0)"] by simp
  moreover have "length idx = length (fq_index t)" using arg_cong [OF assms, of length] by simp
  ultimately show ?thesis by (simp add: fq_shape_def split: option.split)
qed

lemma reindex_blocks_spec:
  assumes "fq_shape p t" "tree_layout p t = Some (n, data)" "layout_for p (fq_max_size t) data" "0 < n"
    and "0 \<le> block" "blocks = int (length (fq_values t))"
    and "\<forall>x \<in> set (fq_index t). index_size data \<le> int (length x)"
  shows "\<exists>idx. reindex_blocks p n data blocks block t = Some (t\<lparr>fq_index := idx\<rparr>)
    \<and> map length idx = map length (fq_index t)
    \<and> (\<forall>b < nat block. b < length idx \<longrightarrow> idx ! b = fq_index t ! b)
    \<and> (\<forall>b < length (fq_values t). nat block \<le> b \<longrightarrow>
         index_cells p (fq_max_size t) data (val_at (fq_values t ! b) (fq_size t)) (idx ! b))"
  using assms
proof (induction "nat (blocks - block)" arbitrary: block t)
  case 0
  then show ?case by (subst reindex_blocks.simps) (auto intro!: exI [of _ "fq_index t"])
next
  case (Suc k)
  then have lt: "block < int (length (fq_values t))" and blk: "block < blocks" by simp_all
  have "length (fq_index t) = length (fq_values t)" using Suc.prems(1) by (simp add: fq_shape_def)
  then have mem: "fq_index t ! nat block \<in> set (fq_index t)" using Suc.prems(5) lt by simp
  then obtain idxs where I: "reindex_block p data block t = Some (t\<lparr>fq_index := (fq_index t)[nat block := idxs]\<rparr>)"
    "length idxs = length (fq_index t ! nat block)"
    "index_cells p (fq_max_size t) data (val_at (fq_values t ! nat block) (fq_size t)) idxs"
    using reindex_block_spec [OF Suc.prems(1,2,3,5) lt] Suc.prems(7) by blast
  let ?t = "t\<lparr>fq_index := (fq_index t)[nat block := idxs]\<rparr>"
  have len: "map length ((fq_index t)[nat block := idxs]) = map length (fq_index t)"
    using I(2) by (simp add: map_update) (metis list_update_id map_update)
  have shape: "fq_shape p ?t" using Suc.prems(1) fq_shape_index_cong [OF len] by simp
  have lay: "tree_layout p ?t = Some (n, data)" using Suc.prems(2) by (simp add: tree_layout_def)
  have all: "\<forall>x \<in> set (fq_index ?t). index_size data \<le> int (length x)"
    using Suc.prems(7) all_lengths_cong [OF len, of "\<lambda>k. index_size data \<le> int k"] by simp
  have "k = nat (blocks - (block + 1))" using Suc.hyps(2) by linarith
  from Suc.hyps(1) [OF this shape lay] Suc.prems(3-6) all
  obtain idx where R: "reindex_blocks p n data blocks (block + 1) ?t = Some (t\<lparr>fq_index := idx\<rparr>)"
    "map length idx = map length ((fq_index t)[nat block := idxs])"
    "\<forall>b < nat (block + 1). b < length idx \<longrightarrow> idx ! b = (fq_index t)[nat block := idxs] ! b"
    "\<forall>b < length (fq_values t). nat (block + 1) \<le> b \<longrightarrow>
       index_cells p (fq_max_size t) data (val_at (fq_values t ! b) (fq_size t)) (idx ! b)"
    by auto
  have lidx: "length idx = length (fq_values t)"
    using arg_cong [OF R(2), of length] Suc.prems(1) by (simp add: fq_shape_def)
  have "idx ! nat block = idxs" using R(3) lidx lt Suc.prems(1,5) by (auto simp: fq_shape_def)
  moreover have "nat (block + 1) \<le> b \<or> b = nat block" if "nat block \<le> b" for b using that Suc.prems(5) by linarith
  ultimately have "\<forall>b < length (fq_values t). nat block \<le> b \<longrightarrow>
       index_cells p (fq_max_size t) data (val_at (fq_values t ! b) (fq_size t)) (idx ! b)"
    using R(4) I(3) by metis
  moreover have "\<forall>b < nat block. b < length idx \<longrightarrow> idx ! b = fq_index t ! b" using R(3) by simp
  moreover have "reindex_blocks p n data blocks block t = Some (t\<lparr>fq_index := idx\<rparr>)"
    using R(1) I(1) blk Suc.prems(4) by (subst reindex_blocks.simps) simp
  ultimately show ?case using R(2) len by auto
qed

lemma reindex_blocks_no_levels: "reindex_blocks p 0 data blocks b t = Some t"
proof (induction "nat (blocks - b)" arbitrary: b)
  case 0
  then show ?case by (subst reindex_blocks.simps) simp
next
  case (Suc k)
  then have "k = nat (blocks - (b + 1))" by linarith
  then show ?case using Suc by (subst reindex_blocks.simps) simp
qed

lemma reindex_spec:
  assumes sh: "fq_shape p t"
  shows "\<exists>idx n. reindex_fq p (int (length (fq_values t))) t = Some (t\<lparr>fq_index := idx, fq_index_size := n\<rparr>)
    \<and> index_size_for p (fq_max_size t) = Some n
    \<and> map length idx = map length (fq_index t)
    \<and> fq_ok p (t\<lparr>fq_index := idx, fq_index_size := n\<rparr>)"
proof (cases rule: fq_shape_layout [OF sh])
  case (1 data)
  let ?t = "t\<lparr>fq_index := fq_index t, fq_index_size := index_size data\<rparr>"
  have "reindex_fq p (int (length (fq_values t))) t = Some ?t"
    using 1(2) by (simp add: reindex_fq_def reindex_blocks_no_levels)
  moreover have "index_size_for p (fq_max_size t) = Some (index_size data)"
    using 1(2) by (simp add: index_size_for_def tree_layout_def)
  moreover have "fq_ok p ?t" using sh 1(2,3) by (auto simp: fq_ok_def fq_shape_def fq_indexed_def tree_layout_def split: option.splits)
  ultimately show ?thesis by blast
next
  case (2 data)
  let ?t = "t\<lparr>fq_index_size := index_size data\<rparr>"
  have sh': "fq_shape p ?t" using sh by (simp add: fq_shape_def split: option.splits)
  have lay: "tree_layout p ?t = Some (levels_max data + 1, data)" using 2(2) by (simp add: tree_layout_def)
  have "1 \<le> levels_max data" using 2(3) by (simp add: layout_for_def)
  then obtain idx where R: "reindex_blocks p (levels_max data + 1) data (int (length (fq_values ?t))) 0 ?t
        = Some (?t\<lparr>fq_index := idx\<rparr>)" "map length idx = map length (fq_index t)"
      "\<forall>b < length (fq_values t). index_cells p (fq_max_size t) data (val_at (fq_values t ! b) (fq_size t)) (idx ! b)"
    using reindex_blocks_spec [OF sh' lay, of 0 "int (length (fq_values ?t))"] 2(3,5) by auto
  let ?r = "t\<lparr>fq_index := idx, fq_index_size := index_size data\<rparr>"
  have "reindex_fq p (int (length (fq_values t))) t = Some ?r" using 2(2) R(1) by (simp add: reindex_fq_def)
  moreover have "index_size_for p (fq_max_size t) = Some (index_size data)"
    using 2(2) by (simp add: index_size_for_def tree_layout_def)
  moreover have r: "?r = ?t\<lparr>fq_index := idx\<rparr>" by (cases t) simp
  have "fq_ok p ?r"
    unfolding r using R(3) lay fq_shape_index_cong [of idx ?t p] R(2) sh' by (simp add: fq_ok_def fq_indexed_def tree_layout_def)
  ultimately show ?thesis using R(2) by blast
qed

section \<open>Properties of the index\<close>

lemma sum_range_list:
  assumes "fq_ok p t" "0 \<le> block" "block < int (length (fq_values t))" "0 \<le> a" "a \<le> b" "b \<le> fq_size t"
  shows "rsum (\<lambda>j. fq_values t ! nat block ! nat j) a b
    = sum_list (take (nat (b - a)) (drop (nat a) (fq_values t ! nat block)))"
  using assms fq_ok_size [OF assms(1-3)] by (intro rsum_sum_list) auto

text \<open>
  C18: Sums through the index are sums of the values. In a tree whose index is up to date, the sum of
  a range, of a prefix and of a whole block, computed from index cells and border values, is the sum
  of the values of that range; no read leaves its array. The element type is any commutative monoid.
\<close>

theorem sum_equals_linear_sum:
  assumes "fq_ok p t" "0 \<le> block" "block < int (length (fq_values t))"
    and "0 \<le> start" "start \<le> end" "end \<le> fq_size t"
  shows "sum_range p t block start end
      = Some (sum_list (take (nat (end - start)) (drop (nat start) (fq_values t ! nat block))))
    \<and> sum_prefix p t block end = Some (sum_list (take (nat end) (fq_values t ! nat block)))
    \<and> sum_block p t block = Some (sum_list (take (nat (fq_size t)) (fq_values t ! nat block)))"
proof (intro conjI)
  have sz: "0 \<le> fq_size t" using assms by simp
  show "sum_range p t block start end
      = Some (sum_list (take (nat (end - start)) (drop (nat start) (fq_values t ! nat block))))"
    using sum_range_rsum [OF assms] sum_range_list [OF assms] by simp
  show "sum_prefix p t block end = Some (sum_list (take (nat end) (fq_values t ! nat block)))"
    using sum_range_rsum [OF assms(1-3), of 0 "end"] sum_range_list [OF assms(1-3), of 0 "end"] assms
    by (simp add: sum_prefix_range)
  show "sum_block p t block = Some (sum_list (take (nat (fq_size t)) (fq_values t ! nat block)))"
    using sum_block_rsum [OF assms(1-3)] sum_range_list [OF assms(1-3), of 0 "fq_size t"] sz by simp
qed

definition demo_params :: fq_params where
  "demo_params = \<lparr>BranchingFactorLog2 = 1, ValuesPerBranchLog2 = 1\<rparr>"

definition demo_raw :: "int fqtree" where
  "demo_raw = \<lparr>fq_size = 11, fq_index_size = 0, fq_max_size = 13, fq_index = [replicate 14 0],
     fq_values = [[1, 2, 3, 4, 5, 6, 7, 8, 9, 10, 11, 0, 0]]\<rparr>"

definition demo_fq :: "int fqtree" where
  "demo_fq = demo_raw\<lparr>fq_index_size := 14, fq_index := [[66, 36, 30, 10, 26, 30, 0, 3, 7, 11, 15, 19, 11, 0]]\<rparr>"

lemma demo_shape: "fq_shape demo_params demo_raw"
  by code_simp

lemma demo_reindex: "reindex_fq demo_params 1 demo_raw = Some demo_fq"
  by code_simp

lemma demo_ok: "fq_ok demo_params demo_fq"
  using reindex_spec [OF demo_shape] demo_reindex by (auto simp: demo_raw_def)

theorem sum_equals_linear_sum_witness:
  "sum_range demo_params demo_fq 0 1 9 = Some 44"
  using sum_equals_linear_sum [OF demo_ok, of 0 1 9] by (simp add: demo_fq_def demo_raw_def numeral_eq_Suc)

text \<open>
  C11: \<open>reindex_fq\<close> establishes the invariant of the tree. For a tree whose metadata and array lengths fit
  together it returns (it never reads or writes outside an array), changes nothing but the index and
  the recorded index size, and leaves an index whose every cell is the sum of the values below it.
\<close>

theorem reindex_establishes_index:
  assumes "fq_shape p t"
  shows "\<exists>t'. reindex_fq p (int (length (fq_values t))) t = Some t' \<and> fq_ok p t'
    \<and> fq_values t' = fq_values t \<and> fq_size t' = fq_size t \<and> fq_max_size t' = fq_max_size t
    \<and> index_size_for p (fq_max_size t) = Some (fq_index_size t')
    \<and> map length (fq_index t') = map length (fq_index t)"
  using reindex_spec [OF assms] by auto

theorem reindex_establishes_index_witness: "fq_ok demo_params demo_fq \<and> fq_index_size demo_fq = 14"
  using reindex_establishes_index [OF demo_shape] demo_reindex
  by (auto simp: demo_raw_def demo_fq_def)

text \<open>
  C29: The layout fits its eight cells. For every capacity up to \<open>2 ^ (v + 7 b)\<close>, with \<open>v\<close> and \<open>b\<close> the
  exponents of the values per branch and of the branching factor, \<open>compute_tree_layout\<close> returns: it
  has at most eight levels, each level has a cell for every \<open>2 ^ b\<close> cells of the level below, the root
  level has one cell and the levels are stored without gap or overlap. With the branching factors of
  the code (32 and 32) this covers every \<open>int32_t\<close> capacity.
\<close>

theorem layout_fits:
  assumes "ValuesPerBranch p < n" "n \<le> 2 ^ (ValuesPerBranchLog2 p + BranchingFactorLog2 p * 7)"
  shows "\<exists>levels data. compute_tree_layout p n fresh_layout = Some (levels, data)
    \<and> 2 \<le> levels \<and> levels \<le> 8 \<and> levels_max data = levels - 1
    \<and> level_sizes data ! 0 = 1 \<and> level_starts data ! 0 = 0
    \<and> level_sizes data ! nat (levels - 1) = divUpV p n
    \<and> (\<forall>l \<in> {1..<levels}. level_sizes data ! nat (l - 1) = divUpI p (level_sizes data ! nat l)
         \<and> level_starts data ! nat l = level_starts data ! nat (l - 1) + level_sizes data ! nat (l - 1))
    \<and> index_size data = level_starts data ! nat (levels - 1) + level_sizes data ! nat (levels - 1)"
proof -
  obtain data where d: "compute_tree_layout p n fresh_layout = Some (levels_max data + 1, data)" "layout_for p n data"
    using compute_tree_layout_large [OF assms] by blast
  have lm: "1 \<le> levels_max data" "levels_max data < 8" using d(2) by (simp_all add: layout_for_def)
  have cell: "level_sizes data ! nat l = cdiv n (level_shift p data l)" "level_starts data ! nat l = level_start data l"
    if "0 \<le> l" "l \<le> levels_max data" for l using d(2) that by (auto simp: layout_for_def)
  have up: "level_sizes data ! nat (l - 1) = divUpI p (level_sizes data ! nat l)
      \<and> level_starts data ! nat l = level_starts data ! nat (l - 1) + level_sizes data ! nat (l - 1)"
    if l: "1 \<le> l" "l \<le> levels_max data" for l
  proof -
    have "level_shift p data (l - 1) = level_shift p data l + BranchingFactorLog2 p"
    proof -
      have "nat (levels_max data - (l - 1)) = Suc (nat (levels_max data - l))" using l by simp
      then show ?thesis by (simp add: level_shift_def)
    qed
    then show ?thesis using l cell [of l] cell [of "l - 1"] level_start_Suc [OF d(2), of "l - 1"]
      by (simp add: divUp_cdiv cdiv_cdiv)
  qed
  have "level_shift p data (levels_max data) = ValuesPerBranchLog2 p" by (simp add: level_shift_def)
  then have "level_sizes data ! nat (levels_max data) = divUpV p n" using cell(1) [of "levels_max data"] lm by (simp add: divUp_cdiv)
  moreover have "level_sizes data ! 0 = 1" "level_starts data ! 0 = 0" using cell [of 0] lm d(2) by (simp_all add: layout_for_def)
  moreover have "index_size data = level_starts data ! nat (levels_max data) + level_sizes data ! nat (levels_max data)"
    using level_start_Suc [OF d(2), of "levels_max data"] cell [of "levels_max data"] lm d(2) by (simp add: layout_for_def)
  ultimately show ?thesis using d(1) lm up by (intro exI [of _ "levels_max data + 1"] exI [of _ data]) auto
qed

theorem layout_fits_witness:
  "\<exists>levels data. compute_tree_layout \<lparr>BranchingFactorLog2 = 5, ValuesPerBranchLog2 = 5\<rparr> 2147483647 fresh_layout
    = Some (levels, data) \<and> levels \<le> 8"
proof -
  let ?p = "\<lparr>BranchingFactorLog2 = 5, ValuesPerBranchLog2 = 5\<rparr>"
  have "ValuesPerBranch ?p < 2147483647" "2147483647 \<le> (2 :: int) ^ (ValuesPerBranchLog2 ?p + BranchingFactorLog2 ?p * 7)"
    by (simp_all add: ValuesPerBranch_def)
  from layout_fits [OF this] show ?thesis by blast
qed

end
