(* ===== verification/FQTree_Search.thy ===== *)
theory FQTree_Search
  imports FQTree_Index
begin

text \<open>
  Searches of the packed sum tree. The interface of a walker is the locale \<open>sum_walker\<close>, interpreted on
  the two walkers of the code; inside it every search through the index is shown to return what a
  linear scan of the values returns. The searches that go up and down the index are partial functions
  in the model, so the lemmas also say that they return.
\<close>

section \<open>The reference searches\<close>

text \<open>
  The linear scans that the searches through the index have to agree with: the first position whose
  running sum stops the search, with the sum of the positions before it.
\<close>

function lin :: "('v::plus \<Rightarrow> bool) \<Rightarrow> (int \<Rightarrow> 'v) \<Rightarrow> int \<Rightarrow> int \<Rightarrow> 'v \<Rightarrow> int \<times> 'v" where
  "lin st f c e s = (if c < e then if st (s + f c) then (c, s) else lin st f (c + 1) e (s + f c) else (e, s))"
  by pat_completeness auto
termination by (relation "measure (\<lambda>(st, f, c, e, s). nat (e - c))") auto

function lin_bw :: "('v::plus \<Rightarrow> bool) \<Rightarrow> (int \<Rightarrow> 'v) \<Rightarrow> int \<Rightarrow> 'v \<Rightarrow> int \<times> 'v" where
  "lin_bw st f c s = (if 0 \<le> c then if st (s + f c) then (c, s) else lin_bw st f (c - 1) (s + f c) else (-1, s))"
  by pat_completeness auto
termination by (relation "measure (\<lambda>(st, f, c, s). nat (c + 1))") auto

declare lin.simps [simp del] lin_bw.simps [simp del]

lemma lin_done [simp]: "e \<le> c \<Longrightarrow> lin st f c e s = (e, s)"
  by (subst lin.simps) simp

lemma lin_bw_done [simp]: "c < 0 \<Longrightarrow> lin_bw st f c s = (-1, s)"
  by (subst lin_bw.simps) simp

text \<open>
  What the index searches ask of a walker: it keeps a running sum \<open>acc\<close>, \<open>compare\<close> decides on the running
  sum with the compared value added, \<open>next\<close> adds the compared value, and a larger sum does not stop later.
\<close>

locale sum_walker =
  fixes ops :: "('w, 'v::{linorder, ordered_comm_monoid_add}) walker"
    and acc :: "'w \<Rightarrow> 'v" and stop :: "'w \<Rightarrow> 'v \<Rightarrow> bool" and pos :: "'w \<Rightarrow> int"
  assumes compare_stop: "fst (compare_op ops w v) = stop w (acc w + v)"
    and compare_acc: "acc (snd (compare_op ops w v)) = acc w"
    and compare_keeps: "stop (snd (compare_op ops w v)) = stop w"
    and next_acc: "acc (next_op ops (snd (compare_op ops w v))) = acc w + v"
    and next_keeps: "stop (next_op ops w) = stop w"
    and idx_acc: "acc (idx_op ops w i) = acc w"
    and idx_pos: "pos (idx_op ops w i) = i"
    and stop_mono: "stop w a \<Longrightarrow> a \<le> b \<Longrightarrow> stop w b"
begin

lemma rsum_nonneg:
  assumes "\<And>j. 0 \<le> f j"
  shows "(0 :: 'v) \<le> rsum f a b"
  unfolding rsum_def using assms by (intro sum_nonneg) simp

lemma lin_skip:
  fixes f :: "int \<Rightarrow> 'v"
  assumes f: "\<And>j. 0 \<le> f j" "\<And>j. e \<le> j \<Longrightarrow> f j = 0"
    and "a \<le> b" "\<not> stop w (s + rsum f a b)"
  shows "lin (stop w) f a e s = lin (stop w) f b e (s + rsum f a b)"
  using assms(3,4)
proof (induction "nat (b - a)" arbitrary: a s)
  case 0
  then show ?case by simp
next
  case (Suc k)
  then have ab: "a < b" and k: "k = nat (b - (a + 1))" by linarith+
  show ?case
  proof (cases "a < e")
    case True
    have step: "rsum f a b = f a + rsum f (a + 1) b" by (rule rsum_step [OF ab])
    have "s + f a \<le> s + rsum f a b"
      unfolding step using rsum_nonneg [of f "a + 1" b] f(1) add_left_mono [of 0 "rsum f (a + 1) b" "s + f a"]
      by (simp add: add.assoc)
    then have "\<not> stop w (s + f a)" using Suc.prems(2) stop_mono by blast
    then show ?thesis
      using True Suc.hyps(1) [OF k, of "s + f a"] ab Suc.prems(2) by (subst lin.simps) (simp add: step add.assoc)
  next
    case False
    have "rsum f a b = 0" unfolding rsum_def using False f(2) by (intro sum.neutral) auto
    then show ?thesis using False ab by simp
  qed
qed

lemma lin_bw_skip:
  fixes f :: "int \<Rightarrow> 'v"
  assumes f: "\<And>j. 0 \<le> f j"
    and "0 \<le> a" "a \<le> b + 1" "\<not> stop w (s + rsum f a (b + 1))"
  shows "lin_bw (stop w) f b s = lin_bw (stop w) f (a - 1) (s + rsum f a (b + 1))"
  using assms(3,4)
proof (induction "nat (b + 1 - a)" arbitrary: b s)
  case 0
  then have "b = a - 1" by simp
  then show ?case by simp
next
  case (Suc k)
  then have ab: "a \<le> b" and k: "k = nat (b - 1 + 1 - a)" by linarith+
  have step: "rsum f a (b + 1) = rsum f a b + f b" using rsum_concat [of a b "b + 1" f] ab by simp
  have "s + f b \<le> s + rsum f a (b + 1)"
    unfolding step using rsum_nonneg [of f a b] f add_left_mono [of 0 "rsum f a b" "s + f b"]
    by (simp add: ac_simps)
  then have ns: "\<not> stop w (s + f b)" using Suc.prems(2) stop_mono by blast
  have eq: "s + rsum f a (b + 1) = s + f b + rsum f a b" unfolding step by (simp add: ac_simps)
  show ?case
    using Suc.hyps(1) [OF k, of "s + f b"] ns ab assms(2) Suc.prems(2) unfolding eq by (subst lin_bw.simps) simp
qed

lemma walk_cells_lin:
  assumes "c < e \<Longrightarrow> 0 \<le> c \<and> e \<le> int (length xs)"
  shows "\<exists>r w'. walk_cells ops xs c e w = Some (r, w') \<and> stop w' = stop w
    \<and> (case r of Some k \<Rightarrow> c \<le> k \<and> k < e \<and> lin (stop w) (\<lambda>j. xs ! nat j) c e (acc w) = (k, acc w')
         | None \<Rightarrow> lin (stop w) (\<lambda>j. xs ! nat j) c e (acc w) = (e, acc w'))"
  using assms
proof (induction "nat (e - c)" arbitrary: c w)
  case 0
  then show ?case by (subst walk_cells.simps) simp
next
  case (Suc n)
  then have ce: "c < e" and n: "n = nat (e - (c + 1))" by linarith+
  then have r: "rd xs c = Some (xs ! nat c)" using Suc.prems by (auto simp: rd_def)
  obtain hit w1 where cmp: "compare_op ops w (xs ! nat c) = (hit, w1)" by (rule prod.exhaust)
  note laws = compare_stop [of w "xs ! nat c"] compare_acc [of w "xs ! nat c"] compare_keeps [of w "xs ! nat c"]
    next_acc [of w "xs ! nat c"] next_keeps [of w1]
  show ?case
  proof (cases hit)
    case True
    then show ?thesis using ce r cmp laws
      by (subst walk_cells.simps, subst lin.simps) simp
  next
    case False
    have nx: "acc (next_op ops w1) = acc w + xs ! nat c" "stop (next_op ops w1) = stop w" using cmp laws by auto
    from Suc.hyps(1) [OF n, of "next_op ops w1", unfolded nx] Suc.prems ce obtain q w' where
      "walk_cells ops xs (c + 1) e (next_op ops w1) = Some (q, w')" "stop w' = stop w"
      "case q of Some k \<Rightarrow> c + 1 \<le> k \<and> k < e \<and> lin (stop w) (\<lambda>j. xs ! nat j) (c + 1) e (acc w + xs ! nat c) = (k, acc w')
         | None \<Rightarrow> lin (stop w) (\<lambda>j. xs ! nat j) (c + 1) e (acc w + xs ! nat c) = (e, acc w')"
      by auto
    moreover have "lin (stop w) (\<lambda>j. xs ! nat j) c e (acc w) = lin (stop w) (\<lambda>j. xs ! nat j) (c + 1) e (acc w + xs ! nat c)"
      using False cmp laws ce by (subst lin.simps) simp
    moreover have "walk_cells ops xs c e w = walk_cells ops xs (c + 1) e (next_op ops w1)"
      using False r cmp ce by (subst walk_cells.simps) simp
    ultimately show ?thesis by (auto split: option.splits)
  qed
qed

lemma walk_cells_bw_lin:
  assumes "c < int (length xs)" "e < c \<Longrightarrow> -1 \<le> e"
  shows "\<exists>r w'. walk_cells_bw ops xs c e w = Some (r, w') \<and> stop w' = stop w
    \<and> (case r of Some k \<Rightarrow> k \<le> c \<and> e < k \<and> lin_bw (stop w) (\<lambda>j. xs ! nat j) c (acc w) = (k, acc w')
         | None \<Rightarrow> lin_bw (stop w) (\<lambda>j. xs ! nat j) c (acc w) = lin_bw (stop w) (\<lambda>j. xs ! nat j) (min c e) (acc w'))"
  using assms
proof (induction "nat (c - e)" arbitrary: c w)
  case 0
  then show ?case by (subst walk_cells_bw.simps) (simp add: min_def)
next
  case (Suc n)
  then have ce: "e < c" and n: "n = nat (c - 1 - e)" by linarith+
  then have r: "rd xs c = Some (xs ! nat c)" and c0: "0 \<le> c" using Suc.prems by (auto simp: rd_def)
  obtain hit w1 where cmp: "compare_op ops w (xs ! nat c) = (hit, w1)" by (rule prod.exhaust)
  note laws = compare_stop [of w "xs ! nat c"] compare_acc [of w "xs ! nat c"] compare_keeps [of w "xs ! nat c"]
    next_acc [of w "xs ! nat c"] next_keeps [of w1]
  show ?case
  proof (cases hit)
    case True
    then show ?thesis using ce r c0 cmp laws
      by (subst walk_cells_bw.simps, subst lin_bw.simps) simp
  next
    case False
    have nx: "acc (next_op ops w1) = acc w + xs ! nat c" "stop (next_op ops w1) = stop w" using cmp laws by auto
    from Suc.hyps(1) [OF n, of "next_op ops w1", unfolded nx] Suc.prems ce obtain q w' where
      "walk_cells_bw ops xs (c - 1) e (next_op ops w1) = Some (q, w')" "stop w' = stop w"
      "case q of Some k \<Rightarrow> k \<le> c - 1 \<and> e < k \<and> lin_bw (stop w) (\<lambda>j. xs ! nat j) (c - 1) (acc w + xs ! nat c) = (k, acc w')
         | None \<Rightarrow> lin_bw (stop w) (\<lambda>j. xs ! nat j) (c - 1) (acc w + xs ! nat c)
             = lin_bw (stop w) (\<lambda>j. xs ! nat j) (min (c - 1) e) (acc w')"
      by auto
    moreover have "lin_bw (stop w) (\<lambda>j. xs ! nat j) c (acc w) = lin_bw (stop w) (\<lambda>j. xs ! nat j) (c - 1) (acc w + xs ! nat c)"
      using False cmp laws c0 by (subst lin_bw.simps) simp
    moreover have "walk_cells_bw ops xs c e w = walk_cells_bw ops xs (c - 1) e (next_op ops w1)"
      using False r cmp ce by (subst walk_cells_bw.simps) simp
    moreover have "min (c - 1) e = min c e" using ce by simp
    ultimately show ?thesis by (auto split: option.splits)
  qed
qed

lemma walk_index_cells:
  assumes L: "layout_for p N data" and I: "index_cells p N data f idxs" and l: "0 \<le> l" "l \<le> levels_max data"
    and f: "\<And>j. 0 \<le> f j" "\<And>j. e \<le> j \<Longrightarrow> f j = 0"
    and "0 \<le> a" "b \<le> cdiv N (level_shift p data l)"
  defines "W \<equiv> 2 ^ level_shift p data l" and "ls \<equiv> level_start data l"
  shows "\<exists>r w'. walk_cells ops idxs (ls + a) (b + ls) w = Some (r, w') \<and> stop w' = stop w
    \<and> (case r of Some c \<Rightarrow> a \<le> c - ls \<and> c - ls < b
            \<and> lin (stop w) f (a * W) e (acc w) = lin (stop w) f ((c - ls) * W) e (acc w')
         | None \<Rightarrow> lin (stop w) f (a * W) e (acc w) = lin (stop w) f (max a b * W) e (acc w'))"
  using assms(7,8)
proof (induction "nat (b - a)" arbitrary: a w)
  case 0
  then show ?case by (subst walk_cells.simps) (simp add: max_def)
next
  case (Suc n)
  then have ab: "a < b" and n: "n = nat (b - (a + 1))" by linarith+
  let ?v = "rsum f (a * W) ((a + 1) * W)"
  have cell: "idxs ! nat (ls + a) = ?v" using I l Suc.prems ab by (simp add: index_cells_def W_def ls_def)
  have "0 \<le> ls + a" "ls + (a + 1) \<le> int (length idxs)"
    using level_cell_bounds(1) [OF L l, of a] level_cell_bounds(2) [OF L l, of "a + 1"] Suc.prems ab I
    by (auto simp: ls_def index_cells_def)
  then have r: "rd idxs (ls + a) = Some ?v" using cell by (simp add: rd_def)
  obtain hit w1 where cmp: "compare_op ops w ?v = (hit, w1)" by (rule prod.exhaust)
  note laws = compare_stop [of w ?v] compare_acc [of w ?v] compare_keeps [of w ?v] next_acc [of w ?v] next_keeps [of w1]
  show ?case
  proof (cases hit)
    case True
    then show ?thesis using ab r cmp laws by (subst walk_cells.simps) simp
  next
    case False
    have nx: "acc (next_op ops w1) = acc w + ?v" "stop (next_op ops w1) = stop w" using cmp laws by auto
    have "a * W \<le> (a + 1) * W" by (simp add: W_def mult_right_mono)
    moreover have "\<not> stop w (acc w + ?v)" using False cmp laws by simp
    ultimately have skip: "lin (stop w) f (a * W) e (acc w) = lin (stop w) f ((a + 1) * W) e (acc w + ?v)"
      using f by (intro lin_skip) auto
    have "walk_cells ops idxs (ls + a) (b + ls) w = walk_cells ops idxs (ls + (a + 1)) (b + ls) (next_op ops w1)"
      using ab r cmp False by (subst walk_cells.simps) (simp add: add.assoc)
    moreover from Suc.hyps(1) [OF n, of "next_op ops w1", unfolded nx] Suc.prems ab obtain q w' where
      "walk_cells ops idxs (ls + (a + 1)) (b + ls) (next_op ops w1) = Some (q, w')" "stop w' = stop w"
      "case q of Some c \<Rightarrow> a + 1 \<le> c - ls \<and> c - ls < b
            \<and> lin (stop w) f ((a + 1) * W) e (acc w + ?v) = lin (stop w) f ((c - ls) * W) e (acc w')
         | None \<Rightarrow> lin (stop w) f ((a + 1) * W) e (acc w + ?v) = lin (stop w) f (max (a + 1) b * W) e (acc w')"
      by auto
    moreover have "max (a + 1) b = max a b" using ab by simp
    ultimately show ?thesis using skip by (auto split: option.splits)
  qed
qed

lemma walk_index_cells_bw:
  assumes L: "layout_for p N data" and I: "index_cells p N data f idxs" and l: "0 \<le> l" "l \<le> levels_max data"
    and f: "\<And>j. 0 \<le> f j"
    and "-1 \<le> b" "a < cdiv N (level_shift p data l)"
  defines "W \<equiv> 2 ^ level_shift p data l" and "ls \<equiv> level_start data l"
  shows "\<exists>r w'. walk_cells_bw ops idxs (ls + a) (b + ls) w = Some (r, w') \<and> stop w' = stop w
    \<and> (case r of Some c \<Rightarrow> c - ls \<le> a \<and> b < c - ls
            \<and> lin_bw (stop w) f ((a + 1) * W - 1) (acc w) = lin_bw (stop w) f ((c - ls + 1) * W - 1) (acc w')
         | None \<Rightarrow> lin_bw (stop w) f ((a + 1) * W - 1) (acc w) = lin_bw (stop w) f ((min a b + 1) * W - 1) (acc w'))"
  using assms(6,7)
proof (induction "nat (a - b)" arbitrary: a w)
  case 0
  then show ?case by (subst walk_cells_bw.simps) (simp add: min_def)
next
  case (Suc n)
  then have ab: "b < a" and n: "n = nat (a - 1 - b)" by linarith+
  then have a0: "0 \<le> a" using Suc.prems by simp
  let ?v = "rsum f (a * W) ((a + 1) * W)"
  have cell: "idxs ! nat (ls + a) = ?v" using I l Suc.prems a0 by (simp add: index_cells_def W_def ls_def)
  have "0 \<le> ls + a" "ls + (a + 1) \<le> int (length idxs)"
    using level_cell_bounds(1) [OF L l, of a] level_cell_bounds(2) [OF L l, of "a + 1"] Suc.prems a0 I
    by (auto simp: ls_def index_cells_def)
  then have r: "rd idxs (ls + a) = Some ?v" using cell by (simp add: rd_def)
  obtain hit w1 where cmp: "compare_op ops w ?v = (hit, w1)" by (rule prod.exhaust)
  note laws = compare_stop [of w ?v] compare_acc [of w ?v] compare_keeps [of w ?v] next_acc [of w ?v] next_keeps [of w1]
  show ?case
  proof (cases hit)
    case True
    then show ?thesis using ab r cmp laws by (subst walk_cells_bw.simps) simp
  next
    case False
    have nx: "acc (next_op ops w1) = acc w + ?v" "stop (next_op ops w1) = stop w" using cmp laws by auto
    have "0 \<le> a * W" "a * W \<le> (a + 1) * W - 1 + 1" using a0 by (simp_all add: W_def mult_right_mono)
    moreover have "\<not> stop w (acc w + rsum f (a * W) ((a + 1) * W - 1 + 1))" using False cmp laws by simp
    ultimately have "lin_bw (stop w) f ((a + 1) * W - 1) (acc w)
        = lin_bw (stop w) f (a * W - 1) (acc w + rsum f (a * W) ((a + 1) * W - 1 + 1))"
      by (rule lin_bw_skip [where f = f, OF f])
    then have skip: "lin_bw (stop w) f ((a + 1) * W - 1) (acc w) = lin_bw (stop w) f ((a - 1 + 1) * W - 1) (acc w + ?v)"
      by simp
    have "walk_cells_bw ops idxs (ls + a) (b + ls) w = walk_cells_bw ops idxs (ls + (a - 1)) (b + ls) (next_op ops w1)"
      using ab r cmp False by (subst walk_cells_bw.simps) (simp add: add_diff_eq)
    moreover from Suc.hyps(1) [OF n, of "next_op ops w1", unfolded nx] Suc.prems ab obtain q w' where
      "walk_cells_bw ops idxs (ls + (a - 1)) (b + ls) (next_op ops w1) = Some (q, w')" "stop w' = stop w"
      "case q of Some c \<Rightarrow> c - ls \<le> a - 1 \<and> b < c - ls
            \<and> lin_bw (stop w) f ((a - 1 + 1) * W - 1) (acc w + ?v) = lin_bw (stop w) f ((c - ls + 1) * W - 1) (acc w')
         | None \<Rightarrow> lin_bw (stop w) f ((a - 1 + 1) * W - 1) (acc w + ?v) = lin_bw (stop w) f ((min (a - 1) b + 1) * W - 1) (acc w')"
      by auto
    moreover have "min (a - 1) b = min a b" using ab by simp
    ultimately show ?thesis using skip by (auto split: option.splits)
  qed
qed

end

text \<open>One level up, a cell covers \<open>B\<close> cells of the level below.\<close>

lemma level_shift_up:
  assumes "0 < l" "l \<le> levels_max data"
  shows "level_shift p data (l - 1) = level_shift p data l + BranchingFactorLog2 p"
proof -
  have "nat (levels_max data - (l - 1)) = Suc (nat (levels_max data - l))" using assms by simp
  then show ?thesis by (simp add: level_shift_def)
qed

lemma past_level_end:
  assumes "cdiv N k \<le> x"
  shows "N \<le> x * 2 ^ k"
  using assms less_cdiv_iff [of x N k] by simp

text \<open>Going up in a walk passes at least one value, or all values have been passed.\<close>

lemma up_measure:
  fixes x y N l lm :: int
  assumes "x + 1 \<le> y" "0 < l" "l \<le> lm" "lm < 8"
  shows "16 * nat (N - y) + (if y < N then nat (lm - (l - 1)) else nat (l - 1))
    < 16 * nat (N - x) + (if x < N then nat (lm - l) else nat l)"
proof (cases "x < N")
  case True
  have "(if y < N then nat (lm - (l - 1)) else nat (l - 1)) \<le> 8" using assms by auto
  moreover have "nat (N - y) + 1 \<le> nat (N - x)" using True assms(1) by linarith
  ultimately have "16 * nat (N - y) + (if y < N then nat (lm - (l - 1)) else nat (l - 1)) < 16 * nat (N - x)"
    by linarith
  then show ?thesis by (rule trans_less_add1)
next
  case False
  then show ?thesis using assms by auto
qed

context sum_walker
begin

text \<open>One call of \<open>walk_index_fw\<close>: it descends, returns a leaf, ascends or gives up.\<close>

lemma walk_index_fw_step:
  assumes L: "layout_for p N data" and I: "index_cells p N data f idxs"
    and f: "\<And>j. 0 \<le> f j" "\<And>j. e \<le> j \<Longrightarrow> f j = 0" and eN: "e \<le> N"
    and l: "0 \<le> l" "l \<le> levels_max data" and start: "0 \<le> start"
  defines "B \<equiv> 2 ^ BranchingFactorLog2 p" and "W \<equiv> 2 ^ level_shift p data l"
  obtains (hit) i w1 where "start \<le> i" "i * W < N" "stop w1 = stop w"
      "lin (stop w) f (start * W) e (acc w) = lin (stop w) f (i * W) e (acc w1)"
      "walk_index_fw p ops data idxs start l w
        = (if l < levels_max data then walk_index_fw p ops data idxs (i * B) (l + 1) w1 else Some (i, w1))"
  | (miss) w1 where "stop w1 = stop w"
      "lin (stop w) f (start * W) e (acc w) = lin (stop w) f ((start div B + 1) * B * W) e (acc w1)"
      "l = 0 \<Longrightarrow> N \<le> (start div B + 1) * B * W"
      "walk_index_fw p ops data idxs start l w
        = (if l > 0 then walk_index_fw p ops data idxs (start div B + 1) (l - 1) w1 else Some (-1, w1))"
proof -
  define ls n where "ls = level_start data l" and "n = cdiv N (level_shift p data l)"
  define be where "be = (start div B + 1) * B"
  define lim where "lim = (if be > n then n else be)"
  have pos: "0 < B" by (simp add: B_def)
  have be_eq: "(start OR BranchingFactorMask p) + 1 = be"
    by (simp add: BranchingFactorMask_def B_def be_def or_mask_Suc)
  note rds = layout_for_rd [OF L l]
  have "lim \<le> n" by (simp add: lim_def)
  from walk_index_cells [where f = f and e = e and w = w, OF L I l f(1) f(2) start this [unfolded n_def], folded ls_def W_def]
  obtain r w1 where R: "walk_cells ops idxs (ls + start) (lim + ls) w = Some (r, w1)" "stop w1 = stop w"
    "case r of Some c \<Rightarrow> start \<le> c - ls \<and> c - ls < lim
            \<and> lin (stop w) f (start * W) e (acc w) = lin (stop w) f ((c - ls) * W) e (acc w1)
         | None \<Rightarrow> lin (stop w) f (start * W) e (acc w) = lin (stop w) f (max start lim * W) e (acc w1)"
    by blast
  have unf: "walk_index_fw p ops data idxs start l w =
      (case r of Some c \<Rightarrow> if l < levels_max data then walk_index_fw p ops data idxs ((c - ls) * B) (l + 1) w1 else Some (c - ls, w1)
       | None \<Rightarrow> if l > 0 then walk_index_fw p ops data idxs (be div B) (l - 1) w1 else Some (-1, w1))"
    using rds R(1) by (subst walk_index_fw.simps)
      (simp add: be_eq Let_def lim_def [symmetric] ls_def [symmetric] n_def [symmetric] push_bit_eq_mult drop_bit_eq_div B_def
        split: option.split)
  show thesis
  proof (cases r)
    case (Some c)
    then have "c - ls < n" using R(3) by (auto simp: lim_def split: if_splits)
    then have "(c - ls) * W < N" unfolding n_def less_cdiv_iff W_def .
    then show thesis using hit [of "c - ls" w1] R unf Some by simp
  next
    case None
    have end_of_level: "N \<le> be * W \<and> lin (stop w) f (max start lim * W) e (acc w1) = lin (stop w) f (be * W) e (acc w1)"
      if "n \<le> lim" "n \<le> be"
    proof -
      have "N \<le> max start lim * W" "N \<le> be * W" using that unfolding n_def W_def by (auto intro: past_level_end)
      then show ?thesis using eN by simp
    qed
    have "start \<le> be" unfolding be_def by (rule window_facts(1) [OF pos])
    then have eq: "lin (stop w) f (max start lim * W) e (acc w1) = lin (stop w) f (be * W) e (acc w1)"
      using end_of_level by (cases "be > n") (simp_all add: lim_def max_def)
    have "N \<le> be * W" if "l = 0"
    proof -
      have "n = 1" using L that by (simp add: n_def layout_for_def)
      moreover have "1 * 1 \<le> be" unfolding be_def using start pos
        by (intro mult_mono) (simp_all add: pos_imp_zdiv_nonneg_iff)
      ultimately show ?thesis using end_of_level by (simp add: lim_def)
    qed
    moreover have "be div B = start div B + 1" using pos by (simp add: be_def)
    ultimately show thesis using miss [of w1] R unf None eq by (simp add: be_def)
  qed
qed

lemma walk_index_fw_lin:
  assumes L: "layout_for p N data" and I: "index_cells p N data f idxs"
    and f: "\<And>j. 0 \<le> f j" "\<And>j. e \<le> j \<Longrightarrow> f j = 0" and eN: "e \<le> N"
    and "0 \<le> l" "l \<le> levels_max data" "0 \<le> start"
  shows "\<exists>r w'. walk_index_fw p ops data idxs start l w = Some (r, w') \<and> stop w' = stop w
    \<and> lin (stop w) f (start * 2 ^ level_shift p data l) e (acc w)
        = (if r < 0 then (e, acc w') else lin (stop w) f (r * ValuesPerBranch p) e (acc w'))"
  using assms(6-)
proof (induction "16 * nat (N - start * 2 ^ level_shift p data l)
      + (if start * 2 ^ level_shift p data l < N then nat (levels_max data - l) else nat l)"
    arbitrary: start l w rule: less_induct)
  case (less start l w)
  define B where "B = (2 :: int) ^ BranchingFactorLog2 p"
  define W where "W = (2 :: int) ^ level_shift p data l"
  have pos: "0 < B" "0 < W" by (simp_all add: B_def W_def)
  have lm8: "levels_max data < 8" using L by (simp add: layout_for_def)
  show ?case
  proof (cases rule: walk_index_fw_step [where f = f and e = e and w = w, OF L I f(1) f(2) eN less.prems, folded B_def W_def,
        case_names _ hit miss])
    case (hit i w1)
    show ?thesis
    proof (cases "l < levels_max data")
      case True
      let ?W = "2 ^ level_shift p data (l + 1) :: int"
      have W: "i * B * ?W = i * W"
        using level_shift_up [of "l + 1" data p] True less.prems(1) by (simp add: W_def B_def power_add mult.assoc)
      have "start * W \<le> i * W" using hit(1) pos by (intro mult_right_mono) simp_all
      then have "16 * nat (N - i * B * ?W) + (if i * B * ?W < N then nat (levels_max data - (l + 1)) else nat (l + 1))
          < 16 * nat (N - start * 2 ^ level_shift p data l)
            + (if start * 2 ^ level_shift p data l < N then nat (levels_max data - l) else nat l)"
        using hit(2) True unfolding W W_def [symmetric] by simp
      from less.hyps [OF this, of w1] True less.prems(1,3) hit(1) pos show ?thesis
        unfolding W hit(3) W_def [symmetric] using hit(4,5) by (simp split del: if_split)
    next
      case False
      then have "W = ValuesPerBranch p" using less.prems(2) by (simp add: W_def level_shift_def ValuesPerBranch_def)
      then show ?thesis using hit less.prems(3) False by (auto simp: W_def [symmetric])
    qed
  next
    case (miss w1)
    let ?be = "(start div B + 1) * B"
    show ?thesis
    proof (cases "0 < l")
      case True
      let ?W = "2 ^ level_shift p data (l - 1) :: int"
      have W: "(start div B + 1) * ?W = ?be * W"
        using level_shift_up [OF True less.prems(2), of p] by (simp add: W_def B_def power_add)
      have bes: "start + 1 \<le> ?be" using window_end_greater [OF pos(1), of start] by simp
      have "(start + 1) * W \<le> ?be * W" using bes pos(2) by (intro mult_right_mono) simp_all
      then have beW: "start * W + 1 \<le> ?be * W" using pos(2) by (simp add: algebra_simps)
      have "16 * nat (N - (start div B + 1) * ?W)
            + (if (start div B + 1) * ?W < N then nat (levels_max data - (l - 1)) else nat (l - 1))
          < 16 * nat (N - start * 2 ^ level_shift p data l)
            + (if start * 2 ^ level_shift p data l < N then nat (levels_max data - l) else nat l)"
        using up_measure [OF beW True less.prems(2) lm8, of N] unfolding W W_def [symmetric] .
      from less.hyps [OF this, of w1] True less.prems pos(1) show ?thesis
        unfolding W miss(1) W_def [symmetric] using miss(2,4) by (simp add: pos_imp_zdiv_nonneg_iff split del: if_split)
    next
      case False
      then show ?thesis unfolding W_def [symmetric] using miss eN less.prems(1) by simp
    qed
  qed
qed

end

context sum_walker
begin

lemma walk_index_bw_step:
  assumes L: "layout_for p N data" and I: "index_cells p N data f idxs" and f: "\<And>j. 0 \<le> f j"
    and l: "0 \<le> l" "l \<le> levels_max data" and start: "0 \<le> start" "(start + 1) * 2 ^ level_shift p data l \<le> N"
  defines "B \<equiv> 2 ^ BranchingFactorLog2 p" and "W \<equiv> 2 ^ level_shift p data l"
  obtains (hit) i w1 where "0 \<le> i" "i \<le> start" "stop w1 = stop w"
      "lin_bw (stop w) f ((start + 1) * W - 1) (acc w) = lin_bw (stop w) f ((i + 1) * W - 1) (acc w1)"
      "walk_index_bw p ops data idxs start l w
        = (if l < levels_max data then walk_index_bw p ops data idxs ((i + 1) * B - 1) (l + 1) w1 else Some (i, w1))"
  | (miss) w1 where "stop w1 = stop w"
      "lin_bw (stop w) f ((start + 1) * W - 1) (acc w) = lin_bw (stop w) f (start div B * B * W - 1) (acc w1)"
      "l = 0 \<Longrightarrow> start div B = 0"
      "walk_index_bw p ops data idxs start l w
        = (if l > 0 then walk_index_bw p ops data idxs (start div B - 1) (l - 1) w1 else Some (-1, w1))"
proof -
  define ls n where "ls = level_start data l" and "n = cdiv N (level_shift p data l)"
  define be where "be = start div B * B - 1"
  have pos: "0 < B" "0 < W" by (simp_all add: B_def W_def)
  have be_eq: "(start AND NOT (BranchingFactorMask p)) - 1 = be"
    by (simp add: BranchingFactorMask_def B_def be_def and_not_mask)
  note rds = layout_for_rd [OF L l]
  have "start * W < N" using start(2) pos(2) by (simp add: W_def [symmetric] algebra_simps)
  then have sn: "start < n" unfolding n_def less_cdiv_iff W_def .
  have sB: "0 \<le> start div B * B" "start div B * B \<le> start"
    using window_facts [OF pos(1)] start(1) pos(1) by auto
  then have be: "-1 \<le> be" "be < start" by (simp_all add: be_def)
  from walk_index_cells_bw [where f = f and w = w, OF L I l f be(1) sn [unfolded n_def], folded ls_def W_def]
  obtain r w1 where R: "walk_cells_bw ops idxs (ls + start) (be + ls) w = Some (r, w1)" "stop w1 = stop w"
    "case r of Some c \<Rightarrow> c - ls \<le> start \<and> be < c - ls
            \<and> lin_bw (stop w) f ((start + 1) * W - 1) (acc w) = lin_bw (stop w) f ((c - ls + 1) * W - 1) (acc w1)
         | None \<Rightarrow> lin_bw (stop w) f ((start + 1) * W - 1) (acc w) = lin_bw (stop w) f ((min start be + 1) * W - 1) (acc w1)"
    by blast
  have unf: "walk_index_bw p ops data idxs start l w =
      (case r of Some c \<Rightarrow> if l < levels_max data then walk_index_bw p ops data idxs ((c - ls + 1) * B - 1) (l + 1) w1 else Some (c - ls, w1)
       | None \<Rightarrow> if l > 0 then walk_index_bw p ops data idxs (be div B) (l - 1) w1 else Some (-1, w1))"
    using rds R(1) start(1) sn by (subst walk_index_bw.simps)
      (simp add: be_eq Let_def ls_def [symmetric] n_def [symmetric] push_bit_eq_mult drop_bit_eq_div B_def
        split: option.split)
  show thesis
  proof (cases r)
    case (Some c)
    then have "0 \<le> c - ls" using R(3) be(1) by simp
    then show thesis using hit [of "c - ls" w1] R unf Some by simp
  next
    case None
    have "start div B = 0" if "l = 0"
    proof -
      have "n = 1" using L that by (simp add: n_def layout_for_def)
      then have "start = 0" using sn start(1) by simp
      then show ?thesis by simp
    qed
    moreover have "be div B = start div B - 1"
    proof -
      have "be div B = (-1 + start div B * B) div B" by (simp add: be_def)
      also have "\<dots> = start div B + -1 div B" using pos(1) by (intro div_mult_self1) simp
      also have "-1 div B = -1" using pos(1) by (rule div_eq_minus1)
      finally show ?thesis by simp
    qed
    moreover have "min start be + 1 = start div B * B" using be(2) by (simp add: be_def)
    ultimately show thesis using miss [of w1] R unf None by simp
  qed
qed

lemma walk_index_bw_lin:
  assumes L: "layout_for p N data" and I: "index_cells p N data f idxs" and f: "\<And>j. 0 \<le> f j"
    and "0 \<le> l" "l \<le> levels_max data" "-1 \<le> start" "(start + 1) * 2 ^ level_shift p data l \<le> N"
  shows "\<exists>r w'. walk_index_bw p ops data idxs start l w = Some (r, w') \<and> stop w' = stop w
    \<and> (r < 0 \<or> (r + 1) * ValuesPerBranch p \<le> (start + 1) * 2 ^ level_shift p data l)
    \<and> lin_bw (stop w) f ((start + 1) * 2 ^ level_shift p data l - 1) (acc w)
        = (if r < 0 then (-1, acc w') else lin_bw (stop w) f ((r + 1) * ValuesPerBranch p - 1) (acc w'))"
  using assms(4-)
proof (induction "16 * nat ((start + 1) * 2 ^ level_shift p data l) + nat (levels_max data - l)"
    arbitrary: start l w rule: less_induct)
  case (less start l w)
  define B where "B = (2 :: int) ^ BranchingFactorLog2 p"
  define W where "W = (2 :: int) ^ level_shift p data l"
  have pos: "0 < B" "0 < W" by (simp_all add: B_def W_def)
  have lm8: "levels_max data < 8" using L by (simp add: layout_for_def)
  show ?case
  proof (cases "start < 0")
    case True
    then have s: "start = -1" using less.prems(3) by simp
    have "walk_index_bw p ops data idxs start l w = Some (-1, w)"
      using layout_for_rd [OF L less.prems(1,2)] s by (subst walk_index_bw.simps) simp
    then show ?thesis using s by simp
  next
    case False
    then have s0: "0 \<le> start" by simp
    have sW: "0 \<le> start * W" "(start + 1) * W = start * W + W" using s0 pos by (simp_all add: algebra_simps)
    show ?thesis
    proof (cases rule: walk_index_bw_step [where f = f and w = w, OF L I f less.prems(1,2) s0 less.prems(4), folded B_def W_def,
          case_names hit miss])
      case (hit i w1)
      have le: "(i + 1) * W \<le> (start + 1) * W" using hit(2) pos by (intro mult_right_mono) simp_all
      show ?thesis
      proof (cases "l < levels_max data")
        case True
        let ?W = "2 ^ level_shift p data (l + 1) :: int"
        have W: "((i + 1) * B - 1 + 1) * ?W = (i + 1) * W"
          using level_shift_up [of "l + 1" data p] True less.prems(1) by (simp add: W_def B_def power_add mult.assoc)
        have m: "16 * nat (((i + 1) * B - 1 + 1) * ?W) + nat (levels_max data - (l + 1))
            < 16 * nat ((start + 1) * 2 ^ level_shift p data l) + nat (levels_max data - l)"
          using le True unfolding W W_def [symmetric] by (simp add: nat_mono add_le_less_mono)
        have "0 \<le> (i + 1) * B" using hit(1) pos by simp
        with less.hyps [OF m, of w1] True less.prems(1,4) le show ?thesis
          unfolding W hit(3) W_def [symmetric] using hit(4,5) by (auto split del: if_split)
      next
        case False
        then have "W = ValuesPerBranch p" using less.prems(2) by (simp add: W_def level_shift_def ValuesPerBranch_def)
        then show ?thesis unfolding W_def [symmetric] using hit False le by auto
      qed
    next
      case (miss w1)
      show ?thesis
      proof (cases "0 < l")
        case True
        let ?W = "2 ^ level_shift p data (l - 1) :: int"
        have W: "(start div B - 1 + 1) * ?W = start div B * B * W"
          using level_shift_up [OF True less.prems(2), of p] by (simp add: W_def B_def power_add)
        have "start div B * B * W \<le> start * W" using window_facts(2) [OF pos(1), of start] pos by (intro mult_right_mono) simp_all
        then have le: "start div B * B * W + 1 \<le> (start + 1) * W" using sW pos by linarith
        have d0: "0 \<le> start div B" by (rule window_facts(3) [OF pos(1) s0])
        then have nn: "0 \<le> start div B * B * W" using pos by simp
        have "16 * nat ((start div B - 1 + 1) * ?W) + nat (levels_max data - (l - 1))
            < 16 * nat ((start + 1) * 2 ^ level_shift p data l) + nat (levels_max data - l)"
        proof -
          have "nat (start div B * B * W) + 1 \<le> nat ((start + 1) * W)" using le nn by linarith
          moreover have "nat (levels_max data - (l - 1)) \<le> 8" using lm8 True by simp
          ultimately show ?thesis unfolding W W_def [symmetric] by linarith
        qed
        from less.hyps [OF this, of w1] True less.prems(2,4) le d0 show ?thesis
          unfolding W miss(1) W_def [symmetric] using miss(2,4) by (auto split del: if_split)
      next
        case l0: False
        then show ?thesis unfolding W_def [symmetric] using miss less.prems(1) by simp
      qed
    qed
  qed
qed

lemma find_index_from_lin:
  assumes L: "layout_for p N data" and I: "index_cells p N data f idxs"
    and f: "\<And>j. 0 \<le> f j" "\<And>j. e \<le> j \<Longrightarrow> f j = 0" and eN: "e \<le> N"
    and "0 \<le> l" "l \<le> levels_max data" "0 \<le> a"
  shows "\<exists>r w'. find_index_from p ops data idxs a l w = Some (r, w') \<and> stop w' = stop w
    \<and> lin (stop w) f (a * 2 ^ level_shift p data l) e (acc w)
        = (if r < 0 then (e, acc w') else lin (stop w) f (r * ValuesPerBranch p) e (acc w'))"
  using assms(6-)
proof (induction "nat (levels_max data - l)" arbitrary: a l w rule: less_induct)
  case (less l a w)
  define B where "B = (2 :: int) ^ BranchingFactorLog2 p"
  define W where "W = (2 :: int) ^ level_shift p data l"
  define ls n where "ls = level_start data l" and "n = cdiv N (level_shift p data l)"
  note rds = layout_for_rd [OF L less.prems(1,2)]
  from walk_index_cells [where f = f and e = e and w = w, OF L I less.prems(1,2) f(1) f(2) less.prems(3) order_refl,
      folded ls_def W_def n_def]
  obtain r w1 where R: "walk_cells ops idxs (ls + a) (n + ls) w = Some (r, w1)" "stop w1 = stop w"
    "case r of Some c \<Rightarrow> a \<le> c - ls \<and> c - ls < n
            \<and> lin (stop w) f (a * W) e (acc w) = lin (stop w) f ((c - ls) * W) e (acc w1)
         | None \<Rightarrow> lin (stop w) f (a * W) e (acc w) = lin (stop w) f (max a n * W) e (acc w1)"
    by blast
  have unf: "find_index_from p ops data idxs a l w =
      (case r of Some c \<Rightarrow> if l < levels_max data then find_index_from p ops data idxs ((c - ls) * B) (l + 1) w1 else Some (c - ls, w1)
       | None \<Rightarrow> Some (-1, w1))"
    using rds R(1) less.prems(2) by (subst find_index_from.simps)
      (simp add: ls_def [symmetric] n_def [symmetric] push_bit_eq_mult B_def add.commute split: option.split)
  show ?case
  proof (cases r)
    case (Some c)
    let ?i = "c - ls"
    have i: "a \<le> ?i" "lin (stop w) f (a * W) e (acc w) = lin (stop w) f (?i * W) e (acc w1)" using R(3) Some by auto
    show ?thesis
    proof (cases "l < levels_max data")
      case True
      have W: "?i * B * 2 ^ level_shift p data (l + 1) = ?i * W"
        using level_shift_up [of "l + 1" data p] True less.prems(1) by (simp add: W_def B_def power_add mult.assoc)
      have "0 \<le> ?i * B" using i(1) less.prems(3) by (simp add: B_def)
      with less.hyps [of "l + 1" "?i * B" w1] True less.prems(1) show ?thesis
        unfolding W R(2) W_def [symmetric] i(2) using unf Some by (auto split del: if_split)
    next
      case False
      then have "W = ValuesPerBranch p" using less.prems(2) by (simp add: W_def level_shift_def ValuesPerBranch_def)
      then show ?thesis unfolding W_def [symmetric] using i less.prems(3) unf Some False R(2) by auto
    qed
  next
    case None
    have "N \<le> max a n * W" unfolding n_def W_def by (rule past_level_end) simp
    then show ?thesis unfolding W_def [symmetric] using unf None R(2,3) eN by simp
  qed
qed

end

section \<open>Searches through the index are linear searches\<close>

lemma lin_cong:
  assumes "\<And>j. c \<le> j \<Longrightarrow> j < e \<Longrightarrow> f j = g j"
  shows "lin st f c e s = lin st g c e s"
  using assms
proof (induction st f c e s rule: lin.induct)
  case (1 st f c e s)
  show ?case
  proof (cases "c < e \<and> \<not> st (s + f c)")
    case True
    then have "lin st f (c + 1) e (s + f c) = lin st g (c + 1) e (s + f c)" by (intro "1.IH" "1.prems") auto
    then show ?thesis using "1.prems" [of c] True by (subst (1 2) lin.simps) simp
  next
    case False
    then show ?thesis using "1.prems" [of c] by (subst (1 2) lin.simps) auto
  qed
qed

lemma lin_bw_cong:
  assumes "\<And>j. 0 \<le> j \<Longrightarrow> j \<le> c \<Longrightarrow> f j = g j"
  shows "lin_bw st f c s = lin_bw st g c s"
  using assms
proof (induction st f c s rule: lin_bw.induct)
  case (1 st f c s)
  show ?case
  proof (cases "0 \<le> c \<and> \<not> st (s + f c)")
    case True
    then have "lin_bw st f (c - 1) (s + f c) = lin_bw st g (c - 1) (s + f c)" by (intro "1.IH" "1.prems") auto
    then show ?thesis using "1.prems" [of c] True by (subst (1 2) lin_bw.simps) simp
  next
    case False
    then show ?thesis using "1.prems" [of c] by (subst (1 2) lin_bw.simps) auto
  qed
qed

lemma lin_spec:
  assumes "lin st f a e s = (i, s')" "a \<le> e"
  shows "a \<le> i \<and> i \<le> e \<and> s' = s + rsum f a i \<and> (\<forall>j \<in> {a..<i}. \<not> st (s + rsum f a (j + 1)))
    \<and> (i < e \<longrightarrow> st (s + rsum f a (i + 1)))"
  using assms
proof (induction st f a e s rule: lin.induct)
  case (1 st f a e s)
  show ?case
  proof (cases "a < e \<and> \<not> st (s + f a)")
    case True
    then have "lin st f (a + 1) e (s + f a) = (i, s')" using "1.prems"(1) by (subst (asm) lin.simps) simp
    then have IH: "a + 1 \<le> i" "i \<le> e" "s' = s + f a + rsum f (a + 1) i"
      "\<forall>j \<in> {a + 1..<i}. \<not> st (s + f a + rsum f (a + 1) (j + 1))" "i < e \<longrightarrow> st (s + f a + rsum f (a + 1) (i + 1))"
      using "1.IH" True by auto
    have st: "s + rsum f a b = s + f a + rsum f (a + 1) b" if "a < b" for b
      using that by (simp add: rsum_step add.assoc)
    have "\<not> st (s + rsum f a (j + 1))" if "j \<in> {a..<i}" for j
      using that True IH(4) st [of "j + 1"] by (cases "j = a") auto
    then show ?thesis using IH st [of i] st [of "i + 1"] by auto
  next
    case False
    then show ?thesis using "1.prems" by (subst (asm) lin.simps) (auto split: if_splits)
  qed
qed

lemma lin_bw_spec:
  assumes "lin_bw st f c s = (i, s')" "-1 \<le> c"
  shows "-1 \<le> i \<and> i \<le> c \<and> s' = s + rsum f (i + 1) (c + 1) \<and> (\<forall>j \<in> {i + 1..c}. \<not> st (s + rsum f j (c + 1)))
    \<and> (0 \<le> i \<longrightarrow> st (s + rsum f i (c + 1)))"
  using assms
proof (induction st f c s rule: lin_bw.induct)
  case (1 st f c s)
  show ?case
  proof (cases "0 \<le> c \<and> \<not> st (s + f c)")
    case True
    then have "lin_bw st f (c - 1) (s + f c) = (i, s')" using "1.prems"(1) by (subst (asm) lin_bw.simps) simp
    then have IH: "-1 \<le> i" "i \<le> c - 1" "s' = s + f c + rsum f (i + 1) c"
      "\<forall>j \<in> {i + 1..c - 1}. \<not> st (s + f c + rsum f j c)" "0 \<le> i \<longrightarrow> st (s + f c + rsum f i c)"
      using "1.IH" True by auto
    have st: "s + rsum f b (c + 1) = s + f c + rsum f b c" if "b \<le> c" for b
    proof -
      have "rsum f b (c + 1) = rsum f b c + f c" using rsum_concat [of b c "c + 1" f] that by simp
      then show ?thesis by (simp only: ac_simps)
    qed
    have "\<not> st (s + rsum f j (c + 1))" if "j \<in> {i + 1..c}" for j
      using that True IH(4) st [of j] by (cases "j = c") auto
    then show ?thesis using IH st [of i] st [of "i + 1"] by auto
  next
    case False
    then show ?thesis using "1.prems" by (subst (asm) lin_bw.simps) (auto split: if_splits)
  qed
qed

context sum_walker
begin

lemma stop_at_lin:
  assumes "c < e \<Longrightarrow> 0 \<le> c \<and> e \<le> int (length xs)"
  shows "\<exists>w'. map_option (stop_at ops e) (walk_cells ops xs c e w) = Some w'
    \<and> (pos w', acc w') = lin (stop w) (\<lambda>j. xs ! nat j) c e (acc w)"
proof -
  from walk_cells_lin [OF assms, of w] obtain r w1 where
    "walk_cells ops xs c e w = Some (r, w1)"
    "case r of Some k \<Rightarrow> c \<le> k \<and> k < e \<and> lin (stop w) (\<lambda>j. xs ! nat j) c e (acc w) = (k, acc w1)
      | None \<Rightarrow> lin (stop w) (\<lambda>j. xs ! nat j) c e (acc w) = (e, acc w1)" by blast
  then show ?thesis by (cases r) (simp_all add: stop_at_def idx_pos idx_acc)
qed

lemma stop_at_lin_bw:
  assumes "c < int (length xs)"
  shows "\<exists>w'. map_option (stop_at ops (-1)) (walk_cells_bw ops xs c (-1) w) = Some w'
    \<and> (pos w', acc w') = lin_bw (stop w) (\<lambda>j. xs ! nat j) c (acc w)"
proof -
  from walk_cells_bw_lin [OF assms, of "-1" w] obtain r w1 where
    "walk_cells_bw ops xs c (-1) w = Some (r, w1)"
    "case r of Some k \<Rightarrow> k \<le> c \<and> -1 < k \<and> lin_bw (stop w) (\<lambda>j. xs ! nat j) c (acc w) = (k, acc w1)
      | None \<Rightarrow> lin_bw (stop w) (\<lambda>j. xs ! nat j) c (acc w) = lin_bw (stop w) (\<lambda>j. xs ! nat j) (min c (-1)) (acc w1)" by auto
  then show ?thesis by (cases r) (simp_all add: stop_at_def idx_pos idx_acc)
qed

lemma find_fq_lin:
  assumes ok: "fq_ok p t" and blk: "0 \<le> block" "block < int (length (fq_values t))"
    and nonneg: "\<forall>v \<in> set (fq_values t ! nat block). 0 \<le> v"
  shows "\<exists>w'. find_fq p ops t block w = Some w'
    \<and> (pos w', acc w') = lin (stop w) (\<lambda>j. fq_values t ! nat block ! nat j) 0 (fq_size t) (acc w)"
proof -
  let ?vals = "fq_values t ! nat block" and ?idxs = "fq_index t ! nat block" and ?sz = "fq_size t"
  let ?f = "val_at ?vals ?sz" and ?V = "ValuesPerBranch p"
  have sh: "fq_shape p t" using ok by (simp add: fq_ok_def)
  note B = fq_shape_blocks [OF sh blk]
  have mx: "0 \<le> ?sz" "?sz \<le> fq_max_size t" using sh by (simp_all add: fq_shape_def)
  have f: "0 \<le> ?f j" for j using nonneg mx B(3) by (auto simp: val_at_def)
  have tail: "?f j = 0" if "?sz \<le> j" for j using that by (simp add: val_at_def)
  have fl: "lin st ?f c ?sz s = lin st (\<lambda>j. ?vals ! nat j) c ?sz s" if "0 \<le> c" for c s st
    using that by (intro lin_cong) (simp add: val_at_def)
  show ?thesis
  proof (cases rule: fq_shape_layout [OF sh])
    case (1 data)
    then have "?idxs = []" using B(4) by blast
    moreover have "?sz \<le> int (length ?vals)" using mx B(3) by simp
    ultimately show ?thesis unfolding find_fq_def using B(1,2) stop_at_lin [of 0 ?sz ?vals w] by (simp add: Let_def del: map_option_eq_Some)
  next
    case (2 data)
    have lm: "1 \<le> levels_max data" "levels_max data \<noteq> -1" using 2(3) by (auto simp: layout_for_def)
    have ne: "?idxs \<noteq> []" using 2(4,5) B(4) by fastforce
    note I = fq_ok_index_cells [OF ok blk 2(2) lm(2)]
    from find_index_from_lin [where f = ?f and e = ?sz and l = 1 and a = 0 and w = w, OF 2(3) I f tail mx(2) _ lm(1)]
    obtain r w1 where R: "find_index p ops data ?idxs w = Some (r, w1)" "stop w1 = stop w"
      "lin (stop w) ?f 0 ?sz (acc w) = (if r < 0 then (?sz, acc w1) else lin (stop w) ?f (r * ?V) ?sz (acc w1))"
      unfolding find_index_def by auto
    show ?thesis
    proof (cases "r < 0")
      case True
      then show ?thesis using R B 2(2) ne fl [of 0 "stop w" "acc w"] by (simp add: find_fq_def idx_pos idx_acc Let_def)
    next
      case False
      then have rV: "0 \<le> r * ?V" by (simp add: ValuesPerBranch_def)
      have push: "push_bit (ValuesPerBranchLog2 p) r = r * ?V" by (simp add: push_bit_eq_mult ValuesPerBranch_def)
      from stop_at_lin [of "r * ?V" ?sz ?vals w1] rV mx B(3) obtain w' where
        "map_option (stop_at ops ?sz) (walk_cells ops ?vals (r * ?V) ?sz w1) = Some w'"
        "(pos w', acc w') = lin (stop w) (\<lambda>j. ?vals ! nat j) (r * ?V) ?sz (acc w1)"
        unfolding R(2) by auto
      then show ?thesis using False R B 2(2) ne fl [of 0 "stop w" "acc w"] fl [OF rV, of "stop w" "acc w1"]
        by (simp add: find_fq_def push Let_def del: map_option_eq_Some)
    qed
  qed
qed

end

lemma lin_split:
  assumes "c \<le> m" "m \<le> e"
  shows "lin st f c e s = (case lin st f c m s of (k, s') \<Rightarrow> if k < m then (k, s') else lin st f m e s')"
  using assms
proof (induction st f c e s rule: lin.induct)
  case (1 st f c e s)
  show ?case
  proof (cases "c < m \<and> \<not> st (s + f c)")
    case True
    then have "lin st f (c + 1) e (s + f c)
        = (case lin st f (c + 1) m (s + f c) of (k, s') \<Rightarrow> if k < m then (k, s') else lin st f m e s')"
      using "1.prems" by (intro "1.IH") auto
    moreover have "lin st f c e s = lin st f (c + 1) e (s + f c)" "lin st f c m s = lin st f (c + 1) m (s + f c)"
      using True "1.prems" by (subst lin.simps, simp)+
    ultimately show ?thesis by simp
  next
    case False
    show ?thesis
    proof (cases "c < m")
      case True
      then have "lin st f c e s = (c, s)" "lin st f c m s = (c, s)" using False "1.prems" by (subst lin.simps, simp)+
      then show ?thesis using True by simp
    next
      case False then show ?thesis using "1.prems" by simp
    qed
  qed
qed

context sum_walker
begin

lemma walk_fw_lin:
  assumes ok: "fq_ok p t" and blk: "0 \<le> block" "block < int (length (fq_values t))"
    and nonneg: "\<forall>v \<in> set (fq_values t ! nat block). 0 \<le> v" and start: "0 \<le> start"
  shows "\<exists>w'. walk_fw p ops t block start w = Some w'
    \<and> (pos w', acc w') = lin (stop w) (\<lambda>j. fq_values t ! nat block ! nat j) start (fq_size t) (acc w)"
proof -
  let ?vals = "fq_values t ! nat block" and ?idxs = "fq_index t ! nat block" and ?sz = "fq_size t"
  let ?f = "val_at ?vals ?sz" and ?V = "ValuesPerBranch p"
  have sh: "fq_shape p t" using ok by (simp add: fq_ok_def)
  note B = fq_shape_blocks [OF sh blk]
  have mx: "?sz \<le> fq_max_size t" "?sz \<le> int (length ?vals)" using sh B(3) by (auto simp: fq_shape_def)
  show ?thesis
  proof (cases "start \<ge> ?sz - ?V * 2")
    case True
    then show ?thesis unfolding walk_fw_def
      using B(1) stop_at_lin [of start ?sz ?vals w] start mx by (simp add: Let_def del: map_option_eq_Some)
  next
    case far: False
    define we where "we = (start div ?V + 1) * ?V"
    have V: "0 < ?V" by (simp add: ValuesPerBranch_def)
    have we_eq: "(start OR ValuesPerBranchMask p) + 1 = we"
      by (simp add: ValuesPerBranchMask_def ValuesPerBranch_def we_def or_mask_Suc)
    have drop: "drop_bit (ValuesPerBranchLog2 p) we = start div ?V + 1" using V
      by (simp add: we_def drop_bit_eq_div ValuesPerBranch_def)
    have push: "push_bit (ValuesPerBranchLog2 p) r = r * ?V" for r by (simp add: push_bit_eq_mult ValuesPerBranch_def)
    have wb: "start \<le> we" "we \<le> ?sz"
    proof -
      show "start \<le> we" unfolding we_def by (rule window_facts(1) [OF V])
      have "start div ?V * ?V \<le> start" by (rule window_facts(2) [OF V])
      then show "we \<le> ?sz" using far V by (simp add: we_def algebra_simps)
    qed
    have d0: "0 \<le> start div ?V + 1" using window_facts(3) [OF V start] by simp
    have f: "0 \<le> ?f j" for j using nonneg mx(2) by (auto simp: val_at_def)
    have tail: "?f j = 0" if "?sz \<le> j" for j using that by (simp add: val_at_def)
    have fl: "lin st ?f c ?sz s = lin st (\<lambda>j. ?vals ! nat j) c ?sz s" if "0 \<le> c" for c s st
      using that by (intro lin_cong) (simp add: val_at_def)
    from walk_cells_lin [of start we ?vals w] wb start mx obtain r w1 where
      W: "walk_cells ops ?vals start we w = Some (r, w1)" "stop w1 = stop w"
        "case r of Some k \<Rightarrow> start \<le> k \<and> k < we \<and> lin (stop w) (\<lambda>j. ?vals ! nat j) start we (acc w) = (k, acc w1)
          | None \<Rightarrow> lin (stop w) (\<lambda>j. ?vals ! nat j) start we (acc w) = (we, acc w1)"
      by auto
    note split = lin_split [OF wb, of "stop w" "\<lambda>j. ?vals ! nat j" "acc w"]
    show ?thesis
    proof (cases r)
      case (Some k)
      then show ?thesis using W far B(1) split by (simp add: walk_fw_def we_eq Let_def idx_pos idx_acc)
    next
      case None
      show ?thesis
      proof (cases rule: fq_shape_layout [OF sh])
        case (1 data)
        then show ?thesis using far mx start V by simp
      next
        case (2 data)
        have lm: "0 \<le> levels_max data" "levels_max data \<noteq> -1" using 2(3) by (auto simp: layout_for_def)
        have shift: "2 ^ level_shift p data (levels_max data) = ?V" by (simp add: level_shift_def ValuesPerBranch_def)
        from walk_index_fw_lin [where f = ?f and e = ?sz and w = w1,
            OF 2(3) fq_ok_index_cells [OF ok blk 2(2) lm(2)] f tail mx(1) lm(1) order_refl d0]
        obtain q w2 where Q: "walk_index_fw p ops data ?idxs (start div ?V + 1) (levels_max data) w1 = Some (q, w2)"
          "stop w2 = stop w"
          "lin (stop w) ?f we ?sz (acc w1) = (if q < 0 then (?sz, acc w2) else lin (stop w) ?f (q * ?V) ?sz (acc w2))"
          unfolding shift W(2) we_def by auto
        have e1: "lin (stop w) (\<lambda>j. ?vals ! nat j) start ?sz (acc w) = lin (stop w) ?f we ?sz (acc w1)"
          using split W(3) None fl [of we "stop w" "acc w1"] wb start by simp
        show ?thesis
        proof (cases "q < 0")
          case True
          then show ?thesis unfolding e1 using Q W(1) None far B(1,2) 2(2)
            by (simp add: walk_fw_def we_eq drop Let_def idx_pos idx_acc)
        next
          case False
          then have qV: "0 \<le> q * ?V" using V by simp
          from stop_at_lin [of "q * ?V" ?sz ?vals w2] qV mx(2) obtain w' where
            "map_option (stop_at ops ?sz) (walk_cells ops ?vals (q * ?V) ?sz w2) = Some w'"
            "(pos w', acc w') = lin (stop w) (\<lambda>j. ?vals ! nat j) (q * ?V) ?sz (acc w2)"
            unfolding Q(2) by auto
          then show ?thesis unfolding e1 using False Q W(1) None far B(1,2) 2(2) fl [OF qV, of "stop w" "acc w2"]
            by (simp add: walk_fw_def we_eq drop push Let_def del: map_option_eq_Some)
        qed
      qed
    qed
  qed
qed

end

context sum_walker
begin

lemma walk_bw_lin:
  assumes ok: "fq_ok p t" and blk: "0 \<le> block" "block < int (length (fq_values t))"
    and nonneg: "\<forall>v \<in> set (fq_values t ! nat block). 0 \<le> v" and start: "start < fq_size t"
  shows "\<exists>w'. walk_bw p ops t block start w = Some w'
    \<and> (pos w', acc w') = lin_bw (stop w) (\<lambda>j. fq_values t ! nat block ! nat j) start (acc w)"
proof -
  let ?vals = "fq_values t ! nat block" and ?idxs = "fq_index t ! nat block" and ?sz = "fq_size t"
  let ?f = "val_at ?vals ?sz" and ?V = "ValuesPerBranch p"
  have sh: "fq_shape p t" using ok by (simp add: fq_ok_def)
  note B = fq_shape_blocks [OF sh blk]
  have mx: "?sz \<le> fq_max_size t" "?sz \<le> int (length ?vals)" using sh B(3) by (auto simp: fq_shape_def)
  show ?thesis
  proof (cases "start < ?V * 2")
    case True
    then show ?thesis unfolding walk_bw_def
      using B(1) stop_at_lin_bw [of start ?vals w] start mx by (simp add: Let_def del: map_option_eq_Some)
  next
    case far: False
    define we where "we = start div ?V * ?V - 1"
    have V: "0 < ?V" by (simp add: ValuesPerBranch_def)
    have s0: "0 \<le> start" using far V by simp
    have we_eq: "(start AND NOT (ValuesPerBranchMask p)) - 1 = we"
      by (simp add: ValuesPerBranchMask_def ValuesPerBranch_def we_def and_not_mask)
    have drop: "drop_bit (ValuesPerBranchLog2 p) we = start div ?V - 1"
    proof -
      have "we div ?V = (-1 + start div ?V * ?V) div ?V" by (simp add: we_def)
      also have "\<dots> = start div ?V + -1 div ?V" using V by (intro div_mult_self1) simp
      also have "-1 div ?V = -1" using V by (rule div_eq_minus1)
      finally show ?thesis by (simp add: drop_bit_eq_div ValuesPerBranch_def)
    qed
    have push: "push_bit (ValuesPerBranchLog2 p) r = r * ?V" for r by (simp add: push_bit_eq_mult ValuesPerBranch_def)
    have d0: "0 \<le> start div ?V" by (rule window_facts(3) [OF V s0])
    have wb: "we < start" "-1 \<le> we"
      using window_facts(2) [OF V, of start] mult_nonneg_nonneg [OF d0, of ?V] V by (simp_all add: we_def)
    have f: "0 \<le> ?f j" for j using nonneg mx(2) by (auto simp: val_at_def)
    have fl: "lin_bw st ?f c s = lin_bw st (\<lambda>j. ?vals ! nat j) c s" if "c < ?sz" for c s st
      using that by (intro lin_bw_cong) (simp add: val_at_def)
    from walk_cells_bw_lin [of start ?vals we w] wb start mx obtain r w1 where
      W: "walk_cells_bw ops ?vals start we w = Some (r, w1)" "stop w1 = stop w"
        "case r of Some k \<Rightarrow> k \<le> start \<and> we < k \<and> lin_bw (stop w) (\<lambda>j. ?vals ! nat j) start (acc w) = (k, acc w1)
          | None \<Rightarrow> lin_bw (stop w) (\<lambda>j. ?vals ! nat j) start (acc w)
              = lin_bw (stop w) (\<lambda>j. ?vals ! nat j) (min start we) (acc w1)"
      by auto
    show ?thesis
    proof (cases r)
      case (Some k)
      then show ?thesis using W far B(1) by (simp add: walk_bw_def we_eq Let_def idx_pos idx_acc)
    next
      case None
      show ?thesis
      proof (cases rule: fq_shape_layout [OF sh])
        case (1 data)
        then show ?thesis using far mx start V by simp
      next
        case (2 data)
        have lm: "0 \<le> levels_max data" "levels_max data \<noteq> -1" using 2(3) by (auto simp: layout_for_def)
        have shift: "2 ^ level_shift p data (levels_max data) = ?V" by (simp add: level_shift_def ValuesPerBranch_def)
        have "(start div ?V - 1 + 1) * 2 ^ level_shift p data (levels_max data) \<le> fq_max_size t"
          unfolding shift using window_facts(2) [OF V, of start] start mx by simp
        from walk_index_bw_lin [where f = ?f and w = w1,
            OF 2(3) fq_ok_index_cells [OF ok blk 2(2) lm(2)] f lm(1) order_refl _ this] d0
        obtain q w2 where Q: "walk_index_bw p ops data ?idxs (start div ?V - 1) (levels_max data) w1 = Some (q, w2)"
          "stop w2 = stop w" "q < 0 \<or> (q + 1) * ?V - 1 \<le> we"
          "lin_bw (stop w) ?f we (acc w1) = (if q < 0 then (-1, acc w2) else lin_bw (stop w) ?f ((q + 1) * ?V - 1) (acc w2))"
          unfolding shift W(2) we_def by auto
        have e1: "lin_bw (stop w) (\<lambda>j. ?vals ! nat j) start (acc w) = lin_bw (stop w) ?f we (acc w1)"
          using W(3) None fl [of we "stop w" "acc w1"] wb start by (simp add: min_absorb2)
        show ?thesis
        proof (cases "q < 0")
          case True
          then show ?thesis unfolding e1 using Q W(1) None far B(1,2) 2(2)
            by (simp add: walk_bw_def we_eq drop Let_def idx_pos idx_acc)
        next
          case False
          then have le: "(q + 1) * ?V - 1 < ?sz" using Q(3) wb start by simp
          from stop_at_lin_bw [of "(q + 1) * ?V - 1" ?vals w2] le mx(2) obtain w' where
            "map_option (stop_at ops (-1)) (walk_cells_bw ops ?vals ((q + 1) * ?V - 1) (-1) w2) = Some w'"
            "(pos w', acc w') = lin_bw (stop w) (\<lambda>j. ?vals ! nat j) ((q + 1) * ?V - 1) (acc w2)"
            unfolding Q(2) by auto
          then show ?thesis unfolding e1 using False Q W(1) None far B(1,2) 2(2) fl [OF le, of "stop w" "acc w2"]
            by (simp add: walk_bw_def we_eq drop push Let_def del: map_option_eq_Some)
        qed
      qed
    qed
  qed
qed

end

section \<open>The walkers of the code\<close>

interpretation ge: sum_walker FindGEWalker w_sum "\<lambda>w v. w_target w \<le> v" w_idx
  by unfold_locales (auto simp: FindGEWalker_def FindGE_compare_def Find_next_def Find_idx_def Let_def)

interpretation gt: sum_walker FindGTWalker w_sum "\<lambda>w v. w_target w < v" w_idx
  by unfold_locales (auto simp: FindGTWalker_def FindGT_compare_def Find_next_def Find_idx_def Let_def)

lemma lin_sum_list:
  fixes vals :: "'v::comm_monoid_add list"
  assumes lin: "(i, s) = lin st (\<lambda>j. vals ! nat j) a e 0" and a: "0 \<le> a" "a \<le> e" "e \<le> int (length vals)"
  defines "run \<equiv> \<lambda>n. sum_list (take (nat (n - a)) (drop (nat a) vals))"
  shows "a \<le> i \<and> i \<le> e \<and> s = run i \<and> (\<forall>j \<in> {a..<i}. \<not> st (run (j + 1))) \<and> (i < e \<longrightarrow> st (run (i + 1)))"
proof -
  have run: "rsum (\<lambda>j. vals ! nat j) a n = run n" if "a \<le> n" "n \<le> e" for n
    unfolding run_def using that a by (intro rsum_sum_list) auto
  show ?thesis using lin_spec [OF lin [symmetric] a(2)] by (auto simp: run)
qed

lemma lin_bw_sum_list:
  fixes vals :: "'v::comm_monoid_add list"
  assumes lin: "(i, s) = lin_bw st (\<lambda>j. vals ! nat j) c 0" and c: "-1 \<le> c" "c < int (length vals)"
  defines "run \<equiv> \<lambda>n. sum_list (take (nat (c + 1 - n)) (drop (nat n) vals))"
  shows "-1 \<le> i \<and> i \<le> c \<and> s = run (i + 1) \<and> (\<forall>j \<in> {i + 1..c}. \<not> st (run j)) \<and> (0 \<le> i \<longrightarrow> st (run i))"
proof -
  have run: "rsum (\<lambda>j. vals ! nat j) n (c + 1) = run n" if "0 \<le> n" "n \<le> c + 1" for n
    unfolding run_def using that c by (intro rsum_sum_list) auto
  show ?thesis using lin_bw_spec [OF lin [symmetric] c(1)] by (auto simp: run)
qed

definition reached :: "SearchType \<Rightarrow> 'v::ord \<Rightarrow> 'v \<Rightarrow> bool" where
  "reached ty target v = (if ty = GT then target < v else target \<le> v)"

lemma findForward_lin:
  fixes t :: "'v::{linorder, ordered_comm_monoid_add} fqtree"
  assumes "fq_ok p t" "0 \<le> block" "block < int (length (fq_values t))" "\<forall>v \<in> set (fq_values t ! nat block). 0 \<le> v"
  shows "\<exists>s i. findForward ty p t block x = Some (s, i)
    \<and> (i, s) = lin (reached ty x) (\<lambda>j. fq_values t ! nat block ! nat j) 0 (fq_size t) 0"
  using ge.find_fq_lin [OF assms, of "new_walker x"] gt.find_fq_lin [OF assms, of "new_walker x"]
  by (cases ty) (auto simp: findForward_def findGEForward_def findGTForward_def find_ge_def find_gt_def FindResult_def reached_def [abs_def] new_walker_def)

lemma findForward_from_lin:
  fixes t :: "'v::{linorder, ordered_comm_monoid_add} fqtree"
  assumes "fq_ok p t" "0 \<le> block" "block < int (length (fq_values t))" "\<forall>v \<in> set (fq_values t ! nat block). 0 \<le> v" "0 \<le> start"
  shows "\<exists>s i. findForward_from ty p t block start x = Some (s, i)
    \<and> (i, s) = lin (reached ty x) (\<lambda>j. fq_values t ! nat block ! nat j) start (fq_size t) 0"
  using ge.walk_fw_lin [OF assms, of "new_walker x"] gt.walk_fw_lin [OF assms, of "new_walker x"]
  by (cases ty) (auto simp: findForward_from_def findGEForward_from_def findGTForward_from_def find_ge_fw_def find_gt_fw_def FindResult_def reached_def [abs_def] new_walker_def)

lemma findBackward_from_lin:
  fixes t :: "'v::{linorder, ordered_comm_monoid_add} fqtree"
  assumes "fq_ok p t" "0 \<le> block" "block < int (length (fq_values t))" "\<forall>v \<in> set (fq_values t ! nat block). 0 \<le> v"
    "start < fq_size t"
  shows "\<exists>s i. findBackward_from ty p t block start x = Some (s, i)
    \<and> (i, s) = lin_bw (reached ty x) (\<lambda>j. fq_values t ! nat block ! nat j) start 0"
  using ge.walk_bw_lin [OF assms, of "new_walker x"] gt.walk_bw_lin [OF assms, of "new_walker x"]
  by (cases ty) (auto simp: findBackward_from_def findGEBackward_from_def findGTBackward_from_def find_ge_bw_def find_gt_bw_def FindResult_def reached_def [abs_def] new_walker_def)

section \<open>Properties of the searches\<close>

text \<open>
  C10: The search from the beginning is a linear search. In a tree of non-negative values whose index is
  up to date, \<open>findForward\<close> returns the first position whose running sum reaches the target (exceeds
  it for \<open>GT\<close>), or the size if there is none, and the sum of all values before that position.
\<close>

theorem find_is_linear_search:
  fixes t :: "'v::{linorder, ordered_comm_monoid_add} fqtree"
  assumes "fq_ok p t" "0 \<le> block" "block < int (length (fq_values t))"
    and "\<forall>v \<in> set (fq_values t ! nat block). 0 \<le> v"
  defines "prefix \<equiv> \<lambda>n. sum_list (take (nat n) (fq_values t ! nat block))"
  shows "\<exists>i. findForward ty p t block x = Some (prefix i, i) \<and> 0 \<le> i \<and> i \<le> fq_size t
    \<and> (\<forall>j \<in> {0..<i}. \<not> reached ty x (prefix (j + 1))) \<and> (i < fq_size t \<longrightarrow> reached ty x (prefix (i + 1)))"
proof -
  obtain s i where R: "findForward ty p t block x = Some (s, i)"
    "(i, s) = lin (reached ty x) (\<lambda>j. fq_values t ! nat block ! nat j) 0 (fq_size t) 0"
    using findForward_lin [OF assms(1-4)] by blast
  have "0 \<le> fq_size t" "fq_size t \<le> int (length (fq_values t ! nat block))"
    using fq_ok_size [OF assms(1-3)] by simp_all
  from lin_sum_list [OF R(2) order_refl this] show ?thesis using R(1) by (auto simp: prefix_def)
qed

theorem find_is_linear_search_witness:
  "findForward GE demo_params demo_fq 0 20 = Some (15, 5)
    \<and> (\<exists>i. findForward GE demo_params demo_fq 0 20 = Some (sum_list (take (nat i) (fq_values demo_fq ! 0)), i))"
proof -
  have "findForward GE demo_params demo_fq 0 20 = Some (15, 5)" by code_simp
  moreover have "\<forall>v \<in> set (fq_values demo_fq ! nat 0). 0 \<le> v" by code_simp
  ultimately show ?thesis
    using find_is_linear_search [OF demo_ok, of 0 GE 20] by (auto simp: demo_fq_def demo_raw_def)
qed

text \<open>
  C16: Walking forward from any position returns what a linear search from there returns: the first
  position at or after the start whose running sum from the start reaches the target, with the sum of
  the values passed. The walk that climbs up and down the index always returns.
\<close>

theorem walk_forward_is_linear_search:
  fixes t :: "'v::{linorder, ordered_comm_monoid_add} fqtree"
  assumes "fq_ok p t" "0 \<le> block" "block < int (length (fq_values t))"
    and "\<forall>v \<in> set (fq_values t ! nat block). 0 \<le> v" and "0 \<le> start" "start \<le> fq_size t"
  defines "run \<equiv> \<lambda>n. sum_list (take (nat (n - start)) (drop (nat start) (fq_values t ! nat block)))"
  shows "\<exists>i. findForward_from ty p t block start x = Some (run i, i) \<and> start \<le> i \<and> i \<le> fq_size t
    \<and> (\<forall>j \<in> {start..<i}. \<not> reached ty x (run (j + 1))) \<and> (i < fq_size t \<longrightarrow> reached ty x (run (i + 1)))"
proof -
  obtain s i where R: "findForward_from ty p t block start x = Some (s, i)"
    "(i, s) = lin (reached ty x) (\<lambda>j. fq_values t ! nat block ! nat j) start (fq_size t) 0"
    using findForward_from_lin [OF assms(1-5)] by blast
  have "fq_size t \<le> int (length (fq_values t ! nat block))"
    using fq_ok_size [OF assms(1-3)] by simp_all
  from lin_sum_list [OF R(2) assms(5,6) this] show ?thesis using R(1) by (auto simp: run_def)
qed

theorem walk_forward_is_linear_search_witness:
  "\<exists>i. findForward_from GT demo_params demo_fq 0 3 20
    = Some (sum_list (take (nat (i - 3)) (drop 3 (fq_values demo_fq ! 0))), i) \<and> 3 \<le> i"
proof -
  have "\<forall>v \<in> set (fq_values demo_fq ! nat 0). 0 \<le> v" by code_simp
  then show ?thesis
    using walk_forward_is_linear_search [OF demo_ok, of 0 3 GT 20] by (auto simp: demo_fq_def demo_raw_def)
qed

text \<open>
  C17: Walking backward from a position below the size returns the last position at or before it such
  that the sum of the values from there to the start reaches the target, or -1 if there is none, with
  the sum of the values after that position up to the start.
\<close>

theorem walk_backward_is_linear_search:
  fixes t :: "'v::{linorder, ordered_comm_monoid_add} fqtree"
  assumes "fq_ok p t" "0 \<le> block" "block < int (length (fq_values t))"
    and "\<forall>v \<in> set (fq_values t ! nat block). 0 \<le> v" and "-1 \<le> start" "start < fq_size t"
  defines "run \<equiv> \<lambda>n. sum_list (take (nat (start + 1 - n)) (drop (nat n) (fq_values t ! nat block)))"
  shows "\<exists>i. findBackward_from ty p t block start x = Some (run (i + 1), i) \<and> -1 \<le> i \<and> i \<le> start
    \<and> (\<forall>j \<in> {i + 1..start}. \<not> reached ty x (run j)) \<and> (0 \<le> i \<longrightarrow> reached ty x (run i))"
proof -
  obtain s i where R: "findBackward_from ty p t block start x = Some (s, i)"
    "(i, s) = lin_bw (reached ty x) (\<lambda>j. fq_values t ! nat block ! nat j) start 0"
    using findBackward_from_lin [OF assms(1-4,6)] by blast
  have "start < int (length (fq_values t ! nat block))"
    using assms(6) fq_ok_size [OF assms(1-3)] by simp
  from lin_bw_sum_list [OF R(2) assms(5) this] show ?thesis using R(1) by (auto simp: run_def)
qed

theorem walk_backward_is_linear_search_witness:
  "\<exists>i. findBackward_from GE demo_params demo_fq 0 9 25
    = Some (sum_list (take (nat (9 - i)) (drop (nat (i + 1)) (fq_values demo_fq ! 0))), i) \<and> i \<le> 9"
proof -
  have "\<forall>v \<in> set (fq_values demo_fq ! nat 0). 0 \<le> v" by code_simp
  then show ?thesis
    using walk_backward_is_linear_search [OF demo_ok, of 0 9 GE 25] by (auto simp: demo_fq_def demo_raw_def)
qed

end
