(* ===== verification/Packed_Allocator.thy ===== *)
theory Packed_Allocator
  imports Bitmap_Count "HOL-Library.Signed_Division"
begin

text \<open>
  \<open>PackedAllocator\<close> (src/include/memoria/core/packed/tools/packed_allocator.hpp) and the rounding functions of
  \<open>PackedAllocatable\<close> (packed_allocator_types.hpp): a block of memory that holds a table of element offsets, a
  bitmap of element types and the elements one after the other. Allocators nest: an allocator that is an
  element of another one asks it for room.

  The record holds the header fields, the offset table, the bitmap cells and the bytes from \<open>base()\<close> to the end
  of the client area. A chain of nested allocators is a list, the innermost first; the bytes of the nested
  allocator are those of its own record, its segment in the area of the outer one is not kept twice. The
  bytes an allocator gains when it is enlarged are whatever memory holds there; no operation reads them
  before they are written, the model has zeros.

  Operations that fail return \<open>Inl\<close>: \<open>PackedOOM\<close> and \<open>GenericError\<close> are the error results of the code,
  \<open>Undefined\<close> stands for an access outside the offset table or the area.
\<close>

unbundle bit_operations_syntax

datatype pkd_error = PackedOOM | GenericError | Undefined

section \<open>Rounding\<close>

definition AlignmentBlock :: int where
  "AlignmentBlock = 8"

definition roundUpBytesToAlignmentBlocks :: "int \<Rightarrow> int" where
  "roundUpBytesToAlignmentBlocks value =
     (value sdiv AlignmentBlock + (if value smod AlignmentBlock \<noteq> 0 then 1 else 0)) * AlignmentBlock"

definition roundDownBytesToAlignmentBlocks :: "int \<Rightarrow> int" where
  "roundDownBytesToAlignmentBlocks value = value sdiv AlignmentBlock * AlignmentBlock"

definition roundUpBitToBytes :: "int \<Rightarrow> int" where
  "roundUpBitToBytes bits = bits sdiv 8 + (if bits smod 8 > 0 then 1 else 0)"

definition roundDownBitsToBytes :: "int \<Rightarrow> int" where
  "roundDownBitsToBytes bits = bits sdiv 8 + (if bits smod 8 > 0 then 1 else 0)"

definition roundUpBitsToAlignmentBlocks :: "int \<Rightarrow> int" where
  "roundUpBitsToAlignmentBlocks bits = roundUpBytesToAlignmentBlocks (roundUpBitToBytes bits)"

definition roundDownBitsToAlignmentBlocks :: "int \<Rightarrow> int" where
  "roundDownBitsToAlignmentBlocks bits = roundDownBytesToAlignmentBlocks (roundDownBitsToBytes bits)"

section \<open>The state of an allocator\<close>

datatype PackedBlockType = RAW_MEMORY | ALLOCATABLE

record pkd_alloc =
  allocator_offset :: int
  pa_block_size :: int
  layout :: "int list"
  bitmap :: "u64 list"
  area :: "u8 list"

text \<open>\<open>sizeof(PackedAllocator)\<close>: four \<open>int32_t\<close> fields and one byte of the buffer, aligned to 8.\<close>

definition my_size :: int where
  "my_size = 24"

text \<open>The offset of \<open>buffer_\<close> in the structure.\<close>

definition buffer_offset :: int where
  "buffer_offset = 16"

definition layout_size :: "pkd_alloc \<Rightarrow> int" where
  "layout_size A = 4 * int (length (layout A))"

definition bitmap_size :: "pkd_alloc \<Rightarrow> int" where
  "bitmap_size A = 8 * int (length (bitmap A))"

definition element_offset :: "pkd_alloc \<Rightarrow> nat \<Rightarrow> pkd_error + int" where
  "element_offset A idx = (if idx < length (layout A) then Inr (layout A ! idx) else Inl Undefined)"

definition element_size :: "pkd_alloc \<Rightarrow> nat \<Rightarrow> pkd_error + int" where
  "element_size A idx =
     bindR (element_offset A (idx + 1)) (\<lambda>size2. bindR (element_offset A idx) (\<lambda>size1. Inr (size2 - size1)))"

definition elements :: "pkd_alloc \<Rightarrow> nat" where
  "elements A = length (layout A) - 1"

definition allocated :: "pkd_alloc \<Rightarrow> int" where
  "allocated A = layout A ! elements A"

definition client_area :: "pkd_alloc \<Rightarrow> int" where
  "client_area A = pa_block_size A - my_size - layout_size A - bitmap_size A"

definition free_space :: "pkd_alloc \<Rightarrow> int" where
  "free_space A = client_area A - allocated A"

definition is_allocatable :: "pkd_alloc \<Rightarrow> nat \<Rightarrow> bool" where
  "is_allocatable A idx \<longleftrightarrow> GetBit (bitmap A) idx \<noteq> 0"

definition setBlockType :: "pkd_alloc \<Rightarrow> nat \<Rightarrow> PackedBlockType \<Rightarrow> pkd_alloc" where
  "setBlockType A idx t = A\<lparr>bitmap := SetBit (bitmap A) idx (t = ALLOCATABLE)\<rparr>"

definition block_type :: "pkd_alloc \<Rightarrow> nat \<Rightarrow> PackedBlockType" where
  "block_type A idx = (if GetBit (bitmap A) idx \<noteq> 0 then ALLOCATABLE else RAW_MEMORY)"

text \<open>The bytes of the client area after the block size has changed.\<close>

definition fit :: "nat \<Rightarrow> u8 list \<Rightarrow> u8 list" where
  "fit n bs = take n (bs @ replicate n 0)"

definition set_block_size :: "pkd_alloc \<Rightarrow> int \<Rightarrow> pkd_alloc" where
  "set_block_size A n = (let A = A\<lparr>pa_block_size := n\<rparr> in A\<lparr>area := fit (nat (client_area A)) (area A)\<rparr>)"

definition init_layout_blocks :: "int \<Rightarrow> int" where
  "init_layout_blocks blocks = blocks + (if blocks smod 2 \<noteq> 0 then 1 else 2)"

definition init :: "pkd_alloc \<Rightarrow> int \<Rightarrow> int \<Rightarrow> pkd_alloc" where
  "init A block_size blocks =
     (let layout_blocks = init_layout_blocks blocks;
          A = A\<lparr>layout := replicate (nat layout_blocks) 0,
                bitmap := replicate (nat (roundUpBitsToAlignmentBlocks layout_blocks) div 8) 0\<rparr>
      in set_block_size A (roundDownBytesToAlignmentBlocks block_size))"

definition block_size_for :: "int \<Rightarrow> int \<Rightarrow> int" where
  "block_size_for client blocks =
     roundUpBytesToAlignmentBlocks
       (my_size + init_layout_blocks blocks * 4 + roundUpBitsToAlignmentBlocks blocks
        + roundUpBytesToAlignmentBlocks client)"

definition client_area_for :: "int \<Rightarrow> int \<Rightarrow> int" where
  "client_area_for block_size blocks =
     roundDownBytesToAlignmentBlocks
       (block_size - (my_size + init_layout_blocks blocks * 4 + roundUpBitsToAlignmentBlocks blocks))"

definition empty_size :: "int \<Rightarrow> int" where
  "empty_size blocks = block_size_for 0 blocks"

section \<open>Moving elements\<close>

text \<open>\<open>setAllocatorOffset\<close> writes the distance to the allocator into the first four bytes of the element.\<close>

definition int32_bytes :: "int \<Rightarrow> u8 list" where
  "int32_bytes x = map (\<lambda>i. word_of_int (drop_bit (8 * i) x)) [0, 1, 2, 3]"

definition setAllocatorOffset :: "pkd_alloc \<Rightarrow> int \<Rightarrow> pkd_error + pkd_alloc" where
  "setAllocatorOffset A off =
     (if 0 \<le> off \<and> off + 4 \<le> int (length (area A)) then
        Inr (A\<lparr>area := CopyBuffer (int32_bytes (buffer_offset + layout_size A + bitmap_size A + off)) 0 (area A) (nat off) 4\<rparr>)
      else Inl Undefined)"

definition moveElementData :: "pkd_alloc \<Rightarrow> nat \<Rightarrow> int \<Rightarrow> int \<Rightarrow> int \<Rightarrow> pkd_error + pkd_alloc" where
  "moveElementData A idx sz off delta =
     (if sz > 0 then
        if 0 \<le> off \<and> off + sz \<le> int (length (area A)) \<and> 0 \<le> off + delta \<and> off + delta + sz \<le> int (length (area A)) then
          (let A = A\<lparr>area := CopyBuffer (area A) (nat off) (area A) (nat (off + delta)) (nat sz)\<rparr>
           in if is_allocatable A idx then setAllocatorOffset A (off + delta) else Inr A)
        else Inl Undefined
      else Inr A)"

definition add_element_offset :: "pkd_alloc \<Rightarrow> nat \<Rightarrow> int \<Rightarrow> pkd_error + pkd_alloc" where
  "add_element_offset A idx delta =
     (if idx < length (layout A) then Inr (A\<lparr>layout := (layout A)[idx := layout A ! idx + delta]\<rparr>) else Inl Undefined)"

function moveElementsUp :: "pkd_alloc \<Rightarrow> nat \<Rightarrow> int \<Rightarrow> pkd_error + pkd_alloc" where
  "moveElementsUp A idx delta =
     bindR
       (if idx < length (layout A) - 1 then
          bindR (element_size A idx) (\<lambda>size. bindR (element_offset A idx) (\<lambda>off.
            bindR (moveElementsUp A (idx + 1) delta) (\<lambda>A. moveElementData A idx size off delta)))
        else Inr A)
       (\<lambda>A. add_element_offset A idx delta)"
  by pat_completeness auto
termination by (relation "measure (\<lambda>(A, idx, delta). length (layout A) - idx)") auto

text \<open>\<open>n\<close> is \<open>layout_size_ / 4\<close>, which the moves do not change.\<close>

function moveElementsDown_n :: "nat \<Rightarrow> pkd_alloc \<Rightarrow> nat \<Rightarrow> int \<Rightarrow> pkd_error + pkd_alloc" where
  "moveElementsDown_n n A idx delta =
     (if idx < n - 1 then
        bindR (element_size A idx) (\<lambda>size. bindR (element_offset A idx) (\<lambda>off.
          bindR (moveElementData A idx size off delta) (\<lambda>A.
            bindR (add_element_offset A idx delta) (\<lambda>A. moveElementsDown_n n A (idx + 1) delta))))
      else add_element_offset A idx delta)"
  by pat_completeness auto
termination by (relation "measure (\<lambda>(n, A, idx, delta). n - idx)") auto

declare moveElementsUp.simps [simp del] moveElementsDown_n.simps [simp del]

definition moveElementsDown :: "pkd_alloc \<Rightarrow> nat \<Rightarrow> int \<Rightarrow> pkd_error + pkd_alloc" where
  "moveElementsDown A idx delta = moveElementsDown_n (length (layout A)) A idx delta"

definition moveElements :: "pkd_alloc \<Rightarrow> nat \<Rightarrow> int \<Rightarrow> pkd_error + pkd_alloc" where
  "moveElements A start_idx delta =
     (if delta > 0 then moveElementsUp A start_idx delta else moveElementsDown A start_idx delta)"

section \<open>Finding, resizing, allocating and freeing elements\<close>

fun find_element_from :: "int \<Rightarrow> int list \<Rightarrow> nat \<Rightarrow> pkd_error + nat" where
  "find_element_from off [] c = Inl GenericError"
| "find_element_from off (o1 # os) c = (if off < o1 then Inr (c - 1) else find_element_from off os (c + 1))"

definition findElement :: "pkd_alloc \<Rightarrow> int \<Rightarrow> pkd_error + nat" where
  "findElement A off = (if off \<ge> 0 then find_element_from off (layout A) 0 else Inl GenericError)"

text \<open>
  \<open>resizeBlock(idx, new_size)\<close> and \<open>resize(new_size)\<close> of the innermost allocator of a chain. \<open>enlarge\<close> and
  \<open>pack\<close> are \<open>resize\<close> to the rounded sum and to the size without free space; a nested allocator
  resizes its own element in the next allocator of the chain.
\<close>

definition enlarge_size :: "pkd_alloc \<Rightarrow> int \<Rightarrow> int" where
  "enlarge_size A delta = roundUpBytesToAlignmentBlocks (pa_block_size A + delta)"

definition resize_in :: "(nat \<Rightarrow> int \<Rightarrow> pkd_error + (int \<times> pkd_alloc list)) \<Rightarrow> pkd_alloc \<Rightarrow> pkd_alloc list \<Rightarrow> int
    \<Rightarrow> pkd_error + (int \<times> pkd_alloc list)" where
  \<comment> \<open>\<open>outer\<close> is \<open>resizeBlock\<close> of the next allocator of the chain\<close>
  "resize_in outer A up new_size =
     (if allocator_offset A > 0 then
        (case up of
           [] \<Rightarrow> Inl Undefined
         | P # _ \<Rightarrow>
             bindR (findElement P (allocator_offset A - (buffer_offset + layout_size P + bitmap_size P))) (\<lambda>idx.
               bindR (outer idx new_size) (\<lambda>(n, up). Inr (n, set_block_size A n # up))))
      else if new_size \<le> pa_block_size A then
        if new_size \<ge> allocated A + my_size + layout_size A + bitmap_size A then
          Inr (new_size, set_block_size A new_size # up)
        else Inl PackedOOM
      else Inl PackedOOM)"

function resizeBlock :: "pkd_alloc list \<Rightarrow> nat \<Rightarrow> int \<Rightarrow> pkd_error + (int \<times> pkd_alloc list)" where
  "resizeBlock [] idx new_size = Inl Undefined"
| "resizeBlock (A # up) idx new_size =
     (if \<not> new_size \<ge> 0 then Inl GenericError
      else
        let allocation_size = roundUpBytesToAlignmentBlocks new_size in
        bindR (element_size A idx) (\<lambda>size.
          let delta = allocation_size - size in
          if delta > 0 then
            bindR (if delta > free_space A then resize_in (\<lambda>i n. resizeBlock up i n) A up (enlarge_size A delta)
                   else Inr (0, A # up)) (\<lambda>(_, chain).
              bindR (moveElements (hd chain) (idx + 1) delta) (\<lambda>A. Inr (allocation_size, A # tl chain)))
          else if delta < 0 then
            bindR (moveElements A (idx + 1) delta) (\<lambda>A'.
              if allocator_offset A' > 0 then
                bindR (resize_in (\<lambda>i n. resizeBlock up i n) A' up (pa_block_size A' - free_space A'))
                  (\<lambda>(_, chain). Inr (allocation_size, chain))
              else Inr (allocation_size, A' # up))
          else Inr (allocation_size, A # up)))"
  by pat_completeness auto
termination by (relation "measure (\<lambda>(chain, idx, n). length chain)") auto

declare resizeBlock.simps [simp del]

fun resize :: "pkd_alloc list \<Rightarrow> int \<Rightarrow> pkd_error + (int \<times> pkd_alloc list)" where
  "resize [] new_size = Inl Undefined"
| "resize (A # up) new_size = resize_in (resizeBlock up) A up new_size"

declare resize.simps [simp del]

definition enlarge :: "pkd_alloc list \<Rightarrow> int \<Rightarrow> pkd_error + (int \<times> pkd_alloc list)" where
  "enlarge chain delta = resize chain (enlarge_size (hd chain) delta)"

definition shrink :: "pkd_alloc list \<Rightarrow> int \<Rightarrow> pkd_error + (int \<times> pkd_alloc list)" where
  "shrink chain delta = resize chain (roundUpBytesToAlignmentBlocks (pa_block_size (hd chain) - delta))"

definition pack :: "pkd_alloc list \<Rightarrow> pkd_error + (int \<times> pkd_alloc list)" where
  "pack chain = resize chain (pa_block_size (hd chain) - free_space (hd chain))"

definition allocate :: "pkd_alloc list \<Rightarrow> nat \<Rightarrow> int \<Rightarrow> PackedBlockType \<Rightarrow> pkd_error + ((int \<times> int) \<times> pkd_alloc list)" where
  "allocate chain idx sz type =
     (let allocation_size = roundUpBytesToAlignmentBlocks sz;
          free_space_v = free_space (hd chain)
      in bindR (if allocation_size > free_space_v then enlarge chain (allocation_size - free_space_v) else Inr (0, chain)) (\<lambda>(_, chain).
         bindR (moveElements (hd chain) (idx + 1) allocation_size) (\<lambda>A.
           let A = setBlockType A idx type in
           bindR (element_offset A idx) (\<lambda>off.
             if 0 \<le> off \<and> off + allocation_size \<le> int (length (area A)) then
               let A = A\<lparr>area := CopyBuffer (replicate (nat allocation_size) 0) 0 (area A) (nat off) (nat allocation_size)\<rparr> in
               bindR (if type = ALLOCATABLE then setAllocatorOffset A off else Inr A) (\<lambda>A.
                 if (buffer_offset + layout_size A + bitmap_size A + off) mod 8 \<noteq> 0 then Inl GenericError
                 else Inr ((allocation_size, off), A # tl chain))
             else Inl Undefined))))"

definition free_element :: "pkd_alloc list \<Rightarrow> nat \<Rightarrow> pkd_error + pkd_alloc list" where
  "free_element chain idx =
     bindR (element_size (hd chain) idx) (\<lambda>size.
       bindR (moveElements (hd chain) (idx + 1) (- size)) (\<lambda>A.
         if allocator_offset A > 0 then bindR (pack (A # tl chain)) (\<lambda>(_, chain). Inr chain)
         else Inr (A # tl chain)))"

definition importBlock :: "pkd_alloc list \<Rightarrow> nat \<Rightarrow> pkd_alloc \<Rightarrow> nat \<Rightarrow> pkd_error + pkd_alloc list" where
  "importBlock chain idx src src_idx =
     bindR (element_size src src_idx) (\<lambda>src_size. bindR (element_offset src src_idx) (\<lambda>src_off.
       bindR (resizeBlock chain idx src_size) (\<lambda>(_, chain).
         let A = setBlockType (hd chain) idx (block_type src src_idx) in
         bindR (element_offset A idx) (\<lambda>off.
           if 0 \<le> off \<and> off + src_size \<le> int (length (area A)) \<and> 0 \<le> src_off \<and> src_off + src_size \<le> int (length (area src)) then
             let A = A\<lparr>area := CopyBuffer (area src) (nat src_off) (area A) (nat off) (nat src_size)\<rparr> in
             bindR (if src_size > 0 \<and> block_type src src_idx = ALLOCATABLE then setAllocatorOffset A off else Inr A)
               (\<lambda>A. Inr (A # tl chain))
           else Inl Undefined))))"

fun compute_free_space_up :: "pkd_alloc list \<Rightarrow> int" where
  "compute_free_space_up [] = 0"
| "compute_free_space_up (A # up) = free_space A + (if allocator_offset A > 0 then compute_free_space_up up else 0)"

text \<open>The remaining operations: emptiness, clearing an element, and setting the block size without checks.\<close>

definition is_empty :: "pkd_alloc \<Rightarrow> nat \<Rightarrow> pkd_error + bool" where
  "is_empty A idx = bindR (element_size A idx) (\<lambda>s. Inr (s = 0))"

definition clear_element :: "pkd_alloc \<Rightarrow> nat \<Rightarrow> pkd_error + pkd_alloc" where
  "clear_element A idx =
     bindR (element_size A idx) (\<lambda>s. bindR (element_offset A idx) (\<lambda>off.
       if 0 \<le> s \<and> 0 \<le> off \<and> off + s \<le> int (length (area A)) then
         Inr (A\<lparr>area := CopyBuffer (replicate (nat s) 0) 0 (area A) (nat off) (nat s)\<rparr>)
       else Inl Undefined))"

definition forceResize :: "pkd_alloc \<Rightarrow> int \<Rightarrow> pkd_alloc" where
  "forceResize A amount = set_block_size A (pa_block_size A + roundDownBytesToAlignmentBlocks amount)"

definition allocateAllocator :: "pkd_alloc list \<Rightarrow> nat \<Rightarrow> int \<Rightarrow> pkd_error + pkd_alloc list" where
  "allocateAllocator chain idx streams =
     bindR (allocate chain idx (empty_size streams) ALLOCATABLE) (\<lambda>((_, off), chain).
       let A = hd chain;
           child = \<lparr>allocator_offset = buffer_offset + layout_size A + bitmap_size A + off, pa_block_size = 0,
                    layout = [], bitmap = [], area = []\<rparr>
       in Inr (init child (empty_size streams) streams # chain))"

end
