(* ===== verification/Packed_Allocator_Laws.thy ===== *)
theory Packed_Allocator_Laws
  imports Packed_Allocator
begin

text \<open>
  Laws of the packed allocator: what a move of elements does (\<open>moved\<close>), the invariant of an allocator
  (\<open>alloc_ok\<close>) and of a chain of nested ones (\<open>chain_ok\<close>), and that resizing an element keeps both and the
  contents of every other element.
\<close>

section \<open>Bytes\<close>

lemma length_CopyBuffer:
  assumes "s + n \<le> length src" "d + n \<le> length dst"
  shows "length (CopyBuffer src s dst d n) = length dst"
  using assms by (simp add: CopyBuffer_def)

lemma nth_CopyBuffer:
  assumes "s + n \<le> length src" "d + n \<le> length dst"
  shows "CopyBuffer src s dst d n ! p = (if d \<le> p \<and> p < d + n then src ! (s + (p - d)) else dst ! p)"
proof (cases "d \<le> p \<and> p < d + n")
  case True
  then have "p - d < n" by linarith
  then show ?thesis using True assms by (simp add: CopyBuffer_def nth_append min_absorb2)
next
  case False
  then consider "p < d" | "d + n \<le> p" by linarith
  then show ?thesis
  proof cases
    case 1
    then show ?thesis using assms by (simp add: CopyBuffer_def nth_append)
  next
    case 2
    then have "\<not> p - d < n" "p - d - n = p - (d + n)" by linarith+
    then show ?thesis using 2 assms False
      by (cases "p < length dst") (simp_all add: CopyBuffer_def nth_append min_absorb2)
  qed
qed

text \<open>The bytes \<open>[o, o + s)\<close> of a buffer.\<close>

definition bytes_at :: "'a list \<Rightarrow> int \<Rightarrow> int \<Rightarrow> 'a list" where
  "bytes_at bs off s = take (nat s) (drop (nat off) bs)"

lemma length_bytes_at [simp]:
  "0 \<le> off \<Longrightarrow> 0 \<le> s \<Longrightarrow> off + s \<le> int (length bs) \<Longrightarrow> length (bytes_at bs off s) = nat s"
  by (simp add: bytes_at_def)

lemma nth_bytes_at:
  assumes "0 \<le> off" "0 \<le> s" "off + s \<le> int (length bs)" "i < nat s"
  shows "bytes_at bs off s ! i = bs ! (nat off + i)"
  using assms by (simp add: bytes_at_def)

lemma bytes_at_shift:
  assumes "0 \<le> a" "0 \<le> b" "0 \<le> s" "a + s \<le> int (length xs)" "b + s \<le> int (length ys)"
    and "\<And>p. p < nat s \<Longrightarrow> xs ! (nat a + p) = ys ! (nat b + p)"
  shows "bytes_at xs a s = bytes_at ys b s"
  using assms by (intro nth_equalityI) (auto simp: bytes_at_def)

lemma bytes_at_cong:
  assumes "0 \<le> a" "0 \<le> s" "a + s \<le> int (length xs)" "length xs = length ys"
    and "\<And>p. a \<le> int p \<Longrightarrow> int p < a + s \<Longrightarrow> xs ! p = ys ! p"
  shows "bytes_at xs a s = bytes_at ys a s"
  using assms by (intro bytes_at_shift) auto

lemma length_int32_bytes [simp]: "length (int32_bytes x) = 4"
  by (simp add: int32_bytes_def)

section \<open>Well-formed allocators\<close>

definition element :: "pkd_alloc \<Rightarrow> nat \<Rightarrow> u8 list" where
  "element A i = bytes_at (area A) (layout A ! i) (layout A ! (i + 1) - layout A ! i)"

definition alloc_ok :: "pkd_alloc \<Rightarrow> bool" where
  "alloc_ok A \<longleftrightarrow> 2 \<le> length (layout A) \<and> even (length (layout A)) \<and> layout A ! 0 = 0
     \<and> (\<forall>i < length (layout A) - 1. layout A ! i \<le> layout A ! (i + 1))
     \<and> (\<forall>i < length (layout A). 8 dvd layout A ! i)
     \<and> allocated A \<le> client_area A \<and> int (length (area A)) = client_area A
     \<and> length (layout A) \<le> 64 * length (bitmap A)"

lemma layout_mono:
  assumes "\<forall>i < n - 1. L ! i \<le> (L ! (i + 1) :: int)" "i \<le> j" "j < n"
  shows "L ! i \<le> L ! j"
  using assms(2,3)
proof (induction j rule: dec_induct)
  case base then show ?case by simp
next
  case (step j)
  then have "L ! j \<le> L ! (j + 1)" using assms(1) by simp
  then show ?case using step by simp
qed

text \<open>
  What a move of the elements from \<open>k\<close> on by \<open>delta\<close> does: the offsets from \<open>k\<close> on change by \<open>delta\<close>, the
  bytes of every moved element come along, with a fresh distance to the allocator in the first four
  bytes of an \<open>ALLOCATABLE\<close> one, and nothing below the new place of element \<open>k\<close> changes.
\<close>

definition carried :: "pkd_alloc \<Rightarrow> nat \<Rightarrow> int \<Rightarrow> u8 list" where
  "carried A j delta =
     (if is_allocatable A j \<and> layout A ! j < layout A ! (j + 1) then
        int32_bytes (buffer_offset + layout_size A + bitmap_size A + (layout A ! j + delta)) @ drop 4 (element A j)
      else element A j)"

definition moved :: "pkd_alloc \<Rightarrow> nat \<Rightarrow> int \<Rightarrow> pkd_alloc \<Rightarrow> bool" where
  "moved A k delta B \<longleftrightarrow>
     allocator_offset B = allocator_offset A \<and> pa_block_size B = pa_block_size A \<and> bitmap B = bitmap A
     \<and> length (layout B) = length (layout A) \<and> length (area B) = length (area A)
     \<and> (\<forall>j < length (layout A). layout B ! j = layout A ! j + (if k \<le> j then delta else 0))
     \<and> (\<forall>p. int p < layout A ! k + delta \<longrightarrow> area B ! p = area A ! p)
     \<and> (\<forall>j. k \<le> j \<and> j < length (layout A) - 1 \<longrightarrow> element B j = carried A j delta)"

text \<open>One element is moved; \<open>carried_bytes\<close> is what arrives at its new place.\<close>

lemma moveElementData_spec:
  assumes o: "0 \<le> off" "off + sz \<le> int (length (area A))" "0 \<le> off + delta" "off + delta + sz \<le> int (length (area A))"
    and sz: "0 \<le> sz" "sz > 0 \<Longrightarrow> 8 \<le> sz"
  shows "\<exists>a. moveElementData A idx sz off delta = Inr (A\<lparr>area := a\<rparr>) \<and> length a = length (area A)
    \<and> (\<forall>p. int p < off + delta \<or> off + delta + sz \<le> int p \<longrightarrow> a ! p = area A ! p)
    \<and> bytes_at a (off + delta) sz
      = (if is_allocatable A idx \<and> 0 < sz then
           int32_bytes (buffer_offset + layout_size A + bitmap_size A + (off + delta)) @ drop 4 (bytes_at (area A) off sz)
         else bytes_at (area A) off sz)"
proof (cases "0 < sz")
  case False
  then have "sz = 0" using sz(1) by simp
  then show ?thesis by (intro exI [of _ "area A"]) (simp add: moveElementData_def bytes_at_def)
next
  case True
  define d s n where "d = nat (off + delta)" and "s = nat off" and "n = nat sz"
  let ?a = "CopyBuffer (area A) s (area A) d n"
  have b: "s + n \<le> length (area A)" "d + n \<le> length (area A)" using o sz by (auto simp: s_def d_def n_def)
  note len = length_CopyBuffer [OF b] and nth = nth_CopyBuffer [OF b]
  have far: "int p < off + delta \<or> off + delta + sz \<le> int p \<longleftrightarrow> \<not> (d \<le> p \<and> p < d + n)" for p
    using o sz by (auto simp: d_def n_def)
  have body: "bytes_at ?a (off + delta) sz = bytes_at (area A) off sz"
    using o sz len by (intro bytes_at_shift) (simp_all add: nth flip: d_def s_def n_def)
  show ?thesis
  proof (cases "is_allocatable A idx")
    case False
    then have "moveElementData A idx sz off delta = Inr (A\<lparr>area := ?a\<rparr>)"
      using True o by (simp add: moveElementData_def Let_def d_def s_def n_def is_allocatable_def)
    then show ?thesis using len nth far body False by auto
  next
    case al: True
    let ?h = "int32_bytes (buffer_offset + layout_size A + bitmap_size A + (off + delta))"
    let ?b = "CopyBuffer ?h 0 ?a d 4"
    have n8: "8 \<le> n" using sz(2) True by (simp add: n_def)
    have b4: "0 + 4 \<le> length ?h" "d + 4 \<le> length ?a" using b n8 len by simp_all
    note len4 = length_CopyBuffer [OF b4] and nth4 = nth_CopyBuffer [OF b4]
    have eq: "moveElementData A idx sz off delta = Inr (A\<lparr>area := ?b\<rparr>)"
      using True al o sz(2) len
      by (simp add: moveElementData_def setAllocatorOffset_def Let_def d_def s_def n_def is_allocatable_def layout_size_def bitmap_size_def)
    have out: "?b ! p = area A ! p" if "\<not> (d \<le> p \<and> p < d + n)" for p
    proof -
      have "\<not> (d \<le> p \<and> p < d + 4)" using that n8 by linarith
      then show ?thesis using that by (simp only: nth4 nth if_False)
    qed
    have "bytes_at ?b (off + delta) sz = ?h @ drop 4 (bytes_at (area A) off sz)"
    proof (rule nth_equalityI)
      show l: "length (bytes_at ?b (off + delta) sz) = length (?h @ drop 4 (bytes_at (area A) off sz))"
        using o sz len len4 n8 by (simp add: n_def)
      fix i assume "i < length (bytes_at ?b (off + delta) sz)"
      then have i: "i < n" using o sz len len4 by (simp add: n_def)
      have "bytes_at ?b (off + delta) sz ! i = ?b ! (d + i)" using i o sz len len4 by (simp add: nth_bytes_at d_def n_def)
      moreover have "bytes_at (area A) off sz ! i = area A ! (s + i)" using i o sz by (simp add: nth_bytes_at s_def n_def)
      moreover have "4 \<le> i \<Longrightarrow> drop 4 (bytes_at (area A) off sz) ! (i - 4) = bytes_at (area A) off sz ! i"
        using i o sz by (simp add: n_def)
      ultimately show "bytes_at ?b (off + delta) sz ! i = (?h @ drop 4 (bytes_at (area A) off sz)) ! i"
        using i n8 by (simp add: nth_append nth4 nth)
    qed
    then show ?thesis using eq len len4 far out al True by auto
  qed
qed


lemma element_step:
  assumes "\<forall>i < length (layout A) - 1. layout A ! i \<le> layout A ! (i + 1)"
    and "\<forall>i < length (layout A). 8 dvd layout A ! i" and "i < length (layout A) - 1"
  shows "0 \<le> layout A ! (i + 1) - layout A ! i"
    and "0 < layout A ! (i + 1) - layout A ! i \<Longrightarrow> 8 \<le> layout A ! (i + 1) - layout A ! i"
proof -
  show "0 \<le> layout A ! (i + 1) - layout A ! i" using assms(1,3) by simp
  have "8 dvd layout A ! (i + 1) - layout A ! i" using assms(2,3) by (intro dvd_diff) auto
  then show "0 < layout A ! (i + 1) - layout A ! i \<Longrightarrow> 8 \<le> layout A ! (i + 1) - layout A ! i"
    by (rule zdvd_imp_le)
qed

lemma moveElementsUp_moved:
  assumes mono: "\<forall>i < length (layout A) - 1. layout A ! i \<le> layout A ! (i + 1)"
    and al: "\<forall>i < length (layout A). 8 dvd layout A ! i" and z: "layout A ! 0 = 0"
    and k: "k < length (layout A)" and delta: "0 \<le> delta"
    and room: "layout A ! (length (layout A) - 1) + delta \<le> int (length (area A))"
  shows "\<exists>B. moveElementsUp A k delta = Inr B \<and> moved A k delta B"
  using k
proof (induction "length (layout A) - 1 - k" arbitrary: k)
  case 0
  then have k: "k = length (layout A) - 1" by simp
  then show ?case using 0(2)
    by (subst moveElementsUp.simps) (auto simp: bindR_def add_element_offset_def moved_def nth_list_update)
next
  case (Suc m)
  let ?n = "length (layout A)"
  let ?off = "layout A ! k" and ?sz = "layout A ! (k + 1) - layout A ! k"
  have kn: "k < ?n - 1" "k + 1 < ?n" using Suc.hyps(2) by simp_all
  have "m = ?n - 1 - (k + 1)" using Suc.hyps(2) by linarith
  then obtain B1 where B1: "moveElementsUp A (k + 1) delta = Inr B1" "moved A (k + 1) delta B1"
    using Suc.hyps(1) kn(2) by blast
  note M = B1(2) [unfolded moved_def]
  have mo: "layout A ! i \<le> layout A ! j" if "i \<le> j" "j < ?n" for i j by (rule layout_mono [OF mono that])
  have nn: "?n - 1 < ?n" using kn(1) by linarith
  have o: "0 \<le> ?off" "?off + ?sz + delta \<le> int (length (area A))"
    using mo [of 0 k] mo [OF _ nn, of "k + 1"] kn z room by simp_all
  note step = element_step [OF mono al kn(1)]
  have b: "?off + ?sz \<le> int (length (area B1))" "0 \<le> ?off + delta" "?off + delta + ?sz \<le> int (length (area B1))"
    using o delta M by simp_all
  obtain a where D: "moveElementData B1 k ?sz ?off delta = Inr (B1\<lparr>area := a\<rparr>)" "length a = length (area B1)"
    "\<forall>p. int p < ?off + delta \<or> ?off + delta + ?sz \<le> int p \<longrightarrow> a ! p = area B1 ! p"
    "bytes_at a (?off + delta) ?sz
      = (if is_allocatable B1 k \<and> 0 < ?sz then
           int32_bytes (buffer_offset + layout_size B1 + bitmap_size B1 + (?off + delta)) @ drop 4 (bytes_at (area B1) ?off ?sz)
         else bytes_at (area B1) ?off ?sz)"
    using moveElementData_spec [OF o(1) b step, of k] by blast
  define B where "B = B1\<lparr>area := a, layout := (layout B1)[k := layout B1 ! k + delta]\<rparr>"
  have run: "moveElementsUp A k delta = Inr B"
    using kn D(1) B1(1) M by (subst moveElementsUp.simps)
      (simp add: bindR_def element_size_def element_offset_def add_element_offset_def B_def)
  have lay: "layout B ! j = layout A ! j + (if k \<le> j then delta else 0)" if "j < ?n" for j
    using M that kn by (auto simp: B_def nth_list_update)
  have same: "bytes_at (area B1) ?off ?sz = element A k"
    unfolding element_def using M o step delta by (intro bytes_at_cong) auto
  have here: "element B k = carried A k delta"
    using D(4) M lay kn same by (auto simp: element_def carried_def B_def is_allocatable_def layout_size_def bitmap_size_def)
  have rest: "element B j = carried A j delta" if j: "k + 1 \<le> j" "j < ?n - 1" for j
  proof -
    have jn: "j < ?n" "j + 1 < ?n" using j by linarith+
    have "bytes_at a (layout A ! j + delta) (layout A ! (j + 1) - layout A ! j)
        = bytes_at (area B1) (layout A ! j + delta) (layout A ! (j + 1) - layout A ! j)"
    proof (rule bytes_at_cong)
      show "0 \<le> layout A ! j + delta" "0 \<le> layout A ! (j + 1) - layout A ! j"
        using mo [of 0 j] mo [of j "j + 1"] jn z delta by auto
      show "layout A ! j + delta + (layout A ! (j + 1) - layout A ! j) \<le> int (length a)"
        using mo [OF _ nn, of "j + 1"] j room D(2) M by auto
      show "a ! p = area B1 ! p" if "layout A ! j + delta \<le> int p" for p
        using D(3) mo [OF j(1) jn(1)] that by simp
    qed (use D(2) in simp)
    then have "element B j = element B1 j" using lay [OF jn(1)] lay [OF jn(2)] M j jn by (simp add: element_def B_def)
    then show ?thesis using M j by simp
  qed
  have "moved A k delta B"
    unfolding moved_def
  proof (intro conjI allI impI)
    fix p assume "int p < layout A ! k + delta"
    then show "area B ! p = area A ! p" using D(3) M mo [of k "k + 1"] kn by (simp add: B_def)
  next
    fix j assume "k \<le> j \<and> j < ?n - 1"
    then show "element B j = carried A j delta" using here rest by (cases "j = k") auto
  qed (use M D(2) lay in \<open>auto simp: B_def\<close>)
  then show ?case using run by blast
qed


lemma moveElementsDown_moved:
  assumes "\<forall>i < n - 1. layout A ! i \<le> layout A ! (i + 1)" "\<forall>i < n. 8 dvd layout A ! i" "layout A ! 0 = 0"
    and "0 < k" "k < n" "n = length (layout A)" and "delta \<le> 0" "8 dvd delta"
    and "layout A ! (k - 1) \<le> layout A ! k + delta" and "layout A ! (n - 1) \<le> int (length (area A))"
  shows "\<exists>B. moveElementsDown_n n A k delta = Inr B \<and> moved A k delta B"
  using assms
proof (induction "n - 1 - k" arbitrary: A k)
  case 0
  then have k: "k = length (layout A) - 1" by simp
  then show ?case using "0.prems"(5,6)
    by (subst moveElementsDown_n.simps) (auto simp: add_element_offset_def moved_def nth_list_update)
next
  case (Suc m)
  let ?off = "layout A ! k" and ?sz = "layout A ! (k + 1) - layout A ! k"
  note mono = Suc.prems(1) and al = Suc.prems(2) and z = Suc.prems(3) and n = Suc.prems(6) and delta = Suc.prems(7,8)
  have kn: "k < n - 1" "k + 1 < n" "n - 1 < n" "k - 1 < n" using Suc.hyps(2) by linarith+
  have mo: "layout A ! i \<le> layout A ! j" if "i \<le> j" "j < n" for i j by (rule layout_mono [OF mono that])
  have o: "0 \<le> ?off" "0 \<le> ?off + delta" "?off + ?sz \<le> int (length (area A))" "?off + delta + ?sz \<le> int (length (area A))"
    using mo [OF _ kn(4), of 0] mo [of 0 k] mo [OF _ kn(3), of "k + 1"] kn z Suc.prems(4,5,9,10) delta by auto
  note step = element_step [OF mono [unfolded n] al [unfolded n] kn(1) [unfolded n]]
  obtain a where D: "moveElementData A k ?sz ?off delta = Inr (A\<lparr>area := a\<rparr>)" "length a = length (area A)"
    "\<forall>p. int p < ?off + delta \<or> ?off + delta + ?sz \<le> int p \<longrightarrow> a ! p = area A ! p"
    "bytes_at a (?off + delta) ?sz
      = (if is_allocatable A k \<and> 0 < ?sz then
           int32_bytes (buffer_offset + layout_size A + bitmap_size A + (?off + delta)) @ drop 4 (bytes_at (area A) ?off ?sz)
         else bytes_at (area A) ?off ?sz)"
    using moveElementData_spec [OF o(1,3,2,4) step, of k] by blast
  define A2 where "A2 = A\<lparr>area := a, layout := (layout A)[k := ?off + delta]\<rparr>"
  have lay2: "layout A2 ! j = (if j = k then ?off + delta else layout A ! j)" if "j < n" for j
    using that n by (auto simp: A2_def nth_list_update)
  have len2: "length (layout A2) = n" "length (area A2) = length (area A)" using n D(2) by (simp_all add: A2_def)
  have mono2: "\<forall>i < n - 1. layout A2 ! i \<le> layout A2 ! (i + 1)"
  proof (intro allI impI)
    fix i assume i: "i < n - 1"
    then have "layout A ! i \<le> layout A ! (i + 1)" using mono by blast
    then show "layout A2 ! i \<le> layout A2 ! (i + 1)"
      using i lay2 [of i] lay2 [of "i + 1"] Suc.prems(9) delta by (cases "i + 1 = k") auto
  qed
  have al2: "\<forall>i < n. 8 dvd layout A2 ! i" using al lay2 delta(2) Suc.prems(5) by auto
  have next_off: "layout A2 ! (k + 1 - 1) \<le> layout A2 ! (k + 1) + delta"
    using lay2 [of k] lay2 [of "k + 1"] kn step(1) by simp
  have top2: "layout A2 ! (n - 1) \<le> int (length (area A2))" using lay2 [OF kn(3)] kn Suc.prems(10) len2 by simp
  have z2: "layout A2 ! 0 = 0" using lay2 [of 0] z Suc.prems(4) kn by simp
  have "m = n - 1 - (k + 1)" using Suc.hyps(2) by linarith
  from Suc.hyps(1) [OF this mono2 al2 z2 _ kn(2) len2(1) [symmetric] delta next_off top2] obtain B where
    B: "moveElementsDown_n n A2 (k + 1) delta = Inr B" "moved A2 (k + 1) delta B" by auto
  note M = B(2) [unfolded moved_def]
  have run: "moveElementsDown_n n A k delta = Inr B"
    using kn D(1) B(1) n by (subst moveElementsDown_n.simps)
      (simp add: bindR_def element_size_def element_offset_def add_element_offset_def A2_def)
  have lay: "layout B ! j = layout A ! j + (if k \<le> j then delta else 0)" if "j < n" for j
    using M lay2 [OF that] len2 that by (cases "j = k") auto
  have low: "area B ! p = a ! p" if "int p < layout A ! (k + 1) + delta" for p
    using M lay2 [OF kn(2)] that by (simp add: A2_def)
  have "bytes_at (area B) (?off + delta) ?sz = bytes_at a (?off + delta) ?sz"
    using o step(1) M len2 D(2) low by (intro bytes_at_cong) auto
  then have here: "element B k = carried A k delta"
    using D(4) lay [of k] lay [of "k + 1"] kn by (auto simp: element_def carried_def)
  have rest: "element B j = carried A j delta" if j: "k + 1 \<le> j" "j < n - 1" for j
  proof -
    have jn: "j < n" "j + 1 < n" using j by linarith+
    have "bytes_at a (layout A ! j) (layout A ! (j + 1) - layout A ! j) = element A j"
      unfolding element_def
    proof (rule bytes_at_cong)
      show "0 \<le> layout A ! j" "0 \<le> layout A ! (j + 1) - layout A ! j"
        using mo [of 0 j] mo [of j "j + 1"] jn z by auto
      show "layout A ! j + (layout A ! (j + 1) - layout A ! j) \<le> int (length a)"
        using mo [OF _ kn(3), of "j + 1"] j Suc.prems(10) D(2) by auto
      show "a ! p = area A ! p" if "layout A ! j \<le> int p" for p
        using D(3) mo [OF j(1) jn(1)] that delta(1) by simp
    qed (use D(2) in simp)
    then have "element A2 j = element A j"
      using lay2 [OF jn(1)] lay2 [OF jn(2)] j by (simp add: element_def A2_def)
    then have "carried A2 j delta = carried A j delta"
      using lay2 [OF jn(1)] lay2 [OF jn(2)] j
      by (simp add: carried_def) (simp add: A2_def is_allocatable_def layout_size_def bitmap_size_def)
    then show ?thesis using M j len2 by simp
  qed
  have "moved A k delta B"
    unfolding moved_def
  proof (intro conjI allI impI)
    fix p assume p: "int p < layout A ! k + delta"
    then show "area B ! p = area A ! p" using D(3) low [of p] mo [of k "k + 1"] kn by simp
  next
    fix j assume "k \<le> j \<and> j < length (layout A) - 1"
    then show "element B j = carried A j delta" using here rest n by (cases "j = k") auto
  qed (use M D(2) lay n len2 in \<open>auto simp: A2_def\<close>)
  then show ?case using run by blast
qed

section \<open>Moves keep the allocator well formed\<close>

lemma alloc_okD:
  assumes "alloc_ok A"
  shows "\<forall>i < length (layout A) - 1. layout A ! i \<le> layout A ! (i + 1)"
    and "\<forall>i < length (layout A). 8 dvd layout A ! i" and "layout A ! 0 = 0"
    and "layout A ! (length (layout A) - 1) \<le> int (length (area A))"
    and "int (length (area A)) = client_area A" and "2 \<le> length (layout A)"
  using assms by (auto simp: alloc_ok_def allocated_def elements_def)

lemma alloc_ok_mono: "alloc_ok A \<Longrightarrow> i \<le> j \<Longrightarrow> j < length (layout A) \<Longrightarrow> layout A ! i \<le> layout A ! j"
  by (rule layout_mono [OF alloc_okD(1)])

lemma alloc_ok_nonneg: "alloc_ok A \<Longrightarrow> i < length (layout A) \<Longrightarrow> 0 \<le> layout A ! i"
  using alloc_ok_mono [of A 0 i] alloc_okD(3) [of A] by simp

lemma moveElements_moved:
  assumes ok: "alloc_ok A" and k: "0 < k" "k < length (layout A)" and d: "8 dvd delta"
    and low: "layout A ! (k - 1) \<le> layout A ! k + delta" and room: "allocated A + delta \<le> client_area A"
  shows "\<exists>B. moveElements A k delta = Inr B \<and> moved A k delta B"
proof (cases "delta > 0")
  case True
  then show ?thesis
    using moveElementsUp_moved [OF alloc_okD(1-3) [OF ok] k(2), of delta] room alloc_okD(5) [OF ok]
    by (simp add: moveElements_def allocated_def elements_def)
next
  case False
  then show ?thesis
    using moveElementsDown_moved [OF alloc_okD(1-3) [OF ok] k refl _ d low alloc_okD(4) [OF ok]]
    by (simp add: moveElements_def moveElementsDown_def)
qed

lemma moved_alloc_ok:
  assumes ok: "alloc_ok A" and k: "0 < k" "k < length (layout A)" and d: "8 dvd delta"
    and low: "layout A ! (k - 1) \<le> layout A ! k + delta" and room: "allocated A + delta \<le> client_area A"
    and M: "moved A k delta B"
  shows "alloc_ok B" and "allocated B = allocated A + delta" and "client_area B = client_area A"
proof -
  let ?n = "length (layout A)"
  have lay: "layout B ! j = layout A ! j + (if k \<le> j then delta else 0)" if "j < ?n" for j
    using M that by (simp add: moved_def)
  have F: "length (layout B) = ?n" "bitmap B = bitmap A" "pa_block_size B = pa_block_size A" "length (area B) = length (area A)"
    using M by (simp_all add: moved_def)
  then show ca: "client_area B = client_area A" by (simp add: client_area_def layout_size_def bitmap_size_def)
  have n: "2 \<le> ?n" "?n - 1 < ?n" using alloc_okD(6) [OF ok] by simp_all
  show al: "allocated B = allocated A + delta" 
  proof -
    have "k \<le> ?n - 1" using k by linarith
    then show ?thesis using lay [OF n(2)] F by (simp add: allocated_def elements_def)
  qed
  have "layout B ! i \<le> layout B ! (i + 1)" if i: "i < ?n - 1" for i
  proof -
    have ii: "i < ?n" "i + 1 < ?n" using i by linarith+
    have "layout A ! i \<le> layout A ! (i + 1)" using alloc_okD(1) [OF ok] i by blast
    then show ?thesis using lay [OF ii(1)] lay [OF ii(2)] low by (cases "i + 1 = k") auto
  qed
  moreover have "\<forall>i < ?n. 8 dvd layout B ! i" using alloc_okD(2) [OF ok] lay d by auto
  moreover have "layout B ! 0 = 0"
  proof -
    have "0 < ?n" using k by linarith
    then show ?thesis using lay [of 0] k alloc_okD(3) [OF ok] by simp
  qed
  ultimately show "alloc_ok B" using ok F ca al room by (simp add: alloc_ok_def)
qed

text \<open>
  The contents of an element: the bytes of a raw one, the bytes after the distance to the allocator of
  an \<open>ALLOCATABLE\<close> one.
\<close>

definition body :: "pkd_alloc \<Rightarrow> nat \<Rightarrow> u8 list" where
  "body A i = (if is_allocatable A i then drop 4 (element A i) else element A i)"

lemma element_below:
  assumes ok: "alloc_ok A" and M: "moved A k delta B" and i: "i + 1 < k" "k < length (layout A)"
    and low: "layout A ! (k - 1) \<le> layout A ! k + delta"
  shows "element B i = element A i"
proof -
  have ii: "i < length (layout A)" "i + 1 < length (layout A)" using i by linarith+
  have lay: "layout B ! i = layout A ! i" "layout B ! (i + 1) = layout A ! (i + 1)" using M ii i by (auto simp: moved_def)
  have "layout A ! (i + 1) \<le> layout A ! (k - 1)" using i by (intro alloc_ok_mono [OF ok]) auto
  moreover have "layout A ! (i + 1) \<le> layout A ! (length (layout A) - 1)" using ii(2) by (intro alloc_ok_mono [OF ok]) auto
  ultimately show ?thesis unfolding element_def lay
    using alloc_ok_mono [OF ok, of i "i + 1"] alloc_ok_nonneg [OF ok ii(1)] ii M low alloc_okD(4) [OF ok]
    by (intro bytes_at_cong) (auto simp: moved_def)
qed

lemma body_carried:
  assumes ok: "alloc_ok A" and M: "moved A k delta B" and j: "k \<le> j" "j < length (layout A) - 1"
  shows "body B j = body A j"
proof -
  have e: "element B j = carried A j delta" and bm: "is_allocatable B j = is_allocatable A j"
    using M j by (auto simp: moved_def is_allocatable_def)
  have "element A j = []" if "\<not> layout A ! j < layout A ! (j + 1)" using that by (simp add: element_def bytes_at_def)
  then show ?thesis by (simp add: body_def bm e carried_def)
qed

lemma prefix_kept:
  assumes ok: "alloc_ok A" and M: "moved A k delta B" and k: "0 < k" "k < length (layout A)"
    and low: "layout A ! (k - 1) \<le> layout A ! k + delta" and room: "allocated A + delta \<le> client_area A"
    and m: "m = nat (min (layout A ! k - layout A ! (k - 1)) (layout A ! k + delta - layout A ! (k - 1)))"
  shows "take m (element B (k - 1)) = take m (element A (k - 1))"
proof -
  let ?o = "layout A ! (k - 1)"
  have kk: "k - 1 < length (layout A)" "k - 1 + 1 = k" using k by simp_all
  have lay: "layout B ! (k - 1) = ?o" "layout B ! k = layout A ! k + delta" using M k kk by (auto simp: moved_def)
  have o: "0 \<le> ?o" by (rule alloc_ok_nonneg [OF ok kk(1)])
  have top: "layout A ! k \<le> layout A ! (length (layout A) - 1)" using k by (intro alloc_ok_mono [OF ok]) auto
  have "?o \<le> layout A ! k" using k by (intro alloc_ok_mono [OF ok]) auto
  then have m1: "int m \<le> layout A ! k - ?o" and m2: "int m \<le> layout A ! k + delta - ?o" using low m by auto
  have "bytes_at (area B) ?o (int m) = bytes_at (area A) ?o (int m)"
  proof (rule bytes_at_cong [OF o])
    show "?o + int m \<le> int (length (area B))" using m1 M top alloc_okD(4) [OF ok] by (simp add: moved_def)
    show "area B ! p = area A ! p" if "int p < ?o + int m" for p using that m2 M by (simp add: moved_def)
  qed (use M in \<open>simp_all add: moved_def\<close>)
  moreover have "take m (element B (k - 1)) = bytes_at (area B) ?o (int m)"
    unfolding element_def kk(2) lay using m by (simp add: bytes_at_def min_def)
  moreover have "take m (element A (k - 1)) = bytes_at (area A) ?o (int m)"
    unfolding element_def kk(2) using m by (simp add: bytes_at_def min_def)
  ultimately show ?thesis by simp
qed

section \<open>Changing the size of the block\<close>

lemma set_block_size_ok:
  assumes ok: "alloc_ok A" and n: "allocated A + my_size + layout_size A + bitmap_size A \<le> n"
  shows "alloc_ok (set_block_size A n)" and "element (set_block_size A n) i = element A i \<or> length (layout A) - 1 \<le> i"
    and "client_area (set_block_size A n) = n - my_size - layout_size A - bitmap_size A"
proof -
  let ?B = "set_block_size A n"
  have f: "layout ?B = layout A" "bitmap ?B = bitmap A" "pa_block_size ?B = n"
    by (simp_all add: set_block_size_def Let_def)
  show ca: "client_area ?B = n - my_size - layout_size A - bitmap_size A"
    by (simp add: client_area_def f layout_size_def bitmap_size_def)
  have al: "allocated ?B = allocated A" by (simp add: allocated_def elements_def f)
  have nn: "0 \<le> allocated A" using alloc_ok_nonneg [OF ok, of "elements A"] alloc_okD(6) [OF ok]
    by (simp add: allocated_def elements_def)
  have area: "area ?B = fit (nat (client_area ?B)) (area A)"
    by (simp add: set_block_size_def Let_def client_area_def layout_size_def bitmap_size_def)
  then have len: "int (length (area ?B)) = client_area ?B" using ca n nn by (simp add: fit_def)
  then show "alloc_ok ?B" using ok ca n al by (simp add: alloc_ok_def f)
  show "element ?B i = element A i \<or> length (layout A) - 1 \<le> i"
  proof (cases "i < length (layout A) - 1")
    case True
    then have ii: "i < length (layout A)" "i + 1 < length (layout A)" by linarith+
    have top: "layout A ! (i + 1) \<le> allocated A"
      unfolding allocated_def elements_def using ii by (intro alloc_ok_mono [OF ok]) auto
    then have top': "layout A ! (i + 1) \<le> int (length (area A))"
      using alloc_okD(4) [OF ok] by (simp add: allocated_def elements_def)
    have "element ?B i = element A i"
      unfolding element_def f
    proof (rule bytes_at_shift)
      show "0 \<le> layout A ! i" "0 \<le> layout A ! i" "0 \<le> layout A ! (i + 1) - layout A ! i"
        using alloc_ok_nonneg [OF ok ii(1)] alloc_ok_mono [OF ok _ ii(2), of i] by auto
      show "layout A ! i + (layout A ! (i + 1) - layout A ! i) \<le> int (length (area ?B))" using top ca len n by simp
      show "layout A ! i + (layout A ! (i + 1) - layout A ! i) \<le> int (length (area A))" using top' by simp
      fix p assume "p < nat (layout A ! (i + 1) - layout A ! i)"
      then have "int (nat (layout A ! i) + p) < layout A ! (i + 1)" using alloc_ok_nonneg [OF ok ii(1)] by simp
      then have "nat (layout A ! i) + p < length (area A)" "nat (layout A ! i) + p < nat (client_area ?B)"
        using top top' ca n by linarith+
      then show "area ?B ! (nat (layout A ! i) + p) = area A ! (nat (layout A ! i) + p)"
        unfolding area by (simp add: fit_def nth_append)
    qed
    then show ?thesis by simp
  qed simp
qed


section \<open>Rounding\<close>

lemma sdiv_smod_nonneg: "0 \<le> x \<Longrightarrow> x sdiv 8 = x div 8" "0 \<le> x \<Longrightarrow> x smod 8 = x mod (8 :: int)"
  by (cases "x = 0"; simp add: signed_divide_int_def signed_modulo_int_def minus_div_mult_eq_mod)+

lemma roundUp_props:
  assumes "0 \<le> x"
  shows "8 dvd roundUpBytesToAlignmentBlocks x" and "x \<le> roundUpBytesToAlignmentBlocks x"
    and "roundUpBytesToAlignmentBlocks x < x + 8" and "8 dvd x \<Longrightarrow> roundUpBytesToAlignmentBlocks x = x"
proof -
  let ?r = "roundUpBytesToAlignmentBlocks x"
  have r: "?r = (x div 8 + (if x mod 8 \<noteq> 0 then 1 else 0)) * 8"
    using assms by (simp add: roundUpBytesToAlignmentBlocks_def AlignmentBlock_def sdiv_smod_nonneg)
  have x: "x = x div 8 * 8 + x mod 8" "0 \<le> x mod 8" "x mod 8 < 8" by simp_all
  show "8 dvd ?r" by (simp add: r)
  have "x \<le> ?r \<and> ?r < x + 8"
  proof (cases "x mod 8 = 0")
    case True
    then have "?r = x div 8 * 8" by (simp add: r)
    then show ?thesis using x True by linarith
  next
    case False
    then have "?r = x div 8 * 8 + 8" by (simp add: r)
    then show ?thesis using x False by linarith
  qed
  then show "x \<le> ?r" "?r < x + 8" by simp_all
  show "8 dvd x \<Longrightarrow> ?r = x" by (auto simp: r)
qed

section \<open>Chains of allocators\<close>

text \<open>An allocator is element \<open>i\<close> of the next one: its distance and its block size say so.\<close>

definition nested_at :: "pkd_alloc \<Rightarrow> pkd_alloc \<Rightarrow> nat \<Rightarrow> bool" where
  "nested_at A P i \<longleftrightarrow> i < elements P \<and> 0 < allocator_offset A
     \<and> layout P ! i = allocator_offset A - (buffer_offset + layout_size P + bitmap_size P)
     \<and> layout P ! (i + 1) = layout P ! i + pa_block_size A"

fun chain_ok :: "pkd_alloc list \<Rightarrow> bool" where
  "chain_ok [] = False"
| "chain_ok [A] = (alloc_ok A \<and> 8 dvd pa_block_size A \<and> allocator_offset A = 0)"
| "chain_ok (A # P # up) =
    (alloc_ok A \<and> 8 dvd pa_block_size A \<and> (\<exists>i < elements P. nested_at A P i) \<and> chain_ok (P # up))"

lemma chain_ok_hd: "chain_ok (A # up) \<Longrightarrow> alloc_ok A \<and> 8 dvd pa_block_size A"
  by (cases up) auto

lemma find_element_from_skip:
  assumes "\<forall>j < i. L ! j \<le> off" "i < length L" "off < L ! i"
  shows "find_element_from off L c = Inr (c + i - 1)"
  using assms
proof (induction L arbitrary: i c)
  case (Cons a L)
  show ?case
  proof (cases i)
    case 0 then show ?thesis using Cons.prems by simp
  next
    case (Suc j)
    then have "\<not> off < a" using Cons.prems(1) by auto
    moreover have "\<forall>m < j. L ! m \<le> off"
    proof (intro allI impI)
      fix m assume "m < j"
      then show "L ! m \<le> off" using Cons.prems(1) Suc by (auto dest: spec [of _ "Suc m"])
    qed
    ultimately show ?thesis using Cons.IH [of j "c + 1"] Cons.prems(2,3) Suc by simp
  qed
qed simp

lemma findElement_nested:
  assumes ok: "alloc_ok P" and i: "i < elements P" and lt: "layout P ! i < layout P ! (i + 1)"
  shows "findElement P (layout P ! i) = Inr i"
proof -
  have ii: "i < length (layout P)" "i + 1 < length (layout P)" using i by (simp_all add: elements_def)
  have "\<forall>j < i + 1. layout P ! j \<le> layout P ! i" using alloc_ok_mono [OF ok _ ii(1)] by simp
  then show ?thesis using find_element_from_skip [of "i + 1" "layout P" "layout P ! i" 0] ii lt alloc_ok_nonneg [OF ok ii(1)]
    by (simp add: findElement_def)
qed

lemma block_size_pos:
  assumes "alloc_ok A"
  shows "allocated A + my_size + layout_size A + bitmap_size A \<le> pa_block_size A" "0 < pa_block_size A" "0 \<le> allocated A"
    and "8 dvd my_size + layout_size A + bitmap_size A" "8 dvd allocated A"
proof -
  have e: "elements A < length (layout A)" using alloc_okD(6) [OF assms] by (simp add: elements_def)
  show a0: "0 \<le> allocated A" unfolding allocated_def by (rule alloc_ok_nonneg [OF assms e])
  show le: "allocated A + my_size + layout_size A + bitmap_size A \<le> pa_block_size A"
    using assms by (simp add: alloc_ok_def client_area_def)
  then show "0 < pa_block_size A" using a0 by (simp add: my_size_def layout_size_def bitmap_size_def)
  show "8 dvd allocated A" using alloc_okD(2) [OF assms] e by (simp add: allocated_def)
  have "even (length (layout A))" using assms by (simp add: alloc_ok_def)
  then obtain m where "length (layout A) = 2 * m" by (rule evenE)
  then have "8 dvd layout_size A" by (simp add: layout_size_def)
  then show "8 dvd my_size + layout_size A + bitmap_size A" by (simp add: my_size_def bitmap_size_def)
qed

section \<open>Resizing an element\<close>

definition same_elements :: "pkd_alloc \<Rightarrow> pkd_alloc \<Rightarrow> bool" where
  "same_elements A B \<longleftrightarrow> layout B = layout A \<and> bitmap B = bitmap A \<and> allocator_offset B = allocator_offset A
     \<and> (\<forall>i < elements A. element B i = element A i)"

definition kept_but :: "pkd_alloc \<Rightarrow> nat \<Rightarrow> pkd_alloc \<Rightarrow> bool" where
  "kept_but A idx B \<longleftrightarrow> length (layout B) = length (layout A) \<and> bitmap B = bitmap A
     \<and> allocator_offset B = allocator_offset A \<and> (\<forall>j \<le> idx. layout B ! j = layout A ! j)
     \<and> (\<forall>i < elements A. i \<noteq> idx \<longrightarrow> body B i = body A i)"

definition resized :: "pkd_alloc \<Rightarrow> nat \<Rightarrow> int \<Rightarrow> pkd_alloc \<Rightarrow> bool" where
  "resized A idx n B \<longleftrightarrow> kept_but A idx B \<and> layout B ! (idx + 1) = layout B ! idx + n
     \<and> (let m = nat (min n (layout A ! (idx + 1) - layout A ! idx)) in take m (element B idx) = take m (element A idx))"

lemma set_block_size_simps [simp]:
  "layout (set_block_size A n) = layout A" "bitmap (set_block_size A n) = bitmap A"
  "pa_block_size (set_block_size A n) = n" "allocator_offset (set_block_size A n) = allocator_offset A"
  "layout_size (set_block_size A n) = layout_size A" "bitmap_size (set_block_size A n) = bitmap_size A"
  "elements (set_block_size A n) = elements A" "allocated (set_block_size A n) = allocated A"
  by (simp_all add: set_block_size_def Let_def layout_size_def bitmap_size_def elements_def allocated_def)

lemma same_elements_set_block_size:
  assumes "alloc_ok A" "allocated A + my_size + layout_size A + bitmap_size A \<le> n"
  shows "same_elements A (set_block_size A n)"
proof -
  have "element (set_block_size A n) i = element A i" if "i < elements A" for i
    using set_block_size_ok(2) [OF assms, of i] that by (simp add: elements_def)
  then show ?thesis by (simp add: same_elements_def)
qed

lemma resized_moved:
  assumes ok: "alloc_ok A" and M: "moved A (idx + 1) delta B" and idx: "idx < elements A"
    and low: "layout A ! idx \<le> layout A ! (idx + 1) + delta" and room: "allocated A + delta \<le> client_area A"
  shows "resized A idx (layout A ! (idx + 1) - layout A ! idx + delta) B"
proof -
  have k: "0 < idx + 1" "idx + 1 < length (layout A)" using idx by (simp_all add: elements_def)
  have low': "layout A ! (idx + 1 - 1) \<le> layout A ! (idx + 1) + delta" using low by simp
  have lay: "layout B ! j = layout A ! j + (if idx + 1 \<le> j then delta else 0)" if "j < length (layout A)" for j
    using M that by (simp add: moved_def)
  have "body B i = body A i" if "i < elements A" "i \<noteq> idx" for i
  proof (cases "i < idx")
    case True
    then have "element B i = element A i" using k low' by (intro element_below [OF ok M]) auto
    then show ?thesis using M by (simp add: body_def is_allocatable_def moved_def)
  next
    case False
    then show ?thesis using that k by (intro body_carried [OF ok M]) (auto simp: elements_def)
  qed
  moreover have "take (nat (min (layout A ! (idx + 1) - layout A ! idx + delta) (layout A ! (idx + 1) - layout A ! idx))) (element B idx)
      = take (nat (min (layout A ! (idx + 1) - layout A ! idx + delta) (layout A ! (idx + 1) - layout A ! idx))) (element A idx)"
    using prefix_kept [OF ok M k low' room refl] by (simp add: min.commute add_diff_eq diff_add_eq)
  moreover have "layout B ! (idx + 1) = layout B ! idx + (layout A ! (idx + 1) - layout A ! idx + delta)"
    using lay [of idx] lay [OF k(2)] k by simp
  ultimately show ?thesis using M k lay by (auto simp: resized_def kept_but_def moved_def Let_def)
qed

lemma resized_same_before:
  assumes "same_elements A A1" "resized A1 idx n B" "idx < elements A"
  shows "resized A idx n B"
  using assms by (auto simp: resized_def kept_but_def same_elements_def body_def is_allocatable_def elements_def Let_def)

lemma resized_same_after:
  assumes "same_elements B C" "resized A idx n B" "idx < elements A"
  shows "resized A idx n C"
proof -
  have "elements B = elements A" using assms(2) by (simp add: resized_def kept_but_def elements_def)
  then show ?thesis using assms
    by (auto simp: resized_def kept_but_def same_elements_def body_def is_allocatable_def elements_def Let_def)
qed

definition chain_kept :: "pkd_alloc list \<Rightarrow> pkd_alloc list \<Rightarrow> bool" where
  "chain_kept up up' \<longleftrightarrow> list_all2 (\<lambda>A B. \<exists>i. kept_but A i B) up up'"

lemma kept_but_refl [simp]: "kept_but A i A"
  by (simp add: kept_but_def)

lemma chain_kept_refl [simp]: "chain_kept up up"
  unfolding chain_kept_def by (auto intro!: list_all2_refl)

lemma chain_ok_replace:
  assumes "chain_ok (A # up)" "alloc_ok B" "pa_block_size B = pa_block_size A" "allocator_offset B = allocator_offset A"
  shows "chain_ok (B # up)"
  using assms by (cases up) (auto simp: nested_at_def)

definition resize_correct :: "pkd_alloc list \<Rightarrow> bool" where
  "resize_correct up \<longleftrightarrow> (\<forall>A n. chain_ok (A # up) \<longrightarrow> 8 dvd n \<longrightarrow> allocated A + my_size + layout_size A + bitmap_size A \<le> n \<longrightarrow>
     (resize (A # up) n = Inl PackedOOM \<and> pa_block_size A < n)
     \<or> (\<exists>up'. resize (A # up) n = Inr (n, set_block_size A n # up') \<and> chain_ok (set_block_size A n # up') \<and> chain_kept up up'))"

definition resizeBlock_correct :: "pkd_alloc list \<Rightarrow> bool" where
  "resizeBlock_correct up \<longleftrightarrow> (\<forall>A idx n. chain_ok (A # up) \<longrightarrow> idx < elements A \<longrightarrow> 0 \<le> n \<longrightarrow>
     (let r = roundUpBytesToAlignmentBlocks n in
      (resizeBlock (A # up) idx n = Inl PackedOOM \<and> layout A ! (idx + 1) - layout A ! idx < r)
      \<or> (\<exists>B up'. resizeBlock (A # up) idx n = Inr (r, B # up') \<and> chain_ok (B # up') \<and> resized A idx r B \<and> chain_kept up up')))"

lemma resize_top: "resize_correct []"
  unfolding resize_correct_def
proof (intro allI impI)
  fix A n assume A: "chain_ok [A]" "8 dvd n" "allocated A + my_size + layout_size A + bitmap_size A \<le> n"
  then show "(resize [A] n = Inl PackedOOM \<and> pa_block_size A < n)
     \<or> (\<exists>up'. resize [A] n = Inr (n, set_block_size A n # up') \<and> chain_ok (set_block_size A n # up') \<and> chain_kept [] up')"
    using set_block_size_ok(1) [of A n] by (cases "n \<le> pa_block_size A") (auto simp: resize.simps resize_in_def)
qed

lemma resize_nested:
  assumes IH: "resizeBlock_correct up"
  shows "resize_correct (P # up)"
  unfolding resize_correct_def
proof (intro allI impI)
  fix A n assume A: "chain_ok (A # P # up)" "8 dvd n" "allocated A + my_size + layout_size A + bitmap_size A \<le> n"
  then obtain i where i: "i < elements P" "nested_at A P i" and P: "chain_ok (P # up)" and ok: "alloc_ok A" by auto
  note pos = block_size_pos [OF ok]
  have n0: "0 \<le> n" using A(3) pos(3) by (simp add: my_size_def layout_size_def bitmap_size_def)
  have r: "roundUpBytesToAlignmentBlocks n = n" by (rule roundUp_props(4) [OF n0 A(2)])
  have "layout P ! i < layout P ! (i + 1)" using i(2) pos(2) by (simp add: nested_at_def)
  then have f: "findElement P (allocator_offset A - (buffer_offset + layout_size P + bitmap_size P)) = Inr i"
    using findElement_nested [of P i] chain_ok_hd [OF P] i by (simp add: nested_at_def)
  have run: "resize (A # P # up) n = bindR (resizeBlock (P # up) i n) (\<lambda>(n, up). Inr (n, set_block_size A n # up))"
    using i(2) f by (subst resize.simps) (simp add: resize_in_def bindR_def nested_at_def)
  from IH [unfolded resizeBlock_correct_def Let_def, rule_format, OF P i(1) n0]
  consider "resizeBlock (P # up) i n = Inl PackedOOM" "layout P ! (i + 1) - layout P ! i < n"
    | Q up' where "resizeBlock (P # up) i n = Inr (n, Q # up')" "chain_ok (Q # up')" "resized P i n Q" "chain_kept up up'"
    unfolding r by blast
  then show "(resize (A # P # up) n = Inl PackedOOM \<and> pa_block_size A < n)
     \<or> (\<exists>up'. resize (A # P # up) n = Inr (n, set_block_size A n # up') \<and> chain_ok (set_block_size A n # up')
          \<and> chain_kept (P # up) up')"
  proof cases
    case 1
    then show ?thesis using run i(2) by (simp add: bindR_def nested_at_def)
  next
    case (2 Q up')
    have K: "kept_but P i Q" "layout Q ! (i + 1) = layout Q ! i + n" using 2(3) by (simp_all add: resized_def)
    then have "elements Q = elements P" "layout_size Q = layout_size P" "bitmap_size Q = bitmap_size P" "layout Q ! i = layout P ! i"
      by (simp_all add: kept_but_def elements_def layout_size_def bitmap_size_def)
    then have "nested_at (set_block_size A n) Q i" using i(2) K(2) by (simp add: nested_at_def)
    then have "chain_ok (set_block_size A n # Q # up')"
      using 2(2) A(2) set_block_size_ok(1) [OF ok A(3)] i(1) \<open>elements Q = elements P\<close> by auto
    moreover have "chain_kept (P # up) (Q # up')" using K(1) 2(4) by (auto simp: chain_kept_def)
    ultimately show ?thesis using run 2(1) by (simp add: bindR_def)
  qed
qed


text \<open>The three ways to resize an element when the chain above is correct.\<close>

lemma moveElements_resized:
  assumes ok: "alloc_ok A" and idx: "idx < elements A" and r: "0 \<le> r" "8 dvd r"
    and delta: "delta = r - (layout A ! (idx + 1) - layout A ! idx)" and room: "delta \<le> free_space A"
  shows "\<exists>B. moveElements A (idx + 1) delta = Inr B \<and> alloc_ok B \<and> resized A idx r B
    \<and> pa_block_size B = pa_block_size A \<and> allocator_offset B = allocator_offset A
    \<and> allocated B = allocated A + delta \<and> client_area B = client_area A"
proof -
  have k: "0 < idx + 1" "idx + 1 < length (layout A)" "idx < length (layout A)" using idx by (simp_all add: elements_def)
  have d8: "8 dvd delta" using alloc_okD(2) [OF ok] k r(2) by (simp add: delta dvd_diff)
  have low: "layout A ! idx \<le> layout A ! (idx + 1) + delta" using r(1) by (simp add: delta)
  then have low': "layout A ! (idx + 1 - 1) \<le> layout A ! (idx + 1) + delta" by simp
  have rm: "allocated A + delta \<le> client_area A" using room by (simp add: free_space_def)
  obtain B where B: "moveElements A (idx + 1) delta = Inr B" "moved A (idx + 1) delta B"
    using moveElements_moved [OF ok k(1,2) d8 low' rm] by blast
  have "resized A idx (layout A ! (idx + 1) - layout A ! idx + delta) B" by (rule resized_moved [OF ok B(2) idx low rm])
  moreover have "layout A ! (idx + 1) - layout A ! idx + delta = r" by (simp add: delta)
  ultimately show ?thesis
    using B moved_alloc_ok [OF ok k(1,2) d8 low' rm B(2)] by (auto simp: moved_def)
qed

lemma resizeBlock_grow:
  assumes R: "resize_correct up" and C: "chain_ok (A # up)" and idx: "idx < elements A" and n: "0 \<le> n"
    and r: "r = roundUpBytesToAlignmentBlocks n" and sz: "sz = layout A ! (idx + 1) - layout A ! idx" and grow: "sz < r"
  shows "resizeBlock (A # up) idx n = Inl PackedOOM
    \<or> (\<exists>B up'. resizeBlock (A # up) idx n = Inr (r, B # up') \<and> chain_ok (B # up') \<and> resized A idx r B \<and> chain_kept up up')"
proof -
  have ok: "alloc_ok A" "8 dvd pa_block_size A" using chain_ok_hd [OF C] by simp_all
  have r8: "0 \<le> r" "8 dvd r" using roundUp_props [OF n] n by (simp_all add: r)
  have es: "element_size A idx = Inr sz" using idx
    by (simp add: element_size_def element_offset_def bindR_def elements_def sz)
  have run: "resizeBlock (A # up) idx n =
      bindR (if r - sz > free_space A then resize (A # up) (enlarge_size A (r - sz)) else Inr (0, A # up)) (\<lambda>(_, chain).
        bindR (moveElements (hd chain) (idx + 1) (r - sz)) (\<lambda>A. Inr (r, A # tl chain)))"
    using n grow es by (subst resizeBlock.simps) (simp add: bindR_def resize.simps r [symmetric] Let_def)
  have finish: "\<exists>B. resizeBlock (A # up) idx n = Inr (r, B # up') \<and> chain_ok (B # up') \<and> resized A idx r B"
    if A1: "same_elements A A1" "alloc_ok A1" "r - sz \<le> free_space A1" "chain_ok (A1 # up')"
      and run1: "resizeBlock (A # up) idx n = bindR (moveElements A1 (idx + 1) (r - sz)) (\<lambda>A. Inr (r, A # up'))" for A1 up'
  proof -
    have e: "idx < elements A1" "r - sz = r - (layout A1 ! (idx + 1) - layout A1 ! idx)"
      using A1(1) idx by (simp_all add: same_elements_def elements_def sz)
    from moveElements_resized [OF A1(2) e(1) r8 e(2) A1(3)] obtain B where
      B: "moveElements A1 (idx + 1) (r - sz) = Inr B" "alloc_ok B" "resized A1 idx r B"
        "pa_block_size B = pa_block_size A1" "allocator_offset B = allocator_offset A1" by blast
    then show ?thesis using run1 chain_ok_replace [OF A1(4) B(2,4,5)] resized_same_before [OF A1(1) B(3) idx]
      by (simp add: bindR_def)
  qed
  show ?thesis
  proof (cases "r - sz > free_space A")
    case False
    then have "\<exists>B. resizeBlock (A # up) idx n = Inr (r, B # up) \<and> chain_ok (B # up) \<and> resized A idx r B"
      using run ok C by (intro finish [of A]) (auto simp: same_elements_def bindR_def split: sum.split)
    then show ?thesis by (metis chain_kept_refl)
  next
    case True
    let ?n = "pa_block_size A + (r - sz)"
    note pos = block_size_pos [OF ok(1)]
    have "8 dvd sz" using alloc_okD(2) [OF ok(1)] idx by (simp add: sz elements_def dvd_diff)
    then have n8: "8 dvd ?n" "0 \<le> ?n" using ok(2) r8(2) pos(2) grow by (simp_all add: dvd_add dvd_diff)
    then have en: "enlarge_size A (r - sz) = ?n" by (simp add: enlarge_size_def roundUp_props(4))
    have fits: "allocated A + my_size + layout_size A + bitmap_size A \<le> ?n" using pos(1) grow by simp
    from R [unfolded resize_correct_def, rule_format, OF C n8(1) fits]
    consider "resize (A # up) ?n = Inl PackedOOM"
      | up' where "resize (A # up) ?n = Inr (?n, set_block_size A ?n # up')" "chain_ok (set_block_size A ?n # up')" "chain_kept up up'"
      by blast
    then show ?thesis
    proof cases
      case 1
      then show ?thesis using run True en by (simp add: bindR_def)
    next
      case (2 up')
      have "r - sz \<le> free_space (set_block_size A ?n)"
        using set_block_size_ok(3) [OF ok(1) fits] pos(1) by (simp add: free_space_def)
      then have "\<exists>B. resizeBlock (A # up) idx n = Inr (r, B # up') \<and> chain_ok (B # up') \<and> resized A idx r B"
        using run True en 2 same_elements_set_block_size [OF ok(1) fits] set_block_size_ok(1) [OF ok(1) fits]
        by (intro finish [of "set_block_size A ?n"]) (auto simp: bindR_def split: sum.split)
      then show ?thesis using 2(3) by blast
    qed
  qed
qed

lemma resizeBlock_shrink:
  assumes R: "resize_correct up" and C: "chain_ok (A # up)" and idx: "idx < elements A" and n: "0 \<le> n"
    and r: "r = roundUpBytesToAlignmentBlocks n" and sz: "sz = layout A ! (idx + 1) - layout A ! idx" and le: "r \<le> sz"
  shows "\<exists>B up'. resizeBlock (A # up) idx n = Inr (r, B # up') \<and> chain_ok (B # up') \<and> resized A idx r B \<and> chain_kept up up'"
proof -
  have ok: "alloc_ok A" "8 dvd pa_block_size A" using chain_ok_hd [OF C] by simp_all
  have r8: "0 \<le> r" "8 dvd r" using roundUp_props [OF n] n by (simp_all add: r)
  have es: "element_size A idx = Inr sz" using idx
    by (simp add: element_size_def element_offset_def bindR_def elements_def sz)
  have fs: "r - sz \<le> free_space A" using ok(1) le by (simp add: alloc_ok_def free_space_def)
  have d: "r - sz = r - (layout A ! (idx + 1) - layout A ! idx)" by (simp add: sz)
  show ?thesis
  proof (cases "r = sz")
    case True
    have "resizeBlock (A # up) idx n = Inr (r, A # up)"
      using n True es by (subst resizeBlock.simps) (simp add: bindR_def resize.simps r [symmetric] Let_def)
    moreover have "resized A idx r A" using True sz by (simp add: resized_def)
    ultimately show ?thesis using C chain_kept_refl by blast
  next
    case False
    from moveElements_resized [OF ok(1) idx r8 d fs] obtain B where
      B: "moveElements A (idx + 1) (r - sz) = Inr B" "alloc_ok B" "resized A idx r B"
        "pa_block_size B = pa_block_size A" "allocator_offset B = allocator_offset A" by blast
    note CB = chain_ok_replace [OF C B(2,4,5)]
    have run: "resizeBlock (A # up) idx n =
        (if allocator_offset B > 0 then
           bindR (resize (B # up) (pa_block_size B - free_space B)) (\<lambda>(_, chain). Inr (r, chain))
         else Inr (r, B # up))"
      using n False le es B(1) by (subst resizeBlock.simps) (simp add: bindR_def resize.simps r [symmetric] Let_def)
    show ?thesis
    proof (cases "allocator_offset B > 0")
      case False
      then show ?thesis using run CB B(3) chain_kept_refl by auto
    next
      case True
      let ?n = "pa_block_size B - free_space B"
      note pos = block_size_pos [OF B(2)]
      have eq: "?n = allocated B + (my_size + layout_size B + bitmap_size B)" by (simp add: free_space_def client_area_def)
      then have n8: "8 dvd ?n" using pos(4,5) by simp
      have fits: "allocated B + my_size + layout_size B + bitmap_size B \<le> ?n" using eq by simp
      have "\<not> pa_block_size B < ?n" using eq pos(1) by simp
      with R [unfolded resize_correct_def, rule_format, OF CB n8 fits] obtain up' where
        U: "resize (B # up) ?n = Inr (?n, set_block_size B ?n # up')" "chain_ok (set_block_size B ?n # up')" "chain_kept up up'"
        by blast
      have "resized A idx r (set_block_size B ?n)"
        by (rule resized_same_after [OF same_elements_set_block_size [OF B(2) fits] B(3) idx])
      then show ?thesis using run True U by (auto simp: bindR_def)
    qed
  qed
qed

lemma resizeBlock_step:
  assumes R: "resize_correct up"
  shows "resizeBlock_correct up"
  unfolding resizeBlock_correct_def Let_def
proof (intro allI impI)
  fix A :: pkd_alloc and idx :: nat and n :: int
  assume C: "chain_ok (A # up)" and idx: "idx < elements A" and n: "0 \<le> n"
  show "(resizeBlock (A # up) idx n = Inl PackedOOM \<and> layout A ! (idx + 1) - layout A ! idx < roundUpBytesToAlignmentBlocks n)
     \<or> (\<exists>B up'. resizeBlock (A # up) idx n = Inr (roundUpBytesToAlignmentBlocks n, B # up') \<and> chain_ok (B # up')
          \<and> resized A idx (roundUpBytesToAlignmentBlocks n) B \<and> chain_kept up up')"
  proof (cases "layout A ! (idx + 1) - layout A ! idx < roundUpBytesToAlignmentBlocks n")
    case True
    then show ?thesis using resizeBlock_grow [OF R C idx n refl refl] by blast
  next
    case False
    then show ?thesis using resizeBlock_shrink [OF R C idx n refl refl] by auto
  qed
qed

lemma resize_chain_correct: "resize_correct up \<and> resizeBlock_correct up"
proof (induction up)
  case Nil
  show ?case using resize_top resizeBlock_step by blast
next
  case (Cons P up)
  then show ?case using resize_nested resizeBlock_step by blast
qed

text \<open>The bytes of an element; resizing one element leaves those of the others.\<close>

definition seg_size :: "pkd_alloc \<Rightarrow> nat \<Rightarrow> int" where
  "seg_size A i = layout A ! (i + 1) - layout A ! i"

lemma seg_size_dvd:
  assumes "alloc_ok A" "i < elements A"
  shows "8 dvd seg_size A i" "0 \<le> seg_size A i"
proof -
  show "8 dvd seg_size A i" using assms alloc_okD(2) [OF assms(1)] by (simp add: seg_size_def elements_def dvd_diff)
  show "0 \<le> seg_size A i" using alloc_ok_mono [OF assms(1), of i "i + 1"] assms(2) by (simp add: seg_size_def elements_def)
qed

lemma length_body:
  assumes "alloc_ok A" "i < elements A"
  shows "length (body A i) = nat (seg_size A i) - (if is_allocatable A i then 4 else 0)"
proof -
  have i: "i + 1 < length (layout A)" using assms(2) by (simp add: elements_def)
  have "layout A ! (i + 1) \<le> allocated A" using alloc_ok_mono [OF assms(1), of "i + 1" "elements A"] i by (simp add: allocated_def elements_def)
  then have "layout A ! (i + 1) \<le> int (length (area A))" using assms(1) by (simp add: alloc_ok_def)
  then have "length (element A i) = nat (seg_size A i)"
    using seg_size_dvd(2) [OF assms] alloc_ok_nonneg [OF assms(1), of i] i by (simp add: element_def seg_size_def)
  then show ?thesis by (simp add: body_def)
qed

lemma resized_seg_size:
  assumes "resized A idx n B" "alloc_ok A" "alloc_ok B" "i < elements A"
  shows "seg_size B i = (if i = idx then n else seg_size A i)" and "elements B = elements A"
proof -
  show el: "elements B = elements A" using assms(1) by (simp add: resized_def kept_but_def elements_def)
  have "seg_size B i = seg_size A i" if "i \<noteq> idx"
  proof -
    have al: "is_allocatable B i = is_allocatable A i" using assms(1) by (simp add: resized_def kept_but_def is_allocatable_def)
    have "length (body B i) = length (body A i)" using assms(1,4) that by (simp add: resized_def kept_but_def)
    then have eq: "nat (seg_size B i) - (if is_allocatable A i then 4 else 0) = nat (seg_size A i) - (if is_allocatable A i then 4 else 0)"
      using length_body [OF assms(2,4)] length_body [OF assms(3), of i] el assms(4) al by simp
    obtain a b where ab: "seg_size A i = 8 * a" "seg_size B i = 8 * b"
      using seg_size_dvd(1) [OF assms(2,4)] seg_size_dvd(1) [OF assms(3), of i] el assms(4) by (auto elim!: dvdE)
    then show ?thesis using eq seg_size_dvd(2) [OF assms(2,4)] seg_size_dvd(2) [OF assms(3), of i] el assms(4)
      by (auto split: if_splits)
  qed
  then show "seg_size B i = (if i = idx then n else seg_size A i)" using assms(1) by (auto simp: resized_def seg_size_def)
qed

lemma resizeBlock_segments:
  assumes "chain_ok (A # up)" "idx < elements A" "0 \<le> n"
  obtains (oom) "resizeBlock (A # up) idx n = Inl PackedOOM" "seg_size A idx < roundUpBytesToAlignmentBlocks n"
  | (ok) B up' where "resizeBlock (A # up) idx n = Inr (roundUpBytesToAlignmentBlocks n, B # up')" "chain_ok (B # up')"
      "elements B = elements A"
      "\<And>i. i < elements A \<Longrightarrow> seg_size B i = (if i = idx then roundUpBytesToAlignmentBlocks n else seg_size A i)"
proof -
  from resize_chain_correct [of up, THEN conjunct2, unfolded resizeBlock_correct_def Let_def, rule_format, OF assms]
  consider "resizeBlock (A # up) idx n = Inl PackedOOM" "seg_size A idx < roundUpBytesToAlignmentBlocks n"
    | B up' where "resizeBlock (A # up) idx n = Inr (roundUpBytesToAlignmentBlocks n, B # up')" "chain_ok (B # up')"
      "resized A idx (roundUpBytesToAlignmentBlocks n) B"
    unfolding seg_size_def by blast
  then show thesis
  proof cases
    case (2 B up')
    have "alloc_ok A" "alloc_ok B" using chain_ok_hd assms(1) 2(2) by auto
    then show thesis using ok [OF 2(1,2)] resized_seg_size [OF 2(3)] assms(2) by auto
  qed (rule oom)
qed

section \<open>Properties of the allocator\<close>

definition demo_outer :: pkd_alloc where
  "demo_outer = \<lparr>allocator_offset = 0, pa_block_size = 128, layout = [0, 64, 72, 72], bitmap = [1], area = replicate 80 7\<rparr>"

definition demo_inner :: pkd_alloc where
  "demo_inner = \<lparr>allocator_offset = 40, pa_block_size = 64, layout = [0, 8, 16, 16], bitmap = [0],
     area = map of_nat [1, 2, 3, 4, 5, 6, 7, 8, 9, 10, 11, 12, 13, 14, 15, 16]\<rparr>"

lemma demo_chain_ok: "chain_ok [demo_inner, demo_outer]"
  by code_simp

text \<open>
  C8: Resizing an element is safe. In a chain of well-formed nested allocators \<open>resizeBlock\<close> either reports
  that memory is exhausted, and then the element was to grow, or returns a well-formed chain: the element
  has the requested size rounded up and keeps its bytes as far as they fit, the contents of every other
  element of the allocator are unchanged, and so are those of the enclosing allocators but for the elements
  the nested allocators occupy. It never reads or writes outside the offset table and the client area.
\<close>

theorem resizeBlock_safe:
  assumes "chain_ok (A # up)" "idx < elements A" "0 \<le> n"
  defines "r \<equiv> roundUpBytesToAlignmentBlocks n"
  shows "(resizeBlock (A # up) idx n = Inl PackedOOM \<and> layout A ! (idx + 1) - layout A ! idx < r)
    \<or> (\<exists>B up'. resizeBlock (A # up) idx n = Inr (r, B # up') \<and> chain_ok (B # up')
         \<and> layout B ! (idx + 1) - layout B ! idx = r
         \<and> (let m = nat (min r (layout A ! (idx + 1) - layout A ! idx)) in take m (element B idx) = take m (element A idx))
         \<and> (\<forall>i < elements A. i \<noteq> idx \<longrightarrow> body B i = body A i)
         \<and> list_all2 (\<lambda>P Q. \<exists>k. \<forall>i < elements P. i \<noteq> k \<longrightarrow> body Q i = body P i) up up')"
proof -
  have U: "list_all2 (\<lambda>P Q. \<exists>k. \<forall>i < elements P. i \<noteq> k \<longrightarrow> body Q i = body P i) up up'" if "chain_kept up up'" for up'
    using that unfolding chain_kept_def by (rule list_all2_mono) (auto simp: kept_but_def)
  from resize_chain_correct [of up, THEN conjunct2, unfolded resizeBlock_correct_def Let_def, rule_format, OF assms(1-3)]
  consider "resizeBlock (A # up) idx n = Inl PackedOOM" "layout A ! (idx + 1) - layout A ! idx < r"
    | B up' where "resizeBlock (A # up) idx n = Inr (r, B # up')" "chain_ok (B # up')" "resized A idx r B" "chain_kept up up'"
    unfolding r_def by blast
  then show ?thesis
  proof cases
    case 1
    then show ?thesis by simp
  next
    case (2 B up')
    then show ?thesis using U [OF 2(4)] by (intro disjI2 exI [of _ B] exI [of _ up']) (simp add: resized_def kept_but_def)
  qed
qed

theorem resizeBlock_safe_witness:
  "\<exists>B up'. resizeBlock [demo_inner, demo_outer] 0 16 = Inr (16, B # up') \<and> chain_ok (B # up')
    \<and> body B 1 = map of_nat [9, 10, 11, 12, 13, 14, 15, 16]"
proof -
  have e: "0 < elements demo_inner" "1 < elements demo_inner" by code_simp+
  have r: "roundUpBytesToAlignmentBlocks 16 = 16" by code_simp
  have b: "body demo_inner 1 = map of_nat [9, 10, 11, 12, 13, 14, 15, 16]" by code_simp
  have ok: "\<not> isl (resizeBlock [demo_inner, demo_outer] 0 16)" by code_simp
  from resizeBlock_safe [OF demo_chain_ok e(1), of 16, unfolded r] show ?thesis
  proof
    assume "resizeBlock [demo_inner, demo_outer] 0 16 = Inl PackedOOM \<and> layout demo_inner ! (0 + 1) - layout demo_inner ! 0 < 16"
    then show ?thesis using ok by simp
  qed (use e(2) b in auto)
qed

text \<open>
  An element that has to grow asks for all of the growth, not for what is missing. Here the inner
  allocator has 8 free bytes, the outer one 8 more, and growing an element by 16 bytes fails; \<open>allocate\<close>
  of 16 bytes in the same chain, which asks for the difference only, succeeds.
\<close>

definition half_full :: pkd_alloc where
  "half_full = demo_inner\<lparr>layout := [0, 8, 8, 8]\<rparr>"

theorem resizeBlock_overasks:
  "chain_ok [half_full, demo_outer] \<and> compute_free_space_up [half_full, demo_outer] = 16
    \<and> element_size half_full 0 = Inr 8 \<and> resizeBlock [half_full, demo_outer] 0 24 = Inl PackedOOM
    \<and> \<not> isl (allocate [half_full, demo_outer] 1 16 RAW_MEMORY)"
  by code_simp

section \<open>Sizing a block\<close>

lemma roundUp_cdiv:
  assumes "0 \<le> x"
  shows "roundUpBytesToAlignmentBlocks x = cdiv x 3 * 8"
  using assms cdiv_alt [of x 3] by (simp add: roundUpBytesToAlignmentBlocks_def AlignmentBlock_def sdiv_smod_nonneg)

lemma cdiv_nonneg: "0 \<le> x \<Longrightarrow> 0 \<le> cdiv x k"
  by (simp add: cdiv_def pos_imp_zdiv_nonneg_iff add_nonneg_pos)

lemma roundUpBits_cdiv:
  assumes "0 \<le> b"
  shows "roundUpBitsToAlignmentBlocks b = cdiv b 6 * 8"
proof -
  have "0 \<le> b mod 8" by simp
  then have "0 < b mod 8 \<longleftrightarrow> b mod 8 \<noteq> 0" by linarith
  then have "roundUpBitToBytes b = cdiv b 3"
    using assms cdiv_alt [of b 3] by (simp add: roundUpBitToBytes_def sdiv_smod_nonneg)
  then show ?thesis using cdiv_nonneg [OF assms, of 3]
    by (simp add: roundUpBitsToAlignmentBlocks_def roundUp_cdiv cdiv_cdiv)
qed

lemma cdiv_unique: "(q - 1) * 2 ^ k < n \<Longrightarrow> n \<le> q * 2 ^ k \<Longrightarrow> cdiv n k = q"
  using less_cdiv_iff [of "q - 1" n k] less_cdiv_iff [of q n k] by linarith

text \<open>The bitmap of the offsets has one cell more than the bitmap of the elements when 64 divides their number.\<close>

lemma init_bitmap:
  assumes "0 \<le> blocks"
  shows "cdiv (init_layout_blocks blocks) 6 = cdiv blocks 6 + (if blocks mod 64 = 0 then 1 else 0)"
    and "even (init_layout_blocks blocks)" and "0 < init_layout_blocks blocks"
proof -
  define q m where "q = blocks div 64" and "m = blocks mod 64"
  have b: "blocks = q * 64 + m" and m: "0 \<le> m" "m < 64" by (simp_all add: q_def m_def)
  have sm: "blocks smod 2 = blocks mod 2" using assms by (cases "blocks = 0") (simp_all add: signed_modulo_int_def signed_divide_int_def minus_div_mult_eq_mod)
  have "even blocks \<longleftrightarrow> even m" by (simp add: b)
  moreover have "init_layout_blocks blocks = blocks + (if even blocks then 2 else 1)"
    by (simp add: init_layout_blocks_def sm even_iff_mod_2_eq_zero)
  ultimately have lb: "init_layout_blocks blocks = q * 64 + (m + (if even m then 2 else 1))"
    by (simp add: b)
  have "m \<noteq> 63 \<or> odd m" by auto
  then have "m + (if even m then 2 else 1) \<le> 64" using m by (cases "m = 63") auto
  then have "cdiv (init_layout_blocks blocks) 6 = q + 1" using m unfolding lb by (intro cdiv_unique) auto
  moreover have "cdiv blocks 6 = q + (if m = 0 then 0 else 1)" using m unfolding b by (intro cdiv_unique) auto
  ultimately show "cdiv (init_layout_blocks blocks) 6 = cdiv blocks 6 + (if blocks mod 64 = 0 then 1 else 0)"
    by (simp add: m_def)
  show "even (init_layout_blocks blocks)" by (simp add: lb)
  show "0 < init_layout_blocks blocks" using assms by (simp add: init_layout_blocks_def)
qed

text \<open>
  C31: The static \<open>block_size(client_area, blocks)\<close> sizes the type bitmap by the number of elements, \<open>init\<close> by the
  number of offsets, which is one or two larger. An allocator initialised with the computed size has the
  requested client area, rounded up, except that when the number of elements is a multiple of 64 it is 8
  bytes short.
\<close>

theorem block_size_for_client_area:
  assumes "0 \<le> client" "0 \<le> blocks"
  shows "client_area (init A (block_size_for client blocks) blocks)
    = roundUpBytesToAlignmentBlocks client - (if blocks mod 64 = 0 then 8 else 0)"
proof -
  let ?lb = "init_layout_blocks blocks" and ?r = "roundUpBytesToAlignmentBlocks client"
  note I = init_bitmap [OF assms(2)]
  have r: "8 dvd ?r" "0 \<le> ?r" using roundUp_props [OF assms(1)] assms(1) by simp_all
  have bits: "roundUpBitsToAlignmentBlocks blocks = cdiv blocks 6 * 8" "roundUpBitsToAlignmentBlocks ?lb = cdiv ?lb 6 * 8"
    using assms(2) I(3) by (simp_all add: roundUpBits_cdiv)
  have c0: "0 \<le> cdiv blocks 6" "0 \<le> cdiv ?lb 6" using cdiv_nonneg assms(2) I(3) by simp_all
  define total where "total = my_size + ?lb * 4 + cdiv blocks 6 * 8 + ?r"
  obtain j where j: "?lb = 2 * j" using I(2) by (rule evenE)
  have t: "8 dvd total" "0 \<le> total" using r c0 I(3) by (simp_all add: total_def my_size_def j)
  have bs: "block_size_for client blocks = total"
    using roundUp_props(4) [OF t(2) t(1)] by (simp add: block_size_for_def total_def bits)
  have down: "roundDownBytesToAlignmentBlocks total = total"
    using t by (simp add: roundDownBytesToAlignmentBlocks_def AlignmentBlock_def sdiv_smod_nonneg)
  have "client_area (init A (block_size_for client blocks) blocks) = total - my_size - 4 * ?lb - 8 * cdiv ?lb 6"
    using I(3) c0 by (simp add: init_def Let_def bs down client_area_def layout_size_def bitmap_size_def bits set_block_size_def)
  then show ?thesis using I(1) by (simp add: total_def)
qed

theorem block_size_for_client_area_witness:
  "client_area (init demo_outer (block_size_for 64 64) 64) = 56"
proof -
  have "roundUpBytesToAlignmentBlocks 64 = 64" by code_simp
  then show ?thesis using block_size_for_client_area [of 64 64 demo_outer] by simp
qed

end
