(* ===== verification/Packed_Sizes.thy ===== *)
theory Packed_Sizes
  imports Packed_Allocator
begin

text \<open>
  The searches for the number of elements that fit into a block (src/include/memoria/core/packed/tools/packed_tools.hpp):
  \<open>FindTotalElementsNumber2\<close> bisects a size function and then probes upwards, \<open>FindTotalElementsNumber\<close> bisects
  with a bound on the number of steps upwards. The size function is an argument, as in the code.
\<close>

section \<open>Definitions\<close>

text \<open>The loop that probes \<open>base + c\<close>, \<open>base + c + 1\<close>, \<dots> while the size still fits.\<close>

function probe_sizes :: "(int \<Rightarrow> pkd_error + int) \<Rightarrow> int \<Rightarrow> int \<Rightarrow> nat \<Rightarrow> nat \<Rightarrow> int \<Rightarrow> pkd_error + int" where
  "probe_sizes fn block_size base limit c max_size =
     (if c < limit then
        bindR (fn (base + int c)) (\<lambda>s.
          if s \<le> block_size then probe_sizes fn block_size base limit (c + 1) (base + int c) else Inr max_size)
      else Inl GenericError)"
  by pat_completeness auto
termination by (relation "measure (\<lambda>(fn, bs, base, limit, c, m). limit - c)") auto

function bisect_sizes2 :: "(int \<Rightarrow> pkd_error + int) \<Rightarrow> int \<Rightarrow> int \<Rightarrow> int \<Rightarrow> pkd_error + int" where
  "bisect_sizes2 fn block_size first upper =
     (if first < upper - 1 then
        let middle = (first + upper) div 2 in
        bindR (fn middle) (\<lambda>s.
          if s < block_size then bisect_sizes2 fn block_size middle upper
          else if s > block_size then bisect_sizes2 fn block_size first middle
          else probe_sizes fn block_size middle 256 0 middle)
      else probe_sizes fn block_size first 1024 0 first)"
  by pat_completeness auto
termination by (relation "measure (\<lambda>(fn, bs, first, upper). nat (upper - first))") auto

declare probe_sizes.simps [simp del] bisect_sizes2.simps [simp del]

text \<open>\<open>fn\<close> is the size function object: its \<open>max_elements\<close> and its \<open>block_size\<close>.\<close>

definition FindTotalElementsNumber2 :: "int \<Rightarrow> (int \<Rightarrow> int) \<Rightarrow> (int \<Rightarrow> pkd_error + int) \<Rightarrow> pkd_error + int" where
  "FindTotalElementsNumber2 block_size max_elements fn = bisect_sizes2 fn block_size 0 (max_elements block_size)"

function FindTotalElementsNumber :: "int \<Rightarrow> int \<Rightarrow> int \<Rightarrow> int \<Rightarrow> (int \<Rightarrow> pkd_error + int) \<Rightarrow> pkd_error + int" where
  "FindTotalElementsNumber first upper block_size max_hops fn =
     (if first < upper - 1 \<and> max_hops > 0 then
        let middle = (first + upper) div 2 in
        bindR (fn middle) (\<lambda>s.
          if s < block_size then FindTotalElementsNumber middle upper block_size (max_hops - 1) fn
          else if s > block_size then FindTotalElementsNumber first middle block_size max_hops fn
          else Inr middle)
      else Inr first)"
  by pat_completeness auto
termination by (relation "measure (\<lambda>(first, upper, bs, hops, fn). nat (upper - first))") auto

declare FindTotalElementsNumber.simps [simp del]

section \<open>Laws\<close>

lemma middle_bounds:
  fixes a b :: int
  assumes "a < b - 1"
  shows "a < (a + b) div 2" "(a + b) div 2 < b"
  using assms by linarith+

lemma probe_sizes_finds:
  assumes fn: "\<And>k. 0 \<le> k \<Longrightarrow> fn k = Inr (f k)" and mono: "\<And>a b. 0 \<le> a \<Longrightarrow> a \<le> b \<Longrightarrow> f a \<le> f b" and b0: "0 \<le> base"
    and "f (base + int c - 1) \<le> bs" "bs < f (base + int limit - 1)" "0 < c" "c < limit"
  shows "\<exists>n. probe_sizes fn bs base limit c (base + int c - 1) = Inr n \<and> base + int c - 1 \<le> n \<and> f n \<le> bs \<and> bs < f (n + 1)"
  using assms(4-)
proof (induction "limit - c" arbitrary: c)
  case (Suc m)
  have run: "probe_sizes fn bs base limit c (base + int c - 1)
      = (if f (base + int c) \<le> bs then probe_sizes fn bs base limit (c + 1) (base + int c) else Inr (base + int c - 1))"
    using fn [of "base + int c"] b0 Suc.prems by (subst probe_sizes.simps) (simp add: bindR_def)
  show ?case
  proof (cases "f (base + int c) \<le> bs")
    case True
    have "c + 1 < limit"
    proof (rule ccontr)
      assume "\<not> c + 1 < limit"
      then have "base + int limit - 1 = base + int c" using Suc.prems(4) by simp
      then show False using True Suc.prems(2) by (simp only:)
    qed
    moreover have "m = limit - (c + 1)" using Suc.hyps(2) by linarith
    ultimately obtain n where "probe_sizes fn bs base limit (c + 1) (base + int (c + 1) - 1) = Inr n"
      "base + int (c + 1) - 1 \<le> n" "f n \<le> bs" "bs < f (n + 1)"
      using Suc.hyps(1) [of "c + 1"] Suc.prems True by auto
    then show ?thesis using run True by auto
  next
    case False
    then show ?thesis using run Suc.prems by auto
  qed
qed simp

lemma bisect_sizes2_finds:
  assumes fn: "\<And>k. 0 \<le> k \<Longrightarrow> fn k = Inr (f k)" and mono: "\<And>a b. 0 \<le> a \<Longrightarrow> a \<le> b \<Longrightarrow> f a \<le> f b"
    and flat: "\<And>k. 0 \<le> k \<Longrightarrow> f k = bs \<Longrightarrow> bs < f (k + 255)"
    and "0 \<le> first" "first < upper" "f first \<le> bs" "bs < f upper"
  shows "\<exists>n. bisect_sizes2 fn bs first upper = Inr n \<and> 0 \<le> n \<and> f n \<le> bs \<and> bs < f (n + 1)"
  using assms(4-)
proof (induction "nat (upper - first)" arbitrary: first upper rule: less_induct)
  case (less first upper)
  show ?case
  proof (cases "first < upper - 1")
    case True
    define m where "m = (first + upper) div 2"
    have m: "first < m" "m < upper" using middle_bounds [OF True] by (simp_all add: m_def)
    have run: "bisect_sizes2 fn bs first upper =
        (if f m < bs then bisect_sizes2 fn bs m upper else if f m > bs then bisect_sizes2 fn bs first m
         else probe_sizes fn bs m 256 0 m)"
      using True fn [of m] m less.prems(1) by (subst bisect_sizes2.simps) (simp add: bindR_def Let_def m_def [symmetric])
    consider "f m < bs" | "bs < f m" | "f m = bs" by linarith
    then show ?thesis
    proof cases
      case 1
      then show ?thesis using less.hyps [of upper m] less.prems m run by simp
    next
      case 2
      then show ?thesis using less.hyps [of m first] less.prems m run by simp
    next
      case 3
      have m0: "0 \<le> m" using m less.prems(1) by simp
      have "probe_sizes fn bs m 256 0 m = probe_sizes fn bs m 256 1 (m + int 1 - 1)"
        using fn [OF m0] 3 by (subst probe_sizes.simps) (simp add: bindR_def)
      then show ?thesis
        using probe_sizes_finds [where fn = fn and f = f and base = m and c = 1 and bs = bs and limit = 256, OF fn mono m0] flat [OF m0] 3 m0 run by (auto simp: add.commute)
    qed
  next
    case False
    then have u: "upper = first + 1" using less.prems(2) by simp
    have "bisect_sizes2 fn bs first upper = probe_sizes fn bs first 1024 0 first"
      using False by (subst bisect_sizes2.simps) simp
    also have "\<dots> = probe_sizes fn bs first 1024 1 (first + int 1 - 1)"
      using fn [OF less.prems(1)] less.prems(3) by (subst probe_sizes.simps) (simp add: bindR_def)
    finally have run: "bisect_sizes2 fn bs first upper = probe_sizes fn bs first 1024 1 (first + int 1 - 1)" .
    have "bs < f (first + int 1024 - 1)" using less.prems(4) mono [of upper "first + 1023"] less.prems(1) u by (simp add: add.commute)
    then show ?thesis using probe_sizes_finds [where fn = fn and f = f and base = first and c = 1 and bs = bs and limit = 1024, OF fn mono less.prems(1)] less.prems(1,3) run by auto
  qed
qed


section \<open>Properties\<close>

text \<open>
  C30: The capacity search terminates with the largest number of elements that fits. For a size function
  that grows with the number of elements, accepts none at all and rejects the upper bound, and that does
  not stay at the requested size for 256 numbers in a row, \<open>FindTotalElementsNumber2\<close> returns the one
  number of elements whose block fits while the next one's does not.
\<close>

theorem FindTotalElementsNumber2_maximal:
  assumes "\<And>k. 0 \<le> k \<Longrightarrow> fn k = Inr (f k)" and "\<And>a b. 0 \<le> a \<Longrightarrow> a \<le> b \<Longrightarrow> f a \<le> f b"
    and "f 0 \<le> bs" "bs < f (max_elements bs)" "0 < max_elements bs"
    and "\<And>k. 0 \<le> k \<Longrightarrow> f k = bs \<Longrightarrow> bs < f (k + 255)"
  shows "\<exists>n. FindTotalElementsNumber2 bs max_elements fn = Inr n \<and> 0 \<le> n
    \<and> (\<forall>k \<ge> 0. f k \<le> bs \<longleftrightarrow> k \<le> n)"
proof -
  obtain n where n: "bisect_sizes2 fn bs 0 (max_elements bs) = Inr n" "0 \<le> n" "f n \<le> bs" "bs < f (n + 1)"
    using bisect_sizes2_finds [where fn = fn and f = f and bs = bs and first = 0 and upper = "max_elements bs"] assms
    by blast
  have "f k \<le> bs \<longleftrightarrow> k \<le> n" if "0 \<le> k" for k
  proof
    assume k: "f k \<le> bs"
    show "k \<le> n"
    proof (rule ccontr)
      assume "\<not> k \<le> n"
      then have "f (n + 1) \<le> f k" using assms(2) [of "n + 1" k] n(2) by simp
      then show False using k n(4) by simp
    qed
  next
    assume "k \<le> n"
    then show "f k \<le> bs" using assms(2) [OF that, of n] n(3) by simp
  qed
  then show ?thesis using n by (auto simp: FindTotalElementsNumber2_def)
qed

theorem FindTotalElementsNumber2_maximal_witness:
  "\<exists>n. FindTotalElementsNumber2 100 (\<lambda>b. b) (\<lambda>k. Inr (8 * k + 16)) = Inr n \<and> (\<forall>k \<ge> 0. 8 * k + 16 \<le> (100 :: int) \<longleftrightarrow> k \<le> n)"
  using FindTotalElementsNumber2_maximal [of "\<lambda>k. Inr (8 * k + 16)" "\<lambda>k. 8 * k + 16" 100 "\<lambda>b. b"] by force

end
