(* ===== verification/FQTree_Updates.thy ===== *)
theory FQTree_Updates
  imports FQTree Packed_Sizes
begin

text \<open>
  Updates of the packed sum tree, \<open>PkdFQTree\<close> (src/include/memoria/core/packed/tree/fse/packed_fse_quick_tree.hpp):
  making and closing gaps, splitting and merging. The structure is itself a packed allocator: its state is
  the tree of typed arrays and the chain of allocators it lives in, itself first. Resizing goes through
  \<open>resizeBlock\<close> of that chain; the array of a segment then has as many cells as the allocated bytes hold,
  the old ones kept, the new ones whatever the memory holds (\<open>Stale\<close>). \<open>Blocks\<close> is the number of value arrays.
\<close>

record 'v fq_types = fq_params +
  IndexSize :: int  \<comment> \<open>\<open>sizeof(IndexValue)\<close>\<close>
  ValueSize :: int  \<comment> \<open>\<open>sizeof(Value)\<close>\<close>
  Stale :: "nat \<Rightarrow> 'v"  \<comment> \<open>what memory not yet written holds, by the number of the cell\<close>

definition params :: "'v fq_types \<Rightarrow> fq_params" where
  "params ty = \<lparr>BranchingFactorLog2 = BranchingFactorLog2 ty, ValuesPerBranchLog2 = ValuesPerBranchLog2 ty\<rparr>"

record 'v pkd_fqtree =
  fq :: "'v fqtree"
  chain :: "pkd_alloc list"

definition Blocks :: "'v pkd_fqtree \<Rightarrow> nat" where
  "Blocks st = length (fq_values (fq st))"

text \<open>The cells of a segment after it has been resized to \<open>n\<close> cells.\<close>

definition fit_cells :: "'v fq_types \<Rightarrow> nat \<Rightarrow> 'v list \<Rightarrow> 'v list" where
  "fit_cells ty n xs = take n xs @ map (Stale ty) [length xs ..< n]"

fun resize_blocks :: "'v fq_types \<Rightarrow> int \<Rightarrow> int \<Rightarrow> nat list \<Rightarrow> 'v pkd_fqtree \<Rightarrow> pkd_error + 'v pkd_fqtree" where
  "resize_blocks ty new_index_size new_data_size [] st = Inr st"
| "resize_blocks ty new_index_size new_data_size (b # bs) st =
     bindR (resizeBlock (chain st) (2 * b + 1) (new_index_size * IndexSize ty)) (\<lambda>(n1, ch1).
       bindR (resizeBlock ch1 (2 * b + 2) (new_data_size * ValueSize ty)) (\<lambda>(n2, ch2).
         let t = fq st;
             t = t\<lparr>fq_index := (fq_index t)[b := fit_cells ty (nat (n1 div IndexSize ty)) (fq_index t ! b)],
                   fq_values := (fq_values t)[b := fit_cells ty (nat (n2 div ValueSize ty)) (fq_values t ! b)]\<rparr>
         in resize_blocks ty new_index_size new_data_size bs (st\<lparr>fq := t, chain := ch2\<rparr>)))"

definition resize_fq :: "'v fq_types \<Rightarrow> int \<Rightarrow> 'v pkd_fqtree \<Rightarrow> pkd_error + 'v pkd_fqtree" where
  "resize_fq ty n st =
     (let new_data_size = fq_max_size (fq st) + n in
      case index_size_for (params ty) new_data_size of
        None \<Rightarrow> Inl Undefined
      | Some new_index_size \<Rightarrow>
          bindR (resize_blocks ty new_index_size new_data_size [0 ..< Blocks st] st) (\<lambda>st.
            Inr (st\<lparr>fq := (fq st)\<lparr>fq_max_size := fq_max_size (fq st) + n, fq_index_size := new_index_size\<rparr>\<rparr>)))"

text \<open>Shifting the values of one block and clearing the gap; \<open>None\<close> stands for an access outside the array.\<close>

definition open_gap :: "int \<Rightarrow> int \<Rightarrow> int \<Rightarrow> 'v::zero list \<Rightarrow> 'v list option" where
  "open_gap sz idx room_length vals =
     (if 0 \<le> idx \<and> idx \<le> sz \<and> 0 \<le> room_length \<and> sz + room_length \<le> int (length vals) then
        let vals = CopyBuffer vals (nat idx) vals (nat (idx + room_length)) (nat (sz - idx))
        in Some (CopyBuffer (replicate (nat room_length) 0) 0 vals (nat idx) (nat room_length))
      else None)"

definition close_gap :: "int \<Rightarrow> int \<Rightarrow> int \<Rightarrow> 'v::zero list \<Rightarrow> 'v list option" where
  "close_gap sz start end vals =
     (if 0 \<le> start \<and> start \<le> end \<and> end \<le> sz \<and> sz \<le> int (length vals) then
        let vals = CopyBuffer vals (nat end) vals (nat start) (nat (sz - end))
        in Some (CopyBuffer (replicate (nat (end - start)) 0) 0 vals (nat (start + sz - end)) (nat (end - start)))
      else None)"

text \<open>A loop over all value arrays; an access outside of one is undefined.\<close>

fun all_blocks :: "('v list \<Rightarrow> 'v list option) \<Rightarrow> 'v list list \<Rightarrow> pkd_error + 'v list list" where
  "all_blocks f [] = Inr []"
| "all_blocks f (v # vs) =
     (case f v of None \<Rightarrow> Inl Undefined | Some v' \<Rightarrow> bindR (all_blocks f vs) (\<lambda>vs'. Inr (v' # vs')))"

definition insertSpace :: "'v::zero fq_types \<Rightarrow> int \<Rightarrow> int \<Rightarrow> 'v pkd_fqtree \<Rightarrow> pkd_error + 'v pkd_fqtree" where
  "insertSpace ty idx room_length st =
     bindR (if capacity_fq (fq st) < room_length then resize_fq ty (room_length - capacity_fq (fq st)) st else Inr st) (\<lambda>st.
       let t = fq st in
       bindR (all_blocks (open_gap (fq_size t) idx room_length) (fq_values t)) (\<lambda>vs.
         Inr (st\<lparr>fq := t\<lparr>fq_values := vs, fq_size := fq_size t + room_length\<rparr>\<rparr>)))"

definition reindex_tree :: "'v::comm_monoid_add fq_types \<Rightarrow> 'v pkd_fqtree \<Rightarrow> pkd_error + 'v pkd_fqtree" where
  "reindex_tree ty st =
     (case reindex_fq (params ty) (int (Blocks st)) (fq st) of None \<Rightarrow> Inl Undefined | Some t \<Rightarrow> Inr (st\<lparr>fq := t\<rparr>))"

definition remove_fq :: "'v::comm_monoid_add fq_types \<Rightarrow> int \<Rightarrow> int \<Rightarrow> 'v pkd_fqtree \<Rightarrow> pkd_error + 'v pkd_fqtree" where
  "remove_fq ty start end st =
     (let t = fq st; room_length = end - start; sz = fq_size t in
      if \<not> start + room_length \<le> sz then Inl GenericError
      else
        bindR (all_blocks (close_gap sz start end) (fq_values t)) (\<lambda>vs.
          bindR (resize_fq ty (- room_length) (st\<lparr>fq := t\<lparr>fq_values := vs, fq_size := sz - room_length\<rparr>\<rparr>)) (reindex_tree ty)))"

definition removeSpace :: "'v::comm_monoid_add fq_types \<Rightarrow> int \<Rightarrow> int \<Rightarrow> 'v pkd_fqtree \<Rightarrow> pkd_error + 'v pkd_fqtree" where
  "removeSpace ty start end st = remove_fq ty start end st"

fun copy_blocks :: "int \<Rightarrow> int \<Rightarrow> int \<Rightarrow> 'v list list \<Rightarrow> 'v list list \<Rightarrow> pkd_error + 'v list list" where
  "copy_blocks copy_from count copy_to (v # vs) (w # ws) =
     (if copy_from + count \<le> int (length v) \<and> 0 \<le> copy_to \<and> copy_to + count \<le> int (length w) then
        bindR (copy_blocks copy_from count copy_to vs ws) (\<lambda>r.
          Inr (CopyBuffer v (nat copy_from) w (nat copy_to) (nat count) # r))
      else Inl Undefined)"
| "copy_blocks copy_from count copy_to [] [] = Inr []"
| "copy_blocks copy_from count copy_to vs ws = Inl Undefined"

definition copyTo :: "'v pkd_fqtree \<Rightarrow> 'v pkd_fqtree \<Rightarrow> int \<Rightarrow> int \<Rightarrow> int \<Rightarrow> pkd_error + 'v pkd_fqtree" where
  "copyTo st other copy_from count copy_to =
     (if \<not> copy_from \<ge> 0 then Inl GenericError
      else if \<not> count \<ge> 0 then Inl GenericError
      else bindR (copy_blocks copy_from count copy_to (fq_values (fq st)) (fq_values (fq other))) (\<lambda>vs.
             Inr (other\<lparr>fq := (fq other)\<lparr>fq_values := vs\<rparr>\<rparr>)))"

text \<open>\<open>splitTo\<close> returns this tree and the other one.\<close>

definition splitTo :: "'v::comm_monoid_add fq_types \<Rightarrow> int \<Rightarrow> 'v pkd_fqtree \<Rightarrow> 'v pkd_fqtree
    \<Rightarrow> pkd_error + ('v pkd_fqtree \<times> 'v pkd_fqtree)" where
  "splitTo ty idx st other =
     (let total = fq_size (fq st) - idx in
      if total > 0 then
        bindR (insertSpace ty 0 total other) (\<lambda>other.
        bindR (copyTo st other idx total 0) (\<lambda>other.
        bindR (reindex_tree ty other) (\<lambda>other.
        bindR (removeSpace ty idx (fq_size (fq st)) st) (\<lambda>st.
        bindR (reindex_tree ty st) (\<lambda>st. Inr (st, other))))))
      else Inr (st, other))"

definition mergeWith :: "'v::comm_monoid_add fq_types \<Rightarrow> 'v pkd_fqtree \<Rightarrow> 'v pkd_fqtree \<Rightarrow> pkd_error + 'v pkd_fqtree" where
  "mergeWith ty st other =
     (let my_sz = fq_size (fq st); other_size = fq_size (fq other) in
      bindR (insertSpace ty other_size my_sz other) (\<lambda>other.
      bindR (copyTo st other 0 my_sz other_size) (\<lambda>other.
      reindex_tree ty other)))"

text \<open>
  The accessor, and the iterator of \<open>populate_from_iterator\<close>, give the value of a block in a new row;
  \<open>put_entries\<close> writes the new values of every block.
\<close>

fun put_entries :: "int \<Rightarrow> 'v list list \<Rightarrow> 'v list list \<Rightarrow> pkd_error + 'v list list" where
  "put_entries row_at (v # vs) (e # es) =
     (if 0 \<le> row_at \<and> row_at + int (length e) \<le> int (length v) then
        bindR (put_entries row_at vs es) (\<lambda>r. Inr (CopyBuffer e 0 v (nat row_at) (length e) # r))
      else Inl Undefined)"
| "put_entries row_at [] es = Inr []"
| "put_entries row_at (v # vs) [] = Inl Undefined"

definition rows :: "int \<Rightarrow> nat \<Rightarrow> (nat \<Rightarrow> nat \<Rightarrow> 'v) \<Rightarrow> 'v list list" where
  "rows n blocks accessor = map (\<lambda>b. map (accessor b) [0 ..< nat n]) [0 ..< blocks]"

definition insert_entries :: "'v::comm_monoid_add fq_types \<Rightarrow> int \<Rightarrow> int \<Rightarrow> (nat \<Rightarrow> nat \<Rightarrow> 'v) \<Rightarrow> bool \<Rightarrow> 'v pkd_fqtree
    \<Rightarrow> pkd_error + 'v pkd_fqtree" where
  "insert_entries ty row_at n accessor reindex_flag st =
     bindR (insertSpace ty row_at n st) (\<lambda>st.
       bindR (put_entries row_at (fq_values (fq st)) (rows n (Blocks st) accessor)) (\<lambda>vs.
         let st = st\<lparr>fq := (fq st)\<lparr>fq_values := vs\<rparr>\<rparr>
         in if reindex_flag then reindex_tree ty st else Inr st))"

definition populate_from_iterator :: "'v::comm_monoid_add fq_types \<Rightarrow> int \<Rightarrow> int \<Rightarrow> (nat \<Rightarrow> nat \<Rightarrow> 'v) \<Rightarrow> 'v pkd_fqtree
    \<Rightarrow> pkd_error + 'v pkd_fqtree" where
  "populate_from_iterator ty start n iter st =
     (if \<not> start \<ge> 0 then Inl GenericError
      else if \<not> start \<le> fq_size (fq st) then Inl GenericError
      else if \<not> n \<ge> 0 then Inl GenericError
      else
        bindR (insertSpace ty start n st) (\<lambda>st.
          bindR (put_entries start (fq_values (fq st)) (rows n (Blocks st) iter)) (\<lambda>vs.
            Inr (st\<lparr>fq := (fq st)\<lparr>fq_values := vs\<rparr>\<rparr>))))"

definition append_fq :: "'v list \<Rightarrow> 'v pkd_fqtree \<Rightarrow> pkd_error + 'v pkd_fqtree" where
  "append_fq new st =
     (let t = fq st in
      bindR (put_entries (fq_size t) (fq_values t) (map (\<lambda>v. [v]) new)) (\<lambda>vs.
        Inr (st\<lparr>fq := t\<lparr>fq_values := vs, fq_size := fq_size t + 1\<rparr>\<rparr>)))"

definition clear_range :: "int \<Rightarrow> int \<Rightarrow> 'v::zero pkd_fqtree \<Rightarrow> pkd_error + 'v pkd_fqtree" where
  "clear_range start end st =
     (let t = fq st in
      bindR (put_entries start (fq_values t) (replicate (length (fq_values t)) (replicate (nat (end - start)) 0))) (\<lambda>vs.
        Inr (st\<lparr>fq := t\<lparr>fq_values := vs\<rparr>\<rparr>)))"


section \<open>Sizes and initialisation\<close>

text \<open>\<open>sizeof(Metadata)\<close>: three \<open>int32_t\<close> fields.\<close>

definition Metadata_size :: int where
  "Metadata_size = 12"

definition block_size_fq :: "'v fq_types \<Rightarrow> nat \<Rightarrow> int \<Rightarrow> pkd_error + int" where
  "block_size_fq ty blocks capacity =
     (case index_size_for (params ty) capacity of
        None \<Rightarrow> Inl Undefined
      | Some index_sz \<Rightarrow>
          let metadata_length = roundUpBytesToAlignmentBlocks Metadata_size;
              index_length = roundUpBytesToAlignmentBlocks (index_sz * IndexSize ty);
              values_length = roundUpBytesToAlignmentBlocks (capacity * ValueSize ty)
          in Inr (block_size_for (metadata_length + (index_length + values_length) * int blocks) (int blocks * 2 + 1)))"

definition tree_size :: "'v fq_types \<Rightarrow> nat \<Rightarrow> int \<Rightarrow> pkd_error + int" where
  "tree_size ty blocks block_size =
     (if block_size \<ge> ValueSize ty then FindTotalElementsNumber2 block_size (\<lambda>n. n) (block_size_fq ty blocks)
      else Inr 0)"

definition check_capacity :: "'v fq_types \<Rightarrow> int \<Rightarrow> 'v pkd_fqtree \<Rightarrow> pkd_error + bool" where
  "check_capacity ty n st =
     (if \<not> n \<ge> 0 then Inl GenericError
      else
        case chain st of
          A # P # up \<Rightarrow>
            bindR (block_size_fq ty (Blocks st) (fq_size (fq st) + n)) (\<lambda>total_block_size.
            bindR (findElement P (allocator_offset A - (buffer_offset + layout_size P + bitmap_size P))) (\<lambda>idx.
            bindR (element_size P idx) (\<lambda>my_block_size.
              Inr (free_space P \<ge> total_block_size - my_block_size))))
        | _ \<Rightarrow> Inl Undefined)"

text \<open>The arrays of a fresh tree: \<open>allocate\<close> clears the bytes it hands out.\<close>

fun allocate_blocks :: "'v::zero fq_types \<Rightarrow> int \<Rightarrow> int \<Rightarrow> nat list \<Rightarrow> 'v pkd_fqtree \<Rightarrow> pkd_error + 'v pkd_fqtree" where
  "allocate_blocks ty index_sz capacity [] st = Inr st"
| "allocate_blocks ty index_sz capacity (b # bs) st =
     bindR (allocate (chain st) (2 * b + 1) (index_sz * IndexSize ty) RAW_MEMORY) (\<lambda>((n1, _), ch1).
       bindR (allocate ch1 (2 * b + 2) (capacity * ValueSize ty) RAW_MEMORY) (\<lambda>((n2, _), ch2).
         let t = fq st;
             t = t\<lparr>fq_index := fq_index t @ [replicate (nat (n1 div IndexSize ty)) 0],
                   fq_values := fq_values t @ [replicate (nat (n2 div ValueSize ty)) 0]\<rparr>
         in allocate_blocks ty index_sz capacity bs (st\<lparr>fq := t, chain := ch2\<rparr>)))"

definition init_by_block :: "'v::zero fq_types \<Rightarrow> nat \<Rightarrow> int \<Rightarrow> int \<Rightarrow> pkd_alloc list \<Rightarrow> pkd_error + 'v pkd_fqtree" where
  "init_by_block ty blocks block_size capacity ch =
     (let A = init (hd ch) block_size (int blocks * 2 + 1) in
      bindR (allocate (A # tl ch) 0 Metadata_size RAW_MEMORY) (\<lambda>(_, ch).
        case index_size_for (params ty) capacity of
          None \<Rightarrow> Inl Undefined
        | Some index_sz \<Rightarrow>
            allocate_blocks ty index_sz capacity [0 ..< blocks]
              \<lparr>fq = \<lparr>fq_size = 0, fq_index_size = index_sz, fq_max_size = capacity, fq_index = [], fq_values = []\<rparr>,
               chain = ch\<rparr>))"

definition init_fq :: "'v::zero fq_types \<Rightarrow> nat \<Rightarrow> int \<Rightarrow> pkd_alloc list \<Rightarrow> pkd_error + 'v pkd_fqtree" where
  "init_fq ty blocks capacity ch =
     bindR (block_size_fq ty blocks 0) (\<lambda>empty_sz. init_by_block ty blocks empty_sz capacity ch)"

definition init_bs :: "'v::zero fq_types \<Rightarrow> nat \<Rightarrow> int \<Rightarrow> pkd_alloc list \<Rightarrow> pkd_error + 'v pkd_fqtree" where
  "init_bs ty blocks block_size ch =
     bindR (tree_size ty blocks block_size) (\<lambda>elements_num. init_by_block ty blocks block_size elements_num ch)"

definition init_tl :: "'v::zero fq_types \<Rightarrow> nat \<Rightarrow> int \<Rightarrow> pkd_alloc list \<Rightarrow> pkd_error + 'v pkd_fqtree" where
  "init_tl ty blocks data_block_size ch = init_by_block ty blocks data_block_size 0 ch"

text \<open>\<open>clear()\<close>: an empty tree, and the block it occupies shrinks to the size of one.\<close>

definition clear_tree :: "'v::zero fq_types \<Rightarrow> 'v pkd_fqtree \<Rightarrow> pkd_error + 'v pkd_fqtree" where
  "clear_tree ty st =
     bindR (init_fq ty (Blocks st) 0 (chain st)) (\<lambda>st.
       case chain st of
         A # P # up \<Rightarrow>
           if allocator_offset A > 0 then
             bindR (findElement P (allocator_offset A - (buffer_offset + layout_size P + bitmap_size P))) (\<lambda>idx.
             bindR (block_size_fq ty (Blocks st) 0) (\<lambda>empty_sz.
             bindR (resizeBlock (P # up) idx empty_sz) (\<lambda>(_, up).
               Inr (st\<lparr>chain := A # up\<rparr>))))
           else Inr st
       | _ \<Rightarrow> Inr st)"

end
