(* ===== verification/FQTree_Edits.thy ===== *)
theory FQTree_Edits
  imports FQTree_Updates FQTree_Index Packed_Allocator_Laws
begin

text \<open>
  Editing a packed sum tree is editing lists. The state invariant \<open>st_ok\<close> ties the arrays of the tree to the
  segments of the allocator chain they live in; \<open>contents\<close> is the list of values of every block. Making a
  gap, closing one, inserting rows, removing rows, splitting and merging are related to list operations on
  the contents.
\<close>

section \<open>The state invariant\<close>

definition seg_ok :: "'v fq_types \<Rightarrow> 'v pkd_fqtree \<Rightarrow> bool" where
  "seg_ok ty st \<longleftrightarrow> 0 < IndexSize ty \<and> 0 < ValueSize ty \<and> chain_ok (chain st)
     \<and> 2 * Blocks st < elements (hd (chain st)) \<and> length (fq_index (fq st)) = Blocks st
     \<and> (\<forall>b < Blocks st. length (fq_index (fq st) ! b) = nat (seg_size (hd (chain st)) (2 * b + 1) div IndexSize ty)
          \<and> length (fq_values (fq st) ! b) = nat (seg_size (hd (chain st)) (2 * b + 2) div ValueSize ty))"

definition st_ok :: "'v fq_types \<Rightarrow> 'v pkd_fqtree \<Rightarrow> bool" where
  "st_ok ty st \<longleftrightarrow> seg_ok ty st \<and> fq_shape (params ty) (fq st)"

definition contents :: "'v fqtree \<Rightarrow> 'v list list" where
  "contents t = map (take (nat (fq_size t))) (fq_values t)"

abbreviation max_capacity :: "'v fq_types \<Rightarrow> int" where
  "max_capacity ty \<equiv> 2 ^ (ValuesPerBranchLog2 (params ty) + BranchingFactorLog2 (params ty) * 7)"

declare bindR_simps [simp]

lemma fit_cells_simps:
  "length (fit_cells ty n xs) = n" "m \<le> n \<Longrightarrow> m \<le> length xs \<Longrightarrow> take m (fit_cells ty n xs) = take m xs"
  by (simp_all add: fit_cells_def min_def)

section \<open>Resizing the segments\<close>

lemma resize_blocks_spec:
  fixes st :: "'v pkd_fqtree"
  assumes "seg_ok ty st" "0 \<le> ni" "0 \<le> nd" "distinct bs" "set bs \<subseteq> {..<Blocks st}"
  defines "ri \<equiv> roundUpBytesToAlignmentBlocks (ni * IndexSize ty)"
    and "rv \<equiv> roundUpBytesToAlignmentBlocks (nd * ValueSize ty)"
  shows "(resize_blocks ty ni nd bs st = Inl PackedOOM
      \<and> (\<exists>b \<in> set bs. seg_size (hd (chain st)) (2 * b + 1) < ri \<or> seg_size (hd (chain st)) (2 * b + 2) < rv))
    \<or> (\<exists>ix vs ch. resize_blocks ty ni nd bs st = Inr \<lparr>fq = (fq st)\<lparr>fq_index := ix, fq_values := vs\<rparr>, chain = ch\<rparr>
      \<and> seg_ok ty \<lparr>fq = (fq st)\<lparr>fq_index := ix, fq_values := vs\<rparr>, chain = ch\<rparr>
      \<and> length ix = Blocks st \<and> length vs = Blocks st
      \<and> (\<forall>b < Blocks st. ix ! b = (if b \<in> set bs then fit_cells ty (nat (ri div IndexSize ty)) (fq_index (fq st) ! b) else fq_index (fq st) ! b)
          \<and> vs ! b = (if b \<in> set bs then fit_cells ty (nat (rv div ValueSize ty)) (fq_values (fq st) ! b) else fq_values (fq st) ! b)))"
  using assms(1,4,5)
proof (induction bs arbitrary: st)
  case Nil
  then show ?case
    by (intro disjI2 exI [of _ "fq_index (fq st)"] exI [of _ "fq_values (fq st)"] exI [of _ "chain st"])
      (simp add: seg_ok_def Blocks_def)
next
  case (Cons b bs)
  from Cons.prems(1) obtain A up where ch: "chain st = A # up" by (cases "chain st") (auto simp: seg_ok_def)
  have S: "0 < IndexSize ty" "0 < ValueSize ty" "chain_ok (A # up)" "2 * Blocks st < elements A" "b < Blocks st"
    "length (fq_index (fq st)) = Blocks st"
    using Cons.prems(1,3) ch by (simp_all add: seg_ok_def)
  have i: "2 * b + 1 < elements A" "2 * b + 2 < elements A" using S(4,5) by simp_all
  have n: "0 \<le> ni * IndexSize ty" "0 \<le> nd * ValueSize ty" using S(1,2) assms(2,3) by simp_all
  have seg: "length (fq_index (fq st) ! c) = nat (seg_size A (2 * c + 1) div IndexSize ty)"
    "length (fq_values (fq st) ! c) = nat (seg_size A (2 * c + 2) div ValueSize ty)" if "c < Blocks st" for c
    using Cons.prems(1) ch that by (simp_all add: seg_ok_def)
  show ?case
  proof (cases rule: resizeBlock_segments [OF S(3) i(1) n(1)])
    case 1
    then show ?thesis using ch by (simp add: ri_def)
  next
    case (2 B up1)
    have i2: "2 * b + 2 < elements B" using i 2(3) by simp
    show ?thesis
    proof (cases rule: resizeBlock_segments [OF 2(2) i2 n(2)])
      case 1
      then show ?thesis using ch 2(1) 2(4) [of "2 * b + 2"] i by (simp add: rv_def)
    next
      case R: (2 C up2)
      let ?ix = "(fq_index (fq st))[b := fit_cells ty (nat (ri div IndexSize ty)) (fq_index (fq st) ! b)]"
      let ?vs = "(fq_values (fq st))[b := fit_cells ty (nat (rv div ValueSize ty)) (fq_values (fq st) ! b)]"
      let ?st = "\<lparr>fq = (fq st)\<lparr>fq_index := ?ix, fq_values := ?vs\<rparr>, chain = C # up2\<rparr>"
      have run: "resize_blocks ty ni nd (b # bs) st = resize_blocks ty ni nd bs ?st"
        using ch 2(1) R(1) by (cases st) (simp add: ri_def rv_def)
      have B: "Blocks ?st = Blocks st" by (simp add: Blocks_def)
      have sizes: "seg_size C (2 * c + 1) = (if c = b then ri else seg_size A (2 * c + 1))"
        "seg_size C (2 * c + 2) = (if c = b then rv else seg_size A (2 * c + 2))" if "c < Blocks st" for c
      proof -
        have c: "2 * c + 1 < elements A" "2 * c + 2 < elements A" using that S(4) by simp_all
        have ne: "2 * c + 1 \<noteq> 2 * b + 2" "2 * c + 2 \<noteq> 2 * b + 1" by presburger+
        show "seg_size C (2 * c + 1) = (if c = b then ri else seg_size A (2 * c + 1))"
          using R(4) [of "2 * c + 1"] 2(4) [of "2 * c + 1"] c 2(3) ne by (simp add: ri_def)
        show "seg_size C (2 * c + 2) = (if c = b then rv else seg_size A (2 * c + 2))"
          using R(4) [of "2 * c + 2"] 2(4) [of "2 * c + 2"] c 2(3) ne by (simp add: rv_def)
      qed
      have ok: "seg_ok ty ?st"
        using S R(2,3) 2(3) seg sizes by (auto simp: seg_ok_def Blocks_def nth_list_update fit_cells_simps)
      have bs: "distinct bs" "set bs \<subseteq> {..<Blocks ?st}" "b \<notin> set bs" using Cons.prems(2,3) B by auto
      from Cons.IH [OF ok bs(1,2)] show ?thesis
      proof (elim disjE exE conjE)
        assume oom: "resize_blocks ty ni nd bs ?st = Inl PackedOOM"
          "\<exists>c \<in> set bs. seg_size (hd (chain ?st)) (2 * c + 1) < ri \<or> seg_size (hd (chain ?st)) (2 * c + 2) < rv"
        then obtain c where c: "c \<in> set bs" "seg_size C (2 * c + 1) < ri \<or> seg_size C (2 * c + 2) < rv" by auto
        then have "c < Blocks st" "c \<noteq> b" using bs Cons.prems(3) by auto
        then show ?thesis using oom(1) c sizes [of c] ch run by auto
      next
        fix ix vs ch'
        assume "resize_blocks ty ni nd bs ?st = Inr \<lparr>fq = (fq ?st)\<lparr>fq_index := ix, fq_values := vs\<rparr>, chain = ch'\<rparr>"
          "seg_ok ty \<lparr>fq = (fq ?st)\<lparr>fq_index := ix, fq_values := vs\<rparr>, chain = ch'\<rparr>"
          "length ix = Blocks ?st" "length vs = Blocks ?st"
          "\<forall>c < Blocks ?st. ix ! c = (if c \<in> set bs then fit_cells ty (nat (ri div IndexSize ty)) (fq_index (fq ?st) ! c) else fq_index (fq ?st) ! c)
            \<and> vs ! c = (if c \<in> set bs then fit_cells ty (nat (rv div ValueSize ty)) (fq_values (fq ?st) ! c) else fq_values (fq ?st) ! c)"
        then show ?thesis unfolding run B using bs(3) S(5,6)
          by (intro disjI2 exI [of _ ix] exI [of _ vs] exI [of _ ch']) (auto simp: nth_list_update Blocks_def)
      qed
    qed
  qed
qed

lemma roundUp_least:
  assumes "0 \<le> x" "x \<le> s" "8 dvd s"
  shows "roundUpBytesToAlignmentBlocks x \<le> s"
proof -
  obtain a b where ab: "roundUpBytesToAlignmentBlocks x = 8 * a" "s = 8 * b"
    using roundUp_props(1) [OF assms(1)] assms(3) by (auto simp: dvd_def)
  then have "8 * a < 8 * (b + 1)" using roundUp_props(3) [OF assms(1)] assms(2) by simp
  then have "a \<le> b" by simp
  then show ?thesis using ab by simp
qed

lemma le_div_pos: "0 < k \<Longrightarrow> n * k \<le> m \<Longrightarrow> n \<le> m div k" for n k m :: int
  using zdiv_mono1 [of "n * k" m k] by simp

lemma cells_bytes:
  assumes "0 < k" "0 \<le> s" "n \<le> int (nat (s div k))"
  shows "n * k \<le> s"
proof -
  have "n * k \<le> s div k * k" using assms by (intro mult_right_mono) (auto simp: pos_imp_zdiv_nonneg_iff)
  then show ?thesis using assms pos_mod_sign [of k s] minus_div_mult_eq_mod [of s k] by linarith
qed

lemma st_okD:
  assumes "st_ok ty st"
  shows "seg_ok ty st" "fq_shape (params ty) (fq st)" "0 \<le> fq_size (fq st)" "fq_size (fq st) \<le> fq_max_size (fq st)"
    "fq_max_size (fq st) \<le> max_capacity ty" "\<And>b. b < Blocks st \<Longrightarrow> fq_max_size (fq st) \<le> int (length (fq_values (fq st) ! b))"
  using assms by (auto simp: st_ok_def fq_shape_def Blocks_def)

text \<open>What the segments hold: enough bytes for the arrays.\<close>

lemma segments_hold:
  assumes "st_ok ty st" "b < Blocks st" "index_size_for (params ty) (fq_max_size (fq st)) = Some m"
  shows "fq_max_size (fq st) * ValueSize ty \<le> seg_size (hd (chain st)) (2 * b + 2)" "m * IndexSize ty \<le> seg_size (hd (chain st)) (2 * b + 1)"
    and "8 dvd seg_size (hd (chain st)) (2 * b + 2)" "8 dvd seg_size (hd (chain st)) (2 * b + 1)"
proof -
  note seg = st_okD(1) [OF assms(1), unfolded seg_ok_def]
  then obtain A up where ch: "chain st = A # up" by (cases "chain st") auto
  have A: "alloc_ok A" using chain_ok_hd seg ch by auto
  have i: "2 * b + 1 < elements A" "2 * b + 2 < elements A" using seg ch assms(2) by auto
  note d = seg_size_dvd [OF A i(1)] seg_size_dvd [OF A i(2)]
  show "8 dvd seg_size (hd (chain st)) (2 * b + 2)" "8 dvd seg_size (hd (chain st)) (2 * b + 1)" using d ch by simp_all
  show "fq_max_size (fq st) * ValueSize ty \<le> seg_size (hd (chain st)) (2 * b + 2)"
    using d(4) st_okD(6) [OF assms(1,2)] seg assms(2) ch by (intro cells_bytes) auto
  have "fq_index (fq st) ! b \<in> set (fq_index (fq st))" using seg assms(2) by simp
  then have "m \<le> int (length (fq_index (fq st) ! b))" using st_okD(2) [OF assms(1)] assms(3) by (auto simp: fq_shape_def)
  then show "m * IndexSize ty \<le> seg_size (hd (chain st)) (2 * b + 1)"
    using d(2) seg assms(2) ch by (intro cells_bytes) auto
qed

lemma resize_fq_spec:
  assumes ok: "st_ok ty st" and lo: "fq_size (fq st) \<le> fq_max_size (fq st) + n" and hi: "fq_max_size (fq st) + n \<le> max_capacity ty"
  shows "(resize_fq ty n st = Inl PackedOOM \<and> 0 < n)
    \<or> (\<exists>st'. resize_fq ty n st = Inr st' \<and> st_ok ty st' \<and> Blocks st' = Blocks st \<and> fq_size (fq st') = fq_size (fq st)
         \<and> fq_max_size (fq st') = fq_max_size (fq st) + n \<and> contents (fq st') = contents (fq st))"
proof -
  let ?N = "fq_max_size (fq st) + n" and ?t = "fq st" and ?A = "hd (chain st)"
  note seg = st_okD(1) [OF ok]
  have N: "0 \<le> ?N" using lo st_okD(3) [OF ok] by simp
  obtain ni where ni: "index_size_for (params ty) ?N = Some ni" "0 \<le> ni"
    using index_size_for_mono [of ?N ?N "params ty"] hi by auto
  obtain m where m: "index_size_for (params ty) (fq_max_size ?t) = Some m"
    using index_size_for_mono [of "fq_max_size ?t" "fq_max_size ?t" "params ty"] st_okD(5) [OF ok] by auto
  let ?ri = "roundUpBytesToAlignmentBlocks (ni * IndexSize ty)" and ?rv = "roundUpBytesToAlignmentBlocks (?N * ValueSize ty)"
  have pos: "0 < IndexSize ty" "0 < ValueSize ty" using seg by (simp_all add: seg_ok_def)
  have p: "0 \<le> ni * IndexSize ty" "0 \<le> ?N * ValueSize ty" using pos ni(2) N by simp_all
  have cells: "ni \<le> ?ri div IndexSize ty" "?N \<le> ?rv div ValueSize ty"
    using roundUp_props(2) p pos by (auto intro!: le_div_pos)
  have "set [0 ..< Blocks st] \<subseteq> {..<Blocks st}" by auto
  from resize_blocks_spec [OF seg ni(2) N distinct_upt this]
  show ?thesis
  proof (elim disjE exE conjE)
    assume R: "resize_blocks ty ni ?N [0 ..< Blocks st] st = Inl PackedOOM"
      "\<exists>b \<in> set [0 ..< Blocks st]. seg_size ?A (2 * b + 1) < ?ri \<or> seg_size ?A (2 * b + 2) < ?rv"
    have "0 < n"
    proof (rule ccontr)
      assume "\<not> 0 < n"
      then have n: "?N \<le> fq_max_size ?t" by simp
      then have "ni \<le> m" using index_size_for_mono [OF n st_okD(5) [OF ok]] ni m by auto
      then have le: "ni * IndexSize ty \<le> m * IndexSize ty" "?N * ValueSize ty \<le> fq_max_size ?t * ValueSize ty"
        using n pos by (auto intro!: mult_right_mono)
      have "?ri \<le> seg_size ?A (2 * b + 1) \<and> ?rv \<le> seg_size ?A (2 * b + 2)" if "b < Blocks st" for b
        using segments_hold [OF ok that m] le p by (intro conjI roundUp_least) auto
      then show False using R(2) by force
    qed
    then show ?thesis using R(1) ni(1) by (simp add: resize_fq_def)
  next
    fix ix vs ch
    let ?s = "\<lparr>fq = ?t\<lparr>fq_index := ix, fq_values := vs\<rparr>, chain = ch\<rparr>"
    assume R: "resize_blocks ty ni ?N [0 ..< Blocks st] st = Inr ?s" "seg_ok ty ?s"
      "length ix = Blocks st" "length vs = Blocks st"
      "\<forall>b < Blocks st. ix ! b = (if b \<in> set [0 ..< Blocks st] then fit_cells ty (nat (?ri div IndexSize ty)) (fq_index ?t ! b) else fq_index ?t ! b)
          \<and> vs ! b = (if b \<in> set [0 ..< Blocks st] then fit_cells ty (nat (?rv div ValueSize ty)) (fq_values ?t ! b) else fq_values ?t ! b)"
    let ?st = "?s\<lparr>fq := (fq ?s)\<lparr>fq_max_size := ?N, fq_index_size := ni\<rparr>\<rparr>"
    have run: "resize_fq ty n st = Inr ?st" using R(1) ni(1) by (simp add: resize_fq_def)
    have arr: "ix ! b = fit_cells ty (nat (?ri div IndexSize ty)) (fq_index ?t ! b)"
        "vs ! b = fit_cells ty (nat (?rv div ValueSize ty)) (fq_values ?t ! b)" if "b < Blocks st" for b using R(5) that by simp_all
    have "?ri = 0" if "ni = 0" using that roundUp_props(4) [of 0] by simp
    then have "\<forall>x \<in> set ix. ni \<le> int (length x) \<and> (ni = 0 \<longrightarrow> x = [])"
      using arr(1) cells(1) R(3) by (auto simp: in_set_conv_nth fit_cells_simps fit_cells_def)
    moreover have "\<forall>v \<in> set vs. ?N \<le> int (length v)"
      using arr(2) cells(2) N R(4) by (auto simp: in_set_conv_nth fit_cells_simps)
    ultimately have "st_ok ty ?st" using R(2-4) lo hi ni(1) st_okD(3) [OF ok]
      by (simp add: st_ok_def seg_ok_def fq_shape_def Blocks_def)
    moreover have "contents (fq ?st) = contents ?t"
    proof (rule nth_equalityI)
      fix b assume "b < length (contents (fq ?st))"
      then have b: "b < Blocks st" using R(4) by (simp add: contents_def)
      have "nat (fq_size ?t) \<le> nat (?rv div ValueSize ty)" "nat (fq_size ?t) \<le> length (fq_values ?t ! b)"
        using cells(2) lo st_okD(4,6) [OF ok] b by (fastforce)+
      then show "contents (fq ?st) ! b = contents ?t ! b"
        using arr(2) [OF b] b R(4) by (simp add: contents_def Blocks_def fit_cells_simps)
    qed (simp add: contents_def R(4) Blocks_def)
    moreover have "Blocks ?st = Blocks st" "fq_size (fq ?st) = fq_size ?t" "fq_max_size (fq ?st) = ?N"
      using R(4) by (simp_all add: Blocks_def)
    ultimately show ?thesis using run by blast
  qed
qed

section \<open>Gaps\<close>

lemma take_prefix_nth:
  assumes "length xs = n" "n \<le> length ys" "\<And>p. p < n \<Longrightarrow> ys ! p = xs ! p"
  shows "take n ys = xs"
  using assms by (intro nth_equalityI) auto

lemma open_gap_spec:
  assumes "0 \<le> idx" "idx \<le> sz" "0 \<le> room" "sz + room \<le> int (length vals)"
  shows "\<exists>w. open_gap sz idx room vals = Some w \<and> length w = length vals
    \<and> take (nat (sz + room)) w = take (nat idx) (take (nat sz) vals) @ replicate (nat room) 0 @ drop (nat idx) (take (nat sz) vals)"
proof -
  obtain i n r where nat: "idx = int i" "sz = int n" "room = int r" using assms zero_le_imp_eq_int by (metis order_trans)
  have le: "i \<le> n" "n + r \<le> length vals" using assms nat by simp_all
  let ?v = "CopyBuffer vals i vals (i + r) (n - i)"
  let ?w = "CopyBuffer (replicate r 0) 0 ?v i r"
  have lv: "length ?v = length vals" using le by (intro length_CopyBuffer) auto
  have v: "?v ! p = (if i + r \<le> p \<and> p < i + r + (n - i) then vals ! (i + (p - (i + r))) else vals ! p)" for p
    using le by (intro nth_CopyBuffer) auto
  have lw: "length ?w = length vals" using le lv by (subst length_CopyBuffer) auto
  have w: "?w ! p = (if i \<le> p \<and> p < i + r then replicate r 0 ! (0 + (p - i)) else ?v ! p)" for p
    using le lv by (intro nth_CopyBuffer) auto
  have "open_gap sz idx room vals = Some ?w" using le by (simp add: open_gap_def nat nat_add_distrib nat_diff_distrib Let_def)
  moreover have "take (n + r) ?w = take i (take n vals) @ replicate r 0 @ drop i (take n vals)"
  proof (rule take_prefix_nth)
    fix p assume "p < n + r"
    then show "?w ! p = (take i (take n vals) @ replicate r 0 @ drop i (take n vals)) ! p"
      using le unfolding w v by (auto simp: nth_append intro!: arg_cong [of _ _ "(!) vals"])
  qed (use le lw in auto)
  ultimately show ?thesis using lw by (simp add: nat nat_add_distrib)
qed

lemma close_gap_spec:
  assumes "0 \<le> start" "start \<le> end" "end \<le> sz" "sz \<le> int (length vals)"
  shows "\<exists>w. close_gap sz start end vals = Some w \<and> length w = length vals
    \<and> take (nat (sz - (end - start))) w = take (nat start) (take (nat sz) vals) @ drop (nat end) (take (nat sz) vals)"
proof -
  obtain a b n where nat: "start = int a" "end = int b" "sz = int n" using assms zero_le_imp_eq_int by (metis order_trans)
  have le: "a \<le> b" "b \<le> n" "n \<le> length vals" using assms nat by simp_all
  let ?v = "CopyBuffer vals b vals a (n - b)"
  let ?w = "CopyBuffer (replicate (b - a) 0) 0 ?v (a + n - b) (b - a)"
  have lv: "length ?v = length vals" using le by (intro length_CopyBuffer) auto
  have v: "?v ! p = (if a \<le> p \<and> p < a + (n - b) then vals ! (b + (p - a)) else vals ! p)" for p
    using le by (intro nth_CopyBuffer) auto
  have lw: "length ?w = length vals" using le lv by (subst length_CopyBuffer) auto
  have w: "?w ! p = (if a + n - b \<le> p \<and> p < a + n - b + (b - a) then replicate (b - a) 0 ! (0 + (p - (a + n - b))) else ?v ! p)" for p
    using le lv by (intro nth_CopyBuffer) auto
  have e: "nat (int a + int n - int b) = a + n - b" "nat (int n - (int b - int a)) = a + n - b" using le by linarith+
  have "close_gap sz start end vals = Some ?w" using le by (simp add: close_gap_def nat nat_diff_distrib Let_def e)
  moreover have "take (a + n - b) ?w = take a (take n vals) @ drop b (take n vals)"
  proof (rule take_prefix_nth)
    fix p assume "p < a + n - b"
    then show "?w ! p = (take a (take n vals) @ drop b (take n vals)) ! p"
      using le unfolding w v by (auto simp: nth_append intro!: arg_cong [of _ _ "(!) vals"])
  qed (use le lw in auto)
  ultimately show ?thesis using lw by (simp add: nat e)
qed

lemma all_blocks_spec:
  assumes "\<And>v. v \<in> set vs \<Longrightarrow> \<exists>w. f v = Some w \<and> P v w"
  shows "\<exists>ws. all_blocks f vs = Inr ws \<and> list_all2 P vs ws"
  using assms
proof (induction vs)
  case (Cons v vs)
  then obtain ws where "all_blocks f vs = Inr ws" "list_all2 P vs ws" by auto
  moreover obtain w where "f v = Some w" "P v w" using Cons.prems [of v] by auto
  ultimately show ?case by auto
qed simp

text \<open>Values of the same length in place of the old ones, and another number of them in use.\<close>

lemma st_ok_values:
  assumes "st_ok ty st" "map length ws = map length (fq_values (fq st))" "0 \<le> n" "n \<le> fq_max_size (fq st)"
  shows "st_ok ty (st\<lparr>fq := (fq st)\<lparr>fq_values := ws, fq_size := n\<rparr>\<rparr>)"
proof -
  have l: "length ws = length (fq_values (fq st))" using arg_cong [OF assms(2), of length] by simp
  have "length (ws ! b) = length (fq_values (fq st) ! b)" if "b < length ws" for b
    using arg_cong [OF assms(2), of "\<lambda>xs. xs ! b"] that l by simp
  moreover have "(\<forall>v \<in> set ws. fq_max_size (fq st) \<le> int (length v)) \<longleftrightarrow> (\<forall>v \<in> set (fq_values (fq st)). fq_max_size (fq st) \<le> int (length v))"
    by (rule all_lengths_cong [OF assms(2)])
  ultimately show ?thesis using assms l by (simp add: st_ok_def seg_ok_def fq_shape_def Blocks_def split: option.splits)
qed

lemma contents_values:
  assumes "list_all2 (\<lambda>v w. length w = length v \<and> take (nat n) w = F (take (nat (fq_size t)) v)) (fq_values t) ws"
  shows "contents (t\<lparr>fq_values := ws, fq_size := n\<rparr>) = map F (contents t)" and "map length ws = map length (fq_values t)"
  using assms by (auto simp: contents_def list_all2_conv_all_nth intro!: nth_equalityI)

lemma insertSpace_spec:
  assumes ok: "st_ok ty st" and idx: "0 \<le> idx" "idx \<le> fq_size (fq st)" and room: "0 \<le> room" "fq_size (fq st) + room \<le> max_capacity ty"
  shows "insertSpace ty idx room st = Inl PackedOOM
    \<or> (\<exists>st'. insertSpace ty idx room st = Inr st' \<and> st_ok ty st' \<and> Blocks st' = Blocks st \<and> fq_size (fq st') = fq_size (fq st) + room
         \<and> contents (fq st') = map (\<lambda>v. take (nat idx) v @ replicate (nat room) 0 @ drop (nat idx) v) (contents (fq st)))"
proof -
  let ?c = "capacity_fq (fq st)" and ?F = "\<lambda>v. take (nat idx) v @ replicate (nat room) 0 @ drop (nat idx) v"
  let ?r = "if ?c < room then resize_fq ty (room - ?c) st else Inr st"
  have run: "insertSpace ty idx room st = bindR ?r (\<lambda>st. bindR (all_blocks (open_gap (fq_size (fq st)) idx room) (fq_values (fq st)))
      (\<lambda>vs. Inr (st\<lparr>fq := (fq st)\<lparr>fq_values := vs, fq_size := fq_size (fq st) + room\<rparr>\<rparr>)))"
    by (simp add: insertSpace_def Let_def)
  have "?r = Inl PackedOOM \<or> (\<exists>s. ?r = Inr s \<and> st_ok ty s \<and> Blocks s = Blocks st \<and> fq_size (fq s) = fq_size (fq st)
      \<and> fq_size (fq s) + room \<le> fq_max_size (fq s) \<and> contents (fq s) = contents (fq st))"
  proof (cases "?c < room")
    case True
    have "resize_fq ty (room - ?c) st = Inl PackedOOM \<or> (\<exists>s. resize_fq ty (room - ?c) st = Inr s \<and> st_ok ty s
        \<and> Blocks s = Blocks st \<and> fq_size (fq s) = fq_size (fq st) \<and> fq_max_size (fq s) = fq_max_size (fq st) + (room - ?c)
        \<and> contents (fq s) = contents (fq st))"
      using resize_fq_spec [OF ok, of "room - ?c"] True room by (auto simp: capacity_fq_def)
    then show ?thesis using True by (auto simp: capacity_fq_def)
  next
    case False
    then show ?thesis using ok by (simp add: capacity_fq_def)
  qed
  then show ?thesis
  proof (elim disjE exE conjE)
    assume "?r = Inl PackedOOM"
    then show ?thesis using run by simp
  next
    fix s assume s: "?r = Inr s" "st_ok ty s" "Blocks s = Blocks st" "fq_size (fq s) = fq_size (fq st)"
      "fq_size (fq s) + room \<le> fq_max_size (fq s)" "contents (fq s) = contents (fq st)"
    let ?P = "\<lambda>v w. length w = length v \<and> take (nat (fq_size (fq s) + room)) w = ?F (take (nat (fq_size (fq s))) v)"
    have "\<exists>w. open_gap (fq_size (fq s)) idx room v = Some w \<and> ?P v w" if "v \<in> set (fq_values (fq s))" for v
    proof -
      have "fq_max_size (fq s) \<le> int (length v)" using st_okD(2) [OF s(2)] that by (simp add: fq_shape_def)
      then show ?thesis using idx room(1) s(4,5) by (intro open_gap_spec) auto
    qed
    from all_blocks_spec [where vs = "fq_values (fq s)" and P = ?P, OF this] obtain ws where
      W: "all_blocks (open_gap (fq_size (fq s)) idx room) (fq_values (fq s)) = Inr ws" "list_all2 ?P (fq_values (fq s)) ws" by blast
    let ?s = "s\<lparr>fq := (fq s)\<lparr>fq_values := ws, fq_size := fq_size (fq s) + room\<rparr>\<rparr>"
    note C = contents_values [OF W(2)]
    have "insertSpace ty idx room st = Inr ?s" using run s(1) W(1) by simp
    moreover have "st_ok ty ?s" using st_okD(3) [OF s(2)] room(1) s(5) by (intro st_ok_values [OF s(2) C(2)]) auto
    moreover have "Blocks ?s = Blocks st" using list_all2_lengthD [OF W(2)] s(3) by (simp add: Blocks_def)
    ultimately show ?thesis using C(1) s(4,6) by (intro disjI2 exI [of _ ?s]) simp
  qed
qed

lemma reindex_tree_spec:
  assumes "st_ok ty st"
  shows "\<exists>st'. reindex_tree ty st = Inr st' \<and> st_ok ty st' \<and> fq_ok (params ty) (fq st') \<and> Blocks st' = Blocks st
    \<and> fq_size (fq st') = fq_size (fq st) \<and> contents (fq st') = contents (fq st) \<and> chain st' = chain st
    \<and> fq_max_size (fq st') = fq_max_size (fq st)"
proof -
  obtain idx n where R: "reindex_fq (params ty) (int (Blocks st)) (fq st) = Some ((fq st)\<lparr>fq_index := idx, fq_index_size := n\<rparr>)"
    "map length idx = map length (fq_index (fq st))" "fq_ok (params ty) ((fq st)\<lparr>fq_index := idx, fq_index_size := n\<rparr>)"
    using reindex_spec [OF st_okD(2) [OF assms]] unfolding Blocks_def by blast
  let ?st = "st\<lparr>fq := (fq st)\<lparr>fq_index := idx, fq_index_size := n\<rparr>\<rparr>"
  have l: "length idx = length (fq_index (fq st))" using arg_cong [OF R(2), of length] by simp
  have "length (idx ! b) = length (fq_index (fq st) ! b)" if "b < length idx" for b
    using arg_cong [OF R(2), of "\<lambda>xs. xs ! b"] that l by simp
  then have "seg_ok ty ?st" using st_okD(1) [OF assms] l by (simp add: seg_ok_def Blocks_def)
  then have "st_ok ty ?st" using R(3) by (simp add: st_ok_def fq_ok_def)
  then show ?thesis using R(1,3) by (intro exI [of _ ?st]) (simp add: reindex_tree_def Blocks_def contents_def)
qed

lemma remove_fq_spec:
  assumes ok: "st_ok ty st" and r: "0 \<le> start" "start \<le> end" "end \<le> fq_size (fq st)"
  shows "\<exists>st'. remove_fq ty start end st = Inr st' \<and> st_ok ty st' \<and> fq_ok (params ty) (fq st') \<and> Blocks st' = Blocks st
    \<and> fq_size (fq st') = fq_size (fq st) - (end - start)
    \<and> contents (fq st') = map (\<lambda>v. take (nat start) v @ drop (nat end) v) (contents (fq st))"
proof -
  let ?sz = "fq_size (fq st)" and ?F = "\<lambda>v. take (nat start) v @ drop (nat end) v"
  let ?P = "\<lambda>v w. length w = length v \<and> take (nat (?sz - (end - start))) w = ?F (take (nat ?sz) v)"
  have "\<exists>w. close_gap ?sz start end v = Some w \<and> ?P v w" if "v \<in> set (fq_values (fq st))" for v
  proof -
    have "fq_max_size (fq st) \<le> int (length v)" using st_okD(2) [OF ok] that by (simp add: fq_shape_def)
    then show ?thesis using r st_okD(4) [OF ok] by (intro close_gap_spec) auto
  qed
  from all_blocks_spec [where vs = "fq_values (fq st)" and P = ?P, OF this] obtain ws where
    W: "all_blocks (close_gap ?sz start end) (fq_values (fq st)) = Inr ws" "list_all2 ?P (fq_values (fq st)) ws" by blast
  note C = contents_values [OF W(2)]
  let ?s = "st\<lparr>fq := (fq st)\<lparr>fq_values := ws, fq_size := ?sz - (end - start)\<rparr>\<rparr>"
  have s: "st_ok ty ?s" using r st_okD(4) [OF ok] by (intro st_ok_values [OF ok C(2)]) auto
  have "resize_fq ty (- (end - start)) ?s = Inl PackedOOM \<and> 0 < - (end - start) \<or>
      (\<exists>s'. resize_fq ty (- (end - start)) ?s = Inr s' \<and> st_ok ty s' \<and> Blocks s' = Blocks ?s \<and> fq_size (fq s') = fq_size (fq ?s)
         \<and> fq_max_size (fq s') = fq_max_size (fq ?s) + - (end - start) \<and> contents (fq s') = contents (fq ?s))"
    using r st_okD(3-5) [OF ok] by (intro resize_fq_spec [OF s]) auto
  then obtain s1 where s1: "resize_fq ty (- (end - start)) ?s = Inr s1" "st_ok ty s1" "Blocks s1 = Blocks ?s"
    "fq_size (fq s1) = fq_size (fq ?s)" "contents (fq s1) = contents (fq ?s)" using r by auto
  have "remove_fq ty start end st = reindex_tree ty s1" using r W(1) s1(1) by (simp add: remove_fq_def Let_def)
  then show ?thesis using reindex_tree_spec [OF s1(2)] s1(3-5) C(1) list_all2_lengthD [OF W(2)] by (auto simp: Blocks_def)
qed

section \<open>Writing rows\<close>

definition write_at :: "nat \<Rightarrow> 'v list \<Rightarrow> 'v list \<Rightarrow> 'v list" where
  "write_at k e v = take k v @ e @ drop (k + length e) v"

lemma length_write_at: "k + length e \<le> length v \<Longrightarrow> length (write_at k e v) = length v"
  by (simp add: write_at_def)

lemma take_write_at: "k + length e \<le> n \<Longrightarrow> n \<le> length v \<Longrightarrow> take n (write_at k e v) = write_at k e (take n v)"
  by (cases "k = n") (auto simp: write_at_def take_drop min_def)

lemma put_entries_spec:
  assumes "length es = length vs" "0 \<le> k" "\<And>e. e \<in> set es \<Longrightarrow> length e = r" "\<And>v. v \<in> set vs \<Longrightarrow> k + int r \<le> int (length v)"
  shows "put_entries k vs es = Inr (map2 (write_at (nat k)) es vs)"
  using assms
proof (induction vs arbitrary: es)
  case (Cons v vs)
  from Cons.prems(1) obtain e es' where es: "es = e # es'" by (cases es) auto
  have "put_entries k vs es' = Inr (map2 (write_at (nat k)) es' vs)" using Cons.prems es by (intro Cons.IH) auto
  then show ?case using Cons.prems(2) Cons.prems(3) [of e] Cons.prems(4) [of v] es by (simp add: CopyBuffer_def write_at_def)
qed simp

lemma copy_blocks_put_entries:
  assumes "length vs = length ws" "0 \<le> from" "0 \<le> count" "0 \<le> k"
    and "\<And>v. v \<in> set vs \<Longrightarrow> from + count \<le> int (length v)" "\<And>w. w \<in> set ws \<Longrightarrow> k + count \<le> int (length w)"
  shows "copy_blocks from count k vs ws = put_entries k ws (map (\<lambda>v. take (nat count) (drop (nat from) v)) vs)"
  using assms
proof (induction vs ws rule: list_induct2)
  case (Cons v vs w ws)
  have v: "from + count \<le> int (length v)" "k + count \<le> int (length w)" using Cons.prems(4) [of v] Cons.prems(5) [of w] by simp_all
  then have l: "length (take (nat count) (drop (nat from) v)) = nat count" using Cons.prems(1,2) by simp
  have "copy_blocks from count k vs ws = put_entries k ws (map (\<lambda>v. take (nat count) (drop (nat from) v)) vs)"
    using Cons.prems by (intro Cons.IH) auto
  then show ?case using v l Cons.prems(2,3) by (simp add: CopyBuffer_def del: length_take length_drop)
qed simp

lemma put_entries_ok:
  assumes ok: "st_ok ty st" and es: "length es = Blocks st" "\<forall>e \<in> set es. length e = r"
    and k: "0 \<le> k" "k + int r \<le> fq_size (fq st)"
  shows "\<exists>ws. put_entries k (fq_values (fq st)) es = Inr ws \<and> st_ok ty (st\<lparr>fq := (fq st)\<lparr>fq_values := ws\<rparr>\<rparr>)
    \<and> length ws = Blocks st \<and> contents ((fq st)\<lparr>fq_values := ws\<rparr>) = map2 (write_at (nat k)) es (contents (fq st))"
proof -
  let ?vs = "fq_values (fq st)" and ?ws = "map2 (write_at (nat k)) es (fq_values (fq st))"
  have l: "length es = length ?vs" using es(1) by (simp add: Blocks_def)
  have len: "fq_size (fq st) \<le> int (length (?vs ! b))" if "b < length ?vs" for b
    using st_okD(4,6) [OF ok] that by (fastforce simp: Blocks_def)
  have e: "length (es ! b) = r" if "b < length ?vs" for b using es(2) l that by simp
  have "k + int r \<le> int (length v)" if "v \<in> set ?vs" for v using len k that by (fastforce simp: in_set_conv_nth)
  then have put: "put_entries k ?vs es = Inr ?ws" using l es(2) k(1) by (intro put_entries_spec) auto
  have fits: "nat k + length (es ! b) \<le> nat (fq_size (fq st))" "nat (fq_size (fq st)) \<le> length (?vs ! b)" if "b < length ?vs" for b
    using e [OF that] len [OF that] k by simp_all
  have "map length ?ws = map length ?vs"
    using l fits order_trans [OF fits] by (intro nth_equalityI) (auto intro!: length_write_at)
  then have "st_ok ty (st\<lparr>fq := (fq st)\<lparr>fq_values := ?ws, fq_size := fq_size (fq st)\<rparr>\<rparr>)"
    using st_okD(3,4) [OF ok] by (intro st_ok_values [OF ok]) auto
  moreover have "(fq st)\<lparr>fq_values := ?ws, fq_size := fq_size (fq st)\<rparr> = (fq st)\<lparr>fq_values := ?ws\<rparr>" by (cases "fq st") simp
  moreover have "contents ((fq st)\<lparr>fq_values := ?ws\<rparr>) = map2 (write_at (nat k)) es (contents (fq st))"
    using l fits by (intro nth_equalityI) (auto simp: contents_def take_write_at)
  ultimately show ?thesis using put l by (intro exI [of _ ?ws]) (simp add: Blocks_def)
qed

lemma length_contents [simp]: "length (contents (fq st)) = Blocks st"
  by (simp add: contents_def Blocks_def)

lemma contents_length:
  assumes "st_ok ty st" "v \<in> set (contents (fq st))"
  shows "length v = nat (fq_size (fq st))"
  using assms st_okD(4,6) [OF assms(1)] by (fastforce simp: contents_def in_set_conv_nth Blocks_def)

lemma write_gap:
  "k \<le> length v \<Longrightarrow> length e = r \<Longrightarrow> write_at k e (take k v @ replicate r x @ drop k v) = take k v @ e @ drop k v"
  by (simp add: write_at_def)

lemma write_gaps:
  assumes "length es = length vs" "\<And>e. e \<in> set es \<Longrightarrow> length e = r" "\<And>v. v \<in> set vs \<Longrightarrow> k \<le> length v"
  shows "map2 (write_at k) es (map (\<lambda>v. take k v @ replicate r x @ drop k v) vs) = map2 (\<lambda>v e. take k v @ e @ drop k v) vs es"
  using assms by (intro nth_equalityI) (auto simp: write_gap)

lemma rows_simps: "length (rows n blocks f) = blocks" "\<forall>e \<in> set (rows n blocks f). length e = nat n"
  by (auto simp: rows_def)

text \<open>Making a gap and filling it with rows.\<close>

lemma fill_gap_spec:
  assumes ok: "st_ok ty st" and idx: "0 \<le> idx" "idx \<le> fq_size (fq st)" and room: "0 \<le> n" "fq_size (fq st) + n \<le> max_capacity ty"
    and es: "length es = Blocks st" "\<forall>e \<in> set es. length e = nat n"
  shows "insertSpace ty idx n st = Inl PackedOOM
    \<or> (\<exists>s ws. insertSpace ty idx n st = Inr s \<and> st_ok ty s \<and> Blocks s = Blocks st \<and> put_entries idx (fq_values (fq s)) es = Inr ws
         \<and> st_ok ty (s\<lparr>fq := (fq s)\<lparr>fq_values := ws\<rparr>\<rparr>) \<and> length ws = Blocks st \<and> fq_size (fq s) = fq_size (fq st) + n
         \<and> contents ((fq s)\<lparr>fq_values := ws\<rparr>) = map2 (\<lambda>v e. take (nat idx) v @ e @ drop (nat idx) v) (contents (fq st)) es)"
  using insertSpace_spec [OF ok idx room]
proof (elim disjE exE conjE)
  fix s assume s: "insertSpace ty idx n st = Inr s" "st_ok ty s" "Blocks s = Blocks st" "fq_size (fq s) = fq_size (fq st) + n"
    "contents (fq s) = map (\<lambda>v. take (nat idx) v @ replicate (nat n) 0 @ drop (nat idx) v) (contents (fq st))"
  have k: "idx + int (nat n) \<le> fq_size (fq s)" using idx room s(4) by simp
  have es': "length es = Blocks s" using es(1) s(3) by simp
  from put_entries_ok [OF s(2) es' es(2) idx(1) k] obtain ws where W: "put_entries idx (fq_values (fq s)) es = Inr ws"
    "st_ok ty (s\<lparr>fq := (fq s)\<lparr>fq_values := ws\<rparr>\<rparr>)" "length ws = Blocks s"
    "contents ((fq s)\<lparr>fq_values := ws\<rparr>) = map2 (write_at (nat idx)) es (contents (fq s))" by blast
  have "nat idx \<le> length v" if "v \<in> set (contents (fq st))" for v using contents_length [OF ok that] idx by simp
  then have "contents ((fq s)\<lparr>fq_values := ws\<rparr>) = map2 (\<lambda>v e. take (nat idx) v @ e @ drop (nat idx) v) (contents (fq st)) es"
    unfolding W(4) s(5) using es by (intro write_gaps) auto
  then show ?thesis using s W by auto
qed simp

lemma insert_entries_spec:
  assumes ok: "st_ok ty st" and idx: "0 \<le> idx" "idx \<le> fq_size (fq st)" and room: "0 \<le> n" "fq_size (fq st) + n \<le> max_capacity ty"
  shows "insert_entries ty idx n f True st = Inl PackedOOM
    \<or> (\<exists>st'. insert_entries ty idx n f True st = Inr st' \<and> st_ok ty st' \<and> fq_ok (params ty) (fq st') \<and> Blocks st' = Blocks st
         \<and> fq_size (fq st') = fq_size (fq st) + n
         \<and> contents (fq st') = map2 (\<lambda>v e. take (nat idx) v @ e @ drop (nat idx) v) (contents (fq st)) (rows n (Blocks st) f))"
  using fill_gap_spec [OF ok idx room, of "rows n (Blocks st) f", OF rows_simps(1,2)]
proof (elim disjE exE conjE)
  fix s ws assume s: "insertSpace ty idx n st = Inr s" "Blocks s = Blocks st" "put_entries idx (fq_values (fq s)) (rows n (Blocks st) f) = Inr ws"
    "st_ok ty (s\<lparr>fq := (fq s)\<lparr>fq_values := ws\<rparr>\<rparr>)" "length ws = Blocks st" "fq_size (fq s) = fq_size (fq st) + n"
    "contents ((fq s)\<lparr>fq_values := ws\<rparr>) = map2 (\<lambda>v e. take (nat idx) v @ e @ drop (nat idx) v) (contents (fq st)) (rows n (Blocks st) f)"
  let ?s = "s\<lparr>fq := (fq s)\<lparr>fq_values := ws\<rparr>\<rparr>"
  have "insert_entries ty idx n f True st = reindex_tree ty ?s" using s(1-3) by (simp add: insert_entries_def)
  then show ?thesis using reindex_tree_spec [OF s(4)] s(5-7) by (auto simp: Blocks_def)
qed (simp add: insert_entries_def)

section \<open>Splitting and merging\<close>

lemma copy_into_gap_spec:
  assumes src: "st_ok ty st" and dst: "st_ok ty other" and B: "Blocks other = Blocks st"
    and r: "0 \<le> from" "0 \<le> count" "from + count \<le> fq_size (fq st)"
    and k: "0 \<le> k" "k \<le> fq_size (fq other)" "fq_size (fq other) + count \<le> max_capacity ty"
  shows "insertSpace ty k count other = Inl PackedOOM
    \<or> (\<exists>s o'. insertSpace ty k count other = Inr s \<and> copyTo st s from count k = Inr o' \<and> st_ok ty o' \<and> Blocks o' = Blocks st
         \<and> fq_size (fq o') = fq_size (fq other) + count
         \<and> contents (fq o') = map2 (\<lambda>w v. take (nat k) w @ take (nat count) (drop (nat from) v) @ drop (nat k) w)
             (contents (fq other)) (contents (fq st)))"
proof -
  let ?row = "\<lambda>v. take (nat count) (drop (nat from) v)"
  let ?es = "map ?row (fq_values (fq st))"
  have vs: "fq_size (fq st) \<le> int (length v)" if "v \<in> set (fq_values (fq st))" for v
    using st_okD(2,4) [OF src] that by (auto simp: fq_shape_def)
  have es: "length ?es = Blocks other" "\<forall>e \<in> set ?es. length e = nat count"
    using B vs r by (fastforce simp: Blocks_def)+
  have rows: "?es = map ?row (contents (fq st))" using r by (auto simp: contents_def take_drop min_def)
  show ?thesis using fill_gap_spec [OF dst k(1,2) r(2) k(3) es]
  proof (elim disjE exE conjE)
    fix s ws assume s: "insertSpace ty k count other = Inr s" "st_ok ty s" "Blocks s = Blocks other" "put_entries k (fq_values (fq s)) ?es = Inr ws"
      "st_ok ty (s\<lparr>fq := (fq s)\<lparr>fq_values := ws\<rparr>\<rparr>)" "length ws = Blocks other" "fq_size (fq s) = fq_size (fq other) + count"
      "contents ((fq s)\<lparr>fq_values := ws\<rparr>) = map2 (\<lambda>v e. take (nat k) v @ e @ drop (nat k) v) (contents (fq other)) ?es"
    have "k + count \<le> int (length w)" if "w \<in> set (fq_values (fq s))" for w
      using st_okD(2,4) [OF s(2)] that k s(7) by (auto simp: fq_shape_def)
    moreover have "from + count \<le> int (length v)" if "v \<in> set (fq_values (fq st))" for v using vs [OF that] r by simp
    ultimately have "copy_blocks from count k (fq_values (fq st)) (fq_values (fq s)) = Inr ws"
      using s(3,4) B r k(1) by (subst copy_blocks_put_entries) (auto simp: Blocks_def)
    then have "copyTo st s from count k = Inr (s\<lparr>fq := (fq s)\<lparr>fq_values := ws\<rparr>\<rparr>)" using r by (simp add: copyTo_def)
    then show ?thesis using s B unfolding rows by (auto simp: Blocks_def zip_map2 split_def)
  qed simp
qed

lemma splitTo_spec:
  assumes ok: "st_ok ty st" "st_ok ty other" and B: "Blocks other = Blocks st"
    and idx: "0 \<le> idx" "idx < fq_size (fq st)" and room: "fq_size (fq other) + (fq_size (fq st) - idx) \<le> max_capacity ty"
  shows "splitTo ty idx st other = Inl PackedOOM
    \<or> (\<exists>st' o'. splitTo ty idx st other = Inr (st', o') \<and> st_ok ty st' \<and> st_ok ty o' \<and> fq_ok (params ty) (fq st') \<and> fq_ok (params ty) (fq o')
         \<and> Blocks st' = Blocks st \<and> Blocks o' = Blocks st \<and> fq_size (fq st') = idx
         \<and> fq_size (fq o') = fq_size (fq other) + (fq_size (fq st) - idx)
         \<and> contents (fq st') = map (take (nat idx)) (contents (fq st))
         \<and> contents (fq o') = map2 (\<lambda>v w. drop (nat idx) v @ w) (contents (fq st)) (contents (fq other)))"
proof -
  let ?n = "fq_size (fq st) - idx"
  have n: "0 < ?n" "0 \<le> ?n" "idx + ?n \<le> fq_size (fq st)" using idx by simp_all
  have "splitTo ty idx st other = bindR (insertSpace ty 0 ?n other) (\<lambda>o'. bindR (copyTo st o' idx ?n 0) (\<lambda>o'.
      bindR (reindex_tree ty o') (\<lambda>o'. bindR (remove_fq ty idx (fq_size (fq st)) st) (\<lambda>st.
        bindR (reindex_tree ty st) (\<lambda>st. Inr (st, o'))))))"
    using n by (simp add: splitTo_def removeSpace_def Let_def)
  note run = this
  have len: "length v = nat (fq_size (fq st))" if "v \<in> set (contents (fq st))" for v using contents_length [OF ok(1) that] .
  show ?thesis using copy_into_gap_spec [OF ok B idx(1) n(2,3) order_refl st_okD(3) [OF ok(2)] room]
  proof (elim disjE exE conjE)
    fix s o1 assume s: "insertSpace ty 0 ?n other = Inr s" "copyTo st s idx ?n 0 = Inr o1" "st_ok ty o1" "Blocks o1 = Blocks st"
      "fq_size (fq o1) = fq_size (fq other) + ?n"
      "contents (fq o1) = map2 (\<lambda>w v. take (nat 0) w @ take (nat ?n) (drop (nat idx) v) @ drop (nat 0) w) (contents (fq other)) (contents (fq st))"
    obtain o2 where o2: "reindex_tree ty o1 = Inr o2" "st_ok ty o2" "fq_ok (params ty) (fq o2)" "Blocks o2 = Blocks o1"
      "fq_size (fq o2) = fq_size (fq o1)" "contents (fq o2) = contents (fq o1)" using reindex_tree_spec [OF s(3)] by blast
    obtain s1 where s1: "remove_fq ty idx (fq_size (fq st)) st = Inr s1" "st_ok ty s1" "Blocks s1 = Blocks st" "fq_size (fq s1) = idx"
      "contents (fq s1) = map (\<lambda>v. take (nat idx) v @ drop (nat (fq_size (fq st))) v) (contents (fq st))"
      using remove_fq_spec [OF ok(1) idx(1), of "fq_size (fq st)"] idx by auto
    obtain s2 where s2: "reindex_tree ty s1 = Inr s2" "st_ok ty s2" "fq_ok (params ty) (fq s2)" "Blocks s2 = Blocks s1"
      "fq_size (fq s2) = fq_size (fq s1)" "contents (fq s2) = contents (fq s1)" using reindex_tree_spec [OF s1(2)] by blast
    have "contents (fq s2) = map (take (nat idx)) (contents (fq st))" using s1(5) s2(6) len by simp
    moreover have "contents (fq o2) = map2 (\<lambda>v w. drop (nat idx) v @ w) (contents (fq st)) (contents (fq other))"
    proof (rule nth_equalityI)
      fix i assume "i < length (contents (fq o2))"
      then have i: "i < Blocks st" using o2(4) s(4) by simp
      have "length (contents (fq st) ! i) = nat (fq_size (fq st))" using len i by simp
      then show "contents (fq o2) ! i = map2 (\<lambda>v w. drop (nat idx) v @ w) (contents (fq st)) (contents (fq other)) ! i"
        using i B o2(6) s(6) idx by (simp add: nat_diff_distrib)
    qed (simp add: o2(4) s(4) B)
    ultimately show ?thesis using run s o2 s1 s2 by auto
  qed (simp add: run)
qed

lemma mergeWith_spec:
  assumes ok: "st_ok ty st" "st_ok ty other" and B: "Blocks other = Blocks st"
    and room: "fq_size (fq other) + fq_size (fq st) \<le> max_capacity ty"
  shows "mergeWith ty st other = Inl PackedOOM
    \<or> (\<exists>o'. mergeWith ty st other = Inr o' \<and> st_ok ty o' \<and> fq_ok (params ty) (fq o') \<and> Blocks o' = Blocks st
         \<and> fq_size (fq o') = fq_size (fq other) + fq_size (fq st)
         \<and> contents (fq o') = map2 (@) (contents (fq other)) (contents (fq st)))"
proof -
  let ?k = "fq_size (fq other)" and ?n = "fq_size (fq st)"
  have run: "mergeWith ty st other = bindR (insertSpace ty ?k ?n other) (\<lambda>o'. bindR (copyTo st o' 0 ?n ?k) (reindex_tree ty))"
    by (simp add: mergeWith_def Let_def)
  have n: "0 \<le> ?n" "0 \<le> ?k" "0 + ?n \<le> ?n" using st_okD(3) ok by simp_all
  show ?thesis using copy_into_gap_spec [OF ok B order_refl n(1,3,2) order_refl room]
  proof (elim disjE exE conjE)
    fix s o1 assume s: "insertSpace ty ?k ?n other = Inr s" "copyTo st s 0 ?n ?k = Inr o1" "st_ok ty o1" "Blocks o1 = Blocks st"
      "fq_size (fq o1) = ?k + ?n"
      "contents (fq o1) = map2 (\<lambda>w v. take (nat ?k) w @ take (nat ?n) (drop (nat 0) v) @ drop (nat ?k) w) (contents (fq other)) (contents (fq st))"
    have "contents (fq o1) = map2 (@) (contents (fq other)) (contents (fq st))"
      unfolding s(6) using contents_length [OF ok(1)] contents_length [OF ok(2)] B by (intro nth_equalityI) auto
    then show ?thesis using run s reindex_tree_spec [OF s(3)] by auto
  qed (simp add: run)
qed

section \<open>Properties of the updates\<close>

definition demo_ty :: "int fq_types" where
  "demo_ty = \<lparr>BranchingFactorLog2 = 1, ValuesPerBranchLog2 = 1, IndexSize = 8, ValueSize = 4, Stale = (\<lambda>i. 77 + int i)\<rparr>"

definition demo_root :: pkd_alloc where
  "demo_root = \<lparr>allocator_offset = 0, pa_block_size = 408, layout = [0, 0, 0, 0], bitmap = [0], area = replicate 360 9\<rparr>"

text \<open>An empty tree of two blocks in an allocator, and the same tree after five rows have been inserted.\<close>

definition demo_new :: "pkd_error + int pkd_fqtree" where
  "demo_new = bindR (block_size_fq demo_ty 2 0) (\<lambda>sz.
     bindR (allocate [demo_root] 0 sz ALLOCATABLE) (\<lambda>((n, off), ch).
       init_fq demo_ty 2 0 (\<lparr>allocator_offset = buffer_offset + layout_size demo_root + bitmap_size demo_root + off,
         pa_block_size = n, layout = [], bitmap = [], area = []\<rparr> # ch)))"

definition demo_empty :: "int pkd_fqtree" where
  "demo_empty = projr demo_new"

definition demo_five :: "int pkd_fqtree" where
  "demo_five = projr (insert_entries demo_ty 0 5 (\<lambda>b c. 10 * int b + int c) True demo_empty)"

lemma demo_runs:
  "\<not> isl demo_new" "\<not> isl (insert_entries demo_ty 0 5 (\<lambda>b c. 10 * int b + int c) True demo_empty)"
  by code_simp+

lemma demo_empty_ok: "st_ok demo_ty demo_empty"
  by code_simp

lemma demo_five_ok: "st_ok demo_ty demo_five"
  by code_simp

lemma demo_five_contents: "contents (fq demo_five) = [[0, 1, 2, 3, 4], [10, 11, 12, 13, 14]]"
  by code_simp

text \<open>
  C12: Inserting and removing rows are insertion and removal in lists. In a tree whose arrays fit the segments
  of a well-formed allocator chain, \<open>insert_entries\<close> at any position either reports exhausted memory or
  yields a tree whose block \<open>b\<close> holds the old values with the new ones in between, whatever the new memory
  held; \<open>remove\<close> of any range always succeeds and yields the old values without the range. In both cases the
  invariant holds again and the index is the index of the new values, so that sums and searches are right.
\<close>

theorem updates_refine_lists:
  assumes "st_ok ty st" "0 \<le> idx" "idx \<le> fq_size (fq st)" "0 \<le> n"
    and "fq_size (fq st) + n \<le> 2 ^ (ValuesPerBranchLog2 ty + BranchingFactorLog2 ty * 7)"
    and "0 \<le> start" "start \<le> end" "end \<le> fq_size (fq st)"
  shows "(insert_entries ty idx n f True st = Inl PackedOOM
      \<or> (\<exists>st'. insert_entries ty idx n f True st = Inr st' \<and> st_ok ty st' \<and> fq_ok (params ty) (fq st')
           \<and> contents (fq st') = map2 (\<lambda>v e. take (nat idx) v @ e @ drop (nat idx) v) (contents (fq st)) (rows n (Blocks st) f)))
    \<and> (\<exists>st'. remove_fq ty start end st = Inr st' \<and> st_ok ty st' \<and> fq_ok (params ty) (fq st')
           \<and> contents (fq st') = map (\<lambda>v. take (nat start) v @ drop (nat end) v) (contents (fq st)))"
proof -
  have cap: "fq_size (fq st) + n \<le> max_capacity ty" using assms(5) by (simp add: params_def)
  show ?thesis using insert_entries_spec [OF assms(1-4) cap, of f] remove_fq_spec [OF assms(1,6-8)] by blast
qed

theorem updates_refine_lists_witness:
  "(\<exists>st'. insert_entries demo_ty 2 2 (\<lambda>b c. 100 + int b) True demo_five = Inr st' \<and> fq_ok (params demo_ty) (fq st')
      \<and> contents (fq st') = [[0, 1, 100, 100, 2, 3, 4], [10, 11, 101, 101, 12, 13, 14]])
   \<and> (\<exists>st'. remove_fq demo_ty 1 4 demo_five = Inr st' \<and> contents (fq st') = [[0, 4], [10, 14]])"
proof -
  have sz: "fq_size (fq demo_five) = 5" by code_simp
  have cap: "fq_size (fq demo_five) + 2 \<le> 2 ^ (ValuesPerBranchLog2 demo_ty + BranchingFactorLog2 demo_ty * 7)"
    unfolding sz by (simp add: demo_ty_def)
  have run: "\<not> isl (insert_entries demo_ty 2 2 (\<lambda>b c. 100 + int b) True demo_five)" by code_simp
  have rows: "rows 2 (Blocks demo_five) (\<lambda>b c. 100 + int b) = [[100, 100], [101, 101]]" by code_simp
  show ?thesis
    using updates_refine_lists [OF demo_five_ok _ _ _ cap, of 2 1 4 "\<lambda>b c. 100 + int b"] run sz
    unfolding rows demo_five_contents by (auto simp: numeral_nat)
qed

text \<open>
  C15: Splitting a tree and merging the parts restores it. \<open>splitTo\<close> into an empty tree either reports exhausted
  memory or leaves the values before the split position here and those from it on in the other tree,
  both with their index up to date; \<open>mergeWith\<close> of the two parts then gives back the contents of the
  original tree, or reports exhausted memory.
\<close>

theorem splitTo_mergeWith:
  assumes "st_ok ty st" "st_ok ty other" "Blocks other = Blocks st" "fq_size (fq other) = 0" "0 \<le> idx" "idx < fq_size (fq st)"
  shows "splitTo ty idx st other = Inl PackedOOM
    \<or> (\<exists>st' other'. splitTo ty idx st other = Inr (st', other') \<and> fq_ok (params ty) (fq st') \<and> fq_ok (params ty) (fq other')
         \<and> contents (fq st') = map (take (nat idx)) (contents (fq st))
         \<and> contents (fq other') = map (drop (nat idx)) (contents (fq st))
         \<and> (mergeWith ty other' st' = Inl PackedOOM
            \<or> (\<exists>r. mergeWith ty other' st' = Inr r \<and> st_ok ty r \<and> fq_ok (params ty) (fq r) \<and> contents (fq r) = contents (fq st))))"
proof -
  note st = st_okD(4,5) [OF assms(1)]
  have room: "fq_size (fq other) + (fq_size (fq st) - idx) \<le> max_capacity ty" using st assms(4,5) by simp
  from splitTo_spec [OF assms(1-3,5,6) room] show ?thesis
  proof (elim disjE exE conjE)
    fix s o' assume s: "splitTo ty idx st other = Inr (s, o')" "st_ok ty s" "st_ok ty o'" "fq_ok (params ty) (fq s)" "fq_ok (params ty) (fq o')"
      "Blocks s = Blocks st" "Blocks o' = Blocks st" "fq_size (fq s) = idx" "fq_size (fq o') = fq_size (fq other) + (fq_size (fq st) - idx)"
      "contents (fq s) = map (take (nat idx)) (contents (fq st))"
      "contents (fq o') = map2 (\<lambda>v w. drop (nat idx) v @ w) (contents (fq st)) (contents (fq other))"
    have "contents (fq other) ! b = []" if "b < Blocks st" for b
      using contents_length [OF assms(2), of "contents (fq other) ! b"] assms(3,4) that by simp
    then have o': "contents (fq o') = map (drop (nat idx)) (contents (fq st))"
      unfolding s(11) using assms(3) by (intro nth_equalityI) simp_all
    have both: "map2 (@) (contents (fq s)) (contents (fq o')) = contents (fq st)"
      unfolding s(10) o' by (intro nth_equalityI) auto
    have B: "Blocks s = Blocks o'" "fq_size (fq s) + fq_size (fq o') \<le> max_capacity ty" using s(6-9) assms(4) st by simp_all
    show ?thesis using mergeWith_spec [OF s(3,2) B] s(1,4,5,10) o' unfolding both by auto
  qed simp
qed

theorem splitTo_mergeWith_witness:
  "\<exists>st' other' r. splitTo demo_ty 2 demo_five demo_empty = Inr (st', other') \<and> contents (fq st') = [[0, 1], [10, 11]]
    \<and> contents (fq other') = [[2, 3, 4], [12, 13, 14]] \<and> mergeWith demo_ty other' st' = Inr r
    \<and> contents (fq r) = [[0, 1, 2, 3, 4], [10, 11, 12, 13, 14]]"
proof -
  have sz: "Blocks demo_empty = Blocks demo_five" "fq_size (fq demo_empty) = 0" "2 < fq_size (fq demo_five)" by code_simp+
  have run: "\<not> isl (splitTo demo_ty 2 demo_five demo_empty)"
    "\<not> isl (bindR (splitTo demo_ty 2 demo_five demo_empty) (\<lambda>(s, o'). mergeWith demo_ty o' s))" by code_simp+
  show ?thesis
    using splitTo_mergeWith [OF demo_five_ok demo_empty_ok sz(1,2) _ sz(3)] run unfolding demo_five_contents
    by (auto simp: numeral_nat)
qed

end
