(* ===== verification/Snapshots.thy ===== *)
theory Snapshots
  imports PTree "HOL-Library.AList"
begin

text \<open>
  The snapshots of the in-memory store and their life cycle: the history tree of \<open>HistoryNode\<close> objects, the snapshot
  map, the named branches and the master of \<open>MemoryStoreBase\<close> (\<^verbatim>\<open>store/memory/common/store_base.hpp\<close>), the operations
  of \<open>ThreadsMemoryStoreImpl\<close> (\<^verbatim>\<open>store/memory/threads/threads_memory_store_impl.hpp\<close>) and of the snapshot objects,
  \<open>SnapshotBase\<close> and \<open>ThreadsSnapshot\<close> (\<^verbatim>\<open>snapshot_base.hpp\<close>, \<^verbatim>\<open>threads_snapshot_impl.hpp\<close>).

  A history node is an object in the heap \<open>h_nodes\<close>; \<open>new\<close> takes the next address, \<open>delete\<close> removes the object, so
  that a pointer to it is recognised as dangling. Of the tree of blocks a node refers to, only its presence is
  kept here (\<open>h_root\<close>: \<open>root_ != nullptr\<close>); the trees themselves are the subject of PTree. A snapshot object
  is the address of its history node. Operations run under the mutexes the code takes; the destructor, which
  releases its lock between deciding and deleting, is made of separate steps. A random snapshot identifier is an
  argument. The results of container operations (\<open>flush\<close>, the number of open containers) are arguments.

  Errors: \<open>Refused\<close> is an error result with its message, \<open>Undef\<close> is an access through a null or dangling pointer.
\<close>

section \<open>State\<close>

datatype hist_error = Refused string | Undef

record hist_node =
  h_parent :: "nat option"
  h_children :: "nat list"
  h_root :: bool
  h_status :: SnapshotStatus
  h_snapshot_id :: nat
  h_references :: int
  h_metadata :: string

record hist_store =
  h_nodes :: "nat \<Rightarrow> hist_node option"
  h_next :: nat
  history_tree :: nat
  master_node :: nat
  snapshot_map :: "nat \<Rightarrow> nat option"
  named_branches :: "(string \<times> nat) list"
  active_snapshots :: int

definition deref :: "hist_store \<Rightarrow> nat \<Rightarrow> hist_error + hist_node" where
  "deref s a = (case h_nodes s a of None \<Rightarrow> Inl Undef | Some n \<Rightarrow> Inr n)"

definition set_node :: "hist_store \<Rightarrow> nat \<Rightarrow> hist_node \<Rightarrow> hist_store" where
  "set_node s a n = s\<lparr>h_nodes := (h_nodes s)(a \<mapsto> n)\<rparr>"

definition delete_node :: "hist_store \<Rightarrow> nat \<Rightarrow> hist_store" where
  "delete_node s a = s\<lparr>h_nodes := (h_nodes s)(a := None)\<rparr>"

definition update_node :: "(hist_node \<Rightarrow> hist_node) \<Rightarrow> hist_store \<Rightarrow> nat \<Rightarrow> hist_error + hist_store" where
  "update_node f s a = bindR (deref s a) (\<lambda>n. Inr (set_node s a (f n)))"

definition ref_active :: "hist_store \<Rightarrow> hist_store" where
  "ref_active s = s\<lparr>active_snapshots := active_snapshots s + 1\<rparr>"

definition unref_active :: "hist_store \<Rightarrow> hist_store" where
  "unref_active s = s\<lparr>active_snapshots := active_snapshots s - 1\<rparr>"

definition remove_child :: "nat \<Rightarrow> hist_node \<Rightarrow> hist_node" where
  "remove_child child n = n\<lparr>h_children := remove1 child (h_children n)\<rparr>"

definition remove_from_parent :: "hist_store \<Rightarrow> nat \<Rightarrow> hist_error + hist_store" where
  "remove_from_parent s a =
     bindR (deref s a) (\<lambda>n. case h_parent n of None \<Rightarrow> Inr s | Some p \<Rightarrow> update_node (remove_child a) s p)"

text \<open>\<open>HistoryNode(HistoryNode* parent)\<close>: a new active node, appended to the children of its parent.\<close>

definition new_history_node :: "hist_store \<Rightarrow> nat \<Rightarrow> nat \<Rightarrow> hist_error + (nat \<times> hist_store)" where
  "new_history_node s parent sid =
     (let a = h_next s;
          n = \<lparr>h_parent = Some parent, h_children = [], h_root = False, h_status = ACTIVE, h_snapshot_id = sid,
               h_references = 0, h_metadata = ''''\<rparr>
      in bindR (update_node (\<lambda>n. n\<lparr>h_children := h_children n @ [a]\<rparr>) (s\<lparr>h_next := a + 1\<rparr>) parent) (\<lambda>s.
           Inr (a, set_node s a n)))"

section \<open>Snapshot objects\<close>

text \<open>The constructor of \<open>PersistentTree\<close>: an active snapshot with a parent starts from a copy of the parent's root.\<close>

definition persistent_tree_init :: "hist_store \<Rightarrow> nat \<Rightarrow> hist_error + hist_store" where
  "persistent_tree_init s a =
     bindR (deref s a) (\<lambda>n.
       if h_status n = ACTIVE then
         (case h_parent n of
            Some p \<Rightarrow>
              bindR (deref s p) (\<lambda>pn.
                if h_status pn \<noteq> COMMITTED then Inl (Refused ''parent is not committed'')
                else if \<not> h_root pn then Inl Undef
                else Inr (set_node s a (n\<lparr>h_root := True\<rparr>)))
          | None \<Rightarrow> if \<not> h_root n then Inl (Refused ''root is null'') else Inr s)
       else Inr s)"

definition open_snapshot :: "hist_store \<Rightarrow> nat \<Rightarrow> hist_error + hist_store" where
  "open_snapshot s a =
     bindR (persistent_tree_init s a) (\<lambda>s.
     bindR (update_node (\<lambda>n. n\<lparr>h_references := h_references n + 1\<rparr>) s a) (\<lambda>s.
     bindR (deref s a) (\<lambda>n. Inr (if h_status n = ACTIVE then ref_active s else s))))"

definition commit :: "hist_store \<Rightarrow> nat \<Rightarrow> bool \<Rightarrow> hist_error + hist_store" where
  "commit s a flushed =
     bindR (deref s a) (\<lambda>n.
       if h_status n = ACTIVE \<or> h_status n = DATA_LOCKED then
         if \<not> flushed then Inl (Refused ''flush'')
         else Inr (unref_active (set_node s a (n\<lparr>h_status := COMMITTED\<rparr>)))
       else Inl (Refused ''invalid state''))"

text \<open>The loop of \<open>adjust_named_references\<close>; \<open>None\<close> is a dangling parent pointer or a loop that does not end.\<close>

partial_function (option) committed_from :: "hist_store \<Rightarrow> nat option \<Rightarrow> nat option option" where
  "committed_from s p =
     (case p of None \<Rightarrow> Some None
      | Some a \<Rightarrow>
          (case h_nodes s a of None \<Rightarrow> None
           | Some n \<Rightarrow> if h_status n \<noteq> COMMITTED then committed_from s (h_parent n) else Some (Some a)))"

declare committed_from.simps [code]

definition adjust_named_references :: "hist_store \<Rightarrow> nat \<Rightarrow> hist_error + hist_store" where
  "adjust_named_references s a =
     bindR (deref s a) (\<lambda>n.
       case committed_from s (h_parent n) of
         None \<Rightarrow> Inl Undef
       | Some None \<Rightarrow> Inr s
       | Some (Some p) \<Rightarrow>
           Inr (s\<lparr>named_branches := map (\<lambda>(name, b). (name, if b = a then p else b)) (named_branches s),
                  master_node := (if master_node s = a then p else master_node s)\<rparr>))"

definition drop_snapshot :: "hist_store \<Rightarrow> nat \<Rightarrow> hist_error + hist_store" where
  "drop_snapshot s a =
     bindR (deref s a) (\<lambda>n.
       if h_parent n \<noteq> None then
         let s = (if h_status n = ACTIVE then unref_active s else s) in
         bindR (if h_status n = COMMITTED then adjust_named_references s a else Inr s) (\<lambda>s.
           update_node (\<lambda>n. n\<lparr>h_status := DROPPED\<rparr>) s a)
       else Inl (Refused ''can not drop the root snapshot''))"

definition set_snapshot_metadata :: "hist_store \<Rightarrow> nat \<Rightarrow> string \<Rightarrow> hist_error + hist_store" where
  "set_snapshot_metadata s a metadata =
     bindR (deref s a) (\<lambda>n.
       if h_status n = ACTIVE then Inr (set_node s a (n\<lparr>h_metadata := metadata\<rparr>))
       else Inl (Refused ''already committed''))"

definition lock_data_for_import :: "hist_store \<Rightarrow> nat \<Rightarrow> bool \<Rightarrow> hist_error + hist_store" where
  "lock_data_for_import s a has_open_containers =
     bindR (deref s a) (\<lambda>n.
       if h_status n = ACTIVE then
         if \<not> has_open_containers then Inr (set_node s a (n\<lparr>h_status := DATA_LOCKED\<rparr>))
         else Inl (Refused ''open containers'')
       else if h_status n = DATA_LOCKED then Inr s
       else Inl (Refused ''invalid state''))"

definition branch_snapshot :: "hist_store \<Rightarrow> nat \<Rightarrow> nat \<Rightarrow> hist_error + (nat \<times> hist_store)" where
  "branch_snapshot s a sid =
     bindR (deref s a) (\<lambda>n.
       if h_status n = COMMITTED then
         bindR (new_history_node s a sid) (\<lambda>(b, s).
           bindR (open_snapshot (s\<lparr>snapshot_map := (snapshot_map s)(sid \<mapsto> b)\<rparr>) b) (\<lambda>s. Inr (b, s)))
       else if h_status n = DATA_LOCKED then Inl (Refused ''locked'')
       else Inl (Refused ''still active''))"

definition has_parent :: "hist_store \<Rightarrow> nat \<Rightarrow> hist_error + bool" where
  "has_parent s a = bindR (deref s a) (\<lambda>n. Inr (h_parent n \<noteq> None))"

definition open_parent :: "hist_store \<Rightarrow> nat \<Rightarrow> hist_error + (nat \<times> hist_store)" where
  "open_parent s a =
     bindR (deref s a) (\<lambda>n.
       case h_parent n of
         Some p \<Rightarrow> bindR (open_snapshot s p) (\<lambda>s. Inr (p, s))
       | None \<Rightarrow> Inl (Refused ''no parent''))"

text \<open>
  The destructor. Under the lock of the snapshot it decides what is to be deleted; after that, without the lock, it
  deletes the tree of blocks and, for a snapshot that was never committed, the history node.
\<close>

datatype release_action = Keep | Drop1 | Drop2

definition release_snapshot :: "hist_store \<Rightarrow> nat \<Rightarrow> hist_error + (release_action \<times> hist_store)" where
  "release_snapshot s a =
     bindR (deref s a) (\<lambda>n.
       let r = h_references n - 1; s = set_node s a (n\<lparr>h_references := r\<rparr>) in
       if r = 0 then
         if h_status n = ACTIVE then Inr (Drop1, unref_active s)
         else if h_status n = DROPPED then Inr (Drop2, s)
         else Inr (Keep, s)
       else Inr (Keep, s))"

definition do_drop :: "hist_store \<Rightarrow> nat \<Rightarrow> hist_error + hist_store" where
  "do_drop s a =
     bindR (deref s a) (\<lambda>n. if h_root n then Inr (set_node s a (n\<lparr>h_root := False\<rparr>)) else Inl Undef)"

definition forget_snapshot :: "hist_store \<Rightarrow> nat \<Rightarrow> hist_error + hist_store" where
  "forget_snapshot s a =
     bindR (deref s a) (\<lambda>n.
       bindR (remove_from_parent (s\<lparr>snapshot_map := (snapshot_map s)(h_snapshot_id n := None)\<rparr>) a) (\<lambda>s.
         Inr (delete_node s a)))"

definition destroy_snapshot :: "hist_store \<Rightarrow> nat \<Rightarrow> hist_error + hist_store" where
  "destroy_snapshot s a =
     bindR (release_snapshot s a) (\<lambda>(act, s).
       case act of
         Keep \<Rightarrow> Inr s
       | Drop1 \<Rightarrow> bindR (do_drop s a) (\<lambda>s. forget_snapshot s a)
       | Drop2 \<Rightarrow> do_drop s a)"

section \<open>Operations of the store\<close>

text \<open>The constructors: a root node with an empty tree, opened, committed and released.\<close>

definition base_store :: "nat \<Rightarrow> hist_store" where
  "base_store sid =
     \<lparr>h_nodes = [0 \<mapsto> \<lparr>h_parent = None, h_children = [], h_root = True, h_status = ACTIVE, h_snapshot_id = sid,
                      h_references = 0, h_metadata = ''''\<rparr>],
      h_next = 1, history_tree = 0, master_node = 0, snapshot_map = [sid \<mapsto> 0], named_branches = [], active_snapshots = 0\<rparr>"

definition new_store :: "nat \<Rightarrow> hist_error + hist_store" where
  "new_store sid =
     bindR (open_snapshot (base_store sid) 0) (\<lambda>s. bindR (commit s 0 True) (\<lambda>s. destroy_snapshot s 0))"

definition find_node :: "hist_store \<Rightarrow> nat \<Rightarrow> hist_error + nat" where
  "find_node s sid = (case snapshot_map s sid of None \<Rightarrow> Inl (Refused ''unknown snapshot'') | Some a \<Rightarrow> Inr a)"

definition find_snapshot :: "hist_store \<Rightarrow> nat \<Rightarrow> hist_error + (nat \<times> hist_store)" where
  "find_snapshot s sid =
     bindR (find_node s sid) (\<lambda>a. bindR (deref s a) (\<lambda>n.
       if h_status n = COMMITTED then bindR (open_snapshot s a) (\<lambda>s. Inr (a, s))
       else if h_status n = DATA_LOCKED then Inl (Refused ''locked'')
       else Inl (Refused (if h_status n = ACTIVE then ''active'' else ''dropped''))))"

definition find_branch :: "hist_store \<Rightarrow> string \<Rightarrow> hist_error + (nat \<times> hist_store)" where
  "find_branch s name =
     (case map_of (named_branches s) name of
        None \<Rightarrow> Inl (Refused ''unknown branch'')
      | Some a \<Rightarrow>
          bindR (deref s a) (\<lambda>n.
            if h_status n = COMMITTED then bindR (open_snapshot s a) (\<lambda>s. Inr (a, s))
            else if h_status n = DATA_LOCKED then
              if h_references n = 0 then bindR (open_snapshot s a) (\<lambda>s. Inr (a, s))
              else Inl (Refused ''locked and open'')
            else Inl (Refused (if h_status n = ACTIVE then ''active'' else ''dropped''))))"

definition open_master :: "hist_store \<Rightarrow> hist_error + (nat \<times> hist_store)" where
  "open_master s = bindR (open_snapshot s (master_node s)) (\<lambda>t. Inr (master_node s, t))"

definition set_master :: "hist_store \<Rightarrow> nat \<Rightarrow> hist_error + hist_store" where
  "set_master s sid =
     bindR (find_node s sid) (\<lambda>a. bindR (deref s a) (\<lambda>n.
       if h_status n = COMMITTED then Inr (s\<lparr>master_node := a\<rparr>)
       else if h_status n = DATA_LOCKED then Inr (s\<lparr>master_node := a\<rparr>)
       else if h_status n = DROPPED then Inl (Refused ''dropped'')
       else Inl (Refused ''not committed'')))"

definition set_branch :: "hist_store \<Rightarrow> string \<Rightarrow> nat \<Rightarrow> hist_error + hist_store" where
  "set_branch s name sid =
     bindR (find_node s sid) (\<lambda>a. bindR (deref s a) (\<lambda>n.
       if h_status n = COMMITTED then Inr (s\<lparr>named_branches := AList.update name a (named_branches s)\<rparr>)
       else if h_status n = DATA_LOCKED then Inr (s\<lparr>named_branches := AList.update name a (named_branches s)\<rparr>)
       else Inl (Refused ''not committed'')))"

definition remove_named_branch :: "hist_store \<Rightarrow> string \<Rightarrow> hist_store" where
  "remove_named_branch s name = s\<lparr>named_branches := AList.delete name (named_branches s)\<rparr>"

definition children_of :: "hist_store \<Rightarrow> nat \<Rightarrow> hist_error + nat list" where
  "children_of s sid =
     (case snapshot_map s sid of
        None \<Rightarrow> Inr []
      | Some a \<Rightarrow> bindR (deref s a) (\<lambda>n.
          foldR (\<lambda>ids c. bindR (deref s c) (\<lambda>cn. Inr (ids @ [h_snapshot_id cn]))) [] (h_children n)))"

definition snapshot_status :: "hist_store \<Rightarrow> nat \<Rightarrow> hist_error + SnapshotStatus" where
  "snapshot_status s sid = bindR (find_node s sid) (\<lambda>a. bindR (deref s a) (\<lambda>n. Inr (h_status n)))"

definition snapshot_parent :: "hist_store \<Rightarrow> nat \<Rightarrow> hist_error + nat option" where
  "snapshot_parent s sid =
     bindR (find_node s sid) (\<lambda>a. bindR (deref s a) (\<lambda>n.
       case h_parent n of None \<Rightarrow> Inr None | Some p \<Rightarrow> bindR (deref s p) (\<lambda>pn. Inr (Some (h_snapshot_id pn)))))"

definition snapshot_description :: "hist_store \<Rightarrow> nat \<Rightarrow> hist_error + string" where
  "snapshot_description s sid = bindR (find_node s sid) (\<lambda>a. bindR (deref s a) (\<lambda>n. Inr (h_metadata n)))"

definition branch_names :: "hist_store \<Rightarrow> string list" where
  "branch_names s = map fst (named_branches s)"

definition branch_head :: "hist_store \<Rightarrow> string \<Rightarrow> hist_error + nat option" where
  "branch_head s name =
     (case map_of (named_branches s) name of
        None \<Rightarrow> Inr None
      | Some a \<Rightarrow> bindR (deref s a) (\<lambda>n. Inr (Some (h_snapshot_id n))))"

text \<open>
  \<open>walk_linear_history\<close>: the identifiers of the nodes from \<open>start_id\<close> up to and without \<open>stop_id\<close>; \<open>None\<close> is a
  dangling pointer or a loop that does not end.
\<close>

partial_function (option) linear_from :: "hist_store \<Rightarrow> nat \<Rightarrow> nat option \<Rightarrow> nat list \<Rightarrow> nat list option" where
  "linear_from s stop_id current ids =
     (case current of None \<Rightarrow> Some ids
      | Some a \<Rightarrow>
          (case h_nodes s a of None \<Rightarrow> None
           | Some n \<Rightarrow>
               if h_snapshot_id n \<noteq> stop_id then linear_from s stop_id (h_parent n) (ids @ [h_snapshot_id n])
               else Some ids))"

declare linear_from.simps [code]

definition linear_history :: "hist_store \<Rightarrow> nat \<Rightarrow> nat \<Rightarrow> hist_error + nat list" where
  "linear_history s start_id stop_id =
     bindR (find_node s start_id) (\<lambda>a.
       case linear_from s stop_id (Some a) [] of None \<Rightarrow> Inl Undef | Some ids \<Rightarrow> Inr (rev ids))"

section \<open>Packing the history\<close>

definition do_remove_history_node :: "hist_store \<Rightarrow> nat \<Rightarrow> hist_error + hist_store" where
  "do_remove_history_node s a =
     bindR (deref s a) (\<lambda>n.
       case h_children n of
         [] \<Rightarrow> bindR (remove_from_parent s a) (\<lambda>s. Inr (delete_node s a))
       | [child] \<Rightarrow>
           bindR (remove_from_parent s a) (\<lambda>s.
             let s = delete_node s a in
             case h_parent n of
               None \<Rightarrow> Inl Undef
             | Some p \<Rightarrow>
                 bindR (update_node (\<lambda>pn. pn\<lparr>h_children := h_children pn @ [child]\<rparr>) s p) (\<lambda>s.
                   update_node (\<lambda>cn. cn\<lparr>h_parent := Some p\<rparr>) s child))
       | _ \<Rightarrow> Inr s)"

text \<open>The recursion of \<open>do_pack(node, depth, branches)\<close>; the first argument bounds its depth.\<close>

primrec do_pack_node :: "nat \<Rightarrow> nat list \<Rightarrow> hist_store \<Rightarrow> nat \<Rightarrow> hist_error + hist_store" where
  "do_pack_node 0 branches s a = Inl Undef"
| "do_pack_node (Suc d) branches s a =
     bindR (deref s a) (\<lambda>n.
     bindR (foldR (do_pack_node d branches) s (h_children n)) (\<lambda>s.
     bindR (deref s a) (\<lambda>n.
       if \<not> h_root n \<and> h_references n = 0 \<and> a \<notin> set branches then do_remove_history_node s a
       else Inr s)))"

definition pack_branch :: "hist_store \<Rightarrow> string \<times> nat \<Rightarrow> hist_error + hist_store" where
  "pack_branch s branch =
     bindR (deref s (snd branch)) (\<lambda>n.
       if \<not> h_root n \<and> h_references n = 0 then do_remove_history_node s (snd branch) else Inr s)"

definition pack_store :: "hist_store \<Rightarrow> hist_error + hist_store" where
  "pack_store s =
     bindR (do_pack_node (h_next s) (map snd (named_branches s)) s (history_tree s)) (\<lambda>s.
       foldR pack_branch s (named_branches s))"

text \<open>\<open>store(output, 0)\<close> waits until no snapshot is active; \<open>None\<close> is a call that is still waiting.\<close>

definition store_to :: "hist_store \<Rightarrow> (hist_error + hist_store) option" where
  "store_to s = (if active_snapshots s = 0 then Some (pack_store s) else None)"

end
