(* ===== verification/Snapshot_Laws.thy ===== *)
theory Snapshot_Laws
  imports Snapshots
begin

text \<open>
  The life cycle of snapshots as a transition system. A state is the store with the list of the snapshot objects
  alive; a step is one operation of the store or of a snapshot object that succeeds. The invariant of the
  reachable states, by rule induction, has four parts: the history is a tree, every node is in the snapshot map,
  the reference counts are the numbers of snapshot objects, and the branch heads are usable.
\<close>

declare bindR_simps [simp]

section \<open>The transition system\<close>

inductive step :: "hist_store \<times> nat list \<Rightarrow> hist_store \<times> nat list \<Rightarrow> bool" where
  Commit: "a \<in> set hs \<Longrightarrow> commit s a flushed = Inr t \<Longrightarrow> step (s, hs) (t, hs)"
| Drop: "a \<in> set hs \<Longrightarrow> drop_snapshot s a = Inr t \<Longrightarrow> step (s, hs) (t, hs)"
| Metadata: "a \<in> set hs \<Longrightarrow> set_snapshot_metadata s a m = Inr t \<Longrightarrow> step (s, hs) (t, hs)"
| Lock: "a \<in> set hs \<Longrightarrow> lock_data_for_import s a opened = Inr t \<Longrightarrow> step (s, hs) (t, hs)"
| Branch: "a \<in> set hs \<Longrightarrow> snapshot_map s sid = None \<Longrightarrow> branch_snapshot s a sid = Inr (b, t) \<Longrightarrow> step (s, hs) (t, b # hs)"
| Parent: "a \<in> set hs \<Longrightarrow> open_parent s a = Inr (b, t) \<Longrightarrow> step (s, hs) (t, b # hs)"
| Destroy: "a \<in> set hs \<Longrightarrow> destroy_snapshot s a = Inr t \<Longrightarrow> step (s, hs) (t, remove1 a hs)"
| Find: "find_snapshot s sid = Inr (b, t) \<Longrightarrow> step (s, hs) (t, b # hs)"
| Find_Branch: "find_branch s name = Inr (b, t) \<Longrightarrow> step (s, hs) (t, b # hs)"
| Master: "open_master s = Inr (b, t) \<Longrightarrow> step (s, hs) (t, b # hs)"
| Set_Master: "set_master s sid = Inr t \<Longrightarrow> step (s, hs) (t, hs)"
| Set_Branch: "set_branch s name sid = Inr t \<Longrightarrow> step (s, hs) (t, hs)"
| Remove_Branch: "step (s, hs) (remove_named_branch s name, hs)"
| Pack: "pack_store s = Inr t \<Longrightarrow> step (s, hs) (t, hs)"

inductive reachable :: "hist_store \<times> nat list \<Rightarrow> bool" where
  Init: "new_store sid = Inr s \<Longrightarrow> reachable (s, [])"
| Step: "reachable w \<Longrightarrow> step w w' \<Longrightarrow> reachable w'"

section \<open>The invariant\<close>

definition tree_ok :: "hist_store \<Rightarrow> bool" where
  "tree_ok s \<longleftrightarrow> (\<exists>r. h_nodes s (history_tree s) = Some r \<and> h_parent r = None \<and> h_status r = COMMITTED)
     \<and> (\<forall>a n. h_nodes s a = Some n \<longrightarrow> a < h_next s \<and> distinct (h_children n)
          \<and> (\<forall>c \<in> set (h_children n). \<exists>m. h_nodes s c = Some m \<and> h_parent m = Some a)
          \<and> (case h_parent n of None \<Rightarrow> a = history_tree s
             | Some p \<Rightarrow> p < a \<and> (\<exists>m. h_nodes s p = Some m \<and> a \<in> set (h_children m))))"

definition ids_ok :: "hist_store \<Rightarrow> bool" where
  "ids_ok s \<longleftrightarrow> (\<forall>a n. h_nodes s a = Some n \<longrightarrow> snapshot_map s (h_snapshot_id n) = Some a)"

definition hist_node_ok :: "hist_node \<Rightarrow> bool" where
  "hist_node_ok n \<longleftrightarrow> (h_status n = ACTIVE \<longrightarrow> 0 < h_references n)
     \<and> (h_status n = ACTIVE \<or> h_status n = DATA_LOCKED \<longrightarrow> h_children n = [])
     \<and> (\<not> h_root n \<longrightarrow> h_status n = DROPPED)
     \<and> (h_status n = DROPPED \<longrightarrow> h_references n = 0 \<longrightarrow> \<not> h_root n)"

definition life_ok :: "hist_store \<Rightarrow> nat list \<Rightarrow> bool" where
  "life_ok s hs \<longleftrightarrow> (\<forall>a \<in> set hs. h_nodes s a \<noteq> None)
     \<and> (\<forall>a n. h_nodes s a = Some n \<longrightarrow> h_references n = int (count_list hs a) \<and> hist_node_ok n)"

definition is_open :: "hist_node \<Rightarrow> bool" where
  "is_open n \<longleftrightarrow> h_status n = ACTIVE \<or> h_status n = DATA_LOCKED"

definition open_nodes :: "hist_store \<Rightarrow> nat set" where
  "open_nodes s = {a. \<exists>n. h_nodes s a = Some n \<and> is_open n}"

text \<open>The part of the counter of active snapshots that no open snapshot accounts for.\<close>

definition stuck :: "hist_store \<Rightarrow> int" where
  "stuck s = active_snapshots s - int (card (open_nodes s))"

definition usable :: "hist_store \<Rightarrow> nat \<Rightarrow> bool" where
  "usable s a \<longleftrightarrow> (\<exists>n. h_nodes s a = Some n \<and> (h_status n = COMMITTED \<or> h_status n = DATA_LOCKED))"

abbreviation heads :: "hist_store \<Rightarrow> nat set" where
  "heads s \<equiv> insert (master_node s) (snd ` set (named_branches s))"

definition not_active :: "hist_store \<Rightarrow> nat \<Rightarrow> bool" where
  "not_active s a \<longleftrightarrow> a < h_next s \<and> (\<forall>n. h_nodes s a = Some n \<longrightarrow> h_status n \<noteq> ACTIVE)"

definition heads_ok :: "hist_store \<Rightarrow> bool" where
  "heads_ok s \<longleftrightarrow> 0 \<le> stuck s \<and> (\<forall>a \<in> heads s. not_active s a) \<and> (stuck s = 0 \<longrightarrow> (\<forall>a \<in> heads s. usable s a))"

definition hist_inv :: "hist_store \<times> nat list \<Rightarrow> bool" where
  "hist_inv w \<longleftrightarrow> tree_ok (fst w) \<and> ids_ok (fst w) \<and> life_ok (fst w) (snd w) \<and> heads_ok (fst w)"

lemma tree_okD:
  assumes "tree_ok s" "h_nodes s a = Some n"
  shows "a < h_next s" "distinct (h_children n)" "c \<in> set (h_children n) \<Longrightarrow> \<exists>m. h_nodes s c = Some m \<and> h_parent m = Some a"
    and "h_parent n = None \<Longrightarrow> a = history_tree s"
    and "h_parent n = Some p \<Longrightarrow> p < a \<and> (\<exists>m. h_nodes s p = Some m \<and> a \<in> set (h_children m))"
proof -
  have "a < h_next s \<and> distinct (h_children n)
      \<and> (\<forall>c \<in> set (h_children n). \<exists>m. h_nodes s c = Some m \<and> h_parent m = Some a)
      \<and> (case h_parent n of None \<Rightarrow> a = history_tree s
         | Some p \<Rightarrow> p < a \<and> (\<exists>m. h_nodes s p = Some m \<and> a \<in> set (h_children m)))"
    using assms unfolding tree_ok_def by blast
  then show "a < h_next s" "distinct (h_children n)" "c \<in> set (h_children n) \<Longrightarrow> \<exists>m. h_nodes s c = Some m \<and> h_parent m = Some a"
    "h_parent n = None \<Longrightarrow> a = history_tree s"
    "h_parent n = Some p \<Longrightarrow> p < a \<and> (\<exists>m. h_nodes s p = Some m \<and> a \<in> set (h_children m))"
    by auto
qed

lemma tree_ok_root: "tree_ok s \<Longrightarrow> \<exists>r. h_nodes s (history_tree s) = Some r \<and> h_parent r = None \<and> h_status r = COMMITTED"
  by (simp add: tree_ok_def)

lemma usable_not_active: "tree_ok s \<Longrightarrow> usable s a \<Longrightarrow> not_active s a"
  by (auto simp: usable_def not_active_def dest: tree_okD(1))

lemma heads_okD:
  assumes "heads_ok s"
  shows "0 \<le> stuck s" "b \<in> heads s \<Longrightarrow> not_active s b" "stuck s = 0 \<Longrightarrow> b \<in> heads s \<Longrightarrow> usable s b"
  using assms unfolding heads_ok_def by blast+

lemma heads_okI:
  assumes "0 \<le> stuck s" "\<And>b. b \<in> heads s \<Longrightarrow> not_active s b" "\<And>b. stuck s = 0 \<Longrightarrow> b \<in> heads s \<Longrightarrow> usable s b"
  shows "heads_ok s"
  using assms unfolding heads_ok_def by blast

lemma finite_open_nodes: "tree_ok s \<Longrightarrow> finite (open_nodes s)"
  by (rule finite_subset [of _ "{..<h_next s}"]) (auto simp: open_nodes_def dest: tree_okD(1))

section \<open>Changes of one node\<close>

text \<open>Operations that change a node without its links.\<close>

definition same_links :: "hist_node \<Rightarrow> hist_node \<Rightarrow> bool" where
  "same_links n m \<longleftrightarrow> h_parent m = h_parent n \<and> h_children m = h_children n \<and> h_snapshot_id m = h_snapshot_id n"

lemma set_node_simps [simp]:
  "h_nodes (set_node s a n) = (h_nodes s)(a \<mapsto> n)" "h_next (set_node s a n) = h_next s" "history_tree (set_node s a n) = history_tree s"
  "master_node (set_node s a n) = master_node s" "snapshot_map (set_node s a n) = snapshot_map s"
  "named_branches (set_node s a n) = named_branches s" "active_snapshots (set_node s a n) = active_snapshots s"
  by (simp_all add: set_node_def)

lemma tree_ok_cong:
  assumes "h_nodes t = h_nodes s" "h_next t = h_next s" "history_tree t = history_tree s"
  shows "tree_ok t = tree_ok s"
  by (simp only: tree_ok_def assms)

lemma active_simps [simp]:
  "h_nodes (ref_active s) = h_nodes s" "h_nodes (unref_active s) = h_nodes s"
  "active_snapshots (ref_active s) = active_snapshots s + 1" "active_snapshots (unref_active s) = active_snapshots s - 1"
  "master_node (ref_active s) = master_node s" "master_node (unref_active s) = master_node s"
  "named_branches (ref_active s) = named_branches s" "named_branches (unref_active s) = named_branches s"
  "tree_ok (ref_active s) = tree_ok s" "tree_ok (unref_active s) = tree_ok s" "ids_ok (ref_active s) = ids_ok s" "ids_ok (unref_active s) = ids_ok s"
  "open_nodes (ref_active s) = open_nodes s" "open_nodes (unref_active s) = open_nodes s"
  "life_ok (ref_active s) hs = life_ok s hs" "life_ok (unref_active s) hs = life_ok s hs"
  "usable (ref_active s) a = usable s a" "usable (unref_active s) a = usable s a"
  by (rule tree_ok_cong | simp add: ref_active_def unref_active_def ids_ok_def open_nodes_def life_ok_def usable_def)+

lemma deref_Inr [simp]: "deref s a = Inr n \<longleftrightarrow> h_nodes s a = Some n"
  by (auto simp: deref_def split: option.splits)

lemma tree_ok_set_node:
  assumes "tree_ok s" "h_nodes s a = Some n" "same_links n m" "h_parent n = None \<Longrightarrow> h_status m = h_status n"
  shows "tree_ok (set_node s a m)"
  unfolding tree_ok_def
proof (intro conjI allI impI)
  obtain r where r: "h_nodes s (history_tree s) = Some r" "h_parent r = None" "h_status r = COMMITTED"
    using tree_ok_root [OF assms(1)] by blast
  then show "\<exists>r. h_nodes (set_node s a m) (history_tree (set_node s a m)) = Some r \<and> h_parent r = None \<and> h_status r = COMMITTED"
    using assms(2-4) by (cases "a = history_tree s") (auto simp: same_links_def)
next
  fix b k assume b: "h_nodes (set_node s a m) b = Some k"
  obtain l where l: "h_nodes s b = Some l" "h_parent k = h_parent l" "h_children k = h_children l"
    using b assms(2,3) by (cases "b = a") (auto simp: same_links_def)
  note T = tree_okD [OF assms(1) l(1)]
  show "b < h_next (set_node s a m)" using T(1) by simp
  show "distinct (h_children k)" using T(2) l by simp
  show "\<forall>c \<in> set (h_children k). \<exists>x. h_nodes (set_node s a m) c = Some x \<and> h_parent x = Some b"
    using T(3) l assms(2,3) by (fastforce simp: same_links_def)
  show "case h_parent k of None \<Rightarrow> b = history_tree (set_node s a m)
      | Some p \<Rightarrow> p < b \<and> (\<exists>x. h_nodes (set_node s a m) p = Some x \<and> b \<in> set (h_children x))"
    using T(4,5) l assms(2,3) by (fastforce simp: same_links_def split: option.split)
qed

lemma ids_ok_set_node:
  assumes "ids_ok s" "h_nodes s a = Some n" "same_links n m"
  shows "ids_ok (set_node s a m)"
  using assms by (auto simp: ids_ok_def same_links_def)

lemma card_open_set_node:
  assumes "tree_ok s" "h_nodes s a = Some n"
  shows "int (card (open_nodes (set_node s a m))) = int (card (open_nodes s)) - (if is_open n then 1 else 0) + (if is_open m then 1 else 0)"
proof -
  have "open_nodes (set_node s a m) = (if is_open m then insert a (open_nodes s) else open_nodes s - {a})"
    by (auto simp: open_nodes_def)
  moreover have "a \<in> open_nodes s \<longleftrightarrow> is_open n" using assms(2) by (auto simp: open_nodes_def)
  moreover have "0 < card (open_nodes s)" if "is_open n" using that assms finite_open_nodes by (auto simp: card_gt_0_iff open_nodes_def)
  ultimately show ?thesis using finite_open_nodes [OF assms(1)] by (auto simp: card_insert_if card_Diff_singleton_if)
qed

lemma usable_set_node:
  assumes "usable s b" "b = a \<Longrightarrow> h_status m = COMMITTED \<or> h_status m = DATA_LOCKED"
  shows "usable (set_node s a m) b"
  using assms by (auto simp: usable_def)

lemma invD:
  assumes "hist_inv (s, hs)"
  shows "tree_ok s" "ids_ok s" "life_ok s hs" "heads_ok s"
  using assms by (simp_all add: hist_inv_def)

lemma inv_node:
  assumes "hist_inv (s, hs)" "h_nodes s a = Some n"
  shows "h_references n = int (count_list hs a)" "hist_node_ok n"
  using assms by (auto simp: hist_inv_def life_ok_def)

lemma inv_handle:
  assumes "hist_inv (s, hs)" "a \<in> set hs"
  obtains n where "h_nodes s a = Some n" "0 < h_references n"
proof -
  obtain n where n: "h_nodes s a = Some n" using assms by (auto simp: hist_inv_def life_ok_def)
  moreover have "count_list hs a \<noteq> 0" using assms(2) by (simp add: count_list_0_iff)
  ultimately show thesis using inv_node(1) [OF assms(1) n] that by simp
qed

lemma count_list_remove1: "a \<in> set hs \<Longrightarrow> count_list (remove1 a hs) b = count_list hs b - (if b = a then 1 else 0)"
  by (induction hs) (auto simp: count_list_0_iff Suc_diff_le neq0_conv [symmetric] simp del: neq0_conv)

lemma not_root:
  assumes "tree_ok s" "h_nodes s a = Some n" "h_status n \<noteq> COMMITTED"
  shows "h_parent n \<noteq> None" "a \<noteq> history_tree s"
proof -
  show *: "a \<noteq> history_tree s" using assms(2,3) tree_ok_root [OF assms(1)] by auto
  then show "h_parent n \<noteq> None" using tree_okD(4) [OF assms(1,2)] by blast
qed

text \<open>A step to a state that satisfies the invariant and does not give back what the counter has lost.\<close>

definition ok_step :: "hist_store \<Rightarrow> hist_store \<times> nat list \<Rightarrow> bool" where
  "ok_step s w \<longleftrightarrow> hist_inv w \<and> stuck s \<le> stuck (fst w)"

text \<open>
  A step that changes one node, the counter of active snapshots and the snapshot objects of that node keeps the
  invariant when the node stays well formed and the counter does not fall behind.
\<close>

lemma inv_one:
  assumes I: "hist_inv (s, hs)" and n: "h_nodes s a = Some n" and m: "same_links n m" "h_parent n = None \<Longrightarrow> h_status m = h_status n"
    and refs: "h_references m = int (count_list hs' a)" "\<And>b. b \<noteq> a \<Longrightarrow> count_list hs' b = count_list hs b" "set hs' \<subseteq> insert a (set hs)"
    and ok: "hist_node_ok m" "h_status m = ACTIVE \<Longrightarrow> h_status n = ACTIVE"
    and d: "(if is_open m then 1 else 0) - (if is_open n then 1 else 0) \<le> d"
    and heads: "d = (if is_open m then 1 else 0) - (if is_open n then 1 else 0) \<Longrightarrow> stuck s = 0 \<Longrightarrow> a \<in> heads s \<Longrightarrow>
      h_status m = COMMITTED \<or> h_status m = DATA_LOCKED"
    and t: "t = (set_node s a m)\<lparr>active_snapshots := active_snapshots s + d\<rparr>"
  shows "ok_step s (t, hs')"
proof -
  note D = invD [OF I]
  have T: "tree_ok t" using tree_ok_set_node [OF D(1) n m] by (subst tree_ok_cong [where s = "set_node s a m"]) (simp_all add: t)
  have ID: "ids_ok t" using ids_ok_set_node [OF D(2) n m(1)] by (simp add: ids_ok_def t)
  have L: "life_ok t hs'" using D(3) refs ok n unfolding life_ok_def t by auto
  have st: "stuck t = stuck s + d - ((if is_open m then 1 else 0) - (if is_open n then 1 else 0))"
    using card_open_set_node [OF D(1) n, of m] by (simp add: stuck_def t open_nodes_def)
  have "usable t b" if "stuck t = 0" "b \<in> heads t" for b
  proof -
    have s0: "stuck s = 0" "d = (if is_open m then 1 else 0) - (if is_open n then 1 else 0)"
      using st that(1) d heads_okD(1) [OF D(4)] by (auto split: if_splits)
    have b: "b \<in> heads s" using that(2) by (simp add: t)
    then have "usable s b" by (rule heads_okD(3) [OF D(4) s0(1)])
    then have "usable (set_node s a m) b" using heads s0 b by (intro usable_set_node) auto
    then show ?thesis by (simp add: usable_def t)
  qed
  moreover have "not_active t b" if "b \<in> heads t" for b
    using heads_okD(2) [OF D(4), of b] that ok(2) n by (auto simp: not_active_def t)
  moreover have "0 \<le> stuck t" using st d heads_okD(1) [OF D(4)] by (auto split: if_splits)
  ultimately have "heads_ok t" by (intro heads_okI)
  moreover have "stuck s \<le> stuck t" using st d by simp
  ultimately show ?thesis using T L ID by (simp add: ok_step_def hist_inv_def)
qed

lemma set_node_active: "(set_node s a m)\<lparr>active_snapshots := active_snapshots s + 0\<rparr> = set_node s a m"
  by (simp add: set_node_def)

lemmas inv_one_same = inv_one [where d = 0, unfolded set_node_active]

lemma step_commit:
  assumes I: "hist_inv (s, hs)" and r: "commit s a flushed = Inr t"
  shows "ok_step s (t, hs)"
proof -
  obtain n where n: "h_nodes s a = Some n" and st: "h_status n = ACTIVE \<or> h_status n = DATA_LOCKED"
    and t: "t = unref_active (set_node s a (n\<lparr>h_status := COMMITTED\<rparr>))"
    using r by (auto simp: commit_def bindR_Inr split: if_splits)
  have "h_parent n \<noteq> None" using not_root(1) [OF invD(1) [OF I] n] st by auto
  then show ?thesis using st inv_node [OF I n]
    by (intro inv_one [OF I n, of "n\<lparr>h_status := COMMITTED\<rparr>" hs "-1"])
      (auto simp: same_links_def hist_node_ok_def is_open_def t unref_active_def)
qed

lemma step_metadata:
  assumes I: "hist_inv (s, hs)" and r: "set_snapshot_metadata s a m = Inr t"
  shows "ok_step s (t, hs)"
proof -
  obtain n where n: "h_nodes s a = Some n" "h_status n = ACTIVE" and t: "t = set_node s a (n\<lparr>h_metadata := m\<rparr>)"
    using r by (auto simp: set_snapshot_metadata_def bindR_Inr split: if_splits)
  have "a \<notin> heads s" if "stuck s = 0" using that I n by (auto simp: usable_def dest!: heads_okD(3) [OF invD(4) [OF I]])
  then show ?thesis using inv_node [OF I n(1)] n
    by (intro inv_one_same [OF I n(1), of "n\<lparr>h_metadata := m\<rparr>"]) (auto simp: same_links_def hist_node_ok_def is_open_def t)
qed

lemma step_lock:
  assumes I: "hist_inv (s, hs)" and r: "lock_data_for_import s a opened = Inr t"
  shows "ok_step s (t, hs)"
proof (cases "t = s")
  case True
  then show ?thesis using I by (simp add: ok_step_def)
next
  case False
  then obtain n where n: "h_nodes s a = Some n" "h_status n = ACTIVE" and t: "t = set_node s a (n\<lparr>h_status := DATA_LOCKED\<rparr>)"
    using r by (auto simp: lock_data_for_import_def bindR_Inr split: if_splits)
  have "h_parent n \<noteq> None" using not_root(1) [OF invD(1) [OF I] n(1)] n(2) by auto
  then show ?thesis using inv_node [OF I n(1)] n
    by (intro inv_one_same [OF I n(1), of "n\<lparr>h_status := DATA_LOCKED\<rparr>"]) (auto simp: same_links_def hist_node_ok_def is_open_def t)
qed

text \<open>Opening another snapshot object of a node that is not active.\<close>

lemma open_snapshot_Inr:
  assumes "h_nodes s a = Some n" "h_status n \<noteq> ACTIVE"
  shows "open_snapshot s a = Inr (set_node s a (n\<lparr>h_references := h_references n + 1\<rparr>))"
  using assms by (simp add: open_snapshot_def persistent_tree_init_def deref_def update_node_def)

lemma step_open:
  assumes I: "hist_inv (s, hs)" and n: "h_nodes s a = Some n" "h_status n \<noteq> ACTIVE" and r: "open_snapshot s a = Inr t"
  shows "ok_step s (t, a # hs)"
proof -
  have "h_status n = COMMITTED \<or> h_status n = DATA_LOCKED" if "stuck s = 0" "a \<in> heads s"
    using that I n by (auto simp: usable_def dest!: heads_okD(3) [OF invD(4) [OF I]])
  then show ?thesis using inv_node [OF I n(1)] n r
    by (intro inv_one_same [OF I n(1), of "n\<lparr>h_references := h_references n + 1\<rparr>"])
      (auto simp: same_links_def hist_node_ok_def is_open_def open_snapshot_Inr)
qed

section \<open>Dropping\<close>

lemma committed_from_total:
  assumes "tree_ok s" "h_nodes s a = Some n"
  shows "\<exists>q m. committed_from s (Some a) = Some (Some q) \<and> h_nodes s q = Some m \<and> h_status m = COMMITTED \<and> q \<le> a"
  using assms(2)
proof (induction a arbitrary: n rule: less_induct)
  case (less a)
  show ?case
  proof (cases "h_status n = COMMITTED")
    case True
    then show ?thesis using less.prems by (subst committed_from.simps) auto
  next
    case False
    then obtain p m where p: "h_parent n = Some p" "p < a" "h_nodes s p = Some m"
      using not_root(1) [OF assms(1) less.prems] tree_okD(5) [OF assms(1) less.prems] by auto
    have "committed_from s (Some a) = committed_from s (Some p)" using less.prems False p(1) by (subst committed_from.simps) simp
    then show ?thesis using less.IH [OF p(2,3)] p(2) by (auto intro: less_imp_le order.trans)
  qed
qed

lemma adjust_spec:
  assumes "tree_ok s" "h_nodes s a = Some n" "h_parent n \<noteq> None"
  obtains q m where "committed_from s (h_parent n) = Some (Some q)" "h_nodes s q = Some m" "h_status m = COMMITTED" "q < a"
    "adjust_named_references s a = Inr (s\<lparr>named_branches := map (\<lambda>(name, b). (name, if b = a then q else b)) (named_branches s),
        master_node := (if master_node s = a then q else master_node s)\<rparr>)"
proof -
  obtain p pn where p: "h_parent n = Some p" "p < a" "h_nodes s p = Some pn" using tree_okD(5) [OF assms(1,2)] assms(3) by auto
  obtain q m where q: "committed_from s (Some p) = Some (Some q)" "h_nodes s q = Some m" "h_status m = COMMITTED" "q \<le> p"
    using committed_from_total [OF assms(1) p(3)] by blast
  show thesis using p q assms(2) by (intro that [of q m]) (simp_all add: adjust_named_references_def deref_def)
qed

lemma heads_redirect: "snd ` set (map (\<lambda>(name, b). (name, f b)) nb) = f ` snd ` set nb"
  by (induction nb) auto

lemma step_drop:
  assumes I: "hist_inv (s, hs)" and a: "a \<in> set hs" and r: "drop_snapshot s a = Inr t"
  shows "ok_step s (t, hs)"
proof -
  obtain n where n: "h_nodes s a = Some n" "0 < h_references n" using inv_handle [OF I a] .
  let ?m = "n\<lparr>h_status := DROPPED\<rparr>"
  have par: "h_parent n \<noteq> None" using r n(1) by (cases "h_parent n") (simp_all add: drop_snapshot_def deref_def)
  have links: "same_links n ?m" "hist_node_ok ?m" using inv_node(2) [OF I n(1)] n(2) by (simp_all add: same_links_def hist_node_ok_def)
  have no_head: "a \<notin> heads s" if "stuck s = 0" "h_status n = ACTIVE \<or> h_status n = DROPPED"
    using that I n by (auto simp: usable_def dest!: heads_okD(3) [OF invD(4) [OF I]])
  show ?thesis
  proof (cases "h_status n = COMMITTED")
    case True
    obtain q m where "committed_from s (h_parent n) = Some (Some q)" and q: "h_nodes s q = Some m" "h_status m = COMMITTED" "q < a"
      and adj: "adjust_named_references s a = Inr (s\<lparr>named_branches := map (\<lambda>(name, b). (name, if b = a then q else b)) (named_branches s),
        master_node := (if master_node s = a then q else master_node s)\<rparr>)"
      by (rule adjust_spec [OF invD(1) [OF I] n(1) par])
    define s1 where "s1 = s\<lparr>named_branches := map (\<lambda>(name, b). (name, if b = a then q else b)) (named_branches s),
        master_node := (if master_node s = a then q else master_node s)\<rparr>"
    have nodes: "h_nodes s1 = h_nodes s" by (simp add: s1_def)
    define f where "f = (\<lambda>b. if b = a then q else b)"
    have nb: "named_branches s1 = map (\<lambda>(name, b). (name, f b)) (named_branches s)" "master_node s1 = f (master_node s)"
      by (simp_all add: s1_def f_def)
    have "heads s1 = f ` heads s" unfolding nb heads_redirect by simp
    then have hd: "heads s1 \<subseteq> insert q (heads s - {a})" by (auto simp: f_def)
    have us: "usable s1 b = usable s b" "stuck s1 = stuck s" for b by (simp_all add: usable_def s1_def stuck_def open_nodes_def)
    have "usable s b" if "stuck s = 0" "b \<in> heads s1" for b
    proof (cases "b = q")
      case True
      then show ?thesis using q(1,2) by (simp add: usable_def)
    next
      case False
      then have "b \<in> heads s" using that(2) hd by blast
      then show ?thesis by (rule heads_okD(3) [OF invD(4) [OF I] that(1)])
    qed
    moreover have "not_active s1 b" if "b \<in> heads s1" for b
    proof -
      have "b = q \<or> b \<in> heads s" using that hd by blast
      then have "not_active s b" using q tree_okD(1) [OF invD(1) [OF I] q(1)] heads_okD(2) [OF invD(4) [OF I]] by (auto simp: not_active_def)
      then show ?thesis by (simp add: not_active_def s1_def)
    qed
    ultimately have "heads_ok s1" using us heads_okD(1) [OF invD(4) [OF I]] by (intro heads_okI) auto
    then have I1: "hist_inv (s1, hs)" using I tree_ok_cong [of s1 s] by (simp add: hist_inv_def s1_def ids_ok_def life_ok_def)
    have t: "t = set_node s1 a ?m" using r n(1) True par nodes adj
      by (simp add: drop_snapshot_def update_node_def deref_def s1_def [symmetric])
    have n1: "h_nodes s1 a = Some n" using n(1) nodes by simp
    have "a \<notin> heads s1" using hd q(3) by auto
    then have "ok_step s1 (t, hs)" using links par True inv_node(1) [OF I n(1)]
      by (intro inv_one_same [OF I1 n1, of ?m]) (auto simp: is_open_def t)
    then show ?thesis using us(2) by (simp add: ok_step_def)
  next
    case False
    have t: "t = set_node (if h_status n = ACTIVE then unref_active s else s) a ?m"
      using r n(1) False par by (auto simp: drop_snapshot_def update_node_def deref_def)
    have d: "t = (set_node s a ?m)\<lparr>active_snapshots := active_snapshots s + (if h_status n = ACTIVE then -1 else 0)\<rparr>"
      by (simp add: t set_node_def unref_active_def)
    show ?thesis using links par inv_node(1) [OF I n(1)] no_head False
      by (intro inv_one [OF I n(1) _ _ _ _ _ _ _ _ _ d]) (cases "h_status n"; auto simp: is_open_def)+
  qed
qed

section \<open>Releasing\<close>

lemma tree_ok_remove_leaf:
  assumes T: "tree_ok s" and n: "h_nodes s a = Some n" "h_children n = []" "h_parent n = Some p" and p: "h_nodes s p = Some pn"
    and t: "h_nodes t = (h_nodes s)(p \<mapsto> pn\<lparr>h_children := remove1 a (h_children pn)\<rparr>, a := None)" "h_next t = h_next s" "history_tree t = history_tree s"
  shows "tree_ok t"
  unfolding tree_ok_def
proof (intro conjI allI impI)
  have pa: "p < a" using tree_okD(5) [OF T n(1,3)] by simp
  have "a \<noteq> history_tree s" using tree_ok_root [OF T] n by auto
  then show "\<exists>r. h_nodes t (history_tree t) = Some r \<and> h_parent r = None \<and> h_status r = COMMITTED"
    using tree_ok_root [OF T] p by (auto simp: t)
  fix b k assume b: "h_nodes t b = Some k"
  then have ba: "b \<noteq> a" by (auto simp: t)
  obtain l where l: "h_nodes s b = Some l" "h_parent k = h_parent l" "h_children k = remove1 a (h_children l)"
  proof (cases "b = p")
    case True
    then show thesis using that [of pn] b ba p by (auto simp: t)
  next
    case False
    then have "h_nodes s b = Some k" using b ba by (simp add: t)
    moreover have "a \<notin> set (h_children k)" using tree_okD(3) [OF T calculation, of a] False n by auto
    ultimately show thesis using that by (simp add: remove1_idem)
  qed
  note B = tree_okD [OF T l(1)]
  show "b < h_next t" using B(1) by (simp add: t)
  show "distinct (h_children k)" using B(2) l(3) by simp
  show "\<forall>c \<in> set (h_children k). \<exists>m. h_nodes t c = Some m \<and> h_parent m = Some b"
  proof
    fix c assume "c \<in> set (h_children k)"
    then have "c \<in> set (h_children l)" "c \<noteq> a" using B(2) l(3) by auto
    then show "\<exists>m. h_nodes t c = Some m \<and> h_parent m = Some b" using B(3) p by (fastforce simp: t)
  qed
  show "case h_parent k of None \<Rightarrow> b = history_tree t | Some q \<Rightarrow> q < b \<and> (\<exists>m. h_nodes t q = Some m \<and> b \<in> set (h_children m))"
  proof (cases "h_parent k")
    case None
    then show ?thesis using B(4) l(2) by (simp add: t)
  next
    case (Some q)
    then obtain m where m: "q < b" "h_nodes s q = Some m" "b \<in> set (h_children m)" using B(5) l(2) by auto
    then have "q \<noteq> a" using n by auto
    then show ?thesis using Some m ba p by (auto simp: t)
  qed
qed

lemma step_destroy_active:
  assumes I: "hist_inv (s, hs)" and n: "h_nodes s a = Some n" "h_status n = ACTIVE" "h_references n = 1" and r: "destroy_snapshot s a = Inr t"
  shows "ok_step s (t, remove1 a hs)"
proof -
  note D = invD [OF I]
  obtain p pn where p: "h_parent n = Some p" "p < a" "h_nodes s p = Some pn"
    using not_root(1) [OF D(1) n(1)] tree_okD(5) [OF D(1) n(1)] n(2) by auto
  have kids: "h_children n = []" and root: "h_root n" using inv_node(2) [OF I n(1)] n(2) by (auto simp: hist_node_ok_def)
  have c: "count_list hs a = 1" using inv_node(1) [OF I n(1)] n(3) by simp
  then have a1: "a \<in> set hs" by (metis count_list_0_iff zero_neq_one)
  have a: "a \<in> set hs" "a \<notin> set (remove1 a hs)" using a1 count_list_remove1 [OF a1, of a] c count_list_0_iff [of "remove1 a hs" a] by simp_all
  have t: "t = s\<lparr>active_snapshots := active_snapshots s - 1, snapshot_map := (snapshot_map s)(h_snapshot_id n := None),
      h_nodes := (h_nodes s)(p \<mapsto> pn\<lparr>h_children := remove1 a (h_children pn)\<rparr>, a := None)\<rparr>"
    using r n root p by (simp add: destroy_snapshot_def release_snapshot_def deref_def do_drop_def forget_snapshot_def remove_from_parent_def
        update_node_def remove_child_def delete_node_def set_node_def unref_active_def fun_upd_twist)
  have T: "tree_ok t" by (rule tree_ok_remove_leaf [OF D(1) n(1) kids p(1,3)]) (simp_all add: t)
  have "snapshot_map t (h_snapshot_id m) = Some b" if b: "h_nodes t b = Some m" for b m
  proof -
    obtain l where l: "h_nodes s b = Some l" "h_snapshot_id m = h_snapshot_id l" "b \<noteq> a"
      using b p by (cases "b = p") (auto simp: t split: if_splits)
    have "snapshot_map s (h_snapshot_id l) = Some b" "snapshot_map s (h_snapshot_id n) = Some a"
      using D(2) l(1) n(1) by (auto simp: ids_ok_def)
    then show ?thesis using l by (auto simp: t)
  qed
  then have "ids_ok t" by (simp add: ids_ok_def)
  moreover have "life_ok t (remove1 a hs)"
  proof -
    have "hist_node_ok (pn\<lparr>h_children := remove1 a (h_children pn)\<rparr>)" using inv_node(2) [OF I p(3)] by (auto simp: hist_node_ok_def)
    then show ?thesis using D(3) p a count_list_remove1 [OF a(1)] set_remove1_subset [of a hs]
      unfolding life_ok_def t by (auto split: if_splits)
  qed
  moreover have st: "stuck t = stuck s"
  proof -
    have eq: "open_nodes t = open_nodes s - {a}" using p(2,3) by (auto simp: open_nodes_def t is_open_def)
    have a: "a \<in> open_nodes s" using n by (simp add: open_nodes_def is_open_def)
    then have "0 < card (open_nodes s)" using finite_open_nodes [OF D(1)] card_gt_0_iff by blast
    then have "int (card (open_nodes t)) = int (card (open_nodes s)) - 1"
      unfolding eq using a by (simp add: of_nat_diff Suc_le_eq)
    moreover have "active_snapshots t = active_snapshots s - 1" by (simp add: t)
    ultimately show ?thesis by (simp add: stuck_def)
  qed
  moreover have "heads_ok t"
  proof -
    have "usable t b" if "usable s b" for b using that n(1,2) p by (auto simp: usable_def t)
    moreover have "not_active t b" if "not_active s b" for b using that p by (auto simp: not_active_def t)
    moreover have "heads t = heads s" by (simp add: t)
    ultimately show ?thesis using heads_okD [OF D(4)] st by (intro heads_okI) auto
  qed
  ultimately show ?thesis using T by (simp add: ok_step_def hist_inv_def)
qed

lemma step_destroy:
  assumes I: "hist_inv (s, hs)" and a: "a \<in> set hs" and r: "destroy_snapshot s a = Inr t"
  shows "ok_step s (t, remove1 a hs)"
proof -
  obtain n where n: "h_nodes s a = Some n" "0 < h_references n" using inv_handle [OF I a] .
  note N = inv_node [OF I n(1)]
  let ?r = "h_references n - 1"
  have cnt: "?r = int (count_list (remove1 a hs) a)" "\<And>b. b \<noteq> a \<Longrightarrow> count_list (remove1 a hs) b = count_list hs b" "set (remove1 a hs) \<subseteq> insert a (set hs)"
  proof -
    have "0 < count_list hs a" using N(1) n(2) by simp
    then show "?r = int (count_list (remove1 a hs) a)" unfolding N(1) count_list_remove1 [OF a] by simp
    show "count_list (remove1 a hs) b = count_list hs b" if "b \<noteq> a" for b using that by (simp add: count_list_remove1 [OF a])
    show "set (remove1 a hs) \<subseteq> insert a (set hs)" using set_remove1_subset [of a hs] by blast
  qed
  have head: "h_status n = COMMITTED \<or> h_status n = DATA_LOCKED" if "stuck s = 0" "a \<in> heads s"
    using that I n by (auto simp: usable_def dest!: heads_okD(3) [OF invD(4) [OF I]])
  consider "?r = 0" "h_status n = ACTIVE" | "?r = 0" "h_status n = DROPPED" | "?r \<noteq> 0 \<or> h_status n = COMMITTED \<or> h_status n = DATA_LOCKED"
    by (cases "h_status n") auto
  then show ?thesis
  proof cases
    case 1
    then show ?thesis using step_destroy_active [OF I n(1) _ _ r] by simp
  next
    case 2
    then have t: "t = set_node s a (n\<lparr>h_references := ?r, h_root := False\<rparr>)"
      using r n(1) by (auto simp: destroy_snapshot_def release_snapshot_def deref_def do_drop_def set_node_def split: if_splits)
    have "hist_node_ok (n\<lparr>h_references := ?r, h_root := False\<rparr>)" using 2 N(2) by (auto simp: hist_node_ok_def)
    then show ?thesis using cnt head
      by (intro inv_one_same [OF I n(1) _ _ _ _ _ _ _ _ _ t]) (simp_all add: same_links_def is_open_def)
  next
    case 3
    then have t: "t = set_node s a (n\<lparr>h_references := ?r\<rparr>)"
      using r n(1) by (auto simp: destroy_snapshot_def release_snapshot_def deref_def Let_def split: if_splits)
    have "hist_node_ok (n\<lparr>h_references := ?r\<rparr>)" using 3 N(2) n(2) by (auto simp: hist_node_ok_def)
    then show ?thesis using cnt head
      by (intro inv_one_same [OF I n(1) _ _ _ _ _ _ _ _ _ t]) (simp_all add: same_links_def is_open_def)
  qed
qed

section \<open>Branching\<close>

lemma branch_Inr:
  assumes I: "hist_inv (s, hs)" and n: "h_nodes s a = Some n" "h_status n = COMMITTED"
  shows "branch_snapshot s a sid = Inr (h_next s, s\<lparr>h_next := h_next s + 1, snapshot_map := (snapshot_map s)(sid \<mapsto> h_next s),
    active_snapshots := active_snapshots s + 1,
    h_nodes := (h_nodes s)(a \<mapsto> n\<lparr>h_children := h_children n @ [h_next s]\<rparr>,
      h_next s \<mapsto> \<lparr>h_parent = Some a, h_children = [], h_root = True, h_status = ACTIVE, h_snapshot_id = sid, h_references = 1, h_metadata = ''''\<rparr>)\<rparr>)"
proof -
  have "a \<noteq> h_next s" using tree_okD(1) [OF invD(1) [OF I] n(1)] by simp
  moreover have "h_root n" using inv_node(2) [OF I n(1)] n(2) by (auto simp: hist_node_ok_def)
  ultimately show ?thesis using n
    by (simp add: branch_snapshot_def new_history_node_def Let_def deref_def update_node_def set_node_def open_snapshot_def
        persistent_tree_init_def ref_active_def)
qed

lemma tree_ok_branch:
  assumes T: "tree_ok s" and n: "h_nodes s a = Some n" and m: "h_parent m = Some a" "h_children m = []"
    and t: "h_nodes t = (h_nodes s)(a \<mapsto> n\<lparr>h_children := h_children n @ [h_next s]\<rparr>, h_next s \<mapsto> m)"
      "h_next t = h_next s + 1" "history_tree t = history_tree s"
  shows "tree_ok t"
  unfolding tree_ok_def
proof (intro conjI allI impI)
  let ?b = "h_next s"
  have fresh: "h_nodes s ?b = None" using tree_okD(1) [OF T, of ?b] by (cases "h_nodes s ?b") auto
  have ab: "a < ?b" by (rule tree_okD(1) [OF T n])
  show "\<exists>r. h_nodes t (history_tree t) = Some r \<and> h_parent r = None \<and> h_status r = COMMITTED"
    using tree_ok_root [OF T] n fresh by (auto simp: t)
  fix b k assume b: "h_nodes t b = Some k"
  have "b < h_next t \<and> distinct (h_children k) \<and> (\<forall>c \<in> set (h_children k). \<exists>x. h_nodes t c = Some x \<and> h_parent x = Some b)
      \<and> (case h_parent k of None \<Rightarrow> b = history_tree t | Some p \<Rightarrow> p < b \<and> (\<exists>x. h_nodes t p = Some x \<and> b \<in> set (h_children x)))"
  proof (cases "b = ?b")
    case True
    then show ?thesis using b m n ab by (auto simp: t)
  next
    case False
    obtain l where l: "h_nodes s b = Some l" "h_parent k = h_parent l"
      "h_children k = h_children l @ (if b = a then [?b] else [])"
      using b False n by (cases "b = a") (auto simp: t)
    note B = tree_okD [OF T l(1)]
    have kids: "\<exists>x. h_nodes t c = Some x \<and> h_parent x = Some b" if "c \<in> set (h_children k)" for c
    proof (cases "c = ?b")
      case True
      then have "b = a" using that l(3) B(3) [of ?b] fresh by (auto split: if_splits)
      then show ?thesis using True m by (simp add: t)
    next
      case cb: False
      then have "c \<in> set (h_children l)" using that l(3) by (auto split: if_splits)
      then show ?thesis using B(3) cb n by (fastforce simp: t)
    qed
    have "distinct (h_children k)" using B(2) B(3) [of ?b] l(3) fresh by auto
    moreover have "case h_parent k of None \<Rightarrow> b = history_tree t | Some p \<Rightarrow> p < b \<and> (\<exists>x. h_nodes t p = Some x \<and> b \<in> set (h_children x))"
    proof (cases "h_parent k")
      case None
      then show ?thesis using B(4) l(2) by (simp add: t)
    next
      case (Some q)
      then obtain x where x: "q < b" "h_nodes s q = Some x" "b \<in> set (h_children x)" using B(5) l(2) by auto
      then have "q \<noteq> ?b" using fresh by auto
      then show ?thesis using Some x n by (auto simp: t)
    qed
    ultimately show ?thesis using B(1) kids by (simp add: t)
  qed
  then show "b < h_next t" "distinct (h_children k)" "\<forall>c \<in> set (h_children k). \<exists>x. h_nodes t c = Some x \<and> h_parent x = Some b"
    "case h_parent k of None \<Rightarrow> b = history_tree t | Some p \<Rightarrow> p < b \<and> (\<exists>x. h_nodes t p = Some x \<and> b \<in> set (h_children x))"
    by simp_all
qed

lemma step_branch:
  assumes I: "hist_inv (s, hs)" and sid: "snapshot_map s sid = None" and r: "branch_snapshot s a sid = Inr (b, t)"
  shows "ok_step s (t, b # hs)"
proof -
  note D = invD [OF I]
  obtain n where n: "h_nodes s a = Some n" "h_status n = COMMITTED"
    using r by (auto simp: branch_snapshot_def bindR_Inr split: if_splits)
  let ?b = "h_next s"
  let ?new = "\<lparr>h_parent = Some a, h_children = [], h_root = True, h_status = ACTIVE, h_snapshot_id = sid, h_references = 1, h_metadata = ''''\<rparr>"
  let ?n = "n\<lparr>h_children := h_children n @ [?b]\<rparr>"
  have b: "b = ?b" and t: "t = s\<lparr>h_next := ?b + 1, snapshot_map := (snapshot_map s)(sid \<mapsto> ?b), active_snapshots := active_snapshots s + 1,
      h_nodes := (h_nodes s)(a \<mapsto> ?n, ?b \<mapsto> ?new)\<rparr>" using r [unfolded branch_Inr [OF I n]] by auto
  have fresh: "h_nodes s ?b = None" using tree_okD(1) [OF D(1), of ?b] by (cases "h_nodes s ?b") auto
  have ab: "a \<noteq> ?b" using n(1) fresh by auto
  have T: "tree_ok t" by (rule tree_ok_branch [OF D(1) n(1), of ?new]) (simp_all add: t)
  have "snapshot_map t (h_snapshot_id m) = Some c" if c: "h_nodes t c = Some m" for c m
  proof (cases "c = ?b")
    case True
    then show ?thesis using c by (simp add: t) (metis hist_node.select_convs(5))
  next
    case False
    then obtain l where l: "h_nodes s c = Some l" "h_snapshot_id m = h_snapshot_id l" using c n by (cases "c = a") (auto simp: t)
    then have "snapshot_map s (h_snapshot_id m) = Some c" using D(2) by (simp add: ids_ok_def)
    then show ?thesis using sid by (auto simp: t)
  qed
  then have "ids_ok t" by (simp add: ids_ok_def)
  moreover have "life_ok t (b # hs)"
  proof -
    have "?b \<notin> set hs" using D(3) fresh by (auto simp: life_ok_def)
    then have "count_list hs ?b = 0" by (simp add: count_list_0_iff)
    moreover have "hist_node_ok ?new" "hist_node_ok ?n" using inv_node(2) [OF I n(1)] n(2) by (simp_all add: hist_node_ok_def)
    ultimately show ?thesis using D(3) n(1) ab unfolding life_ok_def t b by auto
  qed
  moreover have st: "stuck t = stuck s"
  proof -
    have eq: "open_nodes t = insert ?b (open_nodes s)" using n ab by (auto simp: open_nodes_def t is_open_def)
    have "?b \<notin> open_nodes s" using fresh by (simp add: open_nodes_def)
    then show ?thesis using finite_open_nodes [OF D(1)] unfolding stuck_def eq by (simp add: t)
  qed
  moreover have "heads_ok t"
  proof -
    have "usable t c" if "usable s c" for c using that n fresh by (auto simp: usable_def t)
    moreover have "not_active t c" if "not_active s c" for c using that n by (auto simp: not_active_def t)
    moreover have "heads t = heads s" by (simp add: t)
    ultimately show ?thesis using heads_okD [OF D(4)] st by (intro heads_okI) auto
  qed
  ultimately show ?thesis using T by (simp add: ok_step_def hist_inv_def)
qed

section \<open>Opening snapshots and moving heads\<close>

lemma step_parent:
  assumes I: "hist_inv (s, hs)" and r: "open_parent s a = Inr (b, t)"
  shows "ok_step s (t, b # hs)"
proof -
  obtain n where n: "h_nodes s a = Some n" "h_parent n = Some b" "open_snapshot s b = Inr t"
    using r by (auto simp: open_parent_def bindR_Inr split: option.splits)
  obtain m where m: "h_nodes s b = Some m" "a \<in> set (h_children m)" using tree_okD(5) [OF invD(1) [OF I] n(1,2)] by auto
  then have "h_status m \<noteq> ACTIVE" using inv_node(2) [OF I m(1)] by (auto simp: hist_node_ok_def)
  then show ?thesis using step_open [OF I m(1) _ n(3)] by simp
qed

lemma step_find:
  assumes I: "hist_inv (s, hs)" and r: "find_snapshot s sid = Inr (b, t)"
  shows "ok_step s (t, b # hs)"
proof -
  obtain n where "h_nodes s b = Some n" "h_status n = COMMITTED" "open_snapshot s b = Inr t"
    using r by (auto simp: find_snapshot_def bindR_Inr split: if_splits)
  then show ?thesis using step_open [OF I] by auto
qed

lemma step_find_branch:
  assumes I: "hist_inv (s, hs)" and r: "find_branch s name = Inr (b, t)"
  shows "ok_step s (t, b # hs)"
proof -
  obtain n where "h_nodes s b = Some n" "h_status n = COMMITTED \<or> h_status n = DATA_LOCKED" "open_snapshot s b = Inr t"
    using r by (auto simp: find_branch_def bindR_Inr split: option.splits if_splits)
  then show ?thesis using step_open [OF I] by auto
qed

lemma step_master:
  assumes I: "hist_inv (s, hs)" and r: "open_master s = Inr (b, t)"
  shows "ok_step s (t, b # hs)"
proof -
  have b: "b = master_node s" "open_snapshot s b = Inr t" using r by (auto simp: open_master_def bindR_Inr)
  then obtain n where n: "h_nodes s b = Some n" by (auto simp: open_snapshot_def persistent_tree_init_def bindR_Inr)
  then have "h_status n \<noteq> ACTIVE" using heads_okD(2) [OF invD(4) [OF I], of b] b(1) by (auto simp: not_active_def)
  then show ?thesis using step_open [OF I n _ b(2)] by simp
qed

lemma inv_heads_change:
  assumes I: "hist_inv (s, hs)" and same: "h_nodes t = h_nodes s" "h_next t = h_next s" "history_tree t = history_tree s"
      "snapshot_map t = snapshot_map s" "active_snapshots t = active_snapshots s"
    and hd: "\<And>b. b \<in> heads t \<Longrightarrow> b \<in> heads s \<or> usable s b"
  shows "ok_step s (t, hs)"
proof -
  have st: "stuck t = stuck s" "usable t b = usable s b" for b by (simp_all add: stuck_def open_nodes_def usable_def same)
  have "usable t b" if "stuck t = 0" "b \<in> heads t" for b
    using hd [OF that(2)] heads_okD(3) [OF invD(4) [OF I]] that(1) unfolding st by blast
  moreover have "not_active t b" if "b \<in> heads t" for b
    using hd [OF that] heads_okD(2) [OF invD(4) [OF I]] usable_not_active [OF invD(1) [OF I]] by (auto simp: not_active_def same)
  ultimately have "heads_ok t" using heads_okD(1) [OF invD(4) [OF I]] st by (intro heads_okI) auto
  then show ?thesis using I tree_ok_cong [OF same(1-3)] by (simp add: ok_step_def hist_inv_def ids_ok_def life_ok_def same st)
qed

lemma step_set_master:
  assumes I: "hist_inv (s, hs)" and r: "set_master s sid = Inr t"
  shows "ok_step s (t, hs)"
proof -
  obtain a n where n: "h_nodes s a = Some n" "h_status n = COMMITTED \<or> h_status n = DATA_LOCKED" and t: "t = s\<lparr>master_node := a\<rparr>"
    using r by (auto simp: set_master_def bindR_Inr split: if_splits)
  then have "usable s a" by (auto simp: usable_def)
  then show ?thesis by (intro inv_heads_change [OF I]) (auto simp: t)
qed

lemma step_set_branch:
  assumes I: "hist_inv (s, hs)" and r: "set_branch s name sid = Inr t"
  shows "ok_step s (t, hs)"
proof -
  obtain a n where n: "h_nodes s a = Some n" "h_status n = COMMITTED \<or> h_status n = DATA_LOCKED"
    and t: "t = s\<lparr>named_branches := AList.update name a (named_branches s)\<rparr>"
    using r by (auto simp: set_branch_def bindR_Inr split: if_splits)
  have "usable s a" using n by (auto simp: usable_def)
  moreover have "snd ` set (AList.update name a nb) \<subseteq> insert a (snd ` set nb)" for nb :: "(string \<times> nat) list"
    by (induction nb) auto
  ultimately show ?thesis by (intro inv_heads_change [OF I]) (auto simp: t)
qed

lemma step_remove_branch:
  assumes I: "hist_inv (s, hs)"
  shows "ok_step s (remove_named_branch s name, hs)"
proof -
  have "snd ` set (AList.delete name nb) \<subseteq> snd ` set nb" for nb :: "(string \<times> nat) list"
    by (auto simp: AList.delete_eq)
  then show ?thesis by (intro inv_heads_change [OF I]) (auto simp: remove_named_branch_def)
qed

end
