(* ===== verification/Snapshot_Pack.thy ===== *)
theory Snapshot_Pack
  imports Snapshot_Laws
begin

text \<open>
  Packing keeps the invariant of the life cycle: \<open>do_pack\<close> removes dropped nodes that nobody holds and that have at
  most one child, joins the child to the parent of the removed node, and touches nothing else.
\<close>

section \<open>Packing\<close>

definition cleared :: "hist_node \<Rightarrow> bool" where
  "cleared n \<longleftrightarrow> \<not> h_root n \<and> h_references n = 0"

definition same_core :: "hist_node \<Rightarrow> hist_node \<Rightarrow> bool" where
  "same_core n m \<longleftrightarrow> h_root m = h_root n \<and> h_status m = h_status n \<and> h_snapshot_id m = h_snapshot_id n
     \<and> h_references m = h_references n \<and> h_metadata m = h_metadata n \<and> (h_children n = [] \<longrightarrow> h_children m = [])"

text \<open>What packing may do: remove nodes without data and without snapshot objects, and change links.\<close>

definition packed :: "hist_store \<Rightarrow> hist_store \<Rightarrow> bool" where
  "packed s t \<longleftrightarrow> h_next t = h_next s \<and> history_tree t = history_tree s \<and> master_node t = master_node s
     \<and> snapshot_map t = snapshot_map s \<and> named_branches t = named_branches s \<and> active_snapshots t = active_snapshots s
     \<and> (\<forall>b. case h_nodes s b of None \<Rightarrow> h_nodes t b = None
        | Some n \<Rightarrow> (case h_nodes t b of None \<Rightarrow> cleared n | Some m \<Rightarrow> same_core n m))"

lemma packed_refl [simp]: "packed s s"
  by (simp add: packed_def same_core_def split: option.split)

lemma packed_node:
  assumes "packed s t"
  shows "h_nodes t b = Some m \<Longrightarrow> \<exists>n. h_nodes s b = Some n \<and> same_core n m"
    and "h_nodes s b = Some n \<Longrightarrow> h_nodes t b = None \<Longrightarrow> cleared n"
  using assms unfolding packed_def by (auto dest!: spec [of _ b] split: option.splits)

lemma packed_trans:
  assumes "packed s t" "packed t u"
  shows "packed s u"
proof -
  have "case h_nodes s b of None \<Rightarrow> h_nodes u b = None | Some n \<Rightarrow> (case h_nodes u b of None \<Rightarrow> cleared n | Some m \<Rightarrow> same_core n m)" for b
  proof -
    have "case h_nodes s b of None \<Rightarrow> h_nodes t b = None | Some n \<Rightarrow> (case h_nodes t b of None \<Rightarrow> cleared n | Some m \<Rightarrow> same_core n m)"
      "case h_nodes t b of None \<Rightarrow> h_nodes u b = None | Some n \<Rightarrow> (case h_nodes u b of None \<Rightarrow> cleared n | Some m \<Rightarrow> same_core n m)"
      using assms unfolding packed_def by blast+
    then show ?thesis by (auto simp: cleared_def same_core_def split: option.splits)
  qed
  then show ?thesis using assms by (simp add: packed_def)
qed

text \<open>Nodes whose parent lies below \<open>a\<close> keep their place when the subtree of \<open>a\<close> is packed.\<close>

definition kept_beside :: "nat \<Rightarrow> hist_store \<Rightarrow> hist_store \<Rightarrow> bool" where
  "kept_beside a s t \<longleftrightarrow> (\<forall>b n. b \<noteq> a \<longrightarrow> h_nodes s b = Some n \<longrightarrow> (\<forall>p. h_parent n = Some p \<longrightarrow> p < a) \<longrightarrow>
     (\<exists>m. h_nodes t b = Some m \<and> h_parent m = h_parent n))"

lemma packed_updates:
  assumes "h_nodes t = (h_nodes s)(p \<mapsto> pn', a := None)" "h_nodes s p = Some pn" "same_core pn pn'" "h_nodes s a = Some n" "cleared n"
    and "h_next t = h_next s" "history_tree t = history_tree s" "master_node t = master_node s"
      "snapshot_map t = snapshot_map s" "named_branches t = named_branches s" "active_snapshots t = active_snapshots s"
  shows "packed s t"
  using assms unfolding packed_def by (auto simp: same_core_def split: option.split)

lemma remove_leaf_node:
  assumes T: "tree_ok s" and n: "h_nodes s a = Some n" "cleared n" "h_children n = []" "h_parent n = Some p"
  shows "\<exists>t. do_remove_history_node s a = Inr t \<and> tree_ok t \<and> packed s t \<and> kept_beside a s t"
proof -
  obtain pn where p: "p < a" "h_nodes s p = Some pn" "a \<in> set (h_children pn)" using tree_okD(5) [OF T n(1,4)] by auto
  let ?pn = "pn\<lparr>h_children := remove1 a (h_children pn)\<rparr>"
  let ?t = "s\<lparr>h_nodes := (h_nodes s)(p \<mapsto> ?pn, a := None)\<rparr>"
  have "do_remove_history_node s a = Inr ?t" using n p
    by (simp add: do_remove_history_node_def deref_def remove_from_parent_def update_node_def delete_node_def set_node_def remove_child_def)
  moreover have "tree_ok ?t" by (rule tree_ok_remove_leaf [OF T n(1,3,4) p(2)]) simp_all
  moreover have "packed s ?t" using p(3) by (intro packed_updates [OF _ p(2) _ n(1,2)]) (auto simp: same_core_def)
  moreover have "kept_beside a s ?t" using p by (auto simp: kept_beside_def)
  ultimately show ?thesis by blast
qed

lemma tree_ok_splice:
  assumes T: "tree_ok s" and n: "h_nodes s a = Some n" "h_children n = [c]" "h_parent n = Some p"
    and p: "h_nodes s p = Some pn" and c: "h_nodes s c = Some cn"
    and t: "h_nodes t = (h_nodes s)(p \<mapsto> pn\<lparr>h_children := remove1 a (h_children pn) @ [c]\<rparr>, a := None, c \<mapsto> cn\<lparr>h_parent := Some p\<rparr>)"
      "h_next t = h_next s" "history_tree t = history_tree s"
  shows "tree_ok t"
  unfolding tree_ok_def
proof (intro conjI allI impI)
  have pa: "p < a" "a \<in> set (h_children pn)" using tree_okD(5) [OF T n(1,3)] p by auto
  have cp: "h_parent cn = Some a" using tree_okD(3) [OF T n(1), of c] n(2) c by auto
  have ca: "a < c" using tree_okD(5) [OF T c cp] by simp
  have new: "c \<notin> set (h_children pn)" using tree_okD(3) [OF T p, of c] c cp pa(1) by auto
  have "a \<noteq> history_tree s" "c \<noteq> history_tree s" using tree_ok_root [OF T] n c cp by auto
  then show "\<exists>r. h_nodes t (history_tree t) = Some r \<and> h_parent r = None \<and> h_status r = COMMITTED"
    using tree_ok_root [OF T] p by (auto simp: t)
  fix b k assume b: "h_nodes t b = Some k"
  then have ba: "b \<noteq> a" using ca by (auto simp: t split: if_splits)
  obtain l where l: "h_nodes s b = Some l" "h_parent k = (if b = c then Some p else h_parent l)"
    "h_children k = (if b = p then remove1 a (h_children l) @ [c] else h_children l)"
    using b ba p c pa(1) ca by (cases "b = c"; cases "b = p") (auto simp: t)
  note B = tree_okD [OF T l(1)]
  show "b < h_next t" using B(1) by (simp add: t)
  show "distinct (h_children k)" using B(2) l(1,3) new p by auto
  show "\<forall>d \<in> set (h_children k). \<exists>m. h_nodes t d = Some m \<and> h_parent m = Some b"
  proof
    fix d assume d: "d \<in> set (h_children k)"
    show "\<exists>m. h_nodes t d = Some m \<and> h_parent m = Some b"
    proof (cases "d = c")
      case True
      have "b = p"
      proof (rule ccontr)
        assume "b \<noteq> p"
        then show False using d True l(3) B(3) [of c] c cp ba by auto
      qed
      then show ?thesis using True by (simp add: t)
    next
      case False
      then have dl: "d \<in> set (h_children l)" using d l(3) notin_set_remove1 by (fastforce split: if_splits)
      then obtain m where m: "h_nodes s d = Some m" "h_parent m = Some b" using B(3) by blast
      have "d \<noteq> a"
      proof
        assume "d = a"
        then have "b = p" using m n by simp
        then show False using \<open>d = a\<close> d l(3) False B(2) by simp
      qed
      then show ?thesis using m False p by (auto simp: t)
    qed
  qed
  show "case h_parent k of None \<Rightarrow> b = history_tree t | Some q \<Rightarrow> q < b \<and> (\<exists>m. h_nodes t q = Some m \<and> b \<in> set (h_children m))"
  proof (cases "b = c")
    case True
    then show ?thesis using l(2) pa(1) ca p by (simp add: t)
  next
    case False
    then have par: "h_parent k = h_parent l" using l(2) by simp
    show ?thesis
    proof (cases "h_parent l")
      case None
      then show ?thesis using par B(4) by (simp add: t)
    next
      case (Some q)
      then obtain m where m: "q < b" "h_nodes s q = Some m" "b \<in> set (h_children m)" using B(5) by auto
      have "q \<noteq> a" using m(2,3) n(1,2) False by auto
      then show ?thesis using Some par m p c ba by (auto simp: t)
    qed
  qed
qed

lemma splice_node:
  assumes T: "tree_ok s" and n: "h_nodes s a = Some n" "cleared n" "h_children n = [c]" "h_parent n = Some p"
  shows "\<exists>t. do_remove_history_node s a = Inr t \<and> tree_ok t \<and> packed s t \<and> kept_beside a s t"
proof -
  obtain pn where p: "p < a" "h_nodes s p = Some pn" "a \<in> set (h_children pn)" using tree_okD(5) [OF T n(1,4)] by auto
  obtain cn where c: "h_nodes s c = Some cn" "h_parent cn = Some a" using tree_okD(3) [OF T n(1), of c] n(3) by auto
  have ac: "a < c" using tree_okD(5) [OF T c] by simp
  let ?pn = "pn\<lparr>h_children := remove1 a (h_children pn) @ [c]\<rparr>" and ?cn = "cn\<lparr>h_parent := Some p\<rparr>"
  let ?t = "s\<lparr>h_nodes := (h_nodes s)(p \<mapsto> ?pn, a := None, c \<mapsto> ?cn)\<rparr>"
  have "do_remove_history_node s a = Inr ?t" using n p c ac
    by (simp add: do_remove_history_node_def deref_def remove_from_parent_def update_node_def delete_node_def set_node_def remove_child_def
        fun_upd_twist [of p a])
  moreover have "tree_ok ?t" by (rule tree_ok_splice [OF T n(1,3,4) p(2) c(1)]) simp_all
  moreover have "packed s ?t" using n(1,2) p c unfolding packed_def by (auto simp: same_core_def split: option.split)
  moreover have "kept_beside a s ?t" using p c by (auto simp: kept_beside_def)
  ultimately show ?thesis by blast
qed

lemma do_remove_ok:
  assumes "tree_ok s" "h_nodes s a = Some n" "cleared n" "a \<noteq> history_tree s"
  shows "\<exists>t. do_remove_history_node s a = Inr t \<and> tree_ok t \<and> packed s t \<and> kept_beside a s t"
proof -
  obtain p where p: "h_parent n = Some p" using tree_okD(4) [OF assms(1,2)] assms(4) by (cases "h_parent n") auto
  consider "h_children n = []" | c where "h_children n = [c]" | c d cs where "h_children n = c # d # cs"
    by (metis neq_Nil_conv)
  then show ?thesis
  proof cases
    case 1
    then show ?thesis by (rule remove_leaf_node [OF assms(1-3) _ p])
  next
    case (2 c)
    then show ?thesis by (rule splice_node [OF assms(1-3) _ p])
  next
    case 3
    then have "do_remove_history_node s a = Inr s" using assms(2) by (simp add: do_remove_history_node_def deref_def)
    then show ?thesis using assms(1) by (auto simp: kept_beside_def)
  qed
qed

text \<open>Nodes without data are dropped ones, so that packing never removes the root of the history.\<close>

definition clear_dropped :: "hist_store \<Rightarrow> bool" where
  "clear_dropped s \<longleftrightarrow> (\<forall>a n. h_nodes s a = Some n \<longrightarrow> cleared n \<longrightarrow> h_status n = DROPPED)"

lemma clear_dropped_packed:
  assumes "packed s t" "clear_dropped s"
  shows "clear_dropped t"
proof -
  have "h_status m = DROPPED" if m: "h_nodes t a = Some m" "cleared m" for a m
  proof -
    obtain n where "h_nodes s a = Some n" "same_core n m" using packed_node(1) [OF assms(1) m(1)] by blast
    then show ?thesis using assms(2) m(2) by (auto simp: clear_dropped_def same_core_def cleared_def)
  qed
  then show ?thesis by (simp add: clear_dropped_def)
qed

lemma clear_not_root:
  assumes "tree_ok s" "clear_dropped s" "h_nodes s a = Some n" "cleared n"
  shows "a \<noteq> history_tree s"
  using not_root(2) [OF assms(1,3)] assms(2-4) by (auto simp: clear_dropped_def)

lemma kept_besideD:
  assumes "kept_beside c s t" "h_nodes s b = Some n" "b \<noteq> c" "\<And>p. h_parent n = Some p \<Longrightarrow> p < c"
  obtains m where "h_nodes t b = Some m" "h_parent m = h_parent n"
  using assms unfolding kept_beside_def by blast

lemma kept_beside_trans:
  assumes "kept_beside a s t" "kept_beside a t u"
  shows "kept_beside a s u"
  using assms unfolding kept_beside_def by metis

text \<open>The children of \<open>a\<close>, each packed by \<open>f\<close>, one after the other.\<close>

lemma pack_children:
  assumes f: "\<And>s c. tree_ok s \<Longrightarrow> clear_dropped s \<Longrightarrow> h_nodes s c \<noteq> None \<Longrightarrow> h_next s = N \<Longrightarrow> a < c \<Longrightarrow>
      \<exists>t. f s c = Inr t \<and> tree_ok t \<and> packed s t \<and> kept_beside c s t"
    and "tree_ok s" "clear_dropped s" "h_nodes s a \<noteq> None" "h_next s = N" "distinct cs"
    and "\<forall>c \<in> set cs. \<exists>m. h_nodes s c = Some m \<and> h_parent m = Some a"
  shows "\<exists>t. foldR f s cs = Inr t \<and> tree_ok t \<and> packed s t \<and> kept_beside a s t \<and> h_nodes t a \<noteq> None"
  using assms(2-)
proof (induction cs arbitrary: s)
  case Nil
  then show ?case by (auto simp: kept_beside_def)
next
  case (Cons c cs)
  obtain m where m: "h_nodes s c = Some m" "h_parent m = Some a" using Cons.prems(6) by auto
  have ac: "a < c" using tree_okD(5) [OF Cons.prems(1) m] by simp
  obtain u where u: "f s c = Inr u" "tree_ok u" "packed s u" "kept_beside c s u"
    using f [OF Cons.prems(1,2) _ Cons.prems(4) ac] m(1) by auto
  obtain n where n: "h_nodes s a = Some n" using Cons.prems(3) by blast
  have a: "h_nodes u a \<noteq> None"
  proof -
    have "p < c" if "h_parent n = Some p" for p using tree_okD(5) [OF Cons.prems(1) n that] ac by simp
    then show ?thesis using kept_besideD [OF u(4) n] ac by blast
  qed
  have kids: "\<forall>d \<in> set cs. \<exists>m. h_nodes u d = Some m \<and> h_parent m = Some a"
  proof
    fix d assume d: "d \<in> set cs"
    then obtain k where k: "h_nodes s d = Some k" "h_parent k = Some a" "d \<noteq> c" using Cons.prems(5,6) by auto
    then show "\<exists>m. h_nodes u d = Some m \<and> h_parent m = Some a" using kept_besideD [OF u(4) k(1,3)] ac by auto
  qed
  have beside: "kept_beside a s u"
    unfolding kept_beside_def
  proof (intro allI impI)
    fix b k assume b: "b \<noteq> a" "h_nodes s b = Some k" "\<forall>p. h_parent k = Some p \<longrightarrow> p < a"
    then have "b \<noteq> c" using m by auto
    moreover have "p < c" if "h_parent k = Some p" for p using b(3) that ac by auto
    ultimately show "\<exists>x. h_nodes u b = Some x \<and> h_parent x = h_parent k" using kept_besideD [OF u(4) b(2)] by blast
  qed
  have "h_next u = N" "distinct cs" using Cons.prems(4,5) u(3) by (simp_all add: packed_def)
  from Cons.IH [OF u(2) clear_dropped_packed [OF u(3) Cons.prems(2)] a this kids]
  obtain t where "foldR f u cs = Inr t" "tree_ok t" "packed u t" "kept_beside a u t" "h_nodes t a \<noteq> None" by blast
  then show ?case using u(1,3) beside packed_trans kept_beside_trans by auto
qed

lemma do_pack_node_ok:
  assumes "tree_ok s" "clear_dropped s" "h_nodes s a \<noteq> None" "h_next s \<le> d + a"
  shows "\<exists>t. do_pack_node d bs s a = Inr t \<and> tree_ok t \<and> packed s t \<and> kept_beside a s t"
  using assms
proof (induction d arbitrary: s a)
  case 0
  then show ?case using tree_okD(1) by fastforce
next
  case (Suc d)
  obtain n where n: "h_nodes s a = Some n" using Suc.prems(3) by blast
  have f: "\<exists>t. do_pack_node d bs u c = Inr t \<and> tree_ok t \<and> packed u t \<and> kept_beside c u t"
    if "tree_ok u" "clear_dropped u" "h_nodes u c \<noteq> None" "h_next u = h_next s" "a < c" for u c
    using Suc.IH [of u c] that Suc.prems(4) by simp
  have "\<forall>c \<in> set (h_children n). \<exists>m. h_nodes s c = Some m \<and> h_parent m = Some a" using tree_okD(3) [OF Suc.prems(1) n] by blast
  from pack_children [OF f Suc.prems(1-3) refl tree_okD(2) [OF Suc.prems(1) n] this]
  obtain u where u: "foldR (do_pack_node d bs) s (h_children n) = Inr u" "tree_ok u" "packed s u" "kept_beside a s u" "h_nodes u a \<noteq> None" by blast
  then obtain m where m: "h_nodes u a = Some m" by blast
  have run: "do_pack_node (Suc d) bs s a = (if \<not> h_root m \<and> h_references m = 0 \<and> a \<notin> set bs then do_remove_history_node u a else Inr u)"
    using n u(1) m by (simp add: deref_def)
  show ?case
  proof (cases "\<not> h_root m \<and> h_references m = 0 \<and> a \<notin> set bs")
    case True
    then have cl: "cleared m" by (simp add: cleared_def)
    obtain t where "do_remove_history_node u a = Inr t" "tree_ok t" "packed u t" "kept_beside a u t"
      using do_remove_ok [OF u(2) m cl clear_not_root [OF u(2) clear_dropped_packed [OF u(3) Suc.prems(2)] m cl]] by blast
    then show ?thesis unfolding run using True u(3,4) packed_trans kept_beside_trans by auto
  next
    case False
    then show ?thesis unfolding run using u by auto
  qed
qed

lemma pack_branches_ok:
  assumes "tree_ok s" "clear_dropped s" "foldR pack_branch s bs = Inr t"
  shows "tree_ok t \<and> packed s t"
  using assms
proof (induction bs arbitrary: s)
  case (Cons b bs)
  obtain u where u: "pack_branch s b = Inr u" "foldR pack_branch u bs = Inr t" using Cons.prems(3) by (auto simp: bindR_Inr)
  obtain n where n: "h_nodes s (snd b) = Some n" using u(1) by (auto simp: pack_branch_def bindR_Inr)
  have "tree_ok u \<and> packed s u"
  proof (cases "cleared n")
    case True
    then show ?thesis using u(1) n do_remove_ok [OF Cons.prems(1) n True clear_not_root [OF Cons.prems(1,2) n True]]
      by (auto simp: pack_branch_def deref_def cleared_def)
  next
    case False
    then show ?thesis using u(1) n Cons.prems(1) by (auto simp: pack_branch_def deref_def cleared_def)
  qed
  then show ?case using Cons.IH [OF _ clear_dropped_packed u(2)] Cons.prems(2) packed_trans by blast
qed simp

lemma hist_inv_packed:
  assumes I: "hist_inv (s, hs)" and P: "packed s t" and T: "tree_ok t"
  shows "ok_step s (t, hs)"
proof -
  note D = invD [OF I]
  have no_open: "\<not> is_open n" if "h_nodes s b = Some n" "cleared n" for b n
    using inv_node(2) [OF I that(1)] that(2) by (auto simp: hist_node_ok_def cleared_def is_open_def)
  have "ids_ok t" using D(2) packed_node(1) [OF P] P unfolding ids_ok_def packed_def by (metis same_core_def)
  moreover have "life_ok t hs"
    unfolding life_ok_def
  proof (intro conjI ballI allI impI)
    fix a assume a: "a \<in> set hs"
    obtain n where n: "h_nodes s a = Some n" "0 < h_references n" using inv_handle [OF I a] .
    then show "h_nodes t a \<noteq> None" using packed_node(2) [OF P n(1)] by (auto simp: cleared_def)
  next
    fix a m assume "h_nodes t a = Some m"
    then obtain n where n: "h_nodes s a = Some n" "same_core n m" using packed_node(1) [OF P] by blast
    then show "h_references m = int (count_list hs a)" "hist_node_ok m"
      using inv_node [OF I n(1)] by (auto simp: same_core_def hist_node_ok_def)
  qed
  moreover have st: "stuck t = stuck s"
  proof -
    have "open_nodes t = open_nodes s"
    proof (intro set_eqI iffI)
      fix a assume "a \<in> open_nodes t"
      then show "a \<in> open_nodes s" using packed_node(1) [OF P, of a] by (auto simp: open_nodes_def same_core_def is_open_def)
    next
      fix a assume "a \<in> open_nodes s"
      then obtain n where n: "h_nodes s a = Some n" "is_open n" by (auto simp: open_nodes_def)
      then obtain m where "h_nodes t a = Some m" using packed_node(2) [OF P n(1)] no_open [OF n(1)] by blast
      then show "a \<in> open_nodes t" using n packed_node(1) [OF P, of a] by (auto simp: open_nodes_def same_core_def is_open_def)
    qed
    then show ?thesis using P by (simp add: stuck_def packed_def)
  qed
  moreover have "heads_ok t"
  proof -
    have hd: "heads t = heads s" "h_next t = h_next s" using P by (simp_all add: packed_def)
    have "usable t b" if "usable s b" for b
    proof -
      obtain n where n: "h_nodes s b = Some n" "h_status n = COMMITTED \<or> h_status n = DATA_LOCKED" using \<open>usable s b\<close> by (auto simp: usable_def)
      then have "\<not> cleared n" using inv_node(2) [OF I n(1)] by (auto simp: cleared_def hist_node_ok_def)
      then obtain m where m: "h_nodes t b = Some m" using packed_node(2) [OF P n(1)] by blast
      then show ?thesis using n packed_node(1) [OF P m] by (auto simp: usable_def same_core_def)
    qed
    moreover have "not_active t b" if "not_active s b" for b
      using that hd(2) packed_node(1) [OF P, of b] by (fastforce simp: not_active_def same_core_def)
    ultimately show ?thesis using heads_okD [OF D(4)] hd(1) st by (intro heads_okI) auto
  qed
  ultimately show ?thesis using T by (simp add: ok_step_def hist_inv_def)
qed

lemma inv_clear_dropped: "hist_inv (s, hs) \<Longrightarrow> clear_dropped s"
  using inv_node(2) by (fastforce simp: clear_dropped_def cleared_def hist_node_ok_def)

lemma pack_nodes_ok:
  assumes I: "hist_inv (s, hs)"
  obtains u where "do_pack_node (h_next s) bs s (history_tree s) = Inr u" "tree_ok u" "packed s u"
  using do_pack_node_ok [OF invD(1) [OF I] inv_clear_dropped [OF I], of "history_tree s" "h_next s" bs] tree_ok_root [OF invD(1) [OF I]]
  by auto

lemma pack_store_packed:
  assumes I: "hist_inv (s, hs)" and r: "pack_store s = Inr t"
  shows "tree_ok t" "packed s t"
proof -
  obtain u where u: "do_pack_node (h_next s) (map snd (named_branches s)) s (history_tree s) = Inr u" "tree_ok u" "packed s u"
    by (rule pack_nodes_ok [OF I])
  then have "foldR pack_branch u (named_branches u) = Inr t" using r by (simp add: pack_store_def)
  from pack_branches_ok [OF u(2) clear_dropped_packed [OF u(3) inv_clear_dropped [OF I]] this]
  show "tree_ok t" "packed s t" using packed_trans [OF u(3)] by blast+
qed

lemma step_pack: "hist_inv (s, hs) \<Longrightarrow> pack_store s = Inr t \<Longrightarrow> ok_step s (t, hs)"
  using hist_inv_packed pack_store_packed by blast

text \<open>With usable heads packing succeeds.\<close>

lemma pack_succeeds:
  assumes I: "hist_inv (s, hs)" and st: "stuck s = 0"
  shows "\<exists>t. pack_store s = Inr t"
proof -
  obtain u where u: "do_pack_node (h_next s) (map snd (named_branches s)) s (history_tree s) = Inr u" "tree_ok u" "packed s u"
    by (rule pack_nodes_ok [OF I])
  have "pack_branch u b = Inr u" if "b \<in> set (named_branches s)" for b
  proof -
    have "usable s (snd b)" using heads_okD(3) [OF invD(4) [OF I] st, of "snd b"] that by auto
    then obtain n where n: "h_nodes s (snd b) = Some n" "h_status n = COMMITTED \<or> h_status n = DATA_LOCKED" by (auto simp: usable_def)
    then have "h_root n" using inv_node(2) [OF I n(1)] by (auto simp: hist_node_ok_def)
    then obtain m where "h_nodes u (snd b) = Some m" "h_root m"
      using packed_node(2) [OF u(3) n(1)] packed_node(1) [OF u(3), of "snd b"] n(1)
      by (cases "h_nodes u (snd b)") (auto simp: cleared_def same_core_def)
    then show ?thesis by (simp add: pack_branch_def deref_def)
  qed
  then have "foldR pack_branch u bs = Inr u" if "set bs \<subseteq> set (named_branches s)" for bs
    using that by (induction bs) auto
  moreover have "named_branches u = named_branches s" using u(3) by (simp add: packed_def)
  ultimately show ?thesis using u(1) by (simp add: pack_store_def)
qed

end
