(* ===== verification/Snapshot_Life.thy ===== *)
theory Snapshot_Life
  imports Snapshot_Pack
begin

text \<open>
  Every step keeps the invariant, so every reachable state has it, and what follows from it for the users of the
  store: the shape of the history, the safety of the snapshot objects, and when a store operation can proceed.
\<close>

section \<open>Reachable states\<close>

lemma step_ok:
  assumes "step w w'" "hist_inv w"
  shows "ok_step (fst w) w'"
  using assms
  by (induction rule: step.induct)
    (simp_all add: step_commit step_drop step_metadata step_lock step_branch step_parent step_destroy step_find step_find_branch
      step_master step_set_master step_set_branch step_remove_branch step_pack)

lemma new_store_Inr:
  "new_store sid = Inr ((base_store sid)\<lparr>h_nodes := [0 \<mapsto> \<lparr>h_parent = None, h_children = [], h_root = True, h_status = COMMITTED,
     h_snapshot_id = sid, h_references = 0, h_metadata = ''''\<rparr>]\<rparr>)"
  by (simp add: new_store_def base_store_def open_snapshot_def persistent_tree_init_def update_node_def deref_def commit_def
      destroy_snapshot_def release_snapshot_def set_node_def ref_active_def unref_active_def)

lemma inv_init:
  assumes "new_store sid = Inr s"
  shows "hist_inv (s, [])" "stuck s = 0"
proof -
  have s: "s = (base_store sid)\<lparr>h_nodes := [0 \<mapsto> \<lparr>h_parent = None, h_children = [], h_root = True, h_status = COMMITTED,
     h_snapshot_id = sid, h_references = 0, h_metadata = ''''\<rparr>]\<rparr>" using assms by (simp add: new_store_Inr)
  have "open_nodes s = {}" by (auto simp: s open_nodes_def is_open_def split: if_splits)
  then show st: "stuck s = 0" by (simp add: stuck_def s base_store_def)
  then have "heads_ok s" by (auto simp: heads_ok_def s base_store_def not_active_def usable_def)
  then show "hist_inv (s, [])"
    by (auto simp: hist_inv_def s base_store_def tree_ok_def ids_ok_def life_ok_def hist_node_ok_def split: if_splits)
qed

lemma reachable_inv: "reachable w \<Longrightarrow> hist_inv w"
  by (induction rule: reachable.induct) (auto simp: inv_init dest: step_ok simp: ok_step_def)

lemma reachable_run: "step\<^sup>*\<^sup>* w w' \<Longrightarrow> reachable w \<Longrightarrow> reachable w'"
  by (induction rule: rtranclp_induct) (auto intro: reachable.Step)

interpretation life: invariant_system step hist_inv
  by unfold_locales (auto simp: ok_step_def dest: step_ok)

lemma stuck_run:
  assumes "step\<^sup>*\<^sup>* w w'" "hist_inv w"
  shows "hist_inv w' \<and> stuck (fst w) \<le> stuck (fst w')"
  using life.run_keeps [OF assms] life.run_order [OF assms, of "\<lambda>u v. stuck (fst u) \<le> stuck (fst v)"] step_ok
  by (force simp: ok_step_def)

section \<open>Closing the open snapshots\<close>

lemma get_handle:
  assumes I: "hist_inv (s, hs)" and a: "a \<in> open_nodes s"
  shows "\<exists>t hs'. step\<^sup>*\<^sup>* (s, hs) (t, hs') \<and> a \<in> set hs' \<and> open_nodes t = open_nodes s \<and> stuck t = stuck s"
proof (cases "a \<in> set hs")
  case True
  then show ?thesis by blast
next
  case False
  obtain n where n: "h_nodes s a = Some n" "is_open n" using a by (auto simp: open_nodes_def)
  have r: "h_references n = 0" using inv_node(1) [OF I n(1)] False by (simp add: count_list_0_iff)
  then have lk: "h_status n = DATA_LOCKED" using inv_node(2) [OF I n(1)] n(2) by (auto simp: hist_node_ok_def is_open_def)
  have id: "snapshot_map s (h_snapshot_id n) = Some a" using invD(2) [OF I] n(1) by (simp add: ids_ok_def)
  let ?s = "s\<lparr>named_branches := AList.update ''b'' a (named_branches s)\<rparr>"
  let ?t = "set_node ?s a (n\<lparr>h_references := h_references n + 1\<rparr>)"
  have "set_branch s ''b'' (h_snapshot_id n) = Inr ?s" using id n(1) lk by (simp add: set_branch_def find_node_def deref_def)
  then have 1: "step (s, hs) (?s, hs)" by (rule step.Set_Branch)
  have "open_snapshot ?s a = Inr ?t" using n(1) lk by (intro open_snapshot_Inr) auto
  then have "find_branch ?s ''b'' = Inr (a, ?t)" using n(1) lk r by (simp add: find_branch_def deref_def update_conv')
  then have 2: "step (?s, hs) (?t, a # hs)" by (rule step.Find_Branch)
  have "open_nodes ?t = open_nodes s" using n lk by (auto simp: open_nodes_def is_open_def)
  moreover have "stuck ?t = stuck s" unfolding stuck_def calculation by simp
  ultimately show ?thesis using 1 2 by (intro exI [of _ ?t] exI [of _ "a # hs"]) auto
qed

lemma close_one:
  assumes I: "hist_inv (s, hs)" and a: "a \<in> open_nodes s"
  shows "\<exists>t hs'. step\<^sup>*\<^sup>* (s, hs) (t, hs') \<and> card (open_nodes t) = card (open_nodes s) - 1 \<and> stuck t = stuck s"
proof -
  obtain t hs' where t: "step\<^sup>*\<^sup>* (s, hs) (t, hs')" "a \<in> set hs'" "open_nodes t = open_nodes s" "stuck t = stuck s"
    using get_handle [OF I a] by blast
  have I': "hist_inv (t, hs')" using stuck_run [OF t(1) I] by simp
  obtain n where n: "h_nodes t a = Some n" "is_open n" using a t(3) by (auto simp: open_nodes_def)
  let ?u = "unref_active (set_node t a (n\<lparr>h_status := COMMITTED\<rparr>))"
  have "commit t a True = Inr ?u" using n by (auto simp: commit_def deref_def is_open_def)
  then have "step (t, hs') (?u, hs')" by (rule step.Commit [OF t(2)])
  moreover have card: "int (card (open_nodes ?u)) = int (card (open_nodes t)) - 1"
    using card_open_set_node [OF invD(1) [OF I'] n(1), of "n\<lparr>h_status := COMMITTED\<rparr>"] n(2) by (simp add: is_open_def)
  moreover have "stuck ?u = stuck t" using card by (simp add: stuck_def)
  moreover have "card (open_nodes ?u) = card (open_nodes s) - 1" using card t(3) by simp
  ultimately show ?thesis using t(1,4) by (intro exI [of _ ?u] exI [of _ hs']) auto
qed

lemma close_all:
  assumes "hist_inv (s, hs)"
  shows "\<exists>t hs'. step\<^sup>*\<^sup>* (s, hs) (t, hs') \<and> open_nodes t = {} \<and> stuck t = stuck s"
  using assms
proof (induction "card (open_nodes s)" arbitrary: s hs)
  case 0
  then have "open_nodes s = {}" using finite_open_nodes [OF invD(1)] by auto
  then show ?case by blast
next
  case (Suc k)
  then obtain a where "a \<in> open_nodes s" by (metis card.empty equals0I nat.simps(3))
  then obtain t hs' where t: "step\<^sup>*\<^sup>* (s, hs) (t, hs')" "card (open_nodes t) = card (open_nodes s) - 1" "stuck t = stuck s"
    using close_one [OF Suc.prems] by blast
  have "k = card (open_nodes t)" using t(2) Suc.hyps(2) by simp
  from Suc.hyps(1) [OF this, of hs'] stuck_run [OF t(1) Suc.prems]
  obtain u hs'' where "step\<^sup>*\<^sup>* (t, hs') (u, hs'')" "open_nodes u = {}" "stuck u = stuck t" by auto
  then show ?case using t(1,3) by (intro exI [of _ u] exI [of _ hs'']) auto
qed

lemma waiting:
  assumes "0 < stuck s"
  shows "store_to s = None"
  using assms by (simp add: store_to_def stuck_def)

section \<open>Properties of the life cycle\<close>

lemma runs: "\<not> isl m \<Longrightarrow> m = Inr (projr m)"
  by (cases m) auto

definition open_at :: "hist_store \<Rightarrow> nat \<Rightarrow> bool" where
  "open_at s a = (case h_nodes s a of None \<Rightarrow> False | Some n \<Rightarrow> is_open n)"

lemma stuck_filter: "tree_ok s \<Longrightarrow> stuck s = active_snapshots s - int (length (filter (open_at s) [0 ..< h_next s]))"
proof -
  assume T: "tree_ok s"
  have "open_nodes s = set (filter (open_at s) [0 ..< h_next s])"
    using tree_okD(1) [OF T] by (auto simp: open_nodes_def open_at_def split: option.splits)
  then show ?thesis by (simp add: stuck_def distinct_card del: set_filter)
qed

text \<open>A store with a committed snapshot, number 101, branched from the root; both are open.\<close>

definition demo_0 :: hist_store where
  "demo_0 = projr (new_store 100)"

definition demo_1 :: hist_store where
  "demo_1 = snd (projr (open_master demo_0))"

definition demo_2 :: hist_store where
  "demo_2 = snd (projr (branch_snapshot demo_1 0 101))"

definition demo_3 :: hist_store where
  "demo_3 = projr (commit demo_2 1 True)"

lemma demo_reachable: "reachable (demo_2, [1, 0])" "reachable (demo_3, [1, 0])"
proof -
  have 0: "new_store 100 = Inr demo_0" unfolding demo_0_def by (rule runs) code_simp
  have "open_master demo_0 = Inr (0, demo_1)"
    by (simp add: demo_1_def demo_0_def open_master_def new_store_Inr base_store_def open_snapshot_Inr)
  then have 1: "step (demo_0, []) (demo_1, [0])" by (rule step.Master)
  have b: "fst (projr (branch_snapshot demo_1 0 101)) = 1" "\<not> isl (branch_snapshot demo_1 0 101)" "snapshot_map demo_1 101 = None" by code_simp+
  have "projr (branch_snapshot demo_1 0 101) = (1, demo_2)" by (simp only: demo_2_def b(1) [symmetric] prod.collapse)
  then have "branch_snapshot demo_1 0 101 = Inr (1, demo_2)" using runs [OF b(2)] by simp
  then have 2: "step (demo_1, [0]) (demo_2, [1, 0])" using b(3) by (intro step.Branch [of 0]) auto
  have "commit demo_2 1 True = Inr demo_3" unfolding demo_3_def by (rule runs) code_simp
  then have 3: "step (demo_2, [1, 0]) (demo_3, [1, 0])" by (intro step.Commit [of 1]) auto
  show "reachable (demo_2, [1, 0])" by (rule reachable.Step [OF reachable.Step [OF reachable.Init [OF 0] 1] 2])
  then show "reachable (demo_3, [1, 0])" by (rule reachable.Step [OF _ 3])
qed

text \<open>
  C9: The history stays a tree and the counts stay right. In every state the operations can reach, every
  node of the history has its parent, links lead both ways, the root is committed and is the only node without
  parent; every node is found under its identifier; the reference count of a node is the number of its
  snapshot objects; only a dropped snapshot is without data, and a dropped snapshot that nobody holds is without
  data; active and locked snapshots have no children, and an active one is held by a snapshot object.
\<close>

theorem history_invariant:
  assumes "reachable (s, hs)"
  shows "(\<exists>r. h_nodes s (history_tree s) = Some r \<and> h_parent r = None \<and> h_status r = COMMITTED)
    \<and> (\<forall>a n. h_nodes s a = Some n \<longrightarrow>
         (case h_parent n of None \<Rightarrow> a = history_tree s
          | Some p \<Rightarrow> p < a \<and> (\<exists>m. h_nodes s p = Some m \<and> a \<in> set (h_children m)))
       \<and> distinct (h_children n) \<and> (\<forall>c \<in> set (h_children n). \<exists>m. h_nodes s c = Some m \<and> h_parent m = Some a)
       \<and> snapshot_map s (h_snapshot_id n) = Some a
       \<and> h_references n = int (count_list hs a)
       \<and> (\<not> h_root n \<longrightarrow> h_status n = DROPPED)
       \<and> (h_status n = DROPPED \<and> a \<notin> set hs \<longrightarrow> \<not> h_root n)
       \<and> (h_status n = ACTIVE \<longrightarrow> a \<in> set hs)
       \<and> (h_status n = ACTIVE \<or> h_status n = DATA_LOCKED \<longrightarrow> h_children n = []))"
proof -
  have I: "hist_inv (s, hs)" by (rule reachable_inv [OF assms])
  have node: "h_references n = int (count_list hs a) \<and> (\<not> h_root n \<longrightarrow> h_status n = DROPPED)
      \<and> (h_status n = DROPPED \<and> a \<notin> set hs \<longrightarrow> \<not> h_root n) \<and> (h_status n = ACTIVE \<longrightarrow> a \<in> set hs)
      \<and> (h_status n = ACTIVE \<or> h_status n = DATA_LOCKED \<longrightarrow> h_children n = [])"
    if "h_nodes s a = Some n" for a n
    using inv_node [OF I that] count_list_0_iff [of hs a] by (auto simp: hist_node_ok_def)
  show ?thesis using invD(1,2) [OF I] node unfolding tree_ok_def ids_ok_def by blast
qed

theorem history_invariant_witness:
  "\<exists>n. h_nodes demo_3 1 = Some n \<and> h_references n = 1 \<and> snapshot_map demo_3 (h_snapshot_id n) = Some 1"
proof -
  obtain n where n: "h_nodes demo_3 1 = Some n" using inv_handle [OF reachable_inv [OF demo_reachable(2)], of 1] by auto
  note H = history_invariant [OF demo_reachable(2), THEN conjunct2, THEN spec, THEN spec, THEN mp, OF n]
  show ?thesis using H n by (intro exI [of _ n]) simp
qed



text \<open>
  C13: Progress of \<open>store\<close>. From a reachable state some sequence of operations leads to a state in which
  \<open>store\<close> returns, and returns without error, if and only if the counter of active snapshots is the number
  of snapshots that are active or locked.
\<close>

theorem store_can_proceed:
  assumes "reachable (s, hs)"
  shows "(\<exists>t hs' u. step\<^sup>*\<^sup>* (s, hs) (t, hs') \<and> store_to t = Some (Inr u))
    \<longleftrightarrow> active_snapshots s = int (card {a. \<exists>n. h_nodes s a = Some n \<and> (h_status n = ACTIVE \<or> h_status n = DATA_LOCKED)})"
proof -
  have I: "hist_inv (s, hs)" by (rule reachable_inv [OF assms])
  have exact: "active_snapshots s = int (card {a. \<exists>n. h_nodes s a = Some n \<and> (h_status n = ACTIVE \<or> h_status n = DATA_LOCKED)})
      \<longleftrightarrow> stuck s = 0"
    by (simp add: stuck_def open_nodes_def is_open_def)
  have "\<exists>t hs' u. step\<^sup>*\<^sup>* (s, hs) (t, hs') \<and> store_to t = Some (Inr u)" if z: "stuck s = 0"
  proof -
    obtain t hs' where t: "step\<^sup>*\<^sup>* (s, hs) (t, hs')" "open_nodes t = {}" "stuck t = 0"
      using close_all [OF I] z by auto
    have "hist_inv (t, hs')" using stuck_run [OF t(1) I] by simp
    then obtain u where "pack_store t = Inr u" using pack_succeeds t(3) by blast
    moreover have "active_snapshots t = 0" using t(2,3) by (simp add: stuck_def)
    ultimately show ?thesis using t(1) by (auto simp: store_to_def)
  qed
  moreover have "stuck s = 0" if t: "step\<^sup>*\<^sup>* (s, hs) (t, hs')" "store_to t = Some (Inr u)" for t hs' u
    using stuck_run [OF t(1) I] t(2) waiting [of t] heads_okD(1) [OF invD(4) [OF I]]
    by (cases "0 < stuck t") auto
  ultimately show ?thesis unfolding exact by blast
qed

theorem store_can_proceed_witness: "\<exists>t hs u. step\<^sup>*\<^sup>* (demo_2, [1, 0]) (t, hs) \<and> store_to t = Some (Inr u)"
proof -
  have "active_snapshots demo_2 = int (length (filter (open_at demo_2) [0 ..< h_next demo_2]))" by code_simp
  then have "stuck demo_2 = 0" using stuck_filter [OF invD(1) [OF reachable_inv [OF demo_reachable(1)]]] by simp
  then show ?thesis unfolding store_can_proceed [OF demo_reachable(1)] by (simp add: stuck_def open_nodes_def is_open_def)
qed

text \<open>
  C34: A locked snapshot that is dropped blocks \<open>store\<close> for ever: \<open>drop\<close> does not take a locked snapshot off the
  counter, so after it, whatever is done, a call of \<open>store\<close> waits.
\<close>

theorem locked_drop_blocks_store:
  assumes "reachable (s, hs)" "a \<in> set hs" "h_nodes s a = Some n" "h_status n = DATA_LOCKED" "drop_snapshot s a = Inr t"
    and "step\<^sup>*\<^sup>* (t, hs) (u, hs')"
  shows "store_to u = None"
proof -
  have I: "hist_inv (s, hs)" by (rule reachable_inv [OF assms(1)])
  have I': "hist_inv (t, hs)"
    by (rule reachable_inv [OF reachable.Step [OF assms(1) step.Drop [OF assms(2,5)]]])
  have "t = set_node s a (n\<lparr>h_status := DROPPED\<rparr>)" using assms(3-5) by (auto simp: drop_snapshot_def update_node_def deref_def split: if_splits)
  then have "stuck t = stuck s + 1"
    using card_open_set_node [OF invD(1) [OF I] assms(3), of "n\<lparr>h_status := DROPPED\<rparr>"] assms(4) by (simp add: stuck_def is_open_def)
  then have "0 < stuck u" using heads_okD(1) [OF invD(4) [OF I]] stuck_run [OF assms(6) I'] by simp
  then show ?thesis by (rule waiting)
qed

definition demo_4 :: hist_store where
  "demo_4 = projr (lock_data_for_import demo_2 1 False)"

definition demo_5 :: hist_store where
  "demo_5 = projr (drop_snapshot demo_4 1)"

definition demo_6 :: hist_store where
  "demo_6 = projr (destroy_snapshot demo_5 1)"

theorem locked_drop_blocks_store_witness: "store_to demo_6 = None"
proof -
  have 4: "lock_data_for_import demo_2 1 False = Inr demo_4" unfolding demo_4_def by (rule runs) code_simp
  have R: "reachable (demo_4, [1, 0])" by (rule reachable.Step [OF demo_reachable(1) step.Lock [OF _ 4]]) simp
  have 5: "drop_snapshot demo_4 1 = Inr demo_5" unfolding demo_5_def by (rule runs) code_simp
  have 6: "destroy_snapshot demo_5 1 = Inr demo_6" unfolding demo_6_def by (rule runs) code_simp
  obtain n where n: "h_nodes demo_4 1 = Some n" using inv_handle [OF reachable_inv [OF R], of 1] by auto
  have "map_option h_status (h_nodes demo_4 1) = Some DATA_LOCKED" by code_simp
  then have st: "h_status n = DATA_LOCKED" using n by simp
  have "step (demo_5, [1, 0]) (demo_6, remove1 1 [1, 0])" by (rule step.Destroy [OF _ 6]) simp
  then have "step\<^sup>*\<^sup>* (demo_5, [1, 0]) (demo_6, remove1 1 [1, 0])" by blast
  from locked_drop_blocks_store [OF R _ n st 5 this] show ?thesis by simp
qed

text \<open>
  C35: Packing leaves identifiers behind. The identifier of a history node that \<open>do_pack\<close> has removed is still
  in the snapshot map, and looking the snapshot up follows the pointer to the deleted node.
\<close>

theorem pack_leaves_dangling_id:
  assumes "reachable (s, hs)" "pack_store s = Inr t" "h_nodes s a = Some n" "h_nodes t a = None"
  shows "find_snapshot t (h_snapshot_id n) = Inl Undef"
proof -
  have I: "hist_inv (s, hs)" by (rule reachable_inv [OF assms(1)])
  then have "snapshot_map s (h_snapshot_id n) = Some a" using invD(2) assms(3) by (auto simp: ids_ok_def)
  then have "snapshot_map t (h_snapshot_id n) = Some a" using pack_store_packed(2) [OF I assms(2)] by (simp add: packed_def)
  then show ?thesis using assms(4) by (simp add: find_snapshot_def find_node_def deref_def)
qed

definition demo_7 :: hist_store where
  "demo_7 = projr (destroy_snapshot (projr (drop_snapshot demo_3 1)) 1)"

theorem pack_leaves_dangling_id_witness: "\<exists>t. pack_store demo_7 = Inr t \<and> find_snapshot t 101 = Inl Undef"
proof -
  have d: "drop_snapshot demo_3 1 = Inr (projr (drop_snapshot demo_3 1))" by (rule runs) code_simp
  have 7: "destroy_snapshot (projr (drop_snapshot demo_3 1)) 1 = Inr demo_7" unfolding demo_7_def by (rule runs) code_simp
  have "reachable (projr (drop_snapshot demo_3 1), [1, 0])" by (rule reachable.Step [OF demo_reachable(2) step.Drop [OF _ d]]) simp
  moreover have "step (projr (drop_snapshot demo_3 1), [1, 0]) (demo_7, remove1 1 [1, 0])" by (rule step.Destroy [OF _ 7]) simp
  ultimately have R: "reachable (demo_7, [0])" by (auto intro: reachable.Step)
  have p: "pack_store demo_7 = Inr (projr (pack_store demo_7))" by (rule runs) code_simp
  have "map_option h_snapshot_id (h_nodes demo_7 1) = Some 101" by code_simp
  then obtain n where n: "h_nodes demo_7 1 = Some n" "h_snapshot_id n = 101" by blast
  have "h_nodes (projr (pack_store demo_7)) 1 = None" by code_simp
  from pack_leaves_dangling_id [OF R p n(1) this] show ?thesis using p n(2) by auto
qed

definition failure :: "'e + 'a \<Rightarrow> 'e option" where
  "failure m = (case m of Inl e \<Rightarrow> Some e | Inr _ \<Rightarrow> None)"


section \<open>The order of the states of a snapshot\<close>

fun status_rank :: "SnapshotStatus \<Rightarrow> nat" where
  "status_rank ACTIVE = 0"
| "status_rank DATA_LOCKED = 1"
| "status_rank COMMITTED = 2"
| "status_rank DROPPED = 3"

definition node_moves :: "hist_node \<Rightarrow> hist_node \<Rightarrow> bool" where
  "node_moves n m \<longleftrightarrow> status_rank (h_status n) \<le> status_rank (h_status m) \<and> h_snapshot_id m = h_snapshot_id n"

definition moves :: "hist_store \<Rightarrow> hist_store \<Rightarrow> bool" where
  "moves s t \<longleftrightarrow> h_next s \<le> h_next t
     \<and> (\<forall>a m. h_nodes t a = Some m \<longrightarrow> h_next s \<le> a \<or> (\<exists>n. h_nodes s a = Some n \<and> node_moves n m))"

lemma moves_refl [simp]: "moves s s"
  by (simp add: moves_def node_moves_def)

lemma node_moves_trans: "node_moves n m \<Longrightarrow> node_moves m k \<Longrightarrow> node_moves n k"
  by (simp add: node_moves_def)

lemma moves_trans:
  assumes "moves s t" "moves t u"
  shows "moves s u"
  unfolding moves_def
proof (intro conjI allI impI)
  show "h_next s \<le> h_next u" using assms by (simp add: moves_def)
  fix a k assume "h_nodes u a = Some k"
  then consider "h_next t \<le> a" | m where "h_nodes t a = Some m" "node_moves m k" using assms(2) by (auto simp: moves_def)
  then show "h_next s \<le> a \<or> (\<exists>n. h_nodes s a = Some n \<and> node_moves n k)"
  proof cases
    case 2
    then show ?thesis using assms(1) node_moves_trans by (fastforce simp: moves_def)
  qed (use assms(1) in \<open>simp add: moves_def\<close>)
qed

lemma moves_same: "h_nodes t = h_nodes s \<Longrightarrow> h_next t = h_next s \<Longrightarrow> moves s t"
  by (simp add: moves_def node_moves_def)

lemma moves_set_node: "h_nodes s a = Some n \<Longrightarrow> node_moves n m \<Longrightarrow> moves s (set_node s a m)"
  by (simp add: moves_def node_moves_def)

lemma moves_fields [simp]:
  "moves s (ref_active t) = moves s t" "moves s (unref_active t) = moves s t"
  "moves (ref_active s) t = moves s t" "moves (unref_active s) t = moves s t"
  "moves s (t\<lparr>snapshot_map := x\<rparr>) = moves s t" "moves (s\<lparr>snapshot_map := x\<rparr>) t = moves s t"
  "moves s (t\<lparr>named_branches := y\<rparr>) = moves s t" "moves s (t\<lparr>master_node := z\<rparr>) = moves s t"
  by (simp_all add: moves_def ref_active_def unref_active_def)

lemma moves_delete_node: "moves s t \<Longrightarrow> moves s (delete_node t a)"
  by (simp add: moves_def delete_node_def)

lemma moves_update_node:
  assumes "update_node f s a = Inr t" "\<And>n. node_moves n (f n)"
  shows "moves s t"
  using assms by (auto simp: update_node_def bindR_Inr intro: moves_set_node)

lemma moves_remove_from_parent: "remove_from_parent s a = Inr t \<Longrightarrow> moves s t"
  by (auto simp: remove_from_parent_def bindR_Inr remove_child_def node_moves_def elim!: moves_update_node split: option.splits)

lemma moves_new_history_node:
  assumes "new_history_node s p sid = Inr (a, t)"
  shows "moves s t"
proof -
  obtain u where u: "update_node (\<lambda>n. n\<lparr>h_children := h_children n @ [h_next s]\<rparr>) (s\<lparr>h_next := h_next s + 1\<rparr>) p = Inr u"
      "a = h_next s" "h_nodes t = (h_nodes u)(a := h_nodes t a)" "h_next t = h_next u"
    using assms by (auto simp: new_history_node_def bindR_Inr Let_def)
  then obtain n where n: "h_nodes s p = Some n" "u = set_node (s\<lparr>h_next := h_next s + 1\<rparr>) p (n\<lparr>h_children := h_children n @ [h_next s]\<rparr>)"
    by (auto simp: update_node_def bindR_Inr deref_def split: option.splits)
  moreover have "h_nodes t b = h_nodes u b" if "b \<noteq> h_next s" for b using u(2,3) that by (metis fun_upd_other)
  ultimately have t: "h_nodes t b = h_nodes (set_node s p (n\<lparr>h_children := h_children n @ [h_next s]\<rparr>)) b" if "b < h_next s" for b
    using that by simp
  have "moves s (set_node s p (n\<lparr>h_children := h_children n @ [h_next s]\<rparr>))"
    by (rule moves_set_node [OF n(1)]) (simp add: node_moves_def)
  moreover have "h_next s \<le> h_next t" using n(2) u(4) by simp
  ultimately show ?thesis unfolding moves_def using t by (metis not_less)
qed

lemma moves_open_snapshot:
  assumes "open_snapshot s a = Inr t"
  shows "moves s t"
proof -
  obtain u v where u: "persistent_tree_init s a = Inr u" "update_node (\<lambda>n. n\<lparr>h_references := h_references n + 1\<rparr>) u a = Inr v"
      "moves u v = moves u t"
    using assms by (auto simp: open_snapshot_def bindR_Inr)
  have "moves s u" using u(1)
    by (auto simp: persistent_tree_init_def bindR_Inr node_moves_def intro: moves_set_node split: if_splits option.splits)
  moreover have "moves u v" by (rule moves_update_node [OF u(2)]) (simp add: node_moves_def)
  ultimately show ?thesis using u(3) moves_trans by blast
qed

lemma moves_commit: "commit s a flushed = Inr t \<Longrightarrow> moves s t"
  by (auto simp: commit_def bindR_Inr node_moves_def intro!: moves_set_node split: if_splits)

lemma moves_adjust: "adjust_named_references s a = Inr t \<Longrightarrow> moves s t"
  by (cases "deref s a") (auto simp: adjust_named_references_def split: option.splits)

lemma moves_drop:
  assumes "drop_snapshot s a = Inr t"
  shows "moves s t"
proof -
  obtain n where n: "h_nodes s a = Some n" using assms by (auto simp: drop_snapshot_def bindR_Inr)
  let ?s = "if h_status n = ACTIVE then unref_active s else s"
  obtain u where u: "(if h_status n = COMMITTED then adjust_named_references ?s a else Inr ?s) = Inr u"
      "update_node (\<lambda>n. n\<lparr>h_status := DROPPED\<rparr>) u a = Inr t"
    using assms n by (simp add: drop_snapshot_def bindR_Inr deref_def Let_def split: if_splits) blast+
  have "moves s u" using u(1) by (auto dest: moves_adjust split: if_splits)
  moreover have "moves u t"
  proof (rule moves_update_node [OF u(2)])
    fix k show "node_moves k (k\<lparr>h_status := DROPPED\<rparr>)" by (cases "h_status k") (simp_all add: node_moves_def)
  qed
  ultimately show ?thesis by (rule moves_trans)
qed

lemma moves_metadata: "set_snapshot_metadata s a x = Inr t \<Longrightarrow> moves s t"
  by (auto simp: set_snapshot_metadata_def bindR_Inr node_moves_def intro!: moves_set_node split: if_splits)

lemma moves_lock: "lock_data_for_import s a opened = Inr t \<Longrightarrow> moves s t"
  by (auto simp: lock_data_for_import_def bindR_Inr node_moves_def intro!: moves_set_node split: if_splits)

lemma moves_branch: "branch_snapshot s a sid = Inr (b, t) \<Longrightarrow> moves s t"
  by (auto simp: branch_snapshot_def bindR_Inr split: if_splits dest!: moves_new_history_node moves_open_snapshot intro: moves_trans)

lemma moves_release: "release_snapshot s a = Inr (act, t) \<Longrightarrow> moves s t"
  by (auto simp: release_snapshot_def bindR_Inr Let_def node_moves_def intro!: moves_set_node split: if_splits)

lemma moves_do_drop: "do_drop s a = Inr t \<Longrightarrow> moves s t"
  by (auto simp: do_drop_def bindR_Inr node_moves_def intro!: moves_set_node split: if_splits)

lemma moves_forget: "forget_snapshot s a = Inr t \<Longrightarrow> moves s t"
  by (auto simp: forget_snapshot_def bindR_Inr dest!: moves_remove_from_parent intro: moves_delete_node)

lemma moves_destroy:
  assumes "destroy_snapshot s a = Inr t"
  shows "moves s t"
proof -
  obtain act u where u: "release_snapshot s a = Inr (act, u)"
      "(case act of Keep \<Rightarrow> Inr u | Drop1 \<Rightarrow> bindR (do_drop u a) (\<lambda>s. forget_snapshot s a) | Drop2 \<Rightarrow> do_drop u a) = Inr t"
    using assms by (auto simp: destroy_snapshot_def bindR_Inr)
  have "moves u t" using u(2) by (cases act) (auto simp: bindR_Inr dest: moves_do_drop moves_forget intro: moves_trans)
  then show ?thesis by (rule moves_trans [OF moves_release [OF u(1)]])
qed

lemma moves_packed: "packed s t \<Longrightarrow> moves s t"
  using packed_node(1) [of s t] by (fastforce simp: moves_def packed_def same_core_def node_moves_def)

lemmas op_moves = moves_commit moves_drop moves_metadata moves_lock moves_branch moves_destroy moves_open_snapshot

lemma step_moves:
  assumes "step w w'" "hist_inv w"
  shows "moves (fst w) (fst w')"
  using assms
proof (induction rule: step.induct)
  case (Pack s t hs)
  then show ?case using pack_store_packed(2) moves_packed by auto
qed (auto simp: open_parent_def find_snapshot_def find_branch_def open_master_def set_master_def set_branch_def remove_named_branch_def
    bindR_Inr split: if_splits option.splits dest!: op_moves)

lemma run_moves:
  assumes "step\<^sup>*\<^sup>* w w'" "hist_inv w"
  shows "moves (fst w) (fst w')"
  by (rule life.run_order [OF assms]) (auto intro: moves_trans step_moves)

text \<open>
  C24: The states of a snapshot are ordered: active, locked for import, committed, dropped. Whatever
  operations run, a node of the history never goes back in this order and keeps its identifier, and a node
  that is gone does not come back. So a dropped snapshot is dropped for good: it is never again
  found by its identifier, nor branched from, committed or locked.
\<close>

theorem status_never_goes_back:
  assumes "reachable (s, hs)" "step\<^sup>*\<^sup>* (s, hs) (t, hs')" "a < h_next s" "h_nodes t a = Some m"
  shows "\<exists>n. h_nodes s a = Some n \<and> h_snapshot_id m = h_snapshot_id n \<and> status_rank (h_status n) \<le> status_rank (h_status m)
    \<and> (h_status n = DROPPED \<longrightarrow> h_status m = DROPPED \<and> find_snapshot t (h_snapshot_id n) = Inl (Refused ''dropped'')
        \<and> (\<forall>sid flushed opened. isl (branch_snapshot t a sid) \<and> isl (commit t a flushed) \<and> isl (lock_data_for_import t a opened)))"
proof -
  have I: "hist_inv (s, hs)" by (rule reachable_inv [OF assms(1)])
  have I': "hist_inv (t, hs')" using stuck_run [OF assms(2) I] by simp
  obtain n where n: "h_nodes s a = Some n" "node_moves n m"
    using run_moves [OF assms(2) I] assms(3,4) unfolding moves_def by (metis fst_conv not_less)
  have "snapshot_map t (h_snapshot_id m) = Some a" using invD(2) [OF I'] assms(4) by (simp add: ids_ok_def)
  moreover have "h_status m = DROPPED" if "h_status n = DROPPED" using n(2) that by (cases "h_status m") (simp_all add: node_moves_def)
  ultimately show ?thesis using n assms(4)
    by (auto simp: node_moves_def find_snapshot_def find_node_def branch_snapshot_def commit_def lock_data_for_import_def deref_def)
qed

theorem status_never_goes_back_witness:
  "find_snapshot demo_7 101 = Inl (Refused ''dropped'')"
proof -
  let ?d = "projr (drop_snapshot demo_3 1)"
  have d: "drop_snapshot demo_3 1 = Inr ?d" by (rule runs) code_simp
  have 7: "destroy_snapshot ?d 1 = Inr demo_7" unfolding demo_7_def by (rule runs) code_simp
  have R: "reachable (?d, [1, 0])" by (rule reachable.Step [OF demo_reachable(2) step.Drop [OF _ d]]) simp
  have "step (?d, [1, 0]) (demo_7, remove1 1 [1, 0])" by (rule step.Destroy [OF _ 7]) simp
  then have S: "step\<^sup>*\<^sup>* (?d, [1, 0]) (demo_7, remove1 1 [1, 0])" by blast
  have "1 < h_next ?d" by code_simp
  moreover have "h_nodes demo_7 1 \<noteq> None" by code_simp
  then obtain m where "h_nodes demo_7 1 = Some m" by blast
  moreover have "map_option h_snapshot_id (h_nodes ?d 1) = Some 101 \<and> map_option h_status (h_nodes ?d 1) = Some DROPPED" by code_simp
  ultimately show ?thesis using status_never_goes_back [OF R S, of 1 m] by auto
qed

end
