(* ===== verification/Store_Image.thy ===== *)
theory Store_Image
  imports Snapshots
begin

text \<open>
  Saving a store to a stream and loading it again (\<^verbatim>\<open>store/memory/common/store_base.hpp\<close>, the \<open>write\<close> and \<open>read\<close> functions and
  \<open>load\<close>; \<open>do_store\<close> of \<^verbatim>\<open>threads_memory_store_impl.hpp\<close>; \<open>read\<close>, \<open>write\<close> and \<open>populate_as_buffer\<close> of the tree nodes). An
  image is a signature, a record with the metadata of the store, for every history node a record followed by the
  records of those nodes and blocks of its tree that are not in the image yet, and a record with the number of records.

  A stream is the list of the values given to the \<open>write\<close> functions of \<open>OutputStreamHandler\<close>; a \<open>read\<close> function
  takes one value of its type, and where the stream has another one or none the result is \<open>Garbled\<close>. The null identifier is 0. What
  the container code does with a block, \<open>serialize\<close> and \<open>deserialize\<close> of its block operations and the header
  fields of the block, is a parameter.
\<close>

section \<open>Streams\<close>

datatype 'k token = Byte int | Int32 int | Int64 int | UInt64 nat | Uuid nat | Key 'k | Text string | Raw "nat list"

text \<open>
  \<open>LoadError\<close> is an error result. \<open>Terminates\<close> is an exception: the reading functions throw, and \<open>load\<close> is \<open>noexcept\<close>. \<open>Unsafe\<close> is
  an access outside an array, a wrong cast or a size no node can have.
\<close>

datatype load_error = LoadError string | Terminates string | Garbled | Unsafe

type_synonym ('k, 'a) reader = "'k token list \<Rightarrow> load_error + ('a \<times> 'k token list)"

definition rd_return :: "'a \<Rightarrow> ('k, 'a) reader" where
  "rd_return a ts = Inr (a, ts)"

definition rd_bind :: "('k, 'a) reader \<Rightarrow> ('a \<Rightarrow> ('k, 'b) reader) \<Rightarrow> ('k, 'b) reader" where
  "rd_bind m f ts = bindR (m ts) (\<lambda>(a, ts). f a ts)"

fun rd_byte :: "('k, int) reader" where
  "rd_byte (Byte i # ts) = Inr (i, ts)"
| "rd_byte _ = Inl Garbled"

fun rd_int32 :: "('k, int) reader" where
  "rd_int32 (Int32 i # ts) = Inr (i, ts)"
| "rd_int32 _ = Inl Garbled"

fun rd_int64 :: "('k, int) reader" where
  "rd_int64 (Int64 i # ts) = Inr (i, ts)"
| "rd_int64 _ = Inl Garbled"

fun rd_uint64 :: "('k, nat) reader" where
  "rd_uint64 (UInt64 i # ts) = Inr (i, ts)"
| "rd_uint64 _ = Inl Garbled"

fun rd_uuid :: "('k, nat) reader" where
  "rd_uuid (Uuid i # ts) = Inr (i, ts)"
| "rd_uuid _ = Inl Garbled"

fun rd_key :: "('k, 'k) reader" where
  "rd_key (Key k # ts) = Inr (k, ts)"
| "rd_key _ = Inl Garbled"

fun rd_text :: "('k, string) reader" where
  "rd_text (Text s # ts) = Inr (s, ts)"
| "rd_text _ = Inl Garbled"

fun rd_raw :: "int \<Rightarrow> ('k, nat list) reader" where
  "rd_raw n (Raw bs # ts) = (if int (length bs) = n then Inr (bs, ts) else Inl Garbled)"
| "rd_raw n _ = Inl Garbled"

text \<open>The loop \<open>for (c = 0; c < n; c++)\<close> around a read.\<close>

primrec rd_many :: "nat \<Rightarrow> ('k, 'a) reader \<Rightarrow> ('k, 'a list) reader" where
  "rd_many 0 r = rd_return []"
| "rd_many (Suc n) r = rd_bind r (\<lambda>a. rd_bind (rd_many n r) (\<lambda>as. rd_return (a # as)))"

section \<open>Buffers\<close>

record 'b block_ops =
  ops_uuid :: "'b \<Rightarrow> nat"
  ops_memory_size :: "'b \<Rightarrow> int"
  ops_ctr_hash :: "'b \<Rightarrow> nat"
  ops_block_hash :: "'b \<Rightarrow> nat"
  ops_serialize :: "'b \<Rightarrow> nat list option"
  ops_deserialize :: "nat \<Rightarrow> nat \<Rightarrow> nat list \<Rightarrow> 'b option"

record HistoryNodeBuffer =
  hb_parent :: nat
  hb_metadata :: string
  hb_children :: "nat list"
  hb_root :: nat
  hb_root_id :: nat
  hb_status :: SnapshotStatus
  hb_snapshot_id :: nat

record AllocatorMetadata =
  am_master :: nat
  am_root :: nat
  am_branches :: "(string \<times> nat) list"

text \<open>A buffer of a node has its counter with it; a child is the identifier of a node, a value those of a block and a snapshot.\<close>

datatype 'k node_buffer = BranchBuffer (bb_refs: int) (bb_node: "('k, nat) node") | LeafBuffer (lb_refs: int) (lb_node: "('k, nat \<times> nat) node")

datatype record_type = TYPE_METADATA | TYPE_HISTORY_NODE | TYPE_BRANCH_NODE | TYPE_LEAF_NODE | TYPE_DATA_BLOCK | TYPE_CHECKSUM

fun type_code :: "record_type \<Rightarrow> int" where
  "type_code TYPE_METADATA = 1"
| "type_code TYPE_HISTORY_NODE = 2"
| "type_code TYPE_BRANCH_NODE = 3"
| "type_code TYPE_LEAF_NODE = 4"
| "type_code TYPE_DATA_BLOCK = 5"
| "type_code TYPE_CHECKSUM = 6"

fun status_code :: "SnapshotStatus \<Rightarrow> int" where
  "status_code ACTIVE = 0"
| "status_code COMMITTED = 1"
| "status_code DROPPED = 2"
| "status_code DATA_LOCKED = 3"

definition status_of :: "int \<Rightarrow> SnapshotStatus option" where
  \<comment> \<open>the cast to the enumeration; another number is no value of it\<close>
  "status_of i = (if i = 0 then Some ACTIVE else if i = 1 then Some COMMITTED else if i = 2 then Some DROPPED
     else if i = 3 then Some DATA_LOCKED else None)"

fun type_number :: "NodeType \<Rightarrow> int" where
  "type_number LEAF = 0"
| "type_number BRANCH = 1"

definition node_type_of :: "int \<Rightarrow> NodeType option" where
  "node_type_of i = (if i = 0 then Some LEAF else if i = 1 then Some BRANCH else None)"

section \<open>Writing\<close>

text \<open>The store with its trees and, for every block pointer, the block.\<close>

record ('k, 'b) mem_store =
  ms_hist :: hist_store
  ms_trees :: "'k store"
  ms_block :: "nat \<Rightarrow> 'b"

record 'k image_writer =
  w_out :: "'k token list"
  w_records :: int
  w_stored :: "(nat + nat) set"

definition put :: "'k image_writer \<Rightarrow> 'k token list \<Rightarrow> 'k image_writer" where
  "put w ts = w\<lparr>w_out := w_out w @ ts, w_records := w_records w + 1\<rparr>"

definition write_node :: "node_cfg \<Rightarrow> ('d \<Rightarrow> 'k token list) \<Rightarrow> int \<Rightarrow> ('k, 'd) node \<Rightarrow> 'k token list" where
  "write_node c write_data count n =
     [Int64 (metadata_size n), Int32 (type_number (node_type n)), Uuid (node_id n), Uuid (snapshot_id n),
      Int32 (int (node_size n)), Int64 count]
     @ map Key (take (last_idx c n) (node_index n)) @ map Key (take (node_size n) (node_keys n))
     @ concat (map write_data (take (node_size n) (node_data n)))"

definition id_at :: "('k, 'b) mem_store \<Rightarrow> nat \<Rightarrow> hist_error + nat" where
  \<comment> \<open>\<open>node->node_id()\<close>\<close>
  "id_at m a = (case nodes (ms_trees m) a of None \<Rightarrow> Inl Undef | Some (Branch n) \<Rightarrow> Inr (node_id n) | Some (Leaf n) \<Rightarrow> Inr (node_id n))"

primrec mapR :: "('a \<Rightarrow> 'e + 'b) \<Rightarrow> 'a list \<Rightarrow> 'e + 'b list" where
  "mapR f [] = Inr []"
| "mapR f (x # xs) = bindR (f x) (\<lambda>y. bindR (mapR f xs) (\<lambda>ys. Inr (y # ys)))"

text \<open>
  \<open>populate_as_buffer\<close> copies as many entries of the index as a block has keys, \<open>NodeIndexSize\<close>, where the index has \<open>Indexes\<close> of
  them: it must not have less. What is not copied is left as the constructor made it, here 0. The data \<open>ds\<close> is what the
  caller stores next.
\<close>

definition populate_ok :: "node_cfg \<Rightarrow> bool" where
  "populate_ok c \<longleftrightarrow> NodeIndexSize c \<le> Indexes c"

definition populate_as_buffer :: "node_cfg \<Rightarrow> ('k :: zero, 'd) node \<Rightarrow> 'e list \<Rightarrow> ('k, 'e) node" where
  "populate_as_buffer c n ds =
     \<lparr>metadata_size = metadata_size n, node_type = node_type n, node_id = node_id n, snapshot_id = snapshot_id n, node_size = node_size n,
      node_index = take (NodeIndexSize c) (node_index n) @ replicate (Indexes c - NodeIndexSize c) 0,
      node_keys = take (node_size n) (node_keys n) @ replicate (NodeSize c - node_size n) 0, node_data = ds\<rparr>"

definition to_branch_buffer :: "node_cfg \<Rightarrow> ('k :: zero, 'b) mem_store \<Rightarrow> ('k, nat) node \<Rightarrow> hist_error + ('k, nat) node" where
  "to_branch_buffer c m n =
     (if populate_ok c then bindR (mapR (id_at m) (take (node_size n) (node_data n))) (\<lambda>ids. Inr (populate_as_buffer c n ids)) else Inl Undef)"

definition to_leaf_buffer ::
  "node_cfg \<Rightarrow> 'b block_ops \<Rightarrow> ('k :: zero, 'b) mem_store \<Rightarrow> ('k, pvalue) node \<Rightarrow> hist_error + ('k, nat \<times> nat) node" where
  "to_leaf_buffer c ops m n =
     (if populate_ok c
      then Inr (populate_as_buffer c n (map (\<lambda>v. (ops_uuid ops (ms_block m (block_ptr v)), value_snapshot v)) (take (node_size n) (node_data n))))
      else Inl Undef)"

definition write_branch :: "node_cfg \<Rightarrow> 'k image_writer \<Rightarrow> int \<Rightarrow> ('k, nat) node \<Rightarrow> 'k image_writer" where
  "write_branch c w count n = put w (Byte (type_code TYPE_BRANCH_NODE) # write_node c (\<lambda>i. [Uuid i]) count n)"

definition write_leaf :: "node_cfg \<Rightarrow> 'k image_writer \<Rightarrow> int \<Rightarrow> ('k, nat \<times> nat) node \<Rightarrow> 'k image_writer" where
  "write_leaf c w count n = put w (Byte (type_code TYPE_LEAF_NODE) # write_node c (\<lambda>(b, s). [Uuid b, Uuid s]) count n)"

definition write_block :: "'b block_ops \<Rightarrow> ('k, 'b) mem_store \<Rightarrow> 'k image_writer \<Rightarrow> nat \<Rightarrow> hist_error + 'k image_writer" where
  "write_block ops m w b =
     (let blk = ms_block m b in
      case (blocks (ms_trees m) b, ops_serialize ops blk) of
        (None, _) \<Rightarrow> Inl Undef
      | (_, None) \<Rightarrow> Inl (Refused ''serialize'')
      | (Some r, Some bytes) \<Rightarrow>
          Inr (put w [Byte (type_code TYPE_DATA_BLOCK), Int64 r, Int32 (int (length bytes)), Int32 (ops_memory_size ops blk),
                      UInt64 (ops_ctr_hash ops blk), UInt64 (ops_block_hash ops blk), Raw bytes]))"

primrec write_persistent_tree ::
  "nat \<Rightarrow> node_cfg \<Rightarrow> 'b block_ops \<Rightarrow> ('k :: zero, 'b) mem_store \<Rightarrow> 'k image_writer \<Rightarrow> nat \<Rightarrow> hist_error + 'k image_writer" where
  \<comment> \<open>the first argument bounds the depth of the tree\<close>
  "write_persistent_tree 0 c ops m w a = Inl Undef"
| "write_persistent_tree (Suc d) c ops m w a =
     (if Inl a \<notin> w_stored w then
        let w = w\<lparr>w_stored := insert (Inl a) (w_stored w)\<rparr> in
        case nodes (ms_trees m) a of
          None \<Rightarrow> Inl Undef
        | Some (Leaf n) \<Rightarrow>
            bindR (to_leaf_buffer c ops m n) (\<lambda>buf.
              foldR (\<lambda>w b. if Inr b \<notin> w_stored w
                           then bindR (write_block ops m w b) (\<lambda>w. Inr (w\<lparr>w_stored := insert (Inr b) (w_stored w)\<rparr>)) else Inr w)
                (write_leaf c w (refs (ms_trees m) a) buf) (map block_ptr (take (node_size n) (node_data n))))
        | Some (Branch n) \<Rightarrow>
            bindR (to_branch_buffer c m n) (\<lambda>buf.
              foldR (write_persistent_tree d c ops m) (write_branch c w (refs (ms_trees m) a) buf) (take (node_size n) (node_data n)))
      else Inr w)"

definition snapshot_of :: "('k, 'b) mem_store \<Rightarrow> nat \<Rightarrow> hist_error + nat" where
  "snapshot_of m a = bindR (deref (ms_hist m) a) (\<lambda>n. Inr (h_snapshot_id n))"

definition write_metadata :: "('k, 'b) mem_store \<Rightarrow> 'k image_writer \<Rightarrow> hist_error + 'k image_writer" where
  "write_metadata m w =
     bindR (snapshot_of m (master_node (ms_hist m))) (\<lambda>master.
     bindR (snapshot_of m (history_tree (ms_hist m))) (\<lambda>root.
     bindR (mapR (\<lambda>(name, a). bindR (snapshot_of m a) (\<lambda>i. Inr (name, i))) (named_branches (ms_hist m))) (\<lambda>bs.
       Inr (put w ([Byte (type_code TYPE_METADATA), Uuid master, Uuid root, Int64 (int (length bs))]
         @ concat (map (\<lambda>(name, i). [Text name, Uuid i]) bs))))))"

definition history_buffer :: "('k, 'b) mem_store \<Rightarrow> nat \<Rightarrow> hist_error + HistoryNodeBuffer" where
  \<comment> \<open>the values that \<open>write_history_node\<close> collects from the node\<close>
  "history_buffer m a =
     bindR (deref (ms_hist m) a) (\<lambda>n.
       case hist (ms_trees m) a of
         None \<Rightarrow> Inl Undef
       | Some hn \<Rightarrow>
           bindR (if hn_root hn \<noteq> 0 then id_at m (hn_root hn) else Inr 0) (\<lambda>root.
           bindR (case h_parent n of None \<Rightarrow> Inr 0 | Some p \<Rightarrow> snapshot_of m p) (\<lambda>parent.
           bindR (mapR (snapshot_of m) (h_children n)) (\<lambda>ids.
             Inr \<lparr>hb_parent = parent, hb_metadata = h_metadata n, hb_children = ids, hb_root = root, hb_root_id = hn_root_id hn,
                  hb_status = h_status n, hb_snapshot_id = h_snapshot_id n\<rparr>))))"

definition write_history_node ::
  "nat \<Rightarrow> node_cfg \<Rightarrow> 'b block_ops \<Rightarrow> ('k :: zero, 'b) mem_store \<Rightarrow> 'k image_writer \<Rightarrow> nat \<Rightarrow> hist_error + 'k image_writer" where
  "write_history_node d c ops m w a =
     bindR (history_buffer m a) (\<lambda>b.
       let w = put w ([Byte (type_code TYPE_HISTORY_NODE), Int32 (status_code (hb_status b)), Uuid (hb_snapshot_id b), Uuid (hb_root b),
                       Uuid (hb_root_id b), Uuid (hb_parent b), Text (hb_metadata b), Int64 (int (length (hb_children b)))]
                      @ map Uuid (hb_children b)) in
       case hist (ms_trees m) a of
         None \<Rightarrow> Inl Undef
       | Some hn \<Rightarrow> if hn_root hn \<noteq> 0 then write_persistent_tree d c ops m w (hn_root hn) else Inr w)"

primrec walk_version_tree :: "nat \<Rightarrow> ('w \<Rightarrow> nat \<Rightarrow> hist_error + 'w) \<Rightarrow> hist_store \<Rightarrow> 'w \<Rightarrow> nat \<Rightarrow> hist_error + 'w" where
  \<comment> \<open>the first argument bounds the depth of the history\<close>
  "walk_version_tree 0 fn s w a = Inl Undef"
| "walk_version_tree (Suc d) fn s w a =
     bindR (fn w a) (\<lambda>w. bindR (deref s a) (\<lambda>n. foldR (walk_version_tree d fn s) w (h_children n)))"

definition signature :: "nat list" where
  "signature = [77, 69, 77, 79, 82, 73, 65, 0, 0, 0, 0, 0]"

definition do_store :: "node_cfg \<Rightarrow> 'b block_ops \<Rightarrow> ('k :: zero, 'b) mem_store \<Rightarrow> hist_error + 'k token list" where
  "do_store c ops m =
     bindR (pack_store (ms_hist m)) (\<lambda>h.
       let m = m\<lparr>ms_hist := h\<rparr> in
       bindR (write_metadata m \<lparr>w_out = [Raw signature], w_records = 0, w_stored = {}\<rparr>) (\<lambda>w.
       bindR (walk_version_tree (h_next h) (write_history_node 8 c ops m) h w (history_tree h)) (\<lambda>w.
         Inr (w_out w @ [Byte (type_code TYPE_CHECKSUM), Int64 (w_records w + 1)]))))"

section \<open>Reading\<close>

record ('k, 'b) loader =
  l_metadata :: AllocatorMetadata
  l_hist :: "nat \<Rightarrow> HistoryNodeBuffer option"
  l_nodes :: "nat \<Rightarrow> ('k node_buffer \<times> nat) option"
  l_node_ids :: "nat list"
  l_next_node :: nat
  l_blocks :: "nat \<Rightarrow> nat option"
  l_block :: "nat \<Rightarrow> 'b"
  l_counts :: "nat \<Rightarrow> int option"
  l_next_block :: nat

definition read_metadata :: "AllocatorMetadata \<Rightarrow> ('k, AllocatorMetadata) reader" where
  "read_metadata md =
     rd_bind rd_uuid (\<lambda>master. rd_bind rd_uuid (\<lambda>root. rd_bind rd_int64 (\<lambda>n.
     rd_bind (rd_many (nat n) (rd_bind rd_text (\<lambda>name. rd_bind rd_uuid (\<lambda>v. rd_return (name, v))))) (\<lambda>bs.
       rd_return \<lparr>am_master = master, am_root = root, am_branches = fold (\<lambda>(name, v). AList.update name v) bs (am_branches md)\<rparr>))))"

definition read_node :: "node_cfg \<Rightarrow> ('k, 'd) reader \<Rightarrow> ('k :: zero, int \<times> ('k, 'd) node) reader" where
  "read_node c read_data =
     rd_bind rd_int64 (\<lambda>msize. rd_bind rd_int32 (\<lambda>ty. rd_bind rd_uuid (\<lambda>nid. rd_bind rd_uuid (\<lambda>sid.
     rd_bind rd_int32 (\<lambda>sz. rd_bind rd_int64 (\<lambda>count.
       if sz < 0 \<or> int (NodeSize c) < sz then (\<lambda>_. Inl Unsafe)
       else
         let n = \<lparr>metadata_size = msize, node_type = LEAF, node_id = nid, snapshot_id = sid, node_size = nat sz,
                  node_index = [], node_keys = [], node_data = []\<rparr> in
         rd_bind (rd_many (last_idx c n) rd_key) (\<lambda>idx. rd_bind (rd_many (nat sz) rd_key) (\<lambda>ks. rd_bind (rd_many (nat sz) read_data) (\<lambda>ds.
           case node_type_of ty of
             None \<Rightarrow> (\<lambda>_. Inl Garbled)
           | Some t \<Rightarrow> rd_return (count, n\<lparr>node_type := t, node_index := idx @ replicate (Indexes c - length idx) 0,
                         node_keys := ks @ replicate (NodeSize c - length ks) 0, node_data := ds\<rparr>))))))))))"

definition add_node :: "node_cfg \<Rightarrow> ('k, 'b) loader \<Rightarrow> nat \<Rightarrow> 'k node_buffer \<Rightarrow> load_error + ('k, 'b) loader" where
  \<comment> \<open>the buffer is registered with a new node, whose fields \<open>link_node\<close> fills in\<close>
  "add_node c l i b =
     (if l_nodes l i = None
      then if \<not> populate_ok c then Inl Unsafe else
           Inr (l\<lparr>l_nodes := (l_nodes l)(i \<mapsto> (b, l_next_node l)), l_node_ids := l_node_ids l @ [i], l_next_node := l_next_node l + 1\<rparr>)
      else Inl (Terminates ''node already registered''))"

definition read_leaf_node :: "node_cfg \<Rightarrow> ('k :: zero, 'b) loader \<Rightarrow> ('k, ('k, 'b) loader) reader" where
  "read_leaf_node c l =
     rd_bind (read_node c (rd_bind rd_uuid (\<lambda>b. rd_bind rd_uuid (\<lambda>s. rd_return (b, s))))) (\<lambda>(count, n) ts.
       bindR (add_node c l (node_id n) (LeafBuffer count n)) (\<lambda>l. Inr (l, ts)))"

definition read_branch_node :: "node_cfg \<Rightarrow> ('k :: zero, 'b) loader \<Rightarrow> ('k, ('k, 'b) loader) reader" where
  "read_branch_node c l =
     rd_bind (read_node c rd_uuid) (\<lambda>(count, n) ts. bindR (add_node c l (node_id n) (BranchBuffer count n)) (\<lambda>l. Inr (l, ts)))"

definition read_data_block :: "'b block_ops \<Rightarrow> ('k, 'b) loader \<Rightarrow> ('k, ('k, 'b) loader) reader" where
  "read_data_block ops l =
     rd_bind rd_int64 (\<lambda>count. rd_bind rd_int32 (\<lambda>data_size. rd_bind rd_int32 (\<lambda>block_size.
     rd_bind rd_uint64 (\<lambda>ctr_hash. rd_bind rd_uint64 (\<lambda>block_hash. rd_bind (rd_raw data_size) (\<lambda>bytes ts.
       case ops_deserialize ops ctr_hash block_hash bytes of
         None \<Rightarrow> Inl (LoadError ''deserialize'')
       | Some blk \<Rightarrow>
           if l_blocks l (ops_uuid ops blk) = None
           then Inr (l\<lparr>l_blocks := (l_blocks l)(ops_uuid ops blk \<mapsto> l_next_block l), l_block := (l_block l)(l_next_block l := blk),
                       l_counts := (l_counts l)(l_next_block l \<mapsto> count), l_next_block := l_next_block l + 1\<rparr>, ts)
           else Inl (LoadError ''block already registered'')))))))"

definition read_history_node :: "('k, 'b) loader \<Rightarrow> ('k, ('k, 'b) loader) reader" where
  "read_history_node l =
     rd_bind rd_int32 (\<lambda>st. rd_bind rd_uuid (\<lambda>sid. rd_bind rd_uuid (\<lambda>root. rd_bind rd_uuid (\<lambda>root_id. rd_bind rd_uuid (\<lambda>parent.
     rd_bind rd_text (\<lambda>metadata. rd_bind rd_int64 (\<lambda>n. rd_bind (rd_many (nat n) rd_uuid) (\<lambda>ids ts.
       case status_of st of
         None \<Rightarrow> Inl Garbled
       | Some status \<Rightarrow>
           if l_hist l sid = None
           then Inr (l\<lparr>l_hist := (l_hist l)(sid \<mapsto> \<lparr>hb_parent = parent, hb_metadata = metadata, hb_children = ids, hb_root = root,
                       hb_root_id = root_id, hb_status = status, hb_snapshot_id = sid\<rparr>)\<rparr>, ts)
           else Inl (Terminates ''history node already registered'')))))))))"

definition read_record ::
  "node_cfg \<Rightarrow> 'b block_ops \<Rightarrow> ('k :: zero, 'b) loader \<Rightarrow> int \<Rightarrow> ('k, ('k, 'b) loader) reader" where
  \<comment> \<open>the cases of the loop but the last record\<close>
  "read_record c ops l ty =
     (if ty = type_code TYPE_METADATA then rd_bind (read_metadata (l_metadata l)) (\<lambda>md. rd_return (l\<lparr>l_metadata := md\<rparr>))
      else if ty = type_code TYPE_DATA_BLOCK then read_data_block ops l
      else if ty = type_code TYPE_LEAF_NODE then read_leaf_node c l
      else if ty = type_code TYPE_BRANCH_NODE then read_branch_node c l
      else if ty = type_code TYPE_HISTORY_NODE then read_history_node l
      else (\<lambda>_. Inl (LoadError ''unknown record type'')))"

primrec read_records ::
  "nat \<Rightarrow> node_cfg \<Rightarrow> 'b block_ops \<Rightarrow> ('k :: zero, 'b) loader \<Rightarrow> int \<Rightarrow> 'k token list \<Rightarrow> load_error + (('k, 'b) loader \<times> int \<times> int)" where
  \<comment> \<open>the loader, the number of records read and the number the last record says; the first argument bounds the number of records\<close>
  "read_records 0 c ops l k ts = Inl Garbled"
| "read_records (Suc f) c ops l k ts =
     bindR (rd_byte ts) (\<lambda>(ty, ts).
       if ty = type_code TYPE_CHECKSUM then bindR (rd_int64 ts) (\<lambda>(n, _). Inr (l, k + 1, n))
       else bindR (read_record c ops l ty ts) (\<lambda>(l, ts). read_records f c ops l (k + 1) ts))"

section \<open>Linking what was read\<close>

definition link_child :: "('k, 'b) loader \<Rightarrow> nat \<Rightarrow> load_error + nat" where
  "link_child l i = (case l_nodes l i of None \<Rightarrow> Inl (LoadError ''node not found'') | Some (_, a) \<Rightarrow> Inr a)"

definition link_value :: "('k, 'b) loader \<Rightarrow> nat \<times> nat \<Rightarrow> load_error + pvalue" where
  "link_value l v = (case l_blocks l (fst v) of None \<Rightarrow> Inl (LoadError ''block not found'') | Some b \<Rightarrow> Inr (PersistentTreeValue b (snd v)))"

definition with_data :: "node_cfg \<Rightarrow> ('k :: zero, 'd) node \<Rightarrow> ('e :: zero) list \<Rightarrow> ('k, 'e) node" where
  "with_data c n ds = populate_as_buffer c n (ds @ replicate (NodeSize c - length ds) 0)"

definition link_node :: "node_cfg \<Rightarrow> ('k :: zero, 'b) loader \<Rightarrow> 'k node_buffer \<Rightarrow> load_error + (int \<times> 'k tnode)" where
  "link_node c l b =
     (case b of
        LeafBuffer count n \<Rightarrow>
          if node_type n = LEAF then bindR (mapR (link_value l) (node_data n)) (\<lambda>vs. Inr (count, Leaf (with_data c n vs))) else Inl Unsafe
      | BranchBuffer count n \<Rightarrow>
          if node_type n = BRANCH then bindR (mapR (link_child l) (node_data n)) (\<lambda>as. Inr (count, Branch (with_data c n as))) else Inl Unsafe)"

definition link_nodes :: "node_cfg \<Rightarrow> ('k :: zero, 'b) loader \<Rightarrow> 'k store \<Rightarrow> load_error + 'k store" where
  "link_nodes c l s =
     foldR (\<lambda>s i.
       case l_nodes l i of
         None \<Rightarrow> Inr s
       | Some (b, a) \<Rightarrow> bindR (link_node c l b) (\<lambda>(count, t).
           Inr (s\<lparr>nodes := (nodes s)(a \<mapsto> t), refs := (refs s)(a := count)\<rparr>))) s (l_node_ids l)"

text \<open>\<open>HistoryNode(allocator, snapshot_id, parent, status)\<close>, entered into the snapshot map.\<close>

definition restored_node :: "HistoryNodeBuffer \<Rightarrow> nat option \<Rightarrow> bool \<Rightarrow> hist_node" where
  "restored_node b parent has_root =
     \<lparr>h_parent = parent, h_children = [], h_root = has_root, h_status = hb_status b, h_snapshot_id = hb_snapshot_id b,
      h_references = 0, h_metadata = hb_metadata b\<rparr>"

definition add_child :: "hist_store \<Rightarrow> nat option \<Rightarrow> nat \<Rightarrow> hist_store" where
  "add_child s parent a =
     (case parent of None \<Rightarrow> s
      | Some p \<Rightarrow> (case h_nodes s p of None \<Rightarrow> s | Some n \<Rightarrow> set_node s p (n\<lparr>h_children := h_children n @ [a]\<rparr>)))"

primrec build_history_tree ::
  "nat \<Rightarrow> ('k, 'b) loader \<Rightarrow> nat option \<Rightarrow> hist_store \<times> (nat \<Rightarrow> hnode option) \<Rightarrow> nat \<Rightarrow> load_error + (hist_store \<times> (nat \<Rightarrow> hnode option))" where
  \<comment> \<open>the first argument bounds the depth of the recursion\<close>
  "build_history_tree 0 l parent w sid = Inl Unsafe"
| "build_history_tree (Suc d) l parent w sid =
     (case l_hist l sid of
        None \<Rightarrow> Inl (Terminates ''snapshot not found'')
      | Some b \<Rightarrow>
          bindR (if hb_root b = 0 then Inr 0
                 else case l_nodes l (hb_root b) of None \<Rightarrow> Inl (Terminates ''root not found'') | Some (_, r) \<Rightarrow> Inr r) (\<lambda>r.
            let (s, hs) = w;
                a = h_next s;
                s = set_node (add_child (s\<lparr>h_next := a + 1\<rparr>) parent a) a (restored_node b parent (hb_root b \<noteq> 0));
                s = s\<lparr>snapshot_map := (snapshot_map s)(sid \<mapsto> a)\<rparr>;
                hs = hs(a \<mapsto> \<lparr>hn_parent = parent, hn_root = r, hn_root_id = hb_root_id b, hn_status = hb_status b\<rparr>)
            in foldR (build_history_tree d l (Some a)) (s, hs) (hb_children b)))"

definition find_loaded :: "hist_store \<Rightarrow> string \<Rightarrow> nat \<Rightarrow> load_error + nat" where
  "find_loaded s msg sid = (case snapshot_map s sid of None \<Rightarrow> Inl (LoadError msg) | Some a \<Rightarrow> Inr a)"

definition empty_loader :: "'b \<Rightarrow> ('k, 'b) loader" where
  "empty_loader blk =
     \<lparr>l_metadata = \<lparr>am_master = 0, am_root = 0, am_branches = []\<rparr>, l_hist = (\<lambda>_. None), l_nodes = (\<lambda>_. None), l_node_ids = [],
      l_next_node = 1, l_blocks = (\<lambda>_. None), l_block = (\<lambda>_. blk), l_counts = (\<lambda>_. None), l_next_block = 1\<rparr>"

definition empty_history :: hist_store where
  "empty_history =
     \<lparr>h_nodes = (\<lambda>_. None), h_next = 0, history_tree = 0, master_node = 0, snapshot_map = (\<lambda>_. None), named_branches = [],
      active_snapshots = 0\<rparr>"

definition check_signature :: "nat list \<Rightarrow> load_error + unit" where
  "check_signature sig =
     (if take 7 sig \<noteq> take 7 signature then Inl (LoadError ''no MEMORIA signature'')
      else if sig ! 7 \<noteq> 0 \<and> sig ! 7 \<noteq> 1 then Inl (LoadError ''endianness'')
      else if sig ! 8 \<noteq> 0 then Inl (LoadError ''not an in-memory container'')
      else Inr ())"

definition link_all :: "node_cfg \<Rightarrow> ('k :: zero, 'b) loader \<Rightarrow> nat \<Rightarrow> load_error + ('k, 'b) mem_store" where
  \<comment> \<open>\<open>load\<close> after the records were read, up to the deletion of dropped snapshots\<close>
  "link_all c l depth =
     bindR (link_nodes c l \<lparr>nodes = (\<lambda>_. None), refs = (\<lambda>_. 0), next_node = l_next_node l, next_id = 0, blocks = l_counts l, hist = (\<lambda>_. None)\<rparr>) (\<lambda>s.
     bindR (build_history_tree depth l None (empty_history, \<lambda>_. None) (am_root (l_metadata l))) (\<lambda>(h, hs).
     bindR (find_loaded h ''master not found'' (am_master (l_metadata l))) (\<lambda>master.
     bindR (foldR (\<lambda>h (name, sid). bindR (find_loaded h ''branch not found'' sid) (\<lambda>a.
              Inr (h\<lparr>named_branches := AList.update name a (named_branches h)\<rparr>)))
            (h\<lparr>history_tree := h_next empty_history, master_node := master\<rparr>) (am_branches (l_metadata l))) (\<lambda>h.
       Inr \<lparr>ms_hist = h, ms_trees = s\<lparr>hist := hs\<rparr>, ms_block = l_block l\<rparr>))))"

definition load_image :: "node_cfg \<Rightarrow> 'b block_ops \<Rightarrow> 'b \<Rightarrow> ('k :: zero) token list \<Rightarrow> load_error + ('k, 'b) mem_store" where
  "load_image c ops blk ts =
     bindR (rd_raw 12 ts) (\<lambda>(sig, ts). bindR (check_signature sig) (\<lambda>_.
     bindR (read_records (length ts) c ops (empty_loader blk) 0 ts) (\<lambda>(l, records, checksum).
       if records \<noteq> checksum then Inl (LoadError ''records checksum'') else link_all c l (length ts))))"

text \<open>The last part of \<open>load\<close>: the data of dropped snapshots is deleted and the history is packed.\<close>

primrec do_delete_dropped :: "nat \<Rightarrow> ('k, 'b) mem_store \<Rightarrow> nat \<Rightarrow> load_error + ('k, 'b) mem_store" where
  "do_delete_dropped 0 m a = Inl Unsafe"
| "do_delete_dropped (Suc d) m a =
     (case h_nodes (ms_hist m) a of
        None \<Rightarrow> Inl Unsafe
      | Some n \<Rightarrow>
          bindR (if h_status n = DROPPED \<and> h_root n
                 then (case delete_snapshot 8 (ms_trees m) a of
                         None \<Rightarrow> Inl Unsafe
                       | Some s \<Rightarrow> Inr (m\<lparr>ms_trees := s, ms_hist := set_node (ms_hist m) a (n\<lparr>h_root := False\<rparr>)\<rparr>))
                 else Inr m) (\<lambda>m. foldR (do_delete_dropped d) m (h_children n)))"

definition load_store :: "node_cfg \<Rightarrow> 'b block_ops \<Rightarrow> 'b \<Rightarrow> ('k :: zero) token list \<Rightarrow> load_error + ('k, 'b) mem_store" where
  "load_store c ops blk ts =
     bindR (load_image c ops blk ts) (\<lambda>m.
     bindR (do_delete_dropped (h_next (ms_hist m)) m (history_tree (ms_hist m))) (\<lambda>m.
       case pack_store (ms_hist m) of Inl _ \<Rightarrow> Inl Unsafe | Inr h \<Rightarrow> Inr (m\<lparr>ms_hist := h\<rparr>)))"

end
