(* ===== verification/Store_Image_Trees.thy ===== *)
theory Store_Image_Trees
  imports Store_Image PTree_Snapshots Snapshot_Life
begin

text \<open>
  Writing the trees of a store and reading the records back. \<open>stream_codec\<close> is the contract between a \<open>write\<close> function and
  its \<open>read\<close>; it is interpreted on the values that an image has lists of. \<open>reads\<close> says that a piece of the stream is read as so many
  records, \<open>nodes_loaded\<close> and \<open>blocks_loaded\<close> what a loader has after the nodes and blocks of a set, and \<open>write_tree_ok\<close> that
  \<open>write_persistent_tree\<close> writes each node and block of a tree once and that the loader then has them.
\<close>

section \<open>Values and records\<close>

lemma rd_bind_Inr [simp]: "m ts = Inr (a, us) \<Longrightarrow> rd_bind m f ts = f a us"
  by (simp add: rd_bind_def)

text \<open>
  A value that is written by \<open>enc\<close> and read by \<open>dec\<close>, whatever follows it in the stream; lists of such values are read back, and
  so are the nodes of a tree with such data.
\<close>

locale stream_codec =
  fixes enc :: "'a \<Rightarrow> ('k :: zero) token list" and dec :: "('k, 'a) reader"
  assumes dec_enc: "dec (enc x @ ts) = Inr (x, ts)"
begin

lemma many: "rd_many (length xs) dec (concat (map enc xs) @ ts) = Inr (xs, ts)"
proof (induction xs arbitrary: ts)
  case (Cons x xs)
  then show ?case using dec_enc [of x "concat (map enc xs) @ ts"] by (simp add: rd_return_def)
qed (simp add: rd_return_def)

end

interpretation uuid: stream_codec "\<lambda>i. [Uuid i]" rd_uuid by unfold_locales simp

interpretation key: stream_codec "\<lambda>k. [Key k]" rd_key by unfold_locales simp

interpretation leaf_value: stream_codec "\<lambda>(b, s). [Uuid b, Uuid s]" "rd_bind rd_uuid (\<lambda>b. rd_bind rd_uuid (\<lambda>s. rd_return (b, s)))"
  by unfold_locales (auto simp: rd_return_def)

interpretation named_branch: stream_codec "\<lambda>(name, i). [Text name, Uuid i]" "rd_bind rd_text (\<lambda>name. rd_bind rd_uuid (\<lambda>v. rd_return (name, v)))"
  by unfold_locales (auto simp: rd_return_def)

definition trimmed :: "node_cfg \<Rightarrow> ('k :: zero, 'd) node \<Rightarrow> ('k, 'd) node" where
  \<comment> \<open>what is left of a node in the image: the arrays are only written up to their size\<close>
  "trimmed c n = n\<lparr>node_index := take (last_idx c n) (node_index n) @ replicate (Indexes c - last_idx c n) 0,
     node_keys := take (node_size n) (node_keys n) @ replicate (NodeSize c - node_size n) 0, node_data := take (node_size n) (node_data n)\<rparr>"

lemma node_type_code [simp]: "node_type_of (type_number t) = Some t"
  by (cases t) (simp_all add: node_type_of_def)

lemma status_code [simp]: "status_of (status_code t) = Some t"
  by (cases t) (simp_all add: status_of_def)

context stream_codec
begin

lemma read_write_node:
  fixes n :: "('k, 'a) node"
  assumes len: "node_size n \<le> NodeSize c" "node_size n \<le> length (node_keys n)" "last_idx c n \<le> length (node_index n)" "node_size n \<le> length (node_data n)"
  shows "read_node c dec (write_node c enc count n @ ts) = Inr ((count, trimmed c n), ts)"
proof -
  have li: "last_idx c (\<lparr>metadata_size = i, node_type = t, node_id = j, snapshot_id = k, node_size = node_size n, node_index = [], node_keys = [], node_data = []\<rparr>)
    = last_idx c n" for i t j k by (simp add: last_idx_def)
  have 1: "rd_many (last_idx c n) rd_key (map Key (take (last_idx c n) (node_index n)) @ us) = Inr (take (last_idx c n) (node_index n), us)" for us
    using key.many [of "take (last_idx c n) (node_index n)" us] len by (simp add: concat_map_singleton)
  have 2: "rd_many (node_size n) rd_key (map Key (take (node_size n) (node_keys n)) @ us) = Inr (take (node_size n) (node_keys n), us)" for us
    using key.many [of "take (node_size n) (node_keys n)" us] len by (simp add: concat_map_singleton)
  have 3: "rd_many (node_size n) dec (concat (map enc (take (node_size n) (node_data n))) @ us) = Inr (take (node_size n) (node_data n), us)" for us
    using many [of "take (node_size n) (node_data n)" us] len by simp
  show ?thesis using len by (simp add: read_node_def write_node_def rd_return_def li 1 2 3 Let_def trimmed_def min_def)
qed

end

text \<open>The loop over the records: \<open>ts\<close> is read as \<open>k\<close> records, which take the loader from \<open>l\<close> to \<open>l'\<close>.\<close>

definition reads :: "node_cfg \<Rightarrow> 'b block_ops \<Rightarrow> ('k :: zero, 'b) loader \<Rightarrow> 'k token list \<Rightarrow> nat \<Rightarrow> ('k, 'b) loader \<Rightarrow> bool" where
  "reads c ops l ts k l' \<longleftrightarrow> k \<le> length ts
     \<and> (\<forall>f rest j. read_records (k + f) c ops l j (ts @ rest) = read_records f c ops l' (j + int k) rest)"

lemma reads_nothing: "reads c ops l [] 0 l"
  by (simp add: reads_def)

lemma reads_append:
  assumes "reads c ops l ts k l'" "reads c ops l' us n l''"
  shows "reads c ops l (ts @ us) (k + n) l''"
  using assms by (simp add: reads_def add.assoc)

lemma reads_one:
  assumes "ty \<noteq> TYPE_CHECKSUM" and "\<And>rest. read_record c ops l (type_code ty) (ts @ rest) = Inr (l', rest)"
  shows "reads c ops l (Byte (type_code ty) # ts) 1 l'"
proof -
  have "type_code ty \<noteq> 6" using assms(1) by (cases ty) simp_all
  then show ?thesis using assms(2) by (simp add: reads_def)
qed

section \<open>Saving trees\<close>

fun tid :: "'k tnode \<Rightarrow> nat" where
  "tid (Branch n) = node_id n"
| "tid (Leaf n) = node_id n"

definition block_id :: "'b block_ops \<Rightarrow> ('k, 'b) mem_store \<Rightarrow> nat \<Rightarrow> nat" where
  "block_id ops m b = ops_uuid ops (ms_block m b)"

definition child_ids :: "('k, 'b) mem_store \<Rightarrow> ('k, nat) node \<Rightarrow> ('k, nat) node" where
  "child_ids m n = n\<lparr>node_data := map (\<lambda>a. tid (the (nodes (ms_trees m) a))) (take (node_size n) (node_data n))\<rparr>"

definition leaf_ids :: "'b block_ops \<Rightarrow> ('k, 'b) mem_store \<Rightarrow> ('k, pvalue) node \<Rightarrow> ('k, nat \<times> nat) node" where
  "leaf_ids ops m n =
     \<lparr>metadata_size = metadata_size n, node_type = node_type n, node_id = node_id n, snapshot_id = snapshot_id n, node_size = node_size n,
      node_index = node_index n, node_keys = node_keys n,
      node_data = map (\<lambda>v. (block_id ops m (block_ptr v), value_snapshot v)) (take (node_size n) (node_data n))\<rparr>"

fun buffer_of :: "node_cfg \<Rightarrow> 'b block_ops \<Rightarrow> ('k :: zero, 'b) mem_store \<Rightarrow> nat \<Rightarrow> 'k tnode \<Rightarrow> 'k node_buffer" where
  "buffer_of c ops m a (Branch n) = BranchBuffer (refs (ms_trees m) a) (trimmed c (child_ids m n))"
| "buffer_of c ops m a (Leaf n) = LeafBuffer (refs (ms_trees m) a) (trimmed c (leaf_ids ops m n))"

text \<open>
  What saving needs of the trees: they are well formed, identifiers of nodes and of blocks are unique, the block operations
  can write every block and read it back, and a node has as many index entries as a block of the index has keys (32 in the code).
\<close>

definition storable_trees :: "node_cfg \<Rightarrow> 'b block_ops \<Rightarrow> ('k, 'b) mem_store \<Rightarrow> bool" where
  "storable_trees c ops m \<longleftrightarrow> store_ok c (ms_trees m)
     \<and> (\<forall>a b t u. nodes (ms_trees m) a = Some t \<longrightarrow> nodes (ms_trees m) b = Some u \<longrightarrow> tid t = tid u \<longrightarrow> a = b)
     \<and> (\<forall>a t. nodes (ms_trees m) a = Some t \<longrightarrow> tid t \<noteq> 0)
     \<and> (\<forall>a b. blocks (ms_trees m) a \<noteq> None \<longrightarrow> blocks (ms_trees m) b \<noteq> None \<longrightarrow> block_id ops m a = block_id ops m b \<longrightarrow> a = b)
     \<and> (\<forall>b. blocks (ms_trees m) b \<noteq> None \<longrightarrow> (\<exists>bytes. ops_serialize ops (ms_block m b) = Some bytes
          \<and> ops_deserialize ops (ops_ctr_hash ops (ms_block m b)) (ops_block_hash ops (ms_block m b)) bytes = Some (ms_block m b)))
     \<and> Indexes c = NodeIndexSize c"

lemma storableD:
  assumes "storable_trees c ops m"
  shows "store_ok c (ms_trees m)"
    and "nodes (ms_trees m) a = Some t \<Longrightarrow> nodes (ms_trees m) b = Some u \<Longrightarrow> tid t = tid u \<Longrightarrow> a = b"
    and "nodes (ms_trees m) a = Some t \<Longrightarrow> tid t \<noteq> 0"
    and "blocks (ms_trees m) a \<noteq> None \<Longrightarrow> blocks (ms_trees m) b \<noteq> None \<Longrightarrow> block_id ops m a = block_id ops m b \<Longrightarrow> a = b"
    and "blocks (ms_trees m) b \<noteq> None \<Longrightarrow> \<exists>bytes. ops_serialize ops (ms_block m b) = Some bytes
          \<and> ops_deserialize ops (ops_ctr_hash ops (ms_block m b)) (ops_block_hash ops (ms_block m b)) bytes = Some (ms_block m b)"
    and "Indexes c = NodeIndexSize c"
  using assms unfolding storable_trees_def by blast+

text \<open>The loader that has read the nodes and blocks of \<open>W\<close>.\<close>

definition nodes_loaded :: "node_cfg \<Rightarrow> 'b block_ops \<Rightarrow> ('k :: zero, 'b) mem_store \<Rightarrow> (nat + nat) set \<Rightarrow> ('k, 'b) loader \<Rightarrow> bool" where
  "nodes_loaded c ops m W l \<longleftrightarrow>
     (\<forall>a. Inl a \<in> W \<longrightarrow> (\<exists>t x. nodes (ms_trees m) a = Some t \<and> l_nodes l (tid t) = Some (buffer_of c ops m a t, x)))
     \<and> (\<forall>i y. l_nodes l i = Some y \<longrightarrow> (\<exists>a t. Inl a \<in> W \<and> nodes (ms_trees m) a = Some t \<and> tid t = i) \<and> 1 \<le> snd y \<and> snd y < l_next_node l)
     \<and> (\<forall>i j y z. l_nodes l i = Some y \<longrightarrow> l_nodes l j = Some z \<longrightarrow> snd y = snd z \<longrightarrow> i = j)
     \<and> set (l_node_ids l) = dom (l_nodes l)"

definition blocks_loaded :: "'b block_ops \<Rightarrow> ('k, 'b) mem_store \<Rightarrow> (nat + nat) set \<Rightarrow> ('k, 'b) loader \<Rightarrow> bool" where
  "blocks_loaded ops m W l \<longleftrightarrow>
     (\<forall>b. Inr b \<in> W \<longrightarrow> blocks (ms_trees m) b \<noteq> None
        \<and> (\<exists>y. l_blocks l (block_id ops m b) = Some y \<and> l_counts l y = blocks (ms_trees m) b \<and> l_block l y = ms_block m b))
     \<and> (\<forall>u y. l_blocks l u = Some y \<longrightarrow> (\<exists>b. Inr b \<in> W \<and> block_id ops m b = u) \<and> 1 \<le> y \<and> y < l_next_block l)
     \<and> (\<forall>u v y. l_blocks l u = Some y \<longrightarrow> l_blocks l v = Some y \<longrightarrow> u = v)"

lemma node_not_loaded:
  assumes S: "storable_trees c ops m" and L: "nodes_loaded c ops m W l" and t: "nodes (ms_trees m) a = Some t" and W: "Inl a \<notin> W"
  shows "l_nodes l (tid t) = None"
proof (rule ccontr)
  assume "l_nodes l (tid t) \<noteq> None"
  then obtain y where y: "l_nodes l (tid t) = Some y" by blast
  have "\<exists>b u. Inl b \<in> W \<and> nodes (ms_trees m) b = Some u \<and> tid u = tid t" using L y unfolding nodes_loaded_def by blast
  then show False using storableD(2) [OF S t] W by metis
qed

lemma nodes_loaded_add:
  assumes S: "storable_trees c ops m" and L: "nodes_loaded c ops m W l" and t: "nodes (ms_trees m) a = Some t" and W: "Inl a \<notin> W"
    and pos: "1 \<le> l_next_node l"
  shows "\<exists>l'. add_node c l (tid t) (buffer_of c ops m a t) = Inr l' \<and> nodes_loaded c ops m (insert (Inl a) W) l' \<and> l_blocks l' = l_blocks l
    \<and> l_counts l' = l_counts l \<and> l_block l' = l_block l \<and> l_next_block l' = l_next_block l \<and> l_hist l' = l_hist l \<and> l_metadata l' = l_metadata l
    \<and> 1 \<le> l_next_node l'"
proof -
  have none: "l_nodes l (tid t) = None" by (rule node_not_loaded [OF S L t W])
  let ?y = "(buffer_of c ops m a t, l_next_node l)"
  let ?l = "l\<lparr>l_nodes := (l_nodes l)(tid t \<mapsto> ?y), l_node_ids := l_node_ids l @ [tid t], l_next_node := l_next_node l + 1\<rparr>"
  have 1: "\<exists>u x. nodes (ms_trees m) b = Some u \<and> l_nodes ?l (tid u) = Some (buffer_of c ops m b u, x)" if "Inl b \<in> insert (Inl a) W" for b
  proof (cases "b = a")
    case True then show ?thesis using t by simp
  next
    case False
    then have "Inl b \<in> W" using that by simp
    then obtain u x where u: "nodes (ms_trees m) b = Some u" "l_nodes l (tid u) = Some (buffer_of c ops m b u, x)"
      using L unfolding nodes_loaded_def by blast
    then show ?thesis using none by (intro exI [of _ u] exI [of _ x]) auto
  qed
  have 2: "(\<exists>b u. Inl b \<in> insert (Inl a) W \<and> nodes (ms_trees m) b = Some u \<and> tid u = i) \<and> 1 \<le> snd y \<and> snd y < l_next_node ?l"
    if "l_nodes ?l i = Some y" for i y
  proof (cases "i = tid t")
    case True then show ?thesis using that t pos by auto
  next
    case False
    then have "l_nodes l i = Some y" using that by simp
    then have "(\<exists>b u. Inl b \<in> W \<and> nodes (ms_trees m) b = Some u \<and> tid u = i) \<and> 1 \<le> snd y \<and> snd y < l_next_node l"
      using L unfolding nodes_loaded_def by blast
    then show ?thesis by auto
  qed
  have old: "snd y < l_next_node l" if "l_nodes l i = Some y" for i y using L that unfolding nodes_loaded_def by blast
  have 3: "i = j" if "l_nodes ?l i = Some y" "l_nodes ?l j = Some z" "snd y = snd z" for i j y z
  proof (cases "i = tid t \<or> j = tid t")
    case True then show ?thesis using that old [of i y] old [of j z] by (auto split: if_splits)
  next
    case False
    then have "l_nodes l i = Some y" "l_nodes l j = Some z" using that by auto
    then show ?thesis using L that(3) unfolding nodes_loaded_def by blast
  qed
  have 4: "set (l_node_ids ?l) = dom (l_nodes ?l)" using L by (simp add: nodes_loaded_def)
  have "nodes_loaded c ops m (insert (Inl a) W) ?l" unfolding nodes_loaded_def using 1 2 3 4 by blast
  then show ?thesis using none by (intro exI [of _ ?l]) (use storableD(6) [OF S] in \<open>simp add: add_node_def populate_ok_def\<close>)
qed

lemma blocks_loaded_cong:
  assumes "blocks_loaded ops m W l" "l_blocks l' = l_blocks l" "l_counts l' = l_counts l" "l_block l' = l_block l" "l_next_block l' = l_next_block l"
  shows "blocks_loaded ops m (insert (Inl a) W) l'" "blocks_loaded ops m W l'"
  using assms unfolding blocks_loaded_def by simp_all

lemma nodes_loaded_cong:
  assumes "nodes_loaded c ops m W l" "l_nodes l' = l_nodes l" "l_node_ids l' = l_node_ids l" "l_next_node l' = l_next_node l"
  shows "nodes_loaded c ops m (insert (Inr b) W) l'" "nodes_loaded c ops m W l'"
  using assms unfolding nodes_loaded_def by simp_all

lemma blocks_loaded_add:
  assumes S: "storable_trees c ops m" and L: "blocks_loaded ops m W l" and b: "blocks (ms_trees m) b \<noteq> None" and W: "Inr b \<notin> W"
    and pos: "1 \<le> l_next_block l"
  shows "blocks_loaded ops m (insert (Inr b) W) (l\<lparr>l_blocks := (l_blocks l)(block_id ops m b \<mapsto> l_next_block l),
      l_block := (l_block l)(l_next_block l := ms_block m b), l_counts := (l_counts l)(l_next_block l := blocks (ms_trees m) b),
      l_next_block := l_next_block l + 1\<rparr>)" (is "blocks_loaded ops m _ ?l")
    and "l_blocks l (block_id ops m b) = None"
proof -
  have 1: "blocks (ms_trees m) a \<noteq> None" "\<exists>y. l_blocks l (block_id ops m a) = Some y \<and> l_counts l y = blocks (ms_trees m) a \<and> l_block l y = ms_block m a"
    if "Inr a \<in> W" for a using L that unfolding blocks_loaded_def by blast+
  have 2: "\<exists>a. Inr a \<in> W \<and> block_id ops m a = u" "1 \<le> y" "y < l_next_block l" if "l_blocks l u = Some y" for u y
    using L that unfolding blocks_loaded_def by blast+
  have 3: "u = v" if "l_blocks l u = Some y" "l_blocks l v = Some y" for u v y using L that unfolding blocks_loaded_def by blast
  show none: "l_blocks l (block_id ops m b) = None"
  proof (rule ccontr)
    assume "l_blocks l (block_id ops m b) \<noteq> None"
    then obtain a where "Inr a \<in> W" "block_id ops m a = block_id ops m b" using 2(1) by blast
    then show False using storableD(4) [OF S _ b] 1(1) W by metis
  qed
  show "blocks_loaded ops m (insert (Inr b) W) ?l" unfolding blocks_loaded_def
  proof (intro conjI allI impI)
    fix a assume a: "Inr a \<in> insert (Inr b) W"
    show "blocks (ms_trees m) a \<noteq> None" using a 1(1) b by auto
    show "\<exists>y. l_blocks ?l (block_id ops m a) = Some y \<and> l_counts ?l y = blocks (ms_trees m) a \<and> l_block ?l y = ms_block m a"
    proof (cases "a = b")
      case False
      then have "Inr a \<in> W" using a by simp
      then obtain y where y: "l_blocks l (block_id ops m a) = Some y" "l_counts l y = blocks (ms_trees m) a" "l_block l y = ms_block m a" using 1(2) by blast
      then show ?thesis using none 2(3) [OF y(1)] by (intro exI [of _ y]) auto
    qed simp
  next
    fix u y assume y: "l_blocks ?l u = Some y"
    show "\<exists>a. Inr a \<in> insert (Inr b) W \<and> block_id ops m a = u" using y 2(1) by (cases "u = block_id ops m b") auto
    show "1 \<le> y" "y < l_next_block ?l" using y 2(2,3) [of u y] pos by (auto split: if_splits)
  next
    fix u v y assume "l_blocks ?l u = Some y" "l_blocks ?l v = Some y"
    then show "u = v" using 2(3) [of u y] 2(3) [of v y] 3 [of u y v] by (auto split: if_splits)
  qed
qed

text \<open>
  A step of the writer and what the loader makes of it: the writer \<open>w\<close> with the set of things it has written goes to \<open>w'\<close>; a loader
  that agrees with \<open>w\<close> reads what was written and then agrees with \<open>w'\<close>. The things that were added have all they refer to written.
\<close>

definition agrees :: "node_cfg \<Rightarrow> 'b block_ops \<Rightarrow> ('k :: zero, 'b) mem_store \<Rightarrow> 'k image_writer \<Rightarrow> ('k, 'b) loader \<Rightarrow> bool" where
  "agrees c ops m w l \<longleftrightarrow> nodes_loaded c ops m (w_stored w) l \<and> blocks_loaded ops m (w_stored w) l \<and> 1 \<le> l_next_node l \<and> 1 \<le> l_next_block l"

definition closed_since :: "('k, 'b) mem_store \<Rightarrow> (nat + nat) set \<Rightarrow> (nat + nat) set \<Rightarrow> bool" where
  "closed_since m V W \<longleftrightarrow> V \<subseteq> W \<and> (\<forall>a t. Inl a \<in> W - V \<longrightarrow> nodes (ms_trees m) a = Some t \<longrightarrow>
     (\<forall>x \<in> set (children t). Inl x \<in> W) \<and> (\<forall>b \<in> set (leaf_blocks t). Inr b \<in> W))"

definition writes_to :: "node_cfg \<Rightarrow> 'b block_ops \<Rightarrow> ('k :: zero, 'b) mem_store \<Rightarrow> ('k, 'b) loader \<Rightarrow> 'k image_writer \<Rightarrow> 'k image_writer
    \<Rightarrow> ('k, 'b) loader \<Rightarrow> bool" where
  "writes_to c ops m l w w' l' \<longleftrightarrow> (\<exists>ts k. w_out w' = w_out w @ ts \<and> w_records w' = w_records w + int k \<and> reads c ops l ts k l')
     \<and> agrees c ops m w' l' \<and> w_stored w \<subseteq> w_stored w' \<and> l_hist l' = l_hist l \<and> l_metadata l' = l_metadata l"

lemma writes_to_trans:
  assumes "writes_to c ops m l w w' l'" "writes_to c ops m l' w' w'' l''"
  shows "writes_to c ops m l w w'' l''"
proof -
  obtain ts k us n where "w_out w' = w_out w @ ts" "w_records w' = w_records w + int k" "reads c ops l ts k l'"
      "w_out w'' = w_out w' @ us" "w_records w'' = w_records w' + int n" "reads c ops l' us n l''"
    using assms unfolding writes_to_def by blast
  then have "\<exists>ts k. w_out w'' = w_out w @ ts \<and> w_records w'' = w_records w + int k \<and> reads c ops l ts k l''"
    by (intro exI [of _ "ts @ us"] exI [of _ "k + n"]) (simp add: reads_append)
  then show ?thesis using assms unfolding writes_to_def by auto
qed

lemma writes_to_refl: "agrees c ops m w l \<Longrightarrow> writes_to c ops m l w w l"
  unfolding writes_to_def by (auto intro!: exI [of _ "[]"] exI [of _ 0] reads_nothing)

lemma put_sel [simp]: "w_out (put w ts) = w_out w @ ts" "w_records (put w ts) = w_records w + 1" "w_stored (put w ts) = w_stored w"
  by (simp_all add: put_def)

lemma writes_to_one:
  assumes "w_out w' = w_out w @ Byte (type_code ty) # ts" "w_records w' = w_records w + 1" "ty \<noteq> TYPE_CHECKSUM"
    "\<And>rest. read_record c ops l (type_code ty) (ts @ rest) = Inr (l', rest)" "agrees c ops m w' l'" "w_stored w \<subseteq> w_stored w'"
    "l_hist l' = l_hist l" "l_metadata l' = l_metadata l"
  shows "writes_to c ops m l w w' l'"
  unfolding writes_to_def using assms reads_one [OF assms(3,4)] by (intro conjI exI [of _ "Byte (type_code ty) # ts"] exI [of _ 1]) auto

lemma write_block_ok:
  assumes S: "storable_trees c ops m" and A: "agrees c ops m w l" and b: "blocks (ms_trees m) b \<noteq> None" and W: "Inr b \<notin> w_stored w"
  shows "\<exists>w' l'. write_block ops m w b = Inr w' \<and> w_stored w' = w_stored w
    \<and> writes_to c ops m l w (w'\<lparr>w_stored := insert (Inr b) (w_stored w')\<rparr>) l'"
proof -
  let ?blk = "ms_block m b"
  obtain r where r: "blocks (ms_trees m) b = Some r" using b by blast
  obtain bytes where bytes: "ops_serialize ops ?blk = Some bytes"
      "ops_deserialize ops (ops_ctr_hash ops ?blk) (ops_block_hash ops ?blk) bytes = Some ?blk" using storableD(5) [OF S b] by blast
  let ?ts = "[Int64 r, Int32 (int (length bytes)), Int32 (ops_memory_size ops ?blk), UInt64 (ops_ctr_hash ops ?blk), UInt64 (ops_block_hash ops ?blk), Raw bytes]"
  let ?w = "put w (Byte (type_code TYPE_DATA_BLOCK) # ?ts)"
  let ?l = "l\<lparr>l_blocks := (l_blocks l)(block_id ops m b \<mapsto> l_next_block l), l_block := (l_block l)(l_next_block l := ?blk),
      l_counts := (l_counts l)(l_next_block l := blocks (ms_trees m) b), l_next_block := l_next_block l + 1\<rparr>"
  note A' = A [unfolded agrees_def]
  note add = blocks_loaded_add [OF S _ b W, of l]
  have w: "write_block ops m w b = Inr ?w" using r bytes by (simp add: write_block_def Let_def)
  have rd: "read_record c ops l (type_code TYPE_DATA_BLOCK) (?ts @ rest) = Inr (?l, rest)" for rest
    using bytes(2) add(2) A' r by (simp add: read_record_def read_data_block_def block_id_def)
  have "nodes_loaded c ops m (insert (Inr b) (w_stored w)) ?l" by (rule nodes_loaded_cong [of c ops m "w_stored w" l]) (use A' in simp_all)
  then have ag: "agrees c ops m (?w\<lparr>w_stored := insert (Inr b) (w_stored ?w)\<rparr>) ?l" using add(1) A' by (simp add: agrees_def)
  have "writes_to c ops m l w (?w\<lparr>w_stored := insert (Inr b) (w_stored ?w)\<rparr>) ?l"
    by (rule writes_to_one [where ty = TYPE_DATA_BLOCK and ts = ?ts, OF _ _ _ rd ag]) auto
  then show ?thesis using w by (intro exI [of _ ?w] exI [of _ ?l]) simp
qed

definition wrote :: "node_cfg \<Rightarrow> 'b block_ops \<Rightarrow> ('k :: zero, 'b) mem_store \<Rightarrow> ('k, 'b) loader \<Rightarrow> 'k image_writer \<Rightarrow> (nat + nat) list
    \<Rightarrow> 'k image_writer \<Rightarrow> ('k, 'b) loader \<Rightarrow> bool" where
  "wrote c ops m l w xs w' l' \<longleftrightarrow> writes_to c ops m l w w' l' \<and> set xs \<subseteq> w_stored w' \<and> closed_since m (w_stored w) (w_stored w')"

lemma closed_since_trans: "closed_since m U V \<Longrightarrow> closed_since m V W \<Longrightarrow> closed_since m U W"
  unfolding closed_since_def by (intro conjI allI impI) blast+

lemma wrote_append:
  assumes "wrote c ops m l w xs w' l'" "wrote c ops m l' w' ys w'' l''"
  shows "wrote c ops m l w (xs @ ys) w'' l''"
proof -
  have "writes_to c ops m l w w'' l''" using assms by (auto simp: wrote_def intro: writes_to_trans)
  moreover have "closed_since m (w_stored w) (w_stored w'')" using assms by (auto simp: wrote_def intro: closed_since_trans)
  moreover have "w_stored w' \<subseteq> w_stored w''" using assms(2) by (simp add: wrote_def writes_to_def)
  ultimately show ?thesis using assms by (auto simp: wrote_def)
qed

text \<open>A loop whose body writes one thing.\<close>

lemma wrote_fold:
  assumes "\<And>w l x. x \<in> set xs \<Longrightarrow> agrees c ops m w l \<Longrightarrow> \<exists>w' l'. f w x = Inr w' \<and> wrote c ops m l w [g x] w' l'"
    and "agrees c ops m w l"
  shows "\<exists>w' l'. foldR f w xs = Inr w' \<and> wrote c ops m l w (map g xs) w' l'"
  using assms
proof (induction xs arbitrary: w l)
  case Nil
  then show ?case using writes_to_refl by (fastforce simp: wrote_def closed_since_def)
next
  case (Cons x xs)
  obtain w1 l1 where 1: "f w x = Inr w1" "wrote c ops m l w [g x] w1 l1" using Cons.prems by (meson list.set_intros(1))
  then have "agrees c ops m w1 l1" by (simp add: wrote_def writes_to_def)
  then obtain w2 l2 where "foldR f w1 xs = Inr w2" "wrote c ops m l1 w1 (map g xs) w2 l2"
    using Cons.IH Cons.prems(1) by (meson list.set_intros(2))
  then show ?case using 1 wrote_append [OF 1(2)] by (intro exI [of _ w2] exI [of _ l2]) simp
qed

definition save_block :: "'b block_ops \<Rightarrow> ('k, 'b) mem_store \<Rightarrow> 'k image_writer \<Rightarrow> nat \<Rightarrow> hist_error + 'k image_writer" where
  "save_block ops m w b = (if Inr b \<notin> w_stored w
     then bindR (write_block ops m w b) (\<lambda>w. Inr (w\<lparr>w_stored := insert (Inr b) (w_stored w)\<rparr>)) else Inr w)"

lemma save_block_ok:
  assumes S: "storable_trees c ops m" and A: "agrees c ops m w l" and b: "blocks (ms_trees m) b \<noteq> None"
  shows "\<exists>w' l'. save_block ops m w b = Inr w' \<and> wrote c ops m l w [Inr b] w' l'"
proof (cases "Inr b \<in> w_stored w")
  case True
  then show ?thesis using writes_to_refl [OF A] by (auto simp: save_block_def wrote_def closed_since_def)
next
  case False
  then obtain w' l' where "write_block ops m w b = Inr w'" "w_stored w' = w_stored w"
      "writes_to c ops m l w (w'\<lparr>w_stored := insert (Inr b) (w_stored w')\<rparr>) l'"
    using write_block_ok [OF S A b] by blast
  moreover have "closed_since m (w_stored w) (insert (Inr b) (w_stored w))" by (auto simp: closed_since_def)
  ultimately show ?thesis using False
    by (intro exI [of _ "w'\<lparr>w_stored := insert (Inr b) (w_stored w')\<rparr>"] exI [of _ l']) (simp add: save_block_def wrote_def)
qed

lemma node_written:
  assumes w: "writes_to c ops m l w w1 l1" "w_stored w1 = insert (Inl a) (w_stored w)" and t: "nodes (ms_trees m) a = Some t"
    and r: "wrote c ops m l1 w1 ys w2 l2" and ys: "Inl ` set (children t) \<union> Inr ` set (leaf_blocks t) \<subseteq> set ys"
  shows "wrote c ops m l w [Inl a] w2 l2"
proof -
  have R: "set ys \<subseteq> w_stored w2" "closed_since m (w_stored w1) (w_stored w2)" "writes_to c ops m l1 w1 w2 l2" using r by (simp_all add: wrote_def)
  have "closed_since m (w_stored w) (w_stored w2)" unfolding closed_since_def
  proof (intro conjI allI impI)
    show "w_stored w \<subseteq> w_stored w2" using R(2) w(2) by (auto simp: closed_since_def)
    fix b u assume b: "Inl b \<in> w_stored w2 - w_stored w" "nodes (ms_trees m) b = Some u"
    have "(\<forall>x \<in> set (children u). Inl x \<in> w_stored w2) \<and> (\<forall>x \<in> set (leaf_blocks u). Inr x \<in> w_stored w2)"
    proof (cases "b = a")
      case True
      then show ?thesis using b(2) t ys R(1) by auto
    next
      case False
      then have "Inl b \<in> w_stored w2 - w_stored w1" using b(1) w(2) by auto
      then show ?thesis using R(2) b(2) unfolding closed_since_def by blast
    qed
    then show "\<forall>x \<in> set (children u). Inl x \<in> w_stored w2" "\<forall>x \<in> set (leaf_blocks u). Inr x \<in> w_stored w2" by blast+
  qed
  moreover have "Inl a \<in> w_stored w2" using R(2) w(2) by (auto simp: closed_since_def)
  ultimately show ?thesis using writes_to_trans [OF w(1) R(3)] by (simp add: wrote_def)
qed

lemma mapR_Inr: "(\<And>x. x \<in> set xs \<Longrightarrow> f x = Inr (g x)) \<Longrightarrow> mapR f xs = Inr (map g xs)"
  by (induction xs) simp_all

lemma id_at_Some: "nodes (ms_trees m) a = Some t \<Longrightarrow> id_at m a = Inr (tid t)"
  by (cases t) (simp_all add: id_at_def)

lemma last_idx_le:
  assumes "node_ok c n"
  shows "last_idx c n \<le> Indexes c"
proof (rule ccontr)
  assume "\<not> last_idx c n \<le> Indexes c"
  then have "Indexes c * NodeIndexSize c < node_size n" using last_idx_less [OF assms, of "Indexes c"] by simp
  moreover have "\<not> Indexes c < Indexes c" by simp
  then have "NodeSize c \<le> Indexes c * NodeIndexSize c"
    using ceil_less_iff [of "NodeIndexSize c" "Indexes c" "NodeSize c"] assms by (simp add: Indexes_def node_ok_def node_shape_def)
  ultimately show False using assms by (simp add: node_ok_def node_shape_def)
qed

text \<open>In a node with as many index entries as a block has keys, a buffer has all that is written.\<close>

lemma populated_fields:
  assumes "node_ok c n" "Indexes c = NodeIndexSize c"
  shows "last_idx c (populate_as_buffer c n ds) = last_idx c n"
    "take (last_idx c n) (node_index (populate_as_buffer c n ds)) = take (last_idx c n) (node_index n)"
    "take (node_size n) (node_keys (populate_as_buffer c n ds)) = take (node_size n) (node_keys n)"
  using assms last_idx_le [OF assms(1)] by (simp_all add: populate_as_buffer_def last_idx_def node_ok_def node_shape_def min_def)

lemma to_leaf_buffer_ok:
  assumes S: "storable_trees c ops m" and n: "node_ok c n"
  shows "\<exists>b. to_leaf_buffer c ops m n = Inr b \<and> write_node c e k b = write_node c e k (leaf_ids ops m n)"
proof -
  note I = storableD(6) [OF S]
  let ?b = "populate_as_buffer c n (node_data (leaf_ids ops m n))"
  have "to_leaf_buffer c ops m n = Inr ?b" using I by (simp add: to_leaf_buffer_def populate_ok_def leaf_ids_def block_id_def)
  moreover have "last_idx c (leaf_ids ops m n) = last_idx c n" by (simp add: last_idx_def leaf_ids_def)
  then have "write_node c e k ?b = write_node c e k (leaf_ids ops m n)"
    unfolding write_node_def populated_fields(1) [OF n I] using populated_fields(2,3) [OF n I] by (simp add: leaf_ids_def) (simp add: populate_as_buffer_def)
  ultimately show ?thesis by blast
qed

lemma to_branch_buffer_ok:
  assumes S: "storable_trees c ops m" and n: "nodes (ms_trees m) a = Some (Branch n)" "node_ok c n"
  shows "\<exists>b. to_branch_buffer c m n = Inr b \<and> write_node c e k b = write_node c e k (child_ids m n)"
proof -
  note I = storableD(6) [OF S]
  let ?b = "populate_as_buffer c n (node_data (child_ids m n))"
  have "id_at m x = Inr (tid (the (nodes (ms_trees m) x)))" if "x \<in> set (take (node_size n) (node_data n))" for x
    using store_okD(5) [OF storableD(1) [OF S] n(1), of x] that by (auto intro: id_at_Some)
  then have "to_branch_buffer c m n = Inr ?b" using mapR_Inr [of "take (node_size n) (node_data n)" "id_at m" "\<lambda>x. tid (the (nodes (ms_trees m) x))"] I
    by (simp add: to_branch_buffer_def child_ids_def populate_ok_def)
  moreover have "last_idx c (child_ids m n) = last_idx c n" by (simp add: last_idx_def child_ids_def)
  then have "write_node c e k ?b = write_node c e k (child_ids m n)"
    unfolding write_node_def populated_fields(1) [OF n(2) I] using populated_fields(2,3) [OF n(2) I] by (simp add: child_ids_def) (simp add: populate_as_buffer_def)
  ultimately show ?thesis by blast
qed

definition store_node :: "'k image_writer \<Rightarrow> nat \<Rightarrow> 'k token list \<Rightarrow> 'k image_writer" where
  "store_node w a ts = put (w\<lparr>w_stored := insert (Inl a) (w_stored w)\<rparr>) ts"

lemma write_node_ok:
  \<comment> \<open>the record of a node, whose tokens are read by \<open>read_record\<close> as the buffer of the node\<close>
  assumes S: "storable_trees c ops m" and A: "agrees c ops m w l" and t: "nodes (ms_trees m) a = Some t" and W: "Inl a \<notin> w_stored w"
    and ty: "ty \<noteq> TYPE_CHECKSUM"
    and rd: "\<And>rest. read_record c ops l (type_code ty) (ts @ rest) = bindR (add_node c l (tid t) (buffer_of c ops m a t)) (\<lambda>l. Inr (l, rest))"
  shows "\<exists>l'. writes_to c ops m l w (store_node w a (Byte (type_code ty) # ts)) l'"
proof -
  note A' = A [unfolded agrees_def]
  obtain l' where l': "add_node c l (tid t) (buffer_of c ops m a t) = Inr l'" "nodes_loaded c ops m (insert (Inl a) (w_stored w)) l'"
      "l_blocks l' = l_blocks l" "l_counts l' = l_counts l" "l_block l' = l_block l" "l_next_block l' = l_next_block l" "l_hist l' = l_hist l"
      "l_metadata l' = l_metadata l" "1 \<le> l_next_node l'"
    using nodes_loaded_add [OF S _ t W, of l] A' by blast
  have b: "blocks_loaded ops m (insert (Inl a) (w_stored w)) l'" by (rule blocks_loaded_cong [of ops m "w_stored w" l]) (use A' l' in simp_all)
  have ag: "agrees c ops m (store_node w a (Byte (type_code ty) # ts)) l'" using l' b A' by (simp add: agrees_def store_node_def)
  have rd': "read_record c ops l (type_code ty) (ts @ rest) = Inr (l', rest)" for rest using rd l'(1) by simp
  have "writes_to c ops m l w (store_node w a (Byte (type_code ty) # ts)) l'"
    by (rule writes_to_one [where ty = ty and ts = ts, OF _ _ ty rd' ag]) (use l' in \<open>auto simp: store_node_def\<close>)
  then show ?thesis by blast
qed

lemma read_leaf_written:
  fixes n :: "('k :: zero, pvalue) node"
  assumes n: "node_ok c n"
  shows "read_record c ops l (type_code TYPE_LEAF_NODE) (write_node c (\<lambda>(b, s). [Uuid b, Uuid s]) (refs (ms_trees m) a) (leaf_ids ops m n) @ rest)
    = bindR (add_node c l (tid (Leaf n)) (buffer_of c ops m a (Leaf n))) (\<lambda>l. Inr (l, rest))"
proof -
  let ?b = "leaf_ids ops m n"
  have li: "last_idx c ?b = last_idx c n" by (simp add: last_idx_def leaf_ids_def)
  have "read_node c (rd_bind rd_uuid (\<lambda>b. rd_bind rd_uuid (\<lambda>s. rd_return (b, s)))) (write_node c (\<lambda>(b, s). [Uuid b, Uuid s]) (refs (ms_trees m) a) ?b @ rest)
      = Inr ((refs (ms_trees m) a, trimmed c ?b), rest)"
  proof (rule leaf_value.read_write_node)
    show "node_size ?b \<le> NodeSize c" "node_size ?b \<le> length (node_keys ?b)" "node_size ?b \<le> length (node_data ?b)" "last_idx c ?b \<le> length (node_index ?b)"
      using n li last_idx_le [OF n] by (simp_all add: leaf_ids_def node_ok_def node_shape_def)
  qed
  then show ?thesis by (simp add: read_record_def read_leaf_node_def trimmed_def leaf_ids_def)
qed

lemma read_branch_written:
  fixes n :: "('k :: zero, nat) node"
  assumes n: "node_ok c n"
  shows "read_record c ops l (type_code TYPE_BRANCH_NODE) (write_node c (\<lambda>i. [Uuid i]) (refs (ms_trees m) a) (child_ids m n) @ rest)
    = bindR (add_node c l (tid (Branch n)) (buffer_of c ops m a (Branch n))) (\<lambda>l. Inr (l, rest))"
proof -
  let ?b = "child_ids m n"
  have li: "last_idx c ?b = last_idx c n" by (simp add: last_idx_def child_ids_def)
  have "read_node c rd_uuid (write_node c (\<lambda>i. [Uuid i]) (refs (ms_trees m) a) ?b @ rest) = Inr ((refs (ms_trees m) a, trimmed c ?b), rest)"
  proof (rule uuid.read_write_node)
    show "node_size ?b \<le> NodeSize c" "node_size ?b \<le> length (node_keys ?b)" "node_size ?b \<le> length (node_data ?b)" "last_idx c ?b \<le> length (node_index ?b)"
      using n li last_idx_le [OF n] by (simp_all add: child_ids_def node_ok_def node_shape_def)
  qed
  then show ?thesis by (simp add: read_record_def read_branch_node_def trimmed_def child_ids_def)
qed

lemma write_tree_ok:
  assumes S: "storable_trees c ops m"
  shows "agrees c ops m w l \<Longrightarrow> height (nodes (ms_trees m)) d a
    \<Longrightarrow> \<exists>w' l'. write_persistent_tree d c ops m w a = Inr w' \<and> wrote c ops m l w [Inl a] w' l'"
proof (induction d arbitrary: w l a)
  case (Suc d)
  note A = Suc.prems(1) and ok = storableD(1) [OF S]
  show ?case
  proof (cases "Inl a \<in> w_stored w")
    case True
    then show ?thesis using writes_to_refl [OF A] by (auto simp: wrote_def closed_since_def)
  next
    case False
    obtain t where t: "nodes (ms_trees m) a = Some t" "\<And>x. x \<in> set (children t) \<Longrightarrow> height (nodes (ms_trees m)) d x"
      using Suc.prems(2) by (auto split: option.splits)
    show ?thesis
    proof (cases t)
      case (Leaf n)
      have n: "nodes (ms_trees m) a = Some (Leaf n)" "node_ok c n" using t(1) Leaf store_okD(7) [OF ok, of a n] by auto
      let ?ts = "write_node c (\<lambda>(b, s). [Uuid b, Uuid s]) (refs (ms_trees m) a) (leaf_ids ops m n)"
      let ?w = "store_node w a (Byte (type_code TYPE_LEAF_NODE) # ?ts)"
      obtain l1 where l1: "writes_to c ops m l w ?w l1"
        using write_node_ok [OF S A n(1) False, of TYPE_LEAF_NODE ?ts] read_leaf_written [OF n(2), of ops l m a] by blast
      have "blocks (ms_trees m) b \<noteq> None" if "b \<in> set (leaf_blocks t)" for b
        using that store_okD(8) [OF ok n(1)] n(2) Leaf by (force simp: in_set_conv_nth node_ok_def node_shape_def)
      then obtain w2 l2 where w2: "foldR (save_block ops m) ?w (leaf_blocks t) = Inr w2" "wrote c ops m l1 ?w (map Inr (leaf_blocks t)) w2 l2"
        using wrote_fold [of "leaf_blocks t" c ops m "save_block ops m" Inr ?w l1] save_block_ok [OF S] l1 by (auto simp: writes_to_def)
      obtain b where "to_leaf_buffer c ops m n = Inr b" "write_node c (\<lambda>(b, s). [Uuid b, Uuid s]) (refs (ms_trees m) a) b = ?ts"
        using to_leaf_buffer_ok [OF S n(2)] by blast
      then have "write_persistent_tree (Suc d) c ops m w a = Inr w2"
        using w2(1) False n(1) Leaf by (simp add: save_block_def [abs_def] store_node_def write_leaf_def Let_def)
      moreover have "wrote c ops m l w [Inl a] w2 l2" by (rule node_written [OF l1 _ t(1) w2(2)]) (auto simp: store_node_def Leaf)
      ultimately show ?thesis by blast
    next
      case (Branch n)
      have n: "nodes (ms_trees m) a = Some (Branch n)" "node_ok c n" using t(1) Branch store_okD(6) [OF ok, of a n] by auto
      let ?ts = "write_node c (\<lambda>i. [Uuid i]) (refs (ms_trees m) a) (child_ids m n)"
      let ?w = "store_node w a (Byte (type_code TYPE_BRANCH_NODE) # ?ts)"
      obtain l1 where l1: "writes_to c ops m l w ?w l1"
        using write_node_ok [OF S A n(1) False, of TYPE_BRANCH_NODE ?ts] read_branch_written [OF n(2), of ops l m a] by blast
      obtain w2 l2 where w2: "foldR (write_persistent_tree d c ops m) ?w (children t) = Inr w2" "wrote c ops m l1 ?w (map Inl (children t)) w2 l2"
        using wrote_fold [of "children t" c ops m "write_persistent_tree d c ops m" Inl ?w l1] Suc.IH t(2) l1 by (auto simp: writes_to_def)
      obtain b where "to_branch_buffer c m n = Inr b" "write_node c (\<lambda>i. [Uuid i]) (refs (ms_trees m) a) b = ?ts"
        using to_branch_buffer_ok [OF S n] by blast
      then have "write_persistent_tree (Suc d) c ops m w a = Inr w2"
        using w2(1) False n(1) Branch by (simp add: store_node_def write_branch_def Let_def)
      moreover have "wrote c ops m l w [Inl a] w2 l2" by (rule node_written [OF l1 _ t(1) w2(2)]) (auto simp: store_node_def Branch)
      ultimately show ?thesis by blast
    qed
  qed
qed simp

end
