(* ===== verification/Store_Image_History.thy ===== *)
theory Store_Image_History
  imports Store_Image_Trees
begin

text \<open>
  Writing the history of a store and reading the whole image back. \<open>sub\<close> is the set of nodes below a node of the history, along
  which the recursions over the history are proved; \<open>storable\<close> is what saving needs of a store; \<open>store_reads_back\<close> shows that
  saving succeeds and that the loop of \<open>load\<close> reads all records of the image, with the number of records it says.
\<close>

section \<open>The history as a set of subtrees\<close>

definition parent_of :: "hist_store \<Rightarrow> nat \<Rightarrow> nat \<Rightarrow> bool" where
  "parent_of s x y \<longleftrightarrow> (\<exists>n. h_nodes s x = Some n \<and> h_parent n = Some y)"

definition sub :: "hist_store \<Rightarrow> nat \<Rightarrow> nat set" where
  "sub s a = {x. (parent_of s)\<^sup>*\<^sup>* x a}"

lemma sub_self [simp]: "a \<in> sub s a"
  by (simp add: sub_def)

lemma parent_of_fun: "parent_of s x y \<Longrightarrow> parent_of s x z \<Longrightarrow> y = z"
  by (auto simp: parent_of_def)

lemma parent_of_child:
  assumes T: "Snapshot_Laws.tree_ok s" and a: "h_nodes s a = Some n"
  shows "parent_of s c a \<longleftrightarrow> c \<in> set (h_children n)"
  using Snapshot_Laws.tree_okD(3) [OF T a, of c] Snapshot_Laws.tree_okD(5) [OF T, of c _ a] a by (auto simp: parent_of_def)

lemma parent_of_less: "Snapshot_Laws.tree_ok s \<Longrightarrow> parent_of s x y \<Longrightarrow> y < x \<and> h_nodes s y \<noteq> None"
  using Snapshot_Laws.tree_okD(5) by (auto simp: parent_of_def) blast+

lemma sub_le: "Snapshot_Laws.tree_ok s \<Longrightarrow> x \<in> sub s a \<Longrightarrow> a \<le> x"
  unfolding sub_def by (auto elim!: rtranclp_induct dest: parent_of_less)

lemma sub_live: "x \<in> sub s a \<Longrightarrow> h_nodes s a \<noteq> None \<Longrightarrow> h_nodes s x \<noteq> None"
  unfolding sub_def mem_Collect_eq by (erule converse_rtranclpE) (auto simp: parent_of_def)

lemma sub_node:
  assumes T: "Snapshot_Laws.tree_ok s" and a: "h_nodes s a = Some n"
  shows "sub s a = insert a (\<Union>c \<in> set (h_children n). sub s c)"
proof -
  have "x = a \<or> (\<exists>c. parent_of s c a \<and> (parent_of s)\<^sup>*\<^sup>* x c)" if "(parent_of s)\<^sup>*\<^sup>* x a" for x
    using that by (auto elim: rtranclp.cases)
  then show ?thesis unfolding sub_def using parent_of_child [OF T a] by (auto intro: rtranclp.rtrancl_into_rtrancl)
qed

lemma sub_child:
  assumes T: "Snapshot_Laws.tree_ok s" and a: "h_nodes s a = Some n" and c: "c \<in> set (h_children n)"
  shows "a \<notin> sub s c" and "c' \<in> set (h_children n) \<Longrightarrow> c \<noteq> c' \<Longrightarrow> sub s c \<inter> sub s c' = {}"
proof -
  have p: "parent_of s c a" using c parent_of_child [OF T a] by simp
  show na: "a \<notin> sub s c" using parent_of_less [OF T p] sub_le [OF T, of a c] by auto
  have step: "\<not> (parent_of s)\<^sup>*\<^sup>* d e" if d: "d \<in> set (h_children n)" and e: "e \<in> set (h_children n)" and ne: "d \<noteq> e" for d e
  proof
    assume "(parent_of s)\<^sup>*\<^sup>* d e"
    then obtain z where "parent_of s d z" "(parent_of s)\<^sup>*\<^sup>* z e" using ne by (auto elim: converse_rtranclpE)
    moreover have "parent_of s d a" "parent_of s e a" using d e parent_of_child [OF T a] by simp_all
    ultimately have "a \<in> sub s e" using parent_of_fun by (auto simp: sub_def)
    then show False using sub_le [OF T, of a e] parent_of_less [OF T \<open>parent_of s e a\<close>] by simp
  qed
  show "sub s c \<inter> sub s c' = {}" if c': "c' \<in> set (h_children n)" "c \<noteq> c'"
  proof (rule ccontr)
    assume "sub s c \<inter> sub s c' \<noteq> {}"
    then obtain x where x: "(parent_of s)\<^sup>*\<^sup>* x c" "(parent_of s)\<^sup>*\<^sup>* x c'" by (auto simp: sub_def)
    have "(parent_of s)\<^sup>*\<^sup>* c c' \<or> (parent_of s)\<^sup>*\<^sup>* c' c" using x
    proof (induction rule: rtranclp_induct)
      case (step y z)
      then show ?case using parent_of_fun by (metis converse_rtranclpE r_into_rtranclp rtranclp.rtrancl_into_rtrancl)
    qed simp
    then show False using step [OF c c'(1)] step [OF c'(1) c] c'(2) by auto
  qed
qed

lemma sub_finite:
  assumes T: "Snapshot_Laws.tree_ok s" and a: "h_nodes s a \<noteq> None"
  shows "finite (sub s a)" "card (sub s a) \<le> h_next s"
proof -
  have "sub s a \<subseteq> {..<h_next s}" using sub_live [of _ s a] a Snapshot_Laws.tree_okD(1) [OF T] by blast
  then show "finite (sub s a)" "card (sub s a) \<le> h_next s" using finite_subset card_mono [of "{..<h_next s}"] by auto
qed

lemma sub_root:
  assumes T: "Snapshot_Laws.tree_ok s"
  shows "sub s (history_tree s) = dom (h_nodes s)"
proof
  obtain r where r: "h_nodes s (history_tree s) = Some r" using tree_ok_root [OF T] by blast
  then show "sub s (history_tree s) \<subseteq> dom (h_nodes s)" using sub_live [of _ s "history_tree s"] by auto
  have "x \<in> sub s (history_tree s)" if "h_nodes s x = Some n" for x n
    using that
  proof (induction x arbitrary: n rule: less_induct)
    case (less x)
    show ?case
    proof (cases "h_parent n")
      case None
      then show ?thesis using Snapshot_Laws.tree_okD(4) [OF T less.prems] by simp
    next
      case (Some p)
      then obtain k where "p < x" "h_nodes s p = Some k" using Snapshot_Laws.tree_okD(5) [OF T less.prems] by blast
      then have "p \<in> sub s (history_tree s)" using less.IH by blast
      moreover have "parent_of s x p" using less.prems Some by (simp add: parent_of_def)
      ultimately show ?thesis by (auto simp: sub_def intro: converse_rtranclp_into_rtranclp)
    qed
  qed
  then show "dom (h_nodes s) \<subseteq> sub s (history_tree s)" by blast
qed

lemma sub_smaller:
  assumes T: "Snapshot_Laws.tree_ok s" and a: "h_nodes s a = Some n" and c: "c \<in> set (h_children n)"
  shows "card (sub s c) < card (sub s a)"
proof (rule psubset_card_mono)
  show "finite (sub s a)" using sub_finite [OF T] a by simp
  have "sub s c \<subseteq> sub s a" unfolding sub_node [OF T a] using c by blast
  moreover have "a \<in> sub s a" by simp
  ultimately show "sub s c \<subset> sub s a" using sub_child(1) [OF T a c] by blast
qed

section \<open>Saving the history\<close>

definition sid_of :: "('k, 'b) mem_store \<Rightarrow> nat \<Rightarrow> nat" where
  "sid_of m a = h_snapshot_id (the (h_nodes (ms_hist m) a))"

definition hbuf :: "('k, 'b) mem_store \<Rightarrow> nat \<Rightarrow> HistoryNodeBuffer" where
  "hbuf m a =
     (let n = the (h_nodes (ms_hist m) a); hn = the (hist (ms_trees m) a) in
      \<lparr>hb_parent = (case h_parent n of None \<Rightarrow> 0 | Some p \<Rightarrow> sid_of m p), hb_metadata = h_metadata n, hb_children = map (sid_of m) (h_children n),
       hb_root = (if hn_root hn = 0 then 0 else tid (the (nodes (ms_trees m) (hn_root hn)))), hb_root_id = hn_root_id hn,
       hb_status = h_status n, hb_snapshot_id = h_snapshot_id n\<rparr>)"

definition storable :: "node_cfg \<Rightarrow> 'b block_ops \<Rightarrow> ('k, 'b) mem_store \<Rightarrow> bool" where
  "storable c ops m \<longleftrightarrow> storable_trees c ops m \<and> Snapshot_Laws.tree_ok (ms_hist m) \<and> ids_ok (ms_hist m)
     \<and> (\<forall>a n. h_nodes (ms_hist m) a = Some n \<longrightarrow> (\<exists>hn. hist (ms_trees m) a = Some hn \<and> (h_root n \<longleftrightarrow> hn_root hn \<noteq> 0)
          \<and> (hn_root hn \<noteq> 0 \<longrightarrow> height (nodes (ms_trees m)) 8 (hn_root hn))))
     \<and> (\<forall>a \<in> heads (ms_hist m). h_nodes (ms_hist m) a \<noteq> None) \<and> distinct (map fst (named_branches (ms_hist m)))"

lemma storable_histD:
  assumes "storable c ops m"
  shows "storable_trees c ops m" "Snapshot_Laws.tree_ok (ms_hist m)"
    and "h_nodes (ms_hist m) a = Some n \<Longrightarrow> snapshot_map (ms_hist m) (h_snapshot_id n) = Some a"
    and "h_nodes (ms_hist m) a = Some n \<Longrightarrow> \<exists>hn. hist (ms_trees m) a = Some hn \<and> (h_root n \<longleftrightarrow> hn_root hn \<noteq> 0)
          \<and> (hn_root hn \<noteq> 0 \<longrightarrow> height (nodes (ms_trees m)) 8 (hn_root hn))"
    and "a \<in> heads (ms_hist m) \<Longrightarrow> h_nodes (ms_hist m) a \<noteq> None" and "distinct (map fst (named_branches (ms_hist m)))"
  using assms unfolding storable_def ids_ok_def by blast+

lemma sid_inj:
  assumes "storable c ops m" "h_nodes (ms_hist m) a \<noteq> None" "h_nodes (ms_hist m) b \<noteq> None" "sid_of m a = sid_of m b"
  shows "a = b"
  using storable_histD(3) [OF assms(1), of a] storable_histD(3) [OF assms(1), of b] assms(2-4) by (fastforce simp: sid_of_def)

lemma height_live: "height H d a \<Longrightarrow> H a \<noteq> None"
  by (cases d) (auto split: option.splits)

lemma snapshot_of_live: "h_nodes (ms_hist m) a \<noteq> None \<Longrightarrow> snapshot_of m a = Inr (sid_of m a)"
  by (auto simp: snapshot_of_def deref_def sid_of_def)

lemma history_buffer_ok:
  assumes S: "storable c ops m" and n: "h_nodes (ms_hist m) a = Some n"
  shows "history_buffer m a = Inr (hbuf m a)"
proof -
  note T = storable_histD(2) [OF S]
  obtain hn where hn: "hist (ms_trees m) a = Some hn" "hn_root hn \<noteq> 0 \<longrightarrow> height (nodes (ms_trees m)) 8 (hn_root hn)"
    using storable_histD(4) [OF S n] by blast
  have r: "(if hn_root hn \<noteq> 0 then id_at m (hn_root hn) else Inr 0) = Inr (if hn_root hn = 0 then 0 else tid (the (nodes (ms_trees m) (hn_root hn))))"
    using hn(2) height_live [of "nodes (ms_trees m)" 8 "hn_root hn"] by (auto intro: id_at_Some)
  have p: "(case h_parent n of None \<Rightarrow> Inr 0 | Some p \<Rightarrow> snapshot_of m p) = Inr (case h_parent n of None \<Rightarrow> 0 | Some p \<Rightarrow> sid_of m p)"
    using Snapshot_Laws.tree_okD(5) [OF T n] snapshot_of_live by (fastforce split: option.split)
  have c: "mapR (snapshot_of m) (h_children n) = Inr (map (sid_of m) (h_children n))"
    by (rule mapR_Inr, rule snapshot_of_live) (use Snapshot_Laws.tree_okD(3) [OF T n] in blast)
  show ?thesis unfolding history_buffer_def hbuf_def using n hn(1) r p c by (simp add: deref_def)
qed

definition hist_loaded :: "('k, 'b) mem_store \<Rightarrow> nat set \<Rightarrow> ('k, 'b) loader \<Rightarrow> bool" where
  "hist_loaded m V l \<longleftrightarrow> (\<forall>i b. l_hist l i = Some b \<longleftrightarrow> (\<exists>x \<in> V. sid_of m x = i \<and> b = hbuf m x))"

lemma hist_loaded_add:
  assumes S: "storable c ops m" and L: "hist_loaded m V l" and V: "V \<subseteq> dom (h_nodes (ms_hist m))"
    and a: "h_nodes (ms_hist m) a \<noteq> None" "a \<notin> V" and l': "l_hist l' = (l_hist l)(sid_of m a \<mapsto> hbuf m a)"
  shows "l_hist l (sid_of m a) = None" "hist_loaded m (insert a V) l'"
proof -
  have new: "sid_of m x \<noteq> sid_of m a" if "x \<in> V" for x using sid_inj [OF S, of x a] that V a by blast
  then show "l_hist l (sid_of m a) = None" using L unfolding hist_loaded_def by (metis not_None_eq)
  show "hist_loaded m (insert a V) l'" unfolding hist_loaded_def
  proof (intro allI)
    fix i b show "l_hist l' i = Some b \<longleftrightarrow> (\<exists>x \<in> insert a V. sid_of m x = i \<and> b = hbuf m x)"
      using L new unfolding hist_loaded_def l' by (cases "i = sid_of m a") auto
  qed
qed

text \<open>The step of writing the history nodes \<open>V' - V\<close> with their trees.\<close>

definition roots_stored :: "('k, 'b) mem_store \<Rightarrow> nat set \<Rightarrow> (nat + nat) set \<Rightarrow> bool" where
  "roots_stored m V W \<longleftrightarrow> (\<forall>x \<in> V. \<forall>hn. hist (ms_trees m) x = Some hn \<longrightarrow> hn_root hn \<noteq> 0 \<longrightarrow> Inl (hn_root hn) \<in> W)"

definition saved :: "node_cfg \<Rightarrow> 'b block_ops \<Rightarrow> ('k :: zero, 'b) mem_store \<Rightarrow> ('k, 'b) loader \<Rightarrow> 'k image_writer \<Rightarrow> nat set
    \<Rightarrow> 'k image_writer \<Rightarrow> ('k, 'b) loader \<Rightarrow> nat set \<Rightarrow> bool" where
  "saved c ops m l w V w' l' V' \<longleftrightarrow> (\<exists>ts k. w_out w' = w_out w @ ts \<and> w_records w' = w_records w + int k \<and> reads c ops l ts k l' \<and> card V' \<le> card V + k)
     \<and> agrees c ops m w' l' \<and> closed_since m (w_stored w) (w_stored w') \<and> l_metadata l' = l_metadata l \<and> hist_loaded m V' l'
     \<and> V \<subseteq> V' \<and> roots_stored m (V' - V) (w_stored w')"

lemma saved_trans:
  assumes 1: "saved c ops m l w V w' l' V'" and 2: "saved c ops m l' w' V' w'' l'' V''"
  shows "saved c ops m l w V w'' l'' V''"
proof -
  obtain ts k us n where "w_out w' = w_out w @ ts" "w_records w' = w_records w + int k" "reads c ops l ts k l'" "card V' \<le> card V + k"
      "w_out w'' = w_out w' @ us" "w_records w'' = w_records w' + int n" "reads c ops l' us n l''" "card V'' \<le> card V' + n"
    using assms unfolding saved_def by blast
  then have "\<exists>ts k. w_out w'' = w_out w @ ts \<and> w_records w'' = w_records w + int k \<and> reads c ops l ts k l'' \<and> card V'' \<le> card V + k"
    by (intro exI [of _ "ts @ us"] exI [of _ "k + n"]) (simp add: reads_append)
  moreover have "w_stored w' \<subseteq> w_stored w''" using 2 by (simp add: saved_def closed_since_def)
  then have "roots_stored m (V'' - V) (w_stored w'')" using 1 2 unfolding saved_def roots_stored_def by blast
  moreover have "closed_since m (w_stored w) (w_stored w'')" using 1 2 closed_since_trans by (auto simp: saved_def)
  ultimately show ?thesis using 1 2 unfolding saved_def by auto
qed

lemma read_history_written:
  assumes none: "l_hist l (hb_snapshot_id b) = None"
  shows "read_record c ops l (type_code TYPE_HISTORY_NODE) (([Int32 (status_code (hb_status b)), Uuid (hb_snapshot_id b), Uuid (hb_root b),
      Uuid (hb_root_id b), Uuid (hb_parent b), Text (hb_metadata b), Int64 (int (length (hb_children b)))] @ map Uuid (hb_children b)) @ rest)
    = Inr (l\<lparr>l_hist := (l_hist l)(hb_snapshot_id b \<mapsto> b)\<rparr>, rest)"
proof -
  have "rd_many (length (hb_children b)) rd_uuid (map Uuid (hb_children b) @ rest) = Inr (hb_children b, rest)"
    using uuid.many [of "hb_children b" rest] by (simp add: concat_map_singleton)
  then show ?thesis using none by (cases b) (simp add: read_record_def read_history_node_def)
qed

lemma write_history_node_ok:
  assumes S: "storable c ops m" and A: "agrees c ops m w l" and L: "hist_loaded m V l" and V: "V \<subseteq> dom (h_nodes (ms_hist m))"
    and a: "h_nodes (ms_hist m) a \<noteq> None" "a \<notin> V"
  shows "\<exists>w' l'. write_history_node 8 c ops m w a = Inr w' \<and> saved c ops m l w V w' l' (insert a V)"
proof -
  obtain n where n: "h_nodes (ms_hist m) a = Some n" using a by blast
  obtain hn where hn: "hist (ms_trees m) a = Some hn" "hn_root hn \<noteq> 0 \<longrightarrow> height (nodes (ms_trees m)) 8 (hn_root hn)"
    using storable_histD(4) [OF S n] by blast
  let ?b = "hbuf m a"
  have id: "hb_snapshot_id ?b = sid_of m a" by (simp add: hbuf_def sid_of_def Let_def)
  let ?l = "l\<lparr>l_hist := (l_hist l)(hb_snapshot_id ?b \<mapsto> ?b)\<rparr>"
  note add = hist_loaded_add [OF S L V a, of ?l]
  let ?ts = "[Int32 (status_code (hb_status ?b)), Uuid (hb_snapshot_id ?b), Uuid (hb_root ?b),
      Uuid (hb_root_id ?b), Uuid (hb_parent ?b), Text (hb_metadata ?b), Int64 (int (length (hb_children ?b)))] @ map Uuid (hb_children ?b)"
  let ?w = "put w (Byte (type_code TYPE_HISTORY_NODE) # ?ts)"
  have rd: "reads c ops l (Byte (type_code TYPE_HISTORY_NODE) # ?ts) 1 ?l"
    by (rule reads_one) (use read_history_written [of l ?b c ops] add(1) id in auto)
  have ag: "agrees c ops m ?w ?l"
    using A nodes_loaded_cong(2) [of c ops m "w_stored w" l ?l] blocks_loaded_cong(2) [of ops m "w_stored w" l ?l] by (simp add: agrees_def)
  have fin: "finite V" using V finite_subset [of V "{..<h_next (ms_hist m)}"] Snapshot_Laws.tree_okD(1) [OF storable_histD(2) [OF S]] by blast
  have "\<exists>w' l'. (if hn_root hn \<noteq> 0 then write_persistent_tree 8 c ops m ?w (hn_root hn) else Inr ?w) = Inr w'
      \<and> writes_to c ops m ?l ?w w' l' \<and> closed_since m (w_stored ?w) (w_stored w') \<and> (hn_root hn \<noteq> 0 \<longrightarrow> Inl (hn_root hn) \<in> w_stored w')"
  proof (cases "hn_root hn = 0")
    case True
    then show ?thesis using writes_to_refl [OF ag] by (auto simp: closed_since_def)
  next
    case False
    then obtain w' l' where "write_persistent_tree 8 c ops m ?w (hn_root hn) = Inr w'" "wrote c ops m ?l ?w [Inl (hn_root hn)] w' l'"
      using write_tree_ok [OF storable_histD(1) [OF S] ag] hn(2) by blast
    then show ?thesis using False by (auto simp: wrote_def)
  qed
  then obtain w' l' where w': "(if hn_root hn \<noteq> 0 then write_persistent_tree 8 c ops m ?w (hn_root hn) else Inr ?w) = Inr w'"
      "writes_to c ops m ?l ?w w' l'" "closed_since m (w_stored ?w) (w_stored w')" "hn_root hn \<noteq> 0 \<longrightarrow> Inl (hn_root hn) \<in> w_stored w'" by blast
  obtain us k where us: "w_out w' = w_out ?w @ us" "w_records w' = w_records ?w + int k" "reads c ops ?l us k l'"
    using w'(2) unfolding writes_to_def by blast
  have "write_history_node 8 c ops m w a = (if hn_root hn \<noteq> 0 then write_persistent_tree 8 c ops m ?w (hn_root hn) else Inr ?w)"
    using history_buffer_ok [OF S n] hn(1) by (simp add: write_history_node_def Let_def)
  then have W: "write_history_node 8 c ops m w a = Inr w'" using w'(1) by (rule trans)
  have lh: "l_hist l' = l_hist ?l" "l_metadata l' = l_metadata l" "agrees c ops m w' l'" using w'(2) by (simp_all add: writes_to_def)
  have "hist_loaded m (insert a V) l'" using hist_loaded_add(2) [OF S L V a, of l'] lh(1) id by simp
  moreover have "\<exists>ts k. w_out w' = w_out w @ ts \<and> w_records w' = w_records w + int k \<and> reads c ops l ts k l' \<and> card (insert a V) \<le> card V + k"
    using us reads_append [OF rd us(3)] card_insert_le_m1 fin a(2)
    by (intro exI [of _ "(Byte (type_code TYPE_HISTORY_NODE) # ?ts) @ us"] exI [of _ "1 + k"]) simp
  moreover have "roots_stored m (insert a V - V) (w_stored w')" using w'(4) hn(1) a(2) by (auto simp: roots_stored_def)
  moreover have "closed_since m (w_stored w) (w_stored w')" using w'(3) by simp
  ultimately have "saved c ops m l w V w' l' (insert a V)" using lh unfolding saved_def by blast
  then show ?thesis using W by blast
qed

lemma walk_ok:
  assumes S: "storable c ops m"
  shows "agrees c ops m w l \<Longrightarrow> hist_loaded m V l \<Longrightarrow> V \<subseteq> dom (h_nodes (ms_hist m)) \<Longrightarrow> h_nodes (ms_hist m) a \<noteq> None
    \<Longrightarrow> sub (ms_hist m) a \<inter> V = {} \<Longrightarrow> card (sub (ms_hist m) a) \<le> d
    \<Longrightarrow> \<exists>w' l'. walk_version_tree d (write_history_node 8 c ops m) (ms_hist m) w a = Inr w' \<and> saved c ops m l w V w' l' (V \<union> sub (ms_hist m) a)"
proof (induction d arbitrary: w l V a)
  case 0
  then show ?case using sub_finite [OF storable_histD(2) [OF S] 0(4)] sub_self [of a "ms_hist m"] by auto
next
  case (Suc d)
  note T = storable_histD(2) [OF S]
  let ?f = "walk_version_tree d (write_history_node 8 c ops m) (ms_hist m)"
  obtain n where n: "h_nodes (ms_hist m) a = Some n" using Suc.prems(4) by blast
  have aV: "a \<notin> V" using Suc.prems(5) sub_self [of a "ms_hist m"] by blast
  obtain w1 l1 where 1: "write_history_node 8 c ops m w a = Inr w1" "saved c ops m l w V w1 l1 (insert a V)"
    using write_history_node_ok [OF S Suc.prems(1-4) aV] by blast
  have fold: "\<exists>w' l'. foldR ?f w2 cs = Inr w' \<and> saved c ops m l2 w2 U w' l' (U \<union> (\<Union>x \<in> set cs. sub (ms_hist m) x))"
    if "agrees c ops m w2 l2" "hist_loaded m U l2" "U \<subseteq> dom (h_nodes (ms_hist m))" "set cs \<subseteq> set (h_children n)" "distinct cs"
      "(\<Union>x \<in> set cs. sub (ms_hist m) x) \<inter> U = {}" for cs w2 l2 U
    using that
  proof (induction cs arbitrary: w2 l2 U)
    case Nil
    then show ?case by (auto simp: saved_def closed_since_def roots_stored_def intro!: exI [of _ "[]"] exI [of _ 0] exI [of _ l2] reads_nothing)
  next
    case (Cons x cs)
    have x: "x \<in> set (h_children n)" "h_nodes (ms_hist m) x \<noteq> None" using Cons.prems(4) Snapshot_Laws.tree_okD(3) [OF T n] by auto
    have cx: "card (sub (ms_hist m) x) \<le> d" using sub_smaller [OF T n x(1)] Suc.prems(6) by simp
    have "sub (ms_hist m) x \<inter> U = {}" using Cons.prems(6) by auto
    then obtain w3 l3 where 3: "?f w2 x = Inr w3" "saved c ops m l2 w2 U w3 l3 (U \<union> sub (ms_hist m) x)"
      using Suc.IH [OF Cons.prems(1-3) x(2) _ cx] by blast
    have "sub (ms_hist m) y \<inter> sub (ms_hist m) x = {}" if "y \<in> set cs" for y
      using sub_child(2) [OF T n _ x(1), of y] that Cons.prems(4,5) by auto
    then have dis: "(\<Union>y \<in> set cs. sub (ms_hist m) y) \<inter> (U \<union> sub (ms_hist m) x) = {}" using Cons.prems(6) by auto
    have ag: "agrees c ops m w3 l3" "hist_loaded m (U \<union> sub (ms_hist m) x) l3" using 3(2) by (simp_all add: saved_def)
    have subs: "set cs \<subseteq> set (h_children n)" "distinct cs" using Cons.prems(4,5) by simp_all
    have U: "U \<union> sub (ms_hist m) x \<subseteq> dom (h_nodes (ms_hist m))" using Cons.prems(3) sub_live [of _ "ms_hist m" x] x(2) by auto
    from Cons.IH [OF ag U subs dis] obtain w4 l4 where "foldR ?f w3 cs = Inr w4"
        "saved c ops m l3 w3 (U \<union> sub (ms_hist m) x) w4 l4 (U \<union> sub (ms_hist m) x \<union> (\<Union>y \<in> set cs. sub (ms_hist m) y))" by blast
    then show ?case using 3(1) saved_trans [OF 3(2)] by (intro exI [of _ w4] exI [of _ l4]) (auto simp: Un_assoc)
  qed
  have ag: "agrees c ops m w1 l1" "hist_loaded m (insert a V) l1" using 1(2) by (simp_all add: saved_def)
  have V1: "insert a V \<subseteq> dom (h_nodes (ms_hist m))" using Suc.prems(3) n by auto
  have dis: "(\<Union>x \<in> set (h_children n). sub (ms_hist m) x) \<inter> insert a V = {}"
    using Suc.prems(5) sub_node [OF T n] sub_child(1) [OF T n] by auto
  from fold [OF ag V1 order_refl Snapshot_Laws.tree_okD(2) [OF T n] dis]
  obtain w2 l2 where w2: "foldR ?f w1 (h_children n) = Inr w2"
      "saved c ops m l1 w1 (insert a V) w2 l2 (insert a V \<union> (\<Union>x \<in> set (h_children n). sub (ms_hist m) x))" by blast
  have "insert a V \<union> (\<Union>x \<in> set (h_children n). sub (ms_hist m) x) = V \<union> sub (ms_hist m) a" using sub_node [OF T n] by auto
  then show ?case using 1(1) w2 n saved_trans [OF 1(2)] by (intro exI [of _ w2] exI [of _ l2]) (auto simp: deref_def)
qed

section \<open>The records of an image\<close>

lemma alist_update_new: "k \<notin> fst ` set al \<Longrightarrow> AList.update k v al = al @ [(k, v)]"
  by (induction al) auto

lemma fold_update_new: "distinct (map fst (al @ bs)) \<Longrightarrow> fold (\<lambda>(k, v). AList.update k v) bs al = al @ bs"
proof (induction bs arbitrary: al)
  case (Cons b bs)
  then show ?case using alist_update_new [of "fst b" al "snd b"] by (cases b) auto
qed simp

definition image_metadata :: "('k, 'b) mem_store \<Rightarrow> AllocatorMetadata" where
  "image_metadata m = \<lparr>am_master = sid_of m (master_node (ms_hist m)), am_root = sid_of m (history_tree (ms_hist m)),
     am_branches = map (\<lambda>(name, a). (name, sid_of m a)) (named_branches (ms_hist m))\<rparr>"

lemma write_metadata_ok:
  fixes m :: "('k :: zero, 'b) mem_store"
  assumes S: "storable c ops m" and w: "w_stored w = {}"
  shows "\<exists>w' l' ts. write_metadata m w = Inr w' \<and> w_out w' = w_out w @ ts \<and> w_records w' = w_records w + 1
    \<and> reads c ops (empty_loader blk) ts 1 l' \<and> l_metadata l' = image_metadata m \<and> agrees c ops m w' l' \<and> hist_loaded m {} l' \<and> w_stored w' = {}"
proof -
  note T = storable_histD(2) [OF S]
  let ?h = "ms_hist m"
  let ?bs = "am_branches (image_metadata m)"
  let ?ts = "[Uuid (am_master (image_metadata m)), Uuid (am_root (image_metadata m)), Int64 (int (length ?bs))] @ concat (map (\<lambda>(name, i). [Text name, Uuid i]) ?bs)"
  let ?w = "put w (Byte (type_code TYPE_METADATA) # ?ts)"
  let ?l = "(empty_loader blk :: ('k, 'b) loader)\<lparr>l_metadata := image_metadata m\<rparr>"
  have heads: "snapshot_of m a = Inr (sid_of m a)" if "a \<in> heads ?h" for a by (rule snapshot_of_live [OF storable_histD(5) [OF S that]])
  have root: "snapshot_of m (history_tree ?h) = Inr (sid_of m (history_tree ?h))" using tree_ok_root [OF T] by (intro snapshot_of_live) auto
  have "mapR (\<lambda>(name, a). bindR (snapshot_of m a) (\<lambda>i. Inr (name, i))) (named_branches ?h) = Inr ?bs"
    unfolding image_metadata_def
  proof (simp, rule mapR_Inr)
    fix x assume "x \<in> set (named_branches ?h)"
    then have "snapshot_of m (snd x) = Inr (sid_of m (snd x))" by (intro heads) simp
    then show "(case x of (name, a) \<Rightarrow> bindR (snapshot_of m a) (\<lambda>i. Inr (name, i))) = Inr (case x of (name, a) \<Rightarrow> (name, sid_of m a))"
      by (cases x) simp
  qed
  then have W: "write_metadata m w = Inr ?w" using heads root by (simp add: write_metadata_def image_metadata_def)
  have many: "rd_many (length ?bs) (rd_bind rd_text (\<lambda>name. rd_bind rd_uuid (\<lambda>v. rd_return (name, v)))) (concat (map (\<lambda>(name, i). [Text name, Uuid i]) ?bs) @ rest)
      = Inr (?bs, rest)" for rest :: "'k token list" by (rule named_branch.many)
  have "map fst ?bs = map fst (named_branches ?h)" by (simp add: image_metadata_def case_prod_beta)
  then have "fold (\<lambda>(name, v). AList.update name v) ?bs [] = ?bs" using fold_update_new [of "[]" ?bs] storable_histD(6) [OF S] by simp
  then have "read_record c ops (empty_loader blk) (type_code TYPE_METADATA) (?ts @ rest) = Inr (?l, rest)" for rest
    using many [of rest] by (simp add: read_record_def read_metadata_def rd_return_def empty_loader_def image_metadata_def)
  then have "reads c ops (empty_loader blk) (Byte (type_code TYPE_METADATA) # ?ts) 1 ?l" by (intro reads_one) auto
  moreover have "agrees c ops m ?w ?l" using w by (simp add: agrees_def nodes_loaded_def blocks_loaded_def empty_loader_def)
  moreover have "hist_loaded m {} ?l" by (simp add: hist_loaded_def empty_loader_def)
  ultimately show ?thesis using W w by (intro exI [of _ ?w] exI [of _ ?l] exI [of _ "Byte (type_code TYPE_METADATA) # ?ts"]) simp
qed

text \<open>What the loader has after the last record of an image.\<close>

definition image_loaded :: "node_cfg \<Rightarrow> 'b block_ops \<Rightarrow> ('k :: zero, 'b) mem_store \<Rightarrow> (nat + nat) set \<Rightarrow> ('k, 'b) loader \<Rightarrow> bool" where
  "image_loaded c ops m W l \<longleftrightarrow> nodes_loaded c ops m W l \<and> blocks_loaded ops m W l \<and> hist_loaded m (dom (h_nodes (ms_hist m))) l
     \<and> l_metadata l = image_metadata m \<and> closed_since m {} W \<and> roots_stored m (dom (h_nodes (ms_hist m))) W"

lemma store_reads_back:
  fixes m :: "('k :: zero, 'b) mem_store"
  assumes S: "storable c ops (m\<lparr>ms_hist := h\<rparr>)" and p: "pack_store (ms_hist m) = Inr h"
  shows "\<exists>ts l n W. do_store c ops m = Inr (Raw signature # ts @ [Byte (type_code TYPE_CHECKSUM), Int64 n])
    \<and> (\<forall>k. read_records (length ts + 2) c ops (empty_loader blk) 0 (ts @ [Byte (type_code TYPE_CHECKSUM), Int64 k]) = Inr (l, n, k))
    \<and> image_loaded c ops (m\<lparr>ms_hist := h\<rparr>) W l \<and> card (dom (h_nodes h)) \<le> length ts"
proof -
  let ?m = "m\<lparr>ms_hist := h\<rparr>"
  note T = storable_histD(2) [OF S, simplified]
  let ?w0 = "\<lparr>w_out = [Raw signature], w_records = 0, w_stored = {}\<rparr>"
  obtain w1 l1 ts where 1: "write_metadata ?m ?w0 = Inr w1" "w_out w1 = Raw signature # ts" "w_records w1 = 1"
      "reads c ops (empty_loader blk) ts 1 l1" "l_metadata l1 = image_metadata ?m" "agrees c ops ?m w1 l1" "hist_loaded ?m {} l1" "w_stored w1 = {}"
    using write_metadata_ok [OF S, of ?w0 blk] by auto
  have live: "h_nodes h (history_tree h) \<noteq> None" using tree_ok_root [OF T] by auto
  obtain w2 l2 where 2: "walk_version_tree (h_next h) (write_history_node 8 c ops ?m) h w1 (history_tree h) = Inr w2"
      "saved c ops ?m l1 w1 {} w2 l2 (sub h (history_tree h))"
    using walk_ok [OF S 1(6,7), of "history_tree h" "h_next h"] live sub_finite(2) [OF T live] by auto
  obtain us k where us: "w_out w2 = w_out w1 @ us" "w_records w2 = w_records w1 + int k" "reads c ops l1 us k l2" "card (sub h (history_tree h)) \<le> k"
    using 2(2) unfolding saved_def by (metis add_0 card.empty)
  let ?fin = "\<lambda>i. [Byte (type_code TYPE_CHECKSUM), Int64 i]"
  have D: "do_store c ops m = Inr (Raw signature # (ts @ us) @ ?fin (w_records w2 + 1))" using p 1(1,2) 2(1) us(1) by (simp add: do_store_def Let_def)
  have R: "reads c ops (empty_loader blk) (ts @ us) (1 + k) l2" by (rule reads_append [OF 1(4) us(3)])
  then have le: "1 + k \<le> length (ts @ us)" by (simp only: reads_def)
  obtain f where f: "length (ts @ us) + 2 = (1 + k) + Suc f" using le by (intro that [of "length (ts @ us) + 1 - (1 + k)"]) simp
  have rr: "read_records (length (ts @ us) + 2) c ops (empty_loader blk) 0 ((ts @ us) @ ?fin i) = Inr (l2, w_records w2 + 1, i)" for i
  proof -
    have "read_records ((1 + k) + Suc f) c ops (empty_loader blk) 0 ((ts @ us) @ ?fin i) = read_records (Suc f) c ops l2 (0 + int (1 + k)) (?fin i)"
      using R unfolding reads_def by blast
    also have "\<dots> = Inr (l2, int (1 + k) + 1, i)" by simp
    finally show ?thesis unfolding f using us(2) 1(3) by simp
  qed
  have "image_loaded c ops ?m (w_stored w2) l2"
    using 2(2) 1(5,8) sub_root [OF T] by (simp add: image_loaded_def saved_def agrees_def)
  moreover have "card (dom (h_nodes h)) \<le> length (ts @ us)" using us(4) le sub_root [OF T] by simp
  ultimately show ?thesis using D rr by blast
qed

end
