(* ===== verification/Store_Image_Load.thy ===== *)
theory Store_Image_Load
  imports Store_Image_History
begin

text \<open>
  From the records to a store: the nodes are linked to copies of the saved trees (\<open>linked_tree\<close>), \<open>build_history_tree\<close> makes a
  history that mirrors the saved one (\<open>build_ok\<close>), and the loaded store gives the answers of the saved one.
\<close>

section \<open>Linking the nodes\<close>

definition node_addr :: "('k, 'b) mem_store \<Rightarrow> ('k, 'b) loader \<Rightarrow> nat \<Rightarrow> nat" where
  "node_addr m l a = snd (the (l_nodes l (tid (the (nodes (ms_trees m) a)))))"

definition moved_value :: "'b block_ops \<Rightarrow> ('k, 'b) mem_store \<Rightarrow> ('k, 'b) loader \<Rightarrow> pvalue \<Rightarrow> pvalue" where
  "moved_value ops m l v = PersistentTreeValue (the (l_blocks l (block_id ops m (block_ptr v)))) (value_snapshot v)"

fun linked_node :: "node_cfg \<Rightarrow> 'b block_ops \<Rightarrow> ('k :: zero, 'b) mem_store \<Rightarrow> ('k, 'b) loader \<Rightarrow> 'k tnode \<Rightarrow> 'k tnode" where
  "linked_node c ops m l (Branch n) = Branch (with_data c (trimmed c n) (map (node_addr m l) (take (node_size n) (node_data n))))"
| "linked_node c ops m l (Leaf n) = Leaf (with_data c (trimmed c n) (map (moved_value ops m l) (take (node_size n) (node_data n))))"

lemma with_data_trimmed:
  "with_data c (trimmed c (child_ids m n)) ds = with_data c (trimmed c n) ds"
  "with_data c (trimmed c (leaf_ids ops m k)) es = with_data c (trimmed c k) es"
  by (simp_all add: with_data_def populate_as_buffer_def trimmed_def child_ids_def leaf_ids_def last_idx_def)

lemma link_node_ok:
  assumes S: "storable_trees c ops m" and N: "nodes_loaded c ops m W l" and B: "blocks_loaded ops m W l" and C: "closed_since m {} W"
    and t: "nodes (ms_trees m) a = Some t" "Inl a \<in> W"
  shows "link_node c l (buffer_of c ops m a t) = Inr (refs (ms_trees m) a, linked_node c ops m l t)"
proof -
  note ok = storableD(1) [OF S]
  have ch: "Inl x \<in> W" if "x \<in> set (children t)" for x using C t that unfolding closed_since_def by blast
  have bl: "Inr b \<in> W" if "b \<in> set (leaf_blocks t)" for b using C t that unfolding closed_since_def by blast
  show ?thesis
  proof (cases t)
    case (Leaf n)
    have n: "node_type n = LEAF" "node_ok c n" using store_okD(7) [OF ok, of a n] t(1) Leaf by auto
    have "link_value l (block_id ops m (block_ptr v), value_snapshot v) = Inr (moved_value ops m l v)" if "v \<in> set (take (node_size n) (node_data n))" for v
    proof -
      have "Inr (block_ptr v) \<in> W" using bl that Leaf by auto
      then obtain y where "l_blocks l (block_id ops m (block_ptr v)) = Some y" using B unfolding blocks_loaded_def by blast
      then show ?thesis by (simp add: link_value_def moved_value_def)
    qed
    then have "mapR (\<lambda>v. link_value l (block_id ops m (block_ptr v), value_snapshot v)) (take (node_size n) (node_data n))
        = Inr (map (moved_value ops m l) (take (node_size n) (node_data n)))" by (rule mapR_Inr)
    moreover have "mapR (link_value l) (map f xs) = mapR (\<lambda>v. link_value l (f v)) xs" for f and xs :: "pvalue list" by (induction xs) simp_all
    moreover have "node_data (trimmed c (leaf_ids ops m n)) = map (\<lambda>v. (block_id ops m (block_ptr v), value_snapshot v)) (take (node_size n) (node_data n))"
      by (simp add: trimmed_def leaf_ids_def take_map)
    moreover have "node_type (trimmed c (leaf_ids ops m n)) = LEAF" using n(1) by (simp add: trimmed_def leaf_ids_def)
    ultimately show ?thesis using Leaf by (simp add: link_node_def with_data_trimmed)
  next
    case (Branch n)
    have n: "node_type n = BRANCH" "node_ok c n" using store_okD(6) [OF ok, of a n] t(1) Branch by auto
    have "link_child l (tid (the (nodes (ms_trees m) x))) = Inr (node_addr m l x)" if "x \<in> set (take (node_size n) (node_data n))" for x
    proof -
      have "Inl x \<in> W" using ch that Branch by auto
      then obtain u y where "nodes (ms_trees m) x = Some u" "l_nodes l (tid u) = Some (buffer_of c ops m x u, y)" using N unfolding nodes_loaded_def by blast
      then show ?thesis by (simp add: link_child_def node_addr_def)
    qed
    then have "mapR (\<lambda>x. link_child l (tid (the (nodes (ms_trees m) x)))) (take (node_size n) (node_data n))
        = Inr (map (node_addr m l) (take (node_size n) (node_data n)))" by (rule mapR_Inr)
    moreover have "mapR (link_child l) (map f xs) = mapR (\<lambda>v. link_child l (f v)) xs" for f and xs :: "nat list" by (induction xs) simp_all
    moreover have "node_data (trimmed c (child_ids m n)) = map (\<lambda>x. tid (the (nodes (ms_trees m) x))) (take (node_size n) (node_data n))"
      by (simp add: trimmed_def child_ids_def take_map)
    moreover have "node_type (trimmed c (child_ids m n)) = BRANCH" using n(1) by (simp add: trimmed_def child_ids_def)
    ultimately show ?thesis using Branch by (simp add: link_node_def with_data_trimmed)
  qed
qed

lemma link_nodes_ok:
  assumes S: "storable_trees c ops m" and N: "nodes_loaded c ops m W l" and B: "blocks_loaded ops m W l" and C: "closed_since m {} W"
  shows "\<exists>s'. link_nodes c l s = Inr s' \<and> blocks s' = blocks s \<and> hist s' = hist s
    \<and> (\<forall>a t. Inl a \<in> W \<longrightarrow> nodes (ms_trees m) a = Some t \<longrightarrow> nodes s' (node_addr m l a) = Some (linked_node c ops m l t))"
proof -
  let ?f = "\<lambda>s i. case l_nodes l i of None \<Rightarrow> Inr s | Some (b, a) \<Rightarrow> bindR (link_node c l b) (\<lambda>(count, t).
           Inr (s\<lparr>nodes := (nodes s)(a \<mapsto> t), refs := (refs s)(a := count)\<rparr>))"
  let ?in = "\<lambda>s a t. nodes s (node_addr m l a) = Some (linked_node c ops m l t)"
  have entry: "\<exists>x. l_nodes l (tid t) = Some (buffer_of c ops m a t, x) \<and> x = node_addr m l a" if "Inl a \<in> W" "nodes (ms_trees m) a = Some t" for a t
    using N that unfolding nodes_loaded_def node_addr_def by (metis option.inject option.sel snd_conv)
  have fold: "\<exists>s'. foldR ?f s is = Inr s' \<and> blocks s' = blocks s \<and> hist s' = hist s
      \<and> (\<forall>a t. Inl a \<in> W \<longrightarrow> nodes (ms_trees m) a = Some t \<longrightarrow> tid t \<in> set is \<or> ?in s a t \<longrightarrow> ?in s' a t)"
    if "set is \<subseteq> dom (l_nodes l)" for s "is"
    using that
  proof (induction "is" arbitrary: s)
    case (Cons i "is")
    obtain y where "l_nodes l i = Some y" using Cons.prems by auto
    then obtain a t where a: "Inl a \<in> W" "nodes (ms_trees m) a = Some t" "tid t = i" using N unfolding nodes_loaded_def by blast
    then have y: "l_nodes l i = Some (buffer_of c ops m a t, node_addr m l a)" using entry [OF a(1,2)] by simp
    let ?s = "s\<lparr>nodes := (nodes s)(node_addr m l a \<mapsto> linked_node c ops m l t), refs := (refs s)(node_addr m l a := refs (ms_trees m) a)\<rparr>"
    have s1: "?f s i = Inr ?s" using y link_node_ok [OF S N B C a(2,1)] by simp
    have keep: "?in ?s b u" if b: "Inl b \<in> W" "nodes (ms_trees m) b = Some u" "?in s b u \<or> tid u = i" for b u
    proof (cases "b = a")
      case False
      have "tid u \<noteq> i" using storableD(2) [OF S b(2) a(2)] a(3) False by auto
      moreover have "node_addr m l b \<noteq> node_addr m l a"
      proof
        assume "node_addr m l b = node_addr m l a"
        then have "tid u = i" using N entry [OF b(1,2)] y unfolding nodes_loaded_def by (metis snd_conv)
        then show False using \<open>tid u \<noteq> i\<close> by simp
      qed
      ultimately show ?thesis using b(3) by simp
    qed (use a(2) b(2) in simp)
    have sub: "set is \<subseteq> dom (l_nodes l)" using Cons.prems by simp
    from Cons.IH [OF sub, of ?s] obtain s' where s': "foldR ?f ?s is = Inr s'" "blocks s' = blocks ?s" "hist s' = hist ?s"
        "\<forall>a t. Inl a \<in> W \<longrightarrow> nodes (ms_trees m) a = Some t \<longrightarrow> tid t \<in> set is \<or> ?in ?s a t \<longrightarrow> ?in s' a t" by blast
    show ?case
    proof (intro exI [of _ s'] conjI allI impI)
      show "foldR ?f s (i # is) = Inr s'" using s1 s'(1) by simp
      show "blocks s' = blocks s" "hist s' = hist s" using s'(2,3) by simp_all
      fix b u assume b: "Inl b \<in> W" "nodes (ms_trees m) b = Some u" "tid u \<in> set (i # is) \<or> ?in s b u"
      then show "?in s' b u" using s'(4) keep [OF b(1,2)] by auto
    qed
  qed simp
  have dom: "set (l_node_ids l) = dom (l_nodes l)" using N by (simp add: nodes_loaded_def)
  obtain s' where s': "foldR ?f s (l_node_ids l) = Inr s'" "blocks s' = blocks s" "hist s' = hist s"
      "\<forall>a t. Inl a \<in> W \<longrightarrow> nodes (ms_trees m) a = Some t \<longrightarrow> tid t \<in> set (l_node_ids l) \<or> ?in s a t \<longrightarrow> ?in s' a t"
    using fold [of "l_node_ids l" s] dom by blast
  have "tid t \<in> set (l_node_ids l)" if "Inl a \<in> W" "nodes (ms_trees m) a = Some t" for a t using entry [OF that] dom by blast
  then show ?thesis using s' unfolding link_nodes_def by (intro exI [of _ s']) simp
qed

section \<open>The trees of a loaded store\<close>

lemma with_data_fields:
  fixes n :: "('k :: zero, 'd) node"
  assumes n: "node_ok c n" and ds: "length ds = node_size n" and I: "Indexes c = NodeIndexSize c"
  shows "node_ok c (with_data c (trimmed c n) ds)" "keys_of (with_data c (trimmed c n) ds) = keys_of n"
    "node_size (with_data c (trimmed c n) ds) = node_size n" "node_type (with_data c (trimmed c n) ds) = node_type n"
    "take (node_size n) (node_data (with_data c (trimmed c n) ds)) = ds"
    "i < node_size n \<Longrightarrow> node_keys (with_data c (trimmed c n) ds) ! i = node_keys n ! i"
proof -
  let ?n = "with_data c (trimmed c n) ds"
  have sz: "node_size n \<le> NodeSize c" "length (node_keys n) = NodeSize c" "length (node_index n) = Indexes c" "0 < NodeIndexSize c"
    using n by (simp_all add: node_ok_def node_shape_def)
  note li = last_idx_le [OF n]
  show size: "node_size ?n = node_size n" "node_type ?n = node_type n" by (simp_all add: with_data_def populate_as_buffer_def trimmed_def)
  show key: "node_keys ?n ! i = node_keys n ! i" if "i < node_size n" for i using that sz by (simp add: with_data_def populate_as_buffer_def trimmed_def nth_append)
  show "take (node_size n) (node_data ?n) = ds" using ds by (simp add: with_data_def populate_as_buffer_def trimmed_def)
  show "keys_of ?n = keys_of n" using sz by (simp add: keys_of_def with_data_def populate_as_buffer_def trimmed_def)
  have lidx: "last_idx c ?n = last_idx c n" by (simp add: last_idx_def size)
  have "index_ok c ?n" unfolding index_ok_def lidx
  proof (intro allI impI)
    fix j assume j: "j < last_idx c n"
    then have "node_index ?n ! j = node_index n ! j" using sz li I by (simp add: with_data_def populate_as_buffer_def trimmed_def nth_append)
    also have "\<dots> = node_keys n ! (min ((j + 1) * NodeIndexSize c) (node_size n) - 1)" using n j by (simp add: node_ok_def index_ok_def)
    also have "\<dots> = node_keys ?n ! (min ((j + 1) * NodeIndexSize c) (node_size n) - 1)"
      using j last_idx_less [OF n, of j] by (intro key [symmetric]) auto
    finally show "node_index ?n ! j = node_keys ?n ! (min ((j + 1) * NodeIndexSize c) (node_size ?n) - 1)" by (simp add: size)
  qed
  moreover have "node_shape c ?n" using sz li ds I by (simp add: node_shape_def with_data_def populate_as_buffer_def trimmed_def min_def)
  ultimately show "node_ok c ?n" by (simp add: node_ok_def)
qed

lemma linked_tree:
  fixes m :: "('k :: {linorder, zero}, 'b) mem_store"
  assumes C: "closed_since m {} W" and I: "Indexes c = NodeIndexSize c"
    and L: "\<And>a t. Inl a \<in> W \<Longrightarrow> nodes (ms_trees m) a = Some t \<Longrightarrow> H (node_addr m l a) = Some (linked_node c ops m l t)"
  shows "Inl a \<in> W \<Longrightarrow> PTree_Spec.tree_ok c (nodes (ms_trees m)) d a lo hi \<Longrightarrow>
    PTree_Spec.tree_ok c H d (node_addr m l a) lo hi
    \<and> tree_entries H d (node_addr m l a) = map (\<lambda>(k, v). (k, moved_value ops m l v)) (tree_entries (nodes (ms_trees m)) d a)"
proof (induction d arbitrary: a lo hi)
  case 0
  from 0(2) obtain n where n: "nodes (ms_trees m) a = Some (Leaf n)" "node_ok c n" "node_type n = LEAF" by (rule tree_ok_LeafD)
  let ?ds = "map (moved_value ops m l) (take (node_size n) (node_data n))"
  have len: "length ?ds = node_size n" using n(2) by (simp add: node_ok_def node_shape_def)
  note F = with_data_fields [OF n(2) len I]
  have h: "H (node_addr m l a) = Some (Leaf (with_data c (trimmed c n) ?ds))" using L [OF 0(1) n(1)] by simp
  have "entries (with_data c (trimmed c n) ?ds) = map (\<lambda>(k, v). (k, moved_value ops m l v)) (entries n)"
    using F(2,3,5) by (simp add: entries_def keys_of_def zip_map2)
  then show ?case using 0(2) n(1) h F by simp
next
  case (Suc d)
  from Suc.prems(2) obtain n where n: "nodes (ms_trees m) a = Some (Branch n)" "node_ok c n" "node_type n = BRANCH" "0 < node_size n" "sorted (keys_of n)"
    and keys: "\<And>i. i < node_size n - 1 \<Longrightarrow> above lo (node_keys n ! i) \<and> below (node_keys n ! i) hi"
    and sub: "\<And>i. i < node_size n \<Longrightarrow> PTree_Spec.tree_ok c (nodes (ms_trees m)) d (node_data n ! i) (child_lo lo n i) (child_hi hi n i)"
    by (auto split: option.splits tnode.splits)
  let ?ds = "map (node_addr m l) (take (node_size n) (node_data n))"
  let ?n = "with_data c (trimmed c n) ?ds"
  have dl: "node_size n \<le> length (node_data n)" using n(2) by (simp add: node_ok_def node_shape_def)
  then have len: "length ?ds = node_size n" by simp
  note F = with_data_fields [OF n(2) len I]
  have h: "H (node_addr m l a) = Some (Branch ?n)" using L [OF Suc.prems(1) n(1)] by simp
  have W: "Inl (node_data n ! i) \<in> W" if "i < node_size n" for i
  proof -
    have "node_data n ! i \<in> set (children (Branch n))" using that dl by (auto simp: in_set_conv_nth)
    then show ?thesis using C Suc.prems(1) n(1) unfolding closed_since_def by blast
  qed
  have data: "node_data ?n ! i = node_addr m l (node_data n ! i)" if "i < node_size n" for i
    using that dl by (simp add: with_data_def populate_as_buffer_def nth_append)
  have IH: "PTree_Spec.tree_ok c H d (node_addr m l (node_data n ! i)) (child_lo lo n i) (child_hi hi n i)"
      "tree_entries H d (node_addr m l (node_data n ! i)) = map (\<lambda>(k, v). (k, moved_value ops m l v)) (tree_entries (nodes (ms_trees m)) d (node_data n ! i))"
    if "i < node_size n" for i using Suc.IH [OF W sub] that by simp_all
  have bounds: "child_lo lo ?n i = child_lo lo n i" "child_hi hi ?n i = child_hi hi n i" if "i < node_size n" for i
    using that F(3) F(6) [of "i - 1"] F(6) [of i] by (simp_all add: child_lo_def child_hi_def)
  have "PTree_Spec.tree_ok c H (Suc d) (node_addr m l a) lo hi"
    using h n(3-5) keys F(1-4) F(6) IH(1) data bounds by simp
  moreover have "map (tree_entries H d) (children (Branch ?n)) = map (\<lambda>x. map (\<lambda>(k, v). (k, moved_value ops m l v)) (tree_entries (nodes (ms_trees m)) d x)) (children (Branch n))"
  proof -
    have "children (Branch ?n) = map (node_addr m l) (take (node_size n) (node_data n))" using F(3,5) by simp
    moreover have "tree_entries H d (node_addr m l x) = map (\<lambda>(k, v). (k, moved_value ops m l v)) (tree_entries (nodes (ms_trees m)) d x)"
      if "x \<in> set (take (node_size n) (node_data n))" for x
      using that IH(2) dl by (auto simp: in_set_conv_nth)
    ultimately show ?thesis by simp
  qed
  then have "tree_entries H (Suc d) (node_addr m l a) = map (\<lambda>(k, v). (k, moved_value ops m l v)) (tree_entries (nodes (ms_trees m)) (Suc d) a)"
    using h n(1) by (simp add: map_concat comp_def del: children.simps)
  ultimately show ?case by blast
qed

section \<open>Rebuilding the history\<close>

definition has_place :: "('k, 'b) mem_store \<Rightarrow> hist_store \<Rightarrow> nat \<Rightarrow> nat \<Rightarrow> bool" where
  "has_place m s x y \<longleftrightarrow> snapshot_map s (sid_of m x) = Some y"

text \<open>Node \<open>y\<close> of the history being built stands for node \<open>x\<close> of the saved one.\<close>

definition rebuilt :: "('k, 'b) mem_store \<Rightarrow> ('k, 'b) loader \<Rightarrow> hist_store \<times> (nat \<Rightarrow> hnode option) \<Rightarrow> nat \<Rightarrow> nat \<Rightarrow> bool" where
  "rebuilt m l w x y \<longleftrightarrow> has_place m (fst w) x y \<and> (\<exists>n hn n'. h_nodes (ms_hist m) x = Some n \<and> hist (ms_trees m) x = Some hn
     \<and> h_nodes (fst w) y = Some n' \<and> h_snapshot_id n' = h_snapshot_id n \<and> h_status n' = h_status n \<and> h_metadata n' = h_metadata n
     \<and> (h_root n' \<longleftrightarrow> h_root n) \<and> list_all2 (has_place m (fst w)) (h_children n) (h_children n')
     \<and> (case h_parent n of None \<Rightarrow> h_parent n' = None | Some p \<Rightarrow> \<exists>q. h_parent n' = Some q \<and> has_place m (fst w) p q)
     \<and> snd w y = Some \<lparr>hn_parent = h_parent n', hn_root = (if hn_root hn = 0 then 0 else node_addr m l (hn_root hn)), hn_root_id = hn_root_id hn,
                       hn_status = h_status n\<rparr>)"

text \<open>The step from \<open>w\<close> to \<open>w'\<close> builds the nodes of \<open>X\<close>, of which \<open>ys\<close> become children of \<open>par\<close>.\<close>

definition built :: "('k, 'b) mem_store \<Rightarrow> ('k, 'b) loader \<Rightarrow> nat option \<Rightarrow> nat list \<Rightarrow> nat set
    \<Rightarrow> hist_store \<times> (nat \<Rightarrow> hnode option) \<Rightarrow> hist_store \<times> (nat \<Rightarrow> hnode option) \<Rightarrow> bool" where
  "built m l par ys X w w' \<longleftrightarrow> h_next (fst w) \<le> h_next (fst w') \<and> named_branches (fst w') = named_branches (fst w)
     \<and> (\<forall>i < h_next (fst w). snd w' i = snd w i \<and> (par \<noteq> Some i \<longrightarrow> h_nodes (fst w') i = h_nodes (fst w) i))
     \<and> (\<forall>p n. par = Some p \<longrightarrow> h_nodes (fst w) p = Some n \<longrightarrow> h_nodes (fst w') p = Some (n\<lparr>h_children := h_children n @ ys\<rparr>))
     \<and> (\<forall>i. i \<notin> sid_of m ` X \<longrightarrow> snapshot_map (fst w') i = snapshot_map (fst w) i)
     \<and> (\<forall>x \<in> X. \<exists>y. h_next (fst w) \<le> y \<and> y < h_next (fst w') \<and> rebuilt m l w' x y)"

lemma builtD:
  assumes "built m l par ys X w w'"
  shows "h_next (fst w) \<le> h_next (fst w')" "named_branches (fst w') = named_branches (fst w)"
    "i < h_next (fst w) \<Longrightarrow> snd w' i = snd w i" "i < h_next (fst w) \<Longrightarrow> par \<noteq> Some i \<Longrightarrow> h_nodes (fst w') i = h_nodes (fst w) i"
    "par = Some p \<Longrightarrow> h_nodes (fst w) p = Some n \<Longrightarrow> h_nodes (fst w') p = Some (n\<lparr>h_children := h_children n @ ys\<rparr>)"
    "i \<notin> sid_of m ` X \<Longrightarrow> snapshot_map (fst w') i = snapshot_map (fst w) i"
    "x \<in> X \<Longrightarrow> \<exists>y. h_next (fst w) \<le> y \<and> y < h_next (fst w') \<and> rebuilt m l w' x y"
  using assms unfolding built_def by blast+

lemma rebuilt_kept:
  assumes B: "built m l par ys Y w w'" and R: "rebuilt m l w x y" and y: "y < h_next (fst w)" "par \<noteq> Some y" and x: "h_nodes (ms_hist m) x = Some n"
    and out: "\<And>z. z = x \<or> z \<in> set (h_children n) \<or> h_parent n = Some z \<Longrightarrow> sid_of m z \<notin> sid_of m ` Y"
  shows "rebuilt m l w' x y"
proof -
  have place: "has_place m (fst w') z v = has_place m (fst w) z v" if "z = x \<or> z \<in> set (h_children n) \<or> h_parent n = Some z" for z v
    using builtD(6) [OF B out [OF that]] by (simp add: has_place_def)
  have kids: "list_all2 (has_place m (fst w')) (h_children n) cs = list_all2 (has_place m (fst w)) (h_children n) cs" for cs
    by (rule list.rel_cong) (use place in auto)
  have par: "(case h_parent n of None \<Rightarrow> v = None | Some p \<Rightarrow> \<exists>q. v = Some q \<and> has_place m (fst w') p q)
      = (case h_parent n of None \<Rightarrow> v = None | Some p \<Rightarrow> \<exists>q. v = Some q \<and> has_place m (fst w) p q)" for v
    using place by (simp split: option.split)
  show ?thesis using R unfolding rebuilt_def x place [of x, simplified] builtD(3) [OF B y(1)] builtD(4) [OF B y] option.inject
    using kids par by auto
qed

lemma built_trans:
  assumes 1: "built m l par ys X w w'" and 2: "built m l par zs Y w' w''" and par: "\<And>p. par = Some p \<Longrightarrow> p < h_next (fst w)"
    and X: "\<And>x n z. x \<in> X \<Longrightarrow> h_nodes (ms_hist m) x = Some n \<Longrightarrow> z = x \<or> z \<in> set (h_children n) \<or> h_parent n = Some z \<Longrightarrow> sid_of m z \<notin> sid_of m ` Y"
  shows "built m l par (ys @ zs) (X \<union> Y) w w''"
  unfolding built_def
proof (intro conjI allI impI ballI)
  note le = builtD(1) [OF 1] builtD(1) [OF 2]
  show "h_next (fst w) \<le> h_next (fst w'')" using le by simp
  show "named_branches (fst w'') = named_branches (fst w)" using builtD(2) [OF 1] builtD(2) [OF 2] by simp
  show "snd w'' i = snd w i" if "i < h_next (fst w)" for i using builtD(3) [OF 1 that] builtD(3) [OF 2, of i] that le by simp
  show "h_nodes (fst w'') i = h_nodes (fst w) i" if "i < h_next (fst w)" "par \<noteq> Some i" for i
    using builtD(4) [OF 1 that] builtD(4) [OF 2, of i] that le by simp
  show "h_nodes (fst w'') p = Some (n\<lparr>h_children := h_children n @ ys @ zs\<rparr>)" if "par = Some p" "h_nodes (fst w) p = Some n" for p n
    using builtD(5) [OF 2 that(1) builtD(5) [OF 1 that]] by simp
  show "snapshot_map (fst w'') i = snapshot_map (fst w) i" if "i \<notin> sid_of m ` (X \<union> Y)" for i
    using builtD(6) [OF 1, of i] builtD(6) [OF 2, of i] that by (simp add: image_Un)
  fix x assume "x \<in> X \<union> Y"
  then show "\<exists>y. h_next (fst w) \<le> y \<and> y < h_next (fst w'') \<and> rebuilt m l w'' x y"
  proof
    assume x: "x \<in> X"
    then obtain y where y: "h_next (fst w) \<le> y" "y < h_next (fst w')" "rebuilt m l w' x y" using builtD(7) [OF 1] by blast
    then obtain n where n: "h_nodes (ms_hist m) x = Some n" unfolding rebuilt_def by blast
    have "rebuilt m l w'' x y" using rebuilt_kept [OF 2 y(3,2) _ n X [OF x n]] par y(1) by force
    then show ?thesis using y(1,2) le by (intro exI [of _ y]) simp
  next
    assume "x \<in> Y"
    then obtain y where "h_next (fst w') \<le> y" "y < h_next (fst w'')" "rebuilt m l w'' x y" using builtD(7) [OF 2] by blast
    then show ?thesis using le by (intro exI [of _ y]) simp
  qed
qed

lemma sub_near:
  assumes T: "Snapshot_Laws.tree_ok s" and a: "h_nodes s a = Some n" and c: "c \<in> set (h_children n)" and x: "x \<in> sub s c" "h_nodes s x = Some k"
    and z: "z = x \<or> z \<in> set (h_children k) \<or> h_parent k = Some z"
  shows "z \<in> insert a (sub s c)"
  using z
proof (elim disjE)
  assume "z \<in> set (h_children k)"
  then have "parent_of s z x" using parent_of_child [OF T x(2)] by simp
  then show ?thesis using x(1) by (auto simp: sub_def intro: converse_rtranclp_into_rtranclp)
next
  assume "h_parent k = Some z"
  then have p: "parent_of s x z" using x(2) by (simp add: parent_of_def)
  show ?thesis
  proof (cases "x = c")
    case True
    then have "z = a" using p parent_of_child [OF T a, of c] c parent_of_fun by blast
    then show ?thesis by simp
  next
    case False
    then obtain y where "parent_of s x y" "(parent_of s)\<^sup>*\<^sup>* y c" using x(1) unfolding sub_def by (auto elim: converse_rtranclpE)
    then have "z \<in> sub s c" using parent_of_fun [OF p] by (auto simp: sub_def)
    then show ?thesis by simp
  qed
qed (use x in simp)

lemma sid_image:
  assumes "storable c ops m" "h_nodes (ms_hist m) z \<noteq> None" "Y \<subseteq> dom (h_nodes (ms_hist m))" "z \<notin> Y"
  shows "sid_of m z \<notin> sid_of m ` Y"
  using sid_inj [OF assms(1,2)] assms(3,4) by blast

lemma build_children:
  assumes S: "storable c ops m" and n: "h_nodes (ms_hist m) a = Some n"
    and one: "\<And>x w. x \<in> set (h_children n) \<Longrightarrow> has_place m (fst w) a A \<Longrightarrow> A < h_next (fst w) \<Longrightarrow> h_nodes (fst w) A \<noteq> None \<Longrightarrow>
      \<exists>w'. f w (sid_of m x) = Inr w' \<and> built m l (Some A) [h_next (fst w)] (sub (ms_hist m) x) w w' \<and> has_place m (fst w') x (h_next (fst w))"
  shows "set cs \<subseteq> set (h_children n) \<Longrightarrow> distinct cs \<Longrightarrow> has_place m (fst w) a A \<Longrightarrow> A < h_next (fst w) \<Longrightarrow> h_nodes (fst w) A \<noteq> None \<Longrightarrow>
    \<exists>w' ys. foldR f w (map (sid_of m) cs) = Inr w' \<and> built m l (Some A) ys (\<Union>x \<in> set cs. sub (ms_hist m) x) w w'
      \<and> list_all2 (has_place m (fst w')) cs ys"
proof (induction cs arbitrary: w)
  case Nil
  have "built m l (Some A) [] {} w w" by (simp add: built_def)
  then show ?case by (intro exI [of _ w] exI [of _ "[]"]) simp
next
  case (Cons x cs)
  note T = storable_histD(2) [OF S]
  let ?Y = "\<Union>x \<in> set cs. sub (ms_hist m) x"
  have x: "x \<in> set (h_children n)" and cs: "set cs \<subseteq> set (h_children n)" "distinct cs" "x \<notin> set cs" using Cons.prems by auto
  obtain w1 where w1: "f w (sid_of m x) = Inr w1" "built m l (Some A) [h_next (fst w)] (sub (ms_hist m) x) w w1" "has_place m (fst w1) x (h_next (fst w))"
    using one [OF x Cons.prems(3-5)] by blast
  have live: "h_nodes (ms_hist m) y \<noteq> None" if "y \<in> set (h_children n)" for y using Snapshot_Laws.tree_okD(3) [OF T n] that by blast
  have Y: "?Y \<subseteq> dom (h_nodes (ms_hist m))" using sub_live [of _ "ms_hist m"] live cs(1) by blast
  have out: "sid_of m z \<notin> sid_of m ` ?Y" if z: "z \<in> insert a (sub (ms_hist m) x)" for z
  proof (rule sid_image [OF S _ Y])
    show "h_nodes (ms_hist m) z \<noteq> None" using z n sub_live [of z "ms_hist m" x] live [OF x] by auto
    show "z \<notin> ?Y" using z sub_child(1) [OF T n] sub_child(2) [OF T n x] cs(1,3) by blast
  qed
  have a1: "has_place m (fst w1) a A"
  proof -
    have "sid_of m a \<notin> sid_of m ` sub (ms_hist m) x"
    proof (rule sid_image [OF S])
      show "h_nodes (ms_hist m) a \<noteq> None" using n by simp
      show "sub (ms_hist m) x \<subseteq> dom (h_nodes (ms_hist m))" using sub_live [of _ "ms_hist m" x] live [OF x] by blast
      show "a \<notin> sub (ms_hist m) x" by (rule sub_child(1) [OF T n x])
    qed
    then show ?thesis using builtD(6) [OF w1(2)] Cons.prems(3) by (simp add: has_place_def)
  qed
  have A1: "A < h_next (fst w1)" using builtD(1) [OF w1(2)] Cons.prems(4) by simp
  have A2: "h_nodes (fst w1) A \<noteq> None" using builtD(5) [OF w1(2) refl] Cons.prems(5) by blast
  obtain w2 ys where w2: "foldR f w1 (map (sid_of m) cs) = Inr w2" "built m l (Some A) ys ?Y w1 w2" "list_all2 (has_place m (fst w2)) cs ys"
    using Cons.IH [OF cs(1,2) a1 A1 A2] by blast
  have "built m l (Some A) ([h_next (fst w)] @ ys) (sub (ms_hist m) x \<union> ?Y) w w2"
  proof (rule built_trans [OF w1(2) w2(2)])
    show "p < h_next (fst w)" if "Some A = Some p" for p using that Cons.prems(4) by simp
    show "sid_of m z \<notin> sid_of m ` ?Y" if "y \<in> sub (ms_hist m) x" "h_nodes (ms_hist m) y = Some k" "z = y \<or> z \<in> set (h_children k) \<or> h_parent k = Some z"
      for y k z by (rule out [OF sub_near [OF T n x that]])
  qed
  moreover have "has_place m (fst w2) x (h_next (fst w))" using builtD(6) [OF w2(2) out [of x]] w1(3) by (simp add: has_place_def)
  ultimately show ?case using w1(1) w2(1,3) by (intro exI [of _ w2] exI [of _ "h_next (fst w) # ys"]) simp
qed

lemma add_child_fields [simp]:
  "h_next (add_child s par a) = h_next s" "snapshot_map (add_child s par a) = snapshot_map s" "named_branches (add_child s par a) = named_branches s"
  "par \<noteq> Some i \<Longrightarrow> h_nodes (add_child s par a) i = h_nodes s i"
  "h_nodes s p = Some n \<Longrightarrow> h_nodes (add_child s (Some p) a) p = Some (n\<lparr>h_children := h_children n @ [a]\<rparr>)"
  by (auto simp: add_child_def set_node_def split: option.split)

text \<open>The new node of \<open>build_history_tree\<close>, before its children are built.\<close>

definition with_new_node ::
  "('k, 'b) mem_store \<Rightarrow> ('k, 'b) loader \<Rightarrow> nat option \<Rightarrow> nat \<Rightarrow> hist_store \<times> (nat \<Rightarrow> hnode option) \<Rightarrow> hist_store \<times> (nat \<Rightarrow> hnode option)" where
  "with_new_node m l par a w =
     (let s = fst w; b = hbuf m a; A = h_next s; hn = the (hist (ms_trees m) a) in
      ((set_node (add_child (s\<lparr>h_next := A + 1\<rparr>) par A) A (restored_node b par (hb_root b \<noteq> 0)))\<lparr>snapshot_map := (snapshot_map s)(sid_of m a \<mapsto> A)\<rparr>,
       (snd w)(A \<mapsto> \<lparr>hn_parent = par, hn_root = (if hn_root hn = 0 then 0 else node_addr m l (hn_root hn)), hn_root_id = hb_root_id b, hn_status = hb_status b\<rparr>)))"

lemma with_new_node_fields [simp]:
  fixes m l par a w
  defines "v \<equiv> with_new_node m l par a w" and "A \<equiv> h_next (fst w)"
  shows "h_next (fst v) = A + 1" "named_branches (fst v) = named_branches (fst w)" "snapshot_map (fst v) = (snapshot_map (fst w))(sid_of m a \<mapsto> A)"
    "h_nodes (fst v) A = Some (restored_node (hbuf m a) par (hb_root (hbuf m a) \<noteq> 0))"
    "i < A \<Longrightarrow> par \<noteq> Some i \<Longrightarrow> h_nodes (fst v) i = h_nodes (fst w) i"
    "par = Some p \<Longrightarrow> p < A \<Longrightarrow> h_nodes (fst w) p = Some k \<Longrightarrow> h_nodes (fst v) p = Some (k\<lparr>h_children := h_children k @ [A]\<rparr>)"
    "i < A \<Longrightarrow> snd v i = snd w i"
    "snd v A = Some \<lparr>hn_parent = par, hn_root = (let hn = the (hist (ms_trees m) a) in if hn_root hn = 0 then 0 else node_addr m l (hn_root hn)),
       hn_root_id = hb_root_id (hbuf m a), hn_status = hb_status (hbuf m a)\<rparr>"
  unfolding v_def A_def with_new_node_def Let_def by (simp_all add: set_node_def)

lemma build_step:
  assumes S: "storable c ops m" and I: "image_loaded c ops m W l" and n: "h_nodes (ms_hist m) a = Some n"
  shows "build_history_tree (Suc d) l par w (sid_of m a) =
      foldR (build_history_tree d l (Some (h_next (fst w)))) (with_new_node m l par a w) (map (sid_of m) (h_children n))"
    and "hb_root (hbuf m a) = 0 \<longleftrightarrow> \<not> h_root n"
proof -
  obtain hn where hn: "hist (ms_trees m) a = Some hn" "h_root n \<longleftrightarrow> hn_root hn \<noteq> 0"
    "hn_root hn \<noteq> 0 \<longrightarrow> height (nodes (ms_trees m)) 8 (hn_root hn)" using storable_histD(4) [OF S n] by blast
  have b: "l_hist l (sid_of m a) = Some (hbuf m a)" using I n unfolding image_loaded_def hist_loaded_def by blast
  have r: "hn_root hn \<noteq> 0 \<Longrightarrow> \<exists>t z. nodes (ms_trees m) (hn_root hn) = Some t \<and> l_nodes l (tid t) = Some z \<and> tid t \<noteq> 0"
  proof -
    assume nz: "hn_root hn \<noteq> 0"
    then have "Inl (hn_root hn) \<in> W" using I hn(1) n unfolding image_loaded_def roots_stored_def by blast
    then obtain t z where "nodes (ms_trees m) (hn_root hn) = Some t" "l_nodes l (tid t) = Some z" using I unfolding image_loaded_def nodes_loaded_def by blast
    then show ?thesis using storableD(3) [OF storable_histD(1) [OF S]] by blast
  qed
  have root: "hb_root (hbuf m a) = (if hn_root hn = 0 then 0 else tid (the (nodes (ms_trees m) (hn_root hn))))"
    and kids: "hb_children (hbuf m a) = map (sid_of m) (h_children n)" using n hn(1) by (simp_all add: hbuf_def Let_def)
  show "hb_root (hbuf m a) = 0 \<longleftrightarrow> \<not> h_root n" using root r hn(2) by auto
  have "(if hb_root (hbuf m a) = 0 then Inr 0 else case l_nodes l (hb_root (hbuf m a)) of None \<Rightarrow> Inl (Terminates ''root not found'') | Some (_, r) \<Rightarrow> Inr r)
      = Inr (if hn_root hn = 0 then 0 else node_addr m l (hn_root hn))"
    using root r by (auto simp: node_addr_def)
  then show "build_history_tree (Suc d) l par w (sid_of m a) =
      foldR (build_history_tree d l (Some (h_next (fst w)))) (with_new_node m l par a w) (map (sid_of m) (h_children n))"
    using b hn(1) kids by (cases w) (simp add: with_new_node_def Let_def set_node_def)
qed

lemma build_ok:
  assumes S: "storable c ops m" and I: "image_loaded c ops m W l"
  shows "card (sub (ms_hist m) a) \<le> d \<Longrightarrow> h_nodes (ms_hist m) a = Some n \<Longrightarrow>
    (case h_parent n of None \<Rightarrow> par = None | Some p \<Rightarrow> \<exists>q. par = Some q \<and> has_place m (fst w) p q \<and> q < h_next (fst w) \<and> h_nodes (fst w) q \<noteq> None) \<Longrightarrow>
    \<exists>w'. build_history_tree d l par w (sid_of m a) = Inr w' \<and> built m l par [h_next (fst w)] (sub (ms_hist m) a) w w' \<and> has_place m (fst w') a (h_next (fst w))"
proof (induction d arbitrary: a n par w)
  case 0
  have "finite (sub (ms_hist m) a)" using sub_finite(1) [OF storable_histD(2) [OF S]] 0(2) by simp
  then show ?case using 0(1) sub_self [of a "ms_hist m"] by auto
next
  case (Suc d)
  note T = storable_histD(2) [OF S] and n = Suc.prems(2)
  obtain hn where hn: "hist (ms_trees m) a = Some hn" using storable_histD(4) [OF S n] by blast
  let ?h = "ms_hist m" and ?A = "h_next (fst w)" and ?v = "with_new_node m l par a w"
  let ?Y = "\<Union>x \<in> set (h_children n). sub ?h x"
  have one: "\<exists>w'. build_history_tree d l (Some ?A) u (sid_of m x) = Inr w' \<and> built m l (Some ?A) [h_next (fst u)] (sub ?h x) u w' \<and> has_place m (fst w') x (h_next (fst u))"
    if x: "x \<in> set (h_children n)" and u: "has_place m (fst u) a ?A" "?A < h_next (fst u)" "h_nodes (fst u) ?A \<noteq> None" for x u
  proof -
    obtain k where k: "h_nodes ?h x = Some k" "h_parent k = Some a" using Snapshot_Laws.tree_okD(3) [OF T n x] by blast
    show ?thesis by (rule Suc.IH [OF _ k(1)]) (use sub_smaller [OF T n x] Suc.prems(1) k(2) u in auto)
  qed
  have live: "?Y \<subseteq> dom (h_nodes ?h)" using sub_live [of _ ?h] Snapshot_Laws.tree_okD(3) [OF T n] by blast
  obtain w' ys where w': "foldR (build_history_tree d l (Some ?A)) ?v (map (sid_of m) (h_children n)) = Inr w'" "built m l (Some ?A) ys ?Y ?v w'"
      "list_all2 (has_place m (fst w')) (h_children n) ys"
    using build_children [OF S n one, of "h_children n" ?v] Snapshot_Laws.tree_okD(2) [OF T n] by (auto simp: has_place_def)
  have aY: "sid_of m a \<notin> sid_of m ` ?Y" by (rule sid_image [OF S _ live]) (use n sub_child(1) [OF T n] in auto)
  then have place: "has_place m (fst w') a ?A" using builtD(6) [OF w'(2)] by (simp add: has_place_def)
  have A': "h_nodes (fst w') ?A = Some ((restored_node (hbuf m a) par (hb_root (hbuf m a) \<noteq> 0))\<lparr>h_children := ys\<rparr>)"
    using builtD(5) [OF w'(2) refl] by (simp add: restored_node_def)
  have par: "case h_parent n of None \<Rightarrow> par = None | Some p \<Rightarrow> \<exists>q. par = Some q \<and> has_place m (fst w') p q"
  proof (cases "h_parent n")
    case (Some p)
    then obtain k where p: "p < a" "h_nodes ?h p = Some k" using Snapshot_Laws.tree_okD(5) [OF T n] by blast
    have "p \<notin> sub ?h a" using sub_le [OF T, of p a] p(1) by auto
    then have "sid_of m p \<notin> sid_of m ` sub ?h a" by (intro sid_image [OF S]) (use p(2) n sub_live [of _ ?h a] in auto)
    then have "snapshot_map (fst w') (sid_of m p) = snapshot_map (fst w) (sid_of m p)" using builtD(6) [OF w'(2), of "sid_of m p"] sub_node [OF T n] by auto
    then show ?thesis using Suc.prems(3) Some by (auto simp: has_place_def)
  qed (use Suc.prems(3) in simp)
  have "(hb_root (hbuf m a) \<noteq> 0) = h_root n" using build_step(2) [OF S I n] by simp
  then obtain n' where n': "h_nodes (fst w') ?A = Some n'" "h_snapshot_id n' = h_snapshot_id n" "h_status n' = h_status n" "h_metadata n' = h_metadata n"
      "h_root n' = h_root n" "h_children n' = ys" "h_parent n' = par"
    using A' n by (simp add: restored_node_def hbuf_def Let_def)
  have hs: "snd w' ?A = Some \<lparr>hn_parent = par, hn_root = (if hn_root hn = 0 then 0 else node_addr m l (hn_root hn)), hn_root_id = hn_root_id hn, hn_status = h_status n\<rparr>"
    using builtD(3) [OF w'(2), of ?A] n hn by (simp add: hbuf_def Let_def)
  have R: "rebuilt m l w' a ?A" unfolding rebuilt_def
    by (rule conjI [OF place], rule exI [of _ n], rule exI [of _ hn], rule exI [of _ n']) (use n hn n'(1-6) w'(3) par [folded n'(7)] hs [folded n'(7)] in simp)
  have old: "par = Some p \<Longrightarrow> p < ?A" for p using Suc.prems(3) by (auto split: option.splits)
  have "built m l par [?A] (sub ?h a) w w'"
    unfolding built_def
  proof (intro conjI allI impI ballI)
    note B = builtD [OF w'(2)]
    show "?A \<le> h_next (fst w')" using B(1) by simp
    show "named_branches (fst w') = named_branches (fst w)" using B(2) by simp
    show "snd w' i = snd w i" if "i < ?A" for i using B(3) [of i] that by simp
    show "h_nodes (fst w') i = h_nodes (fst w) i" if "i < ?A" "par \<noteq> Some i" for i using B(4) [of i] that by simp
    show "h_nodes (fst w') p = Some (k\<lparr>h_children := h_children k @ [?A]\<rparr>)" if "par = Some p" "h_nodes (fst w) p = Some k" for p k
      using B(4) [of p] old [OF that(1)] that by simp
    show "snapshot_map (fst w') i = snapshot_map (fst w) i" if "i \<notin> sid_of m ` sub ?h a" for i
      using B(6) [of i] that sub_node [OF T n] by auto
    show "\<exists>y. ?A \<le> y \<and> y < h_next (fst w') \<and> rebuilt m l w' x y" if x: "x \<in> sub ?h a" for x
    proof (cases "x = a")
      case True then show ?thesis using R B(1) by auto
    next
      case False
      then have "x \<in> ?Y" using x sub_node [OF T n] by auto
      then show ?thesis using B(7) [of x] by (auto dest: Suc_leD)
    qed
  qed
  then show ?case using place w'(1) build_step(1) [OF S I n] by auto
qed

section \<open>What a loaded store answers\<close>

text \<open>The history \<open>s\<close> stands for that of \<open>m\<close>, with the identifiers of its nodes and no other.\<close>

definition mirrors :: "('k, 'b) mem_store \<Rightarrow> ('k, 'b) loader \<Rightarrow> hist_store \<times> (nat \<Rightarrow> hnode option) \<Rightarrow> bool" where
  "mirrors m l w \<longleftrightarrow> (\<forall>x \<in> dom (h_nodes (ms_hist m)). \<exists>y < h_next (fst w). rebuilt m l w x y)
     \<and> dom (snapshot_map (fst w)) = sid_of m ` dom (h_nodes (ms_hist m))"

lemma build_mirrors:
  assumes S: "storable c ops m" and I: "image_loaded c ops m W l" and d: "card (dom (h_nodes (ms_hist m))) \<le> d"
  shows "\<exists>s hs. build_history_tree d l None (empty_history, \<lambda>_. None) (sid_of m (history_tree (ms_hist m))) = Inr (s, hs)
    \<and> mirrors m l (s, hs) \<and> named_branches s = [] \<and> has_place m s (history_tree (ms_hist m)) 0"
proof -
  note T = storable_histD(2) [OF S]
  let ?w = "(empty_history, \<lambda>_ :: nat. None :: hnode option)"
  obtain r where r: "h_nodes (ms_hist m) (history_tree (ms_hist m)) = Some r" "h_parent r = None" using tree_ok_root [OF T] by blast
  obtain w where w: "build_history_tree d l None ?w (sid_of m (history_tree (ms_hist m))) = Inr w"
      "built m l None [h_next (fst ?w)] (sub (ms_hist m) (history_tree (ms_hist m))) ?w w" "has_place m (fst w) (history_tree (ms_hist m)) (h_next (fst ?w))"
    using build_ok [OF S I _ r(1), of d None ?w] d sub_root [OF T] r(2) by auto
  note B = w(2) [unfolded sub_root [OF T]]
  have in_dom: "sid_of m ` dom (h_nodes (ms_hist m)) \<subseteq> dom (snapshot_map (fst w))"
    using builtD(7) [OF B] unfolding rebuilt_def has_place_def by blast
  have "dom (snapshot_map (fst w)) \<subseteq> sid_of m ` dom (h_nodes (ms_hist m))"
    using builtD(6) [OF B] by (fastforce simp: empty_history_def)
  moreover have "\<exists>y < h_next (fst w). rebuilt m l w x y" if "x \<in> dom (h_nodes (ms_hist m))" for x using builtD(7) [OF B that] by blast
  ultimately have "mirrors m l w" using in_dom unfolding mirrors_def by blast
  moreover have "named_branches (fst w) = []" using builtD(2) [OF B] by (simp add: empty_history_def)
  ultimately show ?thesis using w(1,3) by (intro exI [of _ "fst w"] exI [of _ "snd w"]) (simp add: empty_history_def)
qed

lemma mirrorsD:
  assumes "mirrors m l (s, hs)" "h_nodes (ms_hist m) x = Some n"
  obtains y n' hn where "has_place m s x y" "h_nodes s y = Some n'" "h_snapshot_id n' = h_snapshot_id n" "h_status n' = h_status n"
    "h_metadata n' = h_metadata n" "h_root n' = h_root n" "list_all2 (has_place m s) (h_children n) (h_children n')"
    "case h_parent n of None \<Rightarrow> h_parent n' = None | Some p \<Rightarrow> \<exists>q. h_parent n' = Some q \<and> has_place m s p q"
    "hist (ms_trees m) x = Some hn"
    "hs y = Some \<lparr>hn_parent = h_parent n', hn_root = (if hn_root hn = 0 then 0 else node_addr m l (hn_root hn)), hn_root_id = hn_root_id hn, hn_status = h_status n\<rparr>"
    "y < h_next s"
proof -
  obtain y where y: "y < h_next s" "rebuilt m l (s, hs) x y" using assms unfolding mirrors_def by (metis domI fst_conv)
  from y(2) [unfolded rebuilt_def fst_conv snd_conv assms(2) option.inject] show ?thesis
    by (elim conjE exE) (rule that [OF _ _ _ _ _ _ _ _ _ _ y(1)], simp_all only:)
qed

lemma mirrors_id:
  assumes "mirrors m l (s, hs)" "h_nodes (ms_hist m) x \<noteq> None" "has_place m s x y"
  shows "\<exists>n'. h_nodes s y = Some n' \<and> h_snapshot_id n' = sid_of m x"
proof -
  obtain n where n: "h_nodes (ms_hist m) x = Some n" using assms(2) by blast
  show ?thesis by (rule mirrorsD [OF assms(1) n]) (use assms(3) n in \<open>auto simp: has_place_def sid_of_def\<close>)
qed

lemma ids_of_children:
  assumes "list_all2 P xs ys" "\<And>x y. x \<in> set xs \<Longrightarrow> P x y \<Longrightarrow> \<exists>n'. h_nodes s y = Some n' \<and> h_snapshot_id n' = f x"
  shows "foldR (\<lambda>ids c. bindR (deref s c) (\<lambda>cn. Inr (ids @ [h_snapshot_id cn]))) ids ys = Inr (ids @ map f xs)"
  using assms
proof (induction xs ys arbitrary: ids rule: list_all2_induct)
  case (Cons x xs y ys)
  obtain n' where "h_nodes s y = Some n'" "h_snapshot_id n' = f x" using Cons.prems [of x y] Cons.hyps by auto
  then show ?case using Cons.IH [of "ids @ [f x]"] Cons.prems by (simp add: deref_def)
qed simp

text \<open>The queries of the store by identifier, on the saved and on the loaded history.\<close>

definition same_answers :: "hist_store \<Rightarrow> hist_store \<Rightarrow> nat \<Rightarrow> bool" where
  "same_answers s t i \<longleftrightarrow> snapshot_status t i = snapshot_status s i \<and> snapshot_description t i = snapshot_description s i
     \<and> snapshot_parent t i = snapshot_parent s i \<and> children_of t i = children_of s i"

lemma mirrors_answers:
  assumes S: "storable c ops m" and M: "mirrors m l (s, hs)" and n: "h_nodes (ms_hist m) x = Some n"
  shows "same_answers (ms_hist m) s (h_snapshot_id n)"
proof -
  note T = storable_histD(2) [OF S]
  have sid: "sid_of m x = h_snapshot_id n" using n by (simp add: sid_of_def)
  have at: "snapshot_map (ms_hist m) (h_snapshot_id n) = Some x" by (rule storable_histD(3) [OF S n])
  obtain y n' where y: "snapshot_map s (h_snapshot_id n) = Some y" "h_nodes s y = Some n'" "h_status n' = h_status n" "h_metadata n' = h_metadata n"
      "list_all2 (has_place m s) (h_children n) (h_children n')"
      "case h_parent n of None \<Rightarrow> h_parent n' = None | Some p \<Rightarrow> \<exists>q. h_parent n' = Some q \<and> has_place m s p q"
    by (rule mirrorsD [OF M n]) (use sid in \<open>simp add: has_place_def\<close>)
  have kid: "\<exists>k. h_nodes (ms_hist m) a = Some k \<and> h_snapshot_id k = sid_of m a" if "a \<in> set (h_children n)" for a
    using Snapshot_Laws.tree_okD(3) [OF T n that] by (auto simp: sid_of_def)
  have "children_of s (h_snapshot_id n) = Inr (map (sid_of m) (h_children n))"
    using y(1,2) ids_of_children [OF y(5), of s "sid_of m" "[]"] mirrors_id [OF M] kid by (fastforce simp: children_of_def deref_def)
  moreover have "children_of (ms_hist m) (h_snapshot_id n) = Inr (map (sid_of m) (h_children n))"
    using at n ids_of_children [of "(=)" "h_children n" "h_children n" "ms_hist m" "sid_of m" "[]"] kid by (simp add: children_of_def deref_def list.rel_eq)
  moreover have "snapshot_parent s (h_snapshot_id n) = snapshot_parent (ms_hist m) (h_snapshot_id n)"
  proof (cases "h_parent n")
    case None then show ?thesis using y(1,2,6) at n by (simp add: snapshot_parent_def find_node_def deref_def)
  next
    case (Some p)
    obtain k where k: "h_nodes (ms_hist m) p = Some k" using Snapshot_Laws.tree_okD(5) [OF T n Some] by blast
    obtain q where q: "h_parent n' = Some q" "has_place m s p q" using y(6) Some by auto
    obtain k' where "h_nodes s q = Some k'" "h_snapshot_id k' = h_snapshot_id k" using mirrors_id [OF M _ q(2)] k by (auto simp: sid_of_def)
    then show ?thesis using y(1,2) at n k q(1) Some by (simp add: snapshot_parent_def find_node_def deref_def)
  qed
  ultimately show ?thesis using y at n
    by (simp add: same_answers_def snapshot_status_def snapshot_description_def find_node_def deref_def)
qed

lemma mirrors_cong:
  assumes "mirrors m l (s, hs)" "h_nodes t = h_nodes s" "h_next t = h_next s" "snapshot_map t = snapshot_map s"
  shows "mirrors m l (t, hs)"
proof -
  have place: "has_place m t = has_place m s" using assms(4) by (intro ext) (simp add: has_place_def)
  have "rebuilt m l (t, hs) x y = rebuilt m l (s, hs) x y" for x y unfolding rebuilt_def fst_conv snd_conv assms(2) place by (rule refl)
  then show ?thesis using assms unfolding mirrors_def by simp
qed

lemma branches_restored:
  assumes "\<And>name i. (name, i) \<in> set bs \<Longrightarrow> snapshot_map h i = Some (f i)" "distinct (map fst (named_branches h @ bs))"
  shows "foldR (\<lambda>h (name, sid). bindR (find_loaded h msg sid) (\<lambda>a. Inr (h\<lparr>named_branches := AList.update name a (named_branches h)\<rparr>))) h bs
    = Inr (h\<lparr>named_branches := named_branches h @ map (\<lambda>(name, i). (name, f i)) bs\<rparr>)"
  using assms
proof (induction bs arbitrary: h)
  case (Cons b bs)
  obtain name i where b: "b = (name, i)" by (cases b)
  let ?h = "h\<lparr>named_branches := named_branches h @ [(name, f i)]\<rparr>"
  have "snapshot_map h i = Some (f i)" using Cons.prems(1) [of name i] b by simp
  moreover have "AList.update name (f i) (named_branches h) = named_branches h @ [(name, f i)]"
    using Cons.prems(2) b by (intro alist_update_new) auto
  moreover have "foldR (\<lambda>h (name, sid). bindR (find_loaded h msg sid) (\<lambda>a. Inr (h\<lparr>named_branches := AList.update name a (named_branches h)\<rparr>))) ?h bs
      = Inr (?h\<lparr>named_branches := named_branches ?h @ map (\<lambda>(name, i). (name, f i)) bs\<rparr>)"
    by (rule Cons.IH) (use Cons.prems b in auto)
  ultimately show ?case using b by (simp add: find_loaded_def)
qed simp

lemma tree_blocks:
  assumes C: "closed_since m {} W" and a: "Inl a \<in> W" "PTree_Spec.tree_ok c (nodes (ms_trees m)) d a lo hi"
    and kv: "(k, v) \<in> set (tree_entries (nodes (ms_trees m)) d a)"
  shows "Inr (block_ptr v) \<in> W"
  using a kv
proof (induction d arbitrary: a lo hi)
  case 0
  from 0(2) obtain n where n: "nodes (ms_trees m) a = Some (Leaf n)" by (rule tree_ok_LeafD)
  have "v \<in> set (take (node_size n) (node_data n))" using 0(3) n by (auto simp: entries_def dest: set_zip_rightD)
  then have "block_ptr v \<in> set (leaf_blocks (Leaf n))" by simp
  then show ?case using C 0(1) n unfolding closed_since_def by blast
next
  case (Suc d)
  from Suc.prems(2) obtain n where n: "nodes (ms_trees m) a = Some (Branch n)" "node_ok c n"
    and sub: "\<And>i. i < node_size n \<Longrightarrow> PTree_Spec.tree_ok c (nodes (ms_trees m)) d (node_data n ! i) (child_lo lo n i) (child_hi hi n i)"
    by (auto split: option.splits tnode.splits)
  obtain x where x: "x \<in> set (children (Branch n))" "(k, v) \<in> set (tree_entries (nodes (ms_trees m)) d x)" using Suc.prems(3) n(1) by auto
  then obtain i where i: "i < node_size n" "x = node_data n ! i" by (auto simp: in_set_conv_nth)
  have "Inl x \<in> W" using C Suc.prems(1) n(1) x(1) unfolding closed_since_def by blast
  then show ?case using Suc.IH [OF _ _ x(2)] sub [OF i(1)] i(2) by blast
qed

text \<open>The block that a snapshot has for a key, and the snapshot that wrote it.\<close>

definition find_block :: "node_cfg \<Rightarrow> ('k :: linorder, 'b) mem_store \<Rightarrow> nat \<Rightarrow> 'k \<Rightarrow> ('b \<times> nat) option option" where
  "find_block c m i key = (case snapshot_map (ms_hist m) i of None \<Rightarrow> None
     | Some a \<Rightarrow> map_option (map_option (\<lambda>v. (ms_block m (block_ptr v), value_snapshot v))) (ptree_find c (ms_trees m) a key))"

lemma loaded_find:
  fixes m :: "('k :: {linorder, zero}, 'b) mem_store"
  assumes S: "storable c ops m" and I: "image_loaded c ops m W l" and M: "mirrors m l (ms_hist m', hist (ms_trees m'))"
    and L: "\<And>a t. Inl a \<in> W \<Longrightarrow> nodes (ms_trees m) a = Some t \<Longrightarrow> nodes (ms_trees m') (node_addr m l a) = Some (linked_node c ops m l t)"
    and b: "ms_block m' = l_block l" and n: "h_nodes (ms_hist m) x = Some n" and t: "has_tree c (ms_trees m) x"
  shows "find_block c m' (h_snapshot_id n) key = find_block c m (h_snapshot_id n) key"
proof -
  note C = I [unfolded image_loaded_def]
  obtain d where d: "snapshot_tree c (ms_trees m) x d" using t by (auto simp: has_tree_def)
  obtain y and n' :: hist_node and hn where y: "has_place m (ms_hist m') x y" "hist (ms_trees m) x = Some hn"
      "hist (ms_trees m') y = Some \<lparr>hn_parent = h_parent n', hn_root = (if hn_root hn = 0 then 0 else node_addr m l (hn_root hn)), hn_root_id = hn_root_id hn, hn_status = h_status n\<rparr>"
    by (rule mirrorsD [OF M n]) blast
  let ?r = "hn_root hn" and ?E = "tree_entries (nodes (ms_trees m)) d (hn_root hn)"
  have ok: "PTree_Spec.tree_ok c (nodes (ms_trees m)) d ?r None None" "d < 8" using d y(2) by (simp_all add: snapshot_tree_def root_of_def)
  have nz: "?r \<noteq> 0" using tree_ok_live [OF ok(1)] store_okD(4) [OF storableD(1) [OF storable_histD(1) [OF S]]] by (cases "?r = 0") auto
  then have W: "Inl ?r \<in> W" using C y(2) n unfolding roots_stored_def by blast
  have lt: "PTree_Spec.tree_ok c (nodes (ms_trees m')) d (node_addr m l ?r) None None
      \<and> tree_entries (nodes (ms_trees m')) d (node_addr m l ?r) = map (\<lambda>(k, v). (k, moved_value ops m l v)) ?E"
    by (rule linked_tree [where W = W]) (use C L W ok(1) storableD(6) [OF storable_histD(1) [OF S]] in simp_all)
  have root: "root_of (ms_trees m') y = node_addr m l ?r" using y(3) nz by (simp add: root_of_def)
  then have t': "snapshot_tree c (ms_trees m') y d" using lt y(3) ok(2) by (simp add: snapshot_tree_def)
  have moved: "ms_block m' (block_ptr (moved_value ops m l v)) = ms_block m (block_ptr v)" if "map_of ?E key = Some v" for v
  proof -
    have "Inr (block_ptr v) \<in> W" using tree_blocks [OF _ W ok(1) map_of_SomeD [OF that]] C by blast
    then obtain z where "l_blocks l (block_id ops m (block_ptr v)) = Some z" "l_block l z = ms_block m (block_ptr v)" using C unfolding blocks_loaded_def by blast
    then show ?thesis using b by (simp add: moved_value_def)
  qed
  have 1: "ptree_find c (ms_trees m) x key = Some (map_of ?E key)"
    using ptree_find_contents [OF d] y(2) by (simp add: PTree_Writers.contents_def root_of_def)
  have 2: "ptree_find c (ms_trees m') y key = Some (map_option (moved_value ops m l) (map_of ?E key))"
    using ptree_find_contents [OF t'] lt root by (simp add: PTree_Writers.contents_def map_of_map)
  have at: "snapshot_map (ms_hist m) (h_snapshot_id n) = Some x" by (rule storable_histD(3) [OF S n])
  have at': "snapshot_map (ms_hist m') (h_snapshot_id n) = Some y" using y(1) n by (simp add: has_place_def sid_of_def)
  show ?thesis unfolding find_block_def at at' option.case 1 2 using moved by (cases "map_of ?E key") (simp_all add: moved_value_def)
qed

section \<open>Loading an image\<close>

definition master_id :: "hist_store \<Rightarrow> nat option" where
  "master_id s = map_option h_snapshot_id (h_nodes s (master_node s))"

definition loaded :: "node_cfg \<Rightarrow> 'b block_ops \<Rightarrow> ('k :: {linorder, zero}, 'b) mem_store \<Rightarrow> ('k, 'b) loader \<Rightarrow> (nat + nat) set \<Rightarrow> ('k, 'b) mem_store \<Rightarrow> bool" where
  "loaded c ops m l W m' \<longleftrightarrow> mirrors m l (ms_hist m', hist (ms_trees m')) \<and> ms_block m' = l_block l
     \<and> (\<forall>a t. Inl a \<in> W \<longrightarrow> nodes (ms_trees m) a = Some t \<longrightarrow> nodes (ms_trees m') (node_addr m l a) = Some (linked_node c ops m l t))
     \<and> has_place m (ms_hist m') (history_tree (ms_hist m)) (history_tree (ms_hist m'))
     \<and> has_place m (ms_hist m') (master_node (ms_hist m)) (master_node (ms_hist m'))
     \<and> named_branches (ms_hist m') = map (\<lambda>(name, a). (name, the (snapshot_map (ms_hist m') (sid_of m a)))) (named_branches (ms_hist m))"

lemma mirrors_place:
  assumes "mirrors m l (s, hs)" "h_nodes (ms_hist m) x \<noteq> None"
  shows "\<exists>y. snapshot_map s (sid_of m x) = Some y"
proof -
  have "sid_of m x \<in> dom (snapshot_map s)" using assms unfolding mirrors_def by auto
  then show ?thesis by blast
qed

lemma link_all_ok:
  assumes S: "storable c ops m" and I: "image_loaded c ops m W l" and d: "card (dom (h_nodes (ms_hist m))) \<le> d"
  shows "\<exists>m'. link_all c l d = Inr m' \<and> loaded c ops m l W m'"
proof -
  note C = I [unfolded image_loaded_def]
  let ?s0 = "\<lparr>nodes = (\<lambda>_. None), refs = (\<lambda>_. 0), next_node = l_next_node l, next_id = 0, blocks = l_counts l, hist = (\<lambda>_. None)\<rparr>"
  obtain s where s: "link_nodes c l ?s0 = Inr s"
      "\<forall>a t. Inl a \<in> W \<longrightarrow> nodes (ms_trees m) a = Some t \<longrightarrow> nodes s (node_addr m l a) = Some (linked_node c ops m l t)"
    using link_nodes_ok [OF storable_histD(1) [OF S], of W l ?s0] C by blast
  obtain h hs where h: "build_history_tree d l None (empty_history, \<lambda>_. None) (sid_of m (history_tree (ms_hist m))) = Inr (h, hs)"
      "mirrors m l (h, hs)" "named_branches h = []" "has_place m h (history_tree (ms_hist m)) 0"
    using build_mirrors [OF S I d] by blast
  have place: "\<exists>y. snapshot_map h (sid_of m a) = Some y" if "a \<in> heads (ms_hist m)" for a
    by (rule mirrors_place [OF h(2) storable_histD(5) [OF S that]])
  let ?master = "the (snapshot_map h (sid_of m (master_node (ms_hist m))))"
  let ?h = "h\<lparr>history_tree := h_next empty_history, master_node := ?master\<rparr>"
  let ?bs = "am_branches (image_metadata m)"
  let ?h' = "?h\<lparr>named_branches := named_branches ?h @ map (\<lambda>(name, i). (name, the (snapshot_map h i))) ?bs\<rparr>"
  let ?m = "\<lparr>ms_hist = ?h', ms_trees = s\<lparr>hist := hs\<rparr>, ms_block = l_block l\<rparr>"
  have "find_loaded h ''master not found'' (am_master (l_metadata l)) = Inr ?master"
    using place [of "master_node (ms_hist m)"] C by (auto simp: find_loaded_def image_metadata_def)
  moreover have "foldR (\<lambda>h (name, sid). bindR (find_loaded h ''branch not found'' sid) (\<lambda>a. Inr (h\<lparr>named_branches := AList.update name a (named_branches h)\<rparr>))) ?h ?bs
      = Inr ?h'"
  proof (rule branches_restored)
    show "snapshot_map ?h i = Some (the (snapshot_map h i))" if b: "(name, i) \<in> set ?bs" for name i
    proof -
      obtain a where a: "(name, a) \<in> set (named_branches (ms_hist m))" "i = sid_of m a" using b by (auto simp: image_metadata_def)
      then have "a \<in> heads (ms_hist m)" by force
      then obtain y where "snapshot_map h i = Some y" using place a(2) by blast
      then show ?thesis by simp
    qed
    have "map fst ?bs = map fst (named_branches (ms_hist m))" by (simp add: image_metadata_def case_prod_beta comp_def)
    then show "distinct (map fst (named_branches ?h @ ?bs))" using h(3) storable_histD(6) [OF S] by simp
  qed
  ultimately have "link_all c l d = Inr ?m" using s(1) h(1) C by (simp add: link_all_def image_metadata_def)
  moreover have "mirrors m l (?h', hs)" by (rule mirrors_cong [OF h(2)]) simp_all
  then have "loaded c ops m l W ?m" unfolding loaded_def
    using s(2) h(3,4) place [of "master_node (ms_hist m)"]
    by (auto simp: has_place_def image_metadata_def empty_history_def case_prod_beta comp_def)
  ultimately show ?thesis by blast
qed

lemma loaded_branch_head:
  assumes S: "storable c ops m" and L: "loaded c ops m l W m'"
  shows "branch_head (ms_hist m') name = branch_head (ms_hist m) name" "master_id (ms_hist m') = master_id (ms_hist m)"
proof -
  have M: "mirrors m l (ms_hist m', hist (ms_trees m'))" using L by (simp add: loaded_def)
  have live: "h_nodes (ms_hist m) a \<noteq> None" if "a \<in> heads (ms_hist m)" for a by (rule storable_histD(5) [OF S that])
  have sid: "\<exists>n n'. h_nodes (ms_hist m) a = Some n \<and> h_nodes (ms_hist m') y = Some n' \<and> h_snapshot_id n' = h_snapshot_id n"
    if "a \<in> heads (ms_hist m)" "snapshot_map (ms_hist m') (sid_of m a) = Some y" for a y
    using live [OF that(1)] mirrors_id [OF M live [OF that(1)], of y] that(2) by (auto simp: has_place_def sid_of_def)
  show "master_id (ms_hist m') = master_id (ms_hist m)"
    using sid [of "master_node (ms_hist m)" "master_node (ms_hist m')"] L by (auto simp: loaded_def has_place_def master_id_def)
  have nb: "map_of (named_branches (ms_hist m')) name = map_option (\<lambda>a. the (snapshot_map (ms_hist m') (sid_of m a))) (map_of (named_branches (ms_hist m)) name)"
    using L by (simp add: loaded_def map_of_map)
  show "branch_head (ms_hist m') name = branch_head (ms_hist m) name"
  proof (cases "map_of (named_branches (ms_hist m)) name")
    case None then show ?thesis using nb by (simp add: branch_head_def)
  next
    case (Some a)
    have "a \<in> heads (ms_hist m)" using map_of_SomeD [OF Some] by force
    then obtain y where y: "snapshot_map (ms_hist m') (sid_of m a) = Some y" using mirrors_place [OF M live] by blast
    then show ?thesis using Some nb sid [OF \<open>a \<in> heads (ms_hist m)\<close> y] by (auto simp: branch_head_def deref_def)
  qed
qed

text \<open>A recursion over the loaded history that has nothing to do at any node.\<close>

lemma loaded_walk:
  assumes S: "storable c ops m" and M: "mirrors m l (s, hs)"
    and step: "\<And>d x n y n'. h_nodes (ms_hist m) x = Some n \<Longrightarrow> h_nodes s y = Some n' \<Longrightarrow> h_status n' = h_status n \<Longrightarrow> h_root n' = h_root n
      \<Longrightarrow> (\<And>z. z \<in> set (h_children n') \<Longrightarrow> f d z = Inr (w :: 'w)) \<Longrightarrow> f (Suc d) y = (Inr w :: 'e + 'w)"
  shows "card (sub (ms_hist m) x) \<le> d \<Longrightarrow> h_nodes (ms_hist m) x \<noteq> None \<Longrightarrow> has_place m s x y \<Longrightarrow> f d y = Inr w"
proof (induction d arbitrary: x y)
  case 0
  then show ?case using sub_finite(1) [OF storable_histD(2) [OF S] 0(2)] sub_self [of x "ms_hist m"] by auto
next
  case (Suc d)
  note T = storable_histD(2) [OF S]
  obtain n where n: "h_nodes (ms_hist m) x = Some n" using Suc.prems(2) by blast
  obtain n' where n': "h_nodes s y = Some n'" "h_status n' = h_status n" "h_root n' = h_root n" "list_all2 (has_place m s) (h_children n) (h_children n')"
    by (rule mirrorsD [OF M n]) (use Suc.prems(3) in \<open>auto simp: has_place_def\<close>)
  have "f d z = Inr w" if z: "z \<in> set (h_children n')" for z
  proof -
    obtain i where i: "i < length (h_children n')" "z = h_children n' ! i" using z by (auto simp: in_set_conv_nth)
    then have c: "has_place m s (h_children n ! i) z" "h_children n ! i \<in> set (h_children n)" using n'(4) by (auto simp: list_all2_conv_all_nth)
    show ?thesis by (rule Suc.IH [OF _ _ c(1)]) (use sub_smaller [OF T n c(2)] Suc.prems(1) Snapshot_Laws.tree_okD(3) [OF T n c(2)] in auto)
  qed
  then show ?case by (rule step [OF n n'(1-3)])
qed

lemma loaded_size:
  assumes S: "storable c ops m" and M: "mirrors m l (s, hs)"
  shows "card (dom (h_nodes (ms_hist m))) \<le> h_next s"
proof -
  let ?D = "dom (h_nodes (ms_hist m))" and ?f = "\<lambda>x. the (snapshot_map s (sid_of m x))"
  have place: "has_place m s x (?f x)" if x: "x \<in> ?D" for x using mirrors_place [OF M, of x] x by (auto simp: has_place_def)
  have "inj_on ?f ?D"
  proof (rule inj_onI)
    fix x y assume xy: "x \<in> ?D" "y \<in> ?D" "?f x = ?f y"
    then have "sid_of m x = sid_of m y" using mirrors_id [OF M _ place [OF xy(1)]] mirrors_id [OF M _ place [OF xy(2)]] by auto
    then show "x = y" using sid_inj [OF S] xy(1,2) by blast
  qed
  moreover have "?f ` ?D \<subseteq> {..<h_next s}"
  proof
    fix z assume "z \<in> ?f ` ?D"
    then obtain x n where x: "h_nodes (ms_hist m) x = Some n" "z = ?f x" by blast
    show "z \<in> {..<h_next s}" by (rule mirrorsD [OF M x(1)]) (use x(2) in \<open>auto simp: has_place_def\<close>)
  qed
  ultimately show ?thesis using card_inj_on_le [of ?f ?D "{..<h_next s}"] by simp
qed

lemma load_store_all_committed:
  assumes S: "storable c ops m" and L: "loaded c ops m l W m'" and all: "\<And>a n. h_nodes (ms_hist m) a = Some n \<Longrightarrow> h_root n \<and> h_status n \<noteq> DROPPED"
  shows "do_delete_dropped (h_next (ms_hist m')) m' (history_tree (ms_hist m')) = Inr m'" "pack_store (ms_hist m') = Inr (ms_hist m')"
proof -
  note T = storable_histD(2) [OF S]
  have M: "mirrors m l (ms_hist m', hist (ms_trees m'))" using L by (simp add: loaded_def)
  have root: "h_nodes (ms_hist m) (history_tree (ms_hist m)) \<noteq> None" using tree_ok_root [OF T] by auto
  have place: "has_place m (ms_hist m') (history_tree (ms_hist m)) (history_tree (ms_hist m'))" using L by (simp add: loaded_def)
  have size: "card (sub (ms_hist m) (history_tree (ms_hist m))) \<le> h_next (ms_hist m')" using loaded_size [OF S M] sub_root [OF T] by simp
  show "do_delete_dropped (h_next (ms_hist m')) m' (history_tree (ms_hist m')) = Inr m'"
    by (rule loaded_walk [OF S M _ size root place, where f = "\<lambda>d. do_delete_dropped d m'"]) (use all in \<open>auto intro!: foldR_id\<close>)
  have "do_pack_node (h_next (ms_hist m')) bs (ms_hist m') (history_tree (ms_hist m')) = Inr (ms_hist m')" for bs
  proof (rule loaded_walk [OF S M _ size root place, where f = "\<lambda>d. do_pack_node d bs (ms_hist m')"])
    fix d x n y n' assume n: "h_nodes (ms_hist m) x = Some n" "h_nodes (ms_hist m') y = Some n'" "h_root n' = h_root n"
      "\<And>z. z \<in> set (h_children n') \<Longrightarrow> do_pack_node d bs (ms_hist m') z = Inr (ms_hist m')"
    then show "do_pack_node (Suc d) bs (ms_hist m') y = Inr (ms_hist m')" using all [OF n(1)] by (simp add: deref_def foldR_id)
  qed
  moreover have "pack_branch (ms_hist m') b = Inr (ms_hist m')" if b: "b \<in> set (named_branches (ms_hist m'))" for b
  proof -
    obtain name a where a: "(name, a) \<in> set (named_branches (ms_hist m))" "snd b = the (snapshot_map (ms_hist m') (sid_of m a))"
      using b L by (auto simp: loaded_def)
    have "a \<in> heads (ms_hist m)" using a(1) by force
    then obtain n where n: "h_nodes (ms_hist m) a = Some n" using storable_histD(5) [OF S] by blast
    show ?thesis by (rule mirrorsD [OF M n]) (use a(2) all [OF n] in \<open>auto simp: has_place_def pack_branch_def deref_def\<close>)
  qed
  ultimately show "pack_store (ms_hist m') = Inr (ms_hist m')" by (simp add: pack_store_def foldR_id)
qed

lemma load_image_ok:
  fixes m :: "('k :: {linorder, zero}, 'b) mem_store"
  assumes p: "pack_store (ms_hist m) = Inr h" and S: "storable c ops (m\<lparr>ms_hist := h\<rparr>)"
  shows "\<exists>ts n l W m'. do_store c ops m = Inr (Raw signature # ts @ [Byte (type_code TYPE_CHECKSUM), Int64 n])
    \<and> (\<forall>k. k \<noteq> n \<longrightarrow> load_image c ops blk (Raw signature # ts @ [Byte (type_code TYPE_CHECKSUM), Int64 k]) = Inl (LoadError ''records checksum''))
    \<and> load_image c ops blk (Raw signature # ts @ [Byte (type_code TYPE_CHECKSUM), Int64 n]) = Inr m'
    \<and> image_loaded c ops (m\<lparr>ms_hist := h\<rparr>) W l \<and> loaded c ops (m\<lparr>ms_hist := h\<rparr>) l W m'"
proof -
  obtain ts l n W where 1: "do_store c ops m = Inr (Raw signature # ts @ [Byte (type_code TYPE_CHECKSUM), Int64 n])"
    "\<forall>k. read_records (length ts + 2) c ops (empty_loader blk) 0 (ts @ [Byte (type_code TYPE_CHECKSUM), Int64 k]) = Inr (l, n, k)"
    "image_loaded c ops (m\<lparr>ms_hist := h\<rparr>) W l" "card (dom (h_nodes h)) \<le> length ts"
    using store_reads_back [OF S p, of blk] by blast
  obtain m' where m': "link_all c l (length ts + 2) = Inr m'" "loaded c ops (m\<lparr>ms_hist := h\<rparr>) l W m'"
    using link_all_ok [OF S 1(3), of "length ts + 2"] 1(4) by auto
  have sig: "check_signature signature = Inr ()" "length signature = 12" by (simp_all add: check_signature_def signature_def)
  have "load_image c ops blk (Raw signature # ts @ [Byte (type_code TYPE_CHECKSUM), Int64 k])
      = (if n \<noteq> k then Inl (LoadError ''records checksum'') else Inr m')" for k
    using 1(2) m'(1) sig by (simp add: load_image_def)
  then show ?thesis using 1(1,3) m'(2) by (intro exI [of _ ts] exI [of _ n] exI [of _ l] exI [of _ W] exI [of _ m']) simp
qed

section \<open>Properties of saving and loading\<close>

text \<open>A small store for the examples: the two trees of \<open>demo_store\<close> with identifiers for their nodes, and blocks that are numbers.\<close>

fun with_id :: "nat \<Rightarrow> 'k tnode \<Rightarrow> 'k tnode" where
  "with_id i (Branch n) = Branch (n\<lparr>node_id := i\<rparr>)"
| "with_id i (Leaf n) = Leaf (n\<lparr>node_id := i\<rparr>)"

definition image_trees :: "nat store" where
  "image_trees = demo_store\<lparr>nodes := (\<lambda>a. map_option (with_id a) (nodes demo_store a)),
     hist := (\<lambda>h. map_option (\<lambda>hn. hn\<lparr>hn_status := COMMITTED\<rparr>) (hist demo_store h))\<rparr>"

definition image_history :: hist_store where
  "image_history =
     \<lparr>h_nodes = [1 \<mapsto> \<lparr>h_parent = None, h_children = [2], h_root = True, h_status = COMMITTED, h_snapshot_id = 51, h_references = 0, h_metadata = ''first''\<rparr>,
                 2 \<mapsto> \<lparr>h_parent = Some 1, h_children = [], h_root = True, h_status = COMMITTED, h_snapshot_id = 52, h_references = 0, h_metadata = ''second''\<rparr>],
      h_next = 3, history_tree = 1, master_node = 2, snapshot_map = [51 \<mapsto> 1, 52 \<mapsto> 2], named_branches = [(''main'', 2)], active_snapshots = 0\<rparr>"

definition image_store :: "(nat, nat) mem_store" where
  "image_store = \<lparr>ms_hist = image_history, ms_trees = image_trees, ms_block = (\<lambda>b. 7 * b)\<rparr>"

definition nat_ops :: "nat block_ops" where
  "nat_ops = \<lparr>ops_uuid = (\<lambda>b. b), ops_memory_size = (\<lambda>b. 8), ops_ctr_hash = (\<lambda>b. 1), ops_block_hash = (\<lambda>b. 2),
     ops_serialize = (\<lambda>b. Some [b]), ops_deserialize = (\<lambda>c h bs. case bs of [b] \<Rightarrow> Some b | _ \<Rightarrow> None)\<rparr>"

lemma with_id_simps [simp]:
  "children (with_id i t) = children t" "tid (with_id i t) = i" "with_id i t = Branch n \<longleftrightarrow> (\<exists>k. t = Branch k \<and> n = k\<lparr>node_id := i\<rparr>)"
  "with_id i t = Leaf q \<longleftrightarrow> (\<exists>k. t = Leaf k \<and> q = k\<lparr>node_id := i\<rparr>)"
  by (cases t; auto)+

lemma node_id_irrelevant [simp]:
  "node_ok c (n\<lparr>node_id := i\<rparr>) = node_ok c n" "keys_of (n\<lparr>node_id := i\<rparr>) = keys_of n"
  by (simp_all add: node_ok_def node_shape_def index_ok_def last_idx_def keys_of_def)

lemma tree_ok_with_id:
  "PTree_Spec.tree_ok c (\<lambda>a. map_option (with_id a) (H a)) d a lo hi = PTree_Spec.tree_ok c H d a lo hi"
  by (induction d arbitrary: a lo hi) (auto split: option.splits tnode.splits simp: child_lo_def child_hi_def)

lemma image_trees_ok: "store_ok small_cfg image_trees" "snapshot_tree small_cfg image_trees 1 1" "snapshot_tree small_cfg image_trees 2 1"
proof -
  have d: "dom (nodes image_trees) = dom (nodes demo_store)" "dom (hist image_trees) = dom (hist demo_store)" by (auto simp: image_trees_def)
  have s: "slots (nodes image_trees) x = slots (nodes demo_store) x" for x
    unfolding slots_def d(1) by (rule sum.cong [OF refl]) (auto simp: image_trees_def)
  have r: "root_count (hist image_trees) x = root_count (hist demo_store) x" for x
    unfolding root_count_def d(2) by (rule arg_cong [where f = card]) (auto simp: image_trees_def)
  have o: "next_node image_trees = next_node demo_store" "blocks image_trees = blocks demo_store" "refs image_trees = refs demo_store"
    by (simp_all add: image_trees_def)
  note ok = demo_store_ok [unfolded store_ok_def]
  show "store_ok small_cfg image_trees" unfolding store_ok_def d s r o
  proof (intro conjI allI impI)
    show "set (children t) \<subseteq> dom (nodes demo_store)" if "nodes image_trees a = Some t" for a t
      using that store_okD(5) [OF demo_store_ok] by (force simp: image_trees_def)
    show "hn_root hn = 0 \<or> nodes image_trees (hn_root hn) \<noteq> None" if "hist image_trees h = Some hn" for h hn
      using that store_okD(10) [OF demo_store_ok, of h] by (auto simp: image_trees_def)
    fix a n assume "nodes image_trees a = Some (Branch n)"
    then obtain k where k: "nodes demo_store a = Some (Branch k)" "n = k\<lparr>node_id := a\<rparr>" by (auto simp: image_trees_def)
    then have "node_ok small_cfg k \<and> node_type k = BRANCH \<and> distinct (children (Branch k))" using ok by blast
    then show "node_ok small_cfg n" "node_type n = BRANCH" "distinct (children (Branch n))" using k(2) by simp_all
  next
    fix a n assume "nodes image_trees a = Some (Leaf n)"
    then obtain k where k: "nodes demo_store a = Some (Leaf k)" "n = k\<lparr>node_id := a\<rparr>" by (auto simp: image_trees_def)
    then have "node_ok small_cfg k \<and> node_type k = LEAF \<and> (\<forall>i < node_size k. block_ptr (node_data k ! i) \<in> dom (blocks demo_store))" using ok by blast
    then show "node_ok small_cfg n" "node_type n = LEAF" "\<And>i. i < node_size n \<Longrightarrow> block_ptr (node_data n ! i) \<in> dom (blocks demo_store)"
      using k(2) by simp_all
  qed (use ok in blast)+
  have "root_of image_trees h = root_of demo_store h" if "h = 1 \<or> h = 2" for h using that by (auto simp: root_of_def image_trees_def demo_store_def)
  then show "snapshot_tree small_cfg image_trees 1 1" "snapshot_tree small_cfg image_trees 2 1"
    using demo_snapshots by (simp_all add: snapshot_tree_def image_trees_def tree_ok_with_id)
qed

lemma image_storable: "storable small_cfg nat_ops image_store"
proof -
  have "storable_trees small_cfg nat_ops image_store" unfolding storable_trees_def
  proof (intro conjI allI impI)
    show "store_ok small_cfg (ms_trees image_store)" using image_trees_ok(1) by (simp add: image_store_def)
    show "a = b" if "nodes (ms_trees image_store) a = Some t" "nodes (ms_trees image_store) b = Some u" "tid t = tid u" for a b t u
      using that by (auto simp: image_store_def image_trees_def)
    show "tid t \<noteq> 0" if "nodes (ms_trees image_store) a = Some t" for a t
      using that store_okD(4) [OF demo_store_ok, of a] by (auto simp: image_store_def image_trees_def)
    show "a = b" if "block_id nat_ops image_store a = block_id nat_ops image_store b" for a b
      using that by (simp add: block_id_def nat_ops_def image_store_def)
  qed (simp_all add: nat_ops_def small_cfg_def Indexes_def)
  moreover have "Snapshot_Laws.tree_ok image_history" "ids_ok image_history"
    by (auto simp: Snapshot_Laws.tree_ok_def ids_ok_def image_history_def split: if_splits)
  moreover have "\<exists>hn. hist image_trees a = Some hn \<and> (h_root n \<longleftrightarrow> hn_root hn \<noteq> 0) \<and> (hn_root hn \<noteq> 0 \<longrightarrow> height (nodes image_trees) 8 (hn_root hn))"
    if n: "h_nodes image_history a = Some n" for a n
  proof -
    have a: "a = 1 \<or> a = 2" "h_root n" using n by (auto simp: image_history_def split: if_splits)
    then have "snapshot_tree small_cfg image_trees a 1" using image_trees_ok by auto
    then have "height (nodes image_trees) 8 (root_of image_trees a)"
      using height_mono [OF height_tree_ok, of small_cfg "nodes image_trees" 1 _ None None 8] by (simp add: snapshot_tree_def)
    then show ?thesis using a by (auto simp: root_of_def image_trees_def demo_store_def)
  qed
  ultimately show ?thesis by (simp add: storable_def image_store_def) (simp add: image_history_def)
qed

lemma image_packed:
  "pack_store (ms_hist image_store) = Inr image_history" "storable small_cfg nat_ops (image_store\<lparr>ms_hist := image_history\<rparr>)"
proof -
  show "pack_store (ms_hist image_store) = Inr image_history"
    by (simp add: image_store_def image_history_def pack_store_def deref_def pack_branch_def numeral_eq_Suc)
  have "image_store\<lparr>ms_hist := image_history\<rparr> = image_store" by (simp add: image_store_def)
  then show "storable small_cfg nat_ops (image_store\<lparr>ms_hist := image_history\<rparr>)" using image_storable by simp
qed

text \<open>The store \<open>m'\<close> gives the answers of \<open>m\<close>, whatever the addresses of its nodes and blocks.\<close>

definition same_store :: "node_cfg \<Rightarrow> ('k :: linorder, 'b) mem_store \<Rightarrow> ('k, 'b) mem_store \<Rightarrow> bool" where
  "same_store c m m' \<longleftrightarrow>
     (\<forall>a n. h_nodes (ms_hist m) a = Some n \<longrightarrow> same_answers (ms_hist m) (ms_hist m') (h_snapshot_id n)
        \<and> (has_tree c (ms_trees m) a \<longrightarrow> (\<forall>key. find_block c m' (h_snapshot_id n) key = find_block c m (h_snapshot_id n) key)))
     \<and> dom (snapshot_map (ms_hist m')) = {h_snapshot_id n |a n. h_nodes (ms_hist m) a = Some n}
     \<and> (\<forall>name. branch_head (ms_hist m') name = branch_head (ms_hist m) name) \<and> master_id (ms_hist m') = master_id (ms_hist m)"

lemma loaded_same:
  assumes S: "storable c ops m" and I: "image_loaded c ops m W l" and L: "loaded c ops m l W m'"
  shows "same_store c m m'"
proof -
  have M: "mirrors m l (ms_hist m', hist (ms_trees m'))" using L by (simp add: loaded_def)
  have "find_block c m' (h_snapshot_id n) key = find_block c m (h_snapshot_id n) key" if "h_nodes (ms_hist m) a = Some n" "has_tree c (ms_trees m) a" for a n key
    by (rule loaded_find [OF S I M]) (use that L in \<open>auto simp: loaded_def\<close>)
  moreover have "dom (snapshot_map (ms_hist m')) = {h_snapshot_id n |a n. h_nodes (ms_hist m) a = Some n}"
    using M by (force simp: mirrors_def sid_of_def)
  ultimately show ?thesis using mirrors_answers [OF S M] loaded_branch_head [OF S L] unfolding same_store_def by blast
qed

text \<open>
  C5: Saving a packed, well-formed store succeeds, and loading the image gives a store in which every snapshot has its
  status, description, parent and children (by identifier and in order), no other identifier is known, every branch name and
  the master lead to the same snapshot, and a key is found in a snapshot's tree with the same block and the same
  writer. If no snapshot is dropped, the last part of loading changes nothing.
\<close>

theorem store_load_roundtrip:
  fixes m :: "('k :: {linorder, zero}, 'b) mem_store"
  assumes p: "pack_store (ms_hist m) = Inr h" and S: "storable c ops (m\<lparr>ms_hist := h\<rparr>)"
  shows "\<exists>ts m'. do_store c ops m = Inr ts \<and> load_image c ops blk ts = Inr m' \<and> same_store c (m\<lparr>ms_hist := h\<rparr>) m'
    \<and> ((\<forall>a n. h_nodes h a = Some n \<longrightarrow> h_root n \<and> h_status n \<noteq> DROPPED) \<longrightarrow> load_store c ops blk ts = Inr m')"
proof -
  let ?m = "m\<lparr>ms_hist := h\<rparr>"
  obtain ts n l W m' where 1: "do_store c ops m = Inr (Raw signature # ts @ [Byte (type_code TYPE_CHECKSUM), Int64 n])"
    and 2: "load_image c ops blk (Raw signature # ts @ [Byte (type_code TYPE_CHECKSUM), Int64 n]) = Inr m'"
    and I: "image_loaded c ops ?m W l" and L: "loaded c ops ?m l W m'"
    using load_image_ok [OF p S, of blk] by blast
  let ?ts = "Raw signature # ts @ [Byte (type_code TYPE_CHECKSUM), Int64 n]"
  have "load_store c ops blk ?ts = Inr m'" if "\<forall>a n. h_nodes h a = Some n \<longrightarrow> h_root n \<and> h_status n \<noteq> DROPPED"
    using load_store_all_committed [OF S L] that 2 by (simp add: load_store_def)
  then show ?thesis using 1 2 loaded_same [OF S I L] by blast
qed

theorem store_load_roundtrip_witness:
  "\<exists>ts m'. do_store small_cfg nat_ops image_store = Inr ts \<and> load_store small_cfg nat_ops 0 ts = Inr m'
    \<and> find_block small_cfg m' 52 30 = Some (Some (7, 1)) \<and> children_of (ms_hist m') 51 = Inr [52]"
proof -
  have m: "image_store\<lparr>ms_hist := image_history\<rparr> = image_store" by (simp add: image_store_def)
  have all: "\<forall>a n. h_nodes image_history a = Some n \<longrightarrow> h_root n \<and> h_status n \<noteq> DROPPED" by (simp add: image_history_def)
  obtain n1 n2 where n: "h_nodes image_history 1 = Some n1" "h_snapshot_id n1 = 51" "h_nodes image_history 2 = Some n2" "h_snapshot_id n2 = 52"
    by (simp add: image_history_def)
  have h: "ms_hist image_store = image_history" by (simp add: image_store_def)
  have t: "has_tree small_cfg (ms_trees image_store) 2" using image_trees_ok(3) by (auto simp: has_tree_def image_store_def)
  have f: "find_block small_cfg image_store 52 30 = Some (Some (7, 1))" by code_simp
  have c: "children_of image_history 51 = Inr [52]" by code_simp
  obtain ts m' where r: "do_store small_cfg nat_ops image_store = Inr ts" "load_store small_cfg nat_ops 0 ts = Inr m'" "same_store small_cfg image_store m'"
    using store_load_roundtrip [OF image_packed, of 0, unfolded m] all by blast
  have "same_answers image_history (ms_hist m') 51" "find_block small_cfg m' 52 30 = find_block small_cfg image_store 52 30"
    using r(3) n t unfolding same_store_def h by metis+
  then show ?thesis using r(1,2) f c by (auto simp: same_answers_def)
qed



end
