(* ===== verification/Spec2Isabelle.thy ===== *)
theory Spec2Isabelle
  imports Bitmap Bitmap_Count Bitmap_Select Codecs PTree_Node PTree_Faults PTree_Snapshots FQTree_Search
    Packed_Allocator_Laws Packed_Sizes FQTree_Edits Snapshot_Life Store_Image_Load
begin

text \<open>
  \<^bold>\<open>Memoria: a verification library.\<close>

  Memoria is a C++ library for data stores with snapshots. A store keeps a tree of snapshots, its history. Every snapshot maps
  block identifiers to data blocks by a copy-on-write B+tree, which shares its nodes and blocks with the snapshots it was
  branched from. A data block is one piece of memory that a packed allocator divides among packed structures: sum
  trees with an index, bitmaps, sequences of encoded values. The containers (maps, vectors, sequences) are trees of
  such blocks. This library models, from the bottom up, the bit and byte routines, the packed memory, the copy-on-write tree,
  the life cycle of snapshots and the image of a store in a stream, as executable definitions with the names of the code, and proves them correct.
  Paths below are under \<^verbatim>\<open>src/include/memoria\<close>.

  \<^bold>\<open>The theories.\<close>

  \<^item> \<open>Prelude\<close>: machine types as words, the collections of rewrite rules, the error monad (\<open>bindR\<close>, \<open>foldR\<close>), facts
    on division, bits and lists.
  \<^item> \<open>Bitmap\<close>, \<open>Bitmap_Count\<close>, \<open>Bitmap_Select\<close> (\<^verbatim>\<open>core/tools/bitmap.hpp\<close>, \<^verbatim>\<open>bitmap_select.hpp\<close>): a buffer is a list of words. Reading
    and writing of bit groups, filling and moving of ranges, population counts, counts of runs by table, and selection of
    the n-th bit, each equal to its definition on the sequence of bits, at every alignment and for overlapping moves.
  \<^item> \<open>Codecs\<close> (\<^verbatim>\<open>core/tools/i7_codec.hpp\<close>, \<^verbatim>\<open>exint_codec.hpp\<close>, \<^verbatim>\<open>i64_codec.hpp\<close>, \<^verbatim>\<open>elias_codec.hpp\<close>, \<^verbatim>\<open>core/bignum/int64_codec.hpp\<close>,
    \<^verbatim>\<open>uint64_codec.hpp\<close>, \<^verbatim>\<open>core/bytes/bytes_codec.hpp\<close>): the locale \<open>value_codec\<close> is the contract of a codec, with the laws that lists
    of values written one after the other are read back unchanged and nothing else is touched; seven codecs are instances. The
    values for which the 64-bit codecs fail are theorems of their own.
  \<^item> \<open>Packed_Allocator\<close>, \<open>Packed_Allocator_Laws\<close>, \<open>Packed_Sizes\<close> (\<^verbatim>\<open>core/packed/tools/packed_allocator.hpp\<close>, \<^verbatim>\<open>packed_tools.hpp\<close>): a
    chain of nested allocators, from the block to the element at hand. Resizing an element moves its successors, in all
    allocators of the chain, and keeps their contents, or reports that memory is exhausted; how many elements fit a block.
  \<^item> \<open>FQTree\<close>, \<open>FQTree_Index\<close>, \<open>FQTree_Search\<close>, \<open>FQTree_Updates\<close>, \<open>FQTree_Edits\<close> (\<^verbatim>\<open>core/packed/tree/fse/packed_fse_quick_tree_base.hpp\<close>,
    \<^verbatim>\<open>packed_fse_quick_tree.hpp\<close>): a packed array of values with a multi-level index of sums. \<open>reindex\<close> establishes the index
    invariant, sums and searches through the index equal linear ones, and the updates are list operations that keep it. The
    locale \<open>sum_walker\<close> is the contract between the walk through the index and the walkers that compare sums with a target.
  \<^item> \<open>PTree_Node\<close>, \<open>PTree\<close>, \<open>PTree_Spec\<close>, \<open>PTree_Writers\<close>, \<open>PTree_Faults\<close>, \<open>PTree_Snapshots\<close>
    (\<^verbatim>\<open>store/memory/common/persistent_tree_node.hpp\<close>, \<^verbatim>\<open>persistent_tree.hpp\<close>, \<^verbatim>\<open>persistent_tree_iterator.hpp\<close>): the copy-on-write tree. A
    store is a heap of nodes with reference counts, counts of the blocks, and the history nodes with their roots. \<open>find\<close>
    looks up the contents of a tree; \<open>assign\<close> updates them in one snapshot and changes no other; a new snapshot has the
    contents of its parent; deleting a snapshot frees nothing that another one reaches. The locale \<open>key_node\<close> is the contract of a
    node, \<open>snapshot_interface\<close> that of the snapshots of a store. \<open>PTree_Faults\<close> has three runs in which
    the code goes wrong.
  \<^item> \<open>Snapshots\<close>, \<open>Snapshot_Laws\<close>, \<open>Snapshot_Pack\<close>, \<open>Snapshot_Life\<close> (\<^verbatim>\<open>store/memory/common/store_base.hpp\<close>, \<^verbatim>\<open>snapshot_base.hpp\<close>,
    \<^verbatim>\<open>store/memory/threads/threads_memory_store_impl.hpp\<close>, \<^verbatim>\<open>threads_snapshot_impl.hpp\<close>): the history as a transition system, whose
    steps are the operations of the store and of the snapshot objects (an instance of the locale \<open>invariant_system\<close>).
    The invariant of the reachable states by rule
    induction; safety of the snapshot objects; the order of the states of a snapshot; when \<open>store\<close> can proceed and when it cannot.
  \<^item> \<open>Store_Image\<close>, \<open>Store_Image_Trees\<close>, \<open>Store_Image_History\<close>, \<open>Store_Image_Load\<close> (the \<open>write\<close> and \<open>read\<close> functions and \<open>load\<close> of
    \<^verbatim>\<open>store_base.hpp\<close>, \<open>do_store\<close> of \<^verbatim>\<open>threads_memory_store_impl.hpp\<close>): saving a store as a sequence of records and loading it. The loaded
    store has other addresses and gives the same answers: the history, the branches and the blocks under every key of every
    snapshot. A wrong signature or number of records is refused. \<open>stream_codec\<close> is the contract of a pair of a
    \<open>write\<close> and a \<open>read\<close> function; the serialisation of a block by its container is a parameter, \<open>block_ops\<close>.
  \<^item> this theory: the life cycle and the trees together.

  \<^bold>\<open>Conventions.\<close> Errors that the code returns and memory errors are different values. In the tree, \<open>None\<close> is undefined behaviour (a bad
  pointer, a wrong cast, an index out of range) or a failed assertion. In the life cycle, \<open>Inl (Refused _)\<close> is an error
  result and \<open>Inl Undef\<close> a bad pointer. In loading, \<open>LoadError\<close> is an error result, \<open>Terminates\<close> an exception that leaves a
  \<open>noexcept\<close> function, \<open>Garbled\<close> a stream with other values than those asked for, and \<open>Unsafe\<close> a memory error. In the packed allocator,
  \<open>PackedOOM\<close> and \<open>GenericError\<close> are error results and \<open>Undefined\<close> an access outside the memory; in the sum tree, a read outside an
  array is \<open>None\<close>, and memory that was not written yet has the arbitrary contents \<open>Stale\<close>. Random
  identifiers are counters or arguments: only their distinctness is used. Integers are words where the code relies on
  their width, and unbounded where an assumption bounds them.

  \<^bold>\<open>Loops and bounds.\<close> Loops are recursive functions with termination proofs, or \<open>partial_function (option)\<close> where the code itself
  relies on the data to end the loop (\<open>find_value_in\<close>, \<open>live_ancestor\<close>, \<open>committed_from\<close>, \<open>linear_from\<close>, the walks through the index); the theorems
  show that they return. The recursions over trees in the heap (\<open>delete_tree\<close>, \<open>walk_tree\<close>, \<open>conditional_tree_traverse\<close>, \<open>do_pack_node\<close>)
  carry a bound on their depth: the height of the tree plus one is enough for \<open>delete_tree\<close>, and \<open>h_next\<close>, the
  number of history nodes ever made, for \<open>do_pack_node\<close>, \<open>walk_version_tree\<close> and \<open>do_delete_dropped\<close>; the length of the
  stream for \<open>read_records\<close> and \<open>build_history_tree\<close>, since a record is at least one value and parents are older than their children. A path in the tree has at
  most 8 nodes and the layout of an index at most 8 levels, as in the code; \<open>layout_fits\<close> gives the capacities for which
  8 levels are enough.

  \<^bold>\<open>Concurrency.\<close> An operation that holds its locks throughout is one step. The destructor of a snapshot gives its lock up before
  it deletes, and is therefore three steps; \<open>destructor_hazards\<close> interleaves them with packing.

  \<^bold>\<open>Not modelled.\<close> The containers and the balanced-tree prototypes (\<^verbatim>\<open>prototypes\<close>, \<^verbatim>\<open>containers\<close>) are assembled from packed
  structures by template dispatch, and the other packed structures (variable-length trees, searchable sequences) rest on the
  codecs and selection routines modelled here. Moving containers between snapshots and the contents of a serialised block need the
  containers' own code. Reactor, network and file access are operating-system calls; fibers, contexts and
  file-system classes are copies of Boost; the disruptor is not used by the store.
\<close>

section \<open>The life cycle on the trees\<close>

text \<open>A history of the life cycle and a store of trees that have the same history nodes, all trees well formed.\<close>

definition same_node :: "hnode option \<Rightarrow> hist_node option \<Rightarrow> bool" where
  "same_node x y = (case (x, y) of (None, None) \<Rightarrow> True
     | (Some hn, Some n) \<Rightarrow> hn_parent hn = h_parent n \<and> hn_status hn = h_status n \<and> (hn_root hn \<noteq> 0 \<longleftrightarrow> h_root n)
     | _ \<Rightarrow> False)"

definition joint :: "node_cfg \<Rightarrow> 'k :: linorder store \<Rightarrow> hist_store \<Rightarrow> bool" where
  "joint c s H \<longleftrightarrow> store_ok c s \<and> blocks_counted s \<and> (\<forall>a. same_node (hist s a) (h_nodes H a))
     \<and> (\<forall>a n. h_nodes H a = Some n \<longrightarrow> h_root n \<longrightarrow> (\<exists>d. snapshot_tree c s a d))"

lemma jointD:
  assumes "joint c s H"
  shows "store_ok c s" "blocks_counted s"
    and "h_nodes H a = Some n \<Longrightarrow> \<exists>hn. hist s a = Some hn \<and> hn_parent hn = h_parent n \<and> hn_status hn = h_status n \<and> (hn_root hn \<noteq> 0 \<longleftrightarrow> h_root n)"
    and "h_nodes H a = Some n \<Longrightarrow> h_root n \<Longrightarrow> \<exists>d. snapshot_tree c s a d"
    and "same_node (hist s a) (h_nodes H a)"
proof -
  note J = assms [unfolded joint_def]
  show "store_ok c s" "blocks_counted s" "h_nodes H a = Some n \<Longrightarrow> h_root n \<Longrightarrow> \<exists>d. snapshot_tree c s a d" "same_node (hist s a) (h_nodes H a)"
    using J by blast+
  then show "h_nodes H a = Some n \<Longrightarrow> \<exists>hn. hist s a = Some hn \<and> hn_parent hn = h_parent n \<and> hn_status hn = h_status n \<and> (hn_root hn \<noteq> 0 \<longleftrightarrow> h_root n)"
    by (auto simp: same_node_def split: option.splits)
qed

lemma joint_root:
  assumes J: "joint c s H" and t: "store_ok c t" "blocks_counted t" and a: "h_nodes H a = Some n"
    and h: "hist t = (hist s)(a \<mapsto> (the (hist s a))\<lparr>hn_root := r, hn_root_id := i\<rparr>)" and r: "r \<noteq> 0 \<longleftrightarrow> b" "b \<Longrightarrow> \<exists>d. snapshot_tree c t a d"
    and k: "\<And>k d. k \<noteq> a \<Longrightarrow> snapshot_tree c s k d \<Longrightarrow> snapshot_tree c t k d"
  shows "joint c t (set_node H a (n\<lparr>h_root := b\<rparr>))"
  unfolding joint_def
proof (intro conjI allI impI t)
  obtain hn where hn: "hist s a = Some hn" "hn_parent hn = h_parent n" "hn_status hn = h_status n" using jointD(3) [OF J a] by blast
  fix x show "same_node (hist t x) (h_nodes (set_node H a (n\<lparr>h_root := b\<rparr>)) x)"
    using jointD(5) [OF J, of x] hn r(1) by (cases "x = a") (simp_all add: h same_node_def)
next
  fix x m assume x: "h_nodes (set_node H a (n\<lparr>h_root := b\<rparr>)) x = Some m" "h_root m"
  show "\<exists>d. snapshot_tree c t x d"
  proof (cases "x = a")
    case True
    then show ?thesis using x r(2) by auto
  next
    case False
    then show ?thesis using x jointD(4) [OF J, of x m] k [of x] by auto
  qed
qed

text \<open>
  C6: The life cycle is implemented by the trees. When a history and a store of trees have the same nodes and all
  trees are well formed, then whenever the life cycle gives a new active snapshot its data, the constructor of
  \<open>PersistentTree\<close> succeeds on the trees, and whenever it clears the data of a snapshot, deleting the tree succeeds; both
  lead to the corresponding state, in which every other snapshot finds what it found before.
\<close>

theorem life_cycle_on_trees:
  fixes s :: "'k :: {linorder, zero} store"
  assumes J: "joint c s H" and n: "h_nodes H a = Some n"
  shows "(h_status n = ACTIVE \<and> \<not> h_root n \<and> h_parent n = Some p \<and> persistent_tree_init H a = Inr H1 \<longrightarrow>
      (\<exists>t. PersistentTree c s a = Some (Inr t) \<and> joint c t H1 \<and> (\<forall>key. ptree_find c t a key = ptree_find c s p key)
        \<and> (\<forall>k d key. k \<noteq> a \<and> snapshot_tree c s k d \<longrightarrow> ptree_find c t k key = ptree_find c s k key)))
    \<and> (do_drop H a = Inr H2 \<longrightarrow>
      (\<exists>t. delete_snapshot 8 s a = Some t \<and> joint c t H2
        \<and> (\<forall>k d key. k \<noteq> a \<and> snapshot_tree c s k d \<longrightarrow> ptree_find c t k key = ptree_find c s k key)))"
proof (intro conjI impI)
  note ok = jointD(1,2) [OF J]
  assume "h_status n = ACTIVE \<and> \<not> h_root n \<and> h_parent n = Some p \<and> persistent_tree_init H a = Inr H1"
  then have A: "h_status n = ACTIVE" "\<not> h_root n" "h_parent n = Some p" "persistent_tree_init H a = Inr H1" by blast+
  obtain hn where hn: "hist s a = Some hn" "hn_status hn = ACTIVE" "hn_root hn = 0" "hn_parent hn = Some p"
    using jointD(3) [OF J n] A by auto
  obtain m where m0: "h_nodes H p = Some m" using A n by (cases "h_nodes H p") (simp_all add: persistent_tree_init_def deref_def)
  have m: "h_nodes H p = Some m" "h_status m = COMMITTED" "h_root m" and H1: "H1 = set_node H a (n\<lparr>h_root := True\<rparr>)"
    using A n m0 by (simp_all add: persistent_tree_init_def deref_def split: if_splits)
  obtain pn where pn: "hist s p = Some pn" "hn_status pn = COMMITTED" using jointD(3) [OF J m(1)] m(2) by auto
  obtain d where d: "snapshot_tree c s p d" using jointD(4) [OF J m(1,3)] by blast
  obtain t where t: "PersistentTree c s a = Some (Inr t)" "store_ok c t" "blocks_counted t"
      "hist t = (hist s)(a \<mapsto> hn\<lparr>hn_root := root_of t a, hn_root_id := hn_root_id pn\<rparr>)" "snapshot_tree c t a d" "PTree_Writers.contents t a d = PTree_Writers.contents s p d"
      "\<And>k e. k \<noteq> a \<Longrightarrow> snapshot_tree c s k e \<Longrightarrow> snapshot_tree c t k e \<and> PTree_Writers.contents t k e = PTree_Writers.contents s k e"
    using start_snapshot_aux [OF ok hn pn d] by blast
  have "root_of t a \<noteq> 0"
    using t(5) tree_ok_live [of c "nodes t" d "root_of t a"] store_okD(4) [OF t(2), of "root_of t a"] by (auto simp: snapshot_tree_def)
  then have "joint c t H1" unfolding H1 using t hn(1) by (intro joint_root [OF J t(2,3) n]) auto
  moreover have "ptree_find c t k key = ptree_find c s k key" if "k \<noteq> a \<and> snapshot_tree c s k e" for k e key
    using t(7) [of k e] that ptree_find_contents by metis
  moreover have "ptree_find c t a key = ptree_find c s p key" for key using t(5,6) d ptree_find_contents by metis
  ultimately show "\<exists>t. PersistentTree c s a = Some (Inr t) \<and> joint c t H1 \<and> (\<forall>key. ptree_find c t a key = ptree_find c s p key)
        \<and> (\<forall>k d key. k \<noteq> a \<and> snapshot_tree c s k d \<longrightarrow> ptree_find c t k key = ptree_find c s k key)" using t(1) by blast
next
  note ok = jointD(1,2) [OF J]
  assume "do_drop H a = Inr H2"
  then have "h_root n" and H2: "H2 = set_node H a (n\<lparr>h_root := False\<rparr>)" using n by (simp_all add: do_drop_def deref_def split: if_splits)
  then obtain d where d: "snapshot_tree c s a d" using jointD(4) [OF J n] by blast
  then have "d < 8" by (simp add: snapshot_tree_def)
  from delete_snapshot_aux [OF ok d this] obtain t where t: "delete_snapshot 8 s a = Some t" "store_ok c t" "blocks_counted t"
      "hist t = (hist s)(a \<mapsto> (the (hist s a))\<lparr>hn_root := 0, hn_root_id := 0\<rparr>)"
      "\<And>k e. k \<noteq> a \<Longrightarrow> snapshot_tree c s k e \<Longrightarrow> snapshot_tree c t k e \<and> PTree_Writers.contents t k e = PTree_Writers.contents s k e"
    by blast
  have "joint c t H2" unfolding H2 by (rule joint_root [OF J t(2,3) n t(4)]) (use t(5) in auto)
  moreover have "ptree_find c t k key = ptree_find c s k key" if "k \<noteq> a \<and> snapshot_tree c s k e" for k e key
    using t(5) [of k e] that ptree_find_contents by metis
  ultimately show "\<exists>t. delete_snapshot 8 s a = Some t \<and> joint c t H2
        \<and> (\<forall>k d key. k \<noteq> a \<and> snapshot_tree c s k d \<longrightarrow> ptree_find c t k key = ptree_find c s k key)" using t(1) by blast
qed

definition demo_joint :: hist_store where
  "demo_joint = (base_store 0)\<lparr>h_nodes :=
     [1 \<mapsto> \<lparr>h_parent = None, h_children = [2, 3], h_root = True, h_status = COMMITTED, h_snapshot_id = 1, h_references = 0, h_metadata = []\<rparr>,
      2 \<mapsto> \<lparr>h_parent = Some 1, h_children = [], h_root = True, h_status = ACTIVE, h_snapshot_id = 2, h_references = 1, h_metadata = []\<rparr>,
      3 \<mapsto> \<lparr>h_parent = Some 1, h_children = [], h_root = False, h_status = ACTIVE, h_snapshot_id = 3, h_references = 1, h_metadata = []\<rparr>]\<rparr>"

lemma demo_joint: "joint small_cfg demo_branch demo_joint"
proof -
  have "same_node (hist demo_branch a) (h_nodes demo_joint a)" for a
    by (simp add: same_node_def demo_branch_def demo_store_def demo_joint_def)
  moreover have "\<exists>d. snapshot_tree small_cfg demo_branch a d" if "h_nodes demo_joint a = Some n" "h_root n" for a n
    using that demo_branch_ok(3,4) by (auto simp: demo_joint_def split: if_splits)
  ultimately show ?thesis using demo_branch_ok(1,2) by (simp add: joint_def)
qed

theorem life_cycle_on_trees_witness:
  "\<exists>t. delete_snapshot 8 demo_branch 2 = Some t \<and> ptree_find small_cfg t 1 30 = ptree_find small_cfg demo_branch 1 30"
proof -
  obtain n where n: "h_nodes demo_joint 2 = Some n" "h_root n" by (simp add: demo_joint_def)
  then have d: "do_drop demo_joint 2 = Inr (set_node demo_joint 2 (n\<lparr>h_root := False\<rparr>))" by (simp add: do_drop_def deref_def)
  have "(1 :: nat) \<noteq> 2" by simp
  then show ?thesis using life_cycle_on_trees [OF demo_joint n(1), THEN conjunct2, THEN mp, OF d] demo_branch_ok(3) by blast
qed

end
